(* ===== verification/Dragoon_Prelude.thy ===== *)
theory Dragoon_Prelude
  imports Main "HOL-Library.Word"
begin

text \<open>
  Shared material of the development: names for the C integer types of
  \<^verbatim>\<open>kernel/types.h\<close>, the loop ``first index with a property'' that nearly every pool
  of the kernel uses, bit facts for word bitmaps, and the interface of a fixed pool
  of slots, with what its clients may conclude, stated once as a locale.
\<close>

unbundle bit_operations_syntax

named_theorems frame_simps \<open>fields an operation leaves unchanged\<close>

section \<open>C integer types\<close>

type_synonym u8 = "8 word"
type_synonym u16 = "16 word"
type_synonym u32 = "32 word"
type_synonym u64 = "64 word"

section \<open>Counting loops\<close>

text \<open>
  \<^verbatim>\<open>for (i = from; i < n; i++) if (P(i)) return i;\<close> and a failure value after the loop.
\<close>

function first_idx :: "(nat \<Rightarrow> bool) \<Rightarrow> nat \<Rightarrow> nat \<Rightarrow> nat option" where
  "first_idx P i n = (if i < n then if P i then Some i else first_idx P (Suc i) n else None)"
  by pat_completeness auto
termination
  by (relation "measure (\<lambda>(P, i, n). n - i)") auto

declare first_idx.simps [simp del]

lemma first_idx_SomeD:
  "first_idx P i n = Some k \<Longrightarrow> i \<le> k \<and> k < n \<and> P k \<and> (\<forall>j. i \<le> j \<and> j < k \<longrightarrow> \<not> P j)"
proof (induction P i n rule: first_idx.induct)
  case (1 P i n)
  then show ?case
    by (subst (asm) (2) first_idx.simps)
      (auto split: if_splits simp: less_eq_Suc_le dest: le_neq_implies_less)
qed

lemma first_idx_None: "first_idx P i n = None \<longleftrightarrow> (\<forall>j. i \<le> j \<and> j < n \<longrightarrow> \<not> P j)"
proof (induction P i n rule: first_idx.induct)
  case (1 P i n)
  show ?case
  proof (cases "i < n \<and> \<not> P i")
    case True
    then have "first_idx P i n = first_idx P (Suc i) n"
      by (simp add: first_idx.simps [of P i n])
    then show ?thesis
      using 1 True by (metis Suc_leI Suc_leD le_neq_implies_less)
  next
    case False
    then show ?thesis by (subst first_idx.simps) auto
  qed
qed

lemma first_idx_Some:
  "first_idx P i n = Some k \<longleftrightarrow> i \<le> k \<and> k < n \<and> P k \<and> (\<forall>j. i \<le> j \<and> j < k \<longrightarrow> \<not> P j)"
  (is "?L \<longleftrightarrow> ?R")
proof
  assume ?L then show ?R by (rule first_idx_SomeD)
next
  assume R: ?R
  then obtain k' where k': "first_idx P i n = Some k'"
    using first_idx_None [of P i n] by (cases "first_idx P i n") auto
  with R first_idx_SomeD [OF k'] have "k' = k" by (metis linorder_neqE_nat)
  with k' show ?L by simp
qed

text \<open>A loop whose body runs for every index.\<close>

definition for_loop :: "nat \<Rightarrow> nat \<Rightarrow> (nat \<Rightarrow> 's \<Rightarrow> 's) \<Rightarrow> 's \<Rightarrow> 's" where
  "for_loop i n f s = fold f [i..<n] s"

lemma for_loop_done [simp]: "n \<le> i \<Longrightarrow> for_loop i n f s = s"
  by (simp add: for_loop_def)

lemma for_loop_Suc: "i \<le> n \<Longrightarrow> for_loop i (Suc n) f s = f n (for_loop i n f s)"
  by (simp add: for_loop_def)

lemma for_loop_unroll: "i < n \<Longrightarrow> for_loop i n f s = for_loop (Suc i) n f (f i s)"
  by (simp add: for_loop_def upt_conv_Cons)

lemma for_loop_inv:
  assumes "P i s" and "\<And>j t. i \<le> j \<Longrightarrow> j < n \<Longrightarrow> P j t \<Longrightarrow> P (Suc j) (f j t)" and "i \<le> n"
  shows "P n (for_loop i n f s)"
proof -
  have "P k (for_loop i k f s)" if "i \<le> k" "k \<le> n" for k
    using that
  proof (induction k rule: dec_induct)
    case base then show ?case using assms(1) by simp
  next
    case (step k) then show ?case by (simp add: for_loop_Suc assms(2))
  qed
  then show ?thesis using assms(3) by simp
qed

lemma for_loop_frame:
  "(\<And>j t. g (f j t) = g t) \<Longrightarrow> g (for_loop i n f s) = g s"
  by (induction n) (auto simp: for_loop_def)

section \<open>Bits of words\<close>

lemma test_bit_shift [simp]:
  fixes w :: "'a::len word"
  shows "drop_bit n w AND 1 \<noteq> 0 \<longleftrightarrow> bit w n"
  by (simp add: and_one_eq mod2_eq_if even_drop_bit_iff_not_bit)

lemma test_bit_shift0 [simp]:
  fixes w :: "'a::len word"
  shows "drop_bit n w AND 1 = 0 \<longleftrightarrow> \<not> bit w n"
  using test_bit_shift [of n w] by blast

text \<open>The simplifier writes \<open>push_bit n 1\<close>, C's \<open>1 << n\<close>, as \<open>2 ^ n\<close>.\<close>

lemma bit_or_one_shift [simp]:
  fixes w :: "'a::len word"
  shows "bit (w OR 2 ^ n) k \<longleftrightarrow> bit w k \<or> (k = n \<and> n < LENGTH('a))"
  by (auto simp: bit_or_iff bit_exp_iff dest: bit_imp_le_length)

lemma bit_andnot_one_shift [simp]:
  fixes w :: "'a::len word"
  shows "bit (w AND NOT (2 ^ n)) k \<longleftrightarrow> bit w k \<and> k \<noteq> n"
  by (auto simp: bit_and_iff bit_not_iff bit_exp_iff dest: bit_imp_le_length)

lemma and_one_shift_eq0 [simp]:
  fixes w :: "'a::len word"
  shows "w AND 2 ^ n = 0 \<longleftrightarrow> \<not> bit w n"
proof
  assume "w AND 2 ^ n = 0"
  then have "\<not> bit (w AND 2 ^ n) n" by simp
  then show "\<not> bit w n" by (auto simp: bit_and_iff bit_exp_iff dest: bit_imp_le_length)
next
  assume "\<not> bit w n"
  then show "w AND 2 ^ n = 0" by (auto intro!: bit_word_eqI simp: bit_and_iff bit_exp_iff)
qed

text \<open>\<open>x & ~0xFFF\<close>, which the simplifier writes with \<open>- 4096\<close>, clears the page offset.\<close>

lemma and_not_mask:
  fixes x :: "'a::len word"
  shows "x AND NOT (mask n) = push_bit n (drop_bit n x)"
  by (auto intro!: bit_word_eqI simp: bit_simps)

lemma and_page_mask: "(x :: u64) AND - 4096 = push_bit 12 (drop_bit 12 x)"
  using and_not_mask [of x 12] by (simp add: mask_eq_exp_minus_1)

lemma unat_and_not_mask: "n < 64 \<Longrightarrow> unat ((x :: u64) AND NOT (mask n)) = unat x div 2 ^ n * 2 ^ n"
proof -
  assume n: "n < 64"
  have d: "unat (drop_bit n x) = unat x div 2 ^ n"
    by (rule trans [OF unat_drop_bit_eq drop_bit_eq_div])
  have "unat x < 2 ^ LENGTH(64)" by (rule unsigned_less)
  then have "unat x div 2 ^ n * 2 ^ n < 2 ^ LENGTH(64)"
    by (rule le_less_trans [OF div_times_less_eq_dividend])
  then have "take_bit LENGTH(64) (unat x div 2 ^ n * 2 ^ n) = unat x div 2 ^ n * 2 ^ n"
    by (rule take_bit_nat_eq_self)
  moreover have "unat ((x :: u64) AND NOT (mask n)) = take_bit LENGTH(64) (push_bit n (unat (drop_bit n x)))"
    unfolding and_not_mask by (rule unsigned_push_bit_eq)
  ultimately show ?thesis
    by (simp only: d push_bit_eq_mult)
qed

lemma unat_and_page_mask: "unat ((x :: u64) AND - 4096) = unat x div 4096 * 4096"
  using unat_and_not_mask [of 12 x] by (simp add: mask_eq_exp_minus_1)

lemma bitmap_index_unique: "i div m = j div m \<Longrightarrow> i mod m = j mod m \<Longrightarrow> i = (j::nat)"
  by (metis div_mult_mod_eq)

section \<open>Arithmetic that does not wrap\<close>

lemma unat_of_nat_small: "n < 2 ^ LENGTH('a) \<Longrightarrow> unat (of_nat n :: 'a::len word) = n"
  by (simp add: unat_of_nat take_bit_nat_eq_self)

lemma unat_add_small:
  fixes x y :: "'a::len word"
  shows "unat x + unat y < 2 ^ LENGTH('a) \<Longrightarrow> unat (x + y) = unat x + unat y"
  by (simp add: unat_word_ariths)

lemma unat_mult_small:
  fixes x y :: "'a::len word"
  shows "unat x * unat y < 2 ^ LENGTH('a) \<Longrightarrow> unat (x * y) = unat x * unat y"
  by (simp add: unat_word_ariths)

lemmas unat_small = unat_of_nat_small unat_add_small unat_mult_small

section \<open>The interface of a fixed pool of slots\<close>

text \<open>
  The page bitmap, the ASID bitmap, the capability pool, the wait-queue entry pool and
  the IPC endpoint table all offer the same service: hand out a slot that is not in
  use, or report that every slot is in use; take a slot back. \<open>alloc_many\<close> is a client
  that asks \<open>k\<close> times and keeps what it got.
\<close>

primrec alloc_many :: "('s \<Rightarrow> nat option \<times> 's) \<Rightarrow> nat \<Rightarrow> 's \<Rightarrow> nat list \<times> 's" where
  "alloc_many alloc 0 s = ([], s)"
| "alloc_many alloc (Suc k) s =
     (case alloc s of
        (None, s') \<Rightarrow> alloc_many alloc k s'
      | (Some i, s') \<Rightarrow> (case alloc_many alloc k s' of (is, s'') \<Rightarrow> (i # is, s'')))"

locale slot_pool =
  fixes alloc :: "'s \<Rightarrow> nat option \<times> 's"
    and release :: "nat \<Rightarrow> 's \<Rightarrow> 's"
    and used :: "'s \<Rightarrow> nat set"
    and slots :: "nat set"
    and inv :: "'s \<Rightarrow> bool"
  assumes finite_slots: "finite slots"
    and used_slots: "inv s \<Longrightarrow> used s \<subseteq> slots"
    and alloc_Some: "inv s \<Longrightarrow> alloc s = (Some i, s') \<Longrightarrow>
          i \<in> slots \<and> i \<notin> used s \<and> used s' = insert i (used s) \<and> inv s'"
    and alloc_None: "inv s \<Longrightarrow> alloc s = (None, s') \<Longrightarrow> s' = s \<and> used s = slots"
    and release_slot: "inv s \<Longrightarrow> i \<in> used s \<Longrightarrow>
          used (release i s) = used s - {i} \<and> inv (release i s)"
begin

lemma alloc_fails_iff:
  assumes "inv s"
  shows "fst (alloc s) = None \<longleftrightarrow> used s = slots"
proof (cases "alloc s")
  case (Pair r s')
  then show ?thesis
    using alloc_None [OF assms, of s'] alloc_Some [OF assms, of _ s'] by (cases r) auto
qed

lemma alloc_release:
  assumes "inv s" and "alloc s = (Some i, s')"
  shows "used (release i s') = used s"
  using alloc_Some [OF assms] release_slot [of s' i] by auto

lemma release_alloc:
  assumes "inv s" and "i \<in> used s"
  shows "fst (alloc (release i s)) \<noteq> None"
  using release_slot [OF assms] used_slots [OF assms(1)] assms(2)
    alloc_fails_iff [of "release i s"] by auto

lemma alloc_many_spec:
  assumes "inv s" and "alloc_many alloc k s = (is, s')"
  shows "distinct is \<and> set is \<inter> used s = {} \<and> used s' = used s \<union> set is \<and> inv s' \<and>
         length is = min k (card (slots - used s))"
  using assms
proof (induction k arbitrary: s "is")
  case 0
  then show ?case by simp
next
  case (Suc k)
  show ?case
  proof (cases "alloc s")
    case (Pair r s1)
    show ?thesis
    proof (cases r)
      case None
      with alloc_None [OF Suc.prems(1), of s1] Pair have "s1 = s" "used s = slots" by simp_all
      then have "alloc_many alloc k s = (is, s')" using Suc.prems(2) Pair None by simp
      from Suc.IH [OF Suc.prems(1) this] \<open>used s = slots\<close> show ?thesis by auto
    next
      case (Some i)
      with Suc.prems Pair obtain js where js: "alloc_many alloc k s1 = (js, s')" "is = i # js"
        by (auto split: prod.splits)
      from alloc_Some [OF Suc.prems(1), of i s1] Pair Some
      have i: "i \<in> slots" "i \<notin> used s" "used s1 = insert i (used s)" "inv s1" by simp_all
      note IH = Suc.IH [OF i(4) js(1)]
      have "slots - used s1 = (slots - used s) - {i}" using i(3) by auto
      then have "card (slots - used s) = Suc (card (slots - used s1))"
        using i(1,2) finite_slots card_Suc_Diff1 [of "slots - used s" i] by simp
      then show ?thesis using IH i js by auto
    qed
  qed
qed

end

end
