(* ===== verification/Mm.thy ===== *)
theory Mm
  imports Dragoon_Prelude
begin

text \<open>
  The page allocator of \<^verbatim>\<open>kernel/mm.c\<close>: a bitmap with one bit per 4 KB page of RAM, the
  counters, and physical memory as far as the kernel reads and writes it in 8-byte
  cells. Each function runs under \<^verbatim>\<open>mm_lock\<close> and is one atomic step here; the lock itself
  is the subject of the theory on ticket locks. Loop indices and page numbers stay
  below 2 to the 15 and are natural numbers, addresses and counters are 64-bit words.
  Messages printed with \<^verbatim>\<open>kprintf\<close> are left out.
\<close>

section \<open>State and constants\<close>

abbreviation PAGE_SIZE :: u64 where "PAGE_SIZE \<equiv> 4096"
abbreviation RAM_BASE :: u64 where "RAM_BASE \<equiv> 0x40000000"
abbreviation RAM_SIZE :: u64 where "RAM_SIZE \<equiv> 0x8000000"

definition MAX_PAGES :: nat where "MAX_PAGES = 32768"
definition BITMAP_SIZE :: nat where "BITMAP_SIZE = (MAX_PAGES + 63) div 64"
definition PAGE_WORDS :: nat where "PAGE_WORDS = 512"

text \<open>Memory maps the address of an 8-byte cell to its content.\<close>

type_synonym memory = "u64 \<Rightarrow> u64"

record mm_state =
  page_bitmap :: "u64 list"
  total_pages :: u64
  used_pages :: u64
  mem :: memory

section \<open>Operations\<close>

definition bitmap_set :: "nat \<Rightarrow> 'a mm_state_scheme \<Rightarrow> 'a mm_state_scheme" where
  "bitmap_set idx s = s\<lparr>page_bitmap := (page_bitmap s)
     [idx div 64 := page_bitmap s ! (idx div 64) OR push_bit (idx mod 64) 1]\<rparr>"

definition bitmap_clear :: "nat \<Rightarrow> 'a mm_state_scheme \<Rightarrow> 'a mm_state_scheme" where
  "bitmap_clear idx s = s\<lparr>page_bitmap := (page_bitmap s)
     [idx div 64 := page_bitmap s ! (idx div 64) AND NOT (push_bit (idx mod 64) 1)]\<rparr>"

definition bitmap_test :: "nat \<Rightarrow> 'a mm_state_scheme \<Rightarrow> bool" where
  "bitmap_test idx s \<longleftrightarrow> drop_bit (idx mod 64) (page_bitmap s ! (idx div 64)) AND 1 \<noteq> 0"

definition ALIGN_UP :: "u64 \<Rightarrow> u64 \<Rightarrow> u64" where
  "ALIGN_UP x a = (x + (a - 1)) AND NOT (a - 1)"

definition ALIGN_DOWN :: "u64 \<Rightarrow> u64 \<Rightarrow> u64" where
  "ALIGN_DOWN x a = x AND NOT (a - 1)"

text \<open>The body shared by the marking loops: set the bit, count the page.\<close>

definition claim_page :: "nat \<Rightarrow> 'a mm_state_scheme \<Rightarrow> 'a mm_state_scheme" where
  "claim_page i s = (let s1 = bitmap_set i s in s1\<lparr>used_pages := used_pages s1 + 1\<rparr>)"

definition mm_init :: "u64 \<Rightarrow> 'a mm_state_scheme \<Rightarrow> 'a mm_state_scheme" where
  "mm_init stack_top s =
     (let s0 = s\<lparr>total_pages := RAM_SIZE div PAGE_SIZE, used_pages := 0,
                 page_bitmap := replicate BITMAP_SIZE 0\<rparr>;
          kernel_end_addr = ALIGN_UP stack_top PAGE_SIZE;
          kernel_pages = (kernel_end_addr - RAM_BASE) div PAGE_SIZE
      in for_loop 0 (unat kernel_pages) claim_page s0)"

definition zero_words :: "u64 \<Rightarrow> nat \<Rightarrow> memory \<Rightarrow> memory" where
  "zero_words p n m = for_loop 0 n (\<lambda>j m. m(p + 8 * of_nat j := 0)) m"

text \<open>A pointer result is a word, with \<open>0\<close> for \<^verbatim>\<open>NULL\<close>.\<close>

definition page_addr :: "nat \<Rightarrow> u64" where
  "page_addr i = RAM_BASE + of_nat i * PAGE_SIZE"

definition page_alloc :: "'a mm_state_scheme \<Rightarrow> u64 \<times> 'a mm_state_scheme" where
  "page_alloc s =
     (case first_idx (\<lambda>i. \<not> bitmap_test i s) 0 MAX_PAGES of
        Some i \<Rightarrow>
          (let s1 = claim_page i s; addr = page_addr i
           in (addr, s1\<lparr>mem := zero_words addr PAGE_WORDS (mem s1)\<rparr>))
      | None \<Rightarrow> (0, s))"

text \<open>
  The scan of \<^verbatim>\<open>pages_alloc\<close>: \<open>run_len\<close> free pages end just before \<open>i\<close>, the first of them is
  \<open>run_start\<close>.
\<close>

function scan_run :: "(nat \<Rightarrow> bool) \<Rightarrow> nat \<Rightarrow> nat \<Rightarrow> nat \<Rightarrow> nat \<Rightarrow> nat option" where
  "scan_run is_free n i run_start run_len =
     (if i < MAX_PAGES then
        if is_free i then
          let rs = (if run_len = 0 then i else run_start); rl = run_len + 1
          in if rl = n then Some rs else scan_run is_free n (Suc i) rs rl
        else scan_run is_free n (Suc i) run_start 0
      else None)"
  by pat_completeness auto
termination
  by (relation "measure (\<lambda>(f, n, i, rs, rl). MAX_PAGES - i)") auto

definition pages_alloc :: "u64 \<Rightarrow> 'a mm_state_scheme \<Rightarrow> u64 \<times> 'a mm_state_scheme" where
  "pages_alloc n s =
     (if n = 0 \<or> unat n > MAX_PAGES then (0, s)
      else case scan_run (\<lambda>i. \<not> bitmap_test i s) (unat n) 0 0 0 of
        Some run_start \<Rightarrow>
          (let s1 = for_loop run_start (run_start + unat n) claim_page s;
               addr = page_addr run_start
           in (addr, s1\<lparr>mem := zero_words addr (unat (n * PAGE_SIZE div 8)) (mem s1)\<rparr>))
      | None \<Rightarrow> (0, s))"

text \<open>The body shared by both free functions, under the range check they make first.\<close>

definition release_page :: "nat \<Rightarrow> 'a mm_state_scheme \<Rightarrow> 'a mm_state_scheme" where
  "release_page idx s =
     (if bitmap_test idx s
      then (let s1 = bitmap_clear idx s in s1\<lparr>used_pages := used_pages s1 - 1\<rparr>)
      else s)"

definition page_free :: "u64 \<Rightarrow> 'a mm_state_scheme \<Rightarrow> 'a mm_state_scheme" where
  "page_free a s =
     (if a < RAM_BASE \<or> a \<ge> RAM_BASE + RAM_SIZE then s
      else release_page (unat ((a - RAM_BASE) div PAGE_SIZE)) s)"

definition pages_free_step :: "u64 \<Rightarrow> nat \<Rightarrow> 'a mm_state_scheme \<Rightarrow> 'a mm_state_scheme" where
  "pages_free_step a i s =
     (let page_addr = a + of_nat i * PAGE_SIZE
      in if page_addr \<ge> RAM_BASE \<and> page_addr < RAM_BASE + RAM_SIZE
         then release_page (unat ((page_addr - RAM_BASE) div PAGE_SIZE)) s
         else s)"

definition pages_free :: "u64 \<Rightarrow> u64 \<Rightarrow> 'a mm_state_scheme \<Rightarrow> 'a mm_state_scheme" where
  "pages_free a n s = for_loop 0 (unat n) (pages_free_step a) s"

definition mm_get_free_pages :: "'a mm_state_scheme \<Rightarrow> u64" where
  "mm_get_free_pages s = total_pages s - used_pages s"

definition mm_get_total_pages :: "'a mm_state_scheme \<Rightarrow> u64" where
  "mm_get_total_pages s = total_pages s"

section \<open>The invariant: the counter counts the bits\<close>

definition used_set :: "'a mm_state_scheme \<Rightarrow> nat set" where
  "used_set s = {i. i < MAX_PAGES \<and> bitmap_test i s}"

definition mm_inv :: "'a mm_state_scheme \<Rightarrow> bool" where
  "mm_inv s \<longleftrightarrow> length (page_bitmap s) = BITMAP_SIZE \<and> total_pages s = of_nat MAX_PAGES \<and>
     used_pages s = of_nat (card (used_set s))"

lemma BITMAP_SIZE_eq: "BITMAP_SIZE = 512"
  by (simp add: BITMAP_SIZE_def MAX_PAGES_def)

lemma page_word_in_bitmap [simp]: "i < MAX_PAGES \<Longrightarrow> i div 64 < BITMAP_SIZE"
  by (simp add: BITMAP_SIZE_eq MAX_PAGES_def)

lemma finite_used_set [simp]: "finite (used_set s)"
  by (rule finite_subset [of _ "{..<MAX_PAGES}"]) (auto simp: used_set_def)

lemma bitmap_test_bit: "bitmap_test i s \<longleftrightarrow> bit (page_bitmap s ! (i div 64)) (i mod 64)"
  by (simp add: bitmap_test_def)

lemma length_page_bitmap [frame_simps]:
  "length (page_bitmap (bitmap_set i s)) = length (page_bitmap s)"
  "length (page_bitmap (bitmap_clear i s)) = length (page_bitmap s)"
  "length (page_bitmap (claim_page i s)) = length (page_bitmap s)"
  "length (page_bitmap (release_page i s)) = length (page_bitmap s)"
  by (simp_all add: bitmap_set_def bitmap_clear_def claim_page_def release_page_def Let_def)

lemma total_pages_frame [frame_simps]:
  "total_pages (claim_page i s) = total_pages s"
  "total_pages (release_page i s) = total_pages s"
  by (simp_all add: bitmap_set_def bitmap_clear_def claim_page_def release_page_def Let_def)

lemma mem_frame [frame_simps]:
  "mem (claim_page i s) = mem s"
  "mem (release_page i s) = mem s"
  by (simp_all add: bitmap_set_def bitmap_clear_def claim_page_def release_page_def Let_def)

lemma more_frame [frame_simps]:
  "mm_state.more (claim_page i s) = mm_state.more s"
  "mm_state.more (release_page i s) = mm_state.more s"
  by (simp_all add: bitmap_set_def bitmap_clear_def claim_page_def release_page_def Let_def)

lemma bitmap_test_claim:
  assumes "i < MAX_PAGES" and "length (page_bitmap s) = BITMAP_SIZE"
  shows "bitmap_test j (claim_page i s) \<longleftrightarrow> j = i \<or> bitmap_test j s"
  using assms
  by (auto simp: bitmap_test_bit claim_page_def bitmap_set_def nth_list_update Let_def
      dest: bitmap_index_unique)

lemma bitmap_test_release:
  assumes "i < MAX_PAGES" and "length (page_bitmap s) = BITMAP_SIZE"
  shows "bitmap_test j (release_page i s) \<longleftrightarrow> j \<noteq> i \<and> bitmap_test j s"
  using assms
  by (auto simp: bitmap_test_bit release_page_def bitmap_clear_def nth_list_update Let_def
      dest: bitmap_index_unique)

lemma used_set_claim:
  "i < MAX_PAGES \<Longrightarrow> length (page_bitmap s) = BITMAP_SIZE \<Longrightarrow>
   used_set (claim_page i s) = insert i (used_set s)"
  by (auto simp: used_set_def bitmap_test_claim)

lemma used_set_release:
  "i < MAX_PAGES \<Longrightarrow> length (page_bitmap s) = BITMAP_SIZE \<Longrightarrow>
   used_set (release_page i s) = used_set s - {i}"
  by (auto simp: used_set_def bitmap_test_release)

lemma mm_inv_length [simp]: "mm_inv s \<Longrightarrow> length (page_bitmap s) = BITMAP_SIZE"
  by (simp add: mm_inv_def)

lemma used_set_mem_update [simp]: "used_set (s\<lparr>mem := m\<rparr>) = used_set s"
  by (simp add: used_set_def bitmap_test_def)

lemma mm_inv_mem_update [simp]: "mm_inv (s\<lparr>mem := m\<rparr>) = mm_inv s"
  by (simp add: mm_inv_def)

lemma mm_inv_claim:
  assumes "mm_inv s" and "i < MAX_PAGES" and "i \<notin> used_set s"
  shows "mm_inv (claim_page i s)"
proof -
  have "used_pages (claim_page i s) = used_pages s + 1"
    by (simp add: claim_page_def bitmap_set_def Let_def)
  then show ?thesis
    using assms by (simp add: mm_inv_def used_set_claim frame_simps)
qed

lemma mm_inv_release:
  assumes "mm_inv s" and "i < MAX_PAGES"
  shows "mm_inv (release_page i s)"
proof (cases "bitmap_test i s")
  case True
  then have i: "i \<in> used_set s" using assms by (simp add: used_set_def)
  have "used_pages (release_page i s) = used_pages s - 1"
    using True by (simp add: release_page_def bitmap_clear_def Let_def)
  moreover have "card (used_set s) = Suc (card (used_set s - {i}))"
    using i by (metis card_Suc_Diff1 finite_used_set)
  ultimately show ?thesis
    using assms by (simp add: mm_inv_def used_set_release frame_simps)
qed (use assms in \<open>simp add: release_page_def\<close>)


section \<open>Page addresses\<close>

lemma unat_page_offset: "i < MAX_PAGES \<Longrightarrow> unat (of_nat i * PAGE_SIZE) = i * 4096"
  by (simp add: MAX_PAGES_def unat_small)

lemma unat_page_addr: "i < MAX_PAGES \<Longrightarrow> unat (page_addr i) = 0x40000000 + i * 4096"
  using unat_page_offset [of i]
  by (simp add: page_addr_def MAX_PAGES_def unat_add_small)

lemma page_addr_nonzero [simp]: "i < MAX_PAGES \<Longrightarrow> page_addr i \<noteq> 0"
  using unat_page_addr [of i] by auto

lemma page_addr_in_ram:
  assumes "i < MAX_PAGES"
  shows "RAM_BASE \<le> page_addr i" and "page_addr i < RAM_BASE + RAM_SIZE"
  using assms unat_page_addr [OF assms]
  by (simp_all add: word_le_nat_alt word_less_nat_alt MAX_PAGES_def)

lemma page_index_of_addr:
  assumes "i < MAX_PAGES"
  shows "unat ((page_addr i - RAM_BASE) div PAGE_SIZE) = i"
proof -
  have "page_addr i - RAM_BASE = of_nat i * PAGE_SIZE" by (simp add: page_addr_def)
  then show ?thesis using unat_page_offset [OF assms] by (simp add: unat_div_distrib)
qed

lemma page_addr_inj: "i < MAX_PAGES \<Longrightarrow> j < MAX_PAGES \<Longrightarrow> page_addr i = page_addr j \<longleftrightarrow> i = j"
  using page_index_of_addr [of i] page_index_of_addr [of j] by metis

lemma page_addr_offset: "a + of_nat i * PAGE_SIZE = page_addr (j + i)" if "a = page_addr j"
  using that by (simp add: page_addr_def algebra_simps)

lemma page_free_page_addr: "i < MAX_PAGES \<Longrightarrow> page_free (page_addr i) s = release_page i s"
  using page_addr_in_ram [of i] page_index_of_addr [of i]
  by (simp add: page_free_def linorder_not_less [symmetric])

section \<open>Zeroing\<close>

lemma zero_words_apply:
  "zero_words p n m x = (if \<exists>j<n. x = p + 8 * of_nat j then 0 else m x)"
  by (induction n) (auto simp: zero_words_def for_loop_Suc less_Suc_eq)

definition page_cells :: "nat \<Rightarrow> u64 set" where
  "page_cells i = {page_addr i + 8 * of_nat j | j. j < PAGE_WORDS}"

lemma zero_page_apply:
  "zero_words (page_addr i) PAGE_WORDS m x = (if x \<in> page_cells i then 0 else m x)"
  by (auto simp: zero_words_apply page_cells_def)

lemma unat_page_cell:
  assumes "i < MAX_PAGES" and "j < PAGE_WORDS"
  shows "unat (page_addr i + 8 * of_nat j) = 0x40000000 + i * 4096 + 8 * j"
proof -
  have "unat (8 * of_nat j :: u64) = 8 * j"
    using assms by (simp add: PAGE_WORDS_def unat_small)
  then show ?thesis
    using assms unat_page_addr [OF assms(1)]
    by (simp add: unat_add_small MAX_PAGES_def PAGE_WORDS_def)
qed

lemma page_cell_inj:
  assumes "i < MAX_PAGES" "i' < MAX_PAGES" "j < PAGE_WORDS" "j' < PAGE_WORDS"
  shows "page_addr i + 8 * of_nat j = page_addr i' + 8 * of_nat j' \<longleftrightarrow> i = i' \<and> j = j'"
proof
  assume "page_addr i + 8 * of_nat j = page_addr i' + 8 * of_nat j'"
  then have "0x40000000 + i * 4096 + 8 * j = 0x40000000 + i' * 4096 + 8 * j'"
    using unat_page_cell [OF assms(1,3)] unat_page_cell [OF assms(2,4)] by metis
  then have eq: "i * 512 + j = i' * 512 + j'" by linarith
  have "(i * 512 + j) div 512 = i" "(i' * 512 + j') div 512 = i'"
    using assms(3,4) by (simp_all add: PAGE_WORDS_def)
  with eq show "i = i' \<and> j = j'" by auto
qed simp

lemma page_addr_in_cells:
  assumes "i < MAX_PAGES" "j < MAX_PAGES"
  shows "page_addr i \<in> page_cells j \<longleftrightarrow> i = j"
proof -
  have "page_addr i \<in> page_cells j \<longleftrightarrow>
        (\<exists>k<PAGE_WORDS. page_addr i + 8 * of_nat 0 = page_addr j + 8 * of_nat k)"
    by (auto simp: page_cells_def)
  also have "\<dots> \<longleftrightarrow> (\<exists>k<PAGE_WORDS. i = j \<and> 0 = k)"
  proof (rule ex_cong1)
    fix k
    have "0 < PAGE_WORDS" by (simp add: PAGE_WORDS_def)
    then show "(k < PAGE_WORDS \<and> page_addr i + 8 * of_nat 0 = page_addr j + 8 * of_nat k) \<longleftrightarrow>
               (k < PAGE_WORDS \<and> i = j \<and> 0 = k)"
      using page_cell_inj [OF assms, of 0 k] by blast
  qed
  finally show ?thesis by (simp add: PAGE_WORDS_def)
qed

lemma page_cells_disjoint:
  "i < MAX_PAGES \<Longrightarrow> j < MAX_PAGES \<Longrightarrow> i \<noteq> j \<Longrightarrow> page_cells i \<inter> page_cells j = {}"
  by (auto simp: page_cells_def page_cell_inj)

section \<open>Single pages\<close>

lemma page_alloc_cases:
  obtains (fail) "page_alloc s = (0, s)" "used_set s = {..<MAX_PAGES}"
  | (ok) i where "i < MAX_PAGES" "i \<notin> used_set s" "\<forall>j<i. j \<in> used_set s"
      "page_alloc s = (page_addr i, (claim_page i s)
         \<lparr>mem := zero_words (page_addr i) PAGE_WORDS (mem s)\<rparr>)"
proof (cases "first_idx (\<lambda>i. \<not> bitmap_test i s) 0 MAX_PAGES")
  case None
  then have "page_alloc s = (0, s)" by (simp add: page_alloc_def)
  with None show ?thesis
    by (intro fail) (auto simp: first_idx_None used_set_def)
next
  case (Some i)
  then have "page_alloc s = (page_addr i, (claim_page i s)
         \<lparr>mem := zero_words (page_addr i) PAGE_WORDS (mem s)\<rparr>)"
    by (simp add: page_alloc_def Let_def frame_simps)
  with Some show ?thesis
    by (intro ok [of i]) (auto simp: first_idx_Some used_set_def)
qed

lemma mm_inv_page_alloc: "mm_inv s \<Longrightarrow> mm_inv (snd (page_alloc s))"
  by (cases s rule: page_alloc_cases) (auto simp: mm_inv_claim)

lemma page_alloc_result:
  assumes "mm_inv s" and "page_alloc s = (a, s')" and "a \<noteq> 0"
  obtains i where "i < MAX_PAGES" "a = page_addr i" "i \<notin> used_set s" "\<forall>j<i. j \<in> used_set s"
    "used_set s' = insert i (used_set s)" "mm_inv s'"
    "mem s' = zero_words a PAGE_WORDS (mem s)" "mm_state.more s' = mm_state.more s"
  using assms
proof (cases s rule: page_alloc_cases)
  case (ok i)
  moreover have "used_set (claim_page i s) = insert i (used_set s)"
    using assms(1) ok by (simp add: used_set_claim mm_inv_def)
  ultimately show ?thesis
    using assms that [of i] by (auto simp: mm_inv_claim frame_simps)
qed simp

lemma page_alloc_fail:
  assumes "page_alloc s = (0, s')"
  shows "s' = s \<and> used_set s = {..<MAX_PAGES}"
  using assms by (cases s rule: page_alloc_cases) auto

text \<open>
  The page allocator is a slot pool: page numbers are the slots.
\<close>

definition page_alloc_slot :: "'a mm_state_scheme \<Rightarrow> nat option \<times> 'a mm_state_scheme" where
  "page_alloc_slot s = (case page_alloc s of (a, s') \<Rightarrow>
     (if a = 0 then None else Some (unat ((a - RAM_BASE) div PAGE_SIZE)), s'))"

interpretation pages: slot_pool page_alloc_slot "\<lambda>i. page_free (page_addr i)" used_set "{..<MAX_PAGES}" mm_inv
proof
  show "used_set s \<subseteq> {..<MAX_PAGES}" for s :: "'a mm_state_scheme"
    by (auto simp: used_set_def)
next
  fix s s' :: "'a mm_state_scheme" and i
  assume "mm_inv s" "page_alloc_slot s = (Some i, s')"
  then show "i \<in> {..<MAX_PAGES} \<and> i \<notin> used_set s \<and> used_set s' = insert i (used_set s) \<and> mm_inv s'"
    by (cases "page_alloc s")
      (auto simp: page_alloc_slot_def page_index_of_addr split: if_splits elim: page_alloc_result)
next
  fix s s' :: "'a mm_state_scheme"
  assume "mm_inv s" "page_alloc_slot s = (None, s')"
  then show "s' = s \<and> used_set s = {..<MAX_PAGES}"
    by (cases "page_alloc s") (auto simp: page_alloc_slot_def split: if_splits dest: page_alloc_fail)
next
  fix s :: "'a mm_state_scheme" and i
  assume "mm_inv s" "i \<in> used_set s"
  then show "used_set (page_free (page_addr i) s) = used_set s - {i} \<and> mm_inv (page_free (page_addr i) s)"
    by (simp add: page_free_page_addr used_set_def mm_inv_release)
      (auto simp: mm_inv_def bitmap_test_release)
qed simp


section \<open>Contiguous runs\<close>

text \<open>\<open>free_run f n r\<close>: \<open>n\<close> consecutive free pages start at \<open>r\<close> and lie inside RAM.\<close>

definition free_run :: "(nat \<Rightarrow> bool) \<Rightarrow> nat \<Rightarrow> nat \<Rightarrow> bool" where
  "free_run f n r \<longleftrightarrow> r + n \<le> MAX_PAGES \<and> (\<forall>k. r \<le> k \<and> k < r + n \<longrightarrow> f k)"

text \<open>What the scan knows when it reaches page \<open>i\<close>.\<close>

definition scan_inv :: "(nat \<Rightarrow> bool) \<Rightarrow> nat \<Rightarrow> nat \<Rightarrow> nat \<Rightarrow> nat \<Rightarrow> bool" where
  "scan_inv f n i rs rl \<longleftrightarrow>
     rl < n \<and> (rl > 0 \<longrightarrow> rs + rl = i) \<and> rl \<le> i \<and> (\<forall>k. i - rl \<le> k \<and> k < i \<longrightarrow> f k) \<and>
     (\<forall>r. r < i - rl \<longrightarrow> \<not> free_run f n r)"

lemma scan_inv_start: "0 < n \<Longrightarrow> scan_inv f n 0 0 0"
  by (simp add: scan_inv_def)

lemma scan_inv_extend:
  assumes "scan_inv f n i rs rl" and "f i" and "Suc rl \<noteq> n"
  shows "scan_inv f n (Suc i) (if rl = 0 then i else rs) (Suc rl)"
  using assms unfolding scan_inv_def by (auto simp: less_Suc_eq)

lemma scan_inv_restart:
  assumes inv: "scan_inv f n i rs rl" and used: "\<not> f i"
  shows "scan_inv f n (Suc i) rs 0"
proof -
  have "\<not> free_run f n r" if r: "r \<le> i" for r
  proof (cases "r < i - rl")
    case True then show ?thesis using inv by (simp add: scan_inv_def)
  next
    case False
    then have "r \<le> i \<and> i < r + n" using inv r by (auto simp: scan_inv_def)
    then show ?thesis using used by (auto simp: free_run_def)
  qed
  then show ?thesis using inv by (simp add: scan_inv_def less_Suc_eq_le)
qed

lemma scan_inv_hit:
  assumes inv: "scan_inv f n i rs rl" and "f i" and "Suc rl = n" and "i < MAX_PAGES"
  defines "r \<equiv> if rl = 0 then i else rs"
  shows "free_run f n r \<and> (\<forall>r'<r. \<not> free_run f n r')"
proof -
  have "r = i - rl" using inv by (auto simp: r_def scan_inv_def)
  then show ?thesis
    using assms by (auto simp: scan_inv_def free_run_def less_Suc_eq)
qed

lemma scan_inv_miss:
  assumes inv: "scan_inv f n MAX_PAGES rs rl"
  shows "\<not> free_run f n r"
proof (cases "r < MAX_PAGES - rl")
  case True then show ?thesis using inv by (simp add: scan_inv_def)
next
  case False then show ?thesis using inv by (auto simp: scan_inv_def free_run_def)
qed

lemma scan_run_spec:
  assumes "scan_inv f n i rs rl" and "i \<le> MAX_PAGES"
  shows "case scan_run f n i rs rl of
           Some r \<Rightarrow> free_run f n r \<and> (\<forall>r'<r. \<not> free_run f n r')
         | None \<Rightarrow> (\<forall>r. \<not> free_run f n r)"
  using assms
proof (induction f n i rs rl rule: scan_run.induct)
  case (1 f n i rs rl)
  note step = scan_run.simps [of f n i rs rl]
  consider "i = MAX_PAGES" | "i < MAX_PAGES" "f i" "Suc rl = n"
    | "i < MAX_PAGES" "f i" "Suc rl \<noteq> n" | "i < MAX_PAGES" "\<not> f i"
    using 1(4) by linarith
  then show ?case
  proof cases
    case 1
    with "1.prems" show ?thesis by (simp add: step scan_inv_miss)
  next
    case 2
    with scan_inv_hit [OF "1.prems"(1)] show ?thesis by (auto simp: step Let_def)
  next
    case 3
    with "1.IH"(1) "1.prems" show ?thesis by (auto simp: step Let_def scan_inv_extend)
  next
    case 4
    with "1.IH"(2) "1.prems" show ?thesis by (simp add: step scan_inv_restart)
  qed
qed

declare scan_run.simps [simp del]

lemma claim_run:
  assumes "mm_inv s" and "r + n \<le> MAX_PAGES" and "\<forall>k. r \<le> k \<and> k < r + n \<longrightarrow> k \<notin> used_set s"
  shows "used_set (for_loop r (r + n) claim_page s) = used_set s \<union> {r..<r + n} \<and>
         mm_inv (for_loop r (r + n) claim_page s)"
  using assms
proof (induction n)
  case (Suc n)
  let ?t = "for_loop r (r + n) claim_page s"
  have IH: "used_set ?t = used_set s \<union> {r..<r + n}" "mm_inv ?t" using Suc by auto
  have "r + n \<notin> used_set ?t" "r + n < MAX_PAGES" using Suc.prems IH(1) by auto
  then have "mm_inv (claim_page (r + n) ?t)"
    and "used_set (claim_page (r + n) ?t) = insert (r + n) (used_set ?t)"
    using IH(2) by (simp_all add: mm_inv_claim used_set_claim mm_inv_length)
  then show ?case using IH(1) by (auto simp: for_loop_Suc)
qed auto

definition pages_alloc_run :: "nat \<Rightarrow> u64 \<Rightarrow> 'a mm_state_scheme \<Rightarrow> 'a mm_state_scheme" where
  "pages_alloc_run r n s = (for_loop r (r + unat n) claim_page s)
     \<lparr>mem := zero_words (page_addr r) (unat (n * PAGE_SIZE div 8)) (mem s)\<rparr>"

lemma pages_alloc_cases:
  obtains (bad) "n = 0 \<or> unat n > MAX_PAGES" "pages_alloc n s = (0, s)"
  | (none) "n \<noteq> 0" "unat n \<le> MAX_PAGES" "pages_alloc n s = (0, s)"
      "\<forall>r. \<not> free_run (\<lambda>i. i \<notin> used_set s) (unat n) r"
  | (ok) r where "n \<noteq> 0" "unat n \<le> MAX_PAGES" "free_run (\<lambda>i. i \<notin> used_set s) (unat n) r"
      "\<forall>r'<r. \<not> free_run (\<lambda>i. i \<notin> used_set s) (unat n) r'"
      "pages_alloc n s = (page_addr r, pages_alloc_run r n s)"
proof (cases "n = 0 \<or> unat n > MAX_PAGES")
  case True
  then show ?thesis by (intro bad) (auto simp: pages_alloc_def)
next
  case False
  let ?f = "\<lambda>i. \<not> bitmap_test i s"
  have run: "free_run ?f k r = free_run (\<lambda>i. i \<notin> used_set s) k r" for k r
    by (auto simp: free_run_def used_set_def)
  have "0 < unat n" using False by (simp add: unat_gt_0)
  from scan_run_spec [OF scan_inv_start [OF this], of ?f]
  have spec: "case scan_run ?f (unat n) 0 0 0 of
           Some r \<Rightarrow> free_run ?f (unat n) r \<and> (\<forall>r'<r. \<not> free_run ?f (unat n) r')
         | None \<Rightarrow> (\<forall>r. \<not> free_run ?f (unat n) r)" by simp
  show ?thesis
  proof (cases "scan_run ?f (unat n) 0 0 0")
    case None
    then have "pages_alloc n s = (0, s)" using False by (simp add: pages_alloc_def)
    with False spec None show ?thesis by (intro none) (auto simp: run)
  next
    case (Some r)
    have "mem (for_loop r (r + unat n) claim_page s) = mem s"
      by (rule for_loop_frame) (rule mem_frame)
    then have "pages_alloc n s = (page_addr r, pages_alloc_run r n s)"
      using False Some by (simp add: pages_alloc_def pages_alloc_run_def Let_def)
    with False spec Some show ?thesis by (intro ok [of r]) (auto simp: run)
  qed
qed


lemma unat_run_words: "unat n \<le> MAX_PAGES \<Longrightarrow> unat (n * PAGE_SIZE div 8) = unat n * PAGE_WORDS"
  by (simp add: MAX_PAGES_def PAGE_WORDS_def unat_div_distrib unat_mult_small)

lemma page_addr_word_split:
  "page_addr r + 8 * of_nat j = page_addr (r + j div PAGE_WORDS) + 8 * of_nat (j mod PAGE_WORDS)"
proof -
  have "of_nat j = (of_nat (512 * (j div 512) + j mod 512) :: u64)" by simp
  also have "\<dots> = 512 * of_nat (j div 512) + of_nat (j mod 512)" by (simp only: of_nat_add of_nat_mult of_nat_numeral)
  finally show ?thesis by (simp add: page_addr_def PAGE_WORDS_def algebra_simps)
qed

lemma zero_run_apply:
  "zero_words (page_addr r) (n * PAGE_WORDS) m x =
     (if x \<in> (\<Union>k\<in>{r..<r + n}. page_cells k) then 0 else m x)"
proof -
  have "(\<exists>j<n * PAGE_WORDS. x = page_addr r + 8 * of_nat j) \<longleftrightarrow>
        (\<exists>k\<in>{r..<r + n}. \<exists>j<PAGE_WORDS. x = page_addr k + 8 * of_nat j)" (is "?L \<longleftrightarrow> ?R")
  proof
    assume ?L
    then obtain j where j: "j < n * PAGE_WORDS" "x = page_addr r + 8 * of_nat j" by blast
    have "j div PAGE_WORDS < n" using j(1) by (simp add: less_mult_imp_div_less)
    moreover have "j mod PAGE_WORDS < PAGE_WORDS" by (simp add: PAGE_WORDS_def)
    ultimately show ?R using j(2) page_addr_word_split [of r j]
      by (intro bexI [of _ "r + j div PAGE_WORDS"]) auto
  next
    assume ?R
    then obtain k j where kj: "r \<le> k" "k < r + n" "j < PAGE_WORDS" "x = page_addr k + 8 * of_nat j"
      by auto
    let ?j = "(k - r) * PAGE_WORDS + j"
    have "(k - r + 1) * PAGE_WORDS \<le> n * PAGE_WORDS" using kj by (intro mult_le_mono1) auto
    then have "?j < n * PAGE_WORDS" using kj(3) by simp
    moreover have "?j div PAGE_WORDS = k - r" "?j mod PAGE_WORDS = j"
      using kj(3) by simp_all
    then have "x = page_addr r + 8 * of_nat ?j"
      using kj(1,4) page_addr_word_split [of r ?j] by simp
    ultimately show ?L by blast
  qed
  then show ?thesis by (auto simp: zero_words_apply page_cells_def)
qed

lemma bitmap_ext:
  assumes "length (page_bitmap s) = BITMAP_SIZE" "length (page_bitmap t) = BITMAP_SIZE"
    and "used_set s = used_set t"
  shows "page_bitmap s = page_bitmap t"
proof (rule nth_equalityI)
  fix w assume w: "w < length (page_bitmap s)"
  show "page_bitmap s ! w = page_bitmap t ! w"
  proof (rule bit_word_eqI)
    fix b assume "b < LENGTH(64)"
    then have "64 * w + b < MAX_PAGES" "(64 * w + b) div 64 = w" "(64 * w + b) mod 64 = b"
      using w assms(1) by (simp_all add: BITMAP_SIZE_eq MAX_PAGES_def)
    moreover have "64 * w + b \<in> used_set s \<longleftrightarrow> 64 * w + b \<in> used_set t" using assms(3) by simp
    ultimately show "bit (page_bitmap s ! w) b = bit (page_bitmap t ! w) b"
      by (simp add: used_set_def bitmap_test_bit)
  qed
qed (use assms in simp)

lemma pages_free_run:
  assumes "mm_inv s" and "r + k \<le> MAX_PAGES"
  shows "mm_inv (for_loop 0 k (pages_free_step (page_addr r)) s) \<and>
         used_set (for_loop 0 k (pages_free_step (page_addr r)) s) = used_set s - {r..<r + k} \<and>
         mem (for_loop 0 k (pages_free_step (page_addr r)) s) = mem s"
  using assms
proof (induction k)
  case (Suc k)
  let ?t = "for_loop 0 k (pages_free_step (page_addr r)) s"
  have k: "r + k < MAX_PAGES" using Suc.prems by simp
  have "pages_free_step (page_addr r) k ?t = release_page (r + k) ?t"
    using page_addr_in_ram [OF k] page_index_of_addr [OF k] page_addr_offset [OF refl, of r k]
    by (simp add: pages_free_step_def Let_def)
  then have step: "for_loop 0 (Suc k) (pages_free_step (page_addr r)) s = release_page (r + k) ?t"
    by (simp add: for_loop_Suc)
  have IH: "mm_inv ?t" "used_set ?t = used_set s - {r..<r + k}" "mem ?t = mem s"
    using Suc by simp_all
  have "used_set (release_page (r + k) ?t) = used_set ?t - {r + k}"
    by (rule used_set_release [OF k mm_inv_length [OF IH(1)]])
  also have "\<dots> = used_set s - {r..<r + Suc k}" unfolding IH(2) by auto
  finally have "used_set (release_page (r + k) ?t) = used_set s - {r..<r + Suc k}" .
  then show ?case using IH mm_inv_release [OF IH(1) k] unfolding step by (simp only: mem_frame simp_thms)
qed simp


section \<open>Start-up\<close>

lemma kernel_pages_eq:
  assumes "RAM_BASE \<le> stack_top" and "stack_top \<le> RAM_BASE + RAM_SIZE"
  shows "unat ((ALIGN_UP stack_top PAGE_SIZE - RAM_BASE) div PAGE_SIZE)
         = (unat stack_top - 0x40000000 + 4095) div 4096"
proof -
  let ?x = "unat stack_top"
  have b: "0x40000000 \<le> ?x" "?x \<le> 0x48000000"
    using assms by (simp_all add: word_le_nat_alt)
  have "unat (stack_top + 4095) = ?x + 4095"
    using b by (simp add: unat_add_small)
  then have "unat (ALIGN_UP stack_top PAGE_SIZE) = (?x + 4095) div 4096 * 4096"
    by (simp add: ALIGN_UP_def unat_and_page_mask)
  moreover have "RAM_BASE \<le> ALIGN_UP stack_top PAGE_SIZE"
    unfolding word_le_nat_alt calculation using b by simp
  ultimately have "unat (ALIGN_UP stack_top PAGE_SIZE - RAM_BASE) = (?x + 4095) div 4096 * 4096 - 0x40000000"
    by (simp add: unat_sub)
  moreover obtain y where y: "?x = y + 0x40000 * 4096" using b(1) le_Suc_ex [of "0x40000000" ?x]
    by (auto simp: add.commute)
  moreover have "(?x + 4095) div 4096 = 0x40000 + (y + 4095) div 4096"
    using div_mult_self1 [of 4096 "y + 4095" "0x40000"] y by (simp add: algebra_simps)
  ultimately show ?thesis by (simp add: unat_div_distrib)
qed

lemma mm_init_spec:
  assumes "RAM_BASE \<le> stack_top" and "stack_top \<le> RAM_BASE + RAM_SIZE"
  shows "mm_inv (mm_init stack_top s) \<and>
         used_set (mm_init stack_top s) = {..<(unat stack_top - 0x40000000 + 4095) div 4096} \<and>
         mem (mm_init stack_top s) = mem s"
proof -
  let ?k = "(unat stack_top - 0x40000000 + 4095) div 4096"
  let ?s0 = "s\<lparr>total_pages := RAM_SIZE div PAGE_SIZE, used_pages := 0,
                 page_bitmap := replicate BITMAP_SIZE 0\<rparr>"
  have "unat stack_top \<le> 0x48000000" using assms(2) by (simp add: word_le_nat_alt)
  then have k: "?k \<le> MAX_PAGES" by (simp add: MAX_PAGES_def)
  have u0: "used_set ?s0 = {}"
    using page_word_in_bitmap by (auto simp: used_set_def bitmap_test_bit)
  then have "mm_inv ?s0" by (simp add: mm_inv_def MAX_PAGES_def)
  with u0 k have "used_set (for_loop 0 (0 + ?k) claim_page ?s0) = used_set ?s0 \<union> {0..<0 + ?k} \<and>
       mm_inv (for_loop 0 (0 + ?k) claim_page ?s0)"
    by (intro claim_run) auto
  moreover have "mem (for_loop 0 ?k claim_page ?s0) = mem s"
    by (subst for_loop_frame [of mem]) (simp_all add: frame_simps)
  moreover have "mm_init stack_top s = for_loop 0 ?k claim_page ?s0"
    using kernel_pages_eq [OF assms] by (simp add: mm_init_def Let_def)
  ultimately show ?thesis using u0 by (auto simp: atLeast0LessThan)
qed


section \<open>Properties\<close>

text \<open>A machine before start-up, for the closed instances below: nothing is initialised.\<close>

definition mm_blank :: mm_state where
  "mm_blank = \<lparr>page_bitmap = [], total_pages = 0, used_pages = 0, mem = (\<lambda>_. 7)\<rparr>"

definition mm_boot :: mm_state where
  "mm_boot = mm_init 0x40100000 mm_blank"

lemma mm_boot_spec: "mm_inv mm_boot" "used_set mm_boot = {..<256}" "mem mm_boot = (\<lambda>_. 7)"
  using mm_init_spec [of "0x40100000" mm_blank] by (simp_all add: mm_boot_def mm_blank_def)

text \<open>
  \<open>mm_init\<close> establishes the allocator invariant and marks exactly the pages between the
  start of RAM and the page-aligned end of the kernel stack as used.
\<close>

theorem mm_init_reserves_kernel:
  assumes "RAM_BASE \<le> stack_top" and "stack_top \<le> RAM_BASE + RAM_SIZE"
  shows "mm_inv (mm_init stack_top s) \<and>
    (\<forall>i<MAX_PAGES. bitmap_test i (mm_init stack_top s) \<longleftrightarrow> unat (page_addr i) < unat stack_top)"
proof -
  have "bitmap_test i (mm_init stack_top s) \<longleftrightarrow> i < (unat stack_top - 0x40000000 + 4095) div 4096"
    if "i < MAX_PAGES" for i
    using mm_init_spec [OF assms, of s] that by (auto simp: used_set_def set_eq_iff)
  moreover have "i < (y + 4095) div 4096 \<longleftrightarrow> i * 4096 < y" for i y :: nat by linarith
  moreover have "0x40000000 \<le> unat stack_top" using assms(1) by (simp add: word_le_nat_alt)
  ultimately show ?thesis
    using mm_init_spec [OF assms, of s] by (auto simp: unat_page_addr)
qed

theorem mm_init_reserves_kernel_witness:
  "mm_inv mm_boot \<and> (\<forall>i<MAX_PAGES. bitmap_test i mm_boot \<longleftrightarrow> unat (page_addr i) < 0x40100000)"
  using mm_init_reserves_kernel [of "0x40100000" mm_blank] by (simp add: mm_boot_def)

text \<open>
  C6. A successful \<open>page_alloc\<close> returns the lowest free page of RAM, page-aligned, marks
  that page and no other, keeps the invariant, and clears every cell of the page while
  leaving all other memory as it was.
\<close>

theorem page_alloc_correct:
  assumes "mm_inv s" and "page_alloc s = (a, s')" and "a \<noteq> 0"
  shows "\<exists>i<MAX_PAGES. a = page_addr i \<and> unat a mod 4096 = 0 \<and> i \<notin> used_set s \<and>
     {..<i} \<subseteq> used_set s \<and> used_set s' = insert i (used_set s) \<and> mm_inv s' \<and>
     (\<forall>x. mem s' x = (if x \<in> page_cells i then 0 else mem s x))"
proof -
  obtain i where i: "i < MAX_PAGES" "a = page_addr i" "i \<notin> used_set s" "\<forall>j<i. j \<in> used_set s"
    "used_set s' = insert i (used_set s)" "mm_inv s'" "mem s' = zero_words a PAGE_WORDS (mem s)"
    by (rule page_alloc_result [OF assms])
  moreover have "unat a mod 4096 = 0" using i(1,2) unat_page_addr [OF i(1)] by simp
  moreover have "{..<i} \<subseteq> used_set s" using i(4) by auto
  ultimately show ?thesis by (intro exI [of _ i]) (simp add: zero_page_apply)
qed

theorem page_alloc_correct_witness:
  "\<exists>s'. page_alloc mm_boot = (page_addr 256, s') \<and> used_set s' = {..<257} \<and>
        mem s' (page_addr 256) = 0 \<and> mem s' (page_addr 255) = 7"
proof -
  obtain a s' where as: "page_alloc mm_boot = (a, s')" by fastforce
  have "a \<noteq> 0" using page_alloc_fail [of mm_boot s'] as mm_boot_spec(2) by (auto simp: MAX_PAGES_def)
  from page_alloc_correct [OF mm_boot_spec(1) as this] obtain i where
    i: "i < MAX_PAGES" "a = page_addr i" "i \<notin> {..<256}" "{..<i} \<subseteq> {..<256}"
       "used_set s' = insert i {..<256}" "\<forall>x. mem s' x = (if x \<in> page_cells i then 0 else 7)"
    using mm_boot_spec by auto
  have "i = 256" using i(3,4) by (metis lessThan_iff lessThan_subset_iff linorder_not_le nle_le)
  have "page_addr 256 \<in> page_cells 256" "page_addr 255 \<notin> page_cells 256"
    by (simp_all add: page_addr_in_cells MAX_PAGES_def)
  then show ?thesis
    using as i \<open>i = 256\<close> by (auto simp: lessThan_Suc [of 256, simplified])
qed

lemma page_alloc_free_count:
  assumes "mm_inv s"
  shows "unat (mm_get_free_pages s) = card ({..<MAX_PAGES} - used_set s)"
proof -
  have sub: "used_set s \<subseteq> {..<MAX_PAGES}" by (rule pages.used_slots [OF assms])
  then have le: "card (used_set s) \<le> MAX_PAGES" by (metis card_lessThan card_mono finite_lessThan)
  have "unat (of_nat MAX_PAGES - of_nat (card (used_set s)) :: u64) = MAX_PAGES - card (used_set s)"
    using le by (subst unat_sub) (simp_all add: word_le_nat_alt unat_of_nat_small MAX_PAGES_def)
  then have "unat (mm_get_free_pages s) = MAX_PAGES - card (used_set s)"
    using assms by (simp add: mm_inv_def mm_get_free_pages_def)
  then show ?thesis using sub by (simp add: card_Diff_subset)
qed

text \<open>
  \<open>page_alloc\<close> reports failure exactly when \<open>mm_get_free_pages\<close> is zero, and then
  changes nothing; that counter is the number of unmarked pages.
\<close>

theorem page_alloc_fails_iff_full:
  assumes "mm_inv s"
  shows "unat (mm_get_free_pages s) = card ({..<MAX_PAGES} - used_set s) \<and>
    (fst (page_alloc s) = 0 \<longleftrightarrow> mm_get_free_pages s = 0) \<and>
    (fst (page_alloc s) = 0 \<longrightarrow> snd (page_alloc s) = s)"
proof -
  note cnt = page_alloc_free_count [OF assms]
  have "mm_get_free_pages s = 0 \<longleftrightarrow> used_set s = {..<MAX_PAGES}"
    using cnt pages.used_slots [OF assms] unat_eq_zero [of "mm_get_free_pages s"] by auto
  moreover have "fst (page_alloc s) = 0 \<longleftrightarrow> used_set s = {..<MAX_PAGES}"
    using pages.alloc_fails_iff [OF assms] by (auto simp: page_alloc_slot_def split: prod.splits if_splits)
  ultimately show ?thesis
    using cnt page_alloc_fail [of s] by (metis prod.collapse)
qed

theorem page_alloc_fails_iff_full_witness: "unat (mm_get_free_pages mm_boot) = 32512"
proof -
  have "{..<MAX_PAGES} - {..<256} = {256..<MAX_PAGES}" by auto
  then show ?thesis
    using page_alloc_fails_iff_full [OF mm_boot_spec(1)] mm_boot_spec(2) by (simp add: MAX_PAGES_def)
qed


text \<open>
  C7. \<open>pages_alloc n\<close> is first fit: where some run of \<open>n\<close> consecutive free pages exists, it
  returns the lowest such run, marks exactly its pages, keeps the invariant, clears
  exactly the cells of the run, and leaves all other memory unchanged.
\<close>

theorem pages_alloc_first_fit:
  assumes inv: "mm_inv s" and "n \<noteq> 0" and "unat n \<le> MAX_PAGES"
    and run: "free_run (\<lambda>i. i \<notin> used_set s) (unat n) r"
  shows "\<exists>r0\<le>r. \<exists>s'. pages_alloc n s = (page_addr r0, s') \<and>
     free_run (\<lambda>i. i \<notin> used_set s) (unat n) r0 \<and>
     (\<forall>r'<r0. \<not> free_run (\<lambda>i. i \<notin> used_set s) (unat n) r') \<and>
     used_set s' = used_set s \<union> {r0..<r0 + unat n} \<and> mm_inv s' \<and>
     (\<forall>x. mem s' x = (if x \<in> (\<Union>k\<in>{r0..<r0 + unat n}. page_cells k) then 0 else mem s x))"
proof (cases n s rule: pages_alloc_cases)
  case (ok r0)
  have "r0 \<le> r" using ok(4) run by (meson linorder_not_le)
  moreover have "used_set (pages_alloc_run r0 n s) = used_set s \<union> {r0..<r0 + unat n}"
    "mm_inv (pages_alloc_run r0 n s)"
    using claim_run [OF inv, of r0 "unat n"] ok(3) by (auto simp: pages_alloc_run_def free_run_def)
  moreover have "mem (pages_alloc_run r0 n s) x =
      (if x \<in> (\<Union>k\<in>{r0..<r0 + unat n}. page_cells k) then 0 else mem s x)" for x
    using zero_run_apply [of r0 "unat n" "mem s" x] ok(2)
    by (simp add: pages_alloc_run_def unat_run_words)
  ultimately show ?thesis
    using ok(3-5) by (intro exI [of _ r0] conjI exI [of _ "pages_alloc_run r0 n s"]) auto
qed (use assms in auto)

theorem pages_alloc_first_fit_witness:
  "\<exists>s'. pages_alloc 4 mm_boot = (page_addr 256, s') \<and> used_set s' = {..<260}"
proof -
  have run: "free_run (\<lambda>i. i \<notin> used_set mm_boot) (unat (4::u64)) 256"
    by (auto simp: free_run_def mm_boot_spec MAX_PAGES_def)
  have four: "(4::u64) \<noteq> 0" "unat (4::u64) \<le> MAX_PAGES" by (simp_all add: MAX_PAGES_def)
  from pages_alloc_first_fit [OF mm_boot_spec(1) four run] obtain r0 s' where
    r0: "r0 \<le> 256" "pages_alloc 4 mm_boot = (page_addr r0, s')"
       "free_run (\<lambda>i. i \<notin> {..<256}) 4 r0" "used_set s' = {..<256} \<union> {r0..<r0 + 4}"
    using mm_boot_spec(2) by auto
  have "\<not> r0 < 256" using r0(3) by (auto simp: free_run_def)
  then have "r0 = 256" using r0(1) by simp
  then show ?thesis using r0 by (auto simp: ivl_disj_un)
qed

text \<open>
  \<open>pages_alloc\<close> fails, and then changes nothing, exactly when the request is for no
  page, for more pages than RAM has, or no run of that many free pages exists.
\<close>

theorem pages_alloc_fails_iff:
  "(fst (pages_alloc n s) = 0 \<longleftrightarrow>
     n = 0 \<or> unat n > MAX_PAGES \<or> (\<nexists>r. free_run (\<lambda>i. i \<notin> used_set s) (unat n) r)) \<and>
   (fst (pages_alloc n s) = 0 \<longrightarrow> snd (pages_alloc n s) = s)"
proof (cases n s rule: pages_alloc_cases)
  case (ok r)
  have "0 < unat n" using ok(1) by (simp add: unat_gt_0)
  then have "r < MAX_PAGES" using ok(3) by (simp add: free_run_def)
  then show ?thesis using ok by auto
qed auto

theorem pages_alloc_fails_iff_witness:
  "fst (pages_alloc 0 mm_boot) = 0 \<and> snd (pages_alloc 0 mm_boot) = mm_boot \<and>
   fst (pages_alloc 32513 mm_boot) = 0"
proof -
  have "\<not> free_run (\<lambda>i. i \<notin> used_set mm_boot) (unat (32513::u64)) r" for r
  proof
    assume f: "free_run (\<lambda>i. i \<notin> used_set mm_boot) (unat (32513::u64)) r"
    then have "r < 256" by (simp add: free_run_def MAX_PAGES_def)
    then show False using f by (auto simp: free_run_def mm_boot_spec)
  qed
  then show ?thesis
    using pages_alloc_fails_iff [of 0 mm_boot] pages_alloc_fails_iff [of 32513 mm_boot] by simp
qed

text \<open>
  C8. Freeing a run that \<open>pages_alloc\<close> returned restores the bitmap and both counters
  exactly.
\<close>

theorem pages_alloc_free_roundtrip:
  assumes inv: "mm_inv s" and al: "pages_alloc n s = (a, s')" and "a \<noteq> 0"
  shows "page_bitmap (pages_free a n s') = page_bitmap s \<and>
         used_pages (pages_free a n s') = used_pages s \<and>
         total_pages (pages_free a n s') = total_pages s"
proof (cases n s rule: pages_alloc_cases)
  case (ok r)
  let ?t = "pages_free a n s'"
  have a: "a = page_addr r" and s': "s' = pages_alloc_run r n s" using ok(5) al by auto
  have s'_inv: "used_set s' = used_set s \<union> {r..<r + unat n}" "mm_inv s'"
    using claim_run [OF inv, of r "unat n"] ok(3) by (auto simp: s' pages_alloc_run_def free_run_def)
  have t: "mm_inv ?t" "used_set ?t = used_set s' - {r..<r + unat n}"
    using pages_free_run [OF s'_inv(2), of r "unat n"] ok(3)
    by (auto simp: pages_free_def a free_run_def)
  then have "used_set ?t = used_set s"
    using s'_inv(1) ok(3) by (auto simp: free_run_def)
  then show ?thesis using t(1) inv bitmap_ext [of ?t s] by (simp add: mm_inv_def)
qed (use assms in auto)

theorem pages_alloc_free_roundtrip_witness:
  "page_bitmap (pages_free (page_addr 256) 1 (snd (pages_alloc 1 mm_boot))) = page_bitmap mm_boot"
proof -
  have one: "(1::u64) \<noteq> 0" "unat (1::u64) \<le> MAX_PAGES" by (simp_all add: MAX_PAGES_def)
  have nf: "\<not> free_run (\<lambda>i. i \<notin> {..<256}) 1 r" if "r < 256" for r
    using that by (auto simp: free_run_def)
  have run: "free_run (\<lambda>i. i \<notin> {..<256}) 1 256" by (auto simp: free_run_def MAX_PAGES_def)
  obtain a s' where al: "pages_alloc 1 mm_boot = (a, s')" by fastforce
  have "a = page_addr 256"
  proof (cases "1 :: u64" mm_boot rule: pages_alloc_cases)
    case (ok r)
    then have "r = 256" using nf [of r] run
      by (metis linorder_neqE_nat mm_boot_spec(2) unat_1)
    then show ?thesis using ok al by simp
  qed (use one run mm_boot_spec(2) in auto)
  then show ?thesis
    using pages_alloc_free_roundtrip [OF mm_boot_spec(1) al] al by (simp add: MAX_PAGES_def)
qed

text \<open>
  Freeing is safe on every argument: \<open>page_free\<close> of an address outside RAM changes
  nothing, inside RAM it clears the bit of the page that holds the address and no other
  bit, a second free of the same page changes nothing, and the invariant is kept.
\<close>

theorem page_free_safe:
  assumes "mm_inv s"
  shows "mm_inv (page_free a s) \<and> mem (page_free a s) = mem s \<and>
    page_free a (page_free a s) = page_free a s \<and>
    used_set (page_free a s) =
      (if RAM_BASE \<le> a \<and> a < RAM_BASE + RAM_SIZE
       then used_set s - {(unat a - 0x40000000) div 4096} else used_set s)"
proof (cases "RAM_BASE \<le> a \<and> a < RAM_BASE + RAM_SIZE")
  case True
  let ?i = "(unat a - 0x40000000) div 4096"
  have "unat (a - RAM_BASE) = unat a - 0x40000000" using True by (simp add: unat_sub)
  then have "unat ((a - RAM_BASE) div PAGE_SIZE) = ?i" by (simp add: unat_div_distrib)
  then have free: "page_free a t = release_page ?i t" for t :: "'a mm_state_scheme"
    using True by (simp add: page_free_def linorder_not_less [symmetric])
  have "unat a < 0x48000000" using True by (simp add: word_less_nat_alt)
  then have i: "?i < MAX_PAGES" unfolding MAX_PAGES_def by (intro less_mult_imp_div_less) simp
  have "\<not> bitmap_test ?i (release_page ?i s)"
    using i assms by (simp add: bitmap_test_release)
  then have "release_page ?i (release_page ?i s) = release_page ?i s"
    by (simp add: release_page_def [of ?i "release_page ?i s"])
  then show ?thesis
    using True i assms by (simp add: free mm_inv_release used_set_release frame_simps)
next
  case False
  then have "page_free a t = t" for t :: "'a mm_state_scheme"
    by (auto simp: page_free_def linorder_not_less)
  then show ?thesis using assms False by auto
qed

theorem page_free_safe_witness:
  "used_set (page_free 0x40003123 mm_boot) = {..<256} - {3} \<and> page_free 0 mm_boot = mm_boot"
  using page_free_safe [OF mm_boot_spec(1), of "0x40003123"] mm_boot_spec(2)
  by (simp add: page_free_def)

end
