(* ===== verification/Page_Tables.thy ===== *)
theory Page_Tables
  imports Mm
begin

text \<open>
  The page-table half of \<^verbatim>\<open>kernel/mm.c\<close>: the kernel's identity map and \<^verbatim>\<open>mm_map_page\<close>, over
  the memory of the allocator. \<open>walk\<close> is the specification side: how the ARMv8 MMU, with
  the 4 KB granule and 48-bit addresses that \<^verbatim>\<open>mm_enable_mmu\<close> selects, reads the tables
  that the code writes. The addresses of the four static tables are chosen by the linker
  and are parameters.
\<close>

section \<open>Descriptors\<close>

abbreviation PTE_VALID :: u64 where "PTE_VALID \<equiv> push_bit 0 1"
abbreviation PTE_TABLE :: u64 where "PTE_TABLE \<equiv> push_bit 1 1"
abbreviation PTE_BLOCK :: u64 where "PTE_BLOCK \<equiv> push_bit 1 0"
abbreviation PTE_AF :: u64 where "PTE_AF \<equiv> push_bit 10 1"
abbreviation PTE_SH_INNER :: u64 where "PTE_SH_INNER \<equiv> push_bit 8 3"
abbreviation PTE_SH_OUTER :: u64 where "PTE_SH_OUTER \<equiv> push_bit 8 2"
abbreviation PTE_ATTR :: "u64 \<Rightarrow> u64" where "PTE_ATTR n \<equiv> push_bit 2 n"

definition BLOCK_NORMAL :: u64 where
  "BLOCK_NORMAL = PTE_VALID OR PTE_BLOCK OR PTE_AF OR PTE_SH_INNER OR PTE_ATTR 0"

definition BLOCK_DEVICE :: u64 where
  "BLOCK_DEVICE = PTE_VALID OR PTE_BLOCK OR PTE_AF OR PTE_SH_OUTER OR PTE_ATTR 1"

abbreviation PAGE_NORMAL :: u64 where "PAGE_NORMAL \<equiv> 0x703"
abbreviation PAGE_DEVICE :: u64 where "PAGE_DEVICE \<equiv> 0x607"

text \<open>Element \<open>i\<close> of an array of 64-bit cells at \<open>t\<close>.\<close>

definition cell :: "u64 \<Rightarrow> nat \<Rightarrow> u64" where
  "cell t i = t + 8 * of_nat i"

section \<open>The code\<close>

record pt_layout =
  pgd_table :: u64
  pud_table :: u64
  pmd_table_dev :: u64
  pmd_table_ram :: u64

definition clear_tables :: "pt_layout \<Rightarrow> memory \<Rightarrow> memory" where
  "clear_tables L = for_loop 0 512 (\<lambda>i m. m(cell (pgd_table L) i := 0, cell (pud_table L) i := 0,
     cell (pmd_table_dev L) i := 0, cell (pmd_table_ram L) i := 0))"

definition mm_create_page_tables :: "pt_layout \<Rightarrow> 'a mm_state_scheme \<Rightarrow> 'a mm_state_scheme" where
  "mm_create_page_tables L s =
     (let m0 = clear_tables L (mem s);
          m1 = m0(cell (pgd_table L) 0 := pud_table L OR PTE_VALID OR PTE_TABLE);
          m2 = m1(cell (pud_table L) 0 := pmd_table_dev L OR PTE_VALID OR PTE_TABLE);
          m3 = m2(cell (pud_table L) 1 := pmd_table_ram L OR PTE_VALID OR PTE_TABLE);
          m4 = for_loop 64 82 (\<lambda>i m. m(cell (pmd_table_dev L) i :=
                 (of_nat i * 0x200000) OR BLOCK_DEVICE)) m3;
          m5 = for_loop 0 64 (\<lambda>i m. m(cell (pmd_table_ram L) i :=
                 (0x40000000 + of_nat i * 0x200000) OR BLOCK_NORMAL)) m4
      in s\<lparr>mem := m5\<rparr>)"

definition table_idx :: "nat \<Rightarrow> u64 \<Rightarrow> nat" where
  "table_idx shift va = unat (drop_bit shift va AND 0x1FF)"

text \<open>
  One ``walk/create'' block of \<^verbatim>\<open>mm_map_page\<close>. The blocks for the second and third table
  refuse a block descriptor (\<open>check_block\<close>), the first does not look at that bit. \<open>None\<close> is
  the early return.
\<close>

definition next_table ::
  "bool \<Rightarrow> u64 \<Rightarrow> nat \<Rightarrow> 'a mm_state_scheme \<Rightarrow> u64 option \<times> 'a mm_state_scheme" where
  "next_table check_block t i s =
     (let e = mem s (cell t i)
      in if e AND PTE_VALID = 0 then
           (case page_alloc s of (p, s1) \<Rightarrow>
              if p = 0 then (None, s1)
              else (Some p, s1\<lparr>mem := (mem s1)(cell t i := p OR PTE_VALID OR PTE_TABLE)\<rparr>))
         else if check_block \<and> e AND PTE_TABLE = 0 then (None, s)
         else (Some (e AND NOT 0xFFF), s))"

definition mm_map_page ::
  "u64 \<Rightarrow> u64 \<Rightarrow> u64 \<Rightarrow> u64 \<Rightarrow> 'a mm_state_scheme \<Rightarrow> 'a mm_state_scheme" where
  "mm_map_page pgd vaddr paddr flags s =
     (case next_table False pgd (table_idx 39 vaddr) s of
        (None, s1) \<Rightarrow> s1
      | (Some l1, s1) \<Rightarrow>
          (case next_table True l1 (table_idx 30 vaddr) s1 of
             (None, s2) \<Rightarrow> s2
           | (Some l2, s2) \<Rightarrow>
               (case next_table True l2 (table_idx 21 vaddr) s2 of
                  (None, s3) \<Rightarrow> s3
                | (Some l3, s3) \<Rightarrow>
                    s3\<lparr>mem := (mem s3)(cell l3 (table_idx 12 vaddr) :=
                       (paddr AND NOT 0xFFF) OR flags)\<rparr>)))"

section \<open>How the MMU reads the tables\<close>

text \<open>Bits 47 down to \<open>n\<close> of a descriptor: the address it carries.\<close>

definition pa_field :: "nat \<Rightarrow> u64 \<Rightarrow> u64" where
  "pa_field n e = push_bit n (drop_bit n (take_bit 48 e))"

text \<open>
  The translation from the table at \<open>t\<close> of level \<open>l\<close>: the physical address and the
  descriptor it was found in, or \<open>None\<close> for a translation fault.
\<close>

function walk :: "memory \<Rightarrow> nat \<Rightarrow> u64 \<Rightarrow> u64 \<Rightarrow> (u64 \<times> u64) option" where
  "walk m l t va =
     (let sh = 39 - 9 * l; e = m (cell t (table_idx sh va))
      in if \<not> bit e 0 then None
         else if l \<ge> 3 then (if bit e 1 then Some (pa_field 12 e + take_bit 12 va, e) else None)
         else if bit e 1 then walk m (Suc l) (pa_field 12 e) va
         else if l = 0 then None
         else Some (pa_field sh e + take_bit sh va, e))"
  by pat_completeness auto
termination
  by (relation "measure (\<lambda>(m, l, t, va). 3 - l)") auto

declare walk.simps [simp del]

definition translate :: "memory \<Rightarrow> u64 \<Rightarrow> u64 \<Rightarrow> (u64 \<times> u64) option" where
  "translate m pgd va = walk m 0 pgd va"

section \<open>Cells and descriptors\<close>

lemma table_idx_eq: "table_idx sh va = unat va div 2 ^ sh mod 512"
proof -
  have "drop_bit sh va AND 0x1FF = take_bit 9 (drop_bit sh va)"
    by (simp add: take_bit_eq_mask mask_eq_exp_minus_1)
  then have "table_idx sh va = unat (take_bit 9 (drop_bit sh va))"
    by (simp only: table_idx_def)
  also have "\<dots> = take_bit 9 (drop_bit sh (unat va))"
    by (simp only: unsigned_take_bit_eq unat_drop_bit_eq)
  finally show ?thesis by (simp add: take_bit_eq_mod drop_bit_eq_div)
qed

lemma table_idx_less [simp]: "table_idx sh va < 512"
  by (simp add: table_idx_eq)

definition aligned :: "u64 \<Rightarrow> bool" where
  "aligned t \<longleftrightarrow> unat t mod 4096 = 0"

lemma aligned_page_addr [simp]: "i < MAX_PAGES \<Longrightarrow> aligned (page_addr i)"
  by (simp add: aligned_def unat_page_addr)

lemma unat_cell:
  assumes "aligned t" and "i < 512"
  shows "unat (cell t i) = unat t + 8 * i"
proof -
  have "unat (8 * of_nat i :: u64) = 8 * i" using assms by (simp add: unat_small)
  moreover obtain a where a: "unat t = 4096 * a" using assms(1) by (auto simp: aligned_def)
  have "unat t < 2 ^ LENGTH(64)" by (rule unsigned_less)
  then have "a < 2 ^ 52" using a by simp
  then have "unat t + 8 * i < 2 ^ 64" using a assms(2) by simp
  ultimately show ?thesis by (simp add: cell_def unat_add_small)
qed

lemma cell_inj:
  assumes "aligned t" "aligned u" "i < 512" "j < 512"
  shows "cell t i = cell u j \<longleftrightarrow> t = u \<and> i = j"
proof
  assume "cell t i = cell u j"
  then have eq: "unat t + 8 * i = unat u + 8 * j" using unat_cell assms by metis
  obtain a b where ab: "unat t = 4096 * a" "unat u = 4096 * b"
    using assms(1,2) by (auto simp: aligned_def elim!: dvdE)
  then have e: "512 * a + i = 512 * b + j" using eq by simp
  have "(512 * a + i) div 512 = a" "(512 * b + j) div 512 = b" using assms(3,4) by simp_all
  then have "a = b" using e by simp
  then show "t = u \<and> i = j" using ab e by (metis add_left_cancel word_unat_eq_iff)
qed simp

lemma aligned_take_bit: "aligned t \<longleftrightarrow> take_bit 12 t = 0"
proof -
  have "take_bit 12 t = 0 \<longleftrightarrow> take_bit 12 (unat t) = 0"
    by (simp only: word_unat_eq_iff unsigned_take_bit_eq unsigned_0)
  then show ?thesis by (simp add: aligned_def take_bit_eq_mod)
qed

text \<open>A descriptor is an address with attribute bits below it.\<close>

lemma no_low_bits: "take_bit n (x :: u64) = 0 \<Longrightarrow> k < n \<Longrightarrow> \<not> bit x k"
  by (metis bit_0_eq bit_take_bit_iff bot_apply bot_bool_def)

lemma only_low_bits: "take_bit n (x :: u64) = x \<Longrightarrow> bit x k \<Longrightarrow> k < n"
  by (metis bit_take_bit_iff)

lemma pa_field_desc:
  assumes "take_bit n base = 0" and "take_bit 48 base = base" and "take_bit n low = low"
  shows "pa_field n (base OR low) = base"
proof -
  have "n \<le> k" if "bit base k" for k using that no_low_bits [OF assms(1)] by (meson linorder_not_less)
  then show ?thesis
    using only_low_bits [OF assms(2)] only_low_bits [OF assms(3)]
    by (intro bit_word_eqI) (auto simp: pa_field_def bit_simps)
qed

lemma page_mask_desc:
  assumes "aligned base" and "take_bit 12 low = low"
  shows "(base OR low) AND NOT 0xFFF = base"
proof -
  have "(base OR low) AND NOT (mask 12) = base"
    using no_low_bits [of 12 base] only_low_bits [OF assms(2)] assms(1)
    by (intro bit_word_eqI) (auto simp: bit_simps aligned_take_bit)
  then show ?thesis by (simp add: mask_eq_exp_minus_1)
qed

lemma bit_desc: "take_bit n base = 0 \<Longrightarrow> k < n \<Longrightarrow> bit (base OR low) k \<longleftrightarrow> bit (low :: u64) k"
  using no_low_bits by (auto simp: bit_or_iff)

lemma take_bit_48: "take_bit 48 (x :: u64) = x \<longleftrightarrow> unat x < 2 ^ 48"
proof -
  have "take_bit 48 x = x \<longleftrightarrow> take_bit 48 (unat x) = unat x"
    by (simp only: word_unat_eq_iff unsigned_take_bit_eq)
  then show ?thesis by (simp add: take_bit_nat_eq_self_iff)
qed

lemma page_addr_48 [simp]: "i < MAX_PAGES \<Longrightarrow> take_bit 48 (page_addr i) = page_addr i"
  using unat_page_addr [of i] take_bit_48 [of "page_addr i"] by (simp add: MAX_PAGES_def)

definition table_desc :: "u64 \<Rightarrow> u64" where
  "table_desc t = t OR PTE_VALID OR PTE_TABLE"

lemma table_desc_3: "table_desc t = t OR 3"
  by (simp add: table_desc_def or.assoc)

lemma table_desc_bits [simp]:
  "aligned t \<Longrightarrow> bit (table_desc t) 0" "aligned t \<Longrightarrow> bit (table_desc t) (Suc 0)"
  by (simp_all add: table_desc_3 bit_or_iff bit_1_iff)
     
lemma table_desc_addr [simp]:
  assumes "aligned t"
  shows "take_bit 48 t = t \<Longrightarrow> pa_field 12 (table_desc t) = t"
    and "table_desc t AND - 4096 = t"
  using assms pa_field_desc [of 12 t 3] page_mask_desc [of t 3]
  by (simp_all add: table_desc_3 aligned_take_bit take_bit_eq_mod)


section \<open>The kernel's identity map\<close>

definition layout_ok :: "pt_layout \<Rightarrow> bool" where
  "layout_ok L \<longleftrightarrow>
     (let ts = [pgd_table L, pud_table L, pmd_table_dev L, pmd_table_ram L]
      in distinct ts \<and> list_all (\<lambda>t. unat t mod 4096 = 0 \<and> unat t < 2 ^ 48) ts)"

lemma store_loop:
  assumes "aligned t" "aligned u" "i < 512" "b \<le> 512"
  shows "for_loop a b (\<lambda>i m. m(cell t i := f i)) m (cell u i) =
         (if u = t \<and> a \<le> i \<and> i < b then f i else m (cell u i))"
  using assms(4)
proof (induction b)
  case (Suc b)
  show ?case
  proof (cases "a \<le> b")
    case True
    have "cell u i = cell t b \<longleftrightarrow> u = t \<and> i = b"
      using Suc.prems cell_inj [OF assms(2,1,3), of b] by simp
    then show ?thesis using Suc True by (auto simp: for_loop_Suc)
  qed auto
qed simp

lemma clear_tables_apply:
  assumes "aligned u" "i < 512" "u \<in> {pgd_table L, pud_table L, pmd_table_dev L, pmd_table_ram L}"
  shows "clear_tables L m (cell u i) = 0"
proof -
  have "for_loop 0 b (\<lambda>i m. m(cell (pgd_table L) i := 0, cell (pud_table L) i := 0,
     cell (pmd_table_dev L) i := 0, cell (pmd_table_ram L) i := 0)) m (cell u i) = 0" if "i < b" for b
    using that assms(3) by (induction b) (auto simp: for_loop_Suc less_Suc_eq)
  then show ?thesis using assms(2) by (simp add: clear_tables_def)
qed

lemma BLOCK_values: "BLOCK_NORMAL = 0x701" "BLOCK_DEVICE = 0x605"
  by (simp_all add: BLOCK_NORMAL_def BLOCK_DEVICE_def)

text \<open>The finished tables, entry by entry.\<close>

lemma kernel_tables:
  fixes s :: "'a mm_state_scheme"
  assumes "layout_ok L" and "i < 512"
  defines "m \<equiv> mem (mm_create_page_tables L s)"
  shows "m (cell (pgd_table L) i) = (if i = 0 then table_desc (pud_table L) else 0)" (is ?pgd)
    and "m (cell (pud_table L) i) =
      (if i = 0 then table_desc (pmd_table_dev L)
       else if i = 1 then table_desc (pmd_table_ram L) else 0)" (is ?pud)
    and "m (cell (pmd_table_dev L) i) =
      (if 64 \<le> i \<and> i < 82 then (of_nat i * 0x200000) OR BLOCK_DEVICE else 0)" (is ?dev)
    and "m (cell (pmd_table_ram L) i) =
      (if i < 64 then (0x40000000 + of_nat i * 0x200000) OR BLOCK_NORMAL else 0)" (is ?ram)
proof -
  have al: "aligned (pgd_table L)" "aligned (pud_table L)" "aligned (pmd_table_dev L)"
    "aligned (pmd_table_ram L)"
    and ne: "pgd_table L \<noteq> pud_table L" "pgd_table L \<noteq> pmd_table_dev L" "pgd_table L \<noteq> pmd_table_ram L"
      "pud_table L \<noteq> pmd_table_dev L" "pud_table L \<noteq> pmd_table_ram L" "pmd_table_dev L \<noteq> pmd_table_ram L"
    using assms(1) by (auto simp: layout_ok_def aligned_def)
  note rules = m_def mm_create_page_tables_def Let_def store_loop al ne ne [symmetric]
    cell_inj clear_tables_apply table_desc_def assms(2)
  show ?pgd by (simp add: rules)
  show ?pud by (simp add: rules)
  show ?dev by (simp add: rules)
  show ?ram by (simp add: rules)
qed


lemma block_2mb:
  assumes base: "unat base = unat va div 0x200000 * 0x200000" and "unat va < 2 ^ 48"
    and low: "take_bit 21 low = low"
  shows "pa_field 21 (base OR low) + take_bit 21 va = va" and "k < 21 \<Longrightarrow> bit (base OR low) k = bit low k"
proof -
  have t: "take_bit 21 base = 0"
  proof -
    have "take_bit 21 (unat base) = 0" by (simp add: base take_bit_eq_mod)
    then show ?thesis by (simp only: word_unat_eq_iff unsigned_take_bit_eq unsigned_0)
  qed
  have "unat base \<le> unat va" by (simp add: base)
  then have "take_bit 48 base = base" using assms(2) by (simp add: take_bit_48)
  then have "pa_field 21 (base OR low) = base" by (rule pa_field_desc [OF t _ low])
  moreover have "unat (take_bit 21 va) = unat va mod 0x200000"
    by (simp only: unsigned_take_bit_eq) (simp add: take_bit_eq_mod)
  then have "base + take_bit 21 va = va"
    using unsigned_less [of va, where ?'a = nat] base
    by (simp add: word_unat_eq_iff unat_word_ariths)
  ultimately show "pa_field 21 (base OR low) + take_bit 21 va = va" by simp
  show "k < 21 \<Longrightarrow> bit (base OR low) k = bit low k" by (rule bit_desc [OF t])
qed

definition mem_attr :: "u64 \<Rightarrow> u64" where
  "mem_attr e = take_bit 3 (drop_bit 2 e)"

lemma block_2mb_leaf:
  assumes base: "unat base = unat va div 0x200000 * 0x200000" and "unat va < 2 ^ 48"
    and e: "m (cell t (table_idx 21 va)) = base OR low"
    and low: "take_bit 21 low = low" "bit low 0" "\<not> bit low 1"
  shows "map_option (\<lambda>(pa, e). (pa, mem_attr e)) (walk m 2 t va) = Some (va, mem_attr low)"
proof -
  have "mem_attr (base OR low) = mem_attr low"
  proof (rule bit_word_eqI)
    fix k
    show "bit (mem_attr (base OR low)) k = bit (mem_attr low) k"
      using block_2mb(2) [OF assms(1,2) low(1), of "2 + k"] by (auto simp: mem_attr_def bit_simps)
  qed
  then show ?thesis
    using block_2mb [OF assms(1,2) low(1)] e low(2,3) by (simp add: walk.simps [of m 2])
qed

lemma walk_table:
  assumes "m (cell t (table_idx (39 - 9 * l) va)) = table_desc u" and "l < 3"
    and "aligned u" and "take_bit 48 u = u"
  shows "walk m l t va = walk m (Suc l) u va"
  using assms by (subst walk.simps) (simp add: Let_def)

lemma walk_invalid:
  "m (cell t (table_idx (39 - 9 * l) va)) = 0 \<Longrightarrow> walk m l t va = None"
  by (subst walk.simps) (simp add: Let_def)

lemma table_idx_low:
  assumes "unat va < 0x40000000"
  shows "table_idx 39 va = 0" "table_idx 30 va = 0" "table_idx 21 va = unat va div 0x200000"
proof -
  have "unat va div 0x200000 < 512" using assms by (intro less_mult_imp_div_less) simp
  then show "table_idx 39 va = 0" "table_idx 30 va = 0" "table_idx 21 va = unat va div 0x200000"
    using assms by (simp_all add: table_idx_eq)
qed

lemma table_idx_ram:
  assumes "unat va = 0x40000000 + y" and "y < 0x40000000"
  shows "table_idx 39 va = 0" "table_idx 30 va = 1" "table_idx 21 va = y div 0x200000"
    "unat va div 0x200000 = 512 + y div 0x200000"
proof -
  show d: "unat va div 0x200000 = 512 + y div 0x200000"
    using div_mult_self1 [of "0x200000" y 512] assms(1) by (simp add: add.commute)
  have "y div 0x200000 < 512" using assms(2) by (intro less_mult_imp_div_less) simp
  then show "table_idx 21 va = y div 0x200000" using d by (simp add: table_idx_eq)
  have "unat va div 0x40000000 = 1"
    using assms by (intro div_nat_eqI) simp_all
  then show "table_idx 30 va = 1" by (simp add: table_idx_eq)
  show "table_idx 39 va = 0" using assms by (simp add: table_idx_eq)
qed

lemma table_idx_high:
  "2 ^ 39 \<le> unat va \<Longrightarrow> unat va < 2 ^ 48 \<Longrightarrow> table_idx 39 va \<noteq> 0"
  "0x80000000 \<le> unat va \<Longrightarrow> unat va < 2 ^ 39 \<Longrightarrow> table_idx 39 va = 0 \<and> 2 \<le> table_idx 30 va"
proof -
  assume v: "2 ^ 39 \<le> unat va" "unat va < 2 ^ 48"
  have "unat va div 2 ^ 39 < 512" using v by (intro less_mult_imp_div_less) simp
  moreover have "0 < unat va div 2 ^ 39" using v by (simp add: div_greater_zero_iff)
  ultimately show "table_idx 39 va \<noteq> 0" by (simp add: table_idx_eq)
next
  assume v: "0x80000000 \<le> unat va" "unat va < 2 ^ 39"
  have "unat va div 0x40000000 < 512" using v by (intro less_mult_imp_div_less) simp
  moreover have "2 \<le> unat va div 0x40000000" using div_le_mono [OF v(1), of "0x40000000"] by simp
  ultimately show "table_idx 39 va = 0 \<and> 2 \<le> table_idx 30 va" using v by (simp add: table_idx_eq)
qed

lemma kernel_walks:
  fixes s :: "'a mm_state_scheme"
  assumes L: "layout_ok L"
  defines "m \<equiv> mem (mm_create_page_tables L s)"
  shows "table_idx 39 va \<noteq> 0 \<Longrightarrow> translate m (pgd_table L) va = None"
    and "table_idx 39 va = 0 \<Longrightarrow> 2 \<le> table_idx 30 va \<Longrightarrow> translate m (pgd_table L) va = None"
    and "table_idx 39 va = 0 \<Longrightarrow> table_idx 30 va = 0 \<Longrightarrow>
         translate m (pgd_table L) va = walk m 2 (pmd_table_dev L) va"
    and "table_idx 39 va = 0 \<Longrightarrow> table_idx 30 va = 1 \<Longrightarrow>
         translate m (pgd_table L) va = walk m 2 (pmd_table_ram L) va"
proof -
  have al: "aligned (pud_table L)" "aligned (pmd_table_dev L)" "aligned (pmd_table_ram L)"
    "take_bit 48 (pud_table L) = pud_table L" "take_bit 48 (pmd_table_dev L) = pmd_table_dev L"
    "take_bit 48 (pmd_table_ram L) = pmd_table_ram L"
    using L by (auto simp: layout_ok_def aligned_def take_bit_48)
  note tabs = kernel_tables [OF L table_idx_less, of s, folded m_def]
  show "table_idx 39 va \<noteq> 0 \<Longrightarrow> translate m (pgd_table L) va = None"
    using tabs(1) [of 39 va] by (simp add: translate_def walk_invalid)
  assume i0: "table_idx 39 va = 0"
  have w1: "translate m (pgd_table L) va = walk m (Suc 0) (pud_table L) va"
    unfolding translate_def using tabs(1) [of 39 va] i0 al by (intro walk_table) simp_all
  note pud = tabs(2) [of 30 va]
  show "2 \<le> table_idx 30 va \<Longrightarrow> translate m (pgd_table L) va = None"
    using pud by (simp add: w1 walk_invalid)
  show "table_idx 30 va = 0 \<Longrightarrow> translate m (pgd_table L) va = walk m 2 (pmd_table_dev L) va"
    using pud al unfolding w1 numeral_2_eq_2 by (intro walk_table) simp_all
  show "table_idx 30 va = 1 \<Longrightarrow> translate m (pgd_table L) va = walk m 2 (pmd_table_ram L) va"
    using pud al unfolding w1 numeral_2_eq_2 by (intro walk_table) simp_all
qed

lemma unat_block_base:
  assumes "i < 512"
  shows "unat (of_nat i * 0x200000 :: u64) = i * 0x200000"
    and "unat (0x40000000 + of_nat i * 0x200000 :: u64) = 0x40000000 + i * 0x200000"
  using assms by (simp_all add: unat_small)

lemma kernel_walk_dev:
  assumes L: "layout_ok L" and v: "unat va < 0x40000000"
  shows "map_option (\<lambda>(pa, e). (pa, mem_attr e))
           (walk (mem (mm_create_page_tables L s)) 2 (pmd_table_dev L) va) =
     (if 0x08000000 \<le> unat va \<and> unat va < 0x0A400000 then Some (va, 1) else None)"
proof -
  let ?i = "table_idx 21 va"
  have i: "?i = unat va div 0x200000" by (rule table_idx_low [OF v])
  then have range: "64 \<le> ?i \<and> ?i < 82 \<longleftrightarrow> 0x08000000 \<le> unat va \<and> unat va < 0x0A400000"
    by (simp add: less_eq_div_iff_mult_less_eq div_less_iff_less_mult)
  note e = kernel_tables(3) [OF L table_idx_less, of s 21 va]
  have base: "unat (of_nat ?i * 0x200000 :: u64) = unat va div 0x200000 * 0x200000"
    using unat_block_base(1) [OF table_idx_less, of 21 va] by (simp add: i)
  show ?thesis
  proof (cases "64 \<le> ?i \<and> ?i < 82")
    case True
    with e have "mem (mm_create_page_tables L s) (cell (pmd_table_dev L) ?i) =
        of_nat ?i * 0x200000 OR 0x605" by (simp add: BLOCK_values)
    from block_2mb_leaf [where m = "mem (mm_create_page_tables L s)", OF base _ this] v show ?thesis
      using True range by (simp add: take_bit_eq_mod mem_attr_def)
  next
    case False
    then show ?thesis using e range by (auto simp: walk_invalid)
  qed
qed

lemma kernel_walk_ram:
  assumes L: "layout_ok L" and v: "unat va = 0x40000000 + y" "y < 0x40000000"
  shows "map_option (\<lambda>(pa, e). (pa, mem_attr e))
           (walk (mem (mm_create_page_tables L s)) 2 (pmd_table_ram L) va) =
     (if unat va < 0x48000000 then Some (va, 0) else None)"
proof -
  let ?i = "table_idx 21 va"
  note i = table_idx_ram [OF v]
  have range: "?i < 64 \<longleftrightarrow> unat va < 0x48000000"
    using i(3) v(1) by (simp add: div_less_iff_less_mult)
  note e = kernel_tables(4) [OF L table_idx_less, of s 21 va]
  have base: "unat (0x40000000 + of_nat ?i * 0x200000 :: u64) = unat va div 0x200000 * 0x200000"
    using unat_block_base(2) [OF table_idx_less, of 21 va] i(3,4) by simp
  show ?thesis
  proof (cases "?i < 64")
    case True
    with e have "mem (mm_create_page_tables L s) (cell (pmd_table_ram L) ?i) =
        (0x40000000 + of_nat ?i * 0x200000) OR 0x701" by (simp add: BLOCK_values)
    from block_2mb_leaf [where m = "mem (mm_create_page_tables L s)", OF base _ this] v show ?thesis
      using True range by (simp add: take_bit_eq_mod mem_attr_def)
  next
    case False
    then show ?thesis using e range by (simp add: walk_invalid)
  qed
qed

text \<open>
  After \<open>mm_create_page_tables\<close> the MMU sees, over the whole 48-bit address space, the
  identity on the 128 MB of RAM with the normal-memory attribute, the identity on
  0x08000000 to 0x0A400000 with the device attribute, and a fault everywhere else.
\<close>

theorem kernel_identity_map:
  assumes "layout_ok L" and "unat va < 2 ^ 48"
  shows "map_option (\<lambda>(pa, e). (pa, mem_attr e))
           (translate (mem (mm_create_page_tables L s)) (pgd_table L) va) =
     (if 0x40000000 \<le> unat va \<and> unat va < 0x48000000 then Some (va, 0)
      else if 0x08000000 \<le> unat va \<and> unat va < 0x0A400000 then Some (va, 1)
      else None)"
proof -
  consider "2 ^ 39 \<le> unat va" | "0x80000000 \<le> unat va" "unat va < 2 ^ 39" | "unat va < 0x40000000"
    | y where "unat va = 0x40000000 + y" "y < 0x40000000"
    by (metis add_diff_inverse_nat linorder_not_le nat_add_left_cancel_less numeral_Bit0)
  then show ?thesis
  proof cases
    case 1
    then show ?thesis using kernel_walks(1) [OF assms(1), of va s] table_idx_high(1) [of va] assms(2) by simp
  next
    case 2
    then show ?thesis using kernel_walks(2) [OF assms(1), of va s] table_idx_high(2) [of va] by simp
  next
    case 3
    then show ?thesis
      using kernel_walk_dev [OF assms(1) 3, of s] kernel_walks(3) [OF assms(1), of va s] table_idx_low [OF 3] by simp
  next
    case 4
    then show ?thesis
      using kernel_walk_ram [OF assms(1) 4, of s] kernel_walks(4) [OF assms(1), of va s] table_idx_ram [OF 4] by simp
  qed
qed

text \<open>Tables placed in the kernel image, as the linker does.\<close>

definition sample_layout :: pt_layout where
  "sample_layout = \<lparr>pgd_table = 0x40090000, pud_table = 0x40091000,
     pmd_table_dev = 0x40092000, pmd_table_ram = 0x40093000\<rparr>"

theorem kernel_identity_map_witness:
  "map_option fst (translate (mem (mm_create_page_tables sample_layout mm_blank)) 0x40090000 0x47FFFFF8)
     = Some 0x47FFFFF8 \<and>
   translate (mem (mm_create_page_tables sample_layout mm_blank)) 0x40090000 0x0A400000 = None"
proof -
  have L: "layout_ok sample_layout" by (simp add: layout_ok_def sample_layout_def)
  show ?thesis
    using kernel_identity_map [OF L, of "0x47FFFFF8" mm_blank]
      kernel_identity_map [OF L, of "0x0A400000" mm_blank]
    by (auto simp: sample_layout_def)
qed


section \<open>Trees of tables\<close>

text \<open>
  \<open>ow\<close> labels the pages that serve as tables of one address space with their level and the
  address prefix they translate. The labelling is injective, so no page is used for two
  tables; a valid descriptor above the last level leads to the page with the extended
  label; and every label below the root is justified by a descriptor.
\<close>

abbreviation entry :: "'a mm_state_scheme \<Rightarrow> nat \<Rightarrow> nat \<Rightarrow> u64" where
  "entry s p i \<equiv> mem s (cell (page_addr p) i)"

definition pt_inv :: "(nat \<rightharpoonup> nat \<times> nat) \<Rightarrow> nat \<Rightarrow> 'a mm_state_scheme \<Rightarrow> bool" where
  "pt_inv ow root s \<longleftrightarrow>
     ow root = Some (0, 0) \<and> dom ow \<subseteq> used_set s \<and>
     (\<forall>p q lx. ow p = Some lx \<and> ow q = Some lx \<longrightarrow> p = q) \<and>
     (\<forall>p l x i. ow p = Some (l, x) \<and> l < 3 \<and> i < 512 \<and> bit (entry s p i) 0 \<and>
        (l = 0 \<or> bit (entry s p i) 1) \<longrightarrow>
        (\<exists>q. entry s p i = table_desc (page_addr q) \<and> ow q = Some (Suc l, x * 512 + i))) \<and>
     (\<forall>q l y. ow q = Some (Suc l, y) \<longrightarrow> l < 3 \<and>
        (\<exists>p. ow p = Some (l, y div 512) \<and> entry s p (y mod 512) = table_desc (page_addr q)))"

lemma pt_invD:
  assumes "pt_inv ow root s"
  shows "ow root = Some (0, 0)"
    and "ow p = Some lx \<Longrightarrow> p \<in> used_set s"
    and "ow p = Some lx \<Longrightarrow> p < MAX_PAGES"
    and "ow p = Some lx \<Longrightarrow> ow q = Some lx \<Longrightarrow> p = q"
    and "ow p = Some (l, x) \<Longrightarrow> l < 3 \<Longrightarrow> i < 512 \<Longrightarrow> bit (entry s p i) 0 \<Longrightarrow>
         l = 0 \<or> bit (entry s p i) 1 \<Longrightarrow>
         \<exists>q. entry s p i = table_desc (page_addr q) \<and> ow q = Some (Suc l, x * 512 + i)"
    and "ow q = Some (Suc l, y) \<Longrightarrow> l < 3 \<and>
         (\<exists>p. ow p = Some (l, y div 512) \<and> entry s p (y mod 512) = table_desc (page_addr q))"
  using assms unfolding pt_inv_def used_set_def by blast+

lemma and_bit_zero:
  "(e :: u64) AND 1 = 0 \<longleftrightarrow> \<not> bit e 0" "e AND 2 = 0 \<longleftrightarrow> \<not> bit e 1"
  using and_one_shift_eq0 [of e 0] and_one_shift_eq0 [of e 1] by simp_all

lemma cell_page_inj:
  "p < MAX_PAGES \<Longrightarrow> q < MAX_PAGES \<Longrightarrow> i < 512 \<Longrightarrow> j < 512 \<Longrightarrow>
   cell (page_addr p) i = cell (page_addr q) j \<longleftrightarrow> p = q \<and> i = j"
  by (simp add: cell_inj page_addr_inj)

lemma cell_in_page:
  "p < MAX_PAGES \<Longrightarrow> q < MAX_PAGES \<Longrightarrow> i < 512 \<Longrightarrow> cell (page_addr p) i \<in> page_cells q \<longleftrightarrow> p = q"
  unfolding page_cells_def cell_def [symmetric] PAGE_WORDS_def by (auto simp: cell_page_inj)

lemma level_le_3: "pt_inv ow root s \<Longrightarrow> ow p = Some (l, x) \<Longrightarrow> l \<le> 3"
  using pt_invD(6) [of ow root s p] by (cases l) auto

lemma used_card: "card (used_set s) < MAX_PAGES \<Longrightarrow> fst (page_alloc s) \<noteq> 0"
  using page_alloc_fail [of s "snd (page_alloc s)"] by (metis card_lessThan less_irrefl prod.collapse)

text \<open>
  A memory that differs only in new, empty tables hung into invalid descriptors gives the
  same translations.
\<close>

definition same_or_fresh :: "(nat \<rightharpoonup> nat \<times> nat) \<Rightarrow> memory \<Rightarrow> memory \<Rightarrow> bool" where
  "same_or_fresh ow m m' \<longleftrightarrow> (\<forall>p l x i. ow p = Some (l, x) \<and> i < 512 \<longrightarrow>
     m' (cell (page_addr p) i) = m (cell (page_addr p) i) \<or>
     l < 3 \<and> \<not> bit (m (cell (page_addr p) i)) 0 \<and>
     (\<exists>q<MAX_PAGES. m' (cell (page_addr p) i) = table_desc (page_addr q) \<and>
        (\<forall>j<512. m' (cell (page_addr q) j) = 0)))"

lemma walk_same_or_fresh:
  assumes inv: "pt_inv ow root s" and sf: "same_or_fresh ow (mem s) m'"
  shows "ow p = Some (l, x) \<Longrightarrow> walk m' l (page_addr p) va = walk (mem s) l (page_addr p) va"
proof (induction "3 - l" arbitrary: p l x rule: less_induct)
  case less
  let ?i = "table_idx (39 - 9 * l) va"
  let ?e = "entry s p ?i"
  consider "m' (cell (page_addr p) ?i) = ?e"
    | q where "l < 3" "\<not> bit ?e 0" "q < MAX_PAGES" "m' (cell (page_addr p) ?i) = table_desc (page_addr q)"
        "\<forall>j<512. m' (cell (page_addr q) j) = 0"
    using sf less.prems unfolding same_or_fresh_def by (metis table_idx_less)
  then show ?case
  proof cases
    case 1
    show ?thesis
    proof (cases "l < 3 \<and> bit ?e 0 \<and> bit ?e 1")
      case True
      then obtain q where q: "?e = table_desc (page_addr q)" "ow q = Some (Suc l, x * 512 + ?i)"
        using pt_invD(5) [OF inv less.prems _ table_idx_less] by blast
      have "3 - Suc l < 3 - l" using True by linarith
      then have "walk m' (Suc l) (page_addr q) va = walk (mem s) (Suc l) (page_addr q) va"
        using less.hyps [OF _ q(2)] by blast
      then show ?thesis
        using 1 q(1) True pt_invD(3) [OF inv q(2)] by (simp add: walk_table [of _ _ _ _ "page_addr q"])
    next
      case False
      then show ?thesis using 1
        by (subst (1 2) walk.simps) (auto simp: Let_def)
    qed
  next
    case 2
    have "walk m' l (page_addr p) va = walk m' (Suc l) (page_addr q) va"
      using 2 by (intro walk_table) simp_all
    also have "\<dots> = None" by (rule walk.simps [THEN trans]) (simp add: 2(5))
    also have "\<dots> = walk (mem s) l (page_addr p) va"
      using 2(2) by (subst walk.simps) (simp add: Let_def)
    finally show ?thesis .
  qed
qed


text \<open>The effect of creating a table: a fresh page, hung into descriptor \<open>i\<close> of page \<open>p\<close>.\<close>

definition hangs_table :: "'a mm_state_scheme \<Rightarrow> nat \<Rightarrow> nat \<Rightarrow> nat \<Rightarrow> 'a mm_state_scheme \<Rightarrow> bool" where
  "hangs_table s p i q s' \<longleftrightarrow> q < MAX_PAGES \<and> q \<notin> used_set s \<and> used_set s' = insert q (used_set s) \<and>
     mem s' = (zero_words (page_addr q) PAGE_WORDS (mem s))(cell (page_addr p) i := table_desc (page_addr q))"

lemma hangs_table_page:
  assumes "pt_inv ow root s" "hangs_table s p i q s'"
  shows "ow q = None" and "q < MAX_PAGES"
  using assms pt_invD(2) [of ow root s q] by (cases "ow q", auto simp: hangs_table_def)

lemma hangs_table_new:
  assumes "pt_inv ow root s" "hangs_table s p i q s'" "ow p = Some lx" "i < 512" "j < 512"
  shows "entry s' q j = 0" and "entry s' p i = table_desc (page_addr q)"
proof -
  have "p < MAX_PAGES" "q < MAX_PAGES" "p \<noteq> q"
    using assms hangs_table_page [OF assms(1,2)] pt_invD(3) [OF assms(1,3)] by auto
  then show "entry s' q j = 0" "entry s' p i = table_desc (page_addr q)"
    using assms(2,4,5) by (simp_all add: hangs_table_def cell_page_inj zero_page_apply cell_in_page)
qed

lemma hangs_table_old:
  assumes "pt_inv ow root s" "hangs_table s p i q s'" "ow p = Some lx" "i < 512" "j < 512"
    "ow p' = Some lx'"
  shows "entry s' p' j = (if p' = p \<and> j = i then table_desc (page_addr q) else entry s p' j)"
proof -
  have "p < MAX_PAGES" "p' < MAX_PAGES" "q < MAX_PAGES" "p' \<noteq> q"
    using assms hangs_table_page [OF assms(1,2)] pt_invD(3) [OF assms(1)] by auto
  then show ?thesis
    using assms(2,4,5) by (simp add: hangs_table_def cell_page_inj zero_page_apply cell_in_page)
qed

lemma same_or_fresh_new_table:
  assumes "pt_inv ow root s" "hangs_table s p i q s'" "ow p = Some (l, x)" "l < 3" "i < 512"
    "\<not> bit (entry s p i) 0"
  shows "same_or_fresh ow (mem s) (mem s')"
  unfolding same_or_fresh_def
proof (intro allI impI)
  fix p' l' x' and j :: nat
  assume a: "ow p' = Some (l', x') \<and> j < 512"
  show "entry s' p' j = entry s p' j \<or> l' < 3 \<and> \<not> bit (entry s p' j) 0 \<and>
     (\<exists>q<MAX_PAGES. entry s' p' j = table_desc (page_addr q) \<and> (\<forall>j<512. entry s' q j = 0))"
  proof (cases "p' = p \<and> j = i")
    case True
    then show ?thesis
      using assms a hangs_table_new [OF assms(1-3,5)] hangs_table_page(2) [OF assms(1,2)] by auto
  next
    case False
    then have "entry s' p' j = entry s p' j"
      using hangs_table_old [OF assms(1-3,5)] a by auto
    then show ?thesis ..
  qed
qed

lemma new_label_unused:
  assumes inv: "pt_inv ow root s" and p: "ow p = Some (l, x)" and i: "i < 512"
    and e: "\<not> bit (entry s p i) 0"
  shows "ow p' \<noteq> Some (Suc l, x * 512 + i)"
proof
  assume a: "ow p' = Some (Suc l, x * 512 + i)"
  from pt_invD(6) [OF inv a] i obtain p0 where
    p0: "ow p0 = Some (l, x)" "entry s p0 i = table_desc (page_addr p')" by auto
  have "p' < MAX_PAGES" by (rule pt_invD(3) [OF inv a])
  moreover have "p0 = p" by (rule pt_invD(4) [OF inv p0(1) p])
  ultimately show False using p0(2) e by simp
qed

lemma new_table_descends:
  assumes inv: "pt_inv ow root s" and h: "hangs_table s p i q s'" and p: "ow p = Some (l, x)"
    and i: "i < 512" and a: "(ow(q \<mapsto> (Suc l, x * 512 + i))) p' = Some (l', x')" "l' < 3" "j < 512"
      "bit (entry s' p' j) 0" "l' = 0 \<or> bit (entry s' p' j) 1"
  shows "\<exists>q'. entry s' p' j = table_desc (page_addr q') \<and>
     (ow(q \<mapsto> (Suc l, x * 512 + i))) q' = Some (Suc l', x' * 512 + j)"
proof -
  note new = hangs_table_new [OF inv h p i a(3)] and qn = hangs_table_page(1) [OF inv h]
  have old: "ow p' = Some (l', x')" using a(1,4) new(1) by (auto split: if_splits)
  show ?thesis
  proof (cases "p' = p \<and> j = i")
    case True
    then show ?thesis using new(2) old p by auto
  next
    case False
    then have eq: "entry s' p' j = entry s p' j" using hangs_table_old [OF inv h p i a(3) old] by auto
    then obtain q' where "entry s p' j = table_desc (page_addr q')" "ow q' = Some (Suc l', x' * 512 + j)"
      using pt_invD(5) [OF inv old a(2,3)] a(4,5) by auto
    then show ?thesis using eq qn by auto
  qed
qed

lemma new_table_justified:
  assumes inv: "pt_inv ow root s" and h: "hangs_table s p i q s'" and p: "ow p = Some (l, x)"
    and l: "l < 3" and i: "i < 512" and e: "\<not> bit (entry s p i) 0"
    and a: "(ow(q \<mapsto> (Suc l, x * 512 + i))) q' = Some (Suc l', y)"
  shows "l' < 3 \<and> (\<exists>p0. (ow(q \<mapsto> (Suc l, x * 512 + i))) p0 = Some (l', y div 512) \<and>
     entry s' p0 (y mod 512) = table_desc (page_addr q'))"
proof (cases "q' = q")
  case True
  then have "l' = l" "y = x * 512 + i" using a by auto
  moreover have "p \<noteq> q" using p hangs_table_page(1) [OF inv h] by auto
  ultimately show ?thesis using True l p i hangs_table_new(2) [OF inv h p i i] by auto
next
  case False
  then have q': "ow q' = Some (Suc l', y)" using a by auto
  then obtain p0 where p0: "l' < 3" "ow p0 = Some (l', y div 512)"
      "entry s p0 (y mod 512) = table_desc (page_addr q')"
    using pt_invD(6) [OF inv q'] by auto
  have "q' < MAX_PAGES" by (rule pt_invD(3) [OF inv q'])
  then have "\<not> (p0 = p \<and> y mod 512 = i)" using p0(3) e by auto
  then have "entry s' p0 (y mod 512) = table_desc (page_addr q')"
    using p0(3) hangs_table_old [OF inv h p i _ p0(2), of "y mod 512"] by auto
  moreover have "p0 \<noteq> q" using p0(2) hangs_table_page(1) [OF inv h] by auto
  ultimately show ?thesis using p0 by auto
qed

lemma pt_inv_new_table:
  assumes inv: "pt_inv ow root s" and h: "hangs_table s p i q s'" and p: "ow p = Some (l, x)"
    and l: "l < 3" and i: "i < 512" and e: "\<not> bit (entry s p i) 0"
  shows "pt_inv (ow(q \<mapsto> (Suc l, x * 512 + i))) root s'" (is "pt_inv ?ow _ _")
  unfolding pt_inv_def
proof (intro conjI allI impI)
  show "?ow root = Some (0, 0)"
    using pt_invD(1) [OF inv] hangs_table_page(1) [OF inv h] by auto
  show "dom ?ow \<subseteq> used_set s'"
    using h pt_invD(2) [OF inv] by (auto simp: hangs_table_def)
  show "p' = q'" if "?ow p' = Some lx \<and> ?ow q' = Some lx" for p' q' lx
    using that new_label_unused [OF inv p i e] pt_invD(4) [OF inv] by (auto split: if_splits)
next
  fix p' l' x' j
  assume "?ow p' = Some (l', x') \<and> l' < 3 \<and> j < 512 \<and> bit (entry s' p' j) 0 \<and>
    (l' = 0 \<or> bit (entry s' p' j) 1)"
  then show "\<exists>q'. entry s' p' j = table_desc (page_addr q') \<and> ?ow q' = Some (Suc l', x' * 512 + j)"
    by (intro new_table_descends [OF inv h p i]) auto
next
  fix q' l' y assume "?ow q' = Some (Suc l', y)"
  note just = new_table_justified [OF inv h p l i e this]
  show "l' < 3" using just ..
  show "\<exists>p0. ?ow p0 = Some (l', y div 512) \<and> entry s' p0 (y mod 512) = table_desc (page_addr q')"
    using just ..
qed


section \<open>Mapping a page\<close>

text \<open>
  The labels added to a tree are those of pages that were free before, and name tables on
  the path of \<open>va\<close>; no other page is claimed.
\<close>

definition new_tables ::
  "u64 \<Rightarrow> (nat \<rightharpoonup> nat \<times> nat) \<Rightarrow> 'a mm_state_scheme \<Rightarrow> (nat \<rightharpoonup> nat \<times> nat) \<Rightarrow> 'a mm_state_scheme \<Rightarrow> bool" where
  "new_tables va ow s ow' s' \<longleftrightarrow> ow \<subseteq>\<^sub>m ow' \<and> used_set s' = used_set s \<union> dom ow' \<and>
     (\<forall>q l x. ow' q = Some (l, x) \<and> ow q = None \<longrightarrow>
        q \<notin> used_set s \<and> 0 < l \<and> x = unat va div 2 ^ (48 - 9 * l))"

lemma new_tables_refl: "pt_inv ow root s \<Longrightarrow> new_tables va ow s ow s"
  using pt_invD(2) [of ow root s] by (auto simp: new_tables_def)

lemma new_tables_trans:
  assumes "new_tables va ow s ow1 s1" and "new_tables va ow1 s1 ow' s'"
  shows "new_tables va ow s ow' s'"
  unfolding new_tables_def
proof (intro conjI allI impI)
  show "ow \<subseteq>\<^sub>m ow'" using assms map_le_trans unfolding new_tables_def by blast
  have "dom ow1 \<subseteq> dom ow'" using assms(2) map_le_implies_dom_le unfolding new_tables_def by blast
  then show "used_set s' = used_set s \<union> dom ow'" using assms unfolding new_tables_def by auto
  fix q l x assume a: "ow' q = Some (l, x) \<and> ow q = None"
  have "ow1 q = None \<or> ow1 q = Some (l, x)"
    using a assms(2) unfolding new_tables_def map_le_def by (cases "ow1 q") (auto simp: dom_def)
  then show "q \<notin> used_set s" "0 < l" "x = unat va div 2 ^ (48 - 9 * l)"
    using a assms unfolding new_tables_def by auto
qed

text \<open>What one walk/create block leaves behind, whichever way it goes.\<close>

definition table_step ::
  "u64 \<Rightarrow> (nat \<rightharpoonup> nat \<times> nat) \<Rightarrow> nat \<Rightarrow> 'a mm_state_scheme \<Rightarrow>
   (nat \<rightharpoonup> nat \<times> nat) \<Rightarrow> 'a mm_state_scheme \<Rightarrow> bool" where
  "table_step v ow root s ow' s' \<longleftrightarrow> mm_inv s' \<and> pt_inv ow' root s' \<and> new_tables v ow s ow' s' \<and>
     card (used_set s') \<le> card (used_set s) + 1 \<and>
     (\<forall>va. translate (mem s') (page_addr root) va = translate (mem s) (page_addr root) va)"

lemma table_step_refl: "mm_inv s \<Longrightarrow> pt_inv ow root s \<Longrightarrow> table_step v ow root s ow s"
  by (simp add: table_step_def new_tables_refl)

lemma table_step_new:
  assumes "mm_inv s'" and inv: "pt_inv ow root s" and h: "hangs_table s p i q s'"
    and p: "ow p = Some (l, x)" "l < 3" "i < 512" "\<not> bit (entry s p i) 0"
    and v: "x * 512 + i = unat v div 2 ^ (48 - 9 * Suc l)"
  shows "table_step v ow root s (ow(q \<mapsto> (Suc l, x * 512 + i))) s'"
proof -
  have "new_tables v ow s (ow(q \<mapsto> (Suc l, x * 512 + i))) s'"
    using hangs_table_page(1) [OF inv h] h pt_invD(2) [OF inv] v
    unfolding new_tables_def by (auto simp: map_le_def hangs_table_def split: if_splits)
  moreover have "card (used_set s') \<le> card (used_set s) + 1"
    using h by (simp add: hangs_table_def)
  moreover have "translate (mem s') (page_addr root) va = translate (mem s) (page_addr root) va" for va
    unfolding translate_def
    by (rule walk_same_or_fresh [OF inv same_or_fresh_new_table [OF inv h p] pt_invD(1) [OF inv]])
  ultimately show ?thesis
    using assms(1) pt_inv_new_table [OF inv h p] by (simp add: table_step_def)
qed

lemma next_table_spec:
  assumes mm: "mm_inv s" and inv: "pt_inv ow root s" and p: "ow p = Some (l, x)" "l < 3" "i < 512"
    and v: "x * 512 + i = unat v div 2 ^ (48 - 9 * Suc l)"
  obtains (stop) "next_table (l \<noteq> 0) (page_addr p) i s = (None, s)"
      "fst (page_alloc s) = 0 \<or> l \<noteq> 0 \<and> bit (entry s p i) 0 \<and> \<not> bit (entry s p i) 1"
  | (go) q ow' s' where "next_table (l \<noteq> 0) (page_addr p) i s = (Some (page_addr q), s')"
      "table_step v ow root s ow' s'" "ow' q = Some (Suc l, x * 512 + i)"
      "entry s' p i = table_desc (page_addr q)"
proof (cases "bit (entry s p i) 0")
  case False
  obtain a s1 where al: "page_alloc s = (a, s1)" by fastforce
  show ?thesis
  proof (cases "a = 0")
    case True
    then show ?thesis
      using stop False al page_alloc_fail [of s s1] by (simp add: next_table_def Let_def and_bit_zero)
  next
    case ok: False
    obtain q where q: "q < MAX_PAGES" "a = page_addr q" "q \<notin> used_set s"
      "used_set s1 = insert q (used_set s)" "mm_inv s1" "mem s1 = zero_words a PAGE_WORDS (mem s)"
      by (rule page_alloc_result [OF mm al ok])
    let ?s' = "s1\<lparr>mem := (mem s1)(cell (page_addr p) i := table_desc (page_addr q))\<rparr>"
    have h: "hangs_table s p i q ?s'" using q by (simp add: hangs_table_def)
    have "next_table (l \<noteq> 0) (page_addr p) i s = (Some (page_addr q), ?s')"
      using False al ok q(2) by (simp add: next_table_def Let_def and_bit_zero table_desc_def)
    moreover have "table_step v ow root s (ow(q \<mapsto> (Suc l, x * 512 + i))) ?s'"
      using q(5) by (intro table_step_new [OF _ inv h p False v]) simp
    moreover have "(ow(q \<mapsto> (Suc l, x * 512 + i))) q = Some (Suc l, x * 512 + i)" by simp
    moreover have "entry ?s' p i = table_desc (page_addr q)" by simp
    ultimately show ?thesis by (rule go)
  qed
next
  case True
  show ?thesis
  proof (cases "l = 0 \<or> bit (entry s p i) 1")
    case bit1: True
    obtain q where q: "entry s p i = table_desc (page_addr q)" "ow q = Some (Suc l, x * 512 + i)"
      using pt_invD(5) [OF inv p True bit1] by blast
    have "next_table (l \<noteq> 0) (page_addr p) i s = (Some (page_addr q), s)"
      using True bit1 q(1) pt_invD(3) [OF inv q(2)]
      by (auto simp: next_table_def Let_def and_bit_zero)
    then show ?thesis
      using q table_step_refl [OF mm inv] by (intro go [where ow' = ow and q = q]) simp_all
  next
    case False
    then show ?thesis using stop True by (auto simp: next_table_def Let_def and_bit_zero)
  qed
qed


text \<open>Prefixes: the label of the table that translates \<open>va\<close> at each level.\<close>

lemma prefix_step:
  assumes "l < 3"
  shows "unat va div 2 ^ (48 - 9 * l) * 512 + table_idx (39 - 9 * l) va = unat va div 2 ^ (48 - 9 * Suc l)"
proof -
  let ?k = "39 - 9 * l"
  have k: "48 - 9 * l = ?k + 9" "48 - 9 * Suc l = ?k" using assms by auto
  have "unat va div 2 ^ (?k + 9) = unat va div 2 ^ ?k div 512"
    by (simp only: power_add div_mult2_eq) simp
  then show ?thesis unfolding k table_idx_eq by (simp add: mult.commute)
qed

definition on_path :: "(nat \<rightharpoonup> nat \<times> nat) \<Rightarrow> u64 \<Rightarrow> nat \<Rightarrow> nat \<Rightarrow> bool" where
  "on_path ow va l p \<longleftrightarrow> ow p = Some (l, unat va div 2 ^ (48 - 9 * l))"

lemma on_path_root: "pt_inv ow root s \<Longrightarrow> unat va < 2 ^ 48 \<Longrightarrow> on_path ow va 0 root"
  using pt_invD(1) by (fastforce simp: on_path_def)

lemma on_path_mono: "on_path ow va l p \<Longrightarrow> ow \<subseteq>\<^sub>m ow' \<Longrightarrow> on_path ow' va l p"
  by (auto simp: on_path_def map_le_def dom_def)

text \<open>Every table on the path of \<open>va\<close> is reached by the walk.\<close>

lemma walk_reaches:
  assumes inv: "pt_inv ow root s" and va: "unat va < 2 ^ 48"
  shows "on_path ow va l p \<Longrightarrow> translate (mem s) (page_addr root) va = walk (mem s) l (page_addr p) va"
proof (induction l arbitrary: p)
  case 0
  then have "p = root"
    using va pt_invD(1) [OF inv] pt_invD(4) [OF inv] by (simp add: on_path_def)
  then show ?case by (simp add: translate_def)
next
  case (Suc l)
  then have lab: "ow p = Some (Suc l, unat va div 2 ^ (48 - 9 * Suc l))" by (simp add: on_path_def)
  obtain p0 where l: "l < 3" and p0: "ow p0 = Some (l, unat va div 2 ^ (48 - 9 * Suc l) div 512)"
    "entry s p0 (unat va div 2 ^ (48 - 9 * Suc l) mod 512) = table_desc (page_addr p)"
    using pt_invD(6) [OF inv lab] by blast
  have "table_idx (39 - 9 * l) va < 512" by simp
  then have "on_path ow va l p0" and "entry s p0 (table_idx (39 - 9 * l) va) = table_desc (page_addr p)"
    using p0 unfolding prefix_step [OF l, symmetric] by (simp_all add: on_path_def)
  then show ?case
    using Suc.IH [of p0] walk_table [OF _ l, of "mem s" "page_addr p0" va "page_addr p"] pt_invD(3) [OF inv lab]
    by simp
qed

lemma on_path_next:
  assumes inv: "pt_inv ow root s" and p: "on_path ow va l p" and "l < 3"
    and e: "bit (entry s p (table_idx (39 - 9 * l) va)) 0" "l = 0 \<or> bit (entry s p (table_idx (39 - 9 * l) va)) 1"
  obtains q where "entry s p (table_idx (39 - 9 * l) va) = table_desc (page_addr q)" "on_path ow va (Suc l) q"
  using pt_invD(5) [OF inv _ assms(3) table_idx_less e] p prefix_step [OF assms(3), of va]
  by (auto simp: on_path_def)

text \<open>Writing a descriptor of the last level.\<close>

lemma walk_leaf_other:
  assumes inv: "pt_inv ow root s" and q: "ow q = Some (3, X)" and j: "j < 512"
    and other: "\<not> (unat va div 2 ^ 21 = X \<and> table_idx 12 va = j)"
  shows "on_path ow va l p \<Longrightarrow>
    walk ((mem s)(cell (page_addr q) j := e)) l (page_addr p) va = walk (mem s) l (page_addr p) va"
proof (induction "3 - l" arbitrary: l p rule: less_induct)
  case less
  let ?m = "(mem s)(cell (page_addr q) j := e)" and ?i = "table_idx (39 - 9 * l) va"
  have lab: "ow p = Some (l, unat va div 2 ^ (48 - 9 * l))" using less.prems by (simp add: on_path_def)
  have "\<not> (p = q \<and> ?i = j)" using lab q other by auto
  then have same: "?m (cell (page_addr p) ?i) = entry s p ?i"
    using cell_page_inj [of p q ?i j] pt_invD(3) [OF inv lab] pt_invD(3) [OF inv q] j by auto
  show ?case
  proof (cases "l < 3 \<and> bit (entry s p ?i) 0 \<and> bit (entry s p ?i) 1")
    case True
    then obtain q' where q': "entry s p ?i = table_desc (page_addr q')" "on_path ow va (Suc l) q'"
      using on_path_next [OF inv less.prems] by blast
    have "3 - Suc l < 3 - l" using True by linarith
    then have IH: "walk ?m (Suc l) (page_addr q') va = walk (mem s) (Suc l) (page_addr q') va"
      using less.hyps q'(2) by blast
    have "q' < MAX_PAGES" using q'(2) pt_invD(3) [OF inv] by (auto simp: on_path_def)
    then show ?thesis
      using same q'(1) True IH walk_table [of ?m "page_addr p" l va "page_addr q'"]
        walk_table [of "mem s" "page_addr p" l va "page_addr q'"] by simp
  next
    case False
    then show ?thesis using same by (subst (1 2) walk.simps) (auto simp: Let_def)
  qed
qed

lemma pt_inv_leaf_write:
  assumes inv: "pt_inv ow root s" and q: "ow q = Some (3, X)" and j: "j < 512"
  shows "pt_inv ow root (s\<lparr>mem := (mem s)(cell (page_addr q) j := e)\<rparr>)"
proof -
  have same: "((mem s)(cell (page_addr q) j := e)) (cell (page_addr p) i) = entry s p i"
    if "ow p = Some (l, x)" "l < 3" "i < 512" for p l x i
    using that q j cell_page_inj [of p q i j] pt_invD(3) [OF inv that(1)] pt_invD(3) [OF inv q] by auto
  have just: "l < 3 \<and> (\<exists>p. ow p = Some (l, y div 512) \<and>
      ((mem s)(cell (page_addr q) j := e)) (cell (page_addr p) (y mod 512)) = table_desc (page_addr q'))"
    if "ow q' = Some (Suc l, y)" for q' l y
    using pt_invD(6) [OF inv that] same by (metis mod_less_divisor zero_less_numeral)
  show ?thesis
    unfolding pt_inv_def
  proof (intro conjI allI impI)
    fix p l x and i :: nat
    let ?s = "s\<lparr>mem := (mem s)(cell (page_addr q) j := e)\<rparr>"
    assume a: "ow p = Some (l, x) \<and> l < 3 \<and> i < 512 \<and> bit (entry ?s p i) 0 \<and> (l = 0 \<or> bit (entry ?s p i) 1)"
    then have "entry ?s p i = entry s p i" using same [of p l x i] by simp
    with a show "\<exists>q. entry ?s p i = table_desc (page_addr q) \<and> ow q = Some (Suc l, x * 512 + i)"
      using pt_invD(5) [OF inv, of p l x i] by simp
  qed (use pt_invD [OF inv] just in auto)
qed


text \<open>The three blocks of \<open>mm_map_page\<close> in a row: where they lead, or why they stop.\<close>

lemma next_table_on_path:
  assumes mm: "mm_inv s" and inv: "pt_inv ow root s" and p: "on_path ow va l p" "l < 3"
    and va: "unat va < 2 ^ 48"
  obtains (stop) "next_table (l \<noteq> 0) (page_addr p) (table_idx (39 - 9 * l) va) s = (None, s)"
      "fst (page_alloc s) = 0 \<or> (\<exists>pa e. translate (mem s) (page_addr root) va = Some (pa, e) \<and> \<not> bit e 1)"
  | (go) q ow' s' where "next_table (l \<noteq> 0) (page_addr p) (table_idx (39 - 9 * l) va) s = (Some (page_addr q), s')"
      "table_step va ow root s ow' s'" "on_path ow' va (Suc l) q"
proof (cases rule: next_table_spec [OF mm inv p(1) [unfolded on_path_def] p(2) table_idx_less prefix_step [OF p(2)]])
  case 1
  have "\<exists>pa e. walk (mem s) l (page_addr p) va = Some (pa, e) \<and> \<not> bit e 1"
    if "l \<noteq> 0" "bit (entry s p (table_idx (39 - 9 * l) va)) 0" "\<not> bit (entry s p (table_idx (39 - 9 * l) va)) 1"
    using that p(2) by (subst walk.simps) (simp add: Let_def)
  then show ?thesis using 1 walk_reaches [OF inv va p(1)] by (intro stop) auto
next
  case (2 q ow' s')
  then have "on_path ow' va (Suc l) q" using prefix_step [OF p(2), of va] by (simp add: on_path_def)
  with 2(1,2) show ?thesis by (rule go)
qed

definition map_outcome ::
  "(nat \<rightharpoonup> nat \<times> nat) \<Rightarrow> nat \<Rightarrow> u64 \<Rightarrow> u64 \<Rightarrow> 'a mm_state_scheme \<Rightarrow> 'a mm_state_scheme \<Rightarrow> bool" where
  "map_outcome ow root va e s s' \<longleftrightarrow> (\<exists>ow'. mm_inv s' \<and> pt_inv ow' root s' \<and> new_tables va ow s ow' s' \<and>
     (\<forall>va'. unat va' < 2 ^ 48 \<longrightarrow> translate (mem s') (page_addr root) va' =
        (if unat va' div 4096 = unat va div 4096 then Some (pa_field 12 e + take_bit 12 va', e)
         else translate (mem s) (page_addr root) va')))"

definition unchanged_outcome ::
  "u64 \<Rightarrow> (nat \<rightharpoonup> nat \<times> nat) \<Rightarrow> nat \<Rightarrow> 'a mm_state_scheme \<Rightarrow> 'a mm_state_scheme \<Rightarrow> bool" where
  "unchanged_outcome va ow root s s' \<longleftrightarrow> (\<exists>ow'. mm_inv s' \<and> pt_inv ow' root s' \<and> new_tables va ow s ow' s' \<and>
     (\<forall>va'. translate (mem s') (page_addr root) va' = translate (mem s) (page_addr root) va'))"

lemma same_page_iff:
  "unat va' div 4096 = unat va div 4096 \<longleftrightarrow>
   unat va' div 2 ^ 21 = unat va div 2 ^ 21 \<and> table_idx 12 va' = table_idx 12 va"
proof -
  have "unat x div 2 ^ 21 = unat x div 4096 div 512" for x :: u64
    by (simp add: div_mult2_eq [symmetric])
  moreover have "table_idx 12 x = unat x div 4096 mod 512" for x by (simp add: table_idx_eq)
  ultimately show ?thesis by (metis div_mult_mod_eq)
qed

lemma leaf_write_outcome:
  assumes mm: "mm_inv s" and inv: "pt_inv ow root s" and q: "on_path ow va 3 q"
    and va: "unat va < 2 ^ 48" and e: "bit e 0" "bit e 1"
  shows "map_outcome ow root va e s (s\<lparr>mem := (mem s)(cell (page_addr q) (table_idx 12 va) := e)\<rparr>)"
proof -
  let ?m = "(mem s)(cell (page_addr q) (table_idx 12 va) := e)"
  have ql: "ow q = Some (3, unat va div 2 ^ 21)" using q by (simp add: on_path_def)
  have inv': "pt_inv ow root (s\<lparr>mem := ?m\<rparr>)" by (rule pt_inv_leaf_write [OF inv ql table_idx_less])
  have "translate ?m (page_addr root) va' =
     (if unat va' div 4096 = unat va div 4096 then Some (pa_field 12 e + take_bit 12 va', e)
      else translate (mem s) (page_addr root) va')" if va': "unat va' < 2 ^ 48" for va'
  proof (cases "unat va' div 4096 = unat va div 4096")
    case True
    then have same: "unat va' div 2 ^ 21 = unat va div 2 ^ 21" "table_idx 12 va' = table_idx 12 va"
      using same_page_iff by auto
    then have "on_path ow va' 3 q" using ql by (simp add: on_path_def)
    from walk_reaches [OF inv' va' this] have "translate ?m (page_addr root) va' = walk ?m 3 (page_addr q) va'"
      by simp
    then show ?thesis using True same(2) e by (simp add: walk.simps [of ?m 3])
  next
    case False
    then have "\<not> (unat va' div 2 ^ 21 = unat va div 2 ^ 21 \<and> table_idx 12 va' = table_idx 12 va)"
      using same_page_iff by blast
    then have "translate ?m (page_addr root) va' = translate (mem s) (page_addr root) va'"
      unfolding translate_def
      by (rule walk_leaf_other [OF inv ql table_idx_less _ on_path_root [OF inv va']])
    then show ?thesis using False by simp
  qed
  moreover have "new_tables va ow s ow (s\<lparr>mem := ?m\<rparr>)"
    using new_tables_refl [OF inv, of va] by (auto simp: new_tables_def)
  ultimately show ?thesis
    unfolding map_outcome_def using mm inv' by (intro exI [of _ ow]) simp
qed


lemma table_stepD:
  assumes "table_step v ow root s ow1 s1"
  shows "mm_inv s1" "pt_inv ow1 root s1" "new_tables v ow s ow1 s1"
    and "translate (mem s1) (page_addr root) va = translate (mem s) (page_addr root) va"
  using assms unfolding table_step_def by blast+

lemma table_step_trans:
  assumes st: "table_step va ow root s ow1 s1" and "unchanged_outcome va ow1 root s1 s'"
  shows "unchanged_outcome va ow root s s'"
proof -
  obtain ow' where ow': "mm_inv s'" "pt_inv ow' root s'" "new_tables va ow1 s1 ow' s'"
    and tr: "\<forall>va'. translate (mem s') (page_addr root) va' = translate (mem s) (page_addr root) va'"
    using assms(2) unfolding unchanged_outcome_def table_stepD(4) [OF st] by (elim exE conjE)
  from new_tables_trans [OF table_stepD(3) [OF st] ow'(3)] ow'(1,2) tr show ?thesis
    unfolding unchanged_outcome_def by (intro exI [of _ ow'] conjI)
qed

lemma table_step_map:
  assumes st: "table_step va ow root s ow1 s1" and "map_outcome ow1 root va e s1 s'"
  shows "map_outcome ow root va e s s'"
proof -
  obtain ow' where ow': "mm_inv s'" "pt_inv ow' root s'" "new_tables va ow1 s1 ow' s'"
    and tr: "\<forall>va'. unat va' < 2 ^ 48 \<longrightarrow> translate (mem s') (page_addr root) va' =
        (if unat va' div 4096 = unat va div 4096 then Some (pa_field 12 e + take_bit 12 va', e)
         else translate (mem s) (page_addr root) va')"
    using assms(2) unfolding map_outcome_def table_stepD(4) [OF st] by (elim exE conjE)
  from new_tables_trans [OF table_stepD(3) [OF st] ow'(3)] ow'(1,2) tr show ?thesis
    unfolding map_outcome_def by (intro exI [of _ ow'] conjI)
qed

lemma unchanged_refl: "mm_inv s \<Longrightarrow> pt_inv ow root s \<Longrightarrow> unchanged_outcome va ow root s s"
  unfolding unchanged_outcome_def by (intro exI [of _ ow]) (simp add: new_tables_refl)

definition short_of_pages :: "nat \<Rightarrow> 'a mm_state_scheme \<Rightarrow> bool" where
  "short_of_pages k s \<longleftrightarrow> card (used_set s) + k > MAX_PAGES"

definition block_at :: "'a mm_state_scheme \<Rightarrow> nat \<Rightarrow> u64 \<Rightarrow> bool" where
  "block_at s root va \<longleftrightarrow>
     (case translate (mem s) (page_addr root) va of Some (pa, e) \<Rightarrow> \<not> bit e 1 | None \<Rightarrow> False)"

lemma table_step_block: "table_step v ow root s ow1 s1 \<Longrightarrow> block_at s1 root va \<longleftrightarrow> block_at s root va"
  unfolding table_step_def block_at_def by metis

lemma table_step_short:
  assumes "table_step v ow root s ow1 s1" and "short_of_pages k s1"
  shows "short_of_pages (Suc k) s"
proof -
  have "card (used_set s1) \<le> card (used_set s) + 1" using assms(1) unfolding table_step_def by blast
  then show ?thesis using assms(2) unfolding short_of_pages_def by linarith
qed

lemma alloc_short: "fst (page_alloc s) = 0 \<Longrightarrow> short_of_pages 1 s"
  using used_card [of s] unfolding short_of_pages_def by linarith

lemma short_mono: "short_of_pages j s \<Longrightarrow> j \<le> k \<Longrightarrow> short_of_pages k s"
  by (simp add: short_of_pages_def)

lemma step_stop_reason:
  "fst (page_alloc s) = 0 \<or> (\<exists>pa e. translate (mem s) (page_addr root) va = Some (pa, e) \<and> \<not> bit e 1) \<Longrightarrow>
   short_of_pages 1 s \<or> block_at s root va"
  using alloc_short by (auto simp: block_at_def)

lemma levels: "(0::nat) < 3" "Suc 0 < 3" "Suc (Suc 0) < 3"
  by simp_all

lemma mm_map_page_outcome:
  fixes s :: "'a mm_state_scheme"
  assumes mm: "mm_inv s" and inv: "pt_inv ow root s" and va: "unat va < 2 ^ 48"
    and e: "e = (paddr AND NOT 0xFFF) OR flags" "bit e 0" "bit e 1"
  defines "s' \<equiv> mm_map_page (page_addr root) va paddr flags s"
  shows "map_outcome ow root va e s s' \<or>
    unchanged_outcome va ow root s s' \<and> (short_of_pages 3 s \<or> block_at s root va)"
proof (cases rule: next_table_on_path [OF mm inv on_path_root [OF inv va] levels(1) va])
  case 1
  then have "s' = s" by (simp add: s'_def mm_map_page_def)
  then show ?thesis
    using step_stop_reason [OF 1(2)] unchanged_refl [OF mm inv] short_mono [of 1 s 3] by auto
next
  case (2 p1 ow1 s1)
  then have s1: "mm_inv s1" "pt_inv ow1 root s1" by (auto simp: table_step_def)
  note two = table_step_block [OF 2(2)] table_step_short [OF 2(2), of 2]
  show ?thesis
  proof (cases rule: next_table_on_path [OF s1 2(3) levels(2) va])
    case 1
    then have "s' = s1" using 2(1) by (simp add: s'_def mm_map_page_def)
    then show ?thesis
      using step_stop_reason [OF 1(2)] table_step_trans [OF 2(2) unchanged_refl [OF s1]]
        short_mono [of 1 s1 2] two by auto
  next
    case 3: (2 p2 ow2 s2)
    then have s2: "mm_inv s2" "pt_inv ow2 root s2" by (auto simp: table_step_def)
    note three = table_step_block [OF 3(2)] table_step_short [OF 3(2), of 1]
    show ?thesis
    proof (cases rule: next_table_on_path [OF s2 3(3) levels(3) va])
      case 1
      then have "s' = s2" using 2(1) 3(1) by (simp add: s'_def mm_map_page_def numeral_2_eq_2)
      then show ?thesis
        using step_stop_reason [OF 1(2)] two three
          table_step_trans [OF 2(2) table_step_trans [OF 3(2) unchanged_refl [OF s2]]]
        by (auto simp: numeral_2_eq_2 numeral_3_eq_3)
    next
      case 4: (2 p3 ow3 s3)
      then have s3: "mm_inv s3" "pt_inv ow3 root s3" by (auto simp: table_step_def)
      have "on_path ow3 va 3 p3" using 4(3) by (simp add: numeral_3_eq_3)
      from leaf_write_outcome [OF s3 this va e(2,3)]
      have "map_outcome ow3 root va e s3 s'"
        using 2(1) 3(1) 4(1) e(1) by (simp add: s'_def mm_map_page_def)
      then show ?thesis using table_step_map 2(2) 3(2) 4(2) by blast
    qed
  qed
qed

text \<open>
  A fresh, zeroed page is a table tree of its own that translates nothing; the witnesses map
  the page at 512 GB in it.
\<close>

lemma translate_empty_root:
  "\<forall>i<512. entry s root i = 0 \<Longrightarrow> translate (mem s) (page_addr root) va = None"
  unfolding translate_def by (subst walk.simps) (simp add: Let_def)

lemma pt_inv_empty_root:
  "root \<in> used_set s \<Longrightarrow> \<forall>i<512. entry s root i = 0 \<Longrightarrow> pt_inv [root \<mapsto> (0, 0)] root s"
  unfolding pt_inv_def by (auto split: if_splits)

lemma mm_boot_root:
  defines "s \<equiv> snd (page_alloc mm_boot)"
  shows "mm_inv s" and "used_set s = {..<257}" and "pt_inv [256 \<mapsto> (0, 0)] 256 s"
    and "unat (mm_get_free_pages s) \<ge> 3" and "translate (mem s) (page_addr 256) va = None"
proof -
  obtain a where as: "page_alloc mm_boot = (a, s)" using s_def by (metis prod.collapse)
  have "a \<noteq> 0" using page_alloc_fail [of mm_boot s] as mm_boot_spec(2) by (auto simp: MAX_PAGES_def)
  from page_alloc_result [OF mm_boot_spec(1) as this] obtain i where
    i: "i < MAX_PAGES" "a = page_addr i" "i \<notin> {..<256}" "\<forall>j<i. j \<in> {..<256}"
       "used_set s = insert i {..<256}" "mm_inv s" "mem s = zero_words a PAGE_WORDS (mem mm_boot)"
    using mm_boot_spec by metis
  have "i = 256" using i(3) spec [OF i(4), of 256] by auto
  then show u: "used_set s = {..<257}" using i(5) by (simp add: lessThan_Suc [of 256, simplified])
  show "mm_inv s" by fact
  have z: "\<forall>j<512. entry s 256 j = 0"
    using i(7) i(2) \<open>i = 256\<close> by (simp add: zero_page_apply cell_in_page MAX_PAGES_def)
  show "pt_inv [256 \<mapsto> (0, 0)] 256 s" by (rule pt_inv_empty_root) (simp_all add: u z)
  show "translate (mem s) (page_addr 256) va = None" by (rule translate_empty_root [OF z])
  have "{..<MAX_PAGES} - {..<257} = {257..<MAX_PAGES}" by auto
  then show "unat (mm_get_free_pages s) \<ge> 3"
    by (simp add: page_alloc_free_count [OF i(6)] u MAX_PAGES_def)
qed


text \<open>
  \<open>mm_map_page\<close> never disturbs other mappings: whatever happens (success, no page left
  for a table, a block descriptor in the way), the translation of every address outside
  the page being mapped stays the same, allocator and table tree stay well formed, and the
  only pages claimed are new tables on the path of \<open>vaddr\<close>.
\<close>

theorem mm_map_page_frame:
  fixes s :: "'a mm_state_scheme" and paddr va flags :: u64
  assumes "mm_inv s" and "pt_inv ow root s" and "unat va < 2 ^ 48"
    and "take_bit 12 flags = flags" and "bit flags 0" and "bit flags 1"
    and "unat va' < 2 ^ 48" and "unat va' div 4096 \<noteq> unat va div 4096"
  defines "s' \<equiv> mm_map_page (page_addr root) va paddr flags s"
  shows "translate (mem s') (page_addr root) va' = translate (mem s) (page_addr root) va' \<and>
     mm_inv s' \<and> (\<exists>ow'. new_tables va ow s ow' s' \<and> pt_inv ow' root s')"
  using mm_map_page_outcome [OF assms(1-3) refl, of paddr flags] assms(5-8)
  unfolding s'_def map_outcome_def unchanged_outcome_def by (auto simp: bit_or_iff)

theorem mm_map_page_frame_witness:
  "translate (mem (mm_map_page (page_addr 256) 0x8000000000 0x40200000 0x703 (snd (page_alloc mm_boot))))
     (page_addr 256) 0x8000001000 = None"
  using mm_map_page_frame [OF mm_boot_root(1,3), of "0x8000000000" "0x703" "0x8000001000" "0x40200000"]
    mm_boot_root(5)
  by (simp add: bit_iff_odd take_bit_eq_mod)

text \<open>
  C16. \<open>mm_map_page\<close> maps: with three pages left for tables and no block descriptor in the
  way, every address of the page at \<open>vaddr\<close> is afterwards translated to the same offset in
  the page at \<open>paddr\<close>, with the flags that were asked for.
\<close>

theorem mm_map_page_maps:
  fixes s :: "'a mm_state_scheme" and paddr va flags :: u64
  assumes "mm_inv s" and "pt_inv ow root s" and "unat va < 2 ^ 48"
    and "unat paddr < 2 ^ 48" and "take_bit 12 flags = flags" and "bit flags 0" and "bit flags 1"
    and "unat (mm_get_free_pages s) \<ge> 3" and "\<not> block_at s root va"
    and "unat va' div 4096 = unat va div 4096"
  defines "s' \<equiv> mm_map_page (page_addr root) va paddr flags s"
  shows "translate (mem s') (page_addr root) va' =
     Some ((paddr AND NOT 0xFFF) + take_bit 12 va', (paddr AND NOT 0xFFF) OR flags)"
proof -
  let ?e = "(paddr AND NOT 0xFFF) OR flags"
  have "card (used_set s) + card ({..<MAX_PAGES} - used_set s) = MAX_PAGES"
    using card_Diff_subset [of "used_set s" "{..<MAX_PAGES}"] pages.used_slots [OF assms(1)]
      card_mono [of "{..<MAX_PAGES}" "used_set s"] by simp
  then have "\<not> short_of_pages 3 s"
    using assms(8) page_alloc_free_count [OF assms(1)] by (simp add: short_of_pages_def)
  then have "map_outcome ow root va ?e s s'"
    using mm_map_page_outcome [OF assms(1-3) refl, of paddr flags] assms(6,7,9)
    by (auto simp: s'_def bit_or_iff)
  moreover have "unat va' < 2 ^ 48"
  proof -
    have "unat va div 4096 < 2 ^ 36" using assms(3) by (intro less_mult_imp_div_less) simp
    then have "unat va' div 4096 < 2 ^ 36" using assms(10) by simp
    then show ?thesis by (simp add: div_less_iff_less_mult)
  qed
  moreover have "pa_field 12 ?e = paddr AND NOT 0xFFF"
  proof -
    have al: "aligned (paddr AND - 4096)" by (simp add: aligned_def unat_and_page_mask)
    have "unat (paddr AND - 4096) < 2 ^ 48"
      unfolding unat_and_page_mask by (rule le_less_trans [OF div_times_less_eq_dividend assms(4)])
    then have "pa_field 12 ((paddr AND - 4096) OR flags) = paddr AND - 4096"
      using al assms(5) unfolding aligned_take_bit take_bit_48 [symmetric] by (intro pa_field_desc)
    then show ?thesis by simp
  qed
  ultimately show ?thesis using assms(10) unfolding map_outcome_def by auto
qed

theorem mm_map_page_maps_witness:
  "translate (mem (mm_map_page (page_addr 256) 0x8000000000 0x40200000 0x703 (snd (page_alloc mm_boot))))
     (page_addr 256) 0x8000000123 = Some (0x40200123, 0x40200703)"
proof -
  have "\<not> block_at (snd (page_alloc mm_boot)) 256 va" for va
    by (simp add: block_at_def mm_boot_root(5))
  from mm_map_page_maps [OF mm_boot_root(1,3) _ _ _ _ _ mm_boot_root(4) this,
      of "0x8000000000" "0x40200000" "0x703" "0x8000000123"]
  show ?thesis by (simp add: bit_iff_odd take_bit_eq_mod)
qed

end
