(* ===== verification/Vm.thy ===== *)
theory Vm
  imports Page_Tables
begin

text \<open>
  Address spaces (\<^verbatim>\<open>kernel/vm.c\<close>, \<^verbatim>\<open>kernel/vm.h\<close>): the ASID bitmap, creation of an address space
  whose first top-level descriptor is the kernel's, and its destruction with the recursive
  release of the private tables. Pages come from the allocator of the theory \<open>Mm\<close>, the
  trees of tables are those of the theory \<open>Page_Tables\<close>.
\<close>

section \<open>State and operations\<close>

definition ASID_MAX :: nat where "ASID_MAX = 256"

record vm_state = mm_state +
  asid_bitmap :: "u8 list"

record address_space =
  pgd :: u64
  asid :: u16

definition asid_free_bit :: "'a vm_state_scheme \<Rightarrow> nat \<Rightarrow> bool" where
  "asid_free_bit s i \<longleftrightarrow> asid_bitmap s ! (i div 8) AND push_bit (i mod 8) 1 = 0"

definition asid_alloc :: "'a vm_state_scheme \<Rightarrow> u16 \<times> 'a vm_state_scheme" where
  "asid_alloc s =
     (case first_idx (asid_free_bit s) 1 ASID_MAX of
        Some i \<Rightarrow> (of_nat i, s\<lparr>asid_bitmap := (asid_bitmap s)
                     [i div 8 := asid_bitmap s ! (i div 8) OR push_bit (i mod 8) 1]\<rparr>)
      | None \<Rightarrow> (0, s))"

definition asid_free :: "u16 \<Rightarrow> 'a vm_state_scheme \<Rightarrow> 'a vm_state_scheme" where
  "asid_free a s =
     (if a > 0 \<and> unat a < ASID_MAX
      then s\<lparr>asid_bitmap := (asid_bitmap s)
             [unat a div 8 := asid_bitmap s ! (unat a div 8) AND NOT (push_bit (unat a mod 8) 1)]\<rparr>
      else s)"

text \<open>
  The recursion of \<^verbatim>\<open>vm_free_subtree\<close> ends because it descends only below level 3.
\<close>

lemma for_loop_cong [fundef_cong]:
  "i = i' \<Longrightarrow> n = n' \<Longrightarrow> s = s' \<Longrightarrow> (\<And>j t. j < n' \<Longrightarrow> f j t = g j t) \<Longrightarrow> for_loop i n f s = for_loop i' n' g s'"
  unfolding for_loop_def by (auto intro!: fold_cong)

function vm_free_subtree :: "u64 \<Rightarrow> nat \<Rightarrow> 'a mm_state_scheme \<Rightarrow> 'a mm_state_scheme" where
  "vm_free_subtree table level s =
     page_free table
       (for_loop 0 512 (\<lambda>i t.
          if mem t (cell table i) AND push_bit 0 1 = 0 then t
          else if level < 3 \<and> mem t (cell table i) AND push_bit 1 1 \<noteq> 0
          then vm_free_subtree (mem t (cell table i) AND NOT 0xFFF) (level + 1) t
          else t) s)"
  by pat_completeness auto
termination
  by (relation "measure (\<lambda>(table, level, s). 3 - level)") auto

declare vm_free_subtree.simps [simp del]

text \<open>
  \<^verbatim>\<open>vm_create\<close> writes through its argument; here the structure is returned with the result
  code and the state. \<open>L\<close> gives the address of the kernel's \<^verbatim>\<open>pgd_table\<close>.
\<close>

definition vm_create ::
  "pt_layout \<Rightarrow> address_space \<Rightarrow> 'a vm_state_scheme \<Rightarrow> int \<times> address_space \<times> 'a vm_state_scheme" where
  "vm_create L a s =
     (case page_alloc s of (p, s1) \<Rightarrow>
        if p = 0 then (- 1, a\<lparr>pgd := 0\<rparr>, s1)
        else
          (let s2 = s1\<lparr>mem := (mem s1)(cell p 0 := mem s1 (cell (pgd_table L) 0))\<rparr>
           in case asid_alloc s2 of (n, s3) \<Rightarrow> (0, a\<lparr>pgd := p, asid := n\<rparr>, s3)))"

definition vm_destroy_tables :: "u64 \<Rightarrow> 'a mm_state_scheme \<Rightarrow> 'a mm_state_scheme" where
  "vm_destroy_tables p s =
     for_loop 1 512 (\<lambda>i t.
        if mem t (cell p i) AND push_bit 0 1 \<noteq> 0
        then vm_free_subtree (mem t (cell p i) AND NOT 0xFFF) 1 t
        else t) s"

definition vm_destroy :: "address_space \<Rightarrow> 'a vm_state_scheme \<Rightarrow> address_space \<times> 'a vm_state_scheme" where
  "vm_destroy a s =
     (if pgd a = 0 then (a, s)
      else (a\<lparr>pgd := 0, asid := 0\<rparr>,
            asid_free (asid a) (page_free (pgd a) (vm_destroy_tables (pgd a) s))))"

section \<open>ASIDs as a slot pool\<close>

definition asid_used :: "'a vm_state_scheme \<Rightarrow> nat set" where
  "asid_used s = {i. 1 \<le> i \<and> i < ASID_MAX \<and> \<not> asid_free_bit s i}"

definition asid_inv :: "'a vm_state_scheme \<Rightarrow> bool" where
  "asid_inv s \<longleftrightarrow> length (asid_bitmap s) = ASID_MAX div 8"

lemma asid_free_bit_iff: "asid_free_bit s i \<longleftrightarrow> \<not> bit (asid_bitmap s ! (i div 8)) (i mod 8)"
  by (simp add: asid_free_bit_def)

lemma asid_byte: "i < ASID_MAX \<Longrightarrow> asid_inv s \<Longrightarrow> i div 8 < length (asid_bitmap s)"
  by (simp add: asid_inv_def ASID_MAX_def)

definition asid_alloc_slot :: "'a vm_state_scheme \<Rightarrow> nat option \<times> 'a vm_state_scheme" where
  "asid_alloc_slot s = (case asid_alloc s of (a, s') \<Rightarrow> (if a = 0 then None else Some (unat a), s'))"

lemma asid_alloc_cases:
  assumes "asid_inv s"
  obtains (full) "asid_alloc s = (0, s)" "asid_used s = {1..<ASID_MAX}"
  | (ok) i bm where "1 \<le> i" "i < ASID_MAX" "asid_alloc s = (of_nat i, s\<lparr>asid_bitmap := bm\<rparr>)"
      "i \<notin> asid_used s" "\<forall>j. 1 \<le> j \<and> j < i \<longrightarrow> j \<in> asid_used s"
      "asid_used (s\<lparr>asid_bitmap := bm\<rparr>) = insert i (asid_used s)" "length bm = length (asid_bitmap s)"
proof (cases "first_idx (asid_free_bit s) 1 ASID_MAX")
  case None
  then have "asid_alloc s = (0, s)" by (simp add: asid_alloc_def)
  moreover have "asid_used s = {1..<ASID_MAX}"
    using None unfolding first_idx_None asid_used_def by auto
  ultimately show ?thesis by (rule full)
next
  case (Some i)
  let ?bm = "(asid_bitmap s)[i div 8 := asid_bitmap s ! (i div 8) OR push_bit (i mod 8) 1]"
  have i: "1 \<le> i" "i < ASID_MAX" "asid_free_bit s i" "\<forall>j. 1 \<le> j \<and> j < i \<longrightarrow> \<not> asid_free_bit s j"
    using Some by (auto simp: first_idx_Some)
  have "asid_free_bit (s\<lparr>asid_bitmap := ?bm\<rparr>) j \<longleftrightarrow> j \<noteq> i \<and> asid_free_bit s j" for j
    using asid_byte [OF i(2) assms]
    by (auto simp: asid_free_bit_iff nth_list_update dest: bitmap_index_unique)
  then have u: "asid_used (s\<lparr>asid_bitmap := ?bm\<rparr>) = insert i (asid_used s)"
    using i by (auto simp: asid_used_def)
  have a: "asid_alloc s = (of_nat i, s\<lparr>asid_bitmap := ?bm\<rparr>)" unfolding asid_alloc_def Some by simp
  have "i \<notin> asid_used s" "\<forall>j. 1 \<le> j \<and> j < i \<longrightarrow> j \<in> asid_used s"
    using i by (auto simp: asid_used_def)
  then show ?thesis by (rule ok [OF i(1,2) a _ _ u]) simp
qed

lemma unat_asid: "i < ASID_MAX \<Longrightarrow> unat (of_nat i :: u16) = i"
  by (simp add: unat_of_nat_small ASID_MAX_def)

lemma asid_used_free:
  assumes "asid_inv s" and "1 \<le> i" and "i < ASID_MAX"
  shows "asid_used (asid_free (of_nat i) s) = asid_used s - {i}"
proof -
  have "(of_nat i :: u16) > 0" using assms unat_asid [OF assms(3)] by (simp add: word_less_nat_alt)
  then have "asid_free_bit (asid_free (of_nat i) s) j \<longleftrightarrow> j = i \<or> asid_free_bit s j" for j
    using assms asid_byte [OF assms(3,1)]
    by (auto simp: asid_free_def asid_free_bit_iff unat_asid nth_list_update dest: bitmap_index_unique)
  then show ?thesis by (auto simp: asid_used_def)
qed

lemma asid_inv_free [simp]: "asid_inv (asid_free a s) = asid_inv s"
  by (simp add: asid_free_def asid_inv_def)

interpretation asids: slot_pool asid_alloc_slot "\<lambda>i. asid_free (of_nat i)" asid_used "{1..<ASID_MAX}" asid_inv
proof
  show "asid_used s \<subseteq> {1..<ASID_MAX}" for s :: "'a vm_state_scheme"
    by (auto simp: asid_used_def)
next
  fix s s' :: "'a vm_state_scheme" and i
  assume inv: "asid_inv s" and al: "asid_alloc_slot s = (Some i, s')"
  show "i \<in> {1..<ASID_MAX} \<and> i \<notin> asid_used s \<and> asid_used s' = insert i (asid_used s) \<and> asid_inv s'"
  proof (cases rule: asid_alloc_cases [OF inv])
    case 1 then show ?thesis using al by (simp add: asid_alloc_slot_def)
  next
    case (2 j bm)
    then show ?thesis
      using al inv unat_asid [of j] by (auto simp: asid_alloc_slot_def asid_inv_def split: if_splits)
  qed
next
  fix s s' :: "'a vm_state_scheme"
  assume inv: "asid_inv s" and al: "asid_alloc_slot s = (None, s')"
  show "s' = s \<and> asid_used s = {1..<ASID_MAX}"
  proof (cases rule: asid_alloc_cases [OF inv])
    case 1 then show ?thesis using al by (simp add: asid_alloc_slot_def)
  next
    case (2 j bm)
    then have "(of_nat j :: u16) \<noteq> 0" using unat_asid [of j] by auto
    then show ?thesis using 2 al by (simp add: asid_alloc_slot_def)
  qed
next
  fix s :: "'a vm_state_scheme" and i
  assume "asid_inv s" "i \<in> asid_used s"
  then show "asid_used (asid_free (of_nat i) s) = asid_used s - {i} \<and> asid_inv (asid_free (of_nat i) s)"
    using asid_used_free [of s i] by (simp add: asid_used_def)
qed simp

section \<open>Releasing a tree of tables\<close>

text \<open>The pages below, and including, the table with label \<open>(l, x)\<close>.\<close>

definition subtree :: "(nat \<rightharpoonup> nat \<times> nat) \<Rightarrow> nat \<Rightarrow> nat \<Rightarrow> nat set" where
  "subtree ow l x = {q. \<exists>l' y. ow q = Some (l', y) \<and> l \<le> l' \<and> y div 512 ^ (l' - l) = x}"

lemma tree_ancestor:
  assumes inv: "pt_inv ow root s"
  shows "ow q = Some (l + k, y) \<Longrightarrow> \<exists>p. ow p = Some (l, y div 512 ^ k)"
proof (induction k arbitrary: q y)
  case (Suc k)
  then have "ow q = Some (Suc (l + k), y)" by simp
  from pt_invD(6) [OF inv this] obtain p where "ow p = Some (l + k, y div 512)" by blast
  from Suc.IH [OF this] show ?case by (simp add: div_mult2_eq)
qed auto

lemma subtree_root:
  assumes "pt_inv ow root s" and "q \<in> subtree ow l x"
  shows "\<exists>p. ow p = Some (l, x)"
proof -
  obtain l' y where "ow q = Some (l', y)" "l \<le> l'" "y div 512 ^ (l' - l) = x"
    using assms(2) by (auto simp: subtree_def)
  then show ?thesis using tree_ancestor [OF assms(1), of q l "l' - l" y] by simp
qed

lemma subtree_unfold:
  assumes inv: "pt_inv ow root s" and p: "ow p = Some (l, x)"
  shows "subtree ow l x = insert p (\<Union>i<512. subtree ow (Suc l) (x * 512 + i))" (is "?L = ?R")
proof (intro set_eqI iffI)
  fix q assume "q \<in> ?L"
  then obtain l' y where q: "ow q = Some (l', y)" "l \<le> l'" "y div 512 ^ (l' - l) = x"
    by (auto simp: subtree_def)
  show "q \<in> ?R"
  proof (cases "l' = l")
    case True
    then have "ow q = Some (l, x)" using q by simp
    then show ?thesis using pt_invD(4) [OF inv _ p] by simp
  next
    case False
    let ?z = "y div 512 ^ (l' - Suc l)"
    have "l' - l = Suc (l' - Suc l)" using False q(2) by linarith
    then have "?z div 512 = x" using q(3) by (simp add: div_mult2_eq [symmetric] mult.commute)
    then have z: "?z = x * 512 + ?z mod 512" by (metis div_mult_mod_eq)
    have "q \<in> subtree ow (Suc l) (x * 512 + ?z mod 512)"
      using q(1,2) False z unfolding subtree_def by force
    then show ?thesis by auto
  qed
next
  fix q assume "q \<in> ?R"
  then consider "q = p" | i where "i < 512" "q \<in> subtree ow (Suc l) (x * 512 + i)" by auto
  then show "q \<in> ?L"
  proof cases
    case 1 then show ?thesis using p by (auto simp: subtree_def)
  next
    case 2
    then obtain l' y where q: "ow q = Some (l', y)" "Suc l \<le> l'" "y div 512 ^ (l' - Suc l) = x * 512 + i"
      by (auto simp: subtree_def)
    have "l' - l = Suc (l' - Suc l)" using q(2) by linarith
    then have "y div 512 ^ (l' - l) = y div 512 ^ (l' - Suc l) div 512"
      by (simp add: div_mult2_eq [symmetric] mult.commute)
    then show ?thesis using q 2(1) by (auto simp: subtree_def)
  qed
qed

lemma subtree_below_leaf: "pt_inv ow root s \<Longrightarrow> subtree ow (Suc 3) x = {}"
  using level_le_3 [of ow root s] by (fastforce simp: subtree_def)

text \<open>A descriptor that is not followed has nothing below it.\<close>

lemma subtree_invalid:
  assumes inv: "pt_inv ow root s" and p: "ow p = Some (l, x)" and i: "i < 512"
    and e: "\<not> (bit (entry s p i) 0 \<and> bit (entry s p i) 1)"
  shows "subtree ow (Suc l) (x * 512 + i) = {}"
proof (rule ccontr)
  assume "subtree ow (Suc l) (x * 512 + i) \<noteq> {}"
  then obtain q where q: "ow q = Some (Suc l, x * 512 + i)" using subtree_root [OF inv] by blast
  from pt_invD(6) [OF inv q] i obtain p' where
    "ow p' = Some (l, x)" "entry s p' i = table_desc (page_addr q)" by auto
  then have "entry s p i = table_desc (page_addr q)" using pt_invD(4) [OF inv p] by auto
  then show False using e pt_invD(3) [OF inv q] by simp
qed

text \<open>
  What releasing some tables does to a state: the pages \<open>Q\<close> are given back and nothing else
  changes.
\<close>

definition gives_back :: "nat set \<Rightarrow> 'a mm_state_scheme \<Rightarrow> 'a mm_state_scheme \<Rightarrow> bool" where
  "gives_back Q s s' \<longleftrightarrow> mm_inv s' \<and> mem s' = mem s \<and> used_set s' = used_set s - Q \<and>
     mm_state.more s' = mm_state.more s"

lemma gives_back_refl: "mm_inv s \<Longrightarrow> gives_back {} s s"
  by (simp add: gives_back_def)

lemma gives_back_trans: "gives_back Q s t \<Longrightarrow> gives_back R t u \<Longrightarrow> gives_back (Q \<union> R) s u"
  by (auto simp: gives_back_def)

lemma gives_back_page: "mm_inv s \<Longrightarrow> p < MAX_PAGES \<Longrightarrow> gives_back {p} s (page_free (page_addr p) s)"
  by (simp add: gives_back_def page_free_page_addr mm_inv_release used_set_release frame_simps)

lemma gives_back_loop:
  assumes "mm_inv s"
    and "\<And>i t. a \<le> i \<Longrightarrow> i < n \<Longrightarrow> mm_inv t \<Longrightarrow> mem t = mem s \<Longrightarrow> gives_back (Q i) t (f i t)" and "a \<le> n"
  shows "gives_back (\<Union>i\<in>{a..<n}. Q i) s (for_loop a n f s)"
proof (rule for_loop_inv [where P = "\<lambda>k t. gives_back (\<Union>i\<in>{a..<k}. Q i) s t"])
  show "gives_back (\<Union>i\<in>{a..<a}. Q i) s s" using assms(1) by (simp add: gives_back_refl)
  fix j t assume j: "a \<le> j" "j < n" and t: "gives_back (\<Union>i\<in>{a..<j}. Q i) s t"
  then have "gives_back (Q j) t (f j t)" using assms(2) by (simp add: gives_back_def)
  from gives_back_trans [OF t this] show "gives_back (\<Union>i\<in>{a..<Suc j}. Q i) s (f j t)"
    using j by (simp add: atLeastLessThanSuc Un_commute)
qed (rule assms(3))

lemma vm_free_subtree_spec:
  fixes s s0 :: "'a mm_state_scheme"
  assumes inv: "pt_inv ow root s0"
  shows "ow p = Some (l, x) \<Longrightarrow> mem s = mem s0 \<Longrightarrow> mm_inv s \<Longrightarrow>
    gives_back (subtree ow l x) s (vm_free_subtree (page_addr p) l s)"
proof (induction "3 - l" arbitrary: p l x s rule: less_induct)
  case less
  let ?Q = "\<lambda>i. subtree ow (Suc l) (x * 512 + i)"
  let ?f = "\<lambda>i t. if mem t (cell (page_addr p) i) AND push_bit 0 1 = 0 then t
          else if l < 3 \<and> mem t (cell (page_addr p) i) AND push_bit 1 1 \<noteq> 0
          then vm_free_subtree (mem t (cell (page_addr p) i) AND NOT 0xFFF) (l + 1) t else t"
  have "gives_back (?Q i) t (?f i t)" if t: "i < 512" "mm_inv t" "mem t = mem s" for i and t :: "'a mm_state_scheme"
  proof (cases "l < 3 \<and> bit (entry s0 p i) 0 \<and> bit (entry s0 p i) 1")
    case True
    then obtain q where q: "entry s0 p i = table_desc (page_addr q)" "ow q = Some (Suc l, x * 512 + i)"
      using pt_invD(5) [OF inv less.prems(1) _ t(1)] by blast
    have "3 - Suc l < 3 - l" using True by linarith
    from less.hyps [OF this q(2) _ t(2)] t(3) less.prems(2)
    have "gives_back (?Q i) t (vm_free_subtree (page_addr q) (Suc l) t)" by simp
    moreover have "?f i t = vm_free_subtree (page_addr q) (Suc l) t"
      using True q(1) t(3) less.prems(2) pt_invD(3) [OF inv q(2)] by (simp add: and_bit_zero)
    ultimately show ?thesis by simp
  next
    case False
    have "l \<le> 3" by (rule level_le_3 [OF inv less.prems(1)])
    then have "?Q i = {}"
      using False subtree_invalid [OF inv less.prems(1) t(1)] subtree_below_leaf [OF inv]
      by (cases "l = 3") auto
    moreover have "?f i t = t" using False t(3) less.prems(2) by (auto simp: and_bit_zero)
    ultimately show ?thesis using t(2) by (simp add: gives_back_refl)
  qed
  then have loop: "gives_back (\<Union>i\<in>{0..<512}. ?Q i) s (for_loop 0 512 ?f s)"
    using less.prems(3) by (intro gives_back_loop) simp_all
  then have "mm_inv (for_loop 0 512 ?f s)" by (simp add: gives_back_def)
  from gives_back_trans [OF loop gives_back_page [OF this pt_invD(3) [OF inv less.prems(1)]]]
  show ?case
    unfolding subtree_unfold [OF inv less.prems(1)] vm_free_subtree.simps [of "page_addr p"]
    by (simp add: atLeast0LessThan)
qed

section \<open>Creating and destroying an address space\<close>

text \<open>
  The kernel's tables: a tree in which only the first top-level descriptor is in use, as
  \<open>mm_create_page_tables\<close> leaves it.
\<close>

definition kernel_tree :: "pt_layout \<Rightarrow> (nat \<rightharpoonup> nat \<times> nat) \<Rightarrow> nat \<Rightarrow> 'a mm_state_scheme \<Rightarrow> bool" where
  "kernel_tree L kow k s \<longleftrightarrow> pgd_table L = page_addr k \<and> pt_inv kow k s \<and>
     (\<forall>i. 0 < i \<and> i < 512 \<longrightarrow> \<not> bit (entry s k i) 0)"

definition task_tree :: "(nat \<rightharpoonup> nat \<times> nat) \<Rightarrow> nat \<Rightarrow> nat \<Rightarrow> (nat \<rightharpoonup> nat \<times> nat)" where
  "task_tree kow k root = kow(k := None, root \<mapsto> (0, 0))"

text \<open>The tables of an address space that are its own: all but those below descriptor 0.\<close>

definition own_tables :: "(nat \<rightharpoonup> nat \<times> nat) \<Rightarrow> nat \<Rightarrow> nat set" where
  "own_tables ow root = insert root (\<Union>i\<in>{1..<512}. subtree ow 1 i)"

text \<open>The memory after \<open>vm_create\<close>: the page \<open>root\<close> zeroed, with the kernel's first descriptor.\<close>

definition pgd_memory :: "nat \<Rightarrow> nat \<Rightarrow> memory \<Rightarrow> memory" where
  "pgd_memory k root m =
     (zero_words (page_addr root) PAGE_WORDS m)(cell (page_addr root) 0 := m (cell (page_addr k) 0))"

lemma pgd_memory_entry:
  assumes "root < MAX_PAGES" and "p < MAX_PAGES" and "i < 512"
  shows "pgd_memory k root m (cell (page_addr p) i) =
    (if p = root then if i = 0 then m (cell (page_addr k) 0) else 0 else m (cell (page_addr p) i))"
  using assms by (simp add: pgd_memory_def cell_page_inj zero_page_apply cell_in_page)

lemma asid_update_frame [simp]:
  "used_set (s\<lparr>asid_bitmap := b\<rparr>) = used_set s" "mm_inv (s\<lparr>asid_bitmap := b\<rparr>) = mm_inv s"
  by (simp_all add: used_set_def bitmap_test_def mm_inv_def)

lemma asid_alloc_frame:
  assumes "asid_alloc s = (n, s')"
  shows "mm_inv s' = mm_inv s" "mem s' = mem s" "used_set s' = used_set s" "page_bitmap s' = page_bitmap s"
  using assms unfolding asid_alloc_def by (auto split: option.splits)

lemma vm_create_cases:
  assumes mm: "mm_inv s" and k: "pgd_table L = page_addr k" "k \<in> used_set s" and a: "asid_inv s"
  obtains (fail) "vm_create L a s = (- 1, a\<lparr>pgd := 0\<rparr>, s)" "used_set s = {..<MAX_PAGES}"
  | (ok) root n s' where "vm_create L a s = (0, a\<lparr>pgd := page_addr root, asid := n\<rparr>, s')"
      "root < MAX_PAGES" "root \<notin> used_set s" "used_set s' = insert root (used_set s)" "mm_inv s'"
      "mem s' = pgd_memory k root (mem s)" "asid_inv s'"
      "n = 0 \<and> asid_used s = {1..<ASID_MAX} \<and> asid_used s' = asid_used s \<or>
       unat n \<in> {1..<ASID_MAX} - asid_used s \<and> asid_used s' = insert (unat n) (asid_used s)"
proof -
  obtain p s1 where al: "page_alloc s = (p, s1)" by fastforce
  show ?thesis
  proof (cases "p = 0")
    case True
    then show ?thesis using fail al page_alloc_fail [of s s1] by (simp add: vm_create_def)
  next
    case False
    obtain root where r: "root < MAX_PAGES" "p = page_addr root" "root \<notin> used_set s"
      "used_set s1 = insert root (used_set s)" "mm_inv s1" "mem s1 = zero_words p PAGE_WORDS (mem s)"
      "mm_state.more s1 = mm_state.more s"
      by (rule page_alloc_result [OF mm al False]) (use that in blast)
    have ab: "asid_bitmap s1 = asid_bitmap s" using r(7) by (cases s, cases s1) simp
    let ?s2 = "s1\<lparr>mem := (mem s1)(cell p 0 := mem s1 (cell (pgd_table L) 0))\<rparr>"
    obtain n s' where as: "asid_alloc ?s2 = (n, s')" by fastforce
    have inv2: "asid_inv ?s2" "asid_used ?s2 = asid_used s"
      using a ab by (simp_all add: asid_inv_def asid_used_def asid_free_bit_def)
    have "k < MAX_PAGES" "k \<noteq> root" using k(2) r(3) by (auto simp: used_set_def)
    then have "mem ?s2 = pgd_memory k root (mem s)"
      using r k(1) by (simp add: pgd_memory_def zero_page_apply cell_in_page)
    then have m: "mem s' = pgd_memory k root (mem s)" using asid_alloc_frame(2) [OF as] by simp
    have u: "used_set s' = insert root (used_set s)" "mm_inv s'" using asid_alloc_frame [OF as] r(4,5) by simp_all
    have v: "vm_create L a s = (0, a\<lparr>pgd := page_addr root, asid := n\<rparr>, s')"
      using al False as r(2) by (simp add: vm_create_def Let_def)
    have n: "asid_inv s'" "n = 0 \<and> asid_used s = {1..<ASID_MAX} \<and> asid_used s' = asid_used s \<or>
       unat n \<in> {1..<ASID_MAX} - asid_used s \<and> asid_used s' = insert (unat n) (asid_used s)"
    proof -
      have sl: "asid_alloc_slot ?s2 = (if n = 0 then None else Some (unat n), s')"
        using as by (simp add: asid_alloc_slot_def)
      show "asid_inv s'" "n = 0 \<and> asid_used s = {1..<ASID_MAX} \<and> asid_used s' = asid_used s \<or>
         unat n \<in> {1..<ASID_MAX} - asid_used s \<and> asid_used s' = insert (unat n) (asid_used s)"
        using sl inv2 asids.alloc_None [OF inv2(1), of s'] asids.alloc_Some [OF inv2(1), of "unat n" s']
        by (cases "n = 0"; simp)+
    qed
    show ?thesis by (rule ok [OF v r(1,3) u m n])
  qed
qed

lemma task_tree_inv:
  assumes kt: "kernel_tree L kow k s" and r: "root < MAX_PAGES" "root \<notin> used_set s"
    and s': "used_set s' = insert root (used_set s)" "mem s' = pgd_memory k root (mem s)"
  shows "pt_inv (task_tree kow k root) root s'" (is "pt_inv ?ow root s'")
proof -
  have inv: "pt_inv kow k s" and zero: "\<And>i. 0 < i \<Longrightarrow> i < 512 \<Longrightarrow> \<not> bit (entry s k i) 0"
    using kt by (auto simp: kernel_tree_def)
  have nr: "kow root = None" using r(2) pt_invD(2) [OF inv] by (cases "kow root") auto
  have lab: "?ow p = Some (l, x) \<longleftrightarrow> p = root \<and> l = 0 \<and> x = 0 \<or> p \<noteq> k \<and> kow p = Some (l, x)" for p l x
    using nr pt_invD(1) [OF inv] by (auto simp: task_tree_def)
  have ent: "entry s' p i = (if p = root then if i = 0 then entry s k 0 else 0 else entry s p i)"
    if "p < MAX_PAGES" "i < 512" for p i using that r(1) s'(2) by (simp add: pgd_memory_entry)
  have notk: "q \<noteq> k" if "kow q = Some (Suc l, y)" for q l y using that pt_invD(1) [OF inv] by auto
  have desc: "\<exists>q. entry s' p i = table_desc (page_addr q) \<and> ?ow q = Some (Suc l, x * 512 + i)"
    if h: "?ow p = Some (l, x)" "l < 3" "i < 512" "bit (entry s' p i) 0" "l = 0 \<or> bit (entry s' p i) 1" for p l x i
  proof (cases "p = root")
    case True
    then have i: "i = 0" "l = 0" "x = 0" using h(1,3,4) ent [OF r(1)] lab nr by (auto split: if_splits)
    obtain q where q: "entry s k 0 = table_desc (page_addr q)" "kow q = Some (Suc 0, 0)"
      using pt_invD(5) [OF inv pt_invD(1) [OF inv], of 0] h(4) True i ent [OF r(1)] by auto
    then show ?thesis using i True ent [OF r(1), of 0] lab [of q] notk [OF q(2)] by (intro exI [of _ q]) auto
  next
    case False
    then have "kow p = Some (l, x)" "p < MAX_PAGES" using h(1) lab pt_invD(3) [OF inv] by auto
    then obtain q where q: "entry s p i = table_desc (page_addr q)" "kow q = Some (Suc l, x * 512 + i)"
      using pt_invD(5) [OF inv, of p l x i] h False ent [of p i] by auto
    then show ?thesis
      using False \<open>p < MAX_PAGES\<close> h(3) ent [of p i] lab [of q] notk [OF q(2)] by (intro exI [of _ q]) auto
  qed
  have just: "l < 3 \<and> (\<exists>p. ?ow p = Some (l, y div 512) \<and> entry s' p (y mod 512) = table_desc (page_addr q))"
    if "?ow q = Some (Suc l, y)" for q l y
  proof -
    have kq: "kow q = Some (Suc l, y)" using that lab by auto
    obtain p where p: "l < 3" "kow p = Some (l, y div 512)" "entry s p (y mod 512) = table_desc (page_addr q)"
      using pt_invD(6) [OF inv kq] by blast
    show ?thesis
    proof (cases "p = k")
      case True
      have "bit (entry s k (y mod 512)) 0" using p(3) True pt_invD(3) [OF inv kq] by simp
      then have "y mod 512 = 0" using zero [of "y mod 512"] by (cases "y mod 512 = 0") simp_all
      then show ?thesis
        using p True pt_invD(1) [OF inv] lab ent [OF r(1), of 0] by auto
    next
      case False
      then show ?thesis
        using p nr pt_invD(3) [OF inv p(2)] ent [of p "y mod 512"] lab by (intro conjI exI [of _ p]) auto
    qed
  qed
  have inj: "p = q" if "?ow p = Some lx \<and> ?ow q = Some lx" for p q lx
    using that lab pt_invD(4) [OF inv] pt_invD(1) [OF inv] by (cases lx) metis
  have "dom ?ow \<subseteq> used_set s'" using s'(1) pt_invD(2) [OF inv] lab by (auto simp: dom_def)
  moreover have "?ow root = Some (0, 0)" by (simp add: task_tree_def)
  ultimately show ?thesis
    unfolding pt_inv_def using inj desc just by blast
qed

lemma own_tables_fresh:
  assumes inv: "pt_inv ow root s" and "\<forall>i. 0 < i \<and> i < 512 \<longrightarrow> \<not> bit (entry s root i) 0"
  shows "own_tables ow root = {root}"
proof -
  have "subtree ow 1 i = {}" if "i \<in> {1..<512}" for i
    using subtree_invalid [OF inv pt_invD(1) [OF inv], of i] that assms(2) by auto
  then show ?thesis by (simp add: own_tables_def)
qed

lemma vm_destroy_tables_spec:
  fixes s :: "'a mm_state_scheme"
  assumes inv: "pt_inv ow root s" and mm: "mm_inv s"
  shows "gives_back (own_tables ow root) s (page_free (page_addr root) (vm_destroy_tables (page_addr root) s))"
proof -
  let ?f = "\<lambda>i t. if mem t (cell (page_addr root) i) AND push_bit 0 1 \<noteq> 0
        then vm_free_subtree (mem t (cell (page_addr root) i) AND NOT 0xFFF) 1 t else t"
  note root = pt_invD(1) [OF inv]
  have "gives_back (subtree ow 1 i) t (?f i t)" if t: "i < 512" "mm_inv t" "mem t = mem s"
    for i and t :: "'a mm_state_scheme"
  proof (cases "bit (entry s root i) 0")
    case True
    then obtain q where q: "entry s root i = table_desc (page_addr q)" "ow q = Some (1, i)"
      using pt_invD(5) [OF inv root _ t(1)] by auto
    have "?f i t = vm_free_subtree (page_addr q) 1 t"
      using True q(1) t(3) pt_invD(3) [OF inv q(2)] by (simp add: and_bit_zero)
    then show ?thesis using vm_free_subtree_spec [OF inv q(2) t(3,2)] by simp
  next
    case False
    then have f: "?f i t = t" and e: "subtree ow 1 i = {}"
      using t(3) subtree_invalid [OF inv root t(1)] by (simp_all add: and_bit_zero)
    show ?thesis unfolding f e by (rule gives_back_refl [OF t(2)])
  qed
  then have loop: "gives_back (\<Union>i\<in>{1..<512}. subtree ow 1 i) s (vm_destroy_tables (page_addr root) s)"
    unfolding vm_destroy_tables_def using mm by (intro gives_back_loop) simp_all
  then have "mm_inv (vm_destroy_tables (page_addr root) s)" by (simp add: gives_back_def)
  from gives_back_trans [OF loop gives_back_page [OF this pt_invD(3) [OF inv root]]]
  show ?thesis by (simp add: own_tables_def)
qed

lemma asid_free_frame [frame_simps]:
  "mm_inv (asid_free n s) = mm_inv s" "mem (asid_free n s) = mem s" "used_set (asid_free n s) = used_set s"
  "page_bitmap (asid_free n s) = page_bitmap s" "used_pages (asid_free n s) = used_pages s"
  by (simp_all add: asid_free_def)

lemma asid_same_more:
  "mm_state.more s' = mm_state.more s \<Longrightarrow> asid_used s' = asid_used s \<and> asid_inv s' = asid_inv s"
  by (cases s, cases s') (simp add: asid_used_def asid_inv_def asid_free_bit_def)

lemma vm_destroy_spec:
  assumes inv: "pt_inv ow root s" and mm: "mm_inv s" and ai: "asid_inv s"
    and a: "pgd a = page_addr root" "unat (asid a) < ASID_MAX"
  obtains s' where "vm_destroy a s = (a\<lparr>pgd := 0, asid := 0\<rparr>, s')" "mm_inv s'" "mem s' = mem s"
    "used_set s' = used_set s - own_tables ow root" "asid_used s' = asid_used s - {unat (asid a)}" "asid_inv s'"
    "vm_state.more s' = vm_state.more s"
proof -
  let ?t = "page_free (page_addr root) (vm_destroy_tables (page_addr root) s)"
  let ?s = "asid_free (asid a) ?t"
  have g: "gives_back (own_tables ow root) s ?t" by (rule vm_destroy_tables_spec [OF inv mm])
  then have t: "asid_used ?t = asid_used s" "asid_inv ?t"
    using ai asid_same_more [of ?t s] by (auto simp: gives_back_def)
  have "asid_used ?s = asid_used s - {unat (asid a)}"
  proof (cases "asid a = 0")
    case True
    then show ?thesis using t by (simp add: asid_free_def asid_used_def)
  next
    case False
    then have "1 \<le> unat (asid a)" by (simp add: Suc_le_eq unat_gt_0)
    from asid_used_free [OF t(2) this a(2)] show ?thesis using t(1) by simp
  qed
  moreover have "vm_destroy a s = (a\<lparr>pgd := 0, asid := 0\<rparr>, ?s)"
    using a(1) pt_invD(3) [OF inv pt_invD(1) [OF inv]] by (simp add: vm_destroy_def)
  moreover have "mm_inv ?s" "mem ?s = mem s" "used_set ?s = used_set s - own_tables ow root"
    using g by (simp_all add: gives_back_def frame_simps)
  moreover have "vm_state.more ?t = vm_state.more s" using g by (cases s, cases ?t) (simp add: gives_back_def)
  then have "vm_state.more ?s = vm_state.more s" by (simp add: asid_free_def)
  ultimately show ?thesis using that t(2) by simp
qed

text \<open>Mapping pages above the first 512 GB keeps the tree and adds only tables of its own.\<close>

type_synonym map_request = "u64 \<times> u64 \<times> u64"

definition own_request :: "map_request \<Rightarrow> bool" where
  "own_request r \<longleftrightarrow> (case r of (va, pa, flags) \<Rightarrow> 2 ^ 39 \<le> unat va \<and> unat va < 2 ^ 48 \<and>
     bit flags 0 \<and> bit flags 1)"

definition mm_map_pages :: "u64 \<Rightarrow> map_request list \<Rightarrow> 'a mm_state_scheme \<Rightarrow> 'a mm_state_scheme" where
  "mm_map_pages p rs s = fold (\<lambda>(va, pa, flags). mm_map_page p va pa flags) rs s"

lemma new_table_is_own:
  assumes inv: "pt_inv ow' root s'" and nt: "new_tables va ow s ow' s'" and q: "ow' q \<noteq> None" "ow q = None"
    and va: "2 ^ 39 \<le> unat va" "unat va < 2 ^ 48"
  shows "q \<in> own_tables ow' root" and "q \<notin> used_set s"
proof -
  obtain l x where lx: "ow' q = Some (l, x)" using q(1) by auto
  then have n: "q \<notin> used_set s" "0 < l" "x = unat va div 2 ^ (48 - 9 * l)"
    using nt q(2) unfolding new_tables_def by blast+
  have l: "l \<le> 3" by (rule level_le_3 [OF inv lx])
  have "48 - 9 * l + 9 * (l - 1) = 39" using l n(2) by linarith
  then have "(2 :: nat) ^ 39 = 2 ^ (48 - 9 * l) * 512 ^ (l - 1)"
    using power_mult [of "2 :: nat" 9 "l - 1"] power_add [of "2 :: nat" "48 - 9 * l" "9 * (l - 1)"] by simp
  then have "x div 512 ^ (l - 1) = unat va div 2 ^ 39" unfolding n(3) by (simp only: div_mult2_eq)
  moreover have "1 \<le> unat va div 2 ^ 39" "unat va div 2 ^ 39 < 512"
    using va by (auto simp: less_mult_imp_div_less Suc_le_eq div_greater_zero_iff)
  ultimately have "x div 512 ^ (l - 1) \<in> {1..<512}" by simp
  moreover have "q \<in> subtree ow' 1 (x div 512 ^ (l - 1))" using lx n(2) by (auto simp: subtree_def)
  ultimately show "q \<in> own_tables ow' root" unfolding own_tables_def by blast
  show "q \<notin> used_set s" by (rule n(1))
qed

lemma subtree_mono: "ow \<subseteq>\<^sub>m ow' \<Longrightarrow> subtree ow l x \<subseteq> subtree ow' l x"
  unfolding subtree_def map_le_def by (fastforce simp: dom_def)

lemma subtree_old: "q \<in> subtree ow' l x \<Longrightarrow> ow' q = ow q \<Longrightarrow> q \<in> subtree ow l x"
  unfolding subtree_def by simp

lemma foreign_pages_kept:
  assumes inv: "pt_inv ow root s" "pt_inv ow' root s'" and nt: "new_tables va ow s ow' s'"
    and va: "2 ^ 39 \<le> unat va" "unat va < 2 ^ 48"
  shows "used_set s' - own_tables ow' root = used_set s - own_tables ow root"
proof -
  have le: "ow \<subseteq>\<^sub>m ow'" and u: "used_set s' = used_set s \<union> dom ow'" using nt by (auto simp: new_tables_def)
  have old: "q \<in> own_tables ow root" if q: "q \<in> own_tables ow' root" "q \<in> used_set s" for q
  proof (cases "ow q = None \<and> ow' q \<noteq> None")
    case True
    then show ?thesis using new_table_is_own(2) [OF inv(2) nt _ _ va] q(2) by blast
  next
    case False
    then have "ow' q = ow q" using le unfolding map_le_def by (metis domIff)
    then show ?thesis using q(1) subtree_old [of q ow' 1 _ ow] by (auto simp: own_tables_def)
  qed
  have "own_tables ow root \<subseteq> own_tables ow' root" using subtree_mono [OF le] by (auto simp: own_tables_def)
  moreover have "q \<in> used_set s" if "q \<in> dom ow'" "q \<notin> own_tables ow' root" for q
    using that new_table_is_own(1) [OF inv(2) nt _ _ va] pt_invD(2) [OF inv(1)] by (cases "ow q") auto
  ultimately show ?thesis using old u by blast
qed

lemma next_table_more [frame_simps]:
  "mm_state.more (snd (next_table c t i s)) = mm_state.more s"
proof -
  have "mm_state.more (snd (page_alloc s)) = mm_state.more s"
    by (cases s rule: page_alloc_cases) (auto simp: frame_simps)
  then show ?thesis by (auto simp: next_table_def Let_def split: prod.splits)
qed

lemma mm_map_page_more [frame_simps]:
  "mm_state.more (mm_map_page p va pa flags s) = mm_state.more s"
proof -
  have step: "mm_state.more s1 = mm_state.more s0" if "next_table c t i s0 = (r, s1)"
    for c t i r and s0 s1 :: "'a mm_state_scheme"
    using next_table_more [of c t i s0] that by simp
  show ?thesis
    unfolding mm_map_page_def by (auto dest!: step split: prod.splits option.splits)
qed

lemma mm_map_pages_spec:
  assumes "mm_inv s" and "pt_inv ow root s" and "list_all own_request rs"
  shows "\<exists>ow'. mm_inv (mm_map_pages (page_addr root) rs s) \<and> pt_inv ow' root (mm_map_pages (page_addr root) rs s) \<and>
    used_set (mm_map_pages (page_addr root) rs s) - own_tables ow' root = used_set s - own_tables ow root \<and>
    mm_state.more (mm_map_pages (page_addr root) rs s) = mm_state.more s"
  using assms
proof (induction rs arbitrary: s ow)
  case Nil
  then show ?case by (auto simp: mm_map_pages_def)
next
  case (Cons r rs)
  obtain va pa flags where r: "r = (va, pa, flags)" by (cases r)
  let ?s = "mm_map_page (page_addr root) va pa flags s"
  have va: "2 ^ 39 \<le> unat va" "unat va < 2 ^ 48" and fl: "bit flags 0" "bit flags 1" and rs: "list_all own_request rs"
    using Cons.prems(3) r by (auto simp: own_request_def [of "(va, pa, flags)"])
  have "bit ((pa AND NOT 0xFFF) OR flags) 0" "bit ((pa AND NOT 0xFFF) OR flags) 1"
    using fl by (simp_all add: bit_or_iff)
  from mm_map_page_outcome [OF Cons.prems(1,2) va(2) refl this]
  obtain ow1 where 1: "mm_inv ?s" "pt_inv ow1 root ?s" "new_tables va ow s ow1 ?s"
    unfolding map_outcome_def unchanged_outcome_def by blast
  from Cons.IH [OF 1(1,2) rs] foreign_pages_kept [OF Cons.prems(2) 1(2,3) va]
  show ?case by (simp add: mm_map_pages_def r frame_simps)
qed

section \<open>The kernel's own tables\<close>

text \<open>The labels of the four tables \<open>mm_create_page_tables\<close> fills, by page number.\<close>

definition kernel_labels :: "nat \<Rightarrow> nat \<Rightarrow> nat \<Rightarrow> nat \<Rightarrow> (nat \<rightharpoonup> nat \<times> nat)" where
  "kernel_labels k u d r = [k \<mapsto> (0, 0), u \<mapsto> (1, 0), d \<mapsto> (2, 0), r \<mapsto> (2, 1)]"

lemma block_entry_bit1:
  assumes "take_bit 21 base = 0" and "low = BLOCK_NORMAL \<or> low = BLOCK_DEVICE"
  shows "\<not> bit (base OR low) 1"
proof -
  have "\<not> bit low 1" using assms(2) by (auto simp: BLOCK_values bit_iff_odd)
  then show ?thesis using bit_desc [OF assms(1), of 1 low] by simp
qed

lemma mult_2mb_low: "take_bit 21 (of_nat i * 0x200000 :: u64) = 0" "take_bit 21 (0x40000000 + of_nat i * 0x200000 :: u64) = 0"
proof -
  have p: "push_bit 21 (x :: u64) = x * 0x200000" for x by (simp add: push_bit_eq_mult)
  have t: "take_bit 21 (push_bit 21 x :: u64) = 0" for x by (simp add: bit_eq_iff bit_simps)
  show "take_bit 21 (of_nat i * 0x200000 :: u64) = 0" using t [of "of_nat i"] unfolding p .
  have "0x40000000 + of_nat i * 0x200000 = (0x200 + of_nat i) * (0x200000 :: u64)"
    by (simp add: distrib_right)
  then show "take_bit 21 (0x40000000 + of_nat i * 0x200000 :: u64) = 0" using t [of "0x200 + of_nat i"] unfolding p by simp
qed

lemma kernel_tree_boot:
  assumes L: "layout_ok L" "pgd_table L = page_addr k" "pud_table L = page_addr u"
      "pmd_table_dev L = page_addr d" "pmd_table_ram L = page_addr r"
    and used: "{k, u, d, r} \<subseteq> used_set s"
  defines "s' \<equiv> mm_create_page_tables L s"
  shows "kernel_tree L (kernel_labels k u d r) k s'"
proof -
  have us: "used_set s' = used_set s" by (simp add: s'_def mm_create_page_tables_def Let_def)
  have lt: "k < MAX_PAGES" "u < MAX_PAGES" "d < MAX_PAGES" "r < MAX_PAGES" using used by (auto simp: used_set_def)
  have ne: "distinct [k, u, d, r]" using L by (auto simp: layout_ok_def)
  have ent: "entry s' k i = (if i = 0 then table_desc (page_addr u) else 0)"
    "entry s' u i = (if i = 0 then table_desc (page_addr d) else if i = 1 then table_desc (page_addr r) else 0)"
    "\<not> bit (entry s' d i) 1" "\<not> bit (entry s' r i) 1" if "i < 512" for i
    using kernel_tables [OF L(1) that, of s] L(2-5) block_entry_bit1 [OF mult_2mb_low(1)]
      block_entry_bit1 [OF mult_2mb_low(2)] by (auto simp: s'_def)
  have lab: "kernel_labels k u d r p = Some (l, x) \<longleftrightarrow>
     p = k \<and> l = 0 \<and> x = 0 \<or> p = u \<and> l = 1 \<and> x = 0 \<or> p = d \<and> l = 2 \<and> x = 0 \<or> p = r \<and> l = 2 \<and> x = 1" for p l x
    using ne by (auto simp: kernel_labels_def)
  have "pt_inv (kernel_labels k u d r) k s'"
    unfolding pt_inv_def
  proof (intro conjI allI impI)
    show "dom (kernel_labels k u d r) \<subseteq> used_set s'" using used us by (auto simp: dom_def lab)
    show "p = q" if "kernel_labels k u d r p = Some lx \<and> kernel_labels k u d r q = Some lx" for p q lx
      using that by (cases lx) (auto simp: lab)
  next
    fix p l x i
    assume "kernel_labels k u d r p = Some (l, x) \<and> l < 3 \<and> i < 512 \<and> bit (entry s' p i) 0 \<and>
      (l = 0 \<or> bit (entry s' p i) 1)"
    then consider "p = k" "l = 0" "x = 0" "i = 0" | "p = u" "l = 1" "x = 0" "i = 0" | "p = u" "l = 1" "x = 0" "i = 1"
      unfolding lab using ent [of i] by (auto split: if_splits)
    then show "\<exists>q. entry s' p i = table_desc (page_addr q) \<and> kernel_labels k u d r q = Some (Suc l, x * 512 + i)"
    proof cases
      case 1 then show ?thesis using ent(1) [of i] by (intro exI [of _ u]) (simp add: lab)
    next
      case 2 then show ?thesis using ent(2) [of i] by (intro exI [of _ d]) (simp add: lab)
    next
      case 3 then show ?thesis using ent(2) [of i] by (intro exI [of _ r]) (simp add: lab)
    qed
  next
    fix q l y assume "kernel_labels k u d r q = Some (Suc l, y)"
    then consider "q = u" "l = 0" "y = 0" | "q = d" "l = 1" "y = 0" | "q = r" "l = 1" "y = 1"
      unfolding lab by auto
    then show "\<exists>p. kernel_labels k u d r p = Some (l, y div 512) \<and> entry s' p (y mod 512) = table_desc (page_addr q)"
    proof cases
      case 1 then show ?thesis using ent(1) [of 0] by (intro exI [of _ k]) (simp add: lab)
    next
      case 2 then show ?thesis using ent(2) [of 0] by (intro exI [of _ u]) (simp add: lab)
    next
      case 3 then show ?thesis using ent(2) [of 1] by (intro exI [of _ u]) (simp add: lab)
    qed
  qed (auto simp: lab)
  then show ?thesis using L(2) ent(1) by (simp add: kernel_tree_def)
qed

text \<open>
  Memory as start-up leaves it, with a kernel of 1 MB and the tables in its image: the state
  in which the closed instances start.
\<close>

definition boot_mm :: "'a mm_state_scheme \<Rightarrow> 'a mm_state_scheme" where
  "boot_mm s = mm_create_page_tables sample_layout (mm_init 0x40100000 s)"

lemma boot_mm_spec:
  "mm_inv (boot_mm s)" "used_set (boot_mm s) = {..<256}"
  "kernel_tree sample_layout (kernel_labels 144 145 146 147) 144 (boot_mm s)"
  "mm_state.more (boot_mm s) = mm_state.more s"
proof -
  have i: "mm_inv (mm_init 0x40100000 s)" "used_set (mm_init 0x40100000 s) = {..<256}"
    using mm_init_spec [of "0x40100000" s] by simp_all
  then show "mm_inv (boot_mm s)" "used_set (boot_mm s) = {..<256}"
    by (simp_all add: boot_mm_def mm_create_page_tables_def Let_def)
  show "kernel_tree sample_layout (kernel_labels 144 145 146 147) 144 (boot_mm s)"
    unfolding boot_mm_def
    by (rule kernel_tree_boot) (simp_all add: i(2) layout_ok_def sample_layout_def page_addr_def)
  have "mm_state.more (for_loop 0 n claim_page s0) = mm_state.more s0" for n and s0 :: "'a mm_state_scheme"
    by (rule for_loop_frame) (simp add: frame_simps)
  then show "mm_state.more (boot_mm s) = mm_state.more s"
    by (simp add: boot_mm_def mm_create_page_tables_def mm_init_def Let_def)
qed

definition vm_boot :: vm_state where
  "vm_boot = boot_mm \<lparr>page_bitmap = [], total_pages = 0, used_pages = 0, mem = (\<lambda>_. 0),
     asid_bitmap = replicate 32 0\<rparr>"

lemma vm_boot_spec: "asid_inv vm_boot" "asid_used vm_boot = {}"
proof -
  let ?s = "\<lparr>page_bitmap = [], total_pages = 0, used_pages = 0, mem = (\<lambda>_. 0),
     asid_bitmap = replicate 32 0\<rparr> :: vm_state"
  have "asid_inv ?s" "asid_used ?s = {}"
    by (auto simp: asid_inv_def asid_used_def asid_free_bit_def ASID_MAX_def)
  then show "asid_inv vm_boot" "asid_used vm_boot = {}"
    using asid_same_more [of vm_boot ?s] boot_mm_spec(4) [of ?s] by (simp_all add: vm_boot_def)
qed

definition no_space :: address_space where
  "no_space = \<lparr>pgd = 0, asid = 0\<rparr>"

lemma vm_boot_create:
  obtains a s where "vm_create sample_layout no_space vm_boot = (0, a, s)"
proof (rule vm_create_cases [OF boot_mm_spec(1) _ _ vm_boot_spec(1) [unfolded vm_boot_def], folded vm_boot_def])
  show "pgd_table sample_layout = page_addr 144" by (simp add: sample_layout_def page_addr_def)
  show "144 \<in> used_set vm_boot" by (simp add: vm_boot_def boot_mm_spec(2))
  show thesis if "used_set vm_boot = {..<MAX_PAGES}"
    using that by (simp add: vm_boot_def boot_mm_spec(2) MAX_PAGES_def)
qed (use that in blast)

text \<open>The translations of a fresh address space.\<close>

lemma task_tree_translate:
  assumes kt: "kernel_tree L kow k s" and r: "root < MAX_PAGES" "root \<notin> used_set s" and va: "unat va < 2 ^ 48"
  shows "translate (pgd_memory k root (mem s)) (page_addr root) va =
    (if unat va < 2 ^ 39 then translate (mem s) (page_addr k) va else None)"
proof -
  let ?m = "pgd_memory k root (mem s)" and ?i = "table_idx 39 va"
  have inv: "pt_inv kow k s" using kt by (simp add: kernel_tree_def)
  have root: "?m (cell (page_addr root) ?i) = (if ?i = 0 then entry s k 0 else 0)"
    using r(1) by (simp add: pgd_memory_entry)
  have idx: "?i = 0 \<longleftrightarrow> unat va < 2 ^ 39"
  proof -
    have "unat va div 2 ^ 39 < 512" using va by (intro less_mult_imp_div_less) simp
    then have "?i = unat va div 2 ^ 39" by (simp add: table_idx_eq)
    then show ?thesis by (simp add: div_eq_0_iff)
  qed
  have "kow root = None" using r(2) pt_invD(2) [OF inv] by (cases "kow root") auto
  then have "same_or_fresh kow (mem s) ?m"
    unfolding same_or_fresh_def using r(1) pt_invD(3) [OF inv] by (auto simp: pgd_memory_entry)
  note below = walk_same_or_fresh [OF inv this]
  show ?thesis
  proof (cases "?i = 0 \<and> bit (entry s k 0) 0")
    case True
    then obtain q where q: "entry s k 0 = table_desc (page_addr q)" "kow q = Some (Suc 0, 0)" "q < MAX_PAGES"
      using pt_invD(5) [OF inv pt_invD(1) [OF inv], of 0] pt_invD(3) [OF inv] by auto
    have "walk ?m 0 (page_addr root) va = walk ?m (Suc 0) (page_addr q) va"
      using True root q by (intro walk_table) simp_all
    moreover have "walk (mem s) 0 (page_addr k) va = walk (mem s) (Suc 0) (page_addr q) va"
      using True q by (intro walk_table) simp_all
    ultimately show ?thesis using below [OF q(2)] True idx by (simp add: translate_def)
  next
    case False
    then have "walk ?m 0 (page_addr root) va = None"
      using root by (subst walk.simps) (auto simp: Let_def)
    moreover have "walk (mem s) 0 (page_addr k) va = None" if "?i = 0"
      using that False by (subst walk.simps) (simp add: Let_def)
    ultimately show ?thesis using idx by (auto simp: translate_def)
  qed
qed

text \<open>
  \<open>vm_create\<close> gives a new address space a page of its own as top-level table and an ASID
  that no other address space holds (0, the kernel's, only when all 255 are taken). In it
  every address below 512 GB is translated exactly as in the kernel's tables, and no
  address above is translated at all.
\<close>

theorem vm_create_shares_kernel:
  assumes "kernel_tree L kow k s" and "mm_inv s" and "asid_inv s"
    and "vm_create L a s = (0, a', s')"
  shows "(\<exists>root. pgd a' = page_addr root \<and> root < MAX_PAGES \<and> root \<notin> used_set s \<and>
      used_set s' = insert root (used_set s) \<and> mm_inv s' \<and> pt_inv (task_tree kow k root) root s') \<and>
     (\<forall>va. unat va < 2 ^ 48 \<longrightarrow> translate (mem s') (pgd a') va =
      (if unat va < 2 ^ 39 then translate (mem s) (pgd_table L) va else None)) \<and>
     (unat (asid a') \<in> {1..<ASID_MAX} - asid_used s \<and> asid_used s' = insert (unat (asid a')) (asid_used s) \<or>
      asid a' = 0 \<and> asid_used s = {1..<ASID_MAX})"
proof (intro conjI)
  have L: "pgd_table L = page_addr k" and k: "k \<in> used_set s"
    using assms(1) pt_invD(1,2) unfolding kernel_tree_def by blast+
  obtain root n where ok: "a' = a\<lparr>pgd := page_addr root, asid := n\<rparr>"
      "root < MAX_PAGES" "root \<notin> used_set s" "used_set s' = insert root (used_set s)" "mm_inv s'"
      "mem s' = pgd_memory k root (mem s)"
      "n = 0 \<and> asid_used s = {1..<ASID_MAX} \<and> asid_used s' = asid_used s \<or>
       unat n \<in> {1..<ASID_MAX} - asid_used s \<and> asid_used s' = insert (unat n) (asid_used s)"
    by (rule vm_create_cases [OF assms(2) L k assms(3), of a]) (use assms(4) in auto)
  show "\<exists>root. pgd a' = page_addr root \<and> root < MAX_PAGES \<and> root \<notin> used_set s \<and>
      used_set s' = insert root (used_set s) \<and> mm_inv s' \<and> pt_inv (task_tree kow k root) root s'"
    using ok task_tree_inv [OF assms(1) ok(2,3,4,6)] by auto
  show "\<forall>va. unat va < 2 ^ 48 \<longrightarrow> translate (mem s') (pgd a') va =
      (if unat va < 2 ^ 39 then translate (mem s) (pgd_table L) va else None)"
    using ok(1,6) L task_tree_translate [OF assms(1) ok(2,3)] by simp
  show "unat (asid a') \<in> {1..<ASID_MAX} - asid_used s \<and> asid_used s' = insert (unat (asid a')) (asid_used s) \<or>
      asid a' = 0 \<and> asid_used s = {1..<ASID_MAX}"
    using ok(1,7) by auto
qed

theorem vm_create_shares_kernel_witness:
  "\<exists>a s. vm_create sample_layout no_space vm_boot = (0, a, s) \<and> unat (asid a) \<in> {1..<ASID_MAX} \<and>
     translate (mem s) (pgd a) 0x8000000000 = None"
proof -
  obtain a s where c: "vm_create sample_layout no_space vm_boot = (0, a, s)" by (rule vm_boot_create)
  have "asid_used vm_boot \<noteq> {1..<ASID_MAX}" by (simp add: vm_boot_spec(2) ASID_MAX_def)
  then show ?thesis
    using vm_create_shares_kernel [OF boot_mm_spec(3,1) vm_boot_spec(1) [unfolded vm_boot_def], folded vm_boot_def, OF c]
    by (intro exI [of _ a] exI [of _ s]) (auto simp: c)
qed

text \<open>
  C19. An address space leaves nothing behind: after \<open>vm_create\<close>, any sequence of pages mapped
  above the shared 512 GB (successfully or not), and \<open>vm_destroy\<close>, the page bitmap is what it
  was, bit for bit, and so are the ASIDs in use; in particular no table of the kernel is freed.
\<close>

theorem vm_lifecycle_no_leak:
  assumes "kernel_tree L kow k s" and "mm_inv s" and "asid_inv s" and "list_all own_request rs"
    and "vm_create L a s = (0, a1, s1)"
    and "vm_destroy a1 (mm_map_pages (pgd a1) rs s1) = (a2, s2)"
  shows "page_bitmap s2 = page_bitmap s \<and> used_pages s2 = used_pages s \<and> asid_used s2 = asid_used s \<and>
    mm_inv s2 \<and> pgd a2 = 0"
proof -
  have L: "pgd_table L = page_addr k" and k: "k \<in> used_set s"
    using assms(1) pt_invD(1,2) unfolding kernel_tree_def by blast+
  obtain root n where ok: "a1 = a\<lparr>pgd := page_addr root, asid := n\<rparr>"
      "root < MAX_PAGES" "root \<notin> used_set s" "used_set s1 = insert root (used_set s)" "mm_inv s1"
      "mem s1 = pgd_memory k root (mem s)" "asid_inv s1"
      "n = 0 \<and> asid_used s = {1..<ASID_MAX} \<and> asid_used s1 = asid_used s \<or>
       unat n \<in> {1..<ASID_MAX} - asid_used s \<and> asid_used s1 = insert (unat n) (asid_used s)"
    by (rule vm_create_cases [OF assms(2) L k assms(3), of a]) (use assms(5) in auto)
  note tree = task_tree_inv [OF assms(1) ok(2,3,4,6)]
  let ?t = "mm_map_pages (page_addr root) rs s1"
  obtain ow where t: "mm_inv ?t" "pt_inv ow root ?t" "mm_state.more ?t = mm_state.more s1"
    "used_set ?t - own_tables ow root = used_set s1 - own_tables (task_tree kow k root) root"
    using mm_map_pages_spec [OF ok(5) tree assms(4)] by blast
  have "entry s1 root i = 0" if "0 < i" "i < 512" for i
    using that ok(2,6) by (simp add: pgd_memory_entry)
  then have "own_tables (task_tree kow k root) root = {root}" by (intro own_tables_fresh [OF tree]) simp
  then have u: "used_set ?t - own_tables ow root = used_set s" using t(4) ok(3,4) by simp
  have a: "asid_inv ?t" "asid_used ?t = asid_used s1" using asid_same_more [OF t(3)] ok(7) by simp_all
  have n: "pgd a1 = page_addr root" "unat (asid a1) < ASID_MAX" using ok(1,8) by (auto simp: ASID_MAX_def)
  obtain s' where d: "vm_destroy a1 ?t = (a1\<lparr>pgd := 0, asid := 0\<rparr>, s')" "mm_inv s'" "used_set s' = used_set s"
     "asid_used s' = asid_used s1 - {unat n}"
    by (rule vm_destroy_spec [OF t(2,1) a(1) n]) (use u a(2) ok(1) in auto)
  have s2: "s2 = s'" "pgd a2 = 0" using d(1) assms(6) n(1) by auto
  have "page_bitmap s' = page_bitmap s" using bitmap_ext [OF _ _ d(3)] d(2) assms(2) by simp
  moreover have "used_pages s' = used_pages s" using d(2,3) assms(2) by (simp add: mm_inv_def)
  moreover have "asid_used s' = asid_used s"
    using ok(8) d(4) asids.used_slots [OF assms(3)] by auto
  ultimately show ?thesis using s2 d(2) by simp
qed

theorem vm_lifecycle_no_leak_witness:
  "\<exists>a s. vm_create sample_layout no_space vm_boot = (0, a, s) \<and>
     page_bitmap (snd (vm_destroy a (mm_map_pages (pgd a) [(0x8000000000, 0x40200000, 0x703)] s))) =
     page_bitmap vm_boot"
proof -
  obtain a s where c: "vm_create sample_layout no_space vm_boot = (0, a, s)" by (rule vm_boot_create)
  have "list_all own_request [(0x8000000000, 0x40200000, 0x703)]"
    by (simp add: own_request_def bit_iff_odd)
  from vm_lifecycle_no_leak [OF boot_mm_spec(3,1) vm_boot_spec(1) [unfolded vm_boot_def] this, folded vm_boot_def, OF c
      prod.collapse [symmetric]]
  show ?thesis using c by blast
qed

end
