(* ===== verification/Cap.thy ===== *)
theory Cap
  imports Vm
begin

text \<open>
  The capability system (\<^verbatim>\<open>kernel/cap.c\<close>, \<^verbatim>\<open>kernel/cap.h\<close>): a global pool of 256 typed
  capabilities. The union of the C structure is a datatype with a constructor per member;
  the type tag is kept beside it as in C. A pointer result is an option, an index result an
  integer with \<open>-1\<close> for failure. Each function runs under \<^verbatim>\<open>cap_lock\<close> and is one step.
\<close>

section \<open>Data\<close>

abbreviation CAP_NONE :: u32 where "CAP_NONE \<equiv> 0"
abbreviation CAP_MEMORY :: u32 where "CAP_MEMORY \<equiv> 1"
abbreviation CAP_IPC :: u32 where "CAP_IPC \<equiv> 2"
abbreviation CAP_IRQ :: u32 where "CAP_IRQ \<equiv> 3"
abbreviation CAP_IO :: u32 where "CAP_IO \<equiv> 4"
abbreviation CAP_TASK :: u32 where "CAP_TASK \<equiv> 5"

abbreviation CAP_IPC_SEND :: u32 where "CAP_IPC_SEND \<equiv> push_bit 0 1"
abbreviation CAP_IPC_RECV :: u32 where "CAP_IPC_RECV \<equiv> push_bit 1 1"

definition CAP_POOL_SIZE :: nat where "CAP_POOL_SIZE = 256"

datatype cap_object =
    Cap_mem (cap_base: u64) (cap_pages: u64)
  | Cap_ipc (cap_ep_id: u32) (cap_rights: u32)
  | Cap_irq (cap_irq_num: u32)
  | Cap_io u64 u64
  | Cap_task u32

record capability =
  ctype :: u32
  refcount :: u32
  object :: cap_object

record cap_state = vm_state +
  cap_pool :: "capability list"
  cap_pool_used :: "bool list"

section \<open>Operations\<close>

definition cap_init :: "'a cap_state_scheme \<Rightarrow> 'a cap_state_scheme" where
  "cap_init s = for_loop 0 CAP_POOL_SIZE (\<lambda>i s.
     s\<lparr>cap_pool := (cap_pool s)[i := (cap_pool s ! i)\<lparr>ctype := CAP_NONE, refcount := 0\<rparr>],
       cap_pool_used := (cap_pool_used s)[i := False]\<rparr>) s"

definition cap_alloc :: "capability \<Rightarrow> 'a cap_state_scheme \<Rightarrow> int \<times> 'a cap_state_scheme" where
  "cap_alloc cap_out s =
     (case first_idx (\<lambda>i. \<not> cap_pool_used s ! i) 0 CAP_POOL_SIZE of
        Some i \<Rightarrow> (int i, s\<lparr>cap_pool_used := (cap_pool_used s)[i := True],
                            cap_pool := (cap_pool s)[i := cap_out\<lparr>refcount := 1\<rparr>]\<rparr>)
      | None \<Rightarrow> (- 1, s))"

definition cap_destroy :: "int \<Rightarrow> 'a cap_state_scheme \<Rightarrow> int \<times> 'a cap_state_scheme" where
  "cap_destroy cap_id s =
     (if cap_id < 0 \<or> cap_id \<ge> int CAP_POOL_SIZE then (- 1, s)
      else let i = nat cap_id in
        if \<not> cap_pool_used s ! i then (- 1, s)
        else let c = (cap_pool s ! i)\<lparr>refcount := refcount (cap_pool s ! i) - 1\<rparr> in
          if refcount c = 0
          then (0, s\<lparr>cap_pool := (cap_pool s)[i := c\<lparr>ctype := CAP_NONE\<rparr>],
                     cap_pool_used := (cap_pool_used s)[i := False]\<rparr>)
          else (0, s\<lparr>cap_pool := (cap_pool s)[i := c]\<rparr>))"

definition cap_lookup :: "int \<Rightarrow> 'a cap_state_scheme \<Rightarrow> capability option" where
  "cap_lookup cap_id s =
     (if cap_id < 0 \<or> cap_id \<ge> int CAP_POOL_SIZE then None
      else if \<not> cap_pool_used s ! nat cap_id then None
      else Some (cap_pool s ! nat cap_id))"

definition cap_check :: "int \<Rightarrow> u32 \<Rightarrow> 'a cap_state_scheme \<Rightarrow> int" where
  "cap_check cap_id expected_type s =
     (case cap_lookup cap_id s of None \<Rightarrow> - 1
      | Some c \<Rightarrow> if ctype c \<noteq> expected_type then - 1 else 0)"

definition cap_create_memory :: "u64 \<Rightarrow> u64 \<Rightarrow> 'a cap_state_scheme \<Rightarrow> int \<times> 'a cap_state_scheme" where
  "cap_create_memory base pages = cap_alloc \<lparr>ctype = CAP_MEMORY, refcount = 0, object = Cap_mem base pages\<rparr>"

definition cap_create_ipc :: "u32 \<Rightarrow> u32 \<Rightarrow> 'a cap_state_scheme \<Rightarrow> int \<times> 'a cap_state_scheme" where
  "cap_create_ipc ep_id rights = cap_alloc \<lparr>ctype = CAP_IPC, refcount = 0, object = Cap_ipc ep_id rights\<rparr>"

definition cap_create_irq :: "u32 \<Rightarrow> 'a cap_state_scheme \<Rightarrow> int \<times> 'a cap_state_scheme" where
  "cap_create_irq irq_num = cap_alloc \<lparr>ctype = CAP_IRQ, refcount = 0, object = Cap_irq irq_num\<rparr>"

definition cap_create_io :: "u64 \<Rightarrow> u64 \<Rightarrow> 'a cap_state_scheme \<Rightarrow> int \<times> 'a cap_state_scheme" where
  "cap_create_io base size' = cap_alloc \<lparr>ctype = CAP_IO, refcount = 0, object = Cap_io base size'\<rparr>"

definition cap_create_task :: "u32 \<Rightarrow> 'a cap_state_scheme \<Rightarrow> int \<times> 'a cap_state_scheme" where
  "cap_create_task task_id = cap_alloc \<lparr>ctype = CAP_TASK, refcount = 0, object = Cap_task task_id\<rparr>"

section \<open>The pool as a partial map\<close>

text \<open>
  What clients see: a map from identifiers to capabilities. No function takes a second
  reference, so every capability in the pool has exactly one.
\<close>

definition cap_view :: "'a cap_state_scheme \<Rightarrow> int \<rightharpoonup> capability" where
  "cap_view s = (\<lambda>i. cap_lookup i s)"

definition cap_used :: "'a cap_state_scheme \<Rightarrow> nat set" where
  "cap_used s = {i. i < CAP_POOL_SIZE \<and> cap_pool_used s ! i}"

definition cap_inv :: "'a cap_state_scheme \<Rightarrow> bool" where
  "cap_inv s \<longleftrightarrow> length (cap_pool s) = CAP_POOL_SIZE \<and> length (cap_pool_used s) = CAP_POOL_SIZE \<and>
     (\<forall>i\<in>cap_used s. refcount (cap_pool s ! i) = 1)"

lemma dom_cap_view: "dom (cap_view s) = int ` cap_used s"
proof -
  have "cap_lookup c s \<noteq> None \<longleftrightarrow> c \<in> int ` cap_used s" for c
  proof (cases c)
    case (nonneg n) then show ?thesis by (auto simp: cap_lookup_def cap_used_def)
  next
    case (neg n) then show ?thesis by (auto simp: cap_lookup_def)
  qed
  then show ?thesis by (simp add: cap_view_def dom_def)
qed

lemma cap_alloc_cases:
  assumes "cap_inv s"
  obtains (full) "cap_alloc c s = (- 1, s)" "cap_used s = {..<CAP_POOL_SIZE}"
  | (ok) i s' where "cap_alloc c s = (int i, s')" "i < CAP_POOL_SIZE" "i \<notin> cap_used s" "{..<i} \<subseteq> cap_used s"
      "cap_used s' = insert i (cap_used s)" "cap_inv s'"
      "cap_view s' = (cap_view s)(int i \<mapsto> c\<lparr>refcount := 1\<rparr>)" "vm_state.truncate s' = vm_state.truncate s"
proof (cases "first_idx (\<lambda>i. \<not> cap_pool_used s ! i) 0 CAP_POOL_SIZE")
  case None
  then have "cap_alloc c s = (- 1, s)" by (simp add: cap_alloc_def)
  moreover have "cap_used s = {..<CAP_POOL_SIZE}" using None by (auto simp: first_idx_None cap_used_def)
  ultimately show ?thesis by (rule full)
next
  case (Some i)
  let ?s = "s\<lparr>cap_pool_used := (cap_pool_used s)[i := True], cap_pool := (cap_pool s)[i := c\<lparr>refcount := 1\<rparr>]\<rparr>"
  have i: "i < CAP_POOL_SIZE" "\<not> cap_pool_used s ! i" "\<forall>j<i. cap_pool_used s ! j"
    using Some by (auto simp: first_idx_Some)
  have l: "length (cap_pool s) = CAP_POOL_SIZE" "length (cap_pool_used s) = CAP_POOL_SIZE"
    using assms by (auto simp: cap_inv_def)
  have a: "cap_alloc c s = (int i, ?s)" by (simp add: cap_alloc_def Some)
  have n: "i \<notin> cap_used s" "{..<i} \<subseteq> cap_used s" using i by (auto simp: cap_used_def)
  have u: "cap_used ?s = insert i (cap_used s)" using i(1) l by (auto simp: cap_used_def nth_list_update)
  have v: "cap_inv ?s" using assms u i(1) l by (auto simp: cap_inv_def nth_list_update)
  have m: "cap_view ?s = (cap_view s)(int i \<mapsto> c\<lparr>refcount := 1\<rparr>)"
    using i(1) l by (auto simp: cap_view_def cap_lookup_def nth_list_update fun_eq_iff)
  show ?thesis by (rule ok [OF a i(1) n u v m]) (simp add: vm_state.defs)
qed

lemma cap_destroy_miss: "c \<notin> dom (cap_view s) \<Longrightarrow> cap_destroy c s = (- 1, s)"
  by (auto simp: cap_destroy_def cap_view_def cap_lookup_def domIff split: if_splits)

lemma cap_destroy_hit:
  assumes "cap_inv s" and i: "i \<in> cap_used s"
  obtains s' where "cap_destroy (int i) s = (0, s')" "cap_view s' = (cap_view s)(int i := None)" "cap_inv s'"
    "cap_used s' = cap_used s - {i}" "vm_state.truncate s' = vm_state.truncate s"
proof
  let ?s = "s\<lparr>cap_pool := (cap_pool s)[i := (cap_pool s ! i)\<lparr>refcount := 0, ctype := CAP_NONE\<rparr>],
              cap_pool_used := (cap_pool_used s)[i := False]\<rparr>"
  have l: "length (cap_pool s) = CAP_POOL_SIZE" "length (cap_pool_used s) = CAP_POOL_SIZE"
    and r: "\<forall>i\<in>cap_used s. refcount (cap_pool s ! i) = 1" using assms(1) by (auto simp: cap_inv_def)
  show "cap_destroy (int i) s = (0, ?s)" using i r by (simp add: cap_destroy_def cap_used_def)
  show u: "cap_used ?s = cap_used s - {i}" using l i by (auto simp: cap_used_def nth_list_update split: if_splits)
  show "cap_view ?s = (cap_view s)(int i := None)"
    using i l by (auto simp: cap_view_def cap_lookup_def nth_list_update fun_eq_iff cap_used_def)
  show "cap_inv ?s" unfolding cap_inv_def u using r l by (auto simp: nth_list_update)
qed (simp add: vm_state.defs)

definition cap_alloc_slot :: "capability \<Rightarrow> 'a cap_state_scheme \<Rightarrow> nat option \<times> 'a cap_state_scheme" where
  "cap_alloc_slot c s = (case cap_alloc c s of (i, s') \<Rightarrow> (if i < 0 then None else Some (nat i), s'))"

interpretation caps: slot_pool "cap_alloc_slot c" "\<lambda>i s. snd (cap_destroy (int i) s)" cap_used "{..<CAP_POOL_SIZE}" cap_inv
  for c
proof
  show "cap_used s \<subseteq> {..<CAP_POOL_SIZE}" for s :: "'a cap_state_scheme" by (auto simp: cap_used_def)
next
  fix s s' :: "'a cap_state_scheme" and i
  assume inv: "cap_inv s" and al: "cap_alloc_slot c s = (Some i, s')"
  show "i \<in> {..<CAP_POOL_SIZE} \<and> i \<notin> cap_used s \<and> cap_used s' = insert i (cap_used s) \<and> cap_inv s'"
    by (cases rule: cap_alloc_cases [OF inv, of c]) (use al in \<open>auto simp: cap_alloc_slot_def\<close>)
next
  fix s s' :: "'a cap_state_scheme"
  assume inv: "cap_inv s" and al: "cap_alloc_slot c s = (None, s')"
  show "s' = s \<and> cap_used s = {..<CAP_POOL_SIZE}"
    by (cases rule: cap_alloc_cases [OF inv, of c]) (use al in \<open>auto simp: cap_alloc_slot_def\<close>)
next
  fix s :: "'a cap_state_scheme" and i
  assume "cap_inv s" "i \<in> cap_used s"
  then show "cap_used (snd (cap_destroy (int i) s)) = cap_used s - {i} \<and> cap_inv (snd (cap_destroy (int i) s))"
    by (metis cap_destroy_hit snd_conv)
qed simp

lemma cap_init_spec:
  assumes "length (cap_pool s) = CAP_POOL_SIZE" and "length (cap_pool_used s) = CAP_POOL_SIZE"
  shows "cap_inv (cap_init s)" and "cap_used (cap_init s) = {}"
proof -
  let ?P = "\<lambda>k s. length (cap_pool s) = CAP_POOL_SIZE \<and> length (cap_pool_used s) = CAP_POOL_SIZE \<and>
    (\<forall>i<k. \<not> cap_pool_used s ! i)"
  have "?P CAP_POOL_SIZE (cap_init s)"
    unfolding cap_init_def
    by (rule for_loop_inv [where P = ?P]) (use assms in \<open>auto simp: nth_list_update less_Suc_eq\<close>)
  then show "cap_inv (cap_init s)" "cap_used (cap_init s) = {}" by (auto simp: cap_inv_def cap_used_def)
qed

section \<open>Properties\<close>

text \<open>
  C20. The capability pool refines a partial map from identifiers to capabilities with at most
  256 entries: \<open>cap_alloc\<close> adds the capability, with one reference, under the smallest unused
  identifier or fails exactly when 256 are in use, and \<open>cap_destroy\<close> removes one and reports
  an identifier that names none (negative, out of range, already destroyed) without changing
  anything.
\<close>

theorem cap_pool_refines_map:
  assumes "cap_inv s"
  shows "(case cap_alloc c s of (i, s') \<Rightarrow> cap_inv s' \<and>
      (if card (dom (cap_view s)) = 256 then i = - 1 \<and> s' = s
       else i \<notin> dom (cap_view s) \<and> {0..<i} \<subseteq> dom (cap_view s) \<and> 0 \<le> i \<and> i < 256 \<and>
         cap_view s' = (cap_view s)(i \<mapsto> c\<lparr>refcount := 1\<rparr>))) \<and>
     (case cap_destroy d s of (r, s') \<Rightarrow> cap_inv s' \<and> cap_view s' = (cap_view s)(d := None) \<and>
        (if d \<in> dom (cap_view s) then r = 0 else r = - 1 \<and> s' = s))"
proof -
  have fin: "cap_used s \<subseteq> {..<CAP_POOL_SIZE}" by (auto simp: cap_used_def)
  have card: "card (dom (cap_view s)) = card (cap_used s)" unfolding dom_cap_view by (simp add: card_image)
  have sub: "{0..<int i} \<subseteq> int ` cap_used s" if "{..<i} \<subseteq> cap_used s" for i
    using that by (simp add: image_int_atLeastLessThan [of 0, symmetric, simplified] atLeast0LessThan image_mono)
  have A: "case cap_alloc c s of (i, s') \<Rightarrow> cap_inv s' \<and>
      (if card (dom (cap_view s)) = 256 then i = - 1 \<and> s' = s
       else i \<notin> dom (cap_view s) \<and> {0..<i} \<subseteq> dom (cap_view s) \<and> 0 \<le> i \<and> i < 256 \<and>
         cap_view s' = (cap_view s)(i \<mapsto> c\<lparr>refcount := 1\<rparr>))"
  proof (cases rule: cap_alloc_cases [OF assms, of c])
    case 1
    then show ?thesis using assms card by (simp add: CAP_POOL_SIZE_def)
  next
    case (2 i s')
    have "card (cap_used s) < 256"
      using psubset_card_mono [of "{..<CAP_POOL_SIZE}" "cap_used s"] fin 2(2,3) by (auto simp: CAP_POOL_SIZE_def)
    then show ?thesis using 2 card sub by (auto simp: dom_cap_view CAP_POOL_SIZE_def)
  qed
  have B: "case cap_destroy d s of (r, s') \<Rightarrow> cap_inv s' \<and> cap_view s' = (cap_view s)(d := None) \<and>
        (if d \<in> dom (cap_view s) then r = 0 else r = - 1 \<and> s' = s)"
  proof (cases "d \<in> dom (cap_view s)")
    case True
    then obtain i where i: "d = int i" "i \<in> cap_used s" by (auto simp: dom_cap_view)
    show ?thesis by (rule cap_destroy_hit [OF assms i(2)]) (use True i(1) in auto)
  next
    case False
    then show ?thesis using cap_destroy_miss [OF False] assms by (auto simp: domIff)
  qed
  show ?thesis using A B by blast
qed

definition cap_boot :: cap_state where
  "cap_boot = cap_init (vm_state.extend vm_boot
     \<lparr>cap_pool = replicate 256 \<lparr>ctype = 0, refcount = 0, object = Cap_irq 0\<rparr>, cap_pool_used = replicate 256 False\<rparr>)"

lemma cap_boot_spec: "cap_inv cap_boot" "cap_view cap_boot = Map.empty"
proof -
  show "cap_inv cap_boot"
    unfolding cap_boot_def by (rule cap_init_spec) (simp_all add: vm_state.defs CAP_POOL_SIZE_def)
  have "cap_used cap_boot = {}"
    unfolding cap_boot_def by (rule cap_init_spec) (simp_all add: vm_state.defs CAP_POOL_SIZE_def)
  then show "cap_view cap_boot = Map.empty" using dom_cap_view [of cap_boot] by simp
qed

lemma cap_boot_alloc:
  obtains s' where "cap_alloc c cap_boot = (0, s')"
proof (cases rule: cap_alloc_cases [OF cap_boot_spec(1), of c])
  case 1
  then have "dom (cap_view cap_boot) \<noteq> {}" unfolding dom_cap_view by (simp add: CAP_POOL_SIZE_def lessThan_empty_iff)
  then show ?thesis by (simp add: cap_boot_spec(2))
next
  case (2 i s')
  have "cap_used cap_boot = {}" using dom_cap_view [of cap_boot] cap_boot_spec(2) by simp
  then have "i = 0" using 2(4) by (simp add: lessThan_empty_iff)
  then show ?thesis using 2(1) that by simp
qed

theorem cap_pool_refines_map_witness:
  "cap_destroy 7 cap_boot = (- 1, cap_boot) \<and>
   (case cap_alloc \<lparr>ctype = CAP_IRQ, refcount = 0, object = Cap_irq 48\<rparr> cap_boot of (i, s') \<Rightarrow>
      i = 0 \<and> cap_view s' = [0 \<mapsto> \<lparr>ctype = CAP_IRQ, refcount = 1, object = Cap_irq 48\<rparr>])"
proof -
  have "i = 0" if "{0..<i} \<subseteq> {}" "0 \<le> i" for i :: int
    using that by (cases "0 < i") auto
  then show ?thesis
    using cap_pool_refines_map [OF cap_boot_spec(1), of "\<lparr>ctype = CAP_IRQ, refcount = 0, object = Cap_irq 48\<rparr>" 7]
    by (auto simp: cap_boot_spec(2) split: prod.splits)
qed

text \<open>
  A capability just created is found again with its type, its object and nothing else: for
  each of the five constructors, \<open>cap_lookup\<close> of the returned identifier gives the object with
  the arguments of the call, \<open>cap_check\<close> accepts exactly the type that was created, and every
  other identifier is looked up as before.
\<close>

theorem cap_create_lookup:
  assumes "cap_inv s"
    and "(mk, t, obj) \<in> {(cap_create_memory x y, CAP_MEMORY, Cap_mem x y), (cap_create_ipc e r, CAP_IPC, Cap_ipc e r),
       (cap_create_irq e, CAP_IRQ, Cap_irq e), (cap_create_io x y, CAP_IO, Cap_io x y), (cap_create_task e, CAP_TASK, Cap_task e)}"
    and "mk s = (i, s')" and "0 \<le> i"
  shows "cap_lookup i s' = Some \<lparr>ctype = t, refcount = 1, object = obj\<rparr> \<and> cap_lookup i s = None \<and>
     (cap_check i u s' = 0 \<longleftrightarrow> u = t) \<and> (\<forall>j. j \<noteq> i \<longrightarrow> cap_lookup j s' = cap_lookup j s)"
proof -
  have mk: "cap_alloc \<lparr>ctype = t, refcount = 0, object = obj\<rparr> s = (i, s')"
    using assms(2,3) by (auto simp: cap_create_memory_def cap_create_ipc_def cap_create_irq_def cap_create_io_def
        cap_create_task_def)
  show ?thesis
  proof (cases rule: cap_alloc_cases [OF assms(1), of "\<lparr>ctype = t, refcount = 0, object = obj\<rparr>"])
    case 1
    then show ?thesis using mk assms(4) by simp
  next
    case (2 k s1)
    then have v: "cap_view s' = (cap_view s)(i \<mapsto> \<lparr>ctype = t, refcount = 1, object = obj\<rparr>)"
      and n: "i \<notin> dom (cap_view s)" using mk by (auto simp: dom_cap_view)
    have look: "cap_lookup j s' = (if j = i then Some \<lparr>ctype = t, refcount = 1, object = obj\<rparr> else cap_lookup j s)" for j
      using fun_cong [OF v, of j] by (simp add: cap_view_def)
    then show ?thesis using n by (auto simp: cap_check_def cap_view_def)
  qed
qed

theorem cap_create_lookup_witness:
  "\<exists>s'. cap_create_ipc 3 1 cap_boot = (0, s') \<and> cap_check 0 CAP_IPC s' = 0 \<and> cap_check 0 CAP_TASK s' \<noteq> 0 \<and>
     cap_lookup 0 s' = Some \<lparr>ctype = CAP_IPC, refcount = 1, object = Cap_ipc 3 1\<rparr>"
proof -
  obtain s' where s': "cap_create_ipc 3 1 cap_boot = (0, s')"
    unfolding cap_create_ipc_def by (rule cap_boot_alloc)
  have mk: "(cap_create_ipc 3 1, CAP_IPC, Cap_ipc 3 1) \<in> {(cap_create_memory 0 0, CAP_MEMORY, Cap_mem 0 0),
      (cap_create_ipc 3 1, CAP_IPC, Cap_ipc 3 1), (cap_create_irq 3, CAP_IRQ, Cap_irq 3),
      (cap_create_io 0 0, CAP_IO, Cap_io 0 0), (cap_create_task 3, CAP_TASK, Cap_task 3)}" by simp
  note create = cap_create_lookup [OF cap_boot_spec(1) mk s']
  show ?thesis using s' create [of CAP_IPC] create [of CAP_TASK] by simp
qed

end
