(* ===== verification/Task.thy ===== *)
theory Task
  imports Cap
begin

text \<open>
  Tasks (\<^verbatim>\<open>kernel/task.c\<close>, \<^verbatim>\<open>kernel/task.h\<close>) and the per-CPU structures (\<^verbatim>\<open>kernel/percpu.h\<close>): the
  table of 32 tasks, creation with an address space and a stack, destruction, the
  capability table of a task. Functions that use \<^verbatim>\<open>this_cpu()\<close> take the number of the CPU they
  run on. The address of a function of the kernel (the entry point of a task, the
  trampoline of \<^verbatim>\<open>kernel/vectors.S\<close>) is a word chosen by the linker.
\<close>

section \<open>Data\<close>

definition MAX_TASKS :: nat where "MAX_TASKS = 32"
definition MAX_CPUS :: nat where "MAX_CPUS = 4"
definition MAX_CAPS_PER_TASK :: nat where "MAX_CAPS_PER_TASK = 16"
abbreviation TASK_STACK_SIZE :: u64 where "TASK_STACK_SIZE \<equiv> 16384"

datatype task_status = TASK_DEAD | TASK_READY | TASK_RUNNING | TASK_BLOCKED

record task_context =
  x19 :: u64
  x20 :: u64
  x21 :: u64
  x22 :: u64
  x23 :: u64
  x24 :: u64
  x25 :: u64
  x26 :: u64
  x27 :: u64
  x28 :: u64
  x29 :: u64
  x30 :: u64
  sp :: u64

record task =
  tid :: int
  tstate :: task_status
  tname :: "char list"
  ctx :: task_context
  stack_base :: u64
  tas :: address_space
  cap_table :: "int list"
  num_caps :: int
  wakeup_reason :: int

record percpu_data =
  cpu_id :: int
  current_task_id :: int
  idle_ctx :: task_context
  dead_ctx :: task_context
  reschedule_needed :: int

record task_state = cap_state +
  tasks :: "task list"
  num_tasks :: int
  percpu :: "percpu_data list"

section \<open>Operations\<close>

definition upd_task :: "nat \<Rightarrow> (task \<Rightarrow> task) \<Rightarrow> 'a task_state_scheme \<Rightarrow> 'a task_state_scheme" where
  "upd_task idx f s = s\<lparr>tasks := (tasks s)[idx := f (tasks s ! idx)]\<rparr>"

definition upd_cpu :: "nat \<Rightarrow> (percpu_data \<Rightarrow> percpu_data) \<Rightarrow> 'a task_state_scheme \<Rightarrow> 'a task_state_scheme" where
  "upd_cpu c f s = s\<lparr>percpu := (percpu s)[c := f (percpu s ! c)]\<rparr>"

text \<open>
  \<^verbatim>\<open>task_exit_handler\<close> up to its first call of \<^verbatim>\<open>schedule\<close>, after which the task is never
  chosen again.
\<close>

definition task_exit_handler :: "nat \<Rightarrow> 'a task_state_scheme \<Rightarrow> 'a task_state_scheme" where
  "task_exit_handler c s =
     (let idx = nat (current_task_id (percpu s ! c));
          s1 = upd_task idx (\<lambda>t. t\<lparr>tstate := TASK_DEAD\<rparr>) s
      in s1\<lparr>num_tasks := num_tasks s1 - 1\<rparr>)"

definition task_init :: "'a task_state_scheme \<Rightarrow> 'a task_state_scheme" where
  "task_init s =
     (let s1 = for_loop 0 MAX_TASKS (\<lambda>i. upd_task i (\<lambda>t.
                 t\<lparr>tid := int i, tstate := TASK_DEAD, num_caps := 0, stack_base := 0\<rparr>)) s;
          s2 = s1\<lparr>num_tasks := 0\<rparr>
      in for_loop 0 MAX_CPUS (\<lambda>c. upd_cpu c (\<lambda>p.
                 p\<lparr>cpu_id := int c, current_task_id := - 1, reschedule_needed := 0\<rparr>)) s2)"

text \<open>The loop that copies the name: a character array of 32 and a zero-terminated source.\<close>

function copy_name :: "nat \<Rightarrow> char list \<Rightarrow> char list \<Rightarrow> char list" where
  "copy_name j name buf =
     (if j < 31 \<and> j < length name then copy_name (Suc j) name (buf[j := name ! j])
      else buf[j := CHR 0x00])"
  by pat_completeness auto
termination
  by (relation "measure (\<lambda>(j, name, buf). 31 - j)") auto

declare copy_name.simps [simp del]

definition initial_context :: "u64 \<Rightarrow> u64 \<Rightarrow> u64 \<Rightarrow> task_context" where
  "initial_context trampoline start stack =
     \<lparr>x19 = start, x20 = 0, x21 = 0, x22 = 0, x23 = 0, x24 = 0, x25 = 0, x26 = 0, x27 = 0, x28 = 0,
      x29 = 0, x30 = trampoline, sp = (stack + TASK_STACK_SIZE) AND NOT 0xF\<rparr>"

definition task_create ::
  "pt_layout \<Rightarrow> u64 \<Rightarrow> char list \<Rightarrow> u64 \<Rightarrow> 'a task_state_scheme \<Rightarrow> int \<times> 'a task_state_scheme" where
  "task_create L trampoline name start s =
     (case first_idx (\<lambda>i. tstate (tasks s ! i) = TASK_DEAD) 0 MAX_TASKS of
        None \<Rightarrow> (- 1, s)
      | Some idx \<Rightarrow>
          (let s1 = upd_task idx (\<lambda>t. t\<lparr>tname := copy_name 0 name (tname t)\<rparr>) s
           in case vm_create L (tas (tasks s1 ! idx)) s1 of (r, a, s2) \<Rightarrow>
             (let s3 = upd_task idx (\<lambda>t. t\<lparr>tas := a\<rparr>) s2
              in if r < 0 then (- 1, upd_task idx (\<lambda>t. t\<lparr>tstate := TASK_DEAD\<rparr>) s3)
                 else case pages_alloc (TASK_STACK_SIZE div PAGE_SIZE) s3 of (stack, s4) \<Rightarrow>
                   if stack = 0
                   then (case vm_destroy (tas (tasks s4 ! idx)) s4 of (a', s5) \<Rightarrow>
                           (- 1, upd_task idx (\<lambda>t. t\<lparr>tas := a', tstate := TASK_DEAD\<rparr>) s5))
                   else
                     (let s5 = upd_task idx (\<lambda>t. t\<lparr>stack_base := stack,
                                 ctx := initial_context trampoline start stack,
                                 cap_table := for_loop 0 MAX_CAPS_PER_TASK (\<lambda>c ct. ct[c := - 1]) (cap_table t),
                                 num_caps := 0, tstate := TASK_READY\<rparr>) s4
                      in (int idx, s5\<lparr>num_tasks := num_tasks s5 + 1\<rparr>)))))"

definition task_destroy :: "int \<Rightarrow> 'a task_state_scheme \<Rightarrow> 'a task_state_scheme" where
  "task_destroy task_id s =
     (if task_id < 0 \<or> task_id \<ge> int MAX_TASKS then s
      else let idx = nat task_id; t = tasks s ! idx in
        if tstate t = TASK_DEAD then s
        else
          (let s1 = pages_free (stack_base t) (TASK_STACK_SIZE div PAGE_SIZE) s
           in case vm_destroy (tas t) s1 of (a, s2) \<Rightarrow>
             (let s3 = upd_task idx (\<lambda>t. t\<lparr>tas := a, tstate := TASK_DEAD\<rparr>) s2
              in s3\<lparr>num_tasks := num_tasks s3 - 1\<rparr>)))"

definition task_get :: "int \<Rightarrow> 'a task_state_scheme \<Rightarrow> task option" where
  "task_get task_id s =
     (if task_id < 0 \<or> task_id \<ge> int MAX_TASKS then None
      else if tstate (tasks s ! nat task_id) = TASK_DEAD then None
      else Some (tasks s ! nat task_id))"

definition task_current :: "nat \<Rightarrow> 'a task_state_scheme \<Rightarrow> task option" where
  "task_current c s =
     (let idx = current_task_id (percpu s ! c)
      in if idx < 0 then None else Some (tasks s ! nat idx))"

definition task_current_id :: "nat \<Rightarrow> 'a task_state_scheme \<Rightarrow> int" where
  "task_current_id c s = current_task_id (percpu s ! c)"

definition task_set_current :: "nat \<Rightarrow> int \<Rightarrow> 'a task_state_scheme \<Rightarrow> 'a task_state_scheme" where
  "task_set_current c idx s = upd_cpu c (\<lambda>p. p\<lparr>current_task_id := idx\<rparr>) s"

definition task_count :: "'a task_state_scheme \<Rightarrow> int" where
  "task_count s = num_tasks s"

definition task_add_cap :: "int \<Rightarrow> int \<Rightarrow> 'a task_state_scheme \<Rightarrow> int \<times> 'a task_state_scheme" where
  "task_add_cap task_id cap_id s =
     (case task_get task_id s of
        None \<Rightarrow> (- 1, s)
      | Some t \<Rightarrow>
          if num_caps t \<ge> int MAX_CAPS_PER_TASK then (- 1, s)
          else (0, upd_task (nat task_id) (\<lambda>t. t\<lparr>cap_table := (cap_table t)[nat (num_caps t) := cap_id],
                     num_caps := num_caps t + 1\<rparr>) s))"

section \<open>Frames\<close>

lemma upd_task_fields [simp]:
  "tasks (upd_task i f s) = (tasks s)[i := f (tasks s ! i)]"
  "num_tasks (upd_task i f s) = num_tasks s" "percpu (upd_task i f s) = percpu s"
  "cap_state.truncate (upd_task i f s) = cap_state.truncate s"
  "mem (upd_task i f s) = mem s" "page_bitmap (upd_task i f s) = page_bitmap s"
  "used_pages (upd_task i f s) = used_pages s" "task_state.more (upd_task i f s) = task_state.more s"
  by (simp_all add: upd_task_def cap_state.defs)

lemma task_table_frame [simp]:
  "used_set (s\<lparr>tasks := x\<rparr>) = used_set s" "used_set (s\<lparr>num_tasks := n\<rparr>) = used_set s"
  "mm_inv (s\<lparr>tasks := x\<rparr>) = mm_inv s" "mm_inv (s\<lparr>num_tasks := n\<rparr>) = mm_inv s"
  "asid_used (s\<lparr>tasks := x\<rparr>) = asid_used s" "asid_used (s\<lparr>num_tasks := n\<rparr>) = asid_used s"
  "asid_inv (s\<lparr>tasks := x\<rparr>) = asid_inv s" "asid_inv (s\<lparr>num_tasks := n\<rparr>) = asid_inv s"
  by (simp_all add: used_set_def bitmap_test_def mm_inv_def asid_used_def asid_free_bit_def asid_inv_def)

lemma upd_task_inv [simp]:
  "used_set (upd_task i f s) = used_set s" "mm_inv (upd_task i f s) = mm_inv s"
  "asid_used (upd_task i f s) = asid_used s" "asid_inv (upd_task i f s) = asid_inv s"
  by (simp_all add: upd_task_def)

text \<open>A tree of tables survives whatever leaves its pages in use and their content alone.\<close>

lemma pt_inv_cong:
  assumes inv: "pt_inv ow root s" and used: "dom ow \<subseteq> used_set s'"
    and same: "\<And>p l i. ow p = Some l \<Longrightarrow> i < 512 \<Longrightarrow> entry s' p i = entry s p i"
  shows "pt_inv ow root s'"
  unfolding pt_inv_def
proof (intro conjI allI impI)
  show "dom ow \<subseteq> used_set s'" by (rule used)
  show "ow root = Some (0, 0)" by (rule pt_invD(1) [OF inv])
  show "p = q" if "ow p = Some lx \<and> ow q = Some lx" for p q lx using that pt_invD(4) [OF inv] by blast
next
  fix p l x i
  assume a: "ow p = Some (l, x) \<and> l < 3 \<and> i < 512 \<and> bit (entry s' p i) 0 \<and> (l = 0 \<or> bit (entry s' p i) 1)"
  then have "entry s' p i = entry s p i" using same by blast
  with a show "\<exists>q. entry s' p i = table_desc (page_addr q) \<and> ow q = Some (Suc l, x * 512 + i)"
    using pt_invD(5) [OF inv, of p l x i] by simp
next
  fix q l y assume q: "ow q = Some (Suc l, y)"
  then obtain p where p: "l < 3" "ow p = Some (l, y div 512)" "entry s p (y mod 512) = table_desc (page_addr q)"
    using pt_invD(6) [OF inv q] by blast
  show "l < 3" by (rule p(1))
  have "entry s' p (y mod 512) = entry s p (y mod 512)" using same p(2) by simp
  then show "\<exists>p. ow p = Some (l, y div 512) \<and> entry s' p (y mod 512) = table_desc (page_addr q)"
    using p(2,3) by auto
qed

lemma pages_alloc_result:
  assumes inv: "mm_inv s" and al: "pages_alloc n s = (a, s')" and "a \<noteq> 0"
  obtains r where "a = page_addr r" "r + unat n \<le> MAX_PAGES" "{r..<r + unat n} \<inter> used_set s = {}"
    "used_set s' = used_set s \<union> {r..<r + unat n}" "mm_inv s'" "mm_state.more s' = mm_state.more s"
    "\<And>p i. p < MAX_PAGES \<Longrightarrow> i < 512 \<Longrightarrow> entry s' p i = (if p \<in> {r..<r + unat n} then 0 else entry s p i)"
proof (cases n s rule: pages_alloc_cases)
  case (ok r)
  have s': "s' = pages_alloc_run r n s" "a = page_addr r" using al ok(5) by auto
  have r: "r + unat n \<le> MAX_PAGES" "{r..<r + unat n} \<inter> used_set s = {}"
    and nu: "\<forall>k. r \<le> k \<and> k < r + unat n \<longrightarrow> k \<notin> used_set s" using ok(3) by (auto simp: free_run_def)
  have u: "used_set s' = used_set s \<union> {r..<r + unat n}" "mm_inv s'"
    using claim_run [OF inv r(1) nu] by (auto simp: s' pages_alloc_run_def)
  have m: "mm_state.more s' = mm_state.more s"
    unfolding s' pages_alloc_run_def by (simp add: for_loop_frame [of mm_state.more] frame_simps)
  have "entry s' p i = (if p \<in> {r..<r + unat n} then 0 else entry s p i)" if "p < MAX_PAGES" "i < 512" for p i
    using zero_run_apply [of r "unat n" "mem s" "cell (page_addr p) i"] ok(2) r that
    by (auto simp: s' pages_alloc_run_def unat_run_words cell_in_page)
  then show ?thesis using that s'(2) r u m by blast
qed (use assms in auto)

lemma pages_alloc_failed: "pages_alloc n s = (0, s') \<Longrightarrow> s' = s"
proof (cases n s rule: pages_alloc_cases)
  case (ok r)
  have "0 < unat n" using ok(1) by (simp add: unat_gt_0)
  then have "r < MAX_PAGES" using ok(3) by (simp add: free_run_def)
  then show "pages_alloc n s = (0, s') \<Longrightarrow> s' = s" using ok by auto
qed auto

lemma pages_free_gives_back:
  assumes "mm_inv s" and "r + unat n \<le> MAX_PAGES"
  shows "gives_back {r..<r + unat n} s (pages_free (page_addr r) n s)"
proof -
  have "mm_state.more (pages_free_step a i t) = mm_state.more t" for a i and t :: "'a mm_state_scheme"
    by (simp add: pages_free_step_def Let_def frame_simps)
  then have "mm_state.more (pages_free (page_addr r) n s) = mm_state.more s"
    unfolding pages_free_def by (intro for_loop_frame)
  then show ?thesis using pages_free_run [OF assms] by (simp add: gives_back_def pages_free_def)
qed

text \<open>Operations of the lower layers leave the fields above alone.\<close>

definition same_above :: "'a task_state_scheme \<Rightarrow> 'a task_state_scheme \<Rightarrow> bool" where
  "same_above s s' \<longleftrightarrow> vm_state.more s' = vm_state.more s"

lemma same_aboveD:
  assumes "same_above s s'"
  shows "tasks s' = tasks s" "num_tasks s' = num_tasks s" "percpu s' = percpu s"
    "cap_pool s' = cap_pool s" "cap_pool_used s' = cap_pool_used s" "task_state.more s' = task_state.more s"
  using assms by (cases s, cases s', simp add: same_above_def)+

lemma same_above_trans: "same_above s t \<Longrightarrow> same_above t u \<Longrightarrow> same_above s u"
  by (simp add: same_above_def)

lemma same_above_mm: "mm_state.more s' = mm_state.more s \<Longrightarrow> same_above s s'"
  by (cases s, cases s') (simp add: same_above_def)

lemma same_above_vm_create: "same_above s (snd (snd (vm_create L a s)))"
proof -
  obtain p s1 where al: "page_alloc s = (p, s1)" by fastforce
  have "mm_state.more s1 = mm_state.more s"
    by (cases s rule: page_alloc_cases) (use al in \<open>auto simp: frame_simps\<close>)
  then have "same_above s s1" by (rule same_above_mm)
  moreover have "vm_state.more (snd (asid_alloc t)) = vm_state.more t" for t :: "'a task_state_scheme"
    by (simp add: asid_alloc_def split: option.splits)
  moreover have "snd (snd (vm_create L a s)) =
     (if p = 0 then s1 else snd (asid_alloc (s1\<lparr>mem := (mem s1)(cell p 0 := mem s1 (cell (pgd_table L) 0))\<rparr>)))"
    using al by (simp add: vm_create_def Let_def split: prod.splits)
  ultimately show ?thesis by (simp add: same_above_def)
qed

section \<open>Creating a task\<close>

abbreviation live :: "'a task_state_scheme \<Rightarrow> nat \<Rightarrow> bool" where
  "live s i \<equiv> i < MAX_TASKS \<and> tstate (tasks s ! i) \<noteq> TASK_DEAD"

definition keeps_pages :: "'a mm_state_scheme \<Rightarrow> 'a mm_state_scheme \<Rightarrow> bool" where
  "keeps_pages s s' \<longleftrightarrow> (\<forall>p\<in>used_set s. \<forall>i<512. entry s' p i = entry s p i)"

definition ready_kernel :: "pt_layout \<Rightarrow> (nat \<rightharpoonup> nat \<times> nat) \<Rightarrow> nat \<Rightarrow> 'a task_state_scheme \<Rightarrow> bool" where
  "ready_kernel L kow k s \<longleftrightarrow> kernel_tree L kow k s \<and> mm_inv s \<and> asid_inv s \<and> length (tasks s) = MAX_TASKS"

text \<open>The resources a task is given: its tables with their root, and the first page of its stack.\<close>

datatype task_res = Res (res_tables: "nat \<rightharpoonup> nat \<times> nat") (res_root: nat) (res_stack: nat)

definition res_pages :: "task_res \<Rightarrow> nat set" where
  "res_pages R = own_tables (res_tables R) (res_root R) \<union> {res_stack R..<res_stack R + 4}"

lemma stack_pages_4: "unat (TASK_STACK_SIZE div PAGE_SIZE :: u64) = 4"
  by simp

text \<open>What a call of \<open>task_create\<close> that fails for lack of memory leaves behind.\<close>

definition create_failed :: "nat \<Rightarrow> 'a task_state_scheme \<Rightarrow> 'a task_state_scheme \<Rightarrow> bool" where
  "create_failed i s s' \<longleftrightarrow> i < MAX_TASKS \<and> \<not> live s i \<and>
     tstate (tasks s' ! i) = TASK_DEAD \<and> tasks s' = (tasks s)[i := tasks s' ! i] \<and> num_tasks s' = num_tasks s \<and>
     used_set s' = used_set s \<and> asid_used s' = asid_used s \<and> keeps_pages s s' \<and> mm_inv s' \<and> asid_inv s' \<and>
     percpu s' = percpu s \<and> task_state.more s' = task_state.more s"

text \<open>The new address space, as far as a task relies on it.\<close>

definition new_space ::
  "pt_layout \<Rightarrow> (nat \<rightharpoonup> nat \<times> nat) \<Rightarrow> nat \<Rightarrow> nat \<Rightarrow> u16 \<Rightarrow> 'a vm_state_scheme \<Rightarrow> 'a vm_state_scheme \<Rightarrow> bool" where
  "new_space L kow k root n s s' \<longleftrightarrow> root < MAX_PAGES \<and> root \<notin> used_set s \<and>
     pt_inv (task_tree kow k root) root s' \<and> own_tables (task_tree kow k root) root = {root} \<and>
     (n = 0 \<and> asid_used s = {1..<ASID_MAX} \<and> asid_used s' = asid_used s \<or>
      unat n \<in> {1..<ASID_MAX} - asid_used s \<and> asid_used s' = insert (unat n) (asid_used s)) \<and>
     (\<forall>va. unat va < 2 ^ 48 \<longrightarrow> translate (mem s') (page_addr root) va =
        (if unat va < 2 ^ 39 then translate (mem s) (pgd_table L) va else None)) \<and>
     keeps_pages s s' \<and> mm_inv s' \<and> asid_inv s'"

definition created_task :: "u64 \<Rightarrow> char list \<Rightarrow> u64 \<Rightarrow> nat \<Rightarrow> u16 \<Rightarrow> nat \<Rightarrow> task \<Rightarrow> task" where
  "created_task tr name st root n b t = t\<lparr>tname := copy_name 0 name (tname t),
     tas := \<lparr>pgd = page_addr root, asid = n\<rparr>, stack_base := page_addr b, ctx := initial_context tr st (page_addr b),
     cap_table := for_loop 0 MAX_CAPS_PER_TASK (\<lambda>c ct. ct[c := - 1]) (cap_table t),
     num_caps := 0, tstate := TASK_READY\<rparr>"

definition create_done ::
  "pt_layout \<Rightarrow> (nat \<rightharpoonup> nat \<times> nat) \<Rightarrow> nat \<Rightarrow> u64 \<Rightarrow> char list \<Rightarrow> u64 \<Rightarrow> nat \<Rightarrow> nat \<Rightarrow> u16 \<Rightarrow> nat \<Rightarrow>
   'a task_state_scheme \<Rightarrow> 'a task_state_scheme \<Rightarrow> bool" where
  "create_done L kow k tr name st i root n b s s' \<longleftrightarrow> i < MAX_TASKS \<and> \<not> live s i \<and> (\<forall>j<i. live s j) \<and>
     tasks s' = (tasks s)[i := created_task tr name st root n b (tasks s ! i)] \<and> num_tasks s' = num_tasks s + 1 \<and>
     new_space L kow k root n s s' \<and> b + 4 \<le> MAX_PAGES \<and> {b..<b + 4} \<inter> insert root (used_set s) = {} \<and>
     used_set s' = insert root (used_set s) \<union> {b..<b + 4} \<and>
     percpu s' = percpu s \<and> task_state.more s' = task_state.more s"

lemma keeps_pages_trans:
  "keeps_pages s t \<Longrightarrow> keeps_pages t u \<Longrightarrow> used_set s \<subseteq> used_set t \<Longrightarrow> keeps_pages s u"
  unfolding keeps_pages_def by (metis subsetD)

lemma keeps_pages_mem: "mem s' = mem s \<Longrightarrow> keeps_pages s s'"
  by (simp add: keeps_pages_def)

lemma pt_inv_keeps:
  assumes "pt_inv ow root s" and "keeps_pages s s'" and "dom ow \<subseteq> used_set s'"
  shows "pt_inv ow root s'"
  using assms(2) pt_invD(2) [OF assms(1)] by (intro pt_inv_cong [OF assms(1,3)]) (simp add: keeps_pages_def)

lemma translate_keeps:
  assumes "pt_inv ow root s" and "keeps_pages s s'"
  shows "translate (mem s') (page_addr root) va = translate (mem s) (page_addr root) va"
proof -
  have "same_or_fresh ow (mem s) (mem s')"
    using assms(2) pt_invD(2) [OF assms(1)] unfolding same_or_fresh_def keeps_pages_def by blast
  from walk_same_or_fresh [OF assms(1) this pt_invD(1) [OF assms(1)]] show ?thesis by (simp add: translate_def)
qed

lemma vm_create_new_space:
  assumes kt: "kernel_tree L kow k s" and inv: "mm_inv s" "asid_inv s"
  obtains (fail) "vm_create L a s = (- 1, a\<lparr>pgd := 0\<rparr>, s)" "used_set s = {..<MAX_PAGES}"
  | (ok) root n s' where "vm_create L a s = (0, \<lparr>pgd = page_addr root, asid = n\<rparr>, s')"
      "new_space L kow k root n s s'" "used_set s' = insert root (used_set s)"
proof -
  have L: "pgd_table L = page_addr k" and k: "k \<in> used_set s"
    using kt pt_invD(1,2) unfolding kernel_tree_def by blast+
  show ?thesis
  proof (cases rule: vm_create_cases [OF inv(1) L k inv(2), of a])
    case 1
    then show ?thesis by (rule fail)
  next
    case (2 root n s')
    note tree = task_tree_inv [OF kt 2(2,3,4,6)]
    have zero: "entry s' root i = 0" if "0 < i" "i < 512" for i using that 2(2,6) by (simp add: pgd_memory_entry)
    have own: "own_tables (task_tree kow k root) root = {root}"
      using zero by (intro own_tables_fresh [OF tree]) simp
    have "keeps_pages s s'"
      using 2(2,3,6) by (auto simp: keeps_pages_def pgd_memory_entry used_set_def)
    then have "new_space L kow k root n s s'"
      using 2 tree own task_tree_translate [OF kt 2(2,3)] L by (simp add: new_space_def)
    with 2(1,4) show ?thesis by (intro ok [of root n s']) auto
  qed
qed

lemma new_space_extend:
  assumes ns: "new_space L kow k root n s t" and "used_set t \<subseteq> used_set s'" "used_set s \<subseteq> used_set t"
    "keeps_pages t s'" "mm_inv s'" "asid_inv s'" "asid_used s' = asid_used t"
  shows "new_space L kow k root n s s'"
proof -
  have tree: "pt_inv (task_tree kow k root) root t" using ns by (simp add: new_space_def)
  then have "dom (task_tree kow k root) \<subseteq> used_set s'" using assms(2) pt_invD(2) [OF tree] by blast
  from pt_inv_keeps [OF tree assms(4) this]
  show ?thesis
    using assms translate_keeps [OF tree assms(4)] keeps_pages_trans [of s t s'] by (simp add: new_space_def)
qed

text \<open>The case without memory for a stack: the new address space is taken down again.\<close>

lemma create_undone:
  fixes s s4 :: "'a task_state_scheme"
  assumes ns: "new_space L kow k root n s s4" and u: "used_set s4 = insert root (used_set s)"
    and i: "i < MAX_TASKS" "\<not> live s i" "i < length (tasks s)" and t: "tasks s4 = (tasks s)[i := t]" "num_tasks s4 = num_tasks s"
      "percpu s4 = percpu s" "task_state.more s4 = task_state.more s"
  shows "create_failed i s
    (case vm_destroy \<lparr>pgd = page_addr root, asid = n\<rparr> s4 of (a', s5) \<Rightarrow> upd_task i (\<lambda>t. t\<lparr>tas := a', tstate := TASK_DEAD\<rparr>) s5)"
proof -
  let ?a = "\<lparr>pgd = page_addr root, asid = n\<rparr>"
  have inv: "pt_inv (task_tree kow k root) root s4" "mm_inv s4" "asid_inv s4" "unat (asid ?a) < ASID_MAX"
    "own_tables (task_tree kow k root) root = {root}" "root \<notin> used_set s" "keeps_pages s s4"
    "asid_used s4 - {unat n} = asid_used s"
    using ns asids.used_slots [of s4] by (auto simp: new_space_def ASID_MAX_def)
  obtain s5 where s5: "vm_destroy ?a s4 = (?a\<lparr>pgd := 0, asid := 0\<rparr>, s5)" "mm_inv s5" "mem s5 = mem s4"
    "used_set s5 = used_set s4 - own_tables (task_tree kow k root) root" "asid_used s5 = asid_used s4 - {unat (asid ?a)}"
    "asid_inv s5" "vm_state.more s5 = vm_state.more s4"
    by (rule vm_destroy_spec [OF inv(1-3) _ inv(4)]) simp_all
  note above = same_aboveD [of s4 s5, unfolded same_above_def, OF s5(7)]
  have "keeps_pages s s5" using inv(7) s5(3) by (simp add: keeps_pages_def)
  then show ?thesis
    using s5 i t above inv(5,6,8) u
    by (auto simp: create_failed_def keeps_pages_def)
qed

text \<open>Why there may be no memory: no page for the top-level table, or then no run for the stack.\<close>

definition no_room :: "'a mm_state_scheme \<Rightarrow> bool" where
  "no_room s \<longleftrightarrow> used_set s = {..<MAX_PAGES} \<or>
     (\<exists>root. root \<notin> used_set s \<and> (\<forall>r. \<not> free_run (\<lambda>i. i \<notin> insert root (used_set s)) 4 r))"

lemma list_upd_nth: "i < length xs \<Longrightarrow> xs[i := x] ! i = x"
  by simp

text \<open>The case with a stack.\<close>

lemma create_finished:
  fixes s s3 :: "'a task_state_scheme" and tr start :: u64
  assumes ns: "new_space L kow k root n s s3" and u: "used_set s3 = insert root (used_set s)"
    and i: "i < MAX_TASKS" "\<not> live s i" "\<forall>j<i. live s j" "i < length (tasks s)"
    and t: "tasks s3 = (tasks s)[i := (tasks s ! i)\<lparr>tname := copy_name 0 name (tname (tasks s ! i)),
              tas := \<lparr>pgd = page_addr root, asid = n\<rparr>\<rparr>]"
      "num_tasks s3 = num_tasks s" "percpu s3 = percpu s" "task_state.more s3 = task_state.more s"
    and st: "pages_alloc (TASK_STACK_SIZE div PAGE_SIZE) s3 = (stack, s4)" "stack \<noteq> 0"
  defines "s5 \<equiv> upd_task i (\<lambda>t. t\<lparr>stack_base := stack, ctx := initial_context tr start stack,
                 cap_table := for_loop 0 MAX_CAPS_PER_TASK (\<lambda>c ct. ct[c := - 1]) (cap_table t),
                 num_caps := 0, tstate := TASK_READY\<rparr>) s4"
  shows "\<exists>b. create_done L kow k tr name start i root n b s (s5\<lparr>num_tasks := num_tasks s5 + 1\<rparr>)"
proof -
  have mm: "mm_inv s3" "asid_inv s3" using ns by (simp_all add: new_space_def)
  obtain b where b: "stack = page_addr b" "b + 4 \<le> MAX_PAGES" "{b..<b + 4} \<inter> used_set s3 = {}"
    "used_set s4 = used_set s3 \<union> {b..<b + 4}" "mm_inv s4" "mm_state.more s4 = mm_state.more s3"
    and ent: "\<And>p i. p < MAX_PAGES \<Longrightarrow> i < 512 \<Longrightarrow> entry s4 p i = (if p \<in> {b..<b + 4} then 0 else entry s3 p i)"
    by (rule pages_alloc_result [OF mm(1) st]) (unfold stack_pages_4, blast)
  note above = same_aboveD [OF same_above_mm [OF b(6)]] and as = asid_same_more [OF b(6)]
  have "keeps_pages s3 s4" using ent b(3) unfolding keeps_pages_def used_set_def by auto
  let ?s = "s5\<lparr>num_tasks := num_tasks s5 + 1\<rparr>"
  have s': "mem ?s = mem s4" "used_set ?s = used_set s4" "mm_inv ?s" "asid_inv ?s" "asid_used ?s = asid_used s3"
    using as mm(2) b(5) by (simp_all add: s5_def)
  then have "keeps_pages s3 ?s" using \<open>keeps_pages s3 s4\<close> by (simp add: keeps_pages_def)
  then have "new_space L kow k root n s ?s"
    by (intro new_space_extend [OF ns]) (use s' b(4) u in auto)
  moreover have "tasks ?s = (tasks s)[i := created_task tr name start root n b (tasks s ! i)]"
    using above(1) t(1) i(4) b(1) by (simp add: s5_def created_task_def)
  moreover have "num_tasks ?s = num_tasks s + 1" "percpu ?s = percpu s" "task_state.more ?s = task_state.more s"
    using above t by (simp_all add: s5_def)
  ultimately show ?thesis using i(1-3) b(2-4) u s'(2) by (auto simp: create_done_def)
qed

lemma task_create_cases:
  fixes s :: "'a task_state_scheme"
  assumes rk: "ready_kernel L kow k s"
  obtains (no_slot) "\<forall>i<MAX_TASKS. live s i" "task_create L tr name st s = (- 1, s)"
  | (no_memory) i s' where "task_create L tr name st s = (- 1, s')" "create_failed i s s'" "no_room s"
  | (ok) i root n b s' where "task_create L tr name st s = (int i, s')"
      "create_done L kow k tr name st i root n b s s'"
proof (cases "first_idx (\<lambda>i. tstate (tasks s ! i) = TASK_DEAD) 0 MAX_TASKS")
  case None
  then have "task_create L tr name st s = (- 1, s)" by (simp add: task_create_def)
  moreover have "\<forall>i<MAX_TASKS. live s i" using None by (simp add: first_idx_None)
  ultimately show ?thesis by (intro no_slot)
next
  case (Some i)
  have i: "i < MAX_TASKS" "\<not> live s i" "\<forall>j<i. live s j" using Some by (auto simp: first_idx_Some)
  have inv: "kernel_tree L kow k s" "mm_inv s" "asid_inv s" and len: "i < length (tasks s)"
    using rk i(1) by (auto simp: ready_kernel_def)
  let ?t1 = "(tasks s ! i)\<lparr>tname := copy_name 0 name (tname (tasks s ! i))\<rparr>"
  define s1 where "s1 = upd_task i (\<lambda>t. t\<lparr>tname := copy_name 0 name (tname t)\<rparr>) s"
  have s1: "tasks s1 = (tasks s)[i := ?t1]" "num_tasks s1 = num_tasks s" "percpu s1 = percpu s"
    "task_state.more s1 = task_state.more s" "mm_inv s1" "asid_inv s1" "used_set s1 = used_set s"
    "asid_used s1 = asid_used s" "mem s1 = mem s"
    using inv by (simp_all add: s1_def)
  have kinv: "pt_inv kow k s" using inv(1) by (simp add: kernel_tree_def)
  have "dom kow \<subseteq> used_set s1" using pt_invD(2) [OF kinv] s1(7) by auto
  from pt_inv_keeps [OF kinv keeps_pages_mem [OF s1(9)] this] have kt1: "kernel_tree L kow k s1" using inv(1) s1(9) by (simp add: kernel_tree_def)
  note al = same_above_vm_create [of s1 L "tas (tasks s1 ! i)"]
  show ?thesis
  proof (cases rule: vm_create_new_space [OF kt1 s1(5,6), of "tas (tasks s1 ! i)"])
    case 1
    let ?s' = "upd_task i (\<lambda>t. t\<lparr>tstate := TASK_DEAD\<rparr>) (upd_task i (\<lambda>t. t\<lparr>tas := (tas (tasks s1 ! i))\<lparr>pgd := 0\<rparr>\<rparr>) s1)"
    have "task_create L tr name st s = (- 1, ?s')"
      using Some 1 by (simp add: task_create_def s1_def [symmetric] Let_def)
    moreover have "create_failed i s ?s'"
      using s1 i len keeps_pages_mem [of ?s' s] by (auto simp: create_failed_def list_upd_nth)
    moreover have "no_room s" using 1(2) s1(7) by (simp add: no_room_def)
    ultimately show ?thesis by (rule no_memory)
  next
    case (2 root n s2)
    let ?a = "\<lparr>pgd = page_addr root, asid = n\<rparr>"
    define s3 where "s3 = upd_task i (\<lambda>t. t\<lparr>tas := ?a\<rparr>) s2"
    have s2: "tasks s2 = tasks s1" "num_tasks s2 = num_tasks s1" "percpu s2 = percpu s1" "task_state.more s2 = task_state.more s1"
      using same_aboveD [OF al] 2(1) by simp_all
    have ns2: "new_space L kow k root n s s2"
      using 2(2) s1(7,8,9) by (simp add: new_space_def keeps_pages_def)
    have s3: "tasks s3 = (tasks s)[i := ?t1\<lparr>tas := ?a\<rparr>]" "num_tasks s3 = num_tasks s" "percpu s3 = percpu s"
      "task_state.more s3 = task_state.more s" "used_set s3 = insert root (used_set s)"
      using s2 s1 len 2(3) by (simp_all add: s3_def list_upd_nth)
    have ns3: "new_space L kow k root n s s3"
      by (rule new_space_extend [OF ns2])
        (use ns2 2(3) s1(7) in \<open>auto simp: s3_def new_space_def intro: keeps_pages_mem\<close>)
    obtain stack s4 where al4: "pages_alloc (TASK_STACK_SIZE div PAGE_SIZE) s3 = (stack, s4)" by fastforce
    have tc: "task_create L tr name st s =
       (if stack = 0 then (case vm_destroy (tas (tasks s4 ! i)) s4 of (a', s5) \<Rightarrow>
           (- 1, upd_task i (\<lambda>t. t\<lparr>tas := a', tstate := TASK_DEAD\<rparr>) s5))
        else (let s5 = upd_task i (\<lambda>t. t\<lparr>stack_base := stack, ctx := initial_context tr st stack,
                 cap_table := for_loop 0 MAX_CAPS_PER_TASK (\<lambda>c ct. ct[c := - 1]) (cap_table t),
                 num_caps := 0, tstate := TASK_READY\<rparr>) s4
              in (int i, s5\<lparr>num_tasks := num_tasks s5 + 1\<rparr>)))"
      using Some 2(1) al4 by (simp add: task_create_def s1_def [symmetric] s3_def [symmetric] Let_def)
    show ?thesis
    proof (cases "stack = 0")
      case True
      have "s4 = s3" using al4 True pages_alloc_failed by blast
      then have "tas (tasks s4 ! i) = ?a" using s3(1) len by simp
      moreover note create_undone [OF ns3 s3(5) i(1,2) len s3(1-4)]
      moreover have "no_room s"
      proof (cases "TASK_STACK_SIZE div PAGE_SIZE :: u64" s3 rule: pages_alloc_cases)
        case none
        then show ?thesis using s3(5) ns3 unfolding no_room_def new_space_def by auto
      next
        case (ok r)
        then show ?thesis using al4 True by (simp add: free_run_def)
      qed (simp add: MAX_PAGES_def)
      ultimately show ?thesis using tc True \<open>s4 = s3\<close> no_memory [of _ i] by (auto split: prod.splits)
    next
      case False
      from create_finished [OF ns3 s3(5) i len _ s3(2-4) al4 False, of name tr st] s3(1)
      obtain b where "create_done L kow k tr name st i root n b s (snd (task_create L tr name st s))"
        unfolding tc using False by (auto simp: Let_def)
      moreover have "fst (task_create L tr name st s) = int i" unfolding tc using False by (simp add: Let_def)
      ultimately show ?thesis using ok by (metis prod.collapse)
    qed
  qed
qed

section \<open>The system invariant: tasks are isolated\<close>

text \<open>
  A live task owns the tables below its top-level table (the kernel's apart) and the four
  pages of its stack; what two live tasks own is disjoint, and disjoint from the kernel's
  tables; their ASIDs differ, unless the pool ran out and they share ASID 0. The counter
  counts the live tasks.
\<close>

definition task_owns :: "(nat \<rightharpoonup> nat \<times> nat) \<Rightarrow> task_res \<Rightarrow> task \<Rightarrow> 'a task_state_scheme \<Rightarrow> bool" where
  "task_owns kow R t s \<longleftrightarrow> pgd (tas t) = page_addr (res_root R) \<and> pt_inv (res_tables R) (res_root R) s \<and>
     dom (res_tables R) \<subseteq> own_tables (res_tables R) (res_root R) \<union> dom kow \<and>
     unat (asid (tas t)) \<in> insert 0 (asid_used s) \<and>
     stack_base t = page_addr (res_stack R) \<and> res_stack R + 4 \<le> MAX_PAGES \<and>
     {res_stack R..<res_stack R + 4} \<subseteq> used_set s \<and>
     own_tables (res_tables R) (res_root R) \<inter> {res_stack R..<res_stack R + 4} = {} \<and>
     res_pages R \<inter> dom kow = {}"

definition tasks_apart :: "(nat \<Rightarrow> task_res) \<Rightarrow> 'a task_state_scheme \<Rightarrow> bool" where
  "tasks_apart R s \<longleftrightarrow> (\<forall>i j. live s i \<and> live s j \<and> i \<noteq> j \<longrightarrow> res_pages (R i) \<inter> res_pages (R j) = {} \<and>
     (asid (tas (tasks s ! i)) = asid (tas (tasks s ! j)) \<longrightarrow> asid (tas (tasks s ! i)) = 0))"

definition sys_inv ::
  "pt_layout \<Rightarrow> (nat \<rightharpoonup> nat \<times> nat) \<Rightarrow> nat \<Rightarrow> (nat \<Rightarrow> task_res) \<Rightarrow> 'a task_state_scheme \<Rightarrow> bool" where
  "sys_inv L kow k R s \<longleftrightarrow> ready_kernel L kow k s \<and> (\<forall>i. live s i \<longrightarrow> task_owns kow (R i) (tasks s ! i) s) \<and>
     tasks_apart R s \<and> num_tasks s = int (card {i. live s i})"

lemma sys_invD:
  assumes "sys_inv L kow k R s"
  shows "kernel_tree L kow k s" "mm_inv s" "asid_inv s" "length (tasks s) = MAX_TASKS" "ready_kernel L kow k s"
    and "live s i \<Longrightarrow> task_owns kow (R i) (tasks s ! i) s" and "tasks_apart R s"
    and "num_tasks s = int (card {i. live s i})"
  using assms unfolding sys_inv_def ready_kernel_def by blast+

lemma finite_live [simp]: "finite {i. live s i}"
  by (rule finite_subset [of _ "{..<MAX_TASKS}"]) auto

lemma own_tables_dom: "pt_inv ow root s \<Longrightarrow> own_tables ow root \<subseteq> dom ow"
  using pt_invD(1) [of ow root s] by (auto simp: own_tables_def subtree_def)

lemma res_pages_used:
  assumes "task_owns kow R t s"
  shows "res_pages R \<subseteq> used_set s"
proof -
  have inv: "pt_inv (res_tables R) (res_root R) s" using assms by (simp add: task_owns_def)
  have "dom (res_tables R) \<subseteq> used_set s" using pt_invD(2) [OF inv] by auto
  then have "own_tables (res_tables R) (res_root R) \<subseteq> used_set s" using own_tables_dom [OF inv] by blast
  then show ?thesis using assms by (simp add: task_owns_def res_pages_def)
qed

text \<open>What happens elsewhere does not touch a task's resources.\<close>

lemma task_owns_keeps:
  assumes own: "task_owns kow R t s" and "keeps_pages s s'" and sub: "res_pages R \<subseteq> used_set s'" "dom kow \<subseteq> used_set s'"
    and "unat (asid (tas t)) \<in> insert 0 (asid_used s')" and t: "tas t' = tas t" "stack_base t' = stack_base t"
  shows "task_owns kow R t' s'"
proof -
  have inv: "pt_inv (res_tables R) (res_root R) s"
    and d: "dom (res_tables R) \<subseteq> own_tables (res_tables R) (res_root R) \<union> dom kow"
    using own by (simp_all add: task_owns_def)
  have "own_tables (res_tables R) (res_root R) \<subseteq> used_set s'" using sub(1) by (simp add: res_pages_def)
  then have "dom (res_tables R) \<subseteq> used_set s'" using d sub(2) by blast
  from pt_inv_keeps [OF inv assms(2) this] show ?thesis
    using own assms(5) sub(1) unfolding task_owns_def t res_pages_def by simp
qed

lemma tasks_apartD:
  assumes "tasks_apart R s" and "live s i" and "live s j" and "i \<noteq> j"
  shows "res_pages (R i) \<inter> res_pages (R j) = {}"
    and "asid (tas (tasks s ! i)) = asid (tas (tasks s ! j)) \<Longrightarrow> asid (tas (tasks s ! i)) = 0"
  using assms unfolding tasks_apart_def by blast+

lemma tasks_apart_mono:
  assumes apart: "tasks_apart R s" and l: "\<And>j. live s' j \<Longrightarrow> live s j"
    and t: "\<And>j. live s' j \<Longrightarrow> tas (tasks s' ! j) = tas (tasks s ! j)"
  shows "tasks_apart R s'"
  unfolding tasks_apart_def
proof (intro allI impI)
  fix i j assume "live s' i \<and> live s' j \<and> i \<noteq> j"
  then show "res_pages (R i) \<inter> res_pages (R j) = {} \<and>
     (asid (tas (tasks s' ! i)) = asid (tas (tasks s' ! j)) \<longrightarrow> asid (tas (tasks s' ! i)) = 0)"
    using tasks_apartD [OF apart, of i j] l [of i] l [of j] t [of i] t [of j] by simp
qed

lemma kernel_tree_keeps:
  assumes kt: "kernel_tree L kow k s" and "keeps_pages s s'" and "dom kow \<subseteq> used_set s'"
  shows "kernel_tree L kow k s'"
proof -
  have inv: "pt_inv kow k s" and k: "k \<in> used_set s"
    using kt pt_invD(1,2) [of kow k s] by (auto simp: kernel_tree_def)
  show ?thesis
    using kt pt_inv_keeps [OF inv assms(2,3)] assms(2) k by (auto simp: kernel_tree_def keeps_pages_def)
qed

lemma kernel_dom_used: "kernel_tree L kow k s \<Longrightarrow> dom kow \<subseteq> used_set s"
  unfolding kernel_tree_def by (auto dest: pt_invD(2))

text \<open>
  A step that changes neither the tasks' resources nor which tasks are live keeps the
  invariant, whatever else it does.
\<close>

lemma sys_inv_step:
  assumes inv: "sys_inv L kow k R s" and len: "length (tasks s') = MAX_TASKS"
    and l: "\<And>j. live s' j \<longleftrightarrow> live s j"
    and t: "\<And>j. live s j \<Longrightarrow> tas (tasks s' ! j) = tas (tasks s ! j) \<and> stack_base (tasks s' ! j) = stack_base (tasks s ! j)"
    and n: "num_tasks s' = num_tasks s" and u: "used_set s \<subseteq> used_set s'" "asid_used s' = asid_used s"
    and "keeps_pages s s'" "mm_inv s'" "asid_inv s'"
  shows "sys_inv L kow k R s'"
proof -
  note I = sys_invD [OF inv]
  note kd = kernel_dom_used [OF I(1)]
  have "kernel_tree L kow k s'" using kd u by (intro kernel_tree_keeps [OF I(1) assms(8)]) blast
  moreover have "task_owns kow (R j) (tasks s' ! j) s'" if "live s' j" for j
  proof -
    have lj: "live s j" using that l by blast
    have "res_pages (R j) \<subseteq> used_set s'" "dom kow \<subseteq> used_set s'" using res_pages_used [OF I(6) [OF lj]] kd u(1) by blast+
    note pages = this
    have "unat (asid (tas (tasks s ! j))) \<in> insert 0 (asid_used s')" using I(6) [OF lj] u(2) by (simp add: task_owns_def)
    then show ?thesis
      using pages t [OF lj] by (intro task_owns_keeps [OF I(6) [OF lj] assms(8)]) simp_all
  qed
  moreover have "tasks_apart R s'" using t l by (intro tasks_apart_mono [OF I(7)]) blast+
  moreover have "num_tasks s' = int (card {j. live s' j})" using I(8) n l by simp
  ultimately show ?thesis unfolding sys_inv_def ready_kernel_def using assms(9,10) len by blast
qed

lemma sys_inv_create_failed:
  assumes inv: "sys_inv L kow k R s" and f: "create_failed i s s'"
  shows "sys_inv L kow k R s'"
proof (rule sys_inv_step [OF inv])
  have f': "\<not> live s i" "tstate (tasks s' ! i) = TASK_DEAD" "tasks s' = (tasks s)[i := tasks s' ! i]"
    using f by (simp_all add: create_failed_def)
  have same: "j \<noteq> i \<Longrightarrow> tasks s' ! j = tasks s ! j" for j using f'(3) by (metis nth_list_update_neq)
  then show "live s' j \<longleftrightarrow> live s j" for j using f' by (cases "j = i") auto
  show "tas (tasks s' ! j) = tas (tasks s ! j) \<and> stack_base (tasks s' ! j) = stack_base (tasks s ! j)" if "live s j" for j
    using same f'(1) that by (cases "j = i") auto
  show "length (tasks s') = MAX_TASKS" using sys_invD(4) [OF inv] f'(3) by (metis length_list_update)
qed (use f in \<open>simp_all add: create_failed_def\<close>)

lemma sys_inv_create_done:
  assumes inv: "sys_inv L kow k R s" and d: "create_done L kow k tr name st i root n b s s'"
  shows "sys_inv L kow k (R(i := Res (task_tree kow k root) root b)) s'" (is "sys_inv L kow k ?R s'")
proof -
  note I = sys_invD [OF inv]
  note kd = kernel_dom_used [OF I(1)]
  have d': "i < MAX_TASKS" "\<not> live s i" "num_tasks s' = num_tasks s + 1" "b + 4 \<le> MAX_PAGES"
    "tasks s' = (tasks s)[i := created_task tr name st root n b (tasks s ! i)]"
    "{b..<b + 4} \<inter> insert root (used_set s) = {}" "used_set s' = insert root (used_set s) \<union> {b..<b + 4}"
    and ns: "new_space L kow k root n s s'" using d by (simp_all add: create_done_def)
  have ns': "root \<notin> used_set s" "pt_inv (task_tree kow k root) root s'" "own_tables (task_tree kow k root) root = {root}"
    "keeps_pages s s'" "mm_inv s'" "asid_inv s'" "asid_used s \<subseteq> asid_used s'" "unat n \<in> insert 0 (asid_used s' - asid_used s)"
    using ns by (auto simp: new_space_def)
  have same: "tasks s' ! j = tasks s ! j" if "j \<noteq> i" for j using that d'(5) by simp
  have new: "tas (tasks s' ! i) = \<lparr>pgd = page_addr root, asid = n\<rparr>" "stack_base (tasks s' ! i) = page_addr b"
      "tstate (tasks s' ! i) = TASK_READY"
    using d'(1,5) I(4) by (simp_all add: created_task_def)
  have live: "live s' j \<longleftrightarrow> j = i \<or> live s j" for j using same new(3) d'(1) by (cases "j = i") auto
  have pages: "res_pages (?R i) \<inter> used_set s = {}" using d'(6) ns'(1,3) by (auto simp: res_pages_def)
  have "task_owns kow (?R j) (tasks s' ! j) s'" if "live s' j" for j
  proof (cases "j = i")
    case True
    have "dom (task_tree kow k root) \<subseteq> insert root (dom kow)" by (auto simp: task_tree_def split: if_splits)
    then show ?thesis
      using True new ns'(2,3,8) d'(4,6,7) pages kd by (auto simp: task_owns_def)
  next
    case False
    then have lj: "live s j" using that live by blast
    have "unat (asid (tas (tasks s ! j))) \<in> insert 0 (asid_used s')"
      using I(6) [OF lj] ns'(7) by (auto simp: task_owns_def)
    then have "task_owns kow (R j) (tasks s' ! j) s'"
      using res_pages_used [OF I(6) [OF lj]] kd d'(7) same [OF False]
      by (intro task_owns_keeps [OF I(6) [OF lj] ns'(4)]) auto
    then show ?thesis using False by simp
  qed
  moreover have "tasks_apart ?R s'"
  proof -
    have one: "res_pages (?R i) \<inter> res_pages (R j) = {}" "n = asid (tas (tasks s ! j)) \<Longrightarrow> n = 0" if "live s j" for j
      using pages res_pages_used [OF I(6) [OF that]] I(6) [OF that] ns'(8) by (auto simp: task_owns_def unat_eq_0)
    show ?thesis
      unfolding tasks_apart_def
    proof (intro allI impI)
      fix x y assume xy: "live s' x \<and> live s' y \<and> x \<noteq> y"
      then consider "x = i" "live s y" "y \<noteq> i" | "y = i" "live s x" "x \<noteq> i" | "live s x" "live s y" "x \<noteq> i" "y \<noteq> i" "x \<noteq> y"
        using live d'(2) by metis
      then show "res_pages (?R x) \<inter> res_pages (?R y) = {} \<and>
        (asid (tas (tasks s' ! x)) = asid (tas (tasks s' ! y)) \<longrightarrow> asid (tas (tasks s' ! x)) = 0)"
      proof cases
        case 1 then show ?thesis using one [of y] new(1) same [of y] by auto
      next
        case 2 then show ?thesis using one [of x] new(1) same [of x] by auto
      next
        case 3 then show ?thesis using tasks_apartD [OF I(7), of x y] same by auto
      qed
    qed
  qed
  moreover have "{j. live s' j} = insert i {j. live s j}" using live by blast
  then have "num_tasks s' = int (card {j. live s' j})" using I(8) d'(2,3) by (simp del: Collect_conj_eq)
  moreover have "kernel_tree L kow k s'" using kd d'(7) by (intro kernel_tree_keeps [OF I(1) ns'(4)]) auto
  moreover have "length (tasks s') = MAX_TASKS" using I(4) d'(5) by simp
  ultimately show ?thesis unfolding sys_inv_def ready_kernel_def using ns'(5,6) by blast
qed

section \<open>Destroying a task\<close>

definition task_gone :: "nat \<Rightarrow> task_res \<Rightarrow> 'a task_state_scheme \<Rightarrow> 'a task_state_scheme \<Rightarrow> bool" where
  "task_gone i R s s' \<longleftrightarrow> mm_inv s' \<and> asid_inv s' \<and> mem s' = mem s \<and> used_set s' = used_set s - res_pages R \<and>
     asid_used s' = asid_used s - {unat (asid (tas (tasks s ! i)))} \<and> num_tasks s' = num_tasks s - 1 \<and>
     tasks s' = (tasks s)[i := (tasks s ! i)\<lparr>tas := \<lparr>pgd = 0, asid = 0\<rparr>, tstate := TASK_DEAD\<rparr>] \<and>
     percpu s' = percpu s \<and> task_state.more s' = task_state.more s"

lemma task_destroy_gone:
  fixes s :: "'a task_state_scheme"
  assumes inv: "mm_inv s" "asid_inv s" and i: "live s i" and own: "task_owns kow R (tasks s ! i) s"
    and kd: "dom kow \<subseteq> used_set s"
  shows "task_gone i R s (task_destroy (int i) s)"
proof -
  let ?b = "res_stack R" and ?t = "tasks s ! i" and ?own = "own_tables (res_tables R) (res_root R)"
  define s1 where "s1 = pages_free (stack_base ?t) (TASK_STACK_SIZE div PAGE_SIZE) s"
  have own': "stack_base ?t = page_addr ?b" "?b + unat (TASK_STACK_SIZE div PAGE_SIZE :: u64) \<le> MAX_PAGES"
    "pt_inv (res_tables R) (res_root R) s" "dom (res_tables R) \<subseteq> ?own \<union> dom kow" "?own \<inter> {?b..<?b + 4} = {}"
    "res_pages R \<inter> dom kow = {}" "pgd (tas ?t) = page_addr (res_root R)" "unat (asid (tas ?t)) \<in> insert 0 (asid_used s)"
    using own by (simp_all add: task_owns_def)
  have g: "gives_back {?b..<?b + 4} s s1"
    using pages_free_gives_back [OF inv(1) own'(2)] unfolding s1_def own'(1) stack_pages_4 .
  then have s1: "mm_inv s1" "mem s1 = mem s" "used_set s1 = used_set s - {?b..<?b + 4}" "mm_state.more s1 = mm_state.more s"
    by (simp_all add: gives_back_def)
  have a1: "asid_inv s1" "asid_used s1 = asid_used s" using asid_same_more [OF s1(4)] inv(2) by simp_all
  have "dom (res_tables R) \<subseteq> used_set s" using pt_invD(2) [OF own'(3)] by auto
  then have "dom (res_tables R) \<subseteq> used_set s1" using own'(4-6) s1(3) unfolding res_pages_def by blast
  note tree = pt_inv_keeps [OF own'(3) keeps_pages_mem [OF s1(2)] this]
  have as: "unat (asid (tas ?t)) < ASID_MAX"
    using own'(8) asids.used_slots [OF inv(2)] by (auto simp: ASID_MAX_def)
  obtain s2 where s2: "vm_destroy (tas ?t) s1 = ((tas ?t)\<lparr>pgd := 0, asid := 0\<rparr>, s2)" "mm_inv s2" "mem s2 = mem s1"
    "used_set s2 = used_set s1 - ?own" "asid_used s2 = asid_used s1 - {unat (asid (tas ?t))}" "asid_inv s2"
    "vm_state.more s2 = vm_state.more s1"
    by (rule vm_destroy_spec [OF tree s1(1) a1(1) own'(7) as])
  have "same_above s s2"
    using same_above_trans [OF same_above_mm [OF s1(4)], of s2] s2(7) by (simp add: same_above_def)
  note above = same_aboveD [OF this]
  have d: "task_destroy (int i) s =
     (upd_task i (\<lambda>t. t\<lparr>tas := (tas ?t)\<lparr>pgd := 0, asid := 0\<rparr>, tstate := TASK_DEAD\<rparr>) s2)\<lparr>num_tasks := num_tasks s2 - 1\<rparr>"
    using i s2(1) by (simp add: task_destroy_def Let_def s1_def)
  show ?thesis
    unfolding d using s2 s1 a1 above by (cases "tas ?t") (auto simp: task_gone_def res_pages_def)
qed

lemma sys_inv_task_gone:
  assumes inv: "sys_inv L kow k R s" and i: "live s i" and g: "task_gone i (R i) s s'"
  shows "sys_inv L kow k R s'"
proof -
  note I = sys_invD [OF inv]
  note kd = kernel_dom_used [OF I(1)] and own = I(6) [OF i]
  have g': "mm_inv s'" "asid_inv s'" "mem s' = mem s" "used_set s' = used_set s - res_pages (R i)"
     "asid_used s' = asid_used s - {unat (asid (tas (tasks s ! i)))}" "num_tasks s' = num_tasks s - 1"
     "tasks s' = (tasks s)[i := (tasks s ! i)\<lparr>tas := \<lparr>pgd = 0, asid = 0\<rparr>, tstate := TASK_DEAD\<rparr>]"
    using g by (simp_all add: task_gone_def)
  have same: "tasks s' ! j = tasks s ! j" if "j \<noteq> i" for j using that g'(7) by simp
  have dead: "tstate (tasks s' ! i) = TASK_DEAD" using i g'(7) I(4) by simp
  have live: "live s' j \<longleftrightarrow> j \<noteq> i \<and> live s j" for j using same dead by (cases "j = i") auto
  have keep: "keeps_pages s s'" by (rule keeps_pages_mem [OF g'(3)])
  have kd': "dom kow \<subseteq> used_set s'" using kd own g'(4) unfolding task_owns_def by blast
  have "task_owns kow (R j) (tasks s' ! j) s'" if "live s' j" for j
  proof -
    have lj: "live s j" and ne: "j \<noteq> i" using that live by auto
    note ap = tasks_apartD [OF I(7) i lj ne [symmetric]]
    have "unat (asid (tas (tasks s ! j))) \<in> insert 0 (asid_used s')"
      using I(6) [OF lj] ap(2) g'(5) by (auto simp: task_owns_def word_unat_eq_iff)
    moreover have "res_pages (R j) \<subseteq> used_set s'"
      using res_pages_used [OF I(6) [OF lj]] ap(1) g'(4) by blast
    ultimately show ?thesis
      using kd' same [OF ne] by (intro task_owns_keeps [OF I(6) [OF lj] keep]) simp_all
  qed
  moreover have "tasks_apart R s'" using same live by (intro tasks_apart_mono [OF I(7)]) auto
  moreover have "{j. live s j} = insert i {j. live s' j}" "i \<notin> {j. live s' j}" using live i by blast+
  then have "int (card {j. live s j}) = int (card {j. live s' j}) + 1" using card_insert_disjoint [of "{j. live s' j}" i] by simp
  then have "num_tasks s' = int (card {j. live s' j})" using I(8) g'(6) by simp
  moreover have "kernel_tree L kow k s'" by (rule kernel_tree_keeps [OF I(1) keep kd'])
  moreover have "length (tasks s') = MAX_TASKS" using I(4) g'(7) by simp
  ultimately show ?thesis unfolding sys_inv_def ready_kernel_def using g'(1,2) by blast
qed

lemma sys_inv_exit:
  assumes inv: "sys_inv L kow k R s" and i: "live s (nat (current_task_id (percpu s ! c)))"
  shows "sys_inv L kow k R (task_exit_handler c s)"
proof -
  let ?i = "nat (current_task_id (percpu s ! c))" and ?s = "task_exit_handler c s"
  note I = sys_invD [OF inv]
  have s': "tasks ?s = (tasks s)[?i := (tasks s ! ?i)\<lparr>tstate := TASK_DEAD\<rparr>]" "num_tasks ?s = num_tasks s - 1"
    "used_set ?s = used_set s" "asid_used ?s = asid_used s" "mm_inv ?s" "asid_inv ?s" "mem ?s = mem s"
    using I by (simp_all add: task_exit_handler_def Let_def)
  have same: "tasks ?s ! j = tasks s ! j" if "j \<noteq> ?i" for j using that s'(1) by simp
  have "tstate (tasks ?s ! ?i) = TASK_DEAD" using i s'(1) I(4) by simp
  then have live: "live ?s j \<longleftrightarrow> j \<noteq> ?i \<and> live s j" for j using same by (cases "j = ?i") auto
  have keep: "keeps_pages s ?s" by (rule keeps_pages_mem [OF s'(7)])
  have kd: "dom kow \<subseteq> used_set ?s" using kernel_dom_used [OF I(1)] s'(3) by simp
  have "task_owns kow (R j) (tasks ?s ! j) ?s" if "live ?s j" for j
  proof -
    have lj: "live s j" and ne: "j \<noteq> ?i" using that live by auto
    show ?thesis
      using kd same [OF ne] s'(3,4) I(6) [OF lj] res_pages_used [OF I(6) [OF lj]]
      by (intro task_owns_keeps [OF I(6) [OF lj] keep]) (simp_all add: task_owns_def)
  qed
  moreover have "tasks_apart R ?s" using same live by (intro tasks_apart_mono [OF I(7)]) auto
  moreover have "{j. live s j} = insert ?i {j. live ?s j}" "?i \<notin> {j. live ?s j}" using live i by blast+
  then have "int (card {j. live s j}) = int (card {j. live ?s j}) + 1" using card_insert_disjoint [of "{j. live ?s j}" ?i] by simp
  then have "num_tasks ?s = int (card {j. live ?s j})" using I(8) s'(2) by simp
  moreover have "kernel_tree L kow k ?s" by (rule kernel_tree_keeps [OF I(1) keep kd])
  moreover have "length (tasks ?s) = MAX_TASKS" using I(4) s'(1) by simp
  ultimately show ?thesis unfolding sys_inv_def ready_kernel_def using s'(5,6) by blast
qed

lemma task_destroy_dead:
  "\<not> (0 \<le> i \<and> live s (nat i)) \<Longrightarrow> task_destroy i s = s"
  by (auto simp: task_destroy_def Let_def)

section \<open>Names and capability tables\<close>

lemma copy_name_spec:
  "j \<le> 31 \<Longrightarrow> j \<le> length name \<Longrightarrow> length buf = 32 \<Longrightarrow>
   take (Suc (min 31 (length name))) (copy_name j name buf) = take j buf @ drop j (take 31 name) @ [CHR 0x00] \<and>
   length (copy_name j name buf) = 32"
proof (induction j name buf rule: copy_name.induct)
  case (1 j name buf)
  show ?case
  proof (cases "j < 31 \<and> j < length name")
    case True
    have "take (Suc j) (buf[j := name ! j]) = take j buf @ [name ! j]"
      using 1(4) True by (simp add: take_Suc_conv_app_nth)
    moreover have "drop j (take 31 name) = name ! j # drop (Suc j) (take 31 name)"
      using True by (subst Cons_nth_drop_Suc [symmetric]) auto
    ultimately show ?thesis
      using 1(1) [OF True] 1(2-4) True by (subst (1 2) copy_name.simps) simp
  next
    case False
    then have j: "j = min 31 (length name)" using 1(2,3) by auto
    have "take (Suc j) (buf[j := CHR 0x00]) = take j buf @ [CHR 0x00]"
      using 1(2,4) by (simp add: take_Suc_conv_app_nth)
    moreover have "copy_name j name buf = buf[j := CHR 0x00]" using False by (subst copy_name.simps) auto
    ultimately show ?thesis using j 1(4) by simp
  qed
qed

lemma cleared_caps:
  "length ct = n \<Longrightarrow> for_loop 0 n (\<lambda>c ct. ct[c := - 1]) ct = replicate n (- 1 :: int)"
proof -
  assume l: "length ct = n"
  let ?P = "\<lambda>m (x :: int list). length x = n \<and> (\<forall>i<m. x ! i = - 1)"
  have "?P n (for_loop 0 n (\<lambda>c ct. ct[c := - 1]) ct)"
    by (rule for_loop_inv [where P = ?P]) (use l in \<open>auto simp: nth_list_update less_Suc_eq\<close>)
  then show ?thesis by (auto intro: nth_equalityI)
qed

section \<open>Start-up\<close>

text \<open>
  The initialisation the kernel's \<^verbatim>\<open>kernel_main\<close> makes before the first task is created, on a
  machine whose tables have the sizes of the C arrays.
\<close>

definition boot_tasks :: "'a task_state_scheme \<Rightarrow> 'a task_state_scheme" where
  "boot_tasks s = task_init (cap_init (boot_mm s))"

definition blank_ok :: "'a task_state_scheme \<Rightarrow> bool" where
  "blank_ok s \<longleftrightarrow> asid_bitmap s = replicate 32 0 \<and> length (cap_pool s) = CAP_POOL_SIZE \<and>
     length (cap_pool_used s) = CAP_POOL_SIZE \<and> length (tasks s) = MAX_TASKS \<and> length (percpu s) = MAX_CPUS \<and>
     (\<forall>t\<in>set (tasks s). length (tname t) = 32 \<and> length (cap_table t) = MAX_CAPS_PER_TASK)"

definition started :: "'a task_state_scheme \<Rightarrow> bool" where
  "started s \<longleftrightarrow> length (tasks s) = MAX_TASKS \<and> length (percpu s) = MAX_CPUS \<and> num_tasks s = 0 \<and>
     (\<forall>i<MAX_TASKS. tstate (tasks s ! i) = TASK_DEAD \<and> tid (tasks s ! i) = int i \<and> num_caps (tasks s ! i) = 0 \<and>
        length (tname (tasks s ! i)) = 32 \<and> length (cap_table (tasks s ! i)) = MAX_CAPS_PER_TASK) \<and>
     (\<forall>c<MAX_CPUS. current_task_id (percpu s ! c) = - 1 \<and> cpu_id (percpu s ! c) = int c)"

lemma upd_cpu_fields [simp]:
  "percpu (upd_cpu c f s) = (percpu s)[c := f (percpu s ! c)]" "tasks (upd_cpu c f s) = tasks s"
  "num_tasks (upd_cpu c f s) = num_tasks s" "mem (upd_cpu c f s) = mem s" "page_bitmap (upd_cpu c f s) = page_bitmap s"
  "used_pages (upd_cpu c f s) = used_pages s" "cap_state.truncate (upd_cpu c f s) = cap_state.truncate s"
  "task_state.more (upd_cpu c f s) = task_state.more s"
  by (simp_all add: upd_cpu_def cap_state.defs)

lemma upd_cpu_inv [simp]:
  "used_set (upd_cpu c f s) = used_set s" "mm_inv (upd_cpu c f s) = mm_inv s"
  "asid_used (upd_cpu c f s) = asid_used s" "asid_inv (upd_cpu c f s) = asid_inv s"
  by (simp_all add: upd_cpu_def used_set_def bitmap_test_def mm_inv_def asid_used_def asid_free_bit_def asid_inv_def)

lemma task_init_started:
  assumes "length (tasks s) = MAX_TASKS" and "length (percpu s) = MAX_CPUS"
    and "\<forall>t\<in>set (tasks s). length (tname t) = 32 \<and> length (cap_table t) = MAX_CAPS_PER_TASK"
  shows "started (task_init s)"
proof -
  let ?f = "\<lambda>i. upd_task i (\<lambda>t. t\<lparr>tid := int i, tstate := TASK_DEAD, num_caps := 0, stack_base := 0\<rparr>)"
  let ?g = "\<lambda>c. upd_cpu c (\<lambda>p. p\<lparr>cpu_id := int c, current_task_id := - 1, reschedule_needed := 0\<rparr>)"
  let ?ok = "\<lambda>t. length (tname t) = 32 \<and> length (cap_table t) = MAX_CAPS_PER_TASK"
  let ?P = "\<lambda>k t. length (tasks t) = MAX_TASKS \<and> length (percpu t) = MAX_CPUS \<and> (\<forall>i<MAX_TASKS. ?ok (tasks t ! i)) \<and>
    (\<forall>i<k. tstate (tasks t ! i) = TASK_DEAD \<and> tid (tasks t ! i) = int i \<and> num_caps (tasks t ! i) = 0)"
  have 1: "?P MAX_TASKS (for_loop 0 MAX_TASKS ?f s)"
    by (rule for_loop_inv [where P = ?P]) (use assms in \<open>auto simp: nth_list_update less_Suc_eq\<close>)
  let ?s1 = "(for_loop 0 MAX_TASKS ?f s)\<lparr>num_tasks := 0\<rparr>"
  let ?Q = "\<lambda>k t. length (percpu t) = MAX_CPUS \<and> tasks t = tasks ?s1 \<and> num_tasks t = 0 \<and>
    (\<forall>c<k. current_task_id (percpu t ! c) = - 1 \<and> cpu_id (percpu t ! c) = int c)"
  have "?Q MAX_CPUS (for_loop 0 MAX_CPUS ?g ?s1)"
    by (rule for_loop_inv [where P = ?Q]) (use 1 in \<open>auto simp: nth_list_update less_Suc_eq\<close>)
  then show ?thesis using 1 by (simp add: started_def task_init_def Let_def)
qed

lemma task_init_frame [frame_simps]:
  "mem (task_init s) = mem s" "used_set (task_init s) = used_set s" "mm_inv (task_init s) = mm_inv s"
  "asid_used (task_init s) = asid_used s" "asid_inv (task_init s) = asid_inv s" "task_state.more (task_init s) = task_state.more s"
  unfolding task_init_def Let_def by (simp_all add: for_loop_frame)

lemma cap_init_frame [frame_simps]:
  fixes s :: "'a task_state_scheme"
  shows "mem (cap_init s) = mem s" "used_set (cap_init s) = used_set s" "mm_inv (cap_init s) = mm_inv s"
    "asid_used (cap_init s) = asid_used s" "asid_inv (cap_init s) = asid_inv s" "tasks (cap_init s) = tasks s"
    "percpu (cap_init s) = percpu s" "task_state.more (cap_init s) = task_state.more s"
  unfolding cap_init_def
  by (rule for_loop_frame, simp add: used_set_def bitmap_test_def mm_inv_def asid_used_def asid_free_bit_def asid_inv_def)+

lemma boot_tasks_spec:
  assumes "blank_ok s"
  shows "sys_inv sample_layout (kernel_labels 144 145 146 147) 144 R (boot_tasks s)" and "started (boot_tasks s)"
    and "used_set (boot_tasks s) = {..<256}" and "asid_used (boot_tasks s) = {}"
    and "task_state.more (boot_tasks s) = task_state.more s"
proof -
  let ?kow = "kernel_labels 144 145 146 147"
  have "same_above s (boot_mm s)" by (rule same_above_mm [OF boot_mm_spec(4)])
  note above = same_aboveD [OF this] and as = asid_same_more [OF boot_mm_spec(4), of s]
  show st: "started (boot_tasks s)"
    unfolding boot_tasks_def by (rule task_init_started) (use assms above in \<open>simp_all add: frame_simps blank_ok_def\<close>)
  show u: "used_set (boot_tasks s) = {..<256}"
    by (simp add: boot_tasks_def frame_simps boot_mm_spec(2))
  have m: "mem (boot_tasks s) = mem (boot_mm s)" by (simp add: boot_tasks_def frame_simps)
  have a: "asid_inv s" "asid_used s = {}"
    using assms by (auto simp: blank_ok_def asid_inv_def asid_used_def asid_free_bit_def ASID_MAX_def)
  then show "asid_used (boot_tasks s) = {}" using as by (simp add: boot_tasks_def frame_simps)
  show "task_state.more (boot_tasks s) = task_state.more s" using above by (simp add: boot_tasks_def frame_simps)
  have "dom ?kow \<subseteq> used_set (boot_tasks s)"
    using kernel_dom_used [OF boot_mm_spec(3)] boot_mm_spec(2) [of s] u by auto
  from kernel_tree_keeps [OF boot_mm_spec(3) keeps_pages_mem [OF m] this]
  have "ready_kernel sample_layout ?kow 144 (boot_tasks s)"
    using st a as by (simp add: ready_kernel_def started_def boot_tasks_def frame_simps boot_mm_spec(1))
  moreover have dead: "\<not> live (boot_tasks s) i" for i using st by (auto simp: started_def)
  moreover have "num_tasks (boot_tasks s) = int (card {i. live (boot_tasks s) i})"
    using st dead by (simp add: started_def)
  moreover have "tasks_apart R (boot_tasks s)" using dead unfolding tasks_apart_def by blast
  ultimately show "sys_inv sample_layout ?kow 144 R (boot_tasks s)"
    unfolding sys_inv_def by blast
qed

definition blank_context :: task_context where
  "blank_context = initial_context 0 0 0"

definition blank_task :: task where
  "blank_task = \<lparr>tid = 0, tstate = TASK_DEAD, tname = replicate 32 CHR 0x00, ctx = blank_context, stack_base = 0,
     tas = no_space, cap_table = replicate 16 0, num_caps = 0, wakeup_reason = 0\<rparr>"

definition blank_cpu :: percpu_data where
  "blank_cpu = \<lparr>cpu_id = 0, current_task_id = 0, idle_ctx = blank_context, dead_ctx = blank_context, reschedule_needed = 0\<rparr>"

definition blank_machine :: task_state where
  "blank_machine = \<lparr>page_bitmap = [], total_pages = 0, used_pages = 0, mem = (\<lambda>_. 0), asid_bitmap = replicate 32 0,
     cap_pool = replicate 256 \<lparr>ctype = 0, refcount = 0, object = Cap_irq 0\<rparr>, cap_pool_used = replicate 256 False,
     tasks = replicate 32 blank_task, num_tasks = 0, percpu = replicate 4 blank_cpu\<rparr>"

definition task_boot :: task_state where
  "task_boot = boot_tasks blank_machine"

lemma blank_machine_ok: "blank_ok blank_machine"
  by (simp add: blank_ok_def blank_machine_def blank_task_def CAP_POOL_SIZE_def MAX_TASKS_def MAX_CPUS_def
      MAX_CAPS_PER_TASK_def)

lemmas task_boot_spec = boot_tasks_spec [OF blank_machine_ok, folded task_boot_def]

lemma room_at_boot: "used_set s = {..<256} \<Longrightarrow> \<not> no_room s"
proof -
  assume u: "used_set s = {..<256}"
  have "\<exists>r. free_run (\<lambda>i. i \<notin> insert root {..<256}) 4 r" for root
  proof (cases "root < 260")
    case True
    then have "free_run (\<lambda>i. i \<notin> insert root {..<256}) 4 260" by (auto simp: free_run_def MAX_PAGES_def)
    then show ?thesis ..
  next
    case False
    then have "free_run (\<lambda>i. i \<notin> insert root {..<256}) 4 256" by (auto simp: free_run_def MAX_PAGES_def)
    then show ?thesis ..
  qed
  then show "\<not> no_room s" using u by (auto simp: no_room_def MAX_PAGES_def)
qed

text \<open>On a machine just started there is room for a first task.\<close>

lemma first_create:
  assumes "blank_ok m"
  obtains root n b s where "task_create sample_layout tr name st (boot_tasks m) = (0, s)"
    "create_done sample_layout (kernel_labels 144 145 146 147) 144 tr name st 0 root n b (boot_tasks m) s"
proof (cases rule: task_create_cases [OF sys_invD(5) [OF boot_tasks_spec(1) [OF assms]], of tr name st])
  case 1
  then have "live (boot_tasks m) 0" by (simp add: MAX_TASKS_def)
  then show ?thesis using boot_tasks_spec(2) [OF assms] unfolding started_def by blast
next
  case (2 i s')
  then show ?thesis using room_at_boot [OF boot_tasks_spec(3) [OF assms]] by simp
next
  case (3 i root n b s')
  then have "i = 0" using boot_tasks_spec(2) [OF assms] by (cases i) (auto simp: create_done_def started_def)
  then show ?thesis using 3 that by simp
qed

lemmas task_boot_create = first_create [OF blank_machine_ok, folded task_boot_def]

lemma aligned_and_not:
  assumes "unat (x :: u64) mod 16 = 0"
  shows "x AND NOT 0xF = x"
proof -
  have "take_bit 4 (unat x) = 0" using assms by (simp add: take_bit_eq_mod)
  then have "take_bit 4 x = 0" by (simp only: word_unat_eq_iff unsigned_take_bit_eq unsigned_0)
  then have "\<not> bit x k" if "k < 4" for k using no_low_bits that by blast
  then have "x AND NOT (mask 4) = x" by (intro bit_word_eqI) (auto simp: bit_simps)
  then show ?thesis by (simp add: mask_eq_exp_minus_1)
qed

section \<open>Properties\<close>

text \<open>
  A created task starts where it should: \<open>task_create\<close> takes the lowest dead slot, marks it
  ready, stores at most 31 characters of the name with a terminator, hands out four zeroed
  pages nobody used as the stack, and prepares a context that returns into the trampoline
  with the entry point in \<^verbatim>\<open>x19\<close> and a 16-byte aligned stack pointer at the top of that stack.
  The capability table is empty, and no other task changes.
\<close>

theorem task_create_correct:
  assumes "ready_kernel L kow k s" and "task_create L tr name st s = (i, s')" and "0 \<le> i"
    and "length (tname (tasks s ! nat i)) = 32" and "length (cap_table (tasks s ! nat i)) = 16"
  shows "\<exists>b t. tasks s' = (tasks s)[nat i := t] \<and> tstate t = TASK_READY \<and>
     \<not> live s (nat i) \<and> (\<forall>j<nat i. live s j) \<and> nat i < MAX_TASKS \<and>
     take (Suc (min 31 (length name))) (tname t) = take 31 name @ [CHR 0x00] \<and>
     stack_base t = page_addr b \<and> b + 4 \<le> MAX_PAGES \<and> {b..<b + 4} \<inter> used_set s = {} \<and> {b..<b + 4} \<subseteq> used_set s' \<and>
     x30 (ctx t) = tr \<and> x19 (ctx t) = st \<and> sp (ctx t) = stack_base t + TASK_STACK_SIZE \<and> unat (sp (ctx t)) mod 16 = 0 \<and>
     cap_table t = replicate 16 (- 1) \<and> num_caps t = 0"
proof (cases rule: task_create_cases [OF assms(1), of tr name st])
  case (3 j root n b s1)
  let ?t = "created_task tr name st root n b (tasks s ! j)"
  have eq: "i = int j" "s1 = s'" using 3(1) assms(2) by simp_all
  have d: "j < MAX_TASKS" "\<not> live s j" "\<forall>m<j. live s m" "tasks s' = (tasks s)[j := ?t]" "b + 4 \<le> MAX_PAGES"
    "{b..<b + 4} \<inter> insert root (used_set s) = {}" "used_set s' = insert root (used_set s) \<union> {b..<b + 4}"
    using 3(2) eq(2) by (auto simp: create_done_def)
  have "unat (page_addr b + TASK_STACK_SIZE) = 0x40000000 + b * 4096 + 16384"
    using unat_page_addr [of b] d(5) by (subst unat_add_small) (simp_all add: MAX_PAGES_def)
  then have al: "unat (page_addr b + TASK_STACK_SIZE) mod 16 = 0" by (simp add: mod_simps)
  have sp: "(page_addr b + TASK_STACK_SIZE) AND NOT 0xF = page_addr b + TASK_STACK_SIZE"
    by (rule aligned_and_not [OF al])
  show ?thesis
    using d eq sp al copy_name_spec [of 0 name "tname (tasks s ! j)"] cleared_caps [of "cap_table (tasks s ! j)" 16] assms(4,5)
    by (intro exI [of _ b] exI [of _ ?t]) (auto simp: created_task_def initial_context_def MAX_CAPS_PER_TASK_def)
qed (use assms in auto)

theorem task_create_correct_witness:
  "\<exists>s t. task_create sample_layout 0x40080800 ''shell'' 0x40081000 task_boot = (0, s) \<and> tasks s ! 0 = t \<and>
     take 6 (tname t) = ''shell'' @ [CHR 0x00] \<and> x19 (ctx t) = 0x40081000 \<and> tstate t = TASK_READY"
proof -
  obtain root n b s where c: "task_create sample_layout 0x40080800 ''shell'' 0x40081000 task_boot = (0, s)"
    by (rule task_boot_create)
  have "0 < MAX_TASKS" by (simp add: MAX_TASKS_def)
  then have "length (tname (tasks task_boot ! nat 0)) = 32" "length (cap_table (tasks task_boot ! nat 0)) = 16"
    using task_boot_spec(2) by (auto simp: started_def MAX_CAPS_PER_TASK_def)
  moreover have six: "6 = Suc (min 31 (length ''shell''))" by simp
  ultimately show ?thesis
    unfolding six using task_create_correct [OF sys_invD(5) [OF task_boot_spec(1)] c] c sys_invD(4) [OF task_boot_spec(1)] \<open>0 < MAX_TASKS\<close> by auto
qed

text \<open>
  C1. Tasks stay isolated: creating a task, successfully or not, destroying one, and a task's
  exit all keep the system invariant, in which live tasks own disjoint page tables and
  stacks, disjoint also from the kernel's tables, hold distinct ASIDs as long as there are
  any, and are counted by \<^verbatim>\<open>num_tasks\<close>.
\<close>

theorem task_isolation:
  assumes "sys_inv L kow k R s"
  shows "(\<exists>R'. sys_inv L kow k R' (snd (task_create L tr name st s))) \<and>
     sys_inv L kow k R (task_destroy i s) \<and>
     (0 \<le> task_current_id c s \<and> live s (nat (task_current_id c s)) \<longrightarrow> sys_inv L kow k R (task_exit_handler c s))"
proof (intro conjI impI)
  show "\<exists>R'. sys_inv L kow k R' (snd (task_create L tr name st s))"
  proof (cases rule: task_create_cases [OF sys_invD(5) [OF assms], of tr name st])
    case 1
    then show ?thesis using assms by auto
  next
    case (2 i s')
    then show ?thesis using sys_inv_create_failed [OF assms 2(2)] by auto
  next
    case (3 i root n b s')
    then show ?thesis using sys_inv_create_done [OF assms 3(2)] by auto
  qed
  show "sys_inv L kow k R (task_destroy i s)"
  proof (cases "0 \<le> i \<and> live s (nat i)")
    case True
    then have l: "live s (nat i)" by blast
    note I = sys_invD [OF assms]
    have "task_gone (nat i) (R (nat i)) s (task_destroy (int (nat i)) s)"
      by (rule task_destroy_gone [OF I(2,3) l I(6) [OF l] kernel_dom_used [OF I(1)]])
    from sys_inv_task_gone [OF assms l this] show ?thesis using True by simp
  next
    case False
    then show ?thesis using assms task_destroy_dead [OF False] by simp
  qed
next
  assume "0 \<le> task_current_id c s \<and> live s (nat (task_current_id c s))"
  then show "sys_inv L kow k R (task_exit_handler c s)" using sys_inv_exit [OF assms] by (simp add: task_current_id_def)
qed

theorem task_isolation_witness:
  "\<exists>R. sys_inv sample_layout (kernel_labels 144 145 146 147) 144 R
     (snd (task_create sample_layout 0x40080800 ''shell'' 0x40081000 task_boot))"
  using task_isolation [OF task_boot_spec(1)] by blast

text \<open>
  C22. Creating a task never leaks: when \<open>task_create\<close> reports failure, every page, every ASID,
  the task counter and every task but the (dead) slot it tried are as before; and it fails
  only when all 32 slots are live, no page is free for the top-level table, or no four
  consecutive pages are free for the stack.
\<close>

theorem task_create_failure_clean:
  assumes "sys_inv L kow k R s" and "task_create L tr name st s = (i, s')" and "i < 0"
  shows "page_bitmap s' = page_bitmap s \<and> used_pages s' = used_pages s \<and> asid_used s' = asid_used s \<and>
     num_tasks s' = num_tasks s \<and> (\<forall>j. live s j \<longrightarrow> tasks s' ! j = tasks s ! j) \<and> (\<forall>j. live s' j \<longleftrightarrow> live s j) \<and>
     ((\<forall>j<MAX_TASKS. live s j) \<or> no_room s)"
proof (cases rule: task_create_cases [OF sys_invD(5) [OF assms(1)], of tr name st])
  case 1
  then show ?thesis using assms by auto
next
  case (2 j s1)
  have s1: "s1 = s'" using 2(1) assms(2) by simp
  have f: "\<not> live s j" "tstate (tasks s' ! j) = TASK_DEAD" "tasks s' = (tasks s)[j := tasks s' ! j]" "mm_inv s'"
    "used_set s' = used_set s" "asid_used s' = asid_used s" "num_tasks s' = num_tasks s"
    using 2(2) s1 by (simp_all add: create_failed_def)
  have mm: "mm_inv s" by (rule sys_invD(2) [OF assms(1)])
  have same: "m \<noteq> j \<Longrightarrow> tasks s' ! m = tasks s ! m" for m using f(3) by (metis nth_list_update_neq)
  have "page_bitmap s' = page_bitmap s" "used_pages s' = used_pages s"
    using bitmap_ext [OF _ _ f(5)] f(4,5) mm by (simp_all add: mm_inv_def)
  moreover have "\<forall>m. live s m \<longrightarrow> tasks s' ! m = tasks s ! m" using same f(1) by metis
  moreover have "\<forall>m. live s' m \<longleftrightarrow> live s m" using same f(1,2) by metis
  ultimately show ?thesis using f(6,7) 2(3) by blast
next
  case (3 j root n b s1)
  then show ?thesis using assms(2,3) by simp
qed

text \<open>A machine whose memory is all taken, for the closed instance.\<close>

definition full_boot :: task_state where
  "full_boot = task_boot\<lparr>page_bitmap := replicate 512 (- 1), used_pages := 32768\<rparr>"

lemma full_boot_spec:
  "sys_inv sample_layout (kernel_labels 144 145 146 147) 144 R full_boot" "used_set full_boot = {..<MAX_PAGES}"
proof -
  note I = sys_invD [OF task_boot_spec(1)]
  show u: "used_set full_boot = {..<MAX_PAGES}"
    by (auto simp: used_set_def bitmap_test_bit full_boot_def MAX_PAGES_def)
  then have "mm_inv full_boot" using I(2) by (simp add: mm_inv_def full_boot_def BITMAP_SIZE_eq MAX_PAGES_def)
  moreover have "kernel_tree sample_layout (kernel_labels 144 145 146 147) 144 full_boot"
    using u kernel_dom_used [OF I(1)]
    by (intro kernel_tree_keeps [OF I(1) keeps_pages_mem]) (auto simp: full_boot_def used_set_def)
  moreover have dead: "\<not> live full_boot i" for i using task_boot_spec(2) by (auto simp: started_def full_boot_def)
  moreover have "num_tasks full_boot = int (card {i. live full_boot i})"
    using dead task_boot_spec(2) by (simp add: full_boot_def started_def)
  moreover have "tasks_apart R full_boot" using dead unfolding tasks_apart_def by blast
  moreover have "asid_inv full_boot" "length (tasks full_boot) = MAX_TASKS"
    using I(3,4) by (simp_all add: full_boot_def asid_inv_def)
  ultimately show "sys_inv sample_layout (kernel_labels 144 145 146 147) 144 R full_boot"
    unfolding sys_inv_def ready_kernel_def by blast
qed

theorem task_create_failure_clean_witness:
  "\<exists>s'. task_create sample_layout 0 ''init'' 0 full_boot = (- 1, s') \<and> page_bitmap s' = page_bitmap full_boot \<and>
     (\<forall>j. \<not> live s' j)"
proof (cases rule: task_create_cases [OF sys_invD(5) [OF full_boot_spec(1)], of 0 "''init''" 0])
  case 1
  then show ?thesis
    using task_create_failure_clean [OF full_boot_spec(1) 1(2)] task_boot_spec(2)
    by (auto simp: started_def full_boot_def)
next
  case (2 i s')
  then show ?thesis
    using task_create_failure_clean [OF full_boot_spec(1) 2(1)] task_boot_spec(2)
    by (auto simp: started_def full_boot_def)
next
  case (3 i root n b s')
  then have "root < MAX_PAGES" "root \<notin> used_set full_boot" by (auto simp: create_done_def new_space_def)
  then show ?thesis using full_boot_spec(2) by simp
qed

text \<open>
  C21. Creating and then destroying a task restores the page bitmap, the page counter, the ASIDs
  in use and the task counter, and leaves every other task alone.
\<close>

theorem task_create_destroy_roundtrip:
  assumes "sys_inv L kow k R s" and "task_create L tr name st s = (i, s1)" and "0 \<le> i"
  shows "page_bitmap (task_destroy i s1) = page_bitmap s \<and> used_pages (task_destroy i s1) = used_pages s \<and>
     asid_used (task_destroy i s1) = asid_used s \<and> num_tasks (task_destroy i s1) = num_tasks s \<and>
     (\<forall>j. j \<noteq> nat i \<longrightarrow> tasks (task_destroy i s1) ! j = tasks s ! j) \<and> \<not> live (task_destroy i s1) (nat i)"
proof (cases rule: task_create_cases [OF sys_invD(5) [OF assms(1)], of tr name st])
  case (3 j root n b s')
  have eq: "i = int j" "s' = s1" using 3(1) assms(2) by simp_all
  let ?R = "R(j := Res (task_tree kow k root) root b)" and ?s = "task_destroy (int j) s1"
  have d: "create_done L kow k tr name st j root n b s s1" using 3(2) eq(2) by simp
  note I = sys_invD [OF sys_inv_create_done [OF assms(1) d]]
  have d': "j < MAX_TASKS" "num_tasks s1 = num_tasks s + 1" "{b..<b + 4} \<inter> insert root (used_set s) = {}"
    "tasks s1 = (tasks s)[j := created_task tr name st root n b (tasks s ! j)]" "root \<notin> used_set s"
    "used_set s1 = insert root (used_set s) \<union> {b..<b + 4}" "own_tables (task_tree kow k root) root = {root}"
    "asid_used s1 - {unat n} = asid_used s"
    using d asids.used_slots [OF sys_invD(3) [OF assms(1)]] by (auto simp: create_done_def new_space_def)
  have t: "tasks s1 ! j = created_task tr name st root n b (tasks s ! j)"
    using d'(1,4) sys_invD(4) [OF assms(1)] by simp
  have l: "live s1 j" using d'(1) t by (simp add: created_task_def)
  have g: "task_gone j (?R j) s1 ?s" by (rule task_destroy_gone [OF I(2,3) l I(6) [OF l] kernel_dom_used [OF I(1)]])
  have "used_set ?s = used_set s"
    using g d'(3,5,6,7) by (auto simp: task_gone_def res_pages_def)
  moreover have "asid_used ?s = asid_used s" using g d'(8) t by (simp add: task_gone_def created_task_def)
  moreover have "mm_inv ?s" "num_tasks ?s = num_tasks s" using g d'(2) by (simp_all add: task_gone_def)
  moreover have "tasks ?s ! m = tasks s ! m" if "m \<noteq> j" for m using g d'(4) that by (simp add: task_gone_def)
  moreover have "\<not> live ?s j" using g d'(1,4) sys_invD(4) [OF assms(1)] by (simp add: task_gone_def)
  ultimately show ?thesis
    using bitmap_ext [of ?s s] sys_invD(2) [OF assms(1)] eq(1) by (auto simp: mm_inv_def)
qed (use assms in auto)

theorem task_create_destroy_roundtrip_witness:
  "\<exists>s. task_create sample_layout 0x40080800 ''shell'' 0x40081000 task_boot = (0, s) \<and>
     page_bitmap (task_destroy 0 s) = page_bitmap task_boot \<and> num_tasks (task_destroy 0 s) = 0"
proof -
  obtain root n b s where c: "task_create sample_layout 0x40080800 ''shell'' 0x40081000 task_boot = (0, s)"
    by (rule task_boot_create)
  show ?thesis
    using task_create_destroy_roundtrip [OF task_boot_spec(1) c] c task_boot_spec(2) by (auto simp: started_def)
qed

text \<open>
  \<open>task_add_cap\<close> never writes outside the 16 entries of a capability table: it appends to the
  table of a live task that has room, and otherwise (no such task, 16 capabilities) reports
  failure and changes nothing. Capabilities handed out before stay where they are.
\<close>

theorem task_add_cap_bounded:
  assumes "length (tasks s) = MAX_TASKS" and "0 \<le> num_caps (tasks s ! nat i)"
    and "length (cap_table (tasks s ! nat i)) = MAX_CAPS_PER_TASK"
  shows "if 0 \<le> i \<and> live s (nat i) \<and> num_caps (tasks s ! nat i) < 16
     then (\<exists>s'. task_add_cap i c s = (0, s') \<and>
       (let t = tasks s ! nat i; t' = tasks s' ! nat i; n = nat (num_caps t)
        in n < length (cap_table t) \<and> num_caps t' = num_caps t + 1 \<and> num_caps t' \<le> 16 \<and>
           take (nat (num_caps t')) (cap_table t') = take n (cap_table t) @ [c] \<and>
           length (cap_table t') = MAX_CAPS_PER_TASK \<and> (\<forall>j. j \<noteq> nat i \<longrightarrow> tasks s' ! j = tasks s ! j)))
     else task_add_cap i c s = (- 1, s)"
proof (cases "0 \<le> i \<and> live s (nat i) \<and> num_caps (tasks s ! nat i) < 16")
  case True
  let ?t = "tasks s ! nat i"
  let ?n = "nat (num_caps ?t)"
  have n: "?n < 16" "nat (num_caps ?t + 1) = Suc ?n" using True assms(2) by linarith+
  have "take (Suc ?n) ((cap_table ?t)[?n := c]) = take ?n (cap_table ?t) @ [c]"
    using n(1) assms(3) by (simp add: take_Suc_conv_app_nth MAX_CAPS_PER_TASK_def)
  then show ?thesis
    using True n assms
    by (auto simp: task_add_cap_def task_get_def Let_def MAX_CAPS_PER_TASK_def)
next
  case False
  then show ?thesis by (auto simp: task_add_cap_def task_get_def MAX_CAPS_PER_TASK_def)
qed

theorem task_add_cap_bounded_witness:
  "task_add_cap 3 7 task_boot = (- 1, task_boot)"
proof -
  have "3 < MAX_TASKS" by (simp add: MAX_TASKS_def)
  then have "\<not> live task_boot 3" "length (tasks task_boot) = MAX_TASKS" "0 \<le> num_caps (tasks task_boot ! 3)"
    "length (cap_table (tasks task_boot ! 3)) = MAX_CAPS_PER_TASK"
    using task_boot_spec(2) by (auto simp: started_def)
  then show ?thesis using task_add_cap_bounded [of task_boot 3 7] by simp
qed

end
