(* ===== verification/Sched.thy ===== *)
theory Sched
  imports Task
begin

text \<open>
  The scheduler (\<^verbatim>\<open>kernel/sched.c\<close>) with the context switch of \<^verbatim>\<open>kernel/vectors.S\<close>. The state of a
  CPU gains the registers a context switch saves and restores and the translation base
  register. \<open>schedule\<close> is the whole call, from the caller's registers to those of the task
  that runs afterwards; what happens between the release of \<^verbatim>\<open>sched_lock\<close> and the switch is
  not interleaved with other CPUs here.
\<close>

section \<open>State\<close>

record sched_state = task_state +
  regs :: "task_context list"
  ttbr0 :: "u64 list"
  scheduler_running :: int

text \<open>The contexts \<^verbatim>\<open>schedule\<close> takes pointers to: of a task, or of the CPU it runs on.\<close>

datatype ctx_ref = Task_ctx nat | Idle_ctx | Dead_ctx

primrec read_ctx :: "nat \<Rightarrow> ctx_ref \<Rightarrow> 'a sched_state_scheme \<Rightarrow> task_context" where
  "read_ctx c (Task_ctx i) s = ctx (tasks s ! i)"
| "read_ctx c Idle_ctx s = idle_ctx (percpu s ! c)"
| "read_ctx c Dead_ctx s = dead_ctx (percpu s ! c)"

primrec write_ctx :: "nat \<Rightarrow> ctx_ref \<Rightarrow> task_context \<Rightarrow> 'a sched_state_scheme \<Rightarrow> 'a sched_state_scheme" where
  "write_ctx c (Task_ctx i) x s = upd_task i (\<lambda>t. t\<lparr>ctx := x\<rparr>) s"
| "write_ctx c Idle_ctx x s = upd_cpu c (\<lambda>p. p\<lparr>idle_ctx := x\<rparr>) s"
| "write_ctx c Dead_ctx x s = upd_cpu c (\<lambda>p. p\<lparr>dead_ctx := x\<rparr>) s"

section \<open>Operations\<close>

definition context_switch :: "nat \<Rightarrow> ctx_ref \<Rightarrow> ctx_ref \<Rightarrow> u64 \<Rightarrow> 'a sched_state_scheme \<Rightarrow> 'a sched_state_scheme" where
  "context_switch c old_ctx new_ctx ttbr s =
     (let s1 = write_ctx c old_ctx (regs s ! c) s;
          s2 = (if ttbr = 0 then s1 else s1\<lparr>ttbr0 := (ttbr0 s1)[c := ttbr]\<rparr>)
      in s2\<lparr>regs := (regs s2)[c := read_ctx c new_ctx s2]\<rparr>)"

definition sched_init :: "'a sched_state_scheme \<Rightarrow> 'a sched_state_scheme" where
  "sched_init s = s\<lparr>scheduler_running := 0\<rparr>"

definition is_ready :: "nat \<Rightarrow> 'a task_state_scheme \<Rightarrow> bool" where
  "is_ready i s \<longleftrightarrow> (case task_get (int i) s of Some t \<Rightarrow> tstate t = TASK_READY | None \<Rightarrow> False)"

definition find_next :: "nat \<Rightarrow> 'a task_state_scheme \<Rightarrow> nat option" where
  "find_next start s =
     (case first_idx (\<lambda>i. is_ready ((start + i) mod MAX_TASKS) s) 1 (MAX_TASKS + 1) of
        Some i \<Rightarrow> Some ((start + i) mod MAX_TASKS)
      | None \<Rightarrow> None)"

definition task_ttbr :: "task \<Rightarrow> u64" where
  "task_ttbr t = (if pgd (tas t) \<noteq> 0 then pgd (tas t) OR push_bit 48 (ucast (asid (tas t))) else 0)"

text \<open>The part of \<^verbatim>\<open>schedule\<close> that puts the current task back and finds its context.\<close>

definition put_back :: "int \<Rightarrow> 'a sched_state_scheme \<Rightarrow> ctx_ref \<times> 'a sched_state_scheme" where
  "put_back cur s =
     (if cur \<ge> 0 then
        (case task_get cur s of
           Some t \<Rightarrow> (Task_ctx (nat cur),
             if tstate t = TASK_RUNNING then upd_task (nat cur) (\<lambda>t. t\<lparr>tstate := TASK_READY\<rparr>) s else s)
         | None \<Rightarrow> (Dead_ctx, s))
      else (Idle_ctx, s))"

definition schedule :: "nat \<Rightarrow> 'a sched_state_scheme \<Rightarrow> 'a sched_state_scheme" where
  "schedule c s =
     (let cur = current_task_id (percpu s ! c);
          start = (if cur \<ge> 0 then nat cur else 0)
      in case put_back cur s of (old_ctx, s1) \<Rightarrow>
         (case find_next start s of
            None \<Rightarrow>
              if cur \<ge> 0
              then context_switch c old_ctx Idle_ctx 0 (upd_cpu c (\<lambda>p. p\<lparr>current_task_id := - 1\<rparr>) s1)
              else s1
          | Some nxt \<Rightarrow>
              if int nxt = cur
              then (case task_get cur s1 of
                      Some t \<Rightarrow> upd_task nxt (\<lambda>t. t\<lparr>tstate := TASK_RUNNING\<rparr>) s1
                    | None \<Rightarrow> s1)
              else
                (let s2 = upd_task nxt (\<lambda>t. t\<lparr>tstate := TASK_RUNNING\<rparr>) s1;
                     s3 = upd_cpu c (\<lambda>p. p\<lparr>current_task_id := int nxt\<rparr>) s2
                 in context_switch c old_ctx (Task_ctx nxt) (task_ttbr (tasks s3 ! nxt)) s3)))"

definition sched_yield :: "nat \<Rightarrow> 'a sched_state_scheme \<Rightarrow> 'a sched_state_scheme" where
  "sched_yield c s = schedule c (upd_cpu c (\<lambda>p. p\<lparr>reschedule_needed := 0\<rparr>) s)"

text \<open>
  \<^verbatim>\<open>sched_start\<close> loops for ever; one round of the loop either halts the CPU (\<open>None\<close>) or schedules
  and waits for an interrupt.
\<close>

definition sched_start_enter :: "'a sched_state_scheme \<Rightarrow> 'a sched_state_scheme" where
  "sched_start_enter s = s\<lparr>scheduler_running := 1\<rparr>"

definition sched_start_round :: "nat \<Rightarrow> 'a sched_state_scheme \<Rightarrow> 'a sched_state_scheme option" where
  "sched_start_round c s = (if task_count s = 0 then None else Some (schedule c s))"

section \<open>Round robin\<close>

lemma is_ready_iff: "is_ready i s \<longleftrightarrow> i < MAX_TASKS \<and> tstate (tasks s ! i) = TASK_READY"
  by (auto simp: is_ready_def task_get_def split: if_splits)

text \<open>How far task \<open>i\<close> is ahead of the task at \<open>start\<close>, going round.\<close>

definition ahead :: "nat \<Rightarrow> nat \<Rightarrow> nat" where
  "ahead start i = (i + MAX_TASKS - start mod MAX_TASKS - 1) mod MAX_TASKS"

lemma mod_32_once: "x < 64 \<Longrightarrow> x mod 32 = (if x < 32 then x else x - 32 :: nat)"
  by (simp add: mod_if)

lemma ahead_inverse:
  assumes "1 \<le> d" and "d \<le> MAX_TASKS"
  shows "ahead start ((start + d) mod MAX_TASKS) = d - 1"
proof -
  define r where "r = start mod 32"
  have r: "r < 32" "(start + d) mod 32 = (r + d) mod 32" by (simp_all add: r_def mod_add_left_eq)
  have "((r + d) mod 32 + 32 - r - 1) mod 32 = d - 1"
    using assms r(1) mod_32_once [of "r + d"] mod_32_once [of "31 + d"] by (cases "r + d < 32") (auto simp: MAX_TASKS_def)
  then show ?thesis by (simp add: ahead_def MAX_TASKS_def r(2) flip: r_def)
qed

lemma ahead_reach:
  assumes "i < MAX_TASKS"
  shows "(start + (ahead start i + 1)) mod MAX_TASKS = i" and "ahead start i < MAX_TASKS"
proof -
  define r where "r = start mod 32"
  have r: "r < 32" "(start + x) mod 32 = (r + x) mod 32" for x by (simp_all add: r_def mod_add_left_eq)
  have a: "ahead start i = (if r < i then i - r - 1 else i + 31 - r)"
    using assms r(1) mod_32_once [of "i + 32 - r - 1"] by (auto simp: ahead_def MAX_TASKS_def simp flip: r_def)
  then show "(start + (ahead start i + 1)) mod MAX_TASKS = i"
    using assms r(1) unfolding MAX_TASKS_def r(2) by auto
  show "ahead start i < MAX_TASKS" by (simp add: ahead_def MAX_TASKS_def)
qed

text \<open>Moving to a task on the way brings the tasks behind it nearer.\<close>

lemma ahead_advance:
  assumes "n < MAX_TASKS" and "T < MAX_TASKS" and "n \<noteq> T" and "ahead start n \<le> ahead start T"
  shows "ahead n T < ahead start T"
proof -
  define r where "r = start mod 32"
  have r: "r < 32" by (simp add: r_def)
  have a: "ahead start i = (if r < i then i - r - 1 else i + 31 - r)" if "i < MAX_TASKS" for i
    using that r mod_32_once [of "i + 32 - r - 1"] by (auto simp: ahead_def MAX_TASKS_def simp flip: r_def)
  have "ahead n T = (if n < T then T - n - 1 else T + 31 - n)"
    using assms(1,2) mod_32_once [of "T + 32 - n - 1"] by (auto simp: ahead_def MAX_TASKS_def)
  then show ?thesis
    using assms a [OF assms(1)] a [OF assms(2)] r by (auto simp: MAX_TASKS_def split: if_splits)
qed

lemma find_next_Some:
  assumes "find_next start s = Some n"
  shows "is_ready n s" and "is_ready i s \<Longrightarrow> ahead start n \<le> ahead start i"
proof -
  obtain d where d: "first_idx (\<lambda>i. is_ready ((start + i) mod MAX_TASKS) s) 1 (MAX_TASKS + 1) = Some d"
      "n = (start + d) mod MAX_TASKS"
    using assms by (auto simp: find_next_def split: option.splits)
  then have d': "1 \<le> d" "d \<le> MAX_TASKS" "is_ready ((start + d) mod MAX_TASKS) s"
    "\<forall>j. 1 \<le> j \<and> j < d \<longrightarrow> \<not> is_ready ((start + j) mod MAX_TASKS) s" by (auto simp: first_idx_Some)
  show "is_ready n s" using d' d by simp
  assume r: "is_ready i s"
  then have i: "i < MAX_TASKS" by (simp add: is_ready_iff)
  have "\<not> (1 \<le> ahead start i + 1 \<and> ahead start i + 1 < d)"
    using d'(4) r ahead_reach(1) [OF i, of start] by metis
  then show "ahead start n \<le> ahead start i" using ahead_inverse [OF d'(1,2), of start] d(2) by simp
qed

lemma find_next_None: "find_next start s = None \<longleftrightarrow> (\<forall>i. \<not> is_ready i s)"
proof
  assume "find_next start s = None"
  then have n: "\<forall>j. 1 \<le> j \<and> j < MAX_TASKS + 1 \<longrightarrow> \<not> is_ready ((start + j) mod MAX_TASKS) s"
    by (auto simp: find_next_def first_idx_None split: option.splits)
  show "\<forall>i. \<not> is_ready i s"
  proof (intro allI notI)
    fix i assume r: "is_ready i s"
    then have i: "i < MAX_TASKS" by (simp add: is_ready_iff)
    show False using n r ahead_reach [OF i, of start] by (metis add_less_mono1 le_add2)
  qed
next
  assume "\<forall>i. \<not> is_ready i s"
  then show "find_next start s = None"
    using find_next_Some(1) [of start s] by (cases "find_next start s") auto
qed

section \<open>One call of the scheduler\<close>

definition sched_ok :: "'a sched_state_scheme \<Rightarrow> bool" where
  "sched_ok s \<longleftrightarrow> length (tasks s) = MAX_TASKS \<and> length (percpu s) = MAX_CPUS \<and> length (regs s) = MAX_CPUS \<and>
     length (ttbr0 s) = MAX_CPUS \<and> (\<forall>c<MAX_CPUS. - 1 \<le> current_task_id (percpu s ! c) \<and>
       current_task_id (percpu s ! c) < int MAX_TASKS)"

text \<open>The state of the caller once \<open>schedule\<close> has put it back: a running task becomes ready.\<close>

abbreviation status :: "'a task_state_scheme \<Rightarrow> nat \<Rightarrow> task_status" where
  "status s i \<equiv> tstate (tasks s ! i)"

definition after_put_back :: "task_status \<Rightarrow> task_status" where
  "after_put_back st = (if st = TASK_RUNNING then TASK_READY else st)"

lemma put_back_simps:
  assumes "length (tasks s) = MAX_TASKS" and "cur < int MAX_TASKS"
  shows "snd (put_back cur s) =
    (if cur < 0 then s else upd_task (nat cur) (\<lambda>t. t\<lparr>tstate := after_put_back (tstate t)\<rparr>) s)"
    and "fst (put_back cur s) = (if cur < 0 then Idle_ctx else if status s (nat cur) = TASK_DEAD then Dead_ctx
       else Task_ctx (nat cur))"
proof -
  have "(tasks s ! nat cur)\<lparr>tstate := tstate (tasks s ! nat cur)\<rparr> = tasks s ! nat cur" by simp
  then have "upd_task (nat cur) (\<lambda>t. t\<lparr>tstate := after_put_back (tstate t)\<rparr>) s = s" if "status s (nat cur) \<noteq> TASK_RUNNING"
    using that by (simp add: upd_task_def after_put_back_def)
  then show "snd (put_back cur s) =
    (if cur < 0 then s else upd_task (nat cur) (\<lambda>t. t\<lparr>tstate := after_put_back (tstate t)\<rparr>) s)"
    using assms by (auto simp: put_back_def task_get_def after_put_back_def upd_task_def)
  show "fst (put_back cur s) = (if cur < 0 then Idle_ctx else if status s (nat cur) = TASK_DEAD then Dead_ctx
       else Task_ctx (nat cur))"
    using assms by (auto simp: put_back_def task_get_def)
qed

text \<open>
  What a call leaves behind: the task chosen (\<open>None\<close> for the idle loop), every status, every saved
  context, the registers.
\<close>

definition chosen :: "nat \<Rightarrow> 'a sched_state_scheme \<Rightarrow> nat option" where
  "chosen c s = (let cur = current_task_id (percpu s ! c) in find_next (if cur \<ge> 0 then nat cur else 0) s)"

definition scheduled :: "nat \<Rightarrow> 'a sched_state_scheme \<Rightarrow> 'a sched_state_scheme \<Rightarrow> bool" where
  "scheduled c s s' \<longleftrightarrow>
     (let cur = current_task_id (percpu s ! c); n = chosen c s; switch = (n \<noteq> None \<or> cur \<ge> 0) \<and> map_option int n \<noteq> Some cur
      in (\<forall>i<MAX_TASKS. status s' i = (if n = Some i then TASK_RUNNING
            else if int i = cur then after_put_back (status s i) else status s i)) \<and>
         (\<forall>d<MAX_CPUS. current_task_id (percpu s' ! d) =
            (if d = c then case n of Some i \<Rightarrow> int i | None \<Rightarrow> - 1 else current_task_id (percpu s ! d))) \<and>
         (\<forall>i<MAX_TASKS. ctx (tasks s' ! i) =
            (if switch \<and> int i = cur \<and> status s i \<noteq> TASK_DEAD then regs s ! c else ctx (tasks s ! i))) \<and>
         (\<forall>d<MAX_CPUS. regs s' ! d =
            (if d = c \<and> switch then case n of Some i \<Rightarrow> ctx (tasks s ! i) | None \<Rightarrow> idle_ctx (percpu s ! c)
             else regs s ! d)) \<and>
         (\<forall>d<MAX_CPUS. idle_ctx (percpu s' ! d) =
            (if d = c \<and> switch \<and> cur < 0 then regs s ! c else idle_ctx (percpu s ! d))) \<and>
         (\<forall>d<MAX_CPUS. ttbr0 s' ! d =
            (case n of Some i \<Rightarrow> if d = c \<and> switch \<and> task_ttbr (tasks s ! i) \<noteq> 0 then task_ttbr (tasks s ! i) else ttbr0 s ! d
             | None \<Rightarrow> ttbr0 s ! d)))"

lemma upd_task_sched [simp]:
  "regs (upd_task i f s) = regs s" "ttbr0 (upd_task i f s) = ttbr0 s"
  "regs (upd_cpu c g s) = regs s" "ttbr0 (upd_cpu c g s) = ttbr0 s"
  by (simp_all add: upd_task_def upd_cpu_def)

text \<open>The three ways through a call that changes something, as one state each.\<close>

definition old_ref :: "nat \<Rightarrow> 'a sched_state_scheme \<Rightarrow> ctx_ref" where
  "old_ref c s = (let cur = current_task_id (percpu s ! c) in
     if cur < 0 then Idle_ctx else if status s (nat cur) = TASK_DEAD then Dead_ctx else Task_ctx (nat cur))"

definition put_task :: "nat \<Rightarrow> 'a sched_state_scheme \<Rightarrow> 'a sched_state_scheme" where
  "put_task c s = (let cur = current_task_id (percpu s ! c) in
     if cur < 0 then s else upd_task (nat cur) (\<lambda>t. t\<lparr>tstate := after_put_back (tstate t)\<rparr>) s)"

lemma schedule_eq:
  assumes ok: "sched_ok s" and c: "c < MAX_CPUS"
  defines "cur \<equiv> current_task_id (percpu s ! c)"
  shows "schedule c s =
    (case chosen c s of
       None \<Rightarrow> if cur < 0 then s
               else context_switch c (old_ref c s) Idle_ctx 0 (upd_cpu c (\<lambda>p. p\<lparr>current_task_id := - 1\<rparr>) (put_task c s))
     | Some n \<Rightarrow> if int n = cur then upd_task n (\<lambda>t. t\<lparr>tstate := TASK_RUNNING\<rparr>) s
        else context_switch c (old_ref c s) (Task_ctx n) (task_ttbr (tasks s ! n))
          (upd_cpu c (\<lambda>p. p\<lparr>current_task_id := int n\<rparr>) (upd_task n (\<lambda>t. t\<lparr>tstate := TASK_RUNNING\<rparr>) (put_task c s))))"
proof -
  have len: "length (tasks s) = MAX_TASKS" and cur: "cur < int MAX_TASKS" using ok c by (auto simp: sched_ok_def cur_def)
  have pb: "put_back cur s = (old_ref c s, put_task c s)"
    using put_back_simps [OF len cur] by (simp add: old_ref_def put_task_def Let_def prod_eq_iff cur_def)
  show ?thesis
  proof (cases "chosen c s")
    case None
    then show ?thesis using pb by (simp add: schedule_def Let_def chosen_def put_task_def flip: cur_def)
  next
    case (Some n)
    then have n: "is_ready n s" unfolding chosen_def Let_def by (rule find_next_Some)
    then have st: "n < MAX_TASKS" "status s n = TASK_READY" by (simp_all add: is_ready_iff)
    show ?thesis
    proof (cases "int n = cur")
      case True
      have "(tasks s ! n)\<lparr>tstate := TASK_READY\<rparr> = tasks s ! n" using st(2) by simp
      then have "put_task c s = s"
        using True st by (auto simp: put_task_def Let_def upd_task_def after_put_back_def simp flip: cur_def)
      then show ?thesis
        using Some True pb st by (auto simp: schedule_def Let_def chosen_def task_get_def simp flip: cur_def)
    next
      case False
      have "tas (tasks (put_task c s) ! n) = tas (tasks s ! n)"
        using False st len by (auto simp: put_task_def Let_def nth_list_update simp flip: cur_def)
      moreover have "length (tasks (put_task c s)) = MAX_TASKS" using len by (simp add: put_task_def Let_def)
      ultimately show ?thesis
        using Some False pb st by (simp add: schedule_def Let_def chosen_def task_ttbr_def flip: cur_def)
    qed
  qed
qed

lemmas switch_simps = context_switch_def old_ref_def put_task_def Let_def nth_list_update

lemma schedule_scheduled:
  assumes ok: "sched_ok s" and c: "c < MAX_CPUS"
  shows "scheduled c s (schedule c s)"
proof -
  let ?cur = "current_task_id (percpu s ! c)"
  have len: "length (tasks s) = MAX_TASKS" "length (percpu s) = MAX_CPUS" "length (regs s) = MAX_CPUS" "length (ttbr0 s) = MAX_CPUS"
    and cur: "- 1 \<le> ?cur" "?cur < int MAX_TASKS" using ok c by (auto simp: sched_ok_def)
  show ?thesis
  proof (cases "chosen c s")
    case None
    show ?thesis
    proof (cases "?cur < 0")
      case True
      then show ?thesis using None schedule_eq [OF ok c] cur(1) by (auto simp: scheduled_def Let_def)
    next
      case False
      then have "schedule c s = context_switch c (old_ref c s) Idle_ctx 0 (upd_cpu c (\<lambda>p. p\<lparr>current_task_id := - 1\<rparr>) (put_task c s))"
        using None schedule_eq [OF ok c] by simp
      then show ?thesis
        using None False len cur c unfolding scheduled_def Let_def
        by (intro conjI allI impI) (auto simp: switch_simps)
    qed
  next
    case (Some n)
    then have "is_ready n s" unfolding chosen_def Let_def by (rule find_next_Some)
    then have st: "n < MAX_TASKS" "status s n = TASK_READY" by (simp_all add: is_ready_iff)
    show ?thesis
    proof (cases "int n = ?cur")
      case True
      then have "schedule c s = upd_task n (\<lambda>t. t\<lparr>tstate := TASK_RUNNING\<rparr>) s"
        using Some schedule_eq [OF ok c] by simp
      then show ?thesis
        using Some True len cur c st unfolding scheduled_def Let_def
        by (intro conjI allI impI) (auto simp: nth_list_update)
    next
      case False
      then have "schedule c s = context_switch c (old_ref c s) (Task_ctx n) (task_ttbr (tasks s ! n))
          (upd_cpu c (\<lambda>p. p\<lparr>current_task_id := int n\<rparr>) (upd_task n (\<lambda>t. t\<lparr>tstate := TASK_RUNNING\<rparr>) (put_task c s)))"
        using Some schedule_eq [OF ok c] by simp
      then show ?thesis
        using Some False len cur c st unfolding scheduled_def Let_def
        by (intro conjI allI impI) (auto simp: switch_simps)
    qed
  qed
qed

lemma scheduledD:
  assumes "sched_ok s" and "c < MAX_CPUS"
  shows "i < MAX_TASKS \<Longrightarrow> status (schedule c s) i = (if chosen c s = Some i then TASK_RUNNING
      else if int i = current_task_id (percpu s ! c) then after_put_back (status s i) else status s i)"
    and "d < MAX_CPUS \<Longrightarrow> current_task_id (percpu (schedule c s) ! d) =
      (if d = c then case chosen c s of Some i \<Rightarrow> int i | None \<Rightarrow> - 1 else current_task_id (percpu s ! d))"
    and "i < MAX_TASKS \<Longrightarrow> int i \<noteq> current_task_id (percpu s ! c) \<Longrightarrow> ctx (tasks (schedule c s) ! i) = ctx (tasks s ! i)"
    and "i < MAX_TASKS \<Longrightarrow> int i = current_task_id (percpu s ! c) \<Longrightarrow> status s i \<noteq> TASK_DEAD \<Longrightarrow> chosen c s \<noteq> Some i \<Longrightarrow>
      ctx (tasks (schedule c s) ! i) = regs s ! c"
    and "chosen c s = Some i \<Longrightarrow> int i \<noteq> current_task_id (percpu s ! c) \<Longrightarrow> regs (schedule c s) ! c = ctx (tasks s ! i)"
    and "chosen c s = Some i \<Longrightarrow> int i \<noteq> current_task_id (percpu s ! c) \<Longrightarrow> task_ttbr (tasks s ! i) \<noteq> 0 \<Longrightarrow>
      ttbr0 (schedule c s) ! c = task_ttbr (tasks s ! i)"
  using schedule_scheduled [OF assms] assms(2) unfolding scheduled_def Let_def by (auto split: option.splits)

lemma chosen_ready:
  assumes "chosen c s = Some n"
  shows "n < MAX_TASKS" and "status s n = TASK_READY"
  using find_next_Some(1) [of _ s n] assms by (auto simp: chosen_def Let_def is_ready_iff)

lemma upd_task_below [simp]:
  "mm_inv (s\<lparr>regs := x\<rparr>) = mm_inv s" "used_set (s\<lparr>regs := x\<rparr>) = used_set s"
  "asid_inv (s\<lparr>regs := x\<rparr>) = asid_inv s" "asid_used (s\<lparr>regs := x\<rparr>) = asid_used s"
  "mm_inv (s\<lparr>ttbr0 := y\<rparr>) = mm_inv s" "used_set (s\<lparr>ttbr0 := y\<rparr>) = used_set s"
  "asid_inv (s\<lparr>ttbr0 := y\<rparr>) = asid_inv s" "asid_used (s\<lparr>ttbr0 := y\<rparr>) = asid_used s"
  by (simp_all add: mm_inv_def used_set_def bitmap_test_def asid_inv_def asid_used_def asid_free_bit_def)

lemma write_ctx_frame [simp]:
  "mem (write_ctx c r x s) = mem s" "used_set (write_ctx c r x s) = used_set s" "mm_inv (write_ctx c r x s) = mm_inv s"
  "asid_used (write_ctx c r x s) = asid_used s" "asid_inv (write_ctx c r x s) = asid_inv s"
  "num_tasks (write_ctx c r x s) = num_tasks s" "length (tasks (write_ctx c r x s)) = length (tasks s)"
  "length (percpu (write_ctx c r x s)) = length (percpu s)" "regs (write_ctx c r x s) = regs s" "ttbr0 (write_ctx c r x s) = ttbr0 s"
  by (cases r; simp)+

lemma put_task_frame [simp]:
  "mem (put_task c s) = mem s" "used_set (put_task c s) = used_set s" "mm_inv (put_task c s) = mm_inv s"
  "asid_used (put_task c s) = asid_used s" "asid_inv (put_task c s) = asid_inv s"
  "num_tasks (put_task c s) = num_tasks s" "length (tasks (put_task c s)) = length (tasks s)"
  "percpu (put_task c s) = percpu s" "regs (put_task c s) = regs s" "ttbr0 (put_task c s) = ttbr0 s"
  by (simp_all add: put_task_def Let_def)

lemma schedule_frame:
  assumes "sched_ok s" and "c < MAX_CPUS"
  shows "mem (schedule c s) = mem s" "used_set (schedule c s) = used_set s" "mm_inv (schedule c s) = mm_inv s"
    "asid_used (schedule c s) = asid_used s" "asid_inv (schedule c s) = asid_inv s"
    "num_tasks (schedule c s) = num_tasks s" "length (tasks (schedule c s)) = length (tasks s)"
    "length (percpu (schedule c s)) = length (percpu s)" "length (regs (schedule c s)) = length (regs s)"
    "length (ttbr0 (schedule c s)) = length (ttbr0 s)"
  unfolding schedule_eq [OF assms] by (simp_all add: context_switch_def Let_def split: option.split)

lemma upd_task_keeps:
  "(\<And>t. g (f t) = g t) \<Longrightarrow> g (tasks (upd_task j f s) ! i) = g (tasks s ! i)"
  by (cases "i = j \<and> j < length (tasks s)") (auto simp: nth_list_update list_update_beyond)

lemma schedule_keeps_resources:
  assumes "sched_ok s" and "c < MAX_CPUS"
  shows "tas (tasks (schedule c s) ! i) = tas (tasks s ! i)" "stack_base (tasks (schedule c s) ! i) = stack_base (tasks s ! i)"
    "cap_table (tasks (schedule c s) ! i) = cap_table (tasks s ! i)" "num_caps (tasks (schedule c s) ! i) = num_caps (tasks s ! i)"
proof -
  have keep: "g (tasks (schedule c s) ! i) = g (tasks s ! i)"
    if "\<And>t st. g (t\<lparr>tstate := st\<rparr>) = g t" "\<And>t x. g (t\<lparr>ctx := x\<rparr>) = g t" for g :: "task \<Rightarrow> 'b"
  proof -
    have w: "g (tasks (write_ctx c r x t) ! i) = g (tasks t ! i)" for r x and t :: "'a sched_state_scheme"
      by (cases r) (simp_all add: upd_task_keeps [of g] that del: upd_task_fields(1))
    have p: "g (tasks (put_task c s) ! i) = g (tasks s ! i)"
      by (simp add: put_task_def Let_def upd_task_keeps [of g] that del: upd_task_fields(1))
    have u: "g (tasks (upd_task n (\<lambda>t. t\<lparr>tstate := TASK_RUNNING\<rparr>) t) ! i) = g (tasks t ! i)" for n and t :: "'a sched_state_scheme"
      by (rule upd_task_keeps) (rule that)
    show ?thesis
      unfolding schedule_eq [OF assms] by (simp add: context_switch_def Let_def w p u del: upd_task_fields(1) split: option.split)
  qed
  show "tas (tasks (schedule c s) ! i) = tas (tasks s ! i)" "stack_base (tasks (schedule c s) ! i) = stack_base (tasks s ! i)"
    "cap_table (tasks (schedule c s) ! i) = cap_table (tasks s ! i)" "num_caps (tasks (schedule c s) ! i) = num_caps (tasks s ! i)"
    by (rule keep; simp)+
qed

lemma sched_ok_schedule:
  assumes "sched_ok s" and "c < MAX_CPUS"
  shows "sched_ok (schedule c s)"
proof -
  have "- 1 \<le> current_task_id (percpu (schedule c s) ! d) \<and> current_task_id (percpu (schedule c s) ! d) < int MAX_TASKS"
    if "d < MAX_CPUS" for d
    using scheduledD(2) [OF assms that] assms(1) that chosen_ready(1) [of c s]
    by (auto simp: sched_ok_def MAX_TASKS_def split: option.split)
  then show ?thesis using assms(1) by (simp add: sched_ok_def schedule_frame [OF assms])
qed

lemma sys_inv_schedule:
  assumes "sys_inv L kow k R s" and "sched_ok s" and "c < MAX_CPUS"
  shows "sys_inv L kow k R (schedule c s)"
proof -
  note I = sys_invD [OF assms(1)] and F = schedule_frame [OF assms(2,3)] and K = schedule_keeps_resources [OF assms(2,3)]
  have "status (schedule c s) j = TASK_DEAD \<longleftrightarrow> status s j = TASK_DEAD" if "j < MAX_TASKS" for j
    using scheduledD(1) [OF assms(2,3) that] chosen_ready(2) [of c s j] by (auto simp: after_put_back_def)
  then show ?thesis
    using I K F by (intro sys_inv_step [OF assms(1)]) (auto intro: keeps_pages_mem)
qed

section \<open>Exclusive use of a task\<close>

abbreviation cur_of :: "'a task_state_scheme \<Rightarrow> nat \<Rightarrow> int" where
  "cur_of s c \<equiv> current_task_id (percpu s ! c)"

definition exclusive :: "'a task_state_scheme \<Rightarrow> bool" where
  "exclusive s \<longleftrightarrow> (\<forall>c<MAX_CPUS. \<forall>d<MAX_CPUS. c \<noteq> d \<and> cur_of s c = cur_of s d \<longrightarrow> cur_of s c = - 1) \<and>
     (\<forall>i<MAX_TASKS. status s i = TASK_RUNNING \<longrightarrow> (\<exists>c<MAX_CPUS. cur_of s c = int i))"

text \<open>No CPU other than \<open>c\<close> still runs on behalf of a task that is already marked ready.\<close>

definition none_ready_elsewhere :: "nat \<Rightarrow> 'a task_state_scheme \<Rightarrow> bool" where
  "none_ready_elsewhere c s \<longleftrightarrow> (\<forall>d<MAX_CPUS. \<forall>i<MAX_TASKS. d \<noteq> c \<and> cur_of s d = int i \<longrightarrow> status s i \<noteq> TASK_READY)"

lemma exclusiveD:
  "exclusive s \<Longrightarrow> c < MAX_CPUS \<Longrightarrow> d < MAX_CPUS \<Longrightarrow> c \<noteq> d \<Longrightarrow> cur_of s c = cur_of s d \<Longrightarrow> cur_of s c = - 1"
  unfolding exclusive_def by blast

lemma exclusive_schedule:
  assumes ok: "sched_ok s" "c < MAX_CPUS" and ex: "exclusive s" and nr: "none_ready_elsewhere c s"
  shows "exclusive (schedule c s)" and "none_ready_elsewhere d (schedule c s)"
proof -
  note S = scheduledD(1,2) [OF ok]
  have new: "cur_of s d \<noteq> int n" if "chosen c s = Some n" "d < MAX_CPUS" "d \<noteq> c" for d n
    using chosen_ready [OF that(1)] that nr unfolding none_ready_elsewhere_def by blast
  have two: "cur_of (schedule c s) d = - 1"
    if h: "d < MAX_CPUS" "e < MAX_CPUS" "d \<noteq> e" "cur_of (schedule c s) d = cur_of (schedule c s) e" for d e
  proof -
    consider "d = c" "e \<noteq> c" | "e = c" "d \<noteq> c" | "d \<noteq> c" "e \<noteq> c" using h(3) by blast
    then show ?thesis
    proof cases
      case 1 then show ?thesis using h S(2) [of d] S(2) [of e] new by (cases "chosen c s") auto
    next
      case 2 then show ?thesis using h S(2) [of d] S(2) [of e] new [of _ d] by (cases "chosen c s") auto
    next
      case 3
      then show ?thesis using h S(2) [of d] S(2) [of e] ex unfolding exclusive_def by simp
    qed
  qed
  have run: "\<exists>d<MAX_CPUS. cur_of (schedule c s) d = int i" if i: "i < MAX_TASKS" "status (schedule c s) i = TASK_RUNNING" for i
  proof (cases "chosen c s = Some i")
    case True
    then show ?thesis using ok(2) S(2) [OF ok(2)] by auto
  next
    case False
    then have r: "status s i = TASK_RUNNING" "int i \<noteq> cur_of s c"
      using i S(1) [OF i(1)] by (auto simp: after_put_back_def split: if_splits)
    obtain d where d: "d < MAX_CPUS" "cur_of s d = int i" using ex r(1) i(1) unfolding exclusive_def by blast
    then have "d \<noteq> c" using r(2) by auto
    then show ?thesis using d S(2) [OF d(1)] by auto
  qed
  show "exclusive (schedule c s)" unfolding exclusive_def using two run by blast
  have "status (schedule c s) i \<noteq> TASK_READY" if h: "e < MAX_CPUS" "i < MAX_TASKS" "cur_of (schedule c s) e = int i" for e i
  proof (cases "chosen c s = Some i")
    case True
    then show ?thesis using S(1) [OF h(2)] by simp
  next
    case False
    then have e: "e \<noteq> c" "cur_of s e = int i" using h S(2) [OF h(1)] by (auto split: if_splits option.splits)
    then have "int i \<noteq> cur_of s c" using exclusiveD [OF ex h(1) ok(2)] by auto
    then show ?thesis using S(1) [OF h(2)] False nr e h unfolding none_ready_elsewhere_def by simp
  qed
  then show "none_ready_elsewhere d (schedule c s)" unfolding none_ready_elsewhere_def by blast
qed

section \<open>Concrete machines\<close>

definition sched_machine :: sched_state where
  "sched_machine = task_state.extend blank_machine
     \<lparr>regs = replicate 4 blank_context, ttbr0 = replicate 4 0, scheduler_running = 0\<rparr>"

definition sched_boot :: sched_state where
  "sched_boot = boot_tasks sched_machine"

lemma sched_machine_ok: "blank_ok sched_machine"
  using blank_machine_ok by (simp add: blank_ok_def sched_machine_def task_state.defs)

lemmas sched_boot_spec = boot_tasks_spec [OF sched_machine_ok, folded sched_boot_def]

lemma more_regs: "task_state.more s' = task_state.more s \<Longrightarrow> regs s' = regs s \<and> ttbr0 s' = ttbr0 s"
  by (cases s, cases s') simp

lemma sched_boot_ok: "sched_ok sched_boot" "c < MAX_CPUS \<Longrightarrow> cur_of sched_boot c = - 1"
proof -
  have "regs sched_boot = regs sched_machine" "ttbr0 sched_boot = ttbr0 sched_machine"
    using more_regs [OF sched_boot_spec(5)] by simp_all
  then show "sched_ok sched_boot"
    using sched_boot_spec(2) by (auto simp: sched_ok_def started_def sched_machine_def task_state.defs MAX_CPUS_def MAX_TASKS_def)
  show "c < MAX_CPUS \<Longrightarrow> cur_of sched_boot c = - 1" using sched_boot_spec(2) by (simp add: started_def)
qed

text \<open>A machine with given current tasks and statuses, the others being blocked.\<close>

definition machine_with :: "int list \<Rightarrow> (nat \<Rightarrow> task_status) \<Rightarrow> sched_state" where
  "machine_with curs st = sched_boot
     \<lparr>tasks := map (\<lambda>i. (tasks sched_boot ! i)\<lparr>tstate := st i\<rparr>) [0..<MAX_TASKS],
      percpu := map (\<lambda>c. (percpu sched_boot ! c)\<lparr>current_task_id := curs ! c\<rparr>) [0..<MAX_CPUS]\<rparr>"

lemma machine_with_simps [simp]:
  "i < MAX_TASKS \<Longrightarrow> status (machine_with curs st) i = st i"
  "c < MAX_CPUS \<Longrightarrow> cur_of (machine_with curs st) c = curs ! c"
  by (simp_all add: machine_with_def)

lemma machine_with_ok:
  "list_all (\<lambda>i. - 1 \<le> i \<and> i < 32) curs \<Longrightarrow> length curs = 4 \<Longrightarrow> sched_ok (machine_with curs st)"
  using sched_boot_ok(1) by (auto simp: sched_ok_def machine_with_def list_all_length MAX_CPUS_def MAX_TASKS_def)

text \<open>A call that does not take a ready task brings it nearer.\<close>

definition start_of :: "nat \<Rightarrow> 'a task_state_scheme \<Rightarrow> nat" where
  "start_of c s = nat (max 0 (cur_of s c))"

lemma chosen_start: "chosen c s = find_next (start_of c s) s"
  by (auto simp: chosen_def Let_def start_of_def max_def)

lemma schedule_turn:
  assumes "sched_ok s" and "c < MAX_CPUS" and r: "is_ready T s" and ne: "cur_of (schedule c s) c \<noteq> int T"
  shows "ahead (start_of c (schedule c s)) T < ahead (start_of c s) T"
proof -
  obtain n where n: "find_next (start_of c s) s = Some n"
    using r find_next_None [of "start_of c s" s] by (cases "find_next (start_of c s) s") auto
  then have c': "cur_of (schedule c s) c = int n"
    using scheduledD(2) [OF assms(1,2,2)] by (simp add: chosen_start)
  have "n \<noteq> T" "start_of c (schedule c s) = n" using ne c' by (auto simp: start_of_def)
  moreover have "ahead (start_of c s) n \<le> ahead (start_of c s) T" by (rule find_next_Some(2) [OF n r])
  ultimately show ?thesis
    using ahead_advance find_next_Some(1) [OF n] r by (auto simp: is_ready_iff)
qed

section \<open>Properties\<close>

text \<open>
  C4. \<open>schedule\<close> is round robin: among the tasks that are ready it takes the one nearest after the
  caller in circular order, marks it running and makes it the CPU's current task, and goes to
  the idle loop exactly when no task is ready. The caller, if it was still running, is ready
  again; no other task changes its status, and no other CPU its current task.
\<close>

theorem schedule_round_robin:
  assumes "sched_ok s" and "c < MAX_CPUS"
  defines "start \<equiv> nat (max 0 (cur_of s c))" and "s' \<equiv> schedule c s"
  shows "(if \<exists>i. is_ready i s
      then \<exists>n<MAX_TASKS. is_ready n s \<and> (\<forall>i. is_ready i s \<longrightarrow> ahead start n \<le> ahead start i) \<and>
        cur_of s' c = int n \<and> status s' n = TASK_RUNNING
      else cur_of s' c = - 1) \<and>
    (\<forall>i<MAX_TASKS. int i \<noteq> cur_of s' c \<longrightarrow> status s' i =
       (if int i = cur_of s c \<and> status s i = TASK_RUNNING then TASK_READY else status s i)) \<and>
    (\<forall>d<MAX_CPUS. d \<noteq> c \<longrightarrow> cur_of s' d = cur_of s d)"
proof -
  note S = scheduledD(1,2) [OF assms(1,2)]
  have start: "chosen c s = find_next start s" by (auto simp: chosen_def Let_def start_def max_def)
  show ?thesis
  proof (cases "chosen c s")
    case None
    then have "\<forall>i. \<not> is_ready i s" using find_next_None [of start s] start by simp
    then show ?thesis using None S assms(2) by (auto simp: s'_def after_put_back_def)
  next
    case (Some n)
    then have n: "is_ready n s" "\<And>i. is_ready i s \<Longrightarrow> ahead start n \<le> ahead start i" "n < MAX_TASKS"
      using find_next_Some [of start s n] start by (auto simp: is_ready_iff)
    have c': "cur_of s' c = int n" "status s' n = TASK_RUNNING"
      using Some S(2) [OF assms(2)] S(1) [OF n(3)] by (simp_all add: s'_def)
    then show ?thesis using n Some S by (auto simp: s'_def after_put_back_def)
  qed
qed

theorem schedule_round_robin_witness:
  "cur_of (schedule 0 (machine_with [1, - 1, - 1, - 1] ((\<lambda>_. TASK_BLOCKED)(0 := TASK_READY, 1 := TASK_RUNNING, 5 := TASK_READY)))) 0 = 5"
proof -
  let ?m = "machine_with [1, - 1, - 1, - 1] ((\<lambda>_. TASK_BLOCKED)(0 := TASK_READY, 1 := TASK_RUNNING, 5 := TASK_READY))"
  have ok: "sched_ok ?m" by (rule machine_with_ok) simp_all
  have c: "0 < MAX_CPUS" "cur_of ?m 0 = 1" by (simp_all add: MAX_CPUS_def)
  have r: "is_ready i ?m \<longleftrightarrow> i = 0 \<or> i = 5" for i
    by (cases "i < MAX_TASKS") (auto simp: is_ready_iff MAX_TASKS_def split: if_splits)
  have "\<exists>i. is_ready i ?m" using r by blast
  then obtain n where n: "is_ready n ?m" "\<forall>i. is_ready i ?m \<longrightarrow> ahead 1 n \<le> ahead 1 i" "cur_of (schedule 0 ?m) 0 = int n"
    using schedule_round_robin [OF ok c(1)] c(2) by auto
  have "ahead 1 0 = 30" "ahead 1 5 = 3" by (simp_all add: ahead_def MAX_TASKS_def)
  then show ?thesis using n(1,3) n(2) [rule_format, of 5] r by auto
qed

text \<open>
  C5. No ready task starves: on a CPU that keeps calling \<open>schedule\<close>, whatever happens between
  the calls, a task that is ready at each of 32 consecutive calls is run by one of them.
\<close>

theorem schedule_no_starvation:
  assumes "\<forall>k. sched_ok (\<sigma> k)" and "c < MAX_CPUS"
    and "\<forall>k. cur_of (\<sigma> (Suc k)) c = cur_of (schedule c (\<sigma> k)) c"
    and "\<forall>k<32. is_ready T (\<sigma> k)"
  shows "\<exists>k<32. cur_of (schedule c (\<sigma> k)) c = int T"
proof (rule ccontr)
  assume "\<not> ?thesis"
  then have never: "cur_of (schedule c (\<sigma> k)) c \<noteq> int T" if "k < 32" for k using that by blast
  have T: "T < MAX_TASKS" using spec [OF assms(4), of 0] by (simp add: is_ready_iff)
  have "ahead (start_of c (\<sigma> k)) T + k < 32" if "k \<le> 32" for k
    using that
  proof (induction k)
    case 0
    then show ?case using ahead_reach(2) [OF T, of "start_of c (\<sigma> 0)"] by (simp add: MAX_TASKS_def)
  next
    case (Suc k)
    have "ahead (start_of c (schedule c (\<sigma> k))) T < ahead (start_of c (\<sigma> k)) T"
      by (rule schedule_turn) (use assms Suc.prems never [of k] in auto)
    moreover have "start_of c (\<sigma> (Suc k)) = start_of c (schedule c (\<sigma> k))" using assms(3) by (simp add: start_of_def)
    ultimately show ?case using Suc by simp
  qed
  from this [of 32] show False by simp
qed

theorem schedule_no_starvation_witness:
  "\<exists>k<32::nat. cur_of (schedule 0 (machine_with [1, - 1, - 1, - 1] ((\<lambda>_. TASK_BLOCKED)(1 := TASK_READY)))) 0 = int 1"
proof -
  let ?m = "machine_with [1, - 1, - 1, - 1] ((\<lambda>_. TASK_BLOCKED)(1 := TASK_READY))"
  have ok: "sched_ok ?m" by (rule machine_with_ok) simp_all
  have c: "0 < MAX_CPUS" "cur_of ?m 0 = 1" by (simp_all add: MAX_CPUS_def)
  have r: "is_ready i ?m \<longleftrightarrow> i = 1" for i
    by (cases "i < MAX_TASKS") (auto simp: is_ready_iff MAX_TASKS_def split: if_splits)
  have "chosen 0 ?m = Some 1"
    using find_next_None [of "start_of 0 ?m" ?m] find_next_Some(1) [of "start_of 0 ?m" ?m] r
    by (cases "find_next (start_of 0 ?m) ?m") (auto simp: chosen_start)
  then have "cur_of (schedule 0 ?m) 0 = cur_of ?m 0" using scheduledD(2) [OF ok c(1,1)] c(2) by simp
  then show ?thesis
    using schedule_no_starvation [where \<sigma> = "\<lambda>_. ?m" and c = 0 and T = 1] ok c(1) r by metis
qed

text \<open>
  Two CPUs never run the same task, as far as \<open>schedule\<close> is concerned: if no two CPUs share a
  current task, every running task is some CPU's current task, and no other CPU is still
  executing on behalf of a task already marked ready, then a call of \<open>schedule\<close> on any CPU
  preserves all of this, so any sequence of calls does.
\<close>

theorem schedule_exclusive:
  assumes "sched_ok s" and "exclusive s" and "\<forall>d<MAX_CPUS. none_ready_elsewhere d s" and "\<forall>c\<in>set cs. c < MAX_CPUS"
  shows "sched_ok (fold schedule cs s) \<and> exclusive (fold schedule cs s) \<and>
     (\<forall>d<MAX_CPUS. none_ready_elsewhere d (fold schedule cs s))"
  using assms
proof (induction cs arbitrary: s)
  case (Cons c cs)
  then have c: "c < MAX_CPUS" by simp
  have "none_ready_elsewhere c s" using Cons.prems(3) c by blast
  note step = exclusive_schedule [OF Cons.prems(1) c Cons.prems(2) this]
  have "\<forall>d<MAX_CPUS. none_ready_elsewhere d (schedule c s)" using step(2) by blast
  from Cons.IH [OF sched_ok_schedule [OF Cons.prems(1) c] step(1) this] Cons.prems(4) show ?case by simp
qed simp

theorem schedule_exclusive_witness:
  "exclusive (fold schedule [0, 2, 0, 3] (machine_with [1, - 1, 2, - 1]
     ((\<lambda>_. TASK_READY)(1 := TASK_RUNNING, 2 := TASK_RUNNING))))"
proof -
  let ?m = "machine_with [1, - 1, 2, - 1] ((\<lambda>_. TASK_READY)(1 := TASK_RUNNING, 2 := TASK_RUNNING))"
  have m: "cur_of ?m c = (if c = 0 then 1 else if c = 2 then 2 else - 1)" if "c < MAX_CPUS" for c
    using that by (auto simp: MAX_CPUS_def less_Suc_eq numeral_eq_Suc)
  have two: "0 < MAX_CPUS" "2 < MAX_CPUS" by (simp_all add: MAX_CPUS_def)
  have ok: "sched_ok ?m" by (rule machine_with_ok) simp_all
  have st: "status ?m i = ((\<lambda>_. TASK_READY)(1 := TASK_RUNNING, 2 := TASK_RUNNING)) i" if "i < MAX_TASKS" for i
    by (rule machine_with_simps(1) [OF that])
  have "cur_of ?m c = - 1" if "c < MAX_CPUS" "d < MAX_CPUS" "c \<noteq> d" "cur_of ?m c = cur_of ?m d" for c d
    using that m [of c] m [of d] by (auto split: if_splits)
  moreover have "\<exists>c<MAX_CPUS. cur_of ?m c = int i" if "i < MAX_TASKS" "status ?m i = TASK_RUNNING" for i
  proof -
    have "cur_of ?m 0 = int 1" "cur_of ?m 2 = int 2" using m [OF two(1)] m [OF two(2)] by simp_all
    moreover have "i = 1 \<or> i = 2" using that st [OF that(1)] by (auto split: if_splits)
    ultimately show ?thesis using two by blast
  qed
  ultimately have "exclusive ?m" unfolding exclusive_def by blast
  moreover have "status ?m i \<noteq> TASK_READY" if "e < MAX_CPUS" "i < MAX_TASKS" "cur_of ?m e = int i" for e i
    using m [OF that(1)] that(3) st [OF that(2)] by (auto split: if_splits)
  then have "\<forall>d<MAX_CPUS. none_ready_elsewhere d ?m" unfolding none_ready_elsewhere_def by blast
  ultimately show ?thesis using schedule_exclusive [OF ok, of "[0, 2, 0, 3]"] by (simp add: MAX_CPUS_def)
qed



text \<open>
  A task finds its registers again: when \<open>schedule\<close> switches away from a task, then, however
  many calls of \<open>schedule\<close> on whichever CPUs follow, as long as the task is nowhere current,
  the call that takes it again loads exactly the registers it had when it was switched away
  from, on whichever CPU that is.
\<close>

theorem context_switch_roundtrip:
  assumes "sched_ok s" and "c < MAX_CPUS" and "cur_of s c = int T" and "status s T \<noteq> TASK_DEAD"
    and "chosen c s \<noteq> Some T" and "\<forall>c\<in>set cs. c < MAX_CPUS" and "d < MAX_CPUS"
    and "\<forall>k\<le>length cs. \<forall>e<MAX_CPUS. cur_of (fold schedule (take k cs) (schedule c s)) e \<noteq> int T"
    and "chosen d (fold schedule cs (schedule c s)) = Some T"
  shows "regs (schedule d (fold schedule cs (schedule c s))) ! d = regs s ! c"
proof -
  have T: "T < MAX_TASKS" using assms(1,2,3) by (auto simp: sched_ok_def)
  have kept: "sched_ok (fold schedule (take k cs) (schedule c s)) \<and>
     ctx (tasks (fold schedule (take k cs) (schedule c s)) ! T) = regs s ! c" if "k \<le> length cs" for k
    using that
  proof (induction k)
    case 0
    then show ?case
      using scheduledD(4) [OF assms(1,2) T _ assms(4,5)] assms(3) sched_ok_schedule [OF assms(1,2)] by simp
  next
    case (Suc k)
    let ?s = "fold schedule (take k cs) (schedule c s)"
    have c: "cs ! k < MAX_CPUS" using Suc.prems assms(6) by simp
    have "fold schedule (take (Suc k) cs) (schedule c s) = schedule (cs ! k) ?s"
      using Suc.prems by (simp add: take_Suc_conv_app_nth)
    moreover have "int T \<noteq> cur_of ?s (cs ! k)" using assms(8) Suc.prems c by (metis Suc_leD)
    ultimately show ?case
      using Suc sched_ok_schedule [OF _ c, of ?s] scheduledD(3) [OF _ c T, of ?s] by simp
  qed
  let ?s = "fold schedule cs (schedule c s)"
  have "sched_ok ?s" "ctx (tasks ?s ! T) = regs s ! c" using kept [of "length cs"] by simp_all
  moreover have "int T \<noteq> cur_of ?s d" using assms(7,8) by (metis order_refl take_all)
  ultimately show ?thesis using scheduledD(5) [OF _ assms(7,9)] by simp
qed

theorem context_switch_roundtrip_witness:
  "let m = machine_with [1, - 1, - 1, - 1] ((\<lambda>_. TASK_BLOCKED)(1 := TASK_RUNNING))
   in regs (schedule 2 (schedule 0 m)) ! 2 = regs m ! 0"
proof -
  let ?m = "machine_with [1, - 1, - 1, - 1] ((\<lambda>_. TASK_BLOCKED)(1 := TASK_RUNNING))"
  have ok: "sched_ok ?m" by (rule machine_with_ok) simp_all
  have c: "0 < MAX_CPUS" "2 < MAX_CPUS" by (simp_all add: MAX_CPUS_def)
  have m: "cur_of ?m 0 = int 1" "status ?m 1 \<noteq> TASK_DEAD" by (simp_all add: MAX_CPUS_def MAX_TASKS_def)
  have "\<not> is_ready i ?m" for i
    by (cases "i < MAX_TASKS") (auto simp: is_ready_iff MAX_TASKS_def split: if_splits)
  then have n: "chosen 0 ?m = None" by (simp add: chosen_start find_next_None)
  have cur: "cur_of (schedule 0 ?m) e = - 1" if "e < MAX_CPUS" for e
    using scheduledD(2) [OF ok c(1) that] n that by (auto simp: MAX_CPUS_def less_Suc_eq numeral_eq_Suc)
  have st: "status (schedule 0 ?m) i = (if i = 1 then TASK_READY else TASK_BLOCKED)" if "i < MAX_TASKS" for i
    using scheduledD(1) [OF ok c(1) that] n m that by (auto simp: after_put_back_def)
  have r: "is_ready i (schedule 0 ?m) \<longleftrightarrow> i = 1" for i
    unfolding is_ready_iff using st [of i] by (auto simp: MAX_TASKS_def split: if_splits)
  have "chosen 2 (schedule 0 ?m) = Some 1"
    using find_next_None [of "start_of 2 (schedule 0 ?m)"] find_next_Some(1) [of "start_of 2 (schedule 0 ?m)"] r
    by (cases "find_next (start_of 2 (schedule 0 ?m)) (schedule 0 ?m)") (auto simp: chosen_start)
  then show ?thesis
    using context_switch_roundtrip [OF ok c(1) m _ _ c(2), of "[]"] n cur by simp
qed

text \<open>
  A task runs in its own address space: when \<open>schedule\<close> switches to a task of a system whose
  tasks are isolated, the base register of that CPU then holds the task's own top-level
  table in its address field and the task's ASID in its ASID field; the system stays
  isolated.
\<close>

theorem schedule_address_space:
  assumes "sys_inv L kow k R s" and "sched_ok s" and "c < MAX_CPUS"
    and "chosen c s = Some n" and "cur_of s c \<noteq> int n"
  shows "take_bit 48 (ttbr0 (schedule c s) ! c) = page_addr (res_root (R n)) \<and>
     drop_bit 48 (ttbr0 (schedule c s) ! c) = ucast (asid (tas (tasks (schedule c s) ! n))) \<and>
     sys_inv L kow k R (schedule c s)"
proof -
  note I = sys_invD [OF assms(1)] and F = schedule_frame [OF assms(2,3)] and K = schedule_keeps_resources [OF assms(2,3)]
  have n: "live s n" using chosen_ready [OF assms(4)] by simp
  have inv: "pt_inv (res_tables (R n)) (res_root (R n)) s" using I(6) [OF n] by (simp add: task_owns_def)
  have p: "pgd (tas (tasks s ! n)) = page_addr (res_root (R n))" "res_root (R n) < MAX_PAGES"
    using I(6) [OF n] pt_invD(3) [OF inv pt_invD(1) [OF inv]] by (simp_all add: task_owns_def)
  then have ttbr: "task_ttbr (tasks s ! n) = page_addr (res_root (R n)) OR push_bit 48 (ucast (asid (tas (tasks s ! n))))"
    by (simp add: task_ttbr_def)
  have 48: "take_bit 48 (page_addr (res_root (R n))) = page_addr (res_root (R n))" using p(2) by simp
  have low: "bit (page_addr (res_root (R n))) j \<Longrightarrow> j < 48" for j using only_low_bits [OF 48] by blast
  then have "\<not> bit (page_addr (res_root (R n))) (48 + j)" for j using low [of "48 + j"] by auto
  moreover have "bit (asid (tas (tasks s ! n))) j \<Longrightarrow> j < 16" for j
    using bit_imp_le_length [of "asid (tas (tasks s ! n))" j] by simp
  ultimately have fields: "take_bit 48 (task_ttbr (tasks s ! n)) = page_addr (res_root (R n))"
    "drop_bit 48 (task_ttbr (tasks s ! n)) = ucast (asid (tas (tasks s ! n)))"
    unfolding ttbr using low by (auto intro!: bit_word_eqI simp: bit_simps)
  then have "task_ttbr (tasks s ! n) \<noteq> 0" using p(2) by auto
  then have reg: "ttbr0 (schedule c s) ! c = task_ttbr (tasks s ! n)"
    using scheduledD(6) [OF assms(2,3,4)] assms(5) by auto
  then show ?thesis using reg fields K(1) sys_inv_schedule [OF assms(1-3)] by simp
qed

theorem schedule_address_space_witness:
  "\<exists>root s. task_create sample_layout 0x40080800 ''shell'' 0x40081000 sched_boot = (0, s) \<and>
     pgd (tas (tasks s ! 0)) = page_addr root \<and> take_bit 48 (ttbr0 (schedule 1 s) ! 1) = page_addr root"
proof -
  obtain root n b s where c: "task_create sample_layout 0x40080800 ''shell'' 0x40081000 sched_boot = (0, s)"
    "create_done sample_layout (kernel_labels 144 145 146 147) 144 0x40080800 ''shell'' 0x40081000 0 root n b sched_boot s"
    using first_create [OF sched_machine_ok, folded sched_boot_def] by metis
  let ?R = "(undefined :: nat \<Rightarrow> task_res)(0 := Res (task_tree (kernel_labels 144 145 146 147) 144 root) root b)"
  have inv: "sys_inv sample_layout (kernel_labels 144 145 146 147) 144 ?R s"
    by (rule sys_inv_create_done [OF sched_boot_spec(1) c(2)])
  have d: "tasks s = (tasks sched_boot)[0 := created_task 0x40080800 ''shell'' 0x40081000 root n b (tasks sched_boot ! 0)]"
    "percpu s = percpu sched_boot" "task_state.more s = task_state.more sched_boot"
    using c(2) by (simp_all add: create_done_def)
  have z: "0 < MAX_TASKS" "1 < MAX_CPUS" by (simp_all add: MAX_TASKS_def MAX_CPUS_def)
  have ok: "sched_ok s" using sched_boot_ok(1) d more_regs [OF d(3)] by (simp add: sched_ok_def)
  have t: "tasks s ! 0 = created_task 0x40080800 ''shell'' 0x40081000 root n b (tasks sched_boot ! 0)"
    using d(1) z(1) sys_invD(4) [OF sched_boot_spec(1)] by simp
  have "is_ready i s \<longleftrightarrow> i = 0" for i
    using sched_boot_spec(2) d(1) t z by (cases "i = 0") (auto simp: is_ready_iff started_def created_task_def)
  then have "chosen 1 s = Some 0"
    using find_next_None [of "start_of 1 s" s] find_next_Some(1) [of "start_of 1 s" s]
    by (cases "find_next (start_of 1 s) s") (auto simp: chosen_start)
  then show ?thesis
    using schedule_address_space [OF inv ok z(2)] sched_boot_ok(2) [OF z(2)] d(2) c(1) t by (auto simp: created_task_def)
qed

end
