(* ===== verification/Waitqueue.thy ===== *)
theory Waitqueue
  imports Sched
begin

text \<open>
  Wait queues (\<^verbatim>\<open>kernel/waitqueue.c\<close>) and sleeping (\<^verbatim>\<open>kernel/sleep.c\<close>): queues of blocked tasks
  as linked lists through a static pool of 64 entries, with timeouts checked on every timer
  tick. The queue objects of the kernel are named by \<open>wq_ref\<close>. The loops that follow links
  would not end on a cyclic list, so they are partial functions; on the lists of the
  invariant they are shown to return. A function that blocks is split at its call of
  \<^verbatim>\<open>schedule\<close>: the part before, and what it does when the task runs again.
\<close>

section \<open>State\<close>

definition WQ_POOL_SIZE :: nat where "WQ_POOL_SIZE = 64"

text \<open>The wait-queue objects: \<^verbatim>\<open>sleep_wq\<close> and the one of each futex slot.\<close>

datatype wq_ref = Sleep_wq | Futex_wq nat

record wq_entry =
  task_id :: int
  timeout_tick :: u64
  wnext :: int
  in_use :: bool
  wowner :: "wq_ref option"

text \<open>Writes to the registers of the interrupt controller are kept as a trace.\<close>

record wq_state = sched_state +
  wq_pool :: "wq_entry list"
  whead :: "wq_ref \<Rightarrow> int"
  tick_count :: u64
  gic_trace :: "(u64 \<times> u32) list"

section \<open>Operations\<close>

definition upd_entry :: "nat \<Rightarrow> (wq_entry \<Rightarrow> wq_entry) \<Rightarrow> 'a wq_state_scheme \<Rightarrow> 'a wq_state_scheme" where
  "upd_entry i f s = s\<lparr>wq_pool := (wq_pool s)[i := f (wq_pool s ! i)]\<rparr>"

definition set_head :: "wq_ref \<Rightarrow> int \<Rightarrow> 'a wq_state_scheme \<Rightarrow> 'a wq_state_scheme" where
  "set_head q h s = s\<lparr>whead := (whead s)(q := h)\<rparr>"

definition wq_pool_init :: "'a wq_state_scheme \<Rightarrow> 'a wq_state_scheme" where
  "wq_pool_init s = for_loop 0 WQ_POOL_SIZE (\<lambda>i. upd_entry i (\<lambda>e. e\<lparr>in_use := False, wnext := - 1, wowner := None\<rparr>)) s"

definition wq_init :: "wq_ref \<Rightarrow> 'a wq_state_scheme \<Rightarrow> 'a wq_state_scheme" where
  "wq_init q s = set_head q (- 1) s"

definition pool_alloc :: "'a wq_state_scheme \<Rightarrow> int \<times> 'a wq_state_scheme" where
  "pool_alloc s =
     (case first_idx (\<lambda>i. \<not> in_use (wq_pool s ! i)) 0 WQ_POOL_SIZE of
        Some i \<Rightarrow> (int i, upd_entry i (\<lambda>e. e\<lparr>in_use := True, wnext := - 1\<rparr>) s)
      | None \<Rightarrow> (- 1, s))"

definition pool_free :: "int \<Rightarrow> 'a wq_state_scheme \<Rightarrow> 'a wq_state_scheme" where
  "pool_free idx s =
     (if idx \<ge> 0 \<and> idx < int WQ_POOL_SIZE
      then upd_entry (nat idx) (\<lambda>e. e\<lparr>in_use := False, wowner := None\<rparr>) s else s)"

text \<open>\<^verbatim>\<open>while (wq_pool[cur].next >= 0) cur = wq_pool[cur].next;\<close>\<close>

partial_function (option) last_entry :: "wq_entry list \<Rightarrow> int \<Rightarrow> int option" where
  "last_entry p cur =
     (if wnext (p ! nat cur) \<ge> 0 then last_entry p (wnext (p ! nat cur)) else Some cur)"

definition queue_append :: "wq_ref \<Rightarrow> int \<Rightarrow> 'a wq_state_scheme \<Rightarrow> 'a wq_state_scheme option" where
  "queue_append q idx s =
     (let s1 = upd_entry (nat idx) (\<lambda>e. e\<lparr>wnext := - 1\<rparr>) s
      in if whead s1 q < 0 then Some (set_head q idx s1)
         else case last_entry (wq_pool s1) (whead s1 q) of
                None \<Rightarrow> None
              | Some cur \<Rightarrow> Some (upd_entry (nat cur) (\<lambda>e. e\<lparr>wnext := idx\<rparr>) s1))"

text \<open>\<^verbatim>\<open>while (prev >= 0 && wq_pool[prev].next != idx) prev = wq_pool[prev].next;\<close>\<close>

partial_function (option) find_prev :: "wq_entry list \<Rightarrow> int \<Rightarrow> int \<Rightarrow> int option" where
  "find_prev p idx prev =
     (if prev \<ge> 0 \<and> wnext (p ! nat prev) \<noteq> idx then find_prev p idx (wnext (p ! nat prev)) else Some prev)"

definition queue_remove :: "wq_ref \<Rightarrow> int \<Rightarrow> 'a wq_state_scheme \<Rightarrow> 'a wq_state_scheme option" where
  "queue_remove q idx s =
     (if whead s q < 0 then Some s
      else if whead s q = idx then Some (set_head q (wnext (wq_pool s ! nat idx)) s)
      else case find_prev (wq_pool s) idx (whead s q) of
             None \<Rightarrow> None
           | Some prev \<Rightarrow>
               Some (if prev \<ge> 0
                     then upd_entry (nat prev) (\<lambda>e. e\<lparr>wnext := wnext (wq_pool s ! nat idx)\<rparr>) s
                     else s))"

text \<open>What the waits share: enter the queue, mark the task blocked.\<close>

definition block_task :: "int \<Rightarrow> 'a task_state_scheme \<Rightarrow> 'a task_state_scheme" where
  "block_task t s =
     (case task_get t s of
        None \<Rightarrow> s
      | Some _ \<Rightarrow> upd_task (nat t) (\<lambda>t. t\<lparr>wakeup_reason := 0, tstate := TASK_BLOCKED\<rparr>) s)"

definition enqueue_current ::
  "wq_ref \<Rightarrow> int \<Rightarrow> u64 \<Rightarrow> nat \<Rightarrow> 'a wq_state_scheme \<Rightarrow> 'a wq_state_scheme option" where
  "enqueue_current q t tmo idx s =
     (case queue_append q (int idx)
             (upd_entry idx (\<lambda>e. e\<lparr>task_id := t, timeout_tick := tmo, wowner := Some q\<rparr>) s) of
        None \<Rightarrow> None
      | Some s1 \<Rightarrow> Some (block_task t s1))"

text \<open>
  The result of a blocking call: it returned at once, or the task \<open>t\<close> gave up the CPU in a
  state where another task runs.
\<close>

datatype 's waited = Returned int 's | Gave_up int 's

definition wq_wait :: "nat \<Rightarrow> wq_ref \<Rightarrow> 'a wq_state_scheme \<Rightarrow> 'a wq_state_scheme waited option" where
  "wq_wait c q s =
     (let t = task_current_id c s
      in if t < 0 then Some (Returned 0 s)
         else case pool_alloc s of (idx, s1) \<Rightarrow>
           if idx < 0 then Some (Returned 0 s1)
           else case enqueue_current q t 0 (nat idx) s1 of
                  None \<Rightarrow> None
                | Some s2 \<Rightarrow> Some (Gave_up t (schedule c s2)))"

definition timer_get_ticks :: "'a wq_state_scheme \<Rightarrow> u64" where
  "timer_get_ticks s = tick_count s"

definition wq_wait_timeout ::
  "nat \<Rightarrow> wq_ref \<Rightarrow> u64 \<Rightarrow> 'a wq_state_scheme \<Rightarrow> 'a wq_state_scheme waited option" where
  "wq_wait_timeout c q ticks s =
     (let t = task_current_id c s
      in if t < 0 then Some (Returned (- 1) s)
         else case pool_alloc s of (idx, s1) \<Rightarrow>
           if idx < 0 then Some (Returned (- 1) s1)
           else case enqueue_current q t (timer_get_ticks s1 + ticks) (nat idx) s1 of
                  None \<Rightarrow> None
                | Some s2 \<Rightarrow> Some (Gave_up t (schedule c s2)))"

text \<open>
  The value \<^verbatim>\<open>wq_wait_timeout\<close> returns when the task \<open>t\<close> runs again; \<open>found\<close> is whether
  \<^verbatim>\<open>task_get\<close> found the task before it blocked.
\<close>

definition wq_wait_timeout_resume :: "int \<Rightarrow> bool \<Rightarrow> 'a task_state_scheme \<Rightarrow> int" where
  "wq_wait_timeout_resume t found s = (if found then wakeup_reason (tasks s ! nat t) else - 1)"

text \<open>The software-generated interrupt of \<^verbatim>\<open>kernel/smp.c\<close>, to all other CPUs.\<close>

abbreviation GICD_BASE :: u64 where "GICD_BASE \<equiv> 0x08000000"
abbreviation GICC_BASE :: u64 where "GICC_BASE \<equiv> 0x08010000"

definition gic_write :: "u64 \<Rightarrow> u32 \<Rightarrow> 'a wq_state_scheme \<Rightarrow> 'a wq_state_scheme" where
  "gic_write a v s = s\<lparr>gic_trace := gic_trace s @ [(a, v)]\<rparr>"

definition smp_send_reschedule :: "'a wq_state_scheme \<Rightarrow> 'a wq_state_scheme" where
  "smp_send_reschedule s = gic_write (GICD_BASE + 0xF00) (push_bit 24 1 OR 0) s"

text \<open>Wake the task of an entry; the reason is 0 for a wake-up and -1 for a timeout.\<close>

definition wakeable :: "int \<Rightarrow> 'a task_state_scheme \<Rightarrow> bool" where
  "wakeable t s \<longleftrightarrow> (case task_get t s of Some x \<Rightarrow> tstate x = TASK_BLOCKED | None \<Rightarrow> False)"

definition wake_task :: "int \<Rightarrow> int \<Rightarrow> 'a task_state_scheme \<Rightarrow> 'a task_state_scheme" where
  "wake_task reason t s =
     (if wakeable t s then upd_task (nat t) (\<lambda>t. t\<lparr>wakeup_reason := reason, tstate := TASK_READY\<rparr>) s else s)"

text \<open>Take the first entry off a queue, wake its task, return the entry to the pool.\<close>

definition dequeue_wake :: "wq_ref \<Rightarrow> 'a wq_state_scheme \<Rightarrow> 'a wq_state_scheme" where
  "dequeue_wake q s =
     (let idx = whead s q; s1 = set_head q (wnext (wq_pool s ! nat idx)) s
      in pool_free idx (wake_task 0 (task_id (wq_pool s1 ! nat idx)) s1))"

definition wq_wake_one :: "wq_ref \<Rightarrow> 'a wq_state_scheme \<Rightarrow> 'a wq_state_scheme" where
  "wq_wake_one q s =
     (if whead s q < 0 then s
      else let woke = wakeable (task_id (wq_pool s ! nat (whead s q))) s; s1 = dequeue_wake q s
           in if woke then smp_send_reschedule s1 else s1)"

partial_function (option) wake_all_loop :: "wq_ref \<Rightarrow> bool \<Rightarrow> 'a wq_state_scheme \<Rightarrow> (bool \<times> 'a wq_state_scheme) option" where
  "wake_all_loop q woke s =
     (if whead s q \<ge> 0
      then wake_all_loop q (woke \<or> wakeable (task_id (wq_pool s ! nat (whead s q))) s) (dequeue_wake q s)
      else Some (woke, s))"

definition wq_wake_all :: "wq_ref \<Rightarrow> 'a wq_state_scheme \<Rightarrow> 'a wq_state_scheme option" where
  "wq_wake_all q s =
     (case wake_all_loop q False s of
        None \<Rightarrow> None
      | Some (woke, s1) \<Rightarrow> Some (if woke then smp_send_reschedule s1 else s1))"

definition expired :: "u64 \<Rightarrow> wq_entry \<Rightarrow> bool" where
  "expired now e \<longleftrightarrow> in_use e \<and> timeout_tick e \<noteq> 0 \<and> \<not> now < timeout_tick e"

definition wq_tick_entry :: "u64 \<Rightarrow> nat \<Rightarrow> 'a wq_state_scheme \<Rightarrow> 'a wq_state_scheme option" where
  "wq_tick_entry now i s =
     (if \<not> expired now (wq_pool s ! i) then Some s
      else let s1 = wake_task (- 1) (task_id (wq_pool s ! i)) s
           in case (case wowner (wq_pool s1 ! i) of Some q \<Rightarrow> queue_remove q (int i) s1 | None \<Rightarrow> Some s1) of
                None \<Rightarrow> None
              | Some s2 \<Rightarrow> Some (pool_free (int i) s2))"

definition wq_tick :: "'a wq_state_scheme \<Rightarrow> 'a wq_state_scheme option" where
  "wq_tick s = (let now = timer_get_ticks s
     in for_loop 0 WQ_POOL_SIZE (\<lambda>i r. case r of None \<Rightarrow> None | Some t \<Rightarrow> wq_tick_entry now i t) (Some s))"

section \<open>Sleeping\<close>

definition sleep_init :: "'a wq_state_scheme \<Rightarrow> 'a wq_state_scheme" where
  "sleep_init s = wq_init Sleep_wq s"

definition sleep_ticks :: "nat \<Rightarrow> u64 \<Rightarrow> 'a wq_state_scheme \<Rightarrow> 'a wq_state_scheme waited option" where
  "sleep_ticks c ticks s = (if ticks = 0 then Some (Returned 0 s) else wq_wait_timeout c Sleep_wq ticks s)"

definition sleep_ms :: "nat \<Rightarrow> u64 \<Rightarrow> 'a wq_state_scheme \<Rightarrow> 'a wq_state_scheme waited option" where
  "sleep_ms c ms s = (let ticks = ms div 10 in sleep_ticks c (if ticks = 0 then 1 else ticks) s)"

section \<open>Linked lists in the pool\<close>

text \<open>\<open>chain p h xs\<close>: following the links of the pool \<open>p\<close> from \<open>h\<close> visits exactly the entries \<open>xs\<close>.\<close>

fun chain :: "wq_entry list \<Rightarrow> int \<Rightarrow> nat list \<Rightarrow> bool" where
  "chain p h [] \<longleftrightarrow> h < 0"
| "chain p h (x # xs) \<longleftrightarrow> h = int x \<and> x < length p \<and> chain p (wnext (p ! x)) xs"

lemma chain_upd: "i \<notin> set xs \<Longrightarrow> chain (p[i := e]) h xs \<longleftrightarrow> chain p h xs"
  by (induction xs arbitrary: h) auto

lemma chain_same_links:
  "length p' = length p \<Longrightarrow> (\<And>i. i \<in> set xs \<Longrightarrow> wnext (p' ! i) = wnext (p ! i)) \<Longrightarrow> chain p' h xs \<longleftrightarrow> chain p h xs"
  by (induction xs arbitrary: h) auto

lemma chain_bound: "chain p h xs \<Longrightarrow> i \<in> set xs \<Longrightarrow> i < length p"
  by (induction xs arbitrary: h) auto

lemma chain_head: "chain p h xs \<Longrightarrow> h < 0 \<longleftrightarrow> xs = []"
  by (cases xs) auto

lemma last_entry_chain: "chain p h (xs @ [x]) \<Longrightarrow> last_entry p h = Some (int x)"
proof (induction xs arbitrary: h)
  case Nil
  then show ?case by (subst last_entry.simps) simp
next
  case (Cons y ys)
  then have y: "h = int y" "chain p (wnext (p ! y)) (ys @ [x])" by auto
  then have "wnext (p ! y) \<ge> 0" using chain_head [OF y(2)] by auto
  then show ?case using Cons.IH [OF y(2)] y(1) by (subst last_entry.simps) simp
qed

lemma chain_snoc:
  assumes "chain p h (xs @ [x])" and "distinct (xs @ [x])" and "i \<notin> set (xs @ [x])" and "i < length p"
    and "wnext (p ! i) = - 1"
  shows "chain (p[x := (p ! x)\<lparr>wnext := int i\<rparr>]) h (xs @ [x, i])"
  using assms
proof (induction xs arbitrary: h)
  case (Cons y ys)
  then show ?case by auto
qed auto

lemma find_prev_chain:
  assumes "chain p h (xs @ [x, i] @ ys)" and "i \<notin> set (xs @ [x])"
  shows "find_prev p (int i) h = Some (int x)"
  using assms
proof (induction xs arbitrary: h)
  case Nil
  then show ?case by (subst find_prev.simps) auto
next
  case (Cons y zs)
  then have y: "h = int y" "chain p (wnext (p ! y)) (zs @ [x, i] @ ys)" by auto
  have "wnext (p ! y) \<noteq> int i" using y(2) Cons.prems(2) by (cases zs) auto
  then show ?case using Cons.IH [OF y(2)] Cons.prems(2) y(1) by (subst find_prev.simps) simp
qed

lemma chain_unlink:
  assumes "chain p h (xs @ [x, i] @ ys)" and "distinct (xs @ [x, i] @ ys)"
  shows "chain (p[x := (p ! x)\<lparr>wnext := wnext (p ! i)\<rparr>]) h (xs @ [x] @ ys)"
  using assms
proof (induction xs arbitrary: h)
  case Nil
  then show ?case by (auto simp: chain_upd)
next
  case (Cons y zs)
  then show ?case by auto
qed

section \<open>The queues of a state\<close>

text \<open>
  \<open>Q\<close> gives the entries of each queue, first in line first. Entries in use are in exactly one
  queue, the one they name as their owner.
\<close>

definition wq_inv :: "(wq_ref \<Rightarrow> nat list) \<Rightarrow> 'a wq_state_scheme \<Rightarrow> bool" where
  "wq_inv Q s \<longleftrightarrow> length (wq_pool s) = WQ_POOL_SIZE \<and>
     (\<forall>q. chain (wq_pool s) (whead s q) (Q q) \<and> distinct (Q q) \<and> (\<forall>i\<in>set (Q q). wowner (wq_pool s ! i) = Some q)) \<and>
     (\<forall>i<WQ_POOL_SIZE. in_use (wq_pool s ! i) \<longleftrightarrow> (\<exists>q. i \<in> set (Q q)))"

lemma wq_invD:
  assumes "wq_inv Q s"
  shows "length (wq_pool s) = WQ_POOL_SIZE" "chain (wq_pool s) (whead s q) (Q q)" "distinct (Q q)"
    "i \<in> set (Q q) \<Longrightarrow> wowner (wq_pool s ! i) = Some q" "i \<in> set (Q q) \<Longrightarrow> i < WQ_POOL_SIZE"
    "i \<in> set (Q q) \<Longrightarrow> in_use (wq_pool s ! i)" "i < WQ_POOL_SIZE \<Longrightarrow> in_use (wq_pool s ! i) \<Longrightarrow> \<exists>q. i \<in> set (Q q)"
    "i \<in> set (Q q) \<Longrightarrow> i \<in> set (Q r) \<Longrightarrow> q = r" "whead s q < 0 \<longleftrightarrow> Q q = []"
proof -
  show 1: "length (wq_pool s) = WQ_POOL_SIZE" "chain (wq_pool s) (whead s q) (Q q)" "distinct (Q q)"
    using assms by (auto simp: wq_inv_def)
  show 2: "i \<in> set (Q q) \<Longrightarrow> wowner (wq_pool s ! i) = Some q" for q using assms by (auto simp: wq_inv_def)
  show 3: "i \<in> set (Q q) \<Longrightarrow> i < WQ_POOL_SIZE" using chain_bound [OF 1(2)] 1(1) by simp
  show "i \<in> set (Q q) \<Longrightarrow> in_use (wq_pool s ! i)" using 3 assms by (auto simp: wq_inv_def)
  show "i < WQ_POOL_SIZE \<Longrightarrow> in_use (wq_pool s ! i) \<Longrightarrow> \<exists>q. i \<in> set (Q q)" using assms by (auto simp: wq_inv_def)
  show "i \<in> set (Q q) \<Longrightarrow> i \<in> set (Q r) \<Longrightarrow> q = r" using 2 [of q] 2 [of r] by auto
  show "whead s q < 0 \<longleftrightarrow> Q q = []" by (rule chain_head [OF 1(2)])
qed

lemma wq_inv_cong:
  "wq_pool s' = wq_pool s \<Longrightarrow> whead s' = whead s \<Longrightarrow> wq_inv Q s' = wq_inv Q s"
  by (simp add: wq_inv_def)

lemma wq_fields [simp]:
  "gic_trace (upd_task j f s) = gic_trace s"
  "wq_pool (upd_task j f s) = wq_pool s" "whead (upd_task j f s) = whead s" "tick_count (upd_task j f s) = tick_count s"
  "wq_pool (upd_entry i g s) = (wq_pool s)[i := g (wq_pool s ! i)]" "whead (upd_entry i g s) = whead s"
  "tasks (upd_entry i g s) = tasks s" "percpu (upd_entry i g s) = percpu s" "tick_count (upd_entry i g s) = tick_count s"
  "wq_pool (set_head q h s) = wq_pool s" "whead (set_head q h s) = (whead s)(q := h)" "tasks (set_head q h s) = tasks s"
  "percpu (set_head q h s) = percpu s" "tick_count (set_head q h s) = tick_count s"
  by (simp_all add: upd_task_def upd_entry_def set_head_def)

definition same_data :: "wq_entry list \<Rightarrow> wq_entry list \<Rightarrow> bool" where
  "same_data p p' \<longleftrightarrow> length p' = length p \<and> (\<forall>j. task_id (p' ! j) = task_id (p ! j) \<and> timeout_tick (p' ! j) = timeout_tick (p ! j) \<and>
     in_use (p' ! j) = in_use (p ! j) \<and> wowner (p' ! j) = wowner (p ! j))"

lemma same_data_link: "same_data p (p[x := (p ! x)\<lparr>wnext := n\<rparr>])"
  by (cases "x < length p") (auto simp: same_data_def nth_list_update list_update_beyond)

lemma same_data_trans: "same_data p p' \<Longrightarrow> same_data p' p'' \<Longrightarrow> same_data p p''"
  by (simp add: same_data_def)

text \<open>Everything but the pool and the queue heads.\<close>

definition same_tasks :: "'a wq_state_scheme \<Rightarrow> 'a wq_state_scheme \<Rightarrow> bool" where
  "same_tasks s s' \<longleftrightarrow> s' = s\<lparr>wq_pool := wq_pool s', whead := whead s'\<rparr>"

lemma same_tasksI: "same_tasks s (upd_entry i g s)" "same_tasks s (set_head q h s)"
  by (simp_all add: same_tasks_def upd_entry_def set_head_def)

lemma same_tasks_trans: "same_tasks s t \<Longrightarrow> same_tasks t u \<Longrightarrow> same_tasks s u"
  unfolding same_tasks_def by (cases s, cases t, cases u) simp

lemma same_tasksD: "same_tasks s s' \<Longrightarrow> tasks s' = tasks s \<and> percpu s' = percpu s \<and> tick_count s' = tick_count s \<and> gic_trace s' = gic_trace s \<and>
     regs s' = regs s \<and> ttbr0 s' = ttbr0 s"
  unfolding same_tasks_def by (cases s, cases s') simp

text \<open>Appending an entry that is in no queue.\<close>

lemma queue_append_spec:
  assumes ch: "chain (wq_pool s) (whead s q) xs" "distinct xs" and i: "i \<notin> set xs" "i < length (wq_pool s)"
  obtains s' where "queue_append q (int i) s = Some s'" "chain (wq_pool s') (whead s' q) (xs @ [i])"
    "\<forall>r. r \<noteq> q \<longrightarrow> whead s' r = whead s r" "same_data (wq_pool s) (wq_pool s')" "same_tasks s s'"
    "\<forall>j. j \<notin> set (xs @ [i]) \<longrightarrow> wnext (wq_pool s' ! j) = wnext (wq_pool s ! j)"
proof -
  let ?s1 = "upd_entry i (\<lambda>e. e\<lparr>wnext := - 1\<rparr>) s"
  have ch1: "chain (wq_pool ?s1) (whead ?s1 q) xs" using ch(1) i(1) by (simp add: chain_upd)
  show ?thesis
  proof (cases xs rule: rev_cases)
    case Nil
    let ?s' = "set_head q (int i) ?s1"
    have "queue_append q (int i) s = Some ?s'" using ch1 Nil by (simp add: queue_append_def Let_def)
    moreover have "same_tasks s ?s'" by (rule same_tasks_trans [OF same_tasksI(1) same_tasksI(2)])
    ultimately show ?thesis
      using Nil i that [of ?s'] same_data_link [of "wq_pool s" i] by simp
  next
    case (snoc ys y)
    let ?s' = "upd_entry y (\<lambda>e. e\<lparr>wnext := int i\<rparr>) ?s1"
    have y: "y \<noteq> i" "y < length (wq_pool s)" using snoc i(1) chain_bound [OF ch(1), of y] by auto
    have "last_entry (wq_pool ?s1) (whead ?s1 q) = Some (int y)" using last_entry_chain ch1 snoc by blast
    moreover have "\<not> whead ?s1 q < 0" using chain_head [OF ch1] snoc by simp
    ultimately have q: "queue_append q (int i) s = Some ?s'" by (simp add: queue_append_def Let_def)
    have "chain (wq_pool ?s') (whead ?s' q) (ys @ [y, i])"
      using chain_snoc [of "wq_pool ?s1" "whead ?s1 q" ys y i] ch1 ch(2) snoc i by simp
    moreover have "same_data (wq_pool s) (wq_pool ?s')"
      using same_data_trans [OF same_data_link same_data_link, of "wq_pool s" i "- 1" y "int i"] by simp
    moreover have "same_tasks s ?s'" by (rule same_tasks_trans [OF same_tasksI(1) same_tasksI(1)])
    moreover have "wnext (wq_pool ?s' ! j) = wnext (wq_pool s ! j)" if "j \<notin> set (xs @ [i])" for j
      using that snoc by simp
    ultimately show ?thesis using q snoc that [of ?s'] by simp
  qed
qed

text \<open>Removing an entry of the queue.\<close>

lemma queue_remove_spec:
  assumes ch: "chain (wq_pool s) (whead s q) xs" "distinct xs" and i: "i \<in> set xs"
  obtains s' where "queue_remove q (int i) s = Some s'" "chain (wq_pool s') (whead s' q) (removeAll i xs)"
    "\<forall>r. r \<noteq> q \<longrightarrow> whead s' r = whead s r" "same_data (wq_pool s) (wq_pool s')" "same_tasks s s'"
    "\<forall>j. j \<notin> set xs \<longrightarrow> wnext (wq_pool s' ! j) = wnext (wq_pool s ! j)"
proof -
  obtain as bs where xs: "xs = as @ i # bs" "i \<notin> set as" using split_list_first [OF i] by blast
  have nb: "i \<notin> set bs" using ch(2) xs by auto
  show ?thesis
  proof (cases as rule: rev_cases)
    case Nil
    let ?s' = "set_head q (wnext (wq_pool s ! i)) s"
    have "queue_remove q (int i) s = Some ?s'" using ch(1) xs Nil by (simp add: queue_remove_def)
    then show ?thesis
      using that [of ?s'] ch(1) xs Nil nb by (simp add: same_tasksI same_data_def)
  next
    case (snoc ys y)
    let ?s' = "upd_entry y (\<lambda>e. e\<lparr>wnext := wnext (wq_pool s ! i)\<rparr>) s"
    have c: "chain (wq_pool s) (whead s q) (ys @ [y, i] @ bs)" using ch(1) xs(1) snoc by simp
    have "find_prev (wq_pool s) (int i) (whead s q) = Some (int y)"
      using find_prev_chain [OF c] xs(2) snoc by simp
    moreover have "\<not> whead s q < 0" "whead s q \<noteq> int i"
      using ch(1) xs snoc by (cases ys; auto)+
    ultimately have q: "queue_remove q (int i) s = Some ?s'" by (simp add: queue_remove_def)
    have "chain (wq_pool ?s') (whead ?s' q) (ys @ [y] @ bs)"
      using chain_unlink [OF c] ch(2) xs(1) snoc by simp
    moreover have "removeAll i xs = ys @ [y] @ bs" using xs snoc nb by auto
    moreover have "wnext (wq_pool ?s' ! j) = wnext (wq_pool s ! j)" if "j \<notin> set xs" for j
      using that xs snoc by auto
    ultimately show ?thesis using q that [of ?s'] by (simp add: same_tasksI same_data_link)
  qed
qed

section \<open>The operations on the queues\<close>

text \<open>The pool of entries is a slot pool.\<close>

definition wq_used :: "'a wq_state_scheme \<Rightarrow> nat set" where
  "wq_used s = {i. i < WQ_POOL_SIZE \<and> in_use (wq_pool s ! i)}"

definition pool_alloc_slot :: "'a wq_state_scheme \<Rightarrow> nat option \<times> 'a wq_state_scheme" where
  "pool_alloc_slot s = (case pool_alloc s of (i, s') \<Rightarrow> (if i < 0 then None else Some (nat i), s'))"

lemma pool_alloc_cases:
  obtains (full) "pool_alloc s = (- 1, s)" "wq_used s = {..<WQ_POOL_SIZE}"
  | (ok) i where "pool_alloc s = (int i, upd_entry i (\<lambda>e. e\<lparr>in_use := True, wnext := - 1\<rparr>) s)"
      "i < WQ_POOL_SIZE" "i \<notin> wq_used s"
proof (cases "first_idx (\<lambda>i. \<not> in_use (wq_pool s ! i)) 0 WQ_POOL_SIZE")
  case None
  then have "pool_alloc s = (- 1, s)" by (simp add: pool_alloc_def)
  moreover have "wq_used s = {..<WQ_POOL_SIZE}" using None by (auto simp: first_idx_None wq_used_def)
  ultimately show ?thesis by (rule full)
next
  case (Some i)
  then have "pool_alloc s = (int i, upd_entry i (\<lambda>e. e\<lparr>in_use := True, wnext := - 1\<rparr>) s)" by (simp add: pool_alloc_def)
  moreover have "i < WQ_POOL_SIZE" "i \<notin> wq_used s" using Some by (auto simp: first_idx_Some wq_used_def)
  ultimately show ?thesis by (rule ok)
qed

interpretation wq_slots: slot_pool pool_alloc_slot "\<lambda>i. pool_free (int i)" wq_used "{..<WQ_POOL_SIZE}"
  "\<lambda>s. length (wq_pool s) = WQ_POOL_SIZE"
proof
  show "wq_used s \<subseteq> {..<WQ_POOL_SIZE}" for s :: "'a wq_state_scheme" by (auto simp: wq_used_def)
next
  fix s s' :: "'a wq_state_scheme" and i
  assume len: "length (wq_pool s) = WQ_POOL_SIZE" and al: "pool_alloc_slot s = (Some i, s')"
  show "i \<in> {..<WQ_POOL_SIZE} \<and> i \<notin> wq_used s \<and> wq_used s' = insert i (wq_used s) \<and> length (wq_pool s') = WQ_POOL_SIZE"
  proof (cases s rule: pool_alloc_cases)
    case full then show ?thesis using al by (simp add: pool_alloc_slot_def)
  next
    case (ok j)
    then have s': "s' = upd_entry j (\<lambda>e. e\<lparr>in_use := True, wnext := - 1\<rparr>) s" "i = j"
      using al by (auto simp: pool_alloc_slot_def)
    have "wq_used s' = insert j (wq_used s)" using len ok(2) by (auto simp: s' wq_used_def nth_list_update)
    then show ?thesis using ok s' len by simp
  qed
next
  fix s s' :: "'a wq_state_scheme"
  assume "pool_alloc_slot s = (None, s')"
  then show "s' = s \<and> wq_used s = {..<WQ_POOL_SIZE}"
    by (cases s rule: pool_alloc_cases) (simp_all add: pool_alloc_slot_def)
next
  fix s :: "'a wq_state_scheme" and i
  assume "length (wq_pool s) = WQ_POOL_SIZE" "i \<in> wq_used s"
  then show "wq_used (pool_free (int i) s) = wq_used s - {i} \<and> length (wq_pool (pool_free (int i) s)) = WQ_POOL_SIZE"
    by (auto simp: wq_used_def pool_free_def nth_list_update split: if_splits)
qed simp

lemma task_get_cong [simp]:
  "task_get t (upd_entry i g s) = task_get t s" "task_get t (set_head q h s) = task_get t s"
  by (simp_all add: task_get_def)

lemma block_task_fields [simp]:
  "wq_pool (block_task t s) = wq_pool s" "whead (block_task t s) = whead s" "tick_count (block_task t s) = tick_count s"
  by (simp_all add: block_task_def split: option.split)

lemma block_task_percpu [simp]: "percpu (block_task t s) = percpu s"
  by (simp add: block_task_def split: option.split)

lemma in_some_queue_append:
  "(\<exists>r. j \<in> set ((Q(q := Q q @ [i])) r)) \<longleftrightarrow> j = i \<or> (\<exists>r. j \<in> set (Q r))"
proof
  show "\<exists>r. j \<in> set ((Q(q := Q q @ [i])) r) \<Longrightarrow> j = i \<or> (\<exists>r. j \<in> set (Q r))" by (auto split: if_splits)
next
  assume "j = i \<or> (\<exists>r. j \<in> set (Q r))"
  then obtain r where "j = i \<and> r = q \<or> j \<in> set (Q r)" by blast
  then show "\<exists>r. j \<in> set ((Q(q := Q q @ [i])) r)" by (intro exI [of _ r]) auto
qed

text \<open>Entering a queue: the entry goes to the end of it, with the task and its timeout.\<close>

lemma enqueue_spec:
  assumes inv: "wq_inv Q s" and i: "i < WQ_POOL_SIZE" "i \<notin> wq_used s"
  obtains s' where
    "enqueue_current q t tmo i (upd_entry i (\<lambda>e. e\<lparr>in_use := True, wnext := - 1\<rparr>) s) = Some (block_task t s')"
    "wq_inv (Q(q := Q q @ [i])) s'" "same_tasks s s'" "task_id (wq_pool s' ! i) = t" "timeout_tick (wq_pool s' ! i) = tmo"
    "\<forall>j. j \<noteq> i \<longrightarrow> task_id (wq_pool s' ! j) = task_id (wq_pool s ! j) \<and> timeout_tick (wq_pool s' ! j) = timeout_tick (wq_pool s ! j)"
proof -
  note I = wq_invD [OF inv]
  let ?s1 = "upd_entry i (\<lambda>e. e\<lparr>task_id := t, timeout_tick := tmo, wowner := Some q\<rparr>)
     (upd_entry i (\<lambda>e. e\<lparr>in_use := True, wnext := - 1\<rparr>) s)"
  have out: "i \<notin> set (Q r)" for r using I(6) i by (auto simp: wq_used_def)
  have len: "i < length (wq_pool s)" using i(1) I(1) by simp
  have len1: "i < length (wq_pool ?s1)" using len by simp
  have ch: "chain (wq_pool ?s1) (whead ?s1 r) (Q r)" for r using I(2) [of r] out by (simp add: chain_upd)
  obtain s' where s': "queue_append q (int i) ?s1 = Some s'" "chain (wq_pool s') (whead s' q) (Q q @ [i])"
    "\<forall>r. r \<noteq> q \<longrightarrow> whead s' r = whead ?s1 r" "same_data (wq_pool ?s1) (wq_pool s')" "same_tasks ?s1 s'"
    "\<forall>j. j \<notin> set (Q q @ [i]) \<longrightarrow> wnext (wq_pool s' ! j) = wnext (wq_pool ?s1 ! j)"
    by (rule queue_append_spec [OF ch [of q] I(3) [of q] out [of q] len1])
  have data: "task_id (wq_pool s' ! j) = (if j = i then t else task_id (wq_pool s ! j))"
    "timeout_tick (wq_pool s' ! j) = (if j = i then tmo else timeout_tick (wq_pool s ! j))"
    "in_use (wq_pool s' ! j) = (j = i \<or> in_use (wq_pool s ! j))"
    "wowner (wq_pool s' ! j) = (if j = i then Some q else wowner (wq_pool s ! j))" for j
    using s'(4) len by (auto simp: same_data_def nth_list_update)
  have len': "length (wq_pool s') = WQ_POOL_SIZE" using s'(4) I(1) by (simp add: same_data_def)
  have other: "chain (wq_pool s') (whead s' r) (Q r)" if "r \<noteq> q" for r
  proof -
    have "j \<notin> set (Q q @ [i])" if "j \<in> set (Q r)" for j using that I(8) \<open>r \<noteq> q\<close> out by auto
    then have lk: "wnext (wq_pool s' ! j) = wnext (wq_pool ?s1 ! j)" if "j \<in> set (Q r)" for j using that s'(6) by blast
    have "length (wq_pool s') = length (wq_pool ?s1)" using s'(4) unfolding same_data_def by blast
    then have "chain (wq_pool s') (whead ?s1 r) (Q r) = chain (wq_pool ?s1) (whead ?s1 r) (Q r)"
      by (rule chain_same_links) (rule lk)
    then show ?thesis using ch [of r] s'(3) that by simp
  qed
  have "wq_inv (Q(q := Q q @ [i])) s'"
    unfolding wq_inv_def
  proof (intro conjI allI impI ballI)
    fix r
    show "chain (wq_pool s') (whead s' r) ((Q(q := Q q @ [i])) r)" using s'(2) other by simp
    show "distinct ((Q(q := Q q @ [i])) r)" using I(3) out by simp
    fix j assume "j \<in> set ((Q(q := Q q @ [i])) r)"
    then show "wowner (wq_pool s' ! j) = Some r" using data(4) I(4) out by (auto split: if_splits)
  next
    fix j assume j: "j < WQ_POOL_SIZE"
    have "in_use (wq_pool s ! j) \<longleftrightarrow> (\<exists>r. j \<in> set (Q r))" using I(6,7) j by blast
    then show "in_use (wq_pool s' ! j) \<longleftrightarrow> (\<exists>r. j \<in> set ((Q(q := Q q @ [i])) r))"
      using data(3) in_some_queue_append by metis
  qed (rule len')
  moreover have "same_tasks s s'"
    by (rule same_tasks_trans [OF same_tasks_trans [OF same_tasksI(1) same_tasksI(1)] s'(5)])
  ultimately show ?thesis using that [of s'] s'(1) data by (simp add: enqueue_current_def)
qed

text \<open>Leaving a queue: the entry is unlinked, its task woken, the entry free again.\<close>

lemma wake_task_fields [simp]:
  "wq_pool (wake_task r t s) = wq_pool s" "whead (wake_task r t s) = whead s" "tick_count (wake_task r t s) = tick_count s"
  "gic_trace (wake_task r t s) = gic_trace s"
  by (simp_all add: wake_task_def)

lemma wake_task_frame [simp]:
  "percpu (wake_task r t s) = percpu s" "length (tasks (wake_task r t s)) = length (tasks s)"
  by (simp_all add: wake_task_def)

lemma wake_task_regs [simp]: "regs (wake_task r t s) = regs s" "ttbr0 (wake_task r t s) = ttbr0 s"
  by (simp_all add: wake_task_def)

lemma wake_task_nth:
  assumes "length (tasks s) = MAX_TASKS" and "j < MAX_TASKS"
  shows "tasks (wake_task r t s) ! j =
    (if t = int j \<and> status s j = TASK_BLOCKED then (tasks s ! j)\<lparr>wakeup_reason := r, tstate := TASK_READY\<rparr> else tasks s ! j)"
  using assms by (auto simp: wake_task_def wakeable_def task_get_def nth_list_update split: if_splits)

lemma entry_regs [simp]:
  "regs (upd_entry i g s) = regs s" "ttbr0 (upd_entry i g s) = ttbr0 s" "regs (set_head q h s) = regs s" "ttbr0 (set_head q h s) = ttbr0 s"
  "regs (pool_free j s) = regs s" "ttbr0 (pool_free j s) = ttbr0 s"
  "regs (smp_send_reschedule s) = regs s" "ttbr0 (smp_send_reschedule s) = ttbr0 s"
  by (simp_all add: upd_entry_def set_head_def pool_free_def smp_send_reschedule_def gic_write_def)

lemma pool_free_fields [simp]:
  "tasks (pool_free i s) = tasks s" "whead (pool_free i s) = whead s" "percpu (pool_free i s) = percpu s"
  "tick_count (pool_free i s) = tick_count s" "length (wq_pool (pool_free i s)) = length (wq_pool s)"
  by (simp_all add: pool_free_def)

lemma pool_free_nth:
  assumes "i < WQ_POOL_SIZE" and "length (wq_pool s) = WQ_POOL_SIZE"
  shows "wq_pool (pool_free (int i) s) = (wq_pool s)[i := (wq_pool s ! i)\<lparr>in_use := False, wowner := None\<rparr>]"
  using assms by (simp add: pool_free_def)

lemma in_some_queue_remove:
  assumes "wq_inv Q s" and "i \<in> set (Q q)"
  shows "(\<exists>r. j \<in> set ((Q(q := removeAll i (Q q))) r)) \<longleftrightarrow> j \<noteq> i \<and> (\<exists>r. j \<in> set (Q r))"
proof
  assume "\<exists>r. j \<in> set ((Q(q := removeAll i (Q q))) r)"
  then obtain r where "j \<in> set (Q r)" "r = q \<longrightarrow> j \<noteq> i" by (auto split: if_splits)
  then show "j \<noteq> i \<and> (\<exists>r. j \<in> set (Q r))" using wq_invD(8) [OF assms] by blast
next
  assume "j \<noteq> i \<and> (\<exists>r. j \<in> set (Q r))"
  then obtain r where "j \<noteq> i" "j \<in> set (Q r)" by blast
  then show "\<exists>r. j \<in> set ((Q(q := removeAll i (Q q))) r)" by (intro exI [of _ r]) auto
qed

text \<open>
  The shape of both ways out of a queue: the links of the queue \<open>q\<close> now leave out \<open>i\<close>, and \<open>i\<close>
  goes back to the pool.
\<close>

lemma wq_inv_leave:
  assumes inv: "wq_inv Q s" and i: "i \<in> set (Q q)"
    and ch: "chain (wq_pool s1) (whead s1 q) (removeAll i (Q q))" and hd: "\<forall>r. r \<noteq> q \<longrightarrow> whead s1 r = whead s r"
    and data: "same_data (wq_pool s) (wq_pool s1)"
    and lk: "\<forall>j. j \<notin> set (Q q) \<longrightarrow> wnext (wq_pool s1 ! j) = wnext (wq_pool s ! j)"
  shows "wq_inv (Q(q := removeAll i (Q q))) (pool_free (int i) s1)"
proof -
  note I = wq_invD [OF inv]
  have i': "i < WQ_POOL_SIZE" by (rule I(5) [OF i])
  have len: "length (wq_pool s1) = WQ_POOL_SIZE" using data I(1) by (simp add: same_data_def)
  have pool: "wq_pool (pool_free (int i) s1) = (wq_pool s1)[i := (wq_pool s1 ! i)\<lparr>in_use := False, wowner := None\<rparr>]"
    by (rule pool_free_nth [OF i' len])
  let ?Q = "Q(q := removeAll i (Q q))"
  have out: "i \<notin> set (?Q r)" for r using I(8) [OF i, of r] by auto
  have "chain (wq_pool s1) (whead s1 r) (?Q r)" for r
  proof (cases "r = q")
    case False
    have "wnext (wq_pool s1 ! j) = wnext (wq_pool s ! j)" if "j \<in> set (Q r)" for j
      using lk that False I(8) by blast
    then have "chain (wq_pool s1) (whead s r) (Q r) = chain (wq_pool s) (whead s r) (Q r)"
      using len I(1) by (intro chain_same_links) simp_all
    then show ?thesis using I(2) [of r] hd False by simp
  qed (use ch in simp)
  then have chains: "chain (wq_pool (pool_free (int i) s1)) (whead (pool_free (int i) s1) r) (?Q r)" for r
    using out by (simp add: pool chain_upd)
  have d: "wowner (wq_pool s1 ! j) = wowner (wq_pool s ! j)" "in_use (wq_pool s1 ! j) = in_use (wq_pool s ! j)" for j
    using data by (simp_all add: same_data_def)
  show ?thesis
    unfolding wq_inv_def
  proof (intro conjI allI impI ballI)
    fix r
    show "chain (wq_pool (pool_free (int i) s1)) (whead (pool_free (int i) s1) r) (?Q r)" by (rule chains)
    show "distinct (?Q r)" using I(3) by (simp add: distinct_removeAll)
    fix j assume j: "j \<in> set (?Q r)"
    then have "j \<noteq> i" "j \<in> set (Q r)" using out [of r] by (auto split: if_splits)
    then show "wowner (wq_pool (pool_free (int i) s1) ! j) = Some r" using d(1) I(4) by (simp add: pool)
  next
    fix j assume j: "j < WQ_POOL_SIZE"
    have "in_use (wq_pool s ! j) \<longleftrightarrow> (\<exists>r. j \<in> set (Q r))" using I(6,7) j by blast
    then show "in_use (wq_pool (pool_free (int i) s1) ! j) \<longleftrightarrow> (\<exists>r. j \<in> set (?Q r))"
      unfolding in_some_queue_remove [OF inv i] using d(2) len i' by (auto simp: pool nth_list_update)
  qed (simp add: len)
qed

text \<open>What the queues leave to the scheduler and to the timer.\<close>

definition same_cpus :: "'a wq_state_scheme \<Rightarrow> 'a wq_state_scheme \<Rightarrow> bool" where
  "same_cpus s s' \<longleftrightarrow> percpu s' = percpu s \<and> regs s' = regs s \<and> ttbr0 s' = ttbr0 s \<and> tick_count s' = tick_count s"

lemma same_data_refl: "same_data p p"
  by (simp add: same_data_def)

lemma dequeue_wake_spec:
  assumes inv: "wq_inv Q s" and q: "Q q = i # xs"
  shows "wq_inv (Q(q := xs)) (dequeue_wake q s)"
    and "tasks (dequeue_wake q s) = tasks (wake_task 0 (task_id (wq_pool s ! i)) s)"
    and "same_cpus s (dequeue_wake q s)"
    and "j \<noteq> i \<Longrightarrow> task_id (wq_pool (dequeue_wake q s) ! j) = task_id (wq_pool s ! j) \<and>
       timeout_tick (wq_pool (dequeue_wake q s) ! j) = timeout_tick (wq_pool s ! j)"
proof -
  note I = wq_invD [OF inv]
  have i: "i \<in> set (Q q)" "i < WQ_POOL_SIZE" using q I(5) [of i q] by auto
  have h: "whead s q = int i" "chain (wq_pool s) (wnext (wq_pool s ! i)) xs" using I(2) [of q] q by auto
  have rm: "removeAll i (Q q) = xs" using I(3) [of q] q by (simp add: removeAll_id)
  let ?s1 = "set_head q (wnext (wq_pool s ! i)) s"
  let ?s2 = "wake_task 0 (task_id (wq_pool s ! i)) ?s1"
  have eq: "dequeue_wake q s = pool_free (int i) ?s2" using h by (simp add: dequeue_wake_def Let_def)
  have "wq_inv (Q(q := removeAll i (Q q))) (pool_free (int i) ?s2)"
    by (rule wq_inv_leave [OF inv i(1)]) (use h rm in \<open>simp_all add: same_data_refl\<close>)
  then show "wq_inv (Q(q := xs)) (dequeue_wake q s)" using eq rm by simp
  have "tasks ?s2 = tasks (wake_task 0 (task_id (wq_pool s ! i)) s)"
    by (simp add: wake_task_def wakeable_def)
  then show "tasks (dequeue_wake q s) = tasks (wake_task 0 (task_id (wq_pool s ! i)) s)" by (simp add: eq)
  show "same_cpus s (dequeue_wake q s)" by (simp add: eq same_cpus_def)
  show "j \<noteq> i \<Longrightarrow> task_id (wq_pool (dequeue_wake q s) ! j) = task_id (wq_pool s ! j) \<and>
       timeout_tick (wq_pool (dequeue_wake q s) ! j) = timeout_tick (wq_pool s ! j)"
    by (simp add: eq pool_free_nth i(2) I(1))
qed

lemma smp_fields [simp]:
  "wq_pool (smp_send_reschedule s) = wq_pool s" "whead (smp_send_reschedule s) = whead s"
  "tasks (smp_send_reschedule s) = tasks s" "percpu (smp_send_reschedule s) = percpu s"
  "tick_count (smp_send_reschedule s) = tick_count s"
  "gic_trace (smp_send_reschedule s) = gic_trace s @ [(0x08000F00, 0x01000000)]"
  by (simp_all add: smp_send_reschedule_def gic_write_def)

text \<open>The tasks after waking, in order, those with the given identifiers.\<close>

definition woken :: "int \<Rightarrow> int set \<Rightarrow> 'a task_state_scheme \<Rightarrow> 'a task_state_scheme \<Rightarrow> bool" where
  "woken r T s s' \<longleftrightarrow> length (tasks s') = length (tasks s) \<and> (\<forall>j<MAX_TASKS. tasks s' ! j =
     (if int j \<in> T \<and> status s j = TASK_BLOCKED then (tasks s ! j)\<lparr>wakeup_reason := r, tstate := TASK_READY\<rparr>
      else tasks s ! j))"

lemma woken_step:
  assumes "woken r T s t" and "length (tasks s) = MAX_TASKS" and "tasks t' = tasks (wake_task r x t)"
  shows "woken r (insert x T) s t'"
proof -
  have len: "length (tasks t) = MAX_TASKS" using assms(1,2) by (simp add: woken_def)
  show ?thesis
    unfolding woken_def
  proof (intro conjI allI impI)
    show "length (tasks t') = length (tasks s)" using assms len by simp
    fix j assume j: "j < MAX_TASKS"
    have t: "tasks t ! j = (if int j \<in> T \<and> status s j = TASK_BLOCKED
        then (tasks s ! j)\<lparr>wakeup_reason := r, tstate := TASK_READY\<rparr> else tasks s ! j)"
      using assms(1) j by (simp add: woken_def)
    show "tasks t' ! j = (if int j \<in> insert x T \<and> status s j = TASK_BLOCKED
        then (tasks s ! j)\<lparr>wakeup_reason := r, tstate := TASK_READY\<rparr> else tasks s ! j)"
      unfolding assms(3) wake_task_nth [OF len j] using t by auto
  qed
qed

lemma woken_refl: "woken r {} s s"
  by (simp add: woken_def)

lemma woken_cong: "woken r T s t \<Longrightarrow> tasks t' = tasks t \<Longrightarrow> woken r T s t'"
  by (simp add: woken_def)

text \<open>The entries of a set hold the same tasks and timeouts in both states.\<close>

definition same_waiters :: "nat set \<Rightarrow> 'a wq_state_scheme \<Rightarrow> 'a wq_state_scheme \<Rightarrow> bool" where
  "same_waiters E s s' \<longleftrightarrow> (\<forall>i\<in>E. task_id (wq_pool s' ! i) = task_id (wq_pool s ! i) \<and>
     timeout_tick (wq_pool s' ! i) = timeout_tick (wq_pool s ! i))"

text \<open>The loop of \<open>wq_wake_all\<close> empties its queue, and returns.\<close>

lemma wake_all_loop_spec:
  assumes "wq_inv Q s" and "length (tasks s0) = MAX_TASKS" and "woken 0 T s0 s"
    and "\<forall>i\<in>set (Q q). task_id (wq_pool s ! i) = f i"
  shows "\<exists>w s'. wake_all_loop q woke s = Some (w, s') \<and> wq_inv (Q(q := [])) s' \<and>
     woken 0 (T \<union> f ` set (Q q)) s0 s' \<and> same_cpus s s' \<and> same_waiters (- set (Q q)) s s'"
  using assms
proof (induction "Q q" arbitrary: Q s T woke)
  case Nil
  then have "whead s q < 0" using wq_invD(9) [OF Nil(2), of q] by simp
  then show ?case using Nil by (subst wake_all_loop.simps) (auto simp: fun_upd_idem same_waiters_def same_cpus_def)
next
  case (Cons i xs)
  note q = Cons.hyps(2) [symmetric] and I = wq_invD [OF Cons.prems(1)]
  note d = dequeue_wake_spec [OF Cons.prems(1) q]
  have h: "whead s q = int i" using I(2) [of q] q by simp
  have "distinct (i # xs)" using I(3) [of q] q by simp
  then have "task_id (wq_pool (dequeue_wake q s) ! j) = f j" if "j \<in> set xs" for j
    using d(4) [of j] Cons.prems(4) q that by auto
  then have ids: "\<forall>j\<in>set ((Q(q := xs)) q). task_id (wq_pool (dequeue_wake q s) ! j) = f j" by simp
  have "task_id (wq_pool s ! i) = f i" using Cons.prems(4) q by simp
  then have w: "woken 0 (insert (f i) T) s0 (dequeue_wake q s)"
    using woken_step [OF Cons.prems(3,2)] d(2) by simp
  note IH = Cons.hyps(1) [of "Q(q := xs)", OF _ d(1) Cons.prems(2) w ids]
  from IH [of "woke \<or> wakeable (task_id (wq_pool s ! nat (whead s q))) s"]
  obtain w' s' where s': "wake_all_loop q (woke \<or> wakeable (task_id (wq_pool s ! nat (whead s q))) s) (dequeue_wake q s) = Some (w', s')"
    "wq_inv (Q(q := [])) s'" "woken 0 (insert (f i) T \<union> f ` set xs) s0 s'" "same_cpus (dequeue_wake q s) s'"
    "same_waiters (- set xs) (dequeue_wake q s) s'" by auto
  have "same_waiters (- set (Q q)) s s'" using s'(5) d(4) q by (auto simp: same_waiters_def)
  moreover have "same_cpus s s'" using s'(4) d(3) by (simp add: same_cpus_def)
  ultimately show ?case
    using h q s' by (subst wake_all_loop.simps) (simp add: Un_commute)
qed

section \<open>Timer ticks\<close>

text \<open>What is left of the queues when the expired entries among the first \<open>k\<close> of the pool are gone.\<close>

definition unexpired :: "u64 \<Rightarrow> wq_entry list \<Rightarrow> nat \<Rightarrow> (wq_ref \<Rightarrow> nat list) \<Rightarrow> wq_ref \<Rightarrow> nat list" where
  "unexpired now p k Q = (\<lambda>q. filter (\<lambda>i. \<not> (i < k \<and> expired now (p ! i))) (Q q))"

definition tick_state ::
  "(wq_ref \<Rightarrow> nat list) \<Rightarrow> 'a wq_state_scheme \<Rightarrow> nat \<Rightarrow> 'a wq_state_scheme \<Rightarrow> bool" where
  "tick_state Q s k t \<longleftrightarrow> wq_inv (unexpired (tick_count s) (wq_pool s) k Q) t \<and>
     woken (- 1) {task_id (wq_pool s ! i) | i. i < k \<and> expired (tick_count s) (wq_pool s ! i)} s t \<and>
     (\<forall>i. task_id (wq_pool t ! i) = task_id (wq_pool s ! i) \<and> timeout_tick (wq_pool t ! i) = timeout_tick (wq_pool s ! i)) \<and>
     (\<forall>i. k \<le> i \<and> i < WQ_POOL_SIZE \<longrightarrow> in_use (wq_pool t ! i) = in_use (wq_pool s ! i)) \<and>
     same_cpus s t"

lemma unexpired_Suc:
  "unexpired now p (Suc k) Q = (if expired now (p ! k) then (\<lambda>q. removeAll k (unexpired now p k Q q)) else unexpired now p k Q)"
proof -
  have "filter (\<lambda>i. \<not> (i < Suc k \<and> expired now (p ! i))) xs =
     (if expired now (p ! k) then removeAll k (filter (\<lambda>i. \<not> (i < k \<and> expired now (p ! i))) xs)
      else filter (\<lambda>i. \<not> (i < k \<and> expired now (p ! i))) xs)" for xs
    by (auto simp: removeAll_filter_not_eq less_Suc_eq intro!: filter_cong)
  then show ?thesis by (auto simp: unexpired_def)
qed

lemma wq_tick_entry_spec:
  assumes inv: "wq_inv Q s" and len: "length (tasks s) = MAX_TASKS" and k: "k < WQ_POOL_SIZE" and t: "tick_state Q s k t"
  shows "\<exists>t'. wq_tick_entry (tick_count s) k t = Some t' \<and> tick_state Q s (Suc k) t'"
proof -
  let ?now = "tick_count s" and ?Q = "unexpired (tick_count s) (wq_pool s) k Q"
  have T: "wq_inv ?Q t" "woken (- 1) {task_id (wq_pool s ! i) | i. i < k \<and> expired ?now (wq_pool s ! i)} s t"
    "\<forall>i. task_id (wq_pool t ! i) = task_id (wq_pool s ! i) \<and> timeout_tick (wq_pool t ! i) = timeout_tick (wq_pool s ! i)"
    "\<forall>i. k \<le> i \<and> i < WQ_POOL_SIZE \<longrightarrow> in_use (wq_pool t ! i) = in_use (wq_pool s ! i)"
    "same_cpus s t"
    using t by (simp_all add: tick_state_def)
  have ex: "expired ?now (wq_pool t ! k) = expired ?now (wq_pool s ! k)" using T(3,4) k by (simp add: expired_def)
  have ids: "{task_id (wq_pool s ! i) | i. i < Suc k \<and> expired ?now (wq_pool s ! i)} =
     (if expired ?now (wq_pool s ! k) then insert (task_id (wq_pool s ! k)) else (\<lambda>x. x))
       {task_id (wq_pool s ! i) | i. i < k \<and> expired ?now (wq_pool s ! i)}"
    by (auto simp: less_Suc_eq)
  show ?thesis
  proof (cases "expired ?now (wq_pool s ! k)")
    case False
    then show ?thesis
      using T ex ids by (intro exI [of _ t]) (simp add: wq_tick_entry_def tick_state_def unexpired_Suc)
  next
    case True
    note I = wq_invD [OF T(1)]
    obtain q where q: "k \<in> set (?Q q)" using I(7) [OF k] True ex by (auto simp: expired_def)
    let ?t1 = "wake_task (- 1) (task_id (wq_pool t ! k)) t"
    have own: "wowner (wq_pool ?t1 ! k) = Some q" using I(4) [OF q] by simp
    have ch: "chain (wq_pool ?t1) (whead ?t1 q) (?Q q)" using I(2) [of q] by simp
    obtain t2 where t2: "queue_remove q (int k) ?t1 = Some t2" "chain (wq_pool t2) (whead t2 q) (removeAll k (?Q q))"
      "\<forall>r. r \<noteq> q \<longrightarrow> whead t2 r = whead ?t1 r" "same_data (wq_pool ?t1) (wq_pool t2)" "same_tasks ?t1 t2"
      "\<forall>j. j \<notin> set (?Q q) \<longrightarrow> wnext (wq_pool t2 ! j) = wnext (wq_pool ?t1 ! j)"
      by (rule queue_remove_spec [OF ch I(3) q])
    let ?t' = "pool_free (int k) t2"
    have e: "wq_tick_entry ?now k t = Some ?t'"
      using True ex own t2(1) by (simp add: wq_tick_entry_def Let_def)
    have inv': "wq_inv (?Q(q := removeAll k (?Q q))) ?t'"
      by (rule wq_inv_leave [OF T(1) q]) (use t2 in simp_all)
    have rm: "removeAll k (?Q r) = (?Q(q := removeAll k (?Q q))) r" for r
      using I(8) [OF q, of r] by (cases "r = q") (auto intro: removeAll_id)
    have Q': "unexpired ?now (wq_pool s) (Suc k) Q = ?Q(q := removeAll k (?Q q))"
      unfolding unexpired_Suc if_P [OF True] by (rule ext, rule rm)
    have same: "tasks ?t' = tasks (wake_task (- 1) (task_id (wq_pool t ! k)) t)" "same_cpus s ?t'"
      using same_tasksD [OF t2(5)] T(5) by (simp_all add: same_cpus_def)
    have w: "woken (- 1) (insert (task_id (wq_pool s ! k)) {task_id (wq_pool s ! i) | i. i < k \<and> expired ?now (wq_pool s ! i)}) s ?t'"
      using woken_step [OF T(2) len same(1)] T(3) by simp
    have len2: "length (wq_pool t2) = WQ_POOL_SIZE" using t2(4) I(1) by (simp add: same_data_def)
    have pool: "wq_pool ?t' = (wq_pool t2)[k := (wq_pool t2 ! k)\<lparr>in_use := False, wowner := None\<rparr>]"
      by (rule pool_free_nth [OF k len2])
    have data: "task_id (wq_pool ?t' ! i) = task_id (wq_pool s ! i) \<and> timeout_tick (wq_pool ?t' ! i) = timeout_tick (wq_pool s ! i)"
      "Suc k \<le> i \<and> i < WQ_POOL_SIZE \<Longrightarrow> in_use (wq_pool ?t' ! i) = in_use (wq_pool s ! i)" for i
      using t2(4) T(3,4) k len2 by (auto simp: pool same_data_def nth_list_update)
    show ?thesis
      using e inv' Q' w ids True data same by (auto simp: tick_state_def)
  qed
qed

lemma wq_tick_spec:
  assumes inv: "wq_inv Q s" and len: "length (tasks s) = MAX_TASKS"
  obtains s' where "wq_tick s = Some s'" "tick_state Q s WQ_POOL_SIZE s'"
proof -
  let ?f = "\<lambda>i r. case r of None \<Rightarrow> None | Some t \<Rightarrow> wq_tick_entry (tick_count s) i t"
  let ?P = "\<lambda>k r. \<exists>t. r = Some t \<and> tick_state Q s k t"
  have "unexpired (tick_count s) (wq_pool s) 0 Q = Q" by (simp add: unexpired_def)
  then have "tick_state Q s 0 s" using inv by (simp add: tick_state_def woken_refl same_cpus_def)
  then have "?P WQ_POOL_SIZE (for_loop 0 WQ_POOL_SIZE ?f (Some s))"
    by (intro for_loop_inv [where P = ?P]) (use wq_tick_entry_spec [OF inv len] in auto)
  then show ?thesis using that by (auto simp: wq_tick_def Let_def timer_get_ticks_def)
qed

section \<open>Blocking\<close>

lemma write_ctx_more [simp]: "sched_state.more (write_ctx c r x s) = sched_state.more s"
  by (cases r) (simp_all add: upd_task_def upd_cpu_def)

lemma schedule_more: "sched_state.more (schedule c s) = sched_state.more s"
proof -
  have u: "sched_state.more (upd_task i f t) = sched_state.more t" "sched_state.more (upd_cpu c g t) = sched_state.more t"
    for i f g and t :: "'a sched_state_scheme" by (simp_all add: upd_task_def upd_cpu_def)
  have p: "sched_state.more (snd (put_back x s)) = sched_state.more s" for x
    by (simp add: put_back_def u split: option.split)
  obtain r s1 where pb: "put_back (current_task_id (percpu s ! c)) s = (r, s1)" by fastforce
  then have "sched_state.more s1 = sched_state.more s" using p by (metis snd_conv)
  then show ?thesis
    using pb by (simp add: schedule_def Let_def context_switch_def u split: option.split)
qed

lemma schedule_wq [simp]:
  "wq_pool (schedule c s) = wq_pool s" "whead (schedule c s) = whead s" "tick_count (schedule c s) = tick_count s"
  "gic_trace (schedule c s) = gic_trace s"
  using schedule_more [of c s] by (cases s, cases "schedule c s", simp)+

text \<open>A queue as its client sees it: who waits, until when, in order.\<close>

definition waiting :: "(wq_ref \<Rightarrow> nat list) \<Rightarrow> 'a wq_state_scheme \<Rightarrow> wq_ref \<Rightarrow> (int \<times> u64) list" where
  "waiting Q s q = map (\<lambda>i. (task_id (wq_pool s ! i), timeout_tick (wq_pool s ! i))) (Q q)"

lemma enqueue_waiting:
  assumes inv: "wq_inv Q s" and room: "card (wq_used s) < WQ_POOL_SIZE"
  obtains i s' where "pool_alloc s = (int i, upd_entry i (\<lambda>e. e\<lparr>in_use := True, wnext := - 1\<rparr>) s)"
    "enqueue_current q t tmo i (upd_entry i (\<lambda>e. e\<lparr>in_use := True, wnext := - 1\<rparr>) s) = Some (block_task t s')"
    "wq_inv (Q(q := Q q @ [i])) s'" "same_tasks s s'"
    "waiting (Q(q := Q q @ [i])) s' = (waiting Q s)(q := waiting Q s q @ [(t, tmo)])"
proof (cases s rule: pool_alloc_cases)
  case full
  then show ?thesis using room by simp
next
  case (ok i)
  obtain s' where s': "enqueue_current q t tmo i (upd_entry i (\<lambda>e. e\<lparr>in_use := True, wnext := - 1\<rparr>) s) = Some (block_task t s')"
    "wq_inv (Q(q := Q q @ [i])) s'" "same_tasks s s'" "task_id (wq_pool s' ! i) = t" "timeout_tick (wq_pool s' ! i) = tmo"
    "\<forall>j. j \<noteq> i \<longrightarrow> task_id (wq_pool s' ! j) = task_id (wq_pool s ! j) \<and> timeout_tick (wq_pool s' ! j) = timeout_tick (wq_pool s ! j)"
    by (rule enqueue_spec [OF inv ok(2,3)])
  have "i \<notin> set (Q r)" for r using wq_invD(6) [OF inv] ok(2,3) by (auto simp: wq_used_def)
  then have "j \<in> set (Q r) \<Longrightarrow> j \<noteq> i" for j r by metis
  then have "waiting (Q(q := Q q @ [i])) s' = (waiting Q s)(q := waiting Q s q @ [(t, tmo)])"
    using s'(4-6) by (auto simp: waiting_def fun_eq_iff)
  with ok(1) s'(1-3) show ?thesis by (rule that)
qed

lemma task_current_id_simps [simp]: "task_current_id c (upd_entry i g s) = task_current_id c s"
  by (simp add: task_current_id_def)

lemma block_task_nth:
  assumes "length (tasks s) = MAX_TASKS" and "i < MAX_TASKS"
  shows "tasks (block_task t s) ! i =
    (if t = int i \<and> status s i \<noteq> TASK_DEAD then (tasks s ! i)\<lparr>wakeup_reason := 0, tstate := TASK_BLOCKED\<rparr> else tasks s ! i)"
  using assms by (auto simp: block_task_def task_get_def nth_list_update split: if_splits)

lemma block_task_sched [simp]:
  "length (tasks (block_task t s)) = length (tasks s)" "regs (block_task t s) = regs s" "ttbr0 (block_task t s) = ttbr0 s"
  by (simp_all add: block_task_def split: option.split)

lemma sched_ok_cong:
  "length (tasks s') = length (tasks s) \<Longrightarrow> percpu s' = percpu s \<Longrightarrow> regs s' = regs s \<Longrightarrow> ttbr0 s' = ttbr0 s \<Longrightarrow> sched_ok s' = sched_ok s"
  by (simp add: sched_ok_def)

lemma sched_ok_block_task [simp]: "sched_ok (block_task t s) = sched_ok s"
  by (rule sched_ok_cong) simp_all

lemma same_tasks_sched_ok: "same_tasks s s' \<Longrightarrow> sched_ok s' = sched_ok s"
  using same_tasksD [of s s'] by (intro sched_ok_cong) simp_all

text \<open>A task that blocks is not taken by the call of \<open>schedule\<close> that follows, so it leaves the CPU.\<close>

definition gave_up :: "nat \<Rightarrow> nat \<Rightarrow> 'a sched_state_scheme \<Rightarrow> 'a sched_state_scheme \<Rightarrow> bool" where
  "gave_up c T s s' \<longleftrightarrow> sched_ok s' \<and> status s' T = TASK_BLOCKED \<and> cur_of s' c \<noteq> int T \<and>
     (\<forall>d<MAX_CPUS. d \<noteq> c \<longrightarrow> cur_of s' d = cur_of s d) \<and>
     (\<forall>i<MAX_TASKS. i \<noteq> T \<longrightarrow> status s' i = TASK_BLOCKED \<longleftrightarrow> status s i = TASK_BLOCKED) \<and>
     (\<forall>i<MAX_TASKS. i \<noteq> T \<longrightarrow> status s' i = TASK_DEAD \<longleftrightarrow> status s i = TASK_DEAD) \<and>
     (\<forall>i<MAX_TASKS. i \<noteq> T \<longrightarrow> cur_of s' c = int i \<longrightarrow> status s i = TASK_READY)"

lemma schedule_gave_up:
  assumes "sched_ok s" and "c < MAX_CPUS" and "cur_of s c = int T" and "status s T \<noteq> TASK_DEAD"
    and "same_tasks s s1"
  shows "gave_up c T s (schedule c (block_task (int T) s1))"
proof -
  let ?b = "block_task (int T) s1"
  have T: "T < MAX_TASKS" using assms(1-3) by (auto simp: sched_ok_def)
  have ok: "sched_ok ?b" and same: "tasks s1 = tasks s" "percpu s1 = percpu s"
    using assms(1) same_tasks_sched_ok [OF assms(5)] same_tasksD [OF assms(5)] by simp_all
  have len: "length (tasks s1) = MAX_TASKS" using assms(1) same by (simp add: sched_ok_def)
  then have b: "status ?b T = TASK_BLOCKED" using assms(4) T same(1) by (simp add: block_task_nth)
  then have n: "chosen c ?b \<noteq> Some T" using chosen_ready(2) [of c ?b T] by auto
  have "status (schedule c ?b) T = TASK_BLOCKED"
    unfolding scheduledD(1) [OF ok assms(2) T] b after_put_back_def using n by simp
  moreover have "cur_of (schedule c ?b) d = (if d = c then case chosen c ?b of Some i \<Rightarrow> int i | None \<Rightarrow> - 1 else cur_of s d)"
    if "d < MAX_CPUS" for d using scheduledD(2) [OF ok assms(2) that] same(2) by simp
  moreover have other: "status ?b i = status s i" if "i < MAX_TASKS" "i \<noteq> T" for i
    using that len same(1) by (simp add: block_task_nth)
  moreover have "status (schedule c ?b) i = TASK_BLOCKED \<longleftrightarrow> status s i = TASK_BLOCKED"
    "status (schedule c ?b) i = TASK_DEAD \<longleftrightarrow> status s i = TASK_DEAD" if "i < MAX_TASKS" "i \<noteq> T" for i
    unfolding scheduledD(1) [OF ok assms(2) that(1)] other [OF that] after_put_back_def
    using chosen_ready(2) [of c ?b i] other [OF that] by auto
  moreover have "status s i = TASK_READY" if "chosen c ?b = Some i" "i < MAX_TASKS" "i \<noteq> T" for i
    using chosen_ready(2) [OF that(1)] other [OF that(2,3)] by simp
  ultimately show ?thesis
    using sched_ok_schedule [OF ok assms(2)] n assms(2) by (auto simp: gave_up_def split: option.splits)
qed

lemma waiting_cong: "wq_pool s' = wq_pool s \<Longrightarrow> waiting Q s' = waiting Q s"
  by (simp add: waiting_def fun_eq_iff)

text \<open>Both waits in one: the entry of the caller joins the back of the queue, and the caller leaves the CPU.\<close>

definition joined ::
  "nat \<Rightarrow> nat \<Rightarrow> wq_ref \<Rightarrow> u64 \<Rightarrow> (wq_ref \<Rightarrow> nat list) \<Rightarrow> 'a wq_state_scheme \<Rightarrow> (wq_ref \<Rightarrow> nat list) \<Rightarrow> 'a wq_state_scheme \<Rightarrow> bool" where
  "joined c T q tmo Q s Q' s' \<longleftrightarrow> wq_inv Q' s' \<and> waiting Q' s' = (waiting Q s)(q := waiting Q s q @ [(int T, tmo)]) \<and>
     gave_up c T s s' \<and> tick_count s' = tick_count s"

lemma wait_spec:
  assumes "wq_inv Q s" and "sched_ok s" and "c < MAX_CPUS" and "cur_of s c = int T" and "status s T \<noteq> TASK_DEAD"
    and "card (wq_used s) < WQ_POOL_SIZE"
  obtains Q' s' where "joined c T q tmo Q s Q' s'" and "tmo = 0 \<longrightarrow> wq_wait c q s = Some (Gave_up (int T) s')"
    and "tmo = tick_count s + n \<longrightarrow> wq_wait_timeout c q n s = Some (Gave_up (int T) s')"
proof -
  obtain i s1 where s1: "pool_alloc s = (int i, upd_entry i (\<lambda>e. e\<lparr>in_use := True, wnext := - 1\<rparr>) s)"
    "enqueue_current q (int T) tmo i (upd_entry i (\<lambda>e. e\<lparr>in_use := True, wnext := - 1\<rparr>) s) = Some (block_task (int T) s1)"
    "wq_inv (Q(q := Q q @ [i])) s1" "same_tasks s s1"
    "waiting (Q(q := Q q @ [i])) s1 = (waiting Q s)(q := waiting Q s q @ [(int T, tmo)])"
    by (rule enqueue_waiting [OF assms(1,6)])
  let ?s' = "schedule c (block_task (int T) s1)"
  have id: "task_current_id c s = int T" using assms(4) by (simp add: task_current_id_def)
  have same: "wq_pool ?s' = wq_pool s1" "whead ?s' = whead s1" by simp_all
  have "wq_inv (Q(q := Q q @ [i])) ?s'" "waiting (Q(q := Q q @ [i])) ?s' = waiting (Q(q := Q q @ [i])) s1"
    using s1(3) wq_inv_cong [OF same] waiting_cong [OF same(1)] by blast+
  then have "joined c T q tmo Q s (Q(q := Q q @ [i])) ?s'"
    unfolding joined_def using s1(5) schedule_gave_up [OF assms(2-5) s1(4)] same_tasksD [OF s1(4)] by simp
  then show ?thesis
  proof (rule that)
    show "tmo = 0 \<longrightarrow> wq_wait c q s = Some (Gave_up (int T) ?s')"
      using s1(2) by (auto simp: wq_wait_def Let_def id s1(1))
    show "tmo = tick_count s + n \<longrightarrow> wq_wait_timeout c q n s = Some (Gave_up (int T) ?s')"
      using s1(2) by (auto simp: wq_wait_timeout_def Let_def id s1(1) timer_get_ticks_def)
  qed
qed

lemma waiting_same: "same_waiters E s s' \<Longrightarrow> (\<And>r. set (Q r) \<subseteq> E) \<Longrightarrow> waiting Q s' = waiting Q s"
  unfolding same_waiters_def waiting_def by (intro ext map_cong refl) blast

lemma wake_one_spec:
  assumes inv: "wq_inv Q s" and len: "length (tasks s) = MAX_TASKS" and q: "Q q = i # xs"
  shows "wq_inv (Q(q := xs)) (wq_wake_one q s)"
    and "waiting (Q(q := xs)) (wq_wake_one q s) = (waiting Q s)(q := tl (waiting Q s q))"
    and "woken 0 {task_id (wq_pool s ! i)} s (wq_wake_one q s)"
    and "same_cpus s (wq_wake_one q s)"
proof -
  note d = dequeue_wake_spec [OF inv q] and I = wq_invD [OF inv]
  have "whead s q \<ge> 0" using I(9) [of q] q by simp
  then have w: "wq_wake_one q s = dequeue_wake q s \<or> wq_wake_one q s = smp_send_reschedule (dequeue_wake q s)"
    by (simp add: wq_wake_one_def Let_def)
  then have same: "wq_pool (wq_wake_one q s) = wq_pool (dequeue_wake q s)" "whead (wq_wake_one q s) = whead (dequeue_wake q s)"
    "tasks (wq_wake_one q s) = tasks (dequeue_wake q s)" "same_cpus (dequeue_wake q s) (wq_wake_one q s)"
    by (auto simp: same_cpus_def)
  show "wq_inv (Q(q := xs)) (wq_wake_one q s)" using d(1) wq_inv_cong [OF same(1,2)] by blast
  have "distinct (i # xs)" using I(3) [of q] q by simp
  then have "j \<noteq> i" if "j \<in> set ((Q(q := xs)) r)" for j r
    using that I(8) [of i q r] q by (auto split: if_splits)
  then have "i \<notin> set ((Q(q := xs)) r)" for r by blast
  moreover have "same_waiters (- {i}) s (dequeue_wake q s)" using d(4) unfolding same_waiters_def by blast
  ultimately have "waiting (Q(q := xs)) (dequeue_wake q s) = waiting (Q(q := xs)) s" by (intro waiting_same) blast+
  moreover have "waiting (Q(q := xs)) s = (waiting Q s)(q := tl (waiting Q s q))"
    using q by (auto simp: waiting_def fun_eq_iff)
  ultimately show "waiting (Q(q := xs)) (wq_wake_one q s) = (waiting Q s)(q := tl (waiting Q s q))"
    unfolding waiting_cong [OF same(1)] by (rule trans)
  show "woken 0 {task_id (wq_pool s ! i)} s (wq_wake_one q s)"
    using woken_step [OF woken_refl len] d(2) same(3) by simp
  show "same_cpus s (wq_wake_one q s)" using d(3) same(4) by (simp add: same_cpus_def)
qed

lemma wake_all_spec:
  assumes inv: "wq_inv Q s" and len: "length (tasks s) = MAX_TASKS"
  obtains s' where "wq_wake_all q s = Some s'" "wq_inv (Q(q := [])) s'" "waiting (Q(q := [])) s' = (waiting Q s)(q := [])"
    "woken 0 (fst ` set (waiting Q s q)) s s'" "same_cpus s s'"
proof -
  obtain w s1 where s1: "wake_all_loop q False s = Some (w, s1)" "wq_inv (Q(q := [])) s1"
    "woken 0 ((\<lambda>i. task_id (wq_pool s ! i)) ` set (Q q)) s s1" "same_cpus s s1" "same_waiters (- set (Q q)) s s1"
    using wake_all_loop_spec [OF inv len woken_refl, of q "\<lambda>i. task_id (wq_pool s ! i)" False] by auto
  let ?s' = "if w then smp_send_reschedule s1 else s1"
  have same: "wq_pool ?s' = wq_pool s1" "whead ?s' = whead s1" "tasks ?s' = tasks s1" "same_cpus s1 ?s'"
    by (simp_all add: same_cpus_def)
  have "j \<notin> set (Q q)" if "j \<in> set (Q r)" "r \<noteq> q" for j r using that wq_invD(8) [OF inv] by blast
  then have "waiting (Q(q := [])) ?s' = (waiting Q s)(q := [])"
    using s1(5) by (auto simp: waiting_def same(1) fun_eq_iff same_waiters_def)
  moreover have "wq_inv (Q(q := [])) ?s'" using s1(2) wq_inv_cong [OF same(1,2)] by blast
  moreover have "woken 0 (fst ` set (waiting Q s q)) s ?s'"
    using woken_cong [OF s1(3) same(3)] by (simp add: waiting_def image_image)
  moreover have "same_cpus s ?s'" using s1(4) same(4) by (simp add: same_cpus_def)
  ultimately show ?thesis using that [of ?s'] s1(1) by (simp add: wq_wake_all_def)
qed

lemma wq_tick_waiting:
  assumes inv: "wq_inv Q s" and len: "length (tasks s) = MAX_TASKS"
  obtains Q' s' where "wq_tick s = Some s'" "wq_inv Q' s'"
    "waiting Q' s' = (\<lambda>q. filter (\<lambda>(t, tmo). tmo = 0 \<or> tick_count s < tmo) (waiting Q s q))"
    "woken (- 1) {t. \<exists>q tmo. (t, tmo) \<in> set (waiting Q s q) \<and> tmo \<noteq> 0 \<and> tmo \<le> tick_count s} s s'"
    "same_cpus s s'"
proof -
  obtain s' where s': "wq_tick s = Some s'" "tick_state Q s WQ_POOL_SIZE s'" by (rule wq_tick_spec [OF inv len])
  note I = wq_invD [OF inv]
  let ?now = "tick_count s" and ?Q = "unexpired (tick_count s) (wq_pool s) WQ_POOL_SIZE Q"
  note T = s'(2) [unfolded tick_state_def]
  have ex: "expired ?now (wq_pool s ! i) \<longleftrightarrow> timeout_tick (wq_pool s ! i) \<noteq> 0 \<and> timeout_tick (wq_pool s ! i) \<le> ?now"
    if "i \<in> set (Q q)" for i q using I(6) [OF that] by (auto simp: expired_def not_less)
  have "filter (\<lambda>i. \<not> (i < WQ_POOL_SIZE \<and> expired ?now (wq_pool s ! i))) (Q q) =
     filter (\<lambda>i. timeout_tick (wq_pool s ! i) = 0 \<or> ?now < timeout_tick (wq_pool s ! i)) (Q q)" for q
    by (rule filter_cong) (use ex I(5) in \<open>auto simp: not_le\<close>)
  then have "waiting ?Q s' = (\<lambda>q. filter (\<lambda>(t, tmo). tmo = 0 \<or> ?now < tmo) (waiting Q s q))"
    using T by (auto simp: waiting_def unexpired_def fun_eq_iff filter_map o_def)
  moreover have "{task_id (wq_pool s ! i) | i. i < WQ_POOL_SIZE \<and> expired ?now (wq_pool s ! i)} =
     {t. \<exists>q tmo. (t, tmo) \<in> set (waiting Q s q) \<and> tmo \<noteq> 0 \<and> tmo \<le> ?now}" (is "?A = ?B")
  proof
    show "?A \<subseteq> ?B"
    proof
      fix x assume "x \<in> ?A"
      then obtain i where i: "x = task_id (wq_pool s ! i)" "i < WQ_POOL_SIZE" "expired ?now (wq_pool s ! i)" by blast
      then obtain q where "i \<in> set (Q q)" using I(7) [OF i(2)] by (auto simp: expired_def)
      then show "x \<in> ?B" using i ex by (auto simp: waiting_def)
    qed
    show "?B \<subseteq> ?A" using ex I(5) by (fastforce simp: waiting_def)
  qed
  ultimately show ?thesis using that [of s' ?Q] s'(1) T by simp
qed

section \<open>The wait queues are first-in first-out\<close>

text \<open>The pool of a machine that has just booted.\<close>

definition boot_wq :: "'a wq_state_scheme \<Rightarrow> 'a wq_state_scheme" where
  "boot_wq s = sleep_init (wq_pool_init s)"

lemma wq_pool_init_spec:
  "wq_pool_init s = s\<lparr>wq_pool := map (\<lambda>e. e\<lparr>in_use := False, wnext := - 1, wowner := None\<rparr>) (take WQ_POOL_SIZE (wq_pool s))
     @ drop WQ_POOL_SIZE (wq_pool s)\<rparr>"
proof -
  let ?f = "\<lambda>e :: wq_entry. e\<lparr>in_use := False, wnext := - 1, wowner := None\<rparr>"
  have "for_loop 0 k (\<lambda>i. upd_entry i ?f) s = s\<lparr>wq_pool := map ?f (take k (wq_pool s)) @ drop k (wq_pool s)\<rparr>" for k
  proof (induction k)
    case (Suc k)
    show ?case
    proof (cases "k < length (wq_pool s)")
      case True
      then show ?thesis
        using Suc by (simp add: for_loop_Suc upd_entry_def take_Suc_conv_app_nth list_update_append nth_append
            Cons_nth_drop_Suc [symmetric])
    next
      case False
      then show ?thesis using Suc by (simp add: for_loop_Suc upd_entry_def list_update_beyond)
    qed
  qed simp
  then show ?thesis by (simp add: wq_pool_init_def)
qed

lemma boot_wq_inv:
  assumes "length (wq_pool s) = WQ_POOL_SIZE" and "\<forall>k. whead s (Futex_wq k) = - 1"
  shows "wq_inv (\<lambda>_. []) (boot_wq s)" "wq_used (boot_wq s) = {}" "waiting (\<lambda>_. []) (boot_wq s) = (\<lambda>_. [])"
proof -
  have "whead (boot_wq s) q = - 1" for q
    using assms(2) by (cases q) (simp_all add: boot_wq_def sleep_init_def wq_init_def wq_pool_init_spec)
  then show "wq_inv (\<lambda>_. []) (boot_wq s)"
    using assms(1) by (auto simp: wq_inv_def boot_wq_def sleep_init_def wq_init_def wq_pool_init_spec)
  show "wq_used (boot_wq s) = {}"
    using assms(1) by (auto simp: wq_used_def boot_wq_def sleep_init_def wq_init_def wq_pool_init_spec)
  show "waiting (\<lambda>_. []) (boot_wq s) = (\<lambda>_. [])" by (simp add: waiting_def fun_eq_iff)
qed

definition wq_machine :: "int list \<Rightarrow> (nat \<Rightarrow> task_status) \<Rightarrow> u64 \<Rightarrow> wq_state" where
  "wq_machine curs st now = boot_wq (sched_state.extend (machine_with curs st)
     \<lparr>wq_pool = replicate 64 \<lparr>task_id = 0, timeout_tick = 0, wnext = 0, in_use = False, wowner = None\<rparr>,
      whead = (\<lambda>_. - 1), tick_count = now, gic_trace = []\<rparr>)"

lemma wq_machine_queues:
  "wq_inv (\<lambda>_. []) (wq_machine curs st now)" "wq_used (wq_machine curs st now) = {}"
  "waiting (\<lambda>_. []) (wq_machine curs st now) = (\<lambda>_. [])"
  unfolding wq_machine_def
  by (rule boot_wq_inv; simp add: sched_state.defs WQ_POOL_SIZE_def)+

lemma wq_machine_simps [simp]:
  "tasks (wq_machine curs st now) = tasks (machine_with curs st)" "percpu (wq_machine curs st now) = percpu (machine_with curs st)"
  "regs (wq_machine curs st now) = regs (machine_with curs st)" "ttbr0 (wq_machine curs st now) = ttbr0 (machine_with curs st)"
  "tick_count (wq_machine curs st now) = now"
  by (simp_all add: wq_machine_def sched_state.defs boot_wq_def sleep_init_def wq_init_def wq_pool_init_spec set_head_def)

lemma wq_machine_ok:
  "list_all (\<lambda>i. - 1 \<le> i \<and> i < 32) curs \<Longrightarrow> length curs = 4 \<Longrightarrow> sched_ok (wq_machine curs st now)"
  using machine_with_ok [of curs st] by (simp add: sched_ok_def)

text \<open>
  Waiting joins the back of the line: when the pool has an entry left, \<open>wq_wait\<close> and
  \<open>wq_wait_timeout\<close> return from the walk along the queue, append the caller with its timeout
  (0 for none, the tick count plus the argument otherwise) to that queue, leave every other
  queue as it was, and the caller is blocked and no longer current on its CPU. When the pool is
  full they return at once, and nothing is changed.
\<close>

theorem wq_wait_joins_back:
  assumes "wq_inv Q s" and "sched_ok s" and "c < MAX_CPUS" and "cur_of s c = int T" and "status s T \<noteq> TASK_DEAD"
  shows "if card (wq_used s) < WQ_POOL_SIZE
    then (\<exists>Q' s'. wq_wait c q s = Some (Gave_up (int T) s') \<and> joined c T q 0 Q s Q' s') \<and>
         (\<exists>Q' s'. wq_wait_timeout c q n s = Some (Gave_up (int T) s') \<and> joined c T q (tick_count s + n) Q s Q' s')
    else wq_wait c q s = Some (Returned 0 s) \<and> wq_wait_timeout c q n s = Some (Returned (- 1) s)"
proof (cases "card (wq_used s) < WQ_POOL_SIZE")
  case True
  then show ?thesis
    using wait_spec [OF assms True, of q 0] wait_spec [OF assms True, of q "tick_count s + n" n] by metis
next
  case False
  have "pool_alloc s = (- 1, s)"
  proof (cases s rule: pool_alloc_cases)
    case (ok i)
    then have "wq_used s \<subset> {..<WQ_POOL_SIZE}" by (auto simp: wq_used_def)
    then show ?thesis using False psubset_card_mono [of "{..<WQ_POOL_SIZE}" "wq_used s"] by simp
  qed
  moreover have "task_current_id c s = int T" using assms(4) by (simp add: task_current_id_def)
  ultimately show ?thesis using False by (simp add: wq_wait_def wq_wait_timeout_def Let_def)
qed

theorem wq_wait_joins_back_witness:
  "\<exists>Q s. wq_wait_timeout 1 Sleep_wq 5 (wq_machine [- 1, 7, - 1, - 1] ((\<lambda>_. TASK_READY)(7 := TASK_RUNNING)) 100) = Some (Gave_up 7 s) \<and>
     waiting Q s Sleep_wq = [(7, 105)] \<and> status s 7 = TASK_BLOCKED"
proof -
  let ?m = "wq_machine [- 1, 7, - 1, - 1] ((\<lambda>_. TASK_READY)(7 := TASK_RUNNING)) 100"
  have c: "1 < MAX_CPUS" "7 < MAX_TASKS" by (simp_all add: MAX_CPUS_def MAX_TASKS_def)
  have ok: "sched_ok ?m" by (rule wq_machine_ok) simp_all
  have m: "cur_of ?m 1 = int 7" "status ?m 7 \<noteq> TASK_DEAD" using c by simp_all
  have "card (wq_used ?m) < WQ_POOL_SIZE" using wq_machine_queues(2) by (simp add: WQ_POOL_SIZE_def)
  then obtain Q s where s: "wq_wait_timeout 1 Sleep_wq 5 ?m = Some (Gave_up (int 7) s)"
    "joined 1 7 Sleep_wq (tick_count ?m + 5) (\<lambda>_. []) ?m Q s"
    using wq_wait_joins_back [OF wq_machine_queues(1) ok c(1) m, of Sleep_wq 5] by auto
  have "waiting Q s Sleep_wq = [(7, 105)]" "status s 7 = TASK_BLOCKED"
    using s(2) by (simp_all add: joined_def gave_up_def wq_machine_queues(3))
  then show ?thesis using s(1) by (intro exI [of _ Q] exI [of _ s]) simp
qed

text \<open>
  C24. Waking is first in, first out, and wakes for a reason of 0: \<open>wq_wake_one\<close> takes the entry at
  the front of its queue off, and only that one, and its task, if blocked, becomes ready with
  reason 0; on an empty queue it changes nothing. \<open>wq_wake_all\<close> returns, empties its queue and does
  the same for every task that waited there. Other queues and other tasks are left alone.
\<close>

theorem wq_wake_fifo:
  assumes "wq_inv Q s" and "sched_ok s"
  shows "(case waiting Q s q of
       [] \<Rightarrow> wq_wake_one q s = s
     | (t, tmo) # rest \<Rightarrow> \<exists>Q'. wq_inv Q' (wq_wake_one q s) \<and> waiting Q' (wq_wake_one q s) = (waiting Q s)(q := rest) \<and>
         woken 0 {t} s (wq_wake_one q s)) \<and>
     (\<exists>Q' s'. wq_wake_all q s = Some s' \<and> wq_inv Q' s' \<and> waiting Q' s' = (waiting Q s)(q := []) \<and>
        woken 0 (fst ` set (waiting Q s q)) s s')"
proof
  have len: "length (tasks s) = MAX_TASKS" using assms(2) by (simp add: sched_ok_def)
  show "case waiting Q s q of
       [] \<Rightarrow> wq_wake_one q s = s
     | (t, tmo) # rest \<Rightarrow> \<exists>Q'. wq_inv Q' (wq_wake_one q s) \<and> waiting Q' (wq_wake_one q s) = (waiting Q s)(q := rest) \<and>
         woken 0 {t} s (wq_wake_one q s)"
  proof (cases "Q q")
    case Nil
    then show ?thesis using wq_invD(9) [OF assms(1), of q] by (simp add: waiting_def wq_wake_one_def)
  next
    case (Cons i xs)
    have "waiting Q s q = (task_id (wq_pool s ! i), timeout_tick (wq_pool s ! i)) # tl (waiting Q s q)"
      using Cons by (simp add: waiting_def)
    moreover have "\<exists>Q'. wq_inv Q' (wq_wake_one q s) \<and> waiting Q' (wq_wake_one q s) = (waiting Q s)(q := tl (waiting Q s q)) \<and>
         woken 0 {task_id (wq_pool s ! i)} s (wq_wake_one q s)"
      using wake_one_spec(1-3) [OF assms(1) len Cons] by blast
    ultimately show ?thesis by (cases "waiting Q s q") simp_all
  qed
  show "\<exists>Q' s'. wq_wake_all q s = Some s' \<and> wq_inv Q' s' \<and> waiting Q' s' = (waiting Q s)(q := []) \<and>
        woken 0 (fst ` set (waiting Q s q)) s s'"
    by (rule wake_all_spec [OF assms(1) len, of q]) blast
qed

lemma only_queue_used:
  assumes "wq_inv Q s" and "\<forall>r. r \<noteq> q \<longrightarrow> waiting Q s r = []"
  shows "card (wq_used s) = length (waiting Q s q)"
proof -
  note I = wq_invD [OF assms(1)]
  have e: "Q r = []" if "r \<noteq> q" for r using assms(2) that by (simp add: waiting_def)
  have "wq_used s = set (Q q)"
  proof (intro set_eqI iffI)
    fix i assume "i \<in> wq_used s"
    then obtain r where "i \<in> set (Q r)" using I(7) [of i] by (auto simp: wq_used_def)
    then show "i \<in> set (Q q)" using e by (cases "r = q") auto
  qed (use I(5,6) in \<open>auto simp: wq_used_def\<close>)
  then show ?thesis using I(3) [of q] by (simp add: waiting_def distinct_card)
qed

text \<open>A machine where task 7 waits on the futex queue 3 and then task 4 joins it.\<close>

definition two_queued :: "u64 \<Rightarrow> (wq_ref \<Rightarrow> nat list) \<Rightarrow> wq_state \<Rightarrow> bool" where
  "two_queued tmo Q s \<longleftrightarrow> wq_inv Q s \<and> sched_ok s \<and> waiting Q s (Futex_wq 3) = [(7, 0), (4, tmo)] \<and>
     (\<forall>r. r \<noteq> Futex_wq 3 \<longrightarrow> waiting Q s r = []) \<and> status s 7 = TASK_BLOCKED \<and> status s 4 = TASK_BLOCKED \<and> tick_count s = 20"

lemma two_waiters: "\<exists>Q s. two_queued tmo Q s"
proof -
  let ?m = "wq_machine [7, 4, - 1, - 1] (\<lambda>i. if i = 7 then TASK_BLOCKED else if i = 4 then TASK_RUNNING else TASK_DEAD) 20"
  let ?q = "Futex_wq 3"
  have c: "0 < MAX_CPUS" "1 < MAX_CPUS" "7 < MAX_TASKS" "4 < MAX_TASKS" by (simp_all add: MAX_CPUS_def MAX_TASKS_def)
  have ok: "sched_ok ?m" by (rule wq_machine_ok) simp_all
  have "wq_used ?m = {}" by (rule wq_machine_queues(2))
  then have room: "card (wq_used ?m) < WQ_POOL_SIZE" by (simp add: WQ_POOL_SIZE_def)
  have m: "cur_of ?m 0 = int 7" "status ?m 7 \<noteq> TASK_DEAD" using c by simp_all
  obtain Q s1 where s1: "joined 0 7 ?q 0 (\<lambda>_. []) ?m Q s1" "wq_wait 0 ?q ?m = Some (Gave_up (int 7) s1)"
    using wait_spec [OF wq_machine_queues(1) ok c(1) m room, of ?q 0] by blast
  have ok1: "sched_ok s1" and inv1: "wq_inv Q s1" and w1: "waiting Q s1 = (\<lambda>_. [])(?q := [(7, 0)])" "tick_count s1 = 20"
    "cur_of s1 1 = int 4" "status s1 4 \<noteq> TASK_DEAD" "status s1 7 = TASK_BLOCKED"
    using s1(1) c by (auto simp: joined_def gave_up_def wq_machine_queues(3))
  have "card (wq_used s1) = 1" using only_queue_used [OF inv1, of ?q] w1(1) by simp
  then have room1: "card (wq_used s1) < WQ_POOL_SIZE" by (simp add: WQ_POOL_SIZE_def)
  obtain Q' s2 where s2: "joined 1 4 ?q tmo Q s1 Q' s2"
    using wait_spec [OF inv1 ok1 c(2) w1(3,4) room1, of ?q tmo] by blast
  have "two_queued tmo Q' s2"
    using s2 w1 c by (auto simp: joined_def gave_up_def two_queued_def)
  then show ?thesis by blast
qed

theorem wq_wake_fifo_witness:
  "\<exists>Q (s :: wq_state). waiting Q s (Futex_wq 3) = [(7, 0), (4, 0)] \<and> status s 7 = TASK_BLOCKED \<and>
     status (wq_wake_one (Futex_wq 3) s) 7 = TASK_READY \<and> status (wq_wake_one (Futex_wq 3) s) 4 = TASK_BLOCKED"
proof -
  obtain Q s where s: "two_queued 0 Q s" using two_waiters by blast
  then have d: "wq_inv Q s" "sched_ok s" "waiting Q s (Futex_wq 3) = [(7, 0), (4, 0)]"
    "status s 7 = TASK_BLOCKED" "status s 4 = TASK_BLOCKED" by (simp_all add: two_queued_def)
  have "woken 0 {7} s (wq_wake_one (Futex_wq 3) s)"
    using wq_wake_fifo [OF d(1,2), of "Futex_wq 3"] d(3) by auto
  then have "status (wq_wake_one (Futex_wq 3) s) 7 = TASK_READY" "status (wq_wake_one (Futex_wq 3) s) 4 = TASK_BLOCKED"
    using d(4,5) by (simp_all add: woken_def MAX_TASKS_def)
  then show ?thesis using d(3,4) by blast
qed

text \<open>
  A timer tick expires exactly the timeouts that have passed: \<open>wq_tick\<close> returns; of every queue
  it keeps, in order, the entries without a timeout or with one still to come, and of all
  tasks exactly the blocked ones of the other entries become ready, with reason -1.
\<close>

theorem wq_tick_expires:
  assumes "wq_inv Q s" and "sched_ok s"
  shows "\<exists>Q' s'. wq_tick s = Some s' \<and> wq_inv Q' s' \<and>
     waiting Q' s' = (\<lambda>q. filter (\<lambda>(t, tmo). tmo = 0 \<or> tick_count s < tmo) (waiting Q s q)) \<and>
     woken (- 1) {t. \<exists>q tmo. (t, tmo) \<in> set (waiting Q s q) \<and> tmo \<noteq> 0 \<and> tmo \<le> tick_count s} s s'"
proof -
  have len: "length (tasks s) = MAX_TASKS" using assms(2) by (simp add: sched_ok_def)
  show ?thesis by (rule wq_tick_waiting [OF assms(1) len]) blast
qed

theorem wq_tick_expires_witness:
  "\<exists>Q (s :: wq_state) s'. waiting Q s (Futex_wq 3) = [(7, 0), (4, 20)] \<and> tick_count s = 20 \<and> wq_tick s = Some s' \<and>
     status s' 7 = TASK_BLOCKED \<and> status s' 4 = TASK_READY \<and> wakeup_reason (tasks s' ! 4) = - 1"
proof -
  obtain Q s where s: "two_queued 20 Q s" using two_waiters by blast
  then have d: "wq_inv Q s" "sched_ok s" "waiting Q s (Futex_wq 3) = [(7, 0), (4, 20)]"
    "status s 7 = TASK_BLOCKED" "status s 4 = TASK_BLOCKED" "tick_count s = 20"
    "\<And>r. r \<noteq> Futex_wq 3 \<Longrightarrow> waiting Q s r = []" by (simp_all add: two_queued_def)
  obtain s' where s': "wq_tick s = Some s'"
    "woken (- 1) {t. \<exists>q tmo. (t, tmo) \<in> set (waiting Q s q) \<and> tmo \<noteq> 0 \<and> tmo \<le> tick_count s} s s'"
    using wq_tick_expires [OF d(1,2)] by blast
  have "(\<exists>q tmo. (t, tmo) \<in> set (waiting Q s q) \<and> tmo \<noteq> 0 \<and> tmo \<le> tick_count s) \<longleftrightarrow> t = 4" for t
  proof -
    have "(t, tmo) \<in> set (waiting Q s q) \<longleftrightarrow> q = Futex_wq 3 \<and> (t = 7 \<and> tmo = 0 \<or> t = 4 \<and> tmo = 20)" for q tmo
      using d(3,7) by (cases "q = Futex_wq 3") auto
    then show ?thesis using d(6) by auto
  qed
  then have "woken (- 1) {4} s s'" using s'(2) by simp
  then have "status s' 7 = TASK_BLOCKED" "status s' 4 = TASK_READY" "wakeup_reason (tasks s' ! 4) = - 1"
    using d(4,5) by (simp_all add: woken_def MAX_TASKS_def)
  then show ?thesis using d(3,6) s'(1) by blast
qed

end
