(* ===== verification/Irq.thy ===== *)
theory Irq
  imports Waitqueue
begin

text \<open>
  Interrupts: the interrupt controller and the dispatch of handlers (\<^verbatim>\<open>kernel/irq.c\<close>), the timer
  (\<^verbatim>\<open>kernel/timer.c\<close>) and the start of the other CPUs (\<^verbatim>\<open>kernel/smp.c\<close>). Writes to the
  controller are kept as a trace; what it answers to a read, and what the firmware answers to a
  request to start a CPU, are arguments. The theory ends with sleeping as seen from the
  outside: how long a task that calls \<^verbatim>\<open>sleep_ticks\<close> stays blocked while the rest of the
  system runs.
\<close>

section \<open>State\<close>

text \<open>The handlers that can stand in the table: the kernel's own two and those of drivers.\<close>

datatype irq_handler = Ipi_handler | Timer_handler | Driver_handler u64

record irq_state = wq_state +
  irq_handlers :: "irq_handler option list"
  timer_freq :: u64
  timer_interval :: u64
  cntv_tval :: "u64 list"
  cntv_ctl :: "u64 list"
  vectors_on :: "bool list"
  irqs_on :: "bool list"
  secondary_stacks :: "u64 list"
  num_cpus_online :: int

definition MAX_IRQ :: nat where "MAX_IRQ = 256"

abbreviation GICD_CTLR :: u64 where "GICD_CTLR \<equiv> GICD_BASE"
abbreviation GICD_ISENABLER :: u64 where "GICD_ISENABLER \<equiv> GICD_BASE + 0x100"
abbreviation GICD_ICENABLER :: u64 where "GICD_ICENABLER \<equiv> GICD_BASE + 0x180"
abbreviation GICD_ICPENDR :: u64 where "GICD_ICPENDR \<equiv> GICD_BASE + 0x280"
abbreviation GICD_IPRIORITYR :: u64 where "GICD_IPRIORITYR \<equiv> GICD_BASE + 0x400"
abbreviation GICD_ITARGETSR :: u64 where "GICD_ITARGETSR \<equiv> GICD_BASE + 0x800"
abbreviation GICC_CTLR :: u64 where "GICC_CTLR \<equiv> GICC_BASE"
abbreviation GICC_PMR :: u64 where "GICC_PMR \<equiv> GICC_BASE + 4"
abbreviation GICC_EOIR :: u64 where "GICC_EOIR \<equiv> GICC_BASE + 0x10"
abbreviation TIMER_IRQ :: u32 where "TIMER_IRQ \<equiv> 27"
abbreviation IPI_RESCHEDULE :: u32 where "IPI_RESCHEDULE \<equiv> 0"

section \<open>Interrupt controller\<close>

definition gic_cpu_init :: "'a wq_state_scheme \<Rightarrow> 'a wq_state_scheme" where
  "gic_cpu_init s = gic_write GICC_CTLR 1 (gic_write GICC_PMR 0xFF s)"

definition ipi_handler :: "nat \<Rightarrow> 'a task_state_scheme \<Rightarrow> 'a task_state_scheme" where
  "ipi_handler c s = upd_cpu c (\<lambda>p. p\<lparr>reschedule_needed := 1\<rparr>) s"

definition irq_register :: "u32 \<Rightarrow> irq_handler option \<Rightarrow> 'a irq_state_scheme \<Rightarrow> 'a irq_state_scheme" where
  "irq_register irq h s =
     (if unat irq < MAX_IRQ then s\<lparr>irq_handlers := (irq_handlers s)[unat irq := h]\<rparr> else s)"

definition irq_enable :: "u32 \<Rightarrow> 'a wq_state_scheme \<Rightarrow> 'a wq_state_scheme" where
  "irq_enable irq s =
     (let reg = irq div 32; b = irq mod 32
      in gic_write (GICD_ISENABLER + ucast (reg * 4)) (push_bit (unat b) 1) s)"

definition irq_disable :: "u32 \<Rightarrow> 'a wq_state_scheme \<Rightarrow> 'a wq_state_scheme" where
  "irq_disable irq s =
     (let reg = irq div 32; b = irq mod 32
      in gic_write (GICD_ICENABLER + ucast (reg * 4)) (push_bit (unat b) 1) s)"

definition num_irqs_of :: "u32 \<Rightarrow> u32" where
  "num_irqs_of typer = (let n = ((typer AND 0x1F) + 1) * 32 in if n > 256 then 256 else n)"

definition gic_fill :: "u64 \<Rightarrow> nat \<Rightarrow> u32 \<Rightarrow> u32 \<Rightarrow> 'a wq_state_scheme \<Rightarrow> 'a wq_state_scheme" where
  "gic_fill base from n v s = for_loop from (unat n) (\<lambda>i. gic_write (base + of_nat i * 4) v) s"

text \<open>\<open>typer\<close> is the value read from \<^verbatim>\<open>GICD_TYPER\<close>; the caller is CPU 0.\<close>

definition irq_init :: "u32 \<Rightarrow> 'a irq_state_scheme \<Rightarrow> 'a irq_state_scheme" where
  "irq_init typer s =
     (let s1 = for_loop 0 MAX_IRQ (\<lambda>i s. s\<lparr>irq_handlers := (irq_handlers s)[i := None]\<rparr>) s;
          s2 = gic_write GICD_CTLR 0 s1;
          num_irqs = num_irqs_of typer;
          s3 = gic_fill GICD_ICENABLER 0 (num_irqs div 32) 0xFFFFFFFF s2;
          s4 = gic_fill GICD_ICPENDR 0 (num_irqs div 32) 0xFFFFFFFF s3;
          s5 = gic_fill GICD_IPRIORITYR 0 (num_irqs div 4) 0xA0A0A0A0 s4;
          s6 = gic_fill GICD_ITARGETSR 8 (num_irqs div 4) 0x01010101 s5;
          s7 = gic_cpu_init (gic_write GICD_CTLR 1 s6);
          s8 = s7\<lparr>vectors_on := (vectors_on s7)[0 := True]\<rparr>;
          s9 = irq_enable IPI_RESCHEDULE (irq_register IPI_RESCHEDULE (Some Ipi_handler) s8)
      in s9\<lparr>irqs_on := (irqs_on s9)[0 := True]\<rparr>)"

section \<open>Timer\<close>

definition timer_handler :: "nat \<Rightarrow> 'a irq_state_scheme \<Rightarrow> 'a irq_state_scheme option" where
  "timer_handler c s =
     (case (if c = 0 then wq_tick (s\<lparr>tick_count := tick_count s + 1\<rparr>) else Some s) of
        None \<Rightarrow> None
      | Some s1 \<Rightarrow>
          let s2 = upd_cpu c (\<lambda>p. p\<lparr>reschedule_needed := 1\<rparr>) s1
          in Some (s2\<lparr>cntv_tval := (cntv_tval s2)[c := timer_interval s2]\<rparr>))"

text \<open>\<open>freq\<close> is the value of the register \<^verbatim>\<open>cntfrq_el0\<close>.\<close>

definition timer_init :: "nat \<Rightarrow> u64 \<Rightarrow> 'a irq_state_scheme \<Rightarrow> 'a irq_state_scheme" where
  "timer_init c freq s =
     (let s1 = s\<lparr>timer_freq := freq\<rparr>;
          s2 = s1\<lparr>timer_interval := timer_freq s1 div 100\<rparr>;
          s3 = irq_enable TIMER_IRQ (irq_register TIMER_IRQ (Some Timer_handler) s2);
          s4 = s3\<lparr>cntv_tval := (cntv_tval s3)[c := timer_interval s3]\<rparr>;
          s5 = s4\<lparr>cntv_ctl := (cntv_ctl s4)[c := 1]\<rparr>
      in s5\<lparr>tick_count := 0\<rparr>)"

definition timer_init_secondary :: "nat \<Rightarrow> u64 \<Rightarrow> 'a irq_state_scheme \<Rightarrow> 'a irq_state_scheme" where
  "timer_init_secondary c freq s =
     (let interval = freq div 100; s1 = irq_enable TIMER_IRQ s;
          s2 = s1\<lparr>cntv_tval := (cntv_tval s1)[c := interval]\<rparr>
      in s2\<lparr>cntv_ctl := (cntv_ctl s2)[c := 1]\<rparr>)"

text \<open>
  \<open>iar\<close> is the value read from \<^verbatim>\<open>GICC_IAR\<close>; \<open>drv\<close> gives what the handler at an address
  that a driver registered does.
\<close>

definition run_handler ::
  "(u64 \<Rightarrow> u32 \<Rightarrow> 'a irq_state_scheme \<Rightarrow> 'a irq_state_scheme) \<Rightarrow> nat \<Rightarrow> u32 \<Rightarrow> irq_handler \<Rightarrow>
     'a irq_state_scheme \<Rightarrow> 'a irq_state_scheme option" where
  "run_handler drv c irq h s =
     (case h of
        Ipi_handler \<Rightarrow> Some (ipi_handler c s)
      | Timer_handler \<Rightarrow> timer_handler c s
      | Driver_handler a \<Rightarrow> Some (drv a irq s))"

definition irq_handle ::
  "(u64 \<Rightarrow> u32 \<Rightarrow> 'a irq_state_scheme \<Rightarrow> 'a irq_state_scheme) \<Rightarrow> nat \<Rightarrow> u32 \<Rightarrow>
     'a irq_state_scheme \<Rightarrow> 'a irq_state_scheme option" where
  "irq_handle drv c iar s =
     (let irq = iar AND 0x3FF
      in if irq \<ge> 1020 then Some s
         else case (if unat irq < MAX_IRQ
                    then (case irq_handlers s ! unat irq of Some h \<Rightarrow> run_handler drv c irq h s | None \<Rightarrow> Some s)
                    else Some s) of
                None \<Rightarrow> None
              | Some s1 \<Rightarrow> Some (gic_write GICC_EOIR iar s1))"

section \<open>Other CPUs\<close>

text \<open>Up to the scheduler loop, in which a secondary CPU then stays.\<close>

definition secondary_main :: "nat \<Rightarrow> u64 \<Rightarrow> 'a irq_state_scheme \<Rightarrow> 'a irq_state_scheme" where
  "secondary_main c freq s =
     (let s1 = upd_cpu c (\<lambda>p. p\<lparr>cpu_id := int c, current_task_id := - 1, reschedule_needed := 0\<rparr>) s;
          s2 = irq_enable IPI_RESCHEDULE (timer_init_secondary c freq (gic_cpu_init s1));
          s3 = s2\<lparr>irqs_on := (irqs_on s2)[c := True]\<rparr>
      in sched_start_enter (s3\<lparr>num_cpus_online := num_cpus_online s3 + 1\<rparr>))"

text \<open>\<open>psci t e x\<close> is the answer of the firmware to \<^verbatim>\<open>PSCI_CPU_ON\<close>, \<open>entry_pt\<close> the address of \<^verbatim>\<open>_secondary_start\<close>.\<close>

definition psci_cpu_on :: "(u64 \<Rightarrow> u64 \<Rightarrow> u64 \<Rightarrow> u64) \<Rightarrow> u64 \<Rightarrow> u64 \<Rightarrow> u64 \<Rightarrow> int" where
  "psci_cpu_on psci target_cpu entry_point context_id = sint (ucast (psci target_cpu entry_point context_id) :: u32)"

definition boot_cpu :: "(u64 \<Rightarrow> u64 \<Rightarrow> u64 \<Rightarrow> u64) \<Rightarrow> u64 \<Rightarrow> nat \<Rightarrow> 'a irq_state_scheme \<Rightarrow> 'a irq_state_scheme" where
  "boot_cpu psci entry_pt cpu s =
     (case pages_alloc 16 s of (stack, s1) \<Rightarrow>
        if stack = 0 then s1
        else let s2 = s1\<lparr>secondary_stacks := (secondary_stacks s1)[cpu := stack + 16 * PAGE_SIZE]\<rparr>;
                 ret = psci_cpu_on psci (of_nat cpu) entry_pt (of_nat cpu)
             in if ret \<noteq> 0 then pages_free stack 16 s2 else s2)"

definition smp_init :: "(u64 \<Rightarrow> u64 \<Rightarrow> u64 \<Rightarrow> u64) \<Rightarrow> u64 \<Rightarrow> int \<Rightarrow> 'a irq_state_scheme \<Rightarrow> 'a irq_state_scheme" where
  "smp_init psci entry_pt num_cpus s =
     (let n = if num_cpus \<le> 1 \<or> num_cpus > int MAX_CPUS then 1 else nat num_cpus
      in for_loop 1 n (boot_cpu psci entry_pt) s)"

section \<open>Sleeping while the rest of the system runs\<close>

text \<open>What can happen between a call of \<^verbatim>\<open>sleep_ticks\<close> and its return, on any CPU.\<close>

datatype event = Timer nat | Switch nat | Wait nat wq_ref | Wait_timeout nat wq_ref u64 | Wake_one wq_ref | Wake_all wq_ref

definition waited_state :: "'s waited option \<Rightarrow> 's option" where
  "waited_state r = map_option (\<lambda>w. case w of Returned _ s \<Rightarrow> s | Gave_up _ s \<Rightarrow> s) r"

fun run_event :: "event \<Rightarrow> 'a irq_state_scheme \<Rightarrow> 'a irq_state_scheme option" where
  "run_event (Timer c) s = timer_handler c s"
| "run_event (Switch c) s = Some (schedule c s)"
| "run_event (Wait c q) s = waited_state (wq_wait c q s)"
| "run_event (Wait_timeout c q n) s = waited_state (wq_wait_timeout c q n s)"
| "run_event (Wake_one q) s = Some (wq_wake_one q s)"
| "run_event (Wake_all q) s = wq_wake_all q s"

fun run_events :: "event list \<Rightarrow> 'a irq_state_scheme \<Rightarrow> 'a irq_state_scheme option" where
  "run_events [] s = Some s"
| "run_events (e # es) s = (case run_event e s of None \<Rightarrow> None | Some s' \<Rightarrow> run_events es s')"

text \<open>Events name existing CPUs; nothing in the kernel wakes the sleep queue but the timer.\<close>

fun event_ok :: "event \<Rightarrow> bool" where
  "event_ok (Timer c) \<longleftrightarrow> c < MAX_CPUS"
| "event_ok (Switch c) \<longleftrightarrow> c < MAX_CPUS"
| "event_ok (Wait c q) \<longleftrightarrow> c < MAX_CPUS"
| "event_ok (Wait_timeout c q n) \<longleftrightarrow> c < MAX_CPUS"
| "event_ok (Wake_one q) \<longleftrightarrow> q \<noteq> Sleep_wq"
| "event_ok (Wake_all q) \<longleftrightarrow> q \<noteq> Sleep_wq"

definition ticks_in :: "event list \<Rightarrow> nat" where
  "ticks_in es = length (filter (\<lambda>e. e = Timer 0) es)"

definition live_currents :: "'a task_state_scheme \<Rightarrow> bool" where
  "live_currents s \<longleftrightarrow> (\<forall>d<MAX_CPUS. \<forall>i<MAX_TASKS. cur_of s d = int i \<longrightarrow> status s i \<noteq> TASK_DEAD)"

definition waits_only :: "nat \<Rightarrow> wq_ref \<Rightarrow> u64 \<Rightarrow> (wq_ref \<Rightarrow> (int \<times> u64) list) \<Rightarrow> bool" where
  "waits_only T q tmo W \<longleftrightarrow> (int T, tmo) \<in> set (W q) \<and> (\<forall>r x. (int T, x) \<in> set (W r) \<longrightarrow> r = q \<and> x = tmo)"

definition sleeping :: "nat \<Rightarrow> u64 \<Rightarrow> 'a wq_state_scheme \<Rightarrow> bool" where
  "sleeping T tmo s \<longleftrightarrow> sched_ok s \<and> live_currents s \<and> (\<forall>d<MAX_CPUS. cur_of s d \<noteq> int T) \<and> T < MAX_TASKS \<and>
     status s T = TASK_BLOCKED \<and> (\<exists>Q. wq_inv Q s \<and> waits_only T Sleep_wq tmo (waiting Q s))"

lemma sleepingI:
  assumes "wq_inv Q s" and "waits_only T Sleep_wq tmo (waiting Q s)" and "sched_ok s" and "live_currents s"
    and "\<And>d. d < MAX_CPUS \<Longrightarrow> cur_of s d \<noteq> int T" and "T < MAX_TASKS" and "status s T = TASK_BLOCKED"
  shows "sleeping T tmo s"
  using assms unfolding sleeping_def by blast

lemma woken_sched_ok:
  assumes "woken r X s s'" and "same_cpus s s'"
  shows "sched_ok s' = sched_ok s"
  using assms by (intro sched_ok_cong) (simp_all add: woken_def same_cpus_def)

lemma woken_live:
  assumes "woken r X s s'" and "same_cpus s s'"
  shows "live_currents s' = live_currents s"
proof -
  have "status s' i = TASK_DEAD \<longleftrightarrow> status s i = TASK_DEAD" if "i < MAX_TASKS" for i
    using assms(1) that by (simp add: woken_def)
  then show ?thesis using assms(2) by (simp add: live_currents_def same_cpus_def)
qed

lemma sleeping_woken:
  assumes "sleeping T tmo s" and "woken r X s s'" and "same_cpus s s'" and "int T \<notin> X"
    and "wq_inv Q' s'" and "waits_only T Sleep_wq tmo (waiting Q' s')"
  shows "sleeping T tmo s'"
proof (rule sleepingI [OF assms(5,6)])
  show "sched_ok s'" "live_currents s'"
    using assms(1) woken_sched_ok [OF assms(2,3)] woken_live [OF assms(2,3)] by (simp_all add: sleeping_def)
  show "T < MAX_TASKS" "status s' T = TASK_BLOCKED" using assms(1,2,4) by (simp_all add: sleeping_def woken_def)
  show "cur_of s' d \<noteq> int T" if "d < MAX_CPUS" for d
    using assms(1,3) that by (simp add: sleeping_def same_cpus_def)
qed

lemma sleeping_wake:
  assumes "sleeping T tmo s" and "q \<noteq> Sleep_wq"
  shows "sleeping T tmo (wq_wake_one q s) \<and> tick_count (wq_wake_one q s) = tick_count s"
    and "\<exists>s'. wq_wake_all q s = Some s' \<and> sleeping T tmo s' \<and> tick_count s' = tick_count s"
proof -
  obtain Q where Q: "wq_inv Q s" "waits_only T Sleep_wq tmo (waiting Q s)" using assms(1) by (auto simp: sleeping_def)
  have len: "length (tasks s) = MAX_TASKS" using assms(1) by (simp add: sleeping_def sched_ok_def)
  have no: "(int T, x) \<notin> set (waiting Q s q)" for x using Q(2) assms(2) by (auto simp: waits_only_def)
  have sub: "waits_only T Sleep_wq tmo ((waiting Q s)(q := xs))" if "set xs \<subseteq> set (waiting Q s q)" for xs
    using Q(2) assms(2) that by (auto simp: waits_only_def)
  show "sleeping T tmo (wq_wake_one q s) \<and> tick_count (wq_wake_one q s) = tick_count s"
  proof (cases "Q q")
    case Nil
    then have "wq_wake_one q s = s" using wq_invD(9) [OF Q(1), of q] by (simp add: wq_wake_one_def)
    then show ?thesis using assms(1) by simp
  next
    case (Cons i xs)
    note w = wake_one_spec [OF Q(1) len Cons]
    have "task_id (wq_pool s ! i) \<noteq> int T"
      using no [of "timeout_tick (wq_pool s ! i)"] Cons by (auto simp: waiting_def)
    moreover have "set (tl (waiting Q s q)) \<subseteq> set (waiting Q s q)" by (cases "waiting Q s q") auto
    ultimately have "sleeping T tmo (wq_wake_one q s)"
      using sub w(2) by (intro sleeping_woken [OF assms(1) w(3,4) _ w(1)]) auto
    then show ?thesis using w(4) by (simp add: same_cpus_def)
  qed
  obtain s' where s': "wq_wake_all q s = Some s'" "wq_inv (Q(q := [])) s'" "waiting (Q(q := [])) s' = (waiting Q s)(q := [])"
    "woken 0 (fst ` set (waiting Q s q)) s s'" "same_cpus s s'" by (rule wake_all_spec [OF Q(1) len])
  have "sleeping T tmo s'"
    using no sub [of "[]"] s'(3) by (intro sleeping_woken [OF assms(1) s'(4,5) _ s'(2)]) auto
  then show "\<exists>s'. wq_wake_all q s = Some s' \<and> sleeping T tmo s' \<and> tick_count s' = tick_count s"
    using s'(1,5) by (simp add: same_cpus_def)
qed

lemma live_currents_schedule:
  assumes "sched_ok s" and "c < MAX_CPUS" and "live_currents s"
  shows "live_currents (schedule c s)"
  unfolding live_currents_def
proof (intro allI impI)
  fix d i assume d: "d < MAX_CPUS" and i: "i < MAX_TASKS" and cur: "cur_of (schedule c s) d = int i"
  then have "chosen c s = Some i \<or> d \<noteq> c \<and> cur_of s d = int i"
    using scheduledD(2) [OF assms(1,2) d] by (auto split: if_splits option.splits)
  then have "status s i \<noteq> TASK_DEAD" using chosen_ready(2) [of c s i] assms(3) d i by (auto simp: live_currents_def)
  then show "status (schedule c s) i \<noteq> TASK_DEAD"
    unfolding scheduledD(1) [OF assms(1,2) i] after_put_back_def by auto
qed

lemma sleeping_switch:
  assumes "sleeping T tmo s" and "c < MAX_CPUS"
  shows "sleeping T tmo (schedule c s) \<and> tick_count (schedule c s) = tick_count s"
proof -
  obtain Q where Q: "wq_inv Q s" "waits_only T Sleep_wq tmo (waiting Q s)" using assms(1) by (auto simp: sleeping_def)
  have s: "sched_ok s" "live_currents s" "\<And>d. d < MAX_CPUS \<Longrightarrow> cur_of s d \<noteq> int T" "T < MAX_TASKS" "status s T = TASK_BLOCKED"
    using assms(1) by (simp_all add: sleeping_def)
  have n: "chosen c s \<noteq> Some T" using chosen_ready(2) [of c s T] s(5) by auto
  have "sleeping T tmo (schedule c s)"
  proof (rule sleepingI)
    show "wq_inv Q (schedule c s)" using Q(1) wq_inv_cong [of "schedule c s" s] by simp
    show "waits_only T Sleep_wq tmo (waiting Q (schedule c s))" using Q(2) waiting_cong [of "schedule c s" s] by simp
    show "cur_of (schedule c s) d \<noteq> int T" if "d < MAX_CPUS" for d
      using scheduledD(2) [OF s(1) assms(2) that] s(3) [OF that] n by (auto split: option.splits)
    show "status (schedule c s) T = TASK_BLOCKED"
      unfolding scheduledD(1) [OF s(1) assms(2) s(4)] using n s(3) [OF assms(2)] s(5) by simp
  qed (use s sched_ok_schedule live_currents_schedule assms(2) in blast)+
  then show ?thesis by simp
qed

lemma sleeping_joined:
  assumes s: "sleeping T tmo s" and c: "c < MAX_CPUS" and cur: "cur_of s c = int U"
    and W: "waits_only T Sleep_wq tmo (waiting Q s)" and j: "joined c U q x Q s Q' s'"
  shows "sleeping T tmo s' \<and> tick_count s' = tick_count s"
proof -
  have d: "sched_ok s" "live_currents s" "\<And>d. d < MAX_CPUS \<Longrightarrow> cur_of s d \<noteq> int T" "T < MAX_TASKS" "status s T = TASK_BLOCKED"
    using s by (simp_all add: sleeping_def)
  have g: "gave_up c U s s'" and w: "waiting Q' s' = (waiting Q s)(q := waiting Q s q @ [(int U, x)])"
    and inv: "wq_inv Q' s'" using j by (simp_all add: joined_def)
  have UT: "T \<noteq> U" using d(3) [OF c] cur by auto
  note G = g [unfolded gave_up_def]
  have "sleeping T tmo s'"
  proof (rule sleepingI [OF inv])
    show "waits_only T Sleep_wq tmo (waiting Q' s')" using W UT by (auto simp: w waits_only_def)
    show "sched_ok s'" "T < MAX_TASKS" "status s' T = TASK_BLOCKED" using G d UT by simp_all
    show "cur_of s' e \<noteq> int T" if "e < MAX_CPUS" for e
      using G d(3) [OF that] d(4,5) that UT by (cases "e = c") auto
    show "live_currents s'"
      unfolding live_currents_def
    proof (intro allI impI)
      fix e i assume e: "e < MAX_CPUS" "i < MAX_TASKS" "cur_of s' e = int i"
      show "status s' i \<noteq> TASK_DEAD"
      proof (cases "i = U")
        case True then show ?thesis using G by simp
      next
        case False
        have "status s i \<noteq> TASK_DEAD"
        proof (cases "e = c")
          case True
          then have "status s i = TASK_READY" using G e False by blast
          then show ?thesis by simp
        next
          case ne: False
          then have "cur_of s e = int i" using G e by simp
          then show ?thesis using d(2) e unfolding live_currents_def by blast
        qed
        then show ?thesis using G e(2) False by blast
      qed
    qed
  qed
  then show ?thesis using j by (simp add: joined_def)
qed

lemma wait_full:
  assumes "\<not> card (wq_used s) < WQ_POOL_SIZE"
  shows "pool_alloc s = (- 1, s)"
proof (cases s rule: pool_alloc_cases)
  case (ok i)
  then have "wq_used s \<subset> {..<WQ_POOL_SIZE}" by (auto simp: wq_used_def)
  then show ?thesis using assms psubset_card_mono [of "{..<WQ_POOL_SIZE}" "wq_used s"] by simp
qed

lemma sleeping_wait:
  assumes "sleeping T tmo s" and "c < MAX_CPUS"
  shows "\<exists>s'. waited_state (wq_wait c q s) = Some s' \<and> sleeping T tmo s' \<and> tick_count s' = tick_count s"
    and "\<exists>s'. waited_state (wq_wait_timeout c q n s) = Some s' \<and> sleeping T tmo s' \<and> tick_count s' = tick_count s"
proof -
  obtain Q where Q: "wq_inv Q s" "waits_only T Sleep_wq tmo (waiting Q s)" using assms(1) by (auto simp: sleeping_def)
  have ok: "sched_ok s" "live_currents s" using assms(1) by (simp_all add: sleeping_def)
  have "(\<exists>s'. waited_state (wq_wait c q s) = Some s' \<and> sleeping T tmo s' \<and> tick_count s' = tick_count s) \<and>
     (\<exists>s'. waited_state (wq_wait_timeout c q n s) = Some s' \<and> sleeping T tmo s' \<and> tick_count s' = tick_count s)"
  proof (cases "task_current_id c s < 0 \<or> \<not> card (wq_used s) < WQ_POOL_SIZE")
    case True
    then have "wq_wait c q s = Some (Returned 0 s)" "wq_wait_timeout c q n s = Some (Returned (- 1) s)"
      using wait_full [of s] by (auto simp: wq_wait_def wq_wait_timeout_def Let_def)
    then show ?thesis using assms(1) by (simp add: waited_state_def)
  next
    case False
    then obtain U where U: "cur_of s c = int U" by (metis not_less nonneg_int_cases task_current_id_def)
    have "U < MAX_TASKS" using ok(1) assms(2) U by (auto simp: sched_ok_def)
    then have live: "status s U \<noteq> TASK_DEAD" using ok(2) assms(2) U by (auto simp: live_currents_def)
    have room: "card (wq_used s) < WQ_POOL_SIZE" using False by simp
    note wait = wait_spec [OF Q(1) ok(1) assms(2) U live room]
    obtain Q1 s1 where s1: "joined c U q 0 Q s Q1 s1" "wq_wait c q s = Some (Gave_up (int U) s1)"
      using wait [of q 0] by metis
    obtain Q2 s2 where s2: "joined c U q (tick_count s + n) Q s Q2 s2" "wq_wait_timeout c q n s = Some (Gave_up (int U) s2)"
      using wait [of q "tick_count s + n" n] by metis
    show ?thesis
      using sleeping_joined [OF assms(1,2) U Q(2) s1(1)] sleeping_joined [OF assms(1,2) U Q(2) s2(1)] s1(2) s2(2)
      by (simp add: waited_state_def)
  qed
  then show "\<exists>s'. waited_state (wq_wait c q s) = Some s' \<and> sleeping T tmo s' \<and> tick_count s' = tick_count s"
    "\<exists>s'. waited_state (wq_wait_timeout c q n s) = Some s' \<and> sleeping T tmo s' \<and> tick_count s' = tick_count s" by blast+
qed

text \<open>The end of the handler, after the queues have been checked.\<close>

definition rearm :: "nat \<Rightarrow> 'a irq_state_scheme \<Rightarrow> 'a irq_state_scheme" where
  "rearm c s = (let s2 = upd_cpu c (\<lambda>p. p\<lparr>reschedule_needed := 1\<rparr>) s
     in s2\<lparr>cntv_tval := (cntv_tval s2)[c := timer_interval s2]\<rparr>)"

lemma rearm_same:
  "tasks (rearm c s) = tasks s" "cur_of (rearm c s) d = cur_of s d" "wq_pool (rearm c s) = wq_pool s" "whead (rearm c s) = whead s"
  "tick_count (rearm c s) = tick_count s" "regs (rearm c s) = regs s" "ttbr0 (rearm c s) = ttbr0 s"
  "length (percpu (rearm c s)) = length (percpu s)"
  by (simp_all add: rearm_def upd_cpu_def Let_def)
    (cases "d = c \<and> c < length (percpu s)"; auto simp: list_update_beyond nth_list_update)

lemma sleeping_rearm: "sleeping T tmo (rearm c s) = sleeping T tmo s"
proof -
  have "wq_inv Q (rearm c s) = wq_inv Q s" "waiting Q (rearm c s) = waiting Q s" for Q
    using wq_inv_cong [of "rearm c s" s] waiting_cong [of "rearm c s" s] by (simp_all add: rearm_same)
  moreover have "sched_ok (rearm c s) = sched_ok s" by (simp add: sched_ok_def rearm_same)
  ultimately show ?thesis by (simp add: sleeping_def live_currents_def rearm_same)
qed

lemma timer_handler_rearm:
  "timer_handler c s = map_option (rearm c) (if c = 0 then wq_tick (s\<lparr>tick_count := tick_count s + 1\<rparr>) else Some s)"
  by (simp add: timer_handler_def rearm_def Let_def split: option.split)

lemma sleeping_tick:
  assumes "sleeping T tmo s"
  obtains s' where "timer_handler 0 s = Some s'" "tick_count s' = tick_count s + 1"
    "tick_count s + 1 < tmo \<longrightarrow> sleeping T tmo s'"
    "tmo \<noteq> 0 \<and> tmo \<le> tick_count s + 1 \<longrightarrow> status s' T = TASK_READY \<and> wakeup_reason (tasks s' ! T) = - 1"
proof -
  let ?s = "s\<lparr>tick_count := tick_count s + 1\<rparr>"
  have s: "sleeping T tmo ?s" "length (tasks ?s) = MAX_TASKS"
    using assms by (simp_all add: sleeping_def sched_ok_def live_currents_def wq_inv_def waiting_def [abs_def])
  obtain Q where Q: "wq_inv Q ?s" "waits_only T Sleep_wq tmo (waiting Q ?s)" using s(1) by (auto simp: sleeping_def)
  let ?W = "waiting Q ?s" and ?now = "tick_count s + 1"
  have now: "tick_count ?s = ?now" by simp
  let ?X = "{t. \<exists>q x. (t, x) \<in> set (?W q) \<and> x \<noteq> 0 \<and> x \<le> ?now}"
  obtain Q' s' where s': "wq_tick ?s = Some s'" "wq_inv Q' s'"
    "waiting Q' s' = (\<lambda>q. filter (\<lambda>(t, x). x = 0 \<or> ?now < x) (?W q))" "woken (- 1) ?X ?s s'" "same_cpus ?s s'"
    by (rule wq_tick_waiting [OF Q(1) s(2), unfolded now])
  have X: "int T \<in> ?X \<longleftrightarrow> tmo \<noteq> 0 \<and> tmo \<le> ?now" using Q(2) by (auto simp: waits_only_def)
  have "sleeping T tmo (rearm 0 s')" if "?now < tmo"
  proof -
    have "int T \<notin> ?X" using X that by auto
    moreover have "waits_only T Sleep_wq tmo (waiting Q' s')" using Q(2) that by (auto simp: s'(3) waits_only_def)
    ultimately have "sleeping T tmo s'" by (intro sleeping_woken [OF s(1) s'(4,5) _ s'(2)])
    then show ?thesis by (simp add: sleeping_rearm)
  qed
  moreover have "status (rearm 0 s') T = TASK_READY \<and> wakeup_reason (tasks (rearm 0 s') ! T) = - 1" if "tmo \<noteq> 0 \<and> tmo \<le> ?now"
  proof -
    have "int T \<in> ?X" using X that by blast
    moreover have "T < MAX_TASKS" "status ?s T = TASK_BLOCKED" using s(1) by (simp_all add: sleeping_def)
    ultimately have "tasks s' ! T = (tasks ?s ! T)\<lparr>wakeup_reason := - 1, tstate := TASK_READY\<rparr>"
      using s'(4) unfolding woken_def by presburger
    then show ?thesis by (simp add: rearm_same)
  qed
  moreover have "timer_handler 0 s = Some (rearm 0 s')" using s'(1) by (simp add: timer_handler_rearm)
  moreover have "tick_count (rearm 0 s') = ?now" using s'(5) by (simp add: rearm_same same_cpus_def)
  ultimately show ?thesis using that by blast
qed

lemma sleeping_event:
  assumes "sleeping T tmo s" and "event_ok e" and "e \<noteq> Timer 0"
  shows "\<exists>s'. run_event e s = Some s' \<and> sleeping T tmo s' \<and> tick_count s' = tick_count s"
proof (cases e)
  case (Timer c)
  then show ?thesis using assms by (simp add: timer_handler_rearm sleeping_rearm rearm_same)
next
  case (Switch c) then show ?thesis using assms sleeping_switch by simp
next
  case (Wait c q) then show ?thesis using assms sleeping_wait(1) by simp
next
  case (Wait_timeout c q n) then show ?thesis using assms sleeping_wait(2) by simp
next
  case (Wake_one q) then show ?thesis using assms sleeping_wake(1) by simp
next
  case (Wake_all q) then show ?thesis using assms sleeping_wake(2) by simp
qed

lemma sleeping_events:
  assumes "sleeping T tmo s" and "list_all event_ok es" and "unat (tick_count s) + ticks_in es < unat tmo"
  shows "\<exists>s'. run_events es s = Some s' \<and> sleeping T tmo s' \<and> unat (tick_count s') = unat (tick_count s) + ticks_in es"
  using assms
proof (induction es arbitrary: s)
  case (Cons e es)
  have tmo: "unat tmo < 2 ^ 64" using unsigned_less [of tmo] by simp
  obtain s1 where s1: "run_event e s = Some s1" "sleeping T tmo s1"
    "unat (tick_count s1) = unat (tick_count s) + (if e = Timer 0 then 1 else 0)"
  proof (cases "e = Timer 0")
    case True
    then have "unat (tick_count s) + 1 < unat tmo" using Cons.prems(3) by (simp add: ticks_in_def)
    then have u: "unat (tick_count s + 1) = unat (tick_count s) + 1" using tmo by (subst unat_add_small) simp_all
    then have "tick_count s + 1 < tmo" using \<open>unat (tick_count s) + 1 < unat tmo\<close> by (simp add: word_less_nat_alt)
    moreover obtain s' where "timer_handler 0 s = Some s'" "tick_count s' = tick_count s + 1" "tick_count s + 1 < tmo \<longrightarrow> sleeping T tmo s'"
      by (rule sleeping_tick [OF Cons.prems(1)])
    ultimately show ?thesis using True u that [of s'] by simp
  next
    case False
    then show ?thesis using sleeping_event [OF Cons.prems(1) _ False] Cons.prems(2) that by auto
  qed
  have "unat (tick_count s1) + ticks_in es < unat tmo"
    using Cons.prems(3) s1(3) by (cases "e = Timer 0") (simp_all add: ticks_in_def)
  then show ?case
    using Cons.IH [OF s1(2)] Cons.prems(2) s1(1,3) by (auto simp: ticks_in_def split: if_splits)
qed (simp add: ticks_in_def)

lemma sleep_starts:
  assumes "wq_inv Q s" and "sched_ok s" and "live_currents s" and "c < MAX_CPUS" and "cur_of s c = int T"
    and "\<forall>d<MAX_CPUS. d \<noteq> c \<longrightarrow> cur_of s d \<noteq> int T" and "\<forall>q x. (int T, x) \<notin> set (waiting Q s q)"
    and "card (wq_used s) < WQ_POOL_SIZE" and "n \<noteq> 0"
  obtains s1 where "sleep_ticks c n s = Some (Gave_up (int T) s1)" "sleeping T (tick_count s + n) s1"
    "tick_count s1 = tick_count s"
proof -
  have T: "T < MAX_TASKS" using assms(2,4,5) by (auto simp: sched_ok_def)
  have live: "status s T \<noteq> TASK_DEAD" using assms(3-5) T by (auto simp: live_currents_def)
  obtain Q' s1 where s1: "joined c T Sleep_wq (tick_count s + n) Q s Q' s1"
    "wq_wait_timeout c Sleep_wq n s = Some (Gave_up (int T) s1)"
    using wait_spec [OF assms(1,2,4,5) live assms(8), of Sleep_wq "tick_count s + n" n] by metis
  have j: "wq_inv Q' s1" "waiting Q' s1 = (waiting Q s)(Sleep_wq := waiting Q s Sleep_wq @ [(int T, tick_count s + n)])"
    "gave_up c T s s1" "tick_count s1 = tick_count s"
    using s1(1) by (simp_all add: joined_def)
  note G = j(3) [unfolded gave_up_def]
  have "sleeping T (tick_count s + n) s1"
  proof (rule sleepingI [OF j(1)])
    show "waits_only T Sleep_wq (tick_count s + n) (waiting Q' s1)" using assms(7) by (auto simp: j(2) waits_only_def)
    show "cur_of s1 d \<noteq> int T" if "d < MAX_CPUS" for d using G assms(6) that by (cases "d = c") auto
    show "live_currents s1"
      unfolding live_currents_def
    proof (intro allI impI)
      fix d i assume d: "d < MAX_CPUS" "i < MAX_TASKS" "cur_of s1 d = int i"
      show "status s1 i \<noteq> TASK_DEAD"
      proof (cases "i = T")
        case True then show ?thesis using G by simp
      next
        case False
        then have "d = c \<and> status s i = TASK_READY \<or> cur_of s d = int i" using G d by metis
        then have "status s i \<noteq> TASK_DEAD" using assms(3) d by (auto simp: live_currents_def)
        then show ?thesis using G d(2) False by blast
      qed
    qed
  qed (use G T in auto)
  then show ?thesis using that [of s1] s1(2) j(4) assms(9) by (simp add: sleep_ticks_def)
qed

text \<open>
  C25. A sleep lasts exactly as long as it says. A running task that calls \<open>sleep_ticks\<close> with
  \<open>n > 0\<close> leaves its CPU, and then, whatever else happens on the CPUs (timer interrupts,
  context switches, other tasks waiting, sleeping and being woken), every operation returns
  and the task is blocked as long as CPU 0 has taken fewer than \<open>n\<close> timer interrupts, and is
  ready, with the result -1 of a timeout, right after the \<open>n\<close>-th. The pool must have an entry
  left and the tick counter must not wrap.
\<close>

theorem sleep_lasts_n_ticks:
  assumes "wq_inv Q s" and "sched_ok s" and "live_currents s" and "c < MAX_CPUS" and "cur_of s c = int T"
    and "\<forall>d<MAX_CPUS. d \<noteq> c \<longrightarrow> cur_of s d \<noteq> int T" and "\<forall>q x. (int T, x) \<notin> set (waiting Q s q)"
    and "card (wq_used s) < WQ_POOL_SIZE" and "n \<noteq> 0" and "unat (tick_count s) + unat n < 2 ^ 64"
    and "list_all event_ok es" and "ticks_in es < unat n"
  shows "\<exists>s1 s2. sleep_ticks c n s = Some (Gave_up (int T) s1) \<and> run_events es s1 = Some s2 \<and> status s2 T = TASK_BLOCKED \<and>
     (Suc (ticks_in es) = unat n \<longrightarrow> (\<exists>s3. run_event (Timer 0) s2 = Some s3 \<and> status s3 T = TASK_READY \<and>
        wq_wait_timeout_resume (int T) True s3 = - 1))"
proof -
  obtain s1 where s1: "sleep_ticks c n s = Some (Gave_up (int T) s1)" "sleeping T (tick_count s + n) s1" "tick_count s1 = tick_count s"
    by (rule sleep_starts [OF assms(1-9)])
  have tmo: "unat (tick_count s + n) = unat (tick_count s) + unat n" using assms(10) by (subst unat_add_small) simp_all
  obtain s2 where s2: "run_events es s1 = Some s2" "sleeping T (tick_count s + n) s2"
    "unat (tick_count s2) = unat (tick_count s) + ticks_in es"
    using sleeping_events [OF s1(2) assms(11)] assms(12) s1(3) tmo by auto
  have "\<exists>s3. run_event (Timer 0) s2 = Some s3 \<and> status s3 T = TASK_READY \<and> wq_wait_timeout_resume (int T) True s3 = - 1"
    if "Suc (ticks_in es) = unat n"
  proof -
    have "unat (tick_count s2 + 1) = unat (tick_count s) + unat n"
      using s2(3) that assms(10) by (subst unat_add_small) simp_all
    then have "tick_count s2 + 1 = tick_count s + n" using tmo by (simp add: word_unat_eq_iff)
    moreover have "unat (tick_count s + n) \<noteq> 0" using tmo that by simp
    then have "tick_count s + n \<noteq> 0" by (metis unat_0)
    moreover obtain s3 where "timer_handler 0 s2 = Some s3" "tick_count s + n \<noteq> 0 \<and> tick_count s + n \<le> tick_count s2 + 1 \<longrightarrow>
       status s3 T = TASK_READY \<and> wakeup_reason (tasks s3 ! T) = - 1" by (rule sleeping_tick [OF s2(2)])
    ultimately show ?thesis by (simp add: wq_wait_timeout_resume_def)
  qed
  moreover have "status s2 T = TASK_BLOCKED" using s2(2) by (simp add: sleeping_def)
  ultimately show ?thesis using s1(1) s2(1) by blast
qed

text \<open>A machine before the interrupts are set up.\<close>

definition irq_machine :: "int list \<Rightarrow> (nat \<Rightarrow> task_status) \<Rightarrow> u64 \<Rightarrow> irq_state" where
  "irq_machine curs st now = wq_state.extend (wq_machine curs st now)
     \<lparr>irq_handlers = replicate 256 None, timer_freq = 0, timer_interval = 0, cntv_tval = replicate 4 0, cntv_ctl = replicate 4 0,
      vectors_on = replicate 4 False, irqs_on = replicate 4 False, secondary_stacks = replicate 4 0, num_cpus_online = 1\<rparr>"

lemma irq_machine_queues:
  "wq_inv (\<lambda>_. []) (irq_machine curs st now)" "wq_used (irq_machine curs st now) = {}"
  "waiting (\<lambda>_. []) (irq_machine curs st now) = (\<lambda>_. [])"
  using wq_machine_queues [of curs st now]
  by (simp_all add: irq_machine_def wq_state.defs wq_inv_def wq_used_def waiting_def [abs_def])

lemma irq_machine_simps [simp]:
  "tasks (irq_machine curs st now) = tasks (machine_with curs st)" "percpu (irq_machine curs st now) = percpu (machine_with curs st)"
  "regs (irq_machine curs st now) = regs (machine_with curs st)" "ttbr0 (irq_machine curs st now) = ttbr0 (machine_with curs st)"
  "tick_count (irq_machine curs st now) = now"
  by (simp_all add: irq_machine_def wq_state.defs)

lemma irq_machine_ok:
  "list_all (\<lambda>i. - 1 \<le> i \<and> i < 32) curs \<Longrightarrow> length curs = 4 \<Longrightarrow> sched_ok (irq_machine curs st now)"
  using machine_with_ok [of curs st] by (simp add: sched_ok_def)

theorem sleep_lasts_n_ticks_witness:
  "\<exists>s1 s2 s3. sleep_ticks 1 2 (irq_machine [3, 7, - 1, - 1] ((\<lambda>_. TASK_READY)(3 := TASK_RUNNING, 7 := TASK_RUNNING)) 100) = Some (Gave_up 7 s1) \<and>
     run_events [Switch 1, Timer 0, Wait 0 (Futex_wq 2), Wake_all (Futex_wq 2)] s1 = Some s2 \<and> status s2 7 = TASK_BLOCKED \<and>
     run_event (Timer 0) s2 = Some s3 \<and> status s3 7 = TASK_READY"
proof -
  let ?m = "irq_machine [3, 7, - 1, - 1] ((\<lambda>_. TASK_READY)(3 := TASK_RUNNING, 7 := TASK_RUNNING)) 100"
  let ?es = "[Switch 1, Timer 0, Wait 0 (Futex_wq 2), Wake_all (Futex_wq 2)]"
  have ok: "sched_ok ?m" by (rule irq_machine_ok) simp_all
  have c: "1 < MAX_CPUS" "7 < MAX_TASKS" by (simp_all add: MAX_CPUS_def MAX_TASKS_def)
  have cur: "cur_of ?m 1 = int 7" using c by simp
  have "status ?m i \<noteq> TASK_DEAD" if "i < MAX_TASKS" for i using that by simp
  then have live: "live_currents ?m" unfolding live_currents_def by blast
  have oth: "\<forall>d<MAX_CPUS. d \<noteq> 1 \<longrightarrow> cur_of ?m d \<noteq> int 7"
    by (simp add: MAX_CPUS_def less_Suc_eq numeral_eq_Suc)
  have no: "\<forall>q x. (int 7, x) \<notin> set (waiting (\<lambda>_. []) ?m q)" by (simp add: irq_machine_queues(3))
  have room: "card (wq_used ?m) < WQ_POOL_SIZE" by (simp add: irq_machine_queues(2) WQ_POOL_SIZE_def)
  have es: "list_all event_ok ?es" "ticks_in ?es = 1" by (simp_all add: MAX_CPUS_def ticks_in_def)
  have "ticks_in ?es < unat (2 :: u64)" "unat (tick_count ?m) + unat (2 :: u64) < 2 ^ 64" using es(2) by simp_all
  from sleep_lasts_n_ticks [OF irq_machine_queues(1) ok live c(1) cur oth no room _ this(2) es(1) this(1)]
  show ?thesis unfolding es(2) by fastforce
qed

section \<open>Which interrupt lines are enabled\<close>

text \<open>
  The documented effect of the enable registers: a 1 written to bit \<open>L mod 32\<close> of the word of line
  \<open>L\<close> enables or disables the line. All other registers leave the lines alone.
\<close>

definition gic_effect :: "nat \<Rightarrow> u64 \<times> u32 \<Rightarrow> bool \<Rightarrow> bool" where
  "gic_effect L w b = (case w of (a, v) \<Rightarrow>
     if a = GICD_ISENABLER + of_nat (L div 32) * 4 \<and> bit v (L mod 32) then True
     else if a = GICD_ICENABLER + of_nat (L div 32) * 4 \<and> bit v (L mod 32) then False else b)"

definition line_enabled :: "nat \<Rightarrow> (u64 \<times> u32) list \<Rightarrow> bool" where
  "line_enabled L ws = fold (gic_effect L) ws False"

lemma line_enabled_snoc: "line_enabled L (ws @ [w]) = gic_effect L w (line_enabled L ws)"
  by (simp add: line_enabled_def)

lemma gic_trace_write [simp]: "gic_trace (gic_write a v s) = gic_trace s @ [(a, v)]"
  by (simp add: gic_write_def)

lemma gic_trace_fill:
  "gic_trace (gic_fill base from n v s) = gic_trace s @ map (\<lambda>i. (base + of_nat i * 4, v)) [from..<unat n]"
proof -
  have "gic_trace (for_loop from k (\<lambda>i. gic_write (base + of_nat i * 4) v) s) =
     gic_trace s @ map (\<lambda>i. (base + of_nat i * 4, v)) [from..<k]" for k
  proof (induction k)
    case (Suc k)
    then show ?case by (cases "from \<le> k") (simp_all add: for_loop_Suc)
  qed simp
  then show ?thesis by (simp add: gic_fill_def)
qed

text \<open>Register addresses of the distributor, all below 4 KB, do not clash.\<close>

lemma reg_addr_eq:
  assumes "x + i * 4 < 4096" and "y + j * 4 < 4096"
  shows "(GICD_BASE + of_nat x + of_nat i * 4 :: u64) = GICD_BASE + of_nat y + of_nat j * 4 \<longleftrightarrow> x + i * 4 = y + j * 4"
proof -
  have "unat (of_nat z :: u64) = z" if "z < 4096" for z using that by (intro unat_of_nat_small) simp
  moreover have "of_nat x + of_nat i * 4 = (of_nat (x + i * 4) :: u64)" for x i by simp
  ultimately have "(of_nat x + of_nat i * 4 :: u64) = of_nat y + of_nat j * 4 \<longleftrightarrow> x + i * 4 = y + j * 4"
    using assms by (metis (no_types, lifting))
  then show ?thesis by (simp add: add.assoc)
qed

lemma fill_keeps_line:
  assumes "\<forall>i\<in>set is. \<forall>r\<in>{0x100, 0x180}. x + i * 4 \<noteq> r + L div 32 * 4 \<and> x + i * 4 < 4096" and "L < 256"
  shows "line_enabled L (ws @ map (\<lambda>i. (GICD_BASE + of_nat x + of_nat i * 4, v)) is) = line_enabled L ws"
  using assms(1)
proof (induction "is" rule: rev_induct)
  case (snoc i "is")
  have L: "r + L div 32 * 4 < 4096" if "r \<in> {0x100, 0x180}" for r using that assms(2) by auto
  have ne: "GICD_BASE + of_nat x + of_nat i * 4 \<noteq> (GICD_BASE + of_nat r + of_nat (L div 32) * 4 :: u64)" if "r \<in> {0x100, 0x180}" for r
    using reg_addr_eq [of x i r "L div 32"] snoc.prems L [OF that] that by auto
  from ne [of "0x100"] ne [of "0x180"]
  have "gic_effect L (GICD_BASE + of_nat x + of_nat i * 4, v) b = b" for b by (simp add: gic_effect_def)
  then show ?case using snoc by (simp add: line_enabled_snoc flip: append_assoc)
qed simp

lemma fill_disables_line:
  assumes "L < 32 * n" and "n \<le> 8"
  shows "\<not> line_enabled L (ws @ map (\<lambda>i. (GICD_ICENABLER + of_nat i * 4, 0xFFFFFFFF)) [0..<n])"
proof -
  have bit: "bit (0xFFFFFFFF :: u32) (L mod 32)"
  proof -
    have m: "(0xFFFFFFFF :: u32) = mask 32" by (simp add: mask_eq_exp_minus_1)
    show ?thesis unfolding m bit_mask_iff by simp
  qed
  have eff: "gic_effect L (GICD_ICENABLER + of_nat i * 4, 0xFFFFFFFF) b = (if i = L div 32 then False else b)" if "i < 8" for i b
  proof -
    have "L div 32 < 8" using assms by auto
    then show ?thesis
      using reg_addr_eq [of "0x180" i "0x180" "L div 32"] reg_addr_eq [of "0x180" i "0x100" "L div 32"] that bit
      by (auto simp: gic_effect_def)
  qed
  have "k \<le> n \<Longrightarrow> line_enabled L (ws @ map (\<lambda>i. (GICD_ICENABLER + of_nat i * 4, 0xFFFFFFFF)) [0..<k]) =
     (line_enabled L ws \<and> \<not> L div 32 < k)" for k
  proof (induction k)
    case (Suc k)
    then have "k < 8" using assms(2) by simp
    have "line_enabled L (ws @ map (\<lambda>i. (GICD_ICENABLER + of_nat i * 4, 0xFFFFFFFF)) [0..<Suc k]) =
       gic_effect L (GICD_ICENABLER + of_nat k * 4, 0xFFFFFFFF)
         (line_enabled L (ws @ map (\<lambda>i. (GICD_ICENABLER + of_nat i * 4, 0xFFFFFFFF)) [0..<k]))"
      by (simp add: line_enabled_def)
    also have "\<dots> = (line_enabled L ws \<and> \<not> L div 32 < Suc k)"
      unfolding eff [OF \<open>k < 8\<close>] using Suc by auto
    finally show ?case .
  qed simp
  moreover have "L div 32 < n" using assms(1) by auto
  ultimately show ?thesis by simp
qed

lemma num_irqs_bounds: "32 \<le> unat (num_irqs_of typer)" "unat (num_irqs_of typer) \<le> 256"
  "unat (num_irqs_of typer) mod 32 = 0"
proof -
  let ?t = "typer AND 0x1F"
  have "unat ?t \<le> 31" using word_and_le1 [of typer "0x1F"] by (simp add: word_le_nat_alt)
  then have u: "unat ((?t + 1) * 32) = (unat ?t + 1) * 32"
    by (subst unat_mult_small; subst unat_add_small; simp)
  then have "unat (num_irqs_of typer) = min 256 ((unat ?t + 1) * 32)"
    by (simp add: num_irqs_of_def Let_def word_less_nat_alt min_def)
  then show "32 \<le> unat (num_irqs_of typer)" "unat (num_irqs_of typer) \<le> 256" "unat (num_irqs_of typer) mod 32 = 0"
    by (auto simp: min_def split: if_splits)
qed

lemma irq_register_trace [simp]: "gic_trace (irq_register i h s) = gic_trace s"
  by (simp add: irq_register_def)

lemma irq_clear_trace: "gic_trace (for_loop 0 n (\<lambda>i s. s\<lparr>irq_handlers := (irq_handlers s)[i := None]\<rparr>) s) = gic_trace s"
  by (rule for_loop_frame) simp

lemma irq_init_trace:
  "gic_trace (irq_init typer s) =
    (let n = unat (num_irqs_of typer) in gic_trace s @ [(GICD_BASE, 0)]
      @ map (\<lambda>i. (GICD_ICENABLER + of_nat i * 4, 0xFFFFFFFF)) [0..<n div 32]
      @ map (\<lambda>i. (GICD_BASE + of_nat 0x280 + of_nat i * 4, 0xFFFFFFFF)) [0..<n div 32]
      @ map (\<lambda>i. (GICD_BASE + of_nat 0x400 + of_nat i * 4, 0xA0A0A0A0)) [0..<n div 4]
      @ map (\<lambda>i. (GICD_BASE + of_nat 0x800 + of_nat i * 4, 0x01010101)) [8..<n div 4]
      @ [(GICD_BASE, 1), (GICC_PMR, 0xFF), (GICC_BASE, 1), (GICD_ISENABLER, 1)])"
  by (simp add: irq_init_def Let_def gic_trace_fill irq_clear_trace gic_cpu_init_def irq_enable_def unat_div_distrib)

lemma irq_init_lines:
  assumes "L < unat (num_irqs_of typer)"
  shows "line_enabled L (gic_trace (irq_init typer s)) \<longleftrightarrow> L = 0"
proof -
  let ?n = "unat (num_irqs_of typer)"
  note n = num_irqs_bounds [of typer]
  have L: "L < 32 * (?n div 32)" "?n div 32 \<le> 8" "?n div 4 \<le> 64" "L < 256" using assms n by auto
  let ?w1 = "gic_trace s @ [(GICD_BASE, 0)] @ map (\<lambda>i. (GICD_ICENABLER + of_nat i * 4, 0xFFFFFFFF)) [0..<?n div 32]"
  let ?w2 = "?w1 @ map (\<lambda>i. (GICD_BASE + of_nat 0x280 + of_nat i * 4, 0xFFFFFFFF)) [0..<?n div 32]"
  let ?w3 = "?w2 @ map (\<lambda>i. (GICD_BASE + of_nat 0x400 + of_nat i * 4, 0xA0A0A0A0)) [0..<?n div 4]"
  let ?w4 = "?w3 @ map (\<lambda>i. (GICD_BASE + of_nat 0x800 + of_nat i * 4, 0x01010101)) [8..<?n div 4]"
  have d: "L div 32 < 8" using L(4) by auto
  have "\<not> line_enabled L ?w1" using fill_disables_line [OF L(1,2), of "gic_trace s @ [(GICD_BASE, 0)]"] by simp
  moreover have "line_enabled L ?w2 = line_enabled L ?w1" using L d by (intro fill_keeps_line) auto
  moreover have "line_enabled L ?w3 = line_enabled L ?w2" using L d by (intro fill_keeps_line) auto
  moreover have "line_enabled L ?w4 = line_enabled L ?w3" using L d by (intro fill_keeps_line) auto
  ultimately have 4: "\<not> line_enabled L ?w4" by simp
  have "L div 32 \<in> {..<8}" using d by simp
  then have "L div 32 \<in> {0, 1, 2, 3, 4, 5, 6, 7}" by (simp add: lessThan_nat_numeral lessThan_Suc insert_commute)
  then have eff: "gic_effect L (GICD_BASE, 1) b = b" "gic_effect L (GICC_PMR, 0xFF) b = b" "gic_effect L (GICC_BASE, 1) b = b"
    "gic_effect L (GICD_ISENABLER, 1) b = (L = 0 \<or> b)" for b
    by (auto simp: gic_effect_def bit_1_iff)
  have "line_enabled L (?w4 @ [(GICD_BASE, 1), (GICC_PMR, 0xFF), (GICC_BASE, 1), (GICD_ISENABLER, 1)]) \<longleftrightarrow> L = 0 \<or> line_enabled L ?w4"
    unfolding line_enabled_def fold_append using eff by simp
  then show ?thesis using 4 by (simp add: irq_init_trace Let_def)
qed

text \<open>
  The interrupt set-up of the boot CPU: after \<open>irq_init\<close> and \<open>timer_init\<close> the lines of the
  controller that are enabled are exactly the reschedule interrupt 0 and the timer's line 27,
  whatever was enabled before; the timer is armed with a hundredth of its frequency; and an
  interrupt acknowledged as 27 runs the timer's handler and is then completed with the value
  that was read.
\<close>

theorem timer_interrupt_setup:
  assumes "length (irq_handlers s0) = MAX_IRQ" and "length (cntv_tval s0) = MAX_CPUS" and "length (cntv_ctl s0) = MAX_CPUS"
  shows "let s = timer_init 0 freq (irq_init typer s0) in
     (\<forall>L<unat (num_irqs_of typer). line_enabled L (gic_trace s) \<longleftrightarrow> L \<in> {0, 27}) \<and>
     cntv_tval s ! 0 = freq div 100 \<and> cntv_ctl s ! 0 = 1 \<and> tick_count s = 0 \<and>
     (iar AND 0x3FF = 27 \<longrightarrow> irq_handle drv c iar s = map_option (gic_write GICC_EOIR iar) (timer_handler c s))"
proof -
  let ?i = "irq_init typer s0"
  let ?s = "timer_init 0 freq ?i"
  have len: "length (irq_handlers ?i) = MAX_IRQ" "length (cntv_tval ?i) = MAX_CPUS" "length (cntv_ctl ?i) = MAX_CPUS"
  proof -
    have "length (irq_handlers (for_loop 0 n (\<lambda>i s. s\<lparr>irq_handlers := (irq_handlers s)[i := None]\<rparr>) s0)) = length (irq_handlers s0)"
      "cntv_tval (for_loop 0 n (\<lambda>i s. s\<lparr>irq_handlers := (irq_handlers s)[i := None]\<rparr>) s0) = cntv_tval s0"
      "cntv_ctl (for_loop 0 n (\<lambda>i s. s\<lparr>irq_handlers := (irq_handlers s)[i := None]\<rparr>) s0) = cntv_ctl s0" for n
      by (rule for_loop_frame, simp)+
    moreover have "irq_handlers (gic_fill b f n v t) = irq_handlers t" "cntv_tval (gic_fill b f n v t) = cntv_tval t"
      "cntv_ctl (gic_fill b f n v t) = cntv_ctl t" for b f n v and t :: "'a irq_state_scheme"
      unfolding gic_fill_def by (rule for_loop_frame, simp add: gic_write_def)+
    ultimately show "length (irq_handlers ?i) = MAX_IRQ" "length (cntv_tval ?i) = MAX_CPUS" "length (cntv_ctl ?i) = MAX_CPUS"
      using assms by (simp_all add: irq_init_def Let_def irq_enable_def irq_register_def gic_cpu_init_def gic_write_def)
  qed
  have tr: "gic_trace ?s = gic_trace ?i @ [(GICD_ISENABLER, 0x8000000)]"
    by (simp add: timer_init_def Let_def irq_enable_def irq_register_def gic_write_def)
  have eff: "gic_effect L (GICD_ISENABLER, 0x8000000) b = (L = 27 \<or> b)" if "L < 256" for L b
  proof -
    have b: "bit (0x8000000 :: u32) j \<longleftrightarrow> j = 27" for j
    proof -
      have e: "(0x8000000 :: u32) = 2 ^ 27" by simp
      show ?thesis unfolding e bit_exp_iff by auto
    qed
    have "L div 32 \<in> {..<8}" using that by auto
    then have "L div 32 \<in> {0, 1, 2, 3, 4, 5, 6, 7}" by (simp add: lessThan_nat_numeral lessThan_Suc insert_commute)
    then have "gic_effect L (GICD_ISENABLER, 0x8000000) c = (L div 32 = 0 \<and> L mod 32 = 27 \<or> c)" for c
      unfolding gic_effect_def prod.case b by auto
    moreover have "L = 27 \<longleftrightarrow> L div 32 = 0 \<and> L mod 32 = 27" by presburger
    ultimately show ?thesis by blast
  qed
  have "line_enabled L (gic_trace ?s) \<longleftrightarrow> L \<in> {0, 27}" if "L < unat (num_irqs_of typer)" for L
    using irq_init_lines [OF that, of s0] eff [of L] that num_irqs_bounds(2) [of typer]
    unfolding tr line_enabled_snoc by auto
  moreover have "irq_handlers ?s ! 27 = Some Timer_handler" "cntv_tval ?s ! 0 = freq div 100" "cntv_ctl ?s ! 0 = 1" "tick_count ?s = 0"
    using len by (simp_all add: timer_init_def Let_def irq_enable_def irq_register_def gic_write_def MAX_IRQ_def MAX_CPUS_def)
  moreover have "irq_handle drv c iar ?s = map_option (gic_write GICC_EOIR iar) (timer_handler c ?s)" if "iar AND 0x3FF = 27"
    using that \<open>irq_handlers ?s ! 27 = Some Timer_handler\<close>
    by (simp add: irq_handle_def Let_def run_handler_def MAX_IRQ_def split: option.split)
  ultimately show ?thesis by (simp add: Let_def)
qed

theorem timer_interrupt_setup_witness:
  "cntv_tval (timer_init 0 62500000 (irq_init 0x8 (irq_machine [- 1, - 1, - 1, - 1] (\<lambda>_. TASK_DEAD) 0))) ! 0 = 625000 \<and>
   \<not> line_enabled 30 (gic_trace (timer_init 0 62500000 (irq_init 0x8 (irq_machine [- 1, - 1, - 1, - 1] (\<lambda>_. TASK_DEAD) 0))))"
proof -
  let ?m = "irq_machine [- 1, - 1, - 1, - 1] (\<lambda>_. TASK_DEAD) 0"
  have l: "length (irq_handlers ?m) = MAX_IRQ" "length (cntv_tval ?m) = MAX_CPUS" "length (cntv_ctl ?m) = MAX_CPUS"
    by (simp_all add: irq_machine_def wq_state.defs MAX_IRQ_def MAX_CPUS_def)
  have "30 < unat (num_irqs_of 0x8)" by (simp add: num_irqs_of_def Let_def)
  then show ?thesis using timer_interrupt_setup [OF l, of 62500000 "0x8"] by (auto simp: Let_def)
qed

section \<open>Stacks of the other CPUs\<close>

text \<open>\<open>R\<close> gives the first page of the stack of each CPU that was started.\<close>

definition stack_run :: "nat \<Rightarrow> nat set" where
  "stack_run r = {r..<r + 16}"

definition stacks_ok :: "(u64 \<Rightarrow> u64 \<Rightarrow> u64 \<Rightarrow> u64) \<Rightarrow> u64 \<Rightarrow> 'a irq_state_scheme \<Rightarrow> nat \<Rightarrow> (nat \<rightharpoonup> nat) \<Rightarrow> 'a irq_state_scheme \<Rightarrow> bool" where
  "stacks_ok psci pc s k R t \<longleftrightarrow> mm_inv t \<and> length (secondary_stacks t) = MAX_CPUS \<and>
     dom R \<subseteq> {1..<k} \<and> used_set t = used_set s \<union> (\<Union>c\<in>dom R. stack_run (the (R c))) \<and>
     (\<forall>c r. R c = Some r \<longrightarrow> stack_run r \<inter> used_set s = {} \<and> r + 16 \<le> MAX_PAGES \<and>
        psci_cpu_on psci (of_nat c) pc (of_nat c) = 0 \<and> secondary_stacks t ! c = page_addr r + 0x10000) \<and>
     (\<forall>c d. c \<in> dom R \<and> d \<in> dom R \<and> c \<noteq> d \<longrightarrow> stack_run (the (R c)) \<inter> stack_run (the (R d)) = {})"

lemma secondary_stacks_mm: "mm_state.more t' = mm_state.more t \<Longrightarrow> secondary_stacks t' = secondary_stacks t"
  by (cases t, cases t') simp

lemma irq_upd_mm [simp]:
  "mm_inv (t\<lparr>secondary_stacks := x\<rparr>) = mm_inv t" "used_set (t\<lparr>secondary_stacks := x\<rparr>) = used_set t"
  by (simp_all add: mm_inv_def used_set_def bitmap_test_def)

lemma boot_cpu_spec:
  assumes "stacks_ok psci pc s k R t" and "k < MAX_CPUS" and "1 \<le> k"
  shows "\<exists>R'. stacks_ok psci pc s (Suc k) R' (boot_cpu psci pc k t)"
proof -
  obtain a t1 where al: "pages_alloc 16 t = (a, t1)" by fastforce
  note S = assms(1) [unfolded stacks_ok_def]
  have k: "k \<notin> dom R" using S by auto
  have keep: "stacks_ok psci pc s (Suc k) R t'"
    if "mm_inv t'" "used_set t' = used_set t" "secondary_stacks t' = (secondary_stacks t)[k := x] \<or> secondary_stacks t' = secondary_stacks t"
    for t' x
  proof -
    have "secondary_stacks t' ! c = secondary_stacks t ! c" if "R c = Some r" for c r
      using \<open>secondary_stacks t' = _ \<or> _\<close> k that by (metis domI nth_list_update_neq)
    moreover have "length (secondary_stacks t') = MAX_CPUS" using that(3) S by auto
    moreover have "dom R \<subseteq> {1..<Suc k}" using S by auto
    ultimately show ?thesis using S that(1,2) unfolding stacks_ok_def by simp
  qed
  show ?thesis
  proof (cases "a = 0")
    case True
    then have "boot_cpu psci pc k t = t" using al pages_alloc_failed [of 16 t t1] by (simp add: boot_cpu_def)
    then show ?thesis using keep [of t] S by auto
  next
    case False
    have 16: "unat (16 :: u64) = 16" and mm: "mm_inv t" using S by simp_all
    obtain r where r: "a = page_addr r" "r + 16 \<le> MAX_PAGES" "stack_run r \<inter> used_set t = {}"
      "used_set t1 = used_set t \<union> stack_run r" "mm_inv t1" "mm_state.more t1 = mm_state.more t"
      by (rule pages_alloc_result [OF mm al False, unfolded 16, folded stack_run_def])
    let ?t2 = "t1\<lparr>secondary_stacks := (secondary_stacks t1)[k := a + 16 * PAGE_SIZE]\<rparr>"
    have st: "secondary_stacks ?t2 = (secondary_stacks t)[k := page_addr r + 0x10000]"
      using secondary_stacks_mm [OF r(6)] r(1) by simp
    show ?thesis
    proof (cases "psci_cpu_on psci (of_nat k) pc (of_nat k) = 0")
      case True
      let ?R = "R(k \<mapsto> r)"
      have bc: "boot_cpu psci pc k t = ?t2" using al False True by (simp add: boot_cpu_def Let_def)
      have nth: "secondary_stacks ?t2 ! c = (if c = k then page_addr r + 0x10000 else secondary_stacks t ! c)" for c
        unfolding st using S assms(2) by simp
      have new: "stack_run r \<inter> used_set s = {}" "c \<in> dom R \<Longrightarrow> stack_run (the (R c)) \<inter> stack_run r = {}" for c
        using S r(3) by blast+
      have "stacks_ok psci pc s (Suc k) ?R ?t2"
        unfolding stacks_ok_def
      proof (intro conjI allI impI)
        show "mm_inv ?t2" using r(5) by simp
        show "length (secondary_stacks ?t2) = MAX_CPUS" unfolding st using S by simp
        show "dom ?R \<subseteq> {1..<Suc k}" using S assms(3) by auto
        have "(\<Union>c\<in>dom ?R. stack_run (the (?R c))) = stack_run r \<union> (\<Union>c\<in>dom R. stack_run (the (?R c)))" by simp
        also have "(\<Union>c\<in>dom R. stack_run (the (?R c))) = (\<Union>c\<in>dom R. stack_run (the (R c)))"
          using k by (intro SUP_cong refl) auto
        finally have U: "(\<Union>c\<in>dom ?R. stack_run (the (?R c))) = stack_run r \<union> (\<Union>c\<in>dom R. stack_run (the (R c)))" .
        have "used_set ?t2 = used_set s \<union> (\<Union>c\<in>dom R. stack_run (the (R c))) \<union> stack_run r" using S r(4) by simp
        then show "used_set ?t2 = used_set s \<union> (\<Union>c\<in>dom ?R. stack_run (the (?R c)))" unfolding U by blast
        show "stack_run r' \<inter> used_set s = {}" "r' + 16 \<le> MAX_PAGES" "psci_cpu_on psci (of_nat c) pc (of_nat c) = 0"
          "secondary_stacks ?t2 ! c = page_addr r' + 0x10000" if "?R c = Some r'" for c r'
          using that S new(1) r(2) True nth [of c] by (auto split: if_splits)
        show "stack_run (the (?R c)) \<inter> stack_run (the (?R d)) = {}" if "c \<in> dom ?R \<and> d \<in> dom ?R \<and> c \<noteq> d" for c d
        proof -
          have "c \<in> dom R \<and> d \<in> dom R \<longrightarrow> stack_run (the (R c)) \<inter> stack_run (the (R d)) = {}" using S that by blast
          moreover have "c \<in> dom R \<or> c = k" "d \<in> dom R \<or> d = k" using that by auto
          ultimately show ?thesis using that new(2) [of c] new(2) [of d] by (cases "c = k"; cases "d = k") (simp_all add: Int_commute)
        qed
      qed
      then show ?thesis unfolding bc by blast
    next
      case failed: False
      have bc: "boot_cpu psci pc k t = pages_free (page_addr r) 16 ?t2" using al False failed r(1) by (simp add: boot_cpu_def Let_def)
      have "mm_inv ?t2" using r(5) by simp
      then have g: "gives_back (stack_run r) ?t2 (boot_cpu psci pc k t)"
        using pages_free_gives_back [of ?t2 r 16] r(2) unfolding bc 16 stack_run_def by blast
      have "stacks_ok psci pc s (Suc k) R (boot_cpu psci pc k t)"
        using g r(3,4) st secondary_stacks_mm [of "boot_cpu psci pc k t" ?t2]
        by (intro keep [where x = "page_addr r + 0x10000"]) (auto simp: gives_back_def)
      then show ?thesis by blast
    qed
  qed
qed

text \<open>
  Starting the other CPUs, whatever the firmware answers: every CPU that was started has a
  stack of 16 pages of its own, free before the call and apart from every other stack, and
  its entry of \<^verbatim>\<open>secondary_stacks\<close> is the end of it; the pages of a CPU the firmware refused are
  free again, and no other page changes hands.
\<close>

theorem smp_init_stacks:
  assumes "mm_inv s" and "length (secondary_stacks s) = MAX_CPUS"
  shows "\<exists>R. stacks_ok psci pc s (if 1 < n \<and> n \<le> int MAX_CPUS then nat n else 1) R (smp_init psci pc n s)"
proof -
  define m where "m = (if n \<le> 1 \<or> n > int MAX_CPUS then 1 else nat n)"
  have m: "1 \<le> m" "m \<le> MAX_CPUS" "m = (if 1 < n \<and> n \<le> int MAX_CPUS then nat n else 1)"
    by (auto simp: m_def MAX_CPUS_def)
  have "stacks_ok psci pc s 1 Map.empty s" using assms by (simp add: stacks_ok_def)
  then have "\<exists>R. stacks_ok psci pc s 1 R s" by blast
  then have "\<exists>R. stacks_ok psci pc s m R (for_loop 1 m (boot_cpu psci pc) s)"
  proof (rule for_loop_inv [where P = "\<lambda>k t. \<exists>R. stacks_ok psci pc s k R t"])
    fix j t assume "1 \<le> j" "j < m" "\<exists>R. stacks_ok psci pc s j R t"
    then show "\<exists>R. stacks_ok psci pc s (Suc j) R (boot_cpu psci pc j t)" using boot_cpu_spec m(2) by fastforce
  qed (rule m(1))
  then show ?thesis unfolding m(3) [symmetric] by (simp add: smp_init_def Let_def m_def)
qed

theorem smp_init_stacks_witness:
  "\<exists>R. stacks_ok (\<lambda>t e x. if t = 2 then - 2 else 0) 0x40080000 (irq_machine [- 1, - 1, - 1, - 1] (\<lambda>_. TASK_DEAD) 0) 4 R
     (smp_init (\<lambda>t e x. if t = 2 then - 2 else 0) 0x40080000 4 (irq_machine [- 1, - 1, - 1, - 1] (\<lambda>_. TASK_DEAD) 0))"
proof -
  let ?m = "irq_machine [- 1, - 1, - 1, - 1] (\<lambda>_. TASK_DEAD) 0"
  have "mm_inv sched_boot" by (rule sys_invD(2) [OF sched_boot_spec(1)])
  moreover have "page_bitmap ?m = page_bitmap sched_boot" "used_pages ?m = used_pages sched_boot" "total_pages ?m = total_pages sched_boot"
    by (simp_all add: irq_machine_def wq_state.defs wq_machine_def sched_state.defs boot_wq_def sleep_init_def wq_init_def
        wq_pool_init_spec set_head_def machine_with_def)
  ultimately have "mm_inv ?m" by (simp add: mm_inv_def used_set_def bitmap_test_def)
  moreover have "length (secondary_stacks ?m) = MAX_CPUS" by (simp add: irq_machine_def wq_state.defs MAX_CPUS_def)
  ultimately show ?thesis using smp_init_stacks [of ?m "\<lambda>t e x. if t = 2 then - 2 else 0" "0x40080000" 4] by (simp add: MAX_CPUS_def)
qed

end
