(* ===== verification/Futex.thy ===== *)
theory Futex
  imports Irq
begin

text \<open>
  Futexes (\<^verbatim>\<open>kernel/futex.c\<close>): a table of 16 slots, each an address and a wait queue.
  The user word is read twice by a wait; both values are arguments, since other CPUs may
  write the word. What a wait does under \<^verbatim>\<open>futex_lock\<close>, its call of the wait queue, and what it
  does when the task runs again are separate definitions, in the order of the code, so that
  other calls can be placed between them.
\<close>

section \<open>The interface of a line of waiters\<close>

text \<open>
  What a client of the wait queues relies on: a state represents a line of waiters for every
  queue; \<open>wake\<close> serves the first of one line and leaves the other lines alone. \<open>served ws s t\<close> says
  that from \<open>s\<close> to \<open>t\<close> exactly the waiters \<open>ws\<close> were served.
\<close>

locale waiter_lines =
  fixes rep :: "'s \<Rightarrow> ('q \<Rightarrow> 'w list) \<Rightarrow> bool"
    and nonempty :: "'q \<Rightarrow> 's \<Rightarrow> bool"
    and wake :: "'q \<Rightarrow> 's \<Rightarrow> 's"
    and served :: "'w set \<Rightarrow> 's \<Rightarrow> 's \<Rightarrow> bool"
    and keeps :: "'s \<Rightarrow> 's \<Rightarrow> bool"
  assumes nonempty_iff: "rep s W \<Longrightarrow> nonempty q s \<longleftrightarrow> W q \<noteq> []"
    and wake_first: "rep s W \<Longrightarrow> W q = w # ws \<Longrightarrow> served X s0 s \<Longrightarrow>
          rep (wake q s) (W(q := ws)) \<and> served (insert w X) s0 (wake q s)"
    and served_none: "rep s W \<Longrightarrow> served {} s s"
    and keeps_refl: "keeps s s"
    and keeps_wake: "rep s W \<Longrightarrow> W q \<noteq> [] \<Longrightarrow> keeps s0 s \<Longrightarrow> keeps s0 (wake q s)"
begin

text \<open>A loop that wakes while the line is not empty, at most \<open>k\<close> times, serves the first \<open>k\<close>.\<close>

fun wake_upto :: "nat \<Rightarrow> 'q \<Rightarrow> 's \<Rightarrow> nat \<times> 's" where
  "wake_upto 0 q s = (0, s)"
| "wake_upto (Suc k) q s = (if nonempty q s then case wake_upto k q (wake q s) of (n, t) \<Rightarrow> (Suc n, t) else (0, s))"

lemma wake_upto_spec:
  assumes "rep s W" and "served X s0 s" and "keeps s0 s"
  shows "\<exists>t. wake_upto k q s = (min k (length (W q)), t) \<and> rep t (W(q := drop k (W q))) \<and>
     served (X \<union> set (take k (W q))) s0 t \<and> keeps s0 t"
  using assms
proof (induction k arbitrary: s W X)
  case 0
  then show ?case by (simp add: fun_upd_idem)
next
  case (Suc k)
  show ?case
  proof (cases "W q")
    case Nil
    then show ?thesis using Suc.prems nonempty_iff [of s W q] by (auto simp: fun_upd_idem)
  next
    case (Cons w ws)
    then have w: "rep (wake q s) (W(q := ws))" "served (insert w X) s0 (wake q s)"
      using wake_first Suc.prems by blast+
    have k: "keeps s0 (wake q s)" using keeps_wake [OF Suc.prems(1), of q s0] Suc.prems(3) Cons by simp
    from Suc.IH [OF w k, unfolded fun_upd_upd fun_upd_same]
    obtain t where t: "wake_upto k q (wake q s) = (min k (length ws), t)" "rep t (W(q := drop k ws))"
      "served (insert w X \<union> set (take k ws)) s0 t" "keeps s0 t" by blast
    have e: "drop (Suc k) (W q) = drop k ws" "take (Suc k) (W q) = w # take k ws" "length (W q) = Suc (length ws)"
      using Cons by simp_all
    have "wake_upto (Suc k) q s = (min (Suc k) (Suc (length ws)), t)"
      using t(1) Cons nonempty_iff [OF Suc.prems(1), of q] by simp
    moreover have "served (X \<union> set (w # take k ws)) s0 t" using t(3) by simp
    ultimately show ?thesis unfolding e using t(2,4) by blast
  qed
qed

end

text \<open>The wait queues provide it: the line of a queue holds the tasks and their timeouts.\<close>

definition lines_of :: "'a wq_state_scheme \<Rightarrow> (wq_ref \<Rightarrow> (int \<times> u64) list) \<Rightarrow> bool" where
  "lines_of s W \<longleftrightarrow> length (tasks s) = MAX_TASKS \<and> (\<exists>Q. wq_inv Q s \<and> waiting Q s = W)"

definition served_tasks :: "(int \<times> u64) set \<Rightarrow> 'a wq_state_scheme \<Rightarrow> 'a wq_state_scheme \<Rightarrow> bool" where
  "served_tasks X s t \<longleftrightarrow> length (tasks s) = MAX_TASKS \<and> woken 0 (fst ` X) s t"

definition above_wq :: "'a wq_state_scheme \<Rightarrow> 'a wq_state_scheme \<Rightarrow> bool" where
  "above_wq s t \<longleftrightarrow> same_cpus s t \<and> wq_state.more t = wq_state.more s"

lemma wake_one_more: "wq_state.more (wq_wake_one q s) = wq_state.more s"
  by (simp add: wq_wake_one_def dequeue_wake_def Let_def smp_send_reschedule_def gic_write_def pool_free_def upd_entry_def
      wake_task_def upd_task_def set_head_def)

interpretation wq_lines: waiter_lines lines_of "\<lambda>q s. whead s q \<ge> 0" wq_wake_one served_tasks above_wq
proof
  show "0 \<le> whead s q \<longleftrightarrow> W q \<noteq> []" if "lines_of s W" for s :: "'a wq_state_scheme" and W q
  proof -
    obtain Q where Q: "wq_inv Q s" "waiting Q s = W" using \<open>lines_of s W\<close> by (auto simp: lines_of_def)
    have "whead s q < 0 \<longleftrightarrow> W q = []" using wq_invD(9) [OF Q(1), of q] Q(2) by (auto simp: waiting_def)
    then show ?thesis by linarith
  qed
next
  fix s s0 :: "'a wq_state_scheme" and W q w ws X
  assume a: "lines_of s W" "W q = w # ws" "served_tasks X s0 s"
  obtain Q where Q: "wq_inv Q s" "waiting Q s = W" "length (tasks s) = MAX_TASKS" using a(1) by (auto simp: lines_of_def)
  obtain i xs where q: "Q q = i # xs" using a(2) Q(2) by (cases "Q q") (auto simp: waiting_def)
  have w: "w = (task_id (wq_pool s ! i), timeout_tick (wq_pool s ! i))" "ws = tl (waiting Q s q)"
    using a(2) Q(2) q by (auto simp: waiting_def)
  note W = wake_one_spec [OF Q(1,3) q]
  have "lines_of (wq_wake_one q s) (W(q := ws))"
    unfolding lines_of_def using W(1-3) w(2) Q(2,3) unfolding woken_def by auto
  moreover have d: "whead s q \<ge> 0" using wq_invD(9) [OF Q(1), of q] q by simp
  have "tasks (wq_wake_one q s) = tasks (wake_task 0 (fst w) s)"
    using d dequeue_wake_spec(2) [OF Q(1) q] w(1) by (simp add: wq_wake_one_def Let_def)
  then have "served_tasks (insert w X) s0 (wq_wake_one q s)"
    using woken_step [of 0 "fst ` X" s0 s] a(3) by (simp add: served_tasks_def)
  ultimately show "lines_of (wq_wake_one q s) (W(q := ws)) \<and> served_tasks (insert w X) s0 (wq_wake_one q s)" by blast
next
  show "served_tasks {} s s" if "lines_of s W" for s :: "'a wq_state_scheme" and W
    using that by (simp add: served_tasks_def lines_of_def woken_refl)
  show "above_wq s s" for s :: "'a wq_state_scheme" by (simp add: above_wq_def same_cpus_def)
next
  fix s s0 :: "'a wq_state_scheme" and W :: "wq_ref \<Rightarrow> (int \<times> u64) list" and q
  assume a: "lines_of s W" "W q \<noteq> []" "above_wq s0 s"
  obtain Q where Q: "wq_inv Q s" "waiting Q s = W" "length (tasks s) = MAX_TASKS" using a(1) by (auto simp: lines_of_def)
  obtain i xs where q: "Q q = i # xs" using a(2) Q(2) by (cases "Q q") (auto simp: waiting_def)
  show "above_wq s0 (wq_wake_one q s)"
    using wake_one_spec(4) [OF Q(1,3) q] a(3) wake_one_more [of q s] by (simp add: above_wq_def same_cpus_def)
qed

section \<open>State and operations\<close>

definition FUTEX_MAX :: nat where "FUTEX_MAX = 16"

record futex_slot =
  faddr :: u64
  factive :: bool

record futex_state = irq_state +
  ftable :: "futex_slot list"

definition upd_slot :: "nat \<Rightarrow> (futex_slot \<Rightarrow> futex_slot) \<Rightarrow> 'a futex_state_scheme \<Rightarrow> 'a futex_state_scheme" where
  "upd_slot i f s = s\<lparr>ftable := (ftable s)[i := f (ftable s ! i)]\<rparr>"

definition futex_init :: "'a futex_state_scheme \<Rightarrow> 'a futex_state_scheme" where
  "futex_init s = for_loop 0 FUTEX_MAX (\<lambda>i s. wq_init (Futex_wq i) (upd_slot i (\<lambda>f. f\<lparr>faddr := 0, factive := False\<rparr>) s)) s"

text \<open>The search: the slot of the address (\<open>Inl\<close>), or else the first free slot or -1 (\<open>Inr\<close>).\<close>

function slot_scan :: "futex_slot list \<Rightarrow> u64 \<Rightarrow> nat \<Rightarrow> int \<Rightarrow> nat + int" where
  "slot_scan ft addr i free_slot =
     (if i < FUTEX_MAX
      then if factive (ft ! i) \<and> faddr (ft ! i) = addr then Inl i
           else slot_scan ft addr (Suc i) (if \<not> factive (ft ! i) \<and> free_slot < 0 then int i else free_slot)
      else Inr free_slot)"
  by pat_completeness auto
termination
  by (relation "measure (\<lambda>(ft, addr, i, f). FUTEX_MAX - i)") auto

declare slot_scan.simps [simp del]

definition find_slot :: "u64 \<Rightarrow> bool \<Rightarrow> 'a futex_state_scheme \<Rightarrow> int \<times> 'a futex_state_scheme" where
  "find_slot addr create s =
     (case slot_scan (ftable s) addr 0 (- 1) of
        Inl i \<Rightarrow> (int i, s)
      | Inr free_slot \<Rightarrow>
          if create \<and> free_slot \<ge> 0
          then (free_slot, wq_init (Futex_wq (nat free_slot))
                 (upd_slot (nat free_slot) (\<lambda>f. f\<lparr>faddr := addr, factive := True\<rparr>) s))
          else (- 1, s))"

definition maybe_free_slot :: "nat \<Rightarrow> 'a futex_state_scheme \<Rightarrow> 'a futex_state_scheme" where
  "maybe_free_slot slot s =
     (if whead s (Futex_wq slot) < 0 then upd_slot slot (\<lambda>f. f\<lparr>factive := False\<rparr>) s else s)"

text \<open>
  The part of \<^verbatim>\<open>futex_wait\<close> and \<^verbatim>\<open>futex_wait_timeout\<close> under the first lock; \<open>v1\<close> and \<open>v2\<close> are the
  two values read from the user word. A negative result is the early return of -1.
\<close>

definition futex_prepare :: "u64 \<Rightarrow> u32 \<Rightarrow> u32 \<Rightarrow> u32 \<Rightarrow> 'a futex_state_scheme \<Rightarrow> int \<times> 'a futex_state_scheme" where
  "futex_prepare addr v1 v2 expected s =
     (if v1 \<noteq> expected then (- 1, s)
      else case find_slot addr True s of (slot, s1) \<Rightarrow>
        if slot < 0 then (- 1, s1)
        else if v2 \<noteq> expected then (- 1, maybe_free_slot (nat slot) s1)
        else (slot, s1))"

text \<open>A wait that returned, or that blocked a task, with the slot its second part will look at.\<close>

datatype 's futex_result = Futex_done int 's | Futex_blocked int nat 's

definition futex_finish :: "nat \<Rightarrow> int \<Rightarrow> 'a futex_state_scheme \<Rightarrow> int \<times> 'a futex_state_scheme" where
  "futex_finish slot ret s = (ret, maybe_free_slot slot s)"

definition futex_block :: "nat \<Rightarrow> 'a futex_state_scheme waited option \<Rightarrow> int option \<Rightarrow> 'a futex_state_scheme futex_result option" where
  "futex_block slot w forced =
     (case w of
        None \<Rightarrow> None
      | Some (Returned r s) \<Rightarrow> (case futex_finish slot (case forced of Some x \<Rightarrow> x | None \<Rightarrow> r) s of (ret, s') \<Rightarrow> Some (Futex_done ret s'))
      | Some (Gave_up t s) \<Rightarrow> Some (Futex_blocked t slot s))"

definition futex_wait :: "nat \<Rightarrow> u64 \<Rightarrow> u32 \<Rightarrow> u32 \<Rightarrow> u32 \<Rightarrow> 'a futex_state_scheme \<Rightarrow> 'a futex_state_scheme futex_result option" where
  "futex_wait c addr v1 v2 expected s =
     (case futex_prepare addr v1 v2 expected s of (slot, s1) \<Rightarrow>
        if slot < 0 then Some (Futex_done (- 1) s1)
        else futex_block (nat slot) (wq_wait c (Futex_wq (nat slot)) s1) (Some 0))"

text \<open>When the task runs again: \<^verbatim>\<open>futex_wait\<close> returns 0, \<^verbatim>\<open>futex_wait_timeout\<close> the result of the queue.\<close>

definition futex_wait_resume :: "nat \<Rightarrow> 'a futex_state_scheme \<Rightarrow> int \<times> 'a futex_state_scheme" where
  "futex_wait_resume slot s = futex_finish slot 0 s"

definition futex_wait_timeout ::
  "nat \<Rightarrow> u64 \<Rightarrow> u32 \<Rightarrow> u32 \<Rightarrow> u32 \<Rightarrow> u64 \<Rightarrow> 'a futex_state_scheme \<Rightarrow> 'a futex_state_scheme futex_result option" where
  "futex_wait_timeout c addr v1 v2 expected ticks s =
     (case futex_prepare addr v1 v2 expected s of (slot, s1) \<Rightarrow>
        if slot < 0 then Some (Futex_done (- 1) s1)
        else futex_block (nat slot) (wq_wait_timeout c (Futex_wq (nat slot)) ticks s1) None)"

definition futex_wait_timeout_resume :: "int \<Rightarrow> nat \<Rightarrow> 'a futex_state_scheme \<Rightarrow> int \<times> 'a futex_state_scheme" where
  "futex_wait_timeout_resume t slot s = futex_finish slot (wq_wait_timeout_resume t True s) s"

function wake_loop :: "int \<Rightarrow> int \<Rightarrow> nat \<Rightarrow> 'a futex_state_scheme \<Rightarrow> int \<times> 'a futex_state_scheme" where
  "wake_loop woken_n count slot s =
     (if woken_n < count \<and> whead s (Futex_wq slot) \<ge> 0
      then wake_loop (woken_n + 1) count slot (wq_wake_one (Futex_wq slot) s) else (woken_n, s))"
  by pat_completeness auto
termination
  by (relation "measure (\<lambda>(w, n, slot, s). nat (n - w))") auto

declare wake_loop.simps [simp del]

definition futex_wake :: "u64 \<Rightarrow> int \<Rightarrow> 'a futex_state_scheme \<Rightarrow> int \<times> 'a futex_state_scheme" where
  "futex_wake addr count s =
     (case find_slot addr False s of (slot, s1) \<Rightarrow>
        if slot < 0 then (0, s1)
        else case wake_loop 0 count (nat slot) s1 of (n, s2) \<Rightarrow> (n, maybe_free_slot (nat slot) s2))"

section \<open>The table as a map from addresses to lines\<close>

abbreviation has_addr :: "u64 \<Rightarrow> futex_slot list \<Rightarrow> nat \<Rightarrow> bool" where
  "has_addr addr ft i \<equiv> factive (ft ! i) \<and> faddr (ft ! i) = addr"

definition slot_of :: "futex_slot list \<Rightarrow> u64 \<Rightarrow> nat option" where
  "slot_of ft addr = first_idx (has_addr addr ft) 0 FUTEX_MAX"

definition free_slot_of :: "futex_slot list \<Rightarrow> nat option" where
  "free_slot_of ft = first_idx (\<lambda>i. \<not> factive (ft ! i)) 0 FUTEX_MAX"

lemma slot_scan_first_idx:
  "f \<ge> - 1 \<Longrightarrow> slot_scan ft addr i f =
    (case first_idx (has_addr addr ft) i FUTEX_MAX of
       Some k \<Rightarrow> Inl k
     | None \<Rightarrow> Inr (if f \<ge> 0 then f else case first_idx (\<lambda>i. \<not> factive (ft ! i)) i FUTEX_MAX of Some j \<Rightarrow> int j | None \<Rightarrow> - 1))"
proof (induction ft addr i f rule: slot_scan.induct)
  case (1 ft addr i f)
  show ?case
  proof (cases "i < FUTEX_MAX \<and> \<not> has_addr addr ft i")
    case True
    let ?f = "if \<not> factive (ft ! i) \<and> f < 0 then int i else f"
    have f: "- 1 \<le> ?f" using "1.prems" by simp
    have IH: "slot_scan ft addr (Suc i) ?f =
      (case first_idx (has_addr addr ft) (Suc i) FUTEX_MAX of
         Some k \<Rightarrow> Inl k
       | None \<Rightarrow> Inr (if ?f \<ge> 0 then ?f else case first_idx (\<lambda>i. \<not> factive (ft ! i)) (Suc i) FUTEX_MAX of Some j \<Rightarrow> int j | None \<Rightarrow> - 1))"
      by (rule "1.IH" [OF _ _ f]) (use True in auto)
    have "slot_scan ft addr i f = slot_scan ft addr (Suc i) ?f" 
      by (subst slot_scan.simps) (use True in auto)
    moreover have "first_idx (has_addr addr ft) i FUTEX_MAX = first_idx (has_addr addr ft) (Suc i) FUTEX_MAX"
      by (subst first_idx.simps) (use True in auto)
    moreover have "first_idx (\<lambda>i. \<not> factive (ft ! i)) i FUTEX_MAX =
       (if factive (ft ! i) then first_idx (\<lambda>i. \<not> factive (ft ! i)) (Suc i) FUTEX_MAX else Some i)"
      using True by (subst first_idx.simps) simp
    ultimately show ?thesis unfolding IH by (auto split: option.split)
  next
    case False
    then show ?thesis
      unfolding slot_scan.simps [of ft addr i f] first_idx.simps [of _ i] using "1.prems" by auto
  qed
qed

lemma find_slot_eq:
  "find_slot addr create s =
    (case slot_of (ftable s) addr of
       Some i \<Rightarrow> (int i, s)
     | None \<Rightarrow> (case free_slot_of (ftable s) of
         Some j \<Rightarrow> if create then (int j, wq_init (Futex_wq j) (upd_slot j (\<lambda>f. f\<lparr>faddr := addr, factive := True\<rparr>) s)) else (- 1, s)
       | None \<Rightarrow> (- 1, s)))"
  by (simp add: find_slot_def slot_scan_first_idx slot_of_def free_slot_of_def split: option.split)

text \<open>The lines of the futex words; a word without a slot has no waiters.\<close>

definition fline :: "'a futex_state_scheme \<Rightarrow> (wq_ref \<Rightarrow> (int \<times> u64) list) \<Rightarrow> u64 \<Rightarrow> (int \<times> u64) list" where
  "fline s W addr = (case slot_of (ftable s) addr of Some i \<Rightarrow> W (Futex_wq i) | None \<Rightarrow> [])"

definition table_ok :: "futex_slot list \<Rightarrow> bool" where
  "table_ok ft \<longleftrightarrow> length ft = FUTEX_MAX \<and>
     (\<forall>i j. i < FUTEX_MAX \<and> j < FUTEX_MAX \<and> factive (ft ! i) \<and> factive (ft ! j) \<and> faddr (ft ! i) = faddr (ft ! j) \<longrightarrow> i = j)"

definition futex_ok :: "'a futex_state_scheme \<Rightarrow> (wq_ref \<Rightarrow> (int \<times> u64) list) \<Rightarrow> bool" where
  "futex_ok s W \<longleftrightarrow> lines_of s W \<and> table_ok (ftable s) \<and> (\<forall>i<FUTEX_MAX. \<not> factive (ftable s ! i) \<longrightarrow> W (Futex_wq i) = [])"

lemma slot_of_iff:
  assumes "table_ok ft"
  shows "slot_of ft addr = Some i \<longleftrightarrow> i < FUTEX_MAX \<and> has_addr addr ft i"
  using assms unfolding slot_of_def first_idx_Some table_ok_def by (auto, metis order.strict_trans less_irrefl)

lemma slot_of_None: "slot_of ft addr = None \<longleftrightarrow> (\<forall>i<FUTEX_MAX. \<not> has_addr addr ft i)"
  by (simp add: slot_of_def first_idx_None)

text \<open>Two ways in which the table changes: a free slot taken, and a slot with an empty line given up.\<close>

lemma slot_eqI: "(\<And>i. x = Some i \<longleftrightarrow> y = Some i) \<Longrightarrow> x = y"
  by (cases x; cases y) auto

lemma table_take:
  assumes "table_ok ft" and "slot_of ft addr = None" and "free_slot_of ft = Some j"
  defines "ft' \<equiv> ft[j := (ft ! j)\<lparr>faddr := addr, factive := True\<rparr>]"
  shows "table_ok ft'" and "slot_of ft' a = (if a = addr then Some j else slot_of ft a)" and "j < FUTEX_MAX" and "\<not> factive (ft ! j)"
proof -
  show j: "j < FUTEX_MAX" "\<not> factive (ft ! j)" using assms(3) by (simp_all add: free_slot_of_def first_idx_Some)
  have len: "j < length ft" using assms(1) j(1) by (simp add: table_ok_def)
  have nth: "ft' ! i = (if i = j then (ft ! j)\<lparr>faddr := addr, factive := True\<rparr> else ft ! i)" for i
    using len by (simp add: ft'_def nth_list_update)
  have none: "\<not> has_addr addr ft i" if "i < FUTEX_MAX" for i using assms(2) that by (simp add: slot_of_None)
  show ok: "table_ok ft'"
    using assms(1) none nth unfolding table_ok_def by (auto simp: ft'_def split: if_splits)
  show "slot_of ft' a = (if a = addr then Some j else slot_of ft a)"
    by (rule slot_eqI) (use none j nth in \<open>auto simp: slot_of_iff [OF ok] slot_of_iff [OF assms(1)]\<close>)
qed

lemma table_give_up:
  assumes "table_ok ft" and "j < FUTEX_MAX"
  defines "ft' \<equiv> ft[j := (ft ! j)\<lparr>factive := False\<rparr>]"
  shows "table_ok ft'" and "slot_of ft' a = (if slot_of ft a = Some j then None else slot_of ft a)"
proof -
  have len: "j < length ft" using assms(1,2) by (simp add: table_ok_def)
  have nth: "ft' ! i = (if i = j then (ft ! j)\<lparr>factive := False\<rparr> else ft ! i)" for i
    using len by (simp add: ft'_def nth_list_update)
  show ok: "table_ok ft'"
    using assms(1) nth unfolding table_ok_def by (auto simp: ft'_def split: if_splits)
  show "slot_of ft' a = (if slot_of ft a = Some j then None else slot_of ft a)"
    by (rule slot_eqI)
      (use nth assms(1) in \<open>auto simp: slot_of_iff [OF ok] slot_of_iff [OF assms(1)] table_ok_def split: if_splits\<close>)
qed

lemma wake_loop_upto:
  "wake_loop w n slot s = (case wq_lines.wake_upto (nat (n - w)) (Futex_wq slot) s of (k, t) \<Rightarrow> (w + int k, t))"
proof (induction "nat (n - w)" arbitrary: w s)
  case 0
  then show ?case by (subst wake_loop.simps) simp
next
  case (Suc m)
  then have "nat (n - (w + 1)) = m" "w < n" by simp_all
  then show ?case
    using Suc.hyps(1) [of "w + 1" "wq_wake_one (Futex_wq slot) s"]
    by (subst wake_loop.simps) (simp add: Suc.hyps(2) [symmetric] split: prod.split)
qed

lemma futex_slot_frame [simp]:
  "tasks (upd_slot i f s) = tasks s" "wq_pool (upd_slot i f s) = wq_pool s" "whead (upd_slot i f s) = whead s"
  "percpu (upd_slot i f s) = percpu s" "regs (upd_slot i f s) = regs s" "ttbr0 (upd_slot i f s) = ttbr0 s"
  "tick_count (upd_slot i f s) = tick_count s" "ftable (upd_slot i f s) = (ftable s)[i := f (ftable s ! i)]"
  "ftable (wq_init q s) = ftable s"
  by (simp_all add: upd_slot_def wq_init_def set_head_def)

lemma wq_init_frame [simp]:
  "tasks (wq_init q s) = tasks s" "wq_pool (wq_init q s) = wq_pool s" "whead (wq_init q s) = (whead s)(q := - 1)"
  "percpu (wq_init q s) = percpu s" "tick_count (wq_init q s) = tick_count s"
  "regs (wq_init q s) = regs s" "ttbr0 (wq_init q s) = ttbr0 s"
  by (simp_all add: wq_init_def set_head_def)

lemma wq_inv_slot [simp]: "wq_inv Q (upd_slot i f s) = wq_inv Q s" "waiting Q (upd_slot i f s) = waiting Q s"
  by (simp_all add: wq_inv_def waiting_def [abs_def])

lemma wq_inv_init:
  assumes "wq_inv Q s" and "Q q = []"
  shows "wq_inv Q (wq_init q s)" and "waiting Q (wq_init q s) = waiting Q s"
  using assms by (auto simp: wq_inv_def waiting_def [abs_def])

lemma lines_of_slot [simp]: "lines_of (upd_slot i f s) W = lines_of s W"
  by (simp add: lines_of_def)

text \<open>A slot whose line is empty can be given up without changing any line.\<close>

lemma maybe_free_ok:
  assumes ok: "futex_ok s W" and j: "j < FUTEX_MAX"
  shows "futex_ok (maybe_free_slot j s) W" and "fline (maybe_free_slot j s) W = fline s W"
    and "tasks (maybe_free_slot j s) = tasks s"
proof -
  have l: "lines_of s W" "table_ok (ftable s)" "\<And>i. i < FUTEX_MAX \<Longrightarrow> \<not> factive (ftable s ! i) \<Longrightarrow> W (Futex_wq i) = []"
    using ok by (simp_all add: futex_ok_def)
  have e: "whead s (Futex_wq j) < 0 \<longleftrightarrow> W (Futex_wq j) = []" using wq_lines.nonempty_iff [OF l(1), of "Futex_wq j"] by auto
  note g = table_give_up [OF l(2) j]
  have len: "j < length (ftable s)" using l(2) j by (simp add: table_ok_def)
  show "futex_ok (maybe_free_slot j s) W"
    using l g(1) e len by (auto simp: futex_ok_def maybe_free_slot_def nth_list_update)
  have "fline (upd_slot j (\<lambda>f. f\<lparr>factive := False\<rparr>) s) W a = fline s W a" if "W (Futex_wq j) = []" for a
    using g(2) [of a] that by (simp add: fline_def split: option.split)
  then show "fline (maybe_free_slot j s) W = fline s W"
    using e by (simp add: maybe_free_slot_def fun_eq_iff)
  show "tasks (maybe_free_slot j s) = tasks s" by (simp add: maybe_free_slot_def)
qed

lemma above_wq_ftable: "above_wq s t \<Longrightarrow> ftable t = ftable s"
  by (cases s, cases t) (simp add: above_wq_def)

lemma fline_upd:
  assumes "table_ok (ftable s)" and "slot_of (ftable s) addr = Some i" and "ftable t = ftable s"
  shows "fline t (W(Futex_wq i := xs)) = (fline s W)(addr := xs)"
proof
  fix a
  show "fline t (W(Futex_wq i := xs)) a = ((fline s W)(addr := xs)) a"
  proof (cases "a = addr")
    case True
    then show ?thesis using assms(2,3) by (simp add: fline_def)
  next
    case False
    then have "slot_of (ftable s) a \<noteq> Some i" using assms(2) by (auto simp: slot_of_iff [OF assms(1)])
    then show ?thesis using False assms(3) by (auto simp: fline_def split: option.split)
  qed
qed


section \<open>Waiting\<close>

lemma wq_more_sched: "sched_state.more t = sched_state.more s \<Longrightarrow> wq_state.more t = wq_state.more s"
  by (cases s, cases t) simp

lemma wq_more_frame [simp]:
  "wq_state.more (upd_entry i g s) = wq_state.more s" "wq_state.more (set_head q h s) = wq_state.more s"
  "wq_state.more (upd_task j f s) = wq_state.more s" "wq_state.more (schedule c s) = wq_state.more s"
  by (simp_all add: upd_entry_def set_head_def upd_task_def wq_more_sched [OF schedule_more])

lemma enqueue_more: "enqueue_current q t tmo i s = Some s' \<Longrightarrow> wq_state.more s' = wq_state.more s"
  by (auto simp: enqueue_current_def queue_append_def Let_def block_task_def split: option.splits if_splits)

lemma wait_more:
  "wq_wait c q s = Some (Gave_up t s') \<Longrightarrow> wq_state.more s' = wq_state.more s"
  "wq_wait_timeout c q n s = Some (Gave_up t s') \<Longrightarrow> wq_state.more s' = wq_state.more s"
  by (auto simp: wq_wait_def wq_wait_timeout_def pool_alloc_def Let_def split: option.splits if_splits dest!: enqueue_more)

lemma wq_more_ftable: "wq_state.more t = wq_state.more s \<Longrightarrow> ftable t = ftable s"
  by (cases s, cases t) simp

text \<open>What finding or taking a slot leaves behind.\<close>

definition slot_ready :: "u64 \<Rightarrow> nat \<Rightarrow> (wq_ref \<Rightarrow> (int \<times> u64) list) \<Rightarrow> 'a futex_state_scheme \<Rightarrow> 'a futex_state_scheme \<Rightarrow> bool" where
  "slot_ready addr i W s t \<longleftrightarrow> futex_ok t W \<and> slot_of (ftable t) addr = Some i \<and> fline t W = fline s W \<and>
     tasks t = tasks s \<and> wq_pool t = wq_pool s \<and> same_cpus s t"

lemma find_slot_ready:
  assumes ok: "futex_ok s W" and "slot_of (ftable s) addr \<noteq> None \<or> free_slot_of (ftable s) \<noteq> None"
  obtains i t where "find_slot addr True s = (int i, t)" "i < FUTEX_MAX" "slot_ready addr i W s t"
proof (cases "slot_of (ftable s) addr")
  case (Some i)
  have "table_ok (ftable s)" using ok by (simp add: futex_ok_def)
  then show ?thesis
    using that [of i s] ok Some by (simp add: find_slot_eq slot_ready_def same_cpus_def slot_of_iff)
next
  case None
  then obtain j where j: "free_slot_of (ftable s) = Some j" using assms(2) by auto
  let ?t = "wq_init (Futex_wq j) (upd_slot j (\<lambda>f. f\<lparr>faddr := addr, factive := True\<rparr>) s)"
  have l: "lines_of s W" "table_ok (ftable s)" "\<And>i. i < FUTEX_MAX \<Longrightarrow> \<not> factive (ftable s ! i) \<Longrightarrow> W (Futex_wq i) = []"
    using ok by (simp_all add: futex_ok_def)
  note T = table_take [OF l(2) None j]
  have e: "W (Futex_wq j) = []" by (rule l(3) [OF T(3,4)])
  obtain Q where Q: "wq_inv Q s" "waiting Q s = W" using l(1) by (auto simp: lines_of_def)
  have "Q (Futex_wq j) = []" using e Q(2) by (auto simp: waiting_def)
  then have "lines_of ?t W"
    using wq_inv_init [of Q "upd_slot j (\<lambda>f. f\<lparr>faddr := addr, factive := True\<rparr>) s" "Futex_wq j"] Q l(1)
    unfolding lines_of_def by auto
  moreover have tab: "ftable ?t = (ftable s)[j := (ftable s ! j)\<lparr>faddr := addr, factive := True\<rparr>]" by simp
  have "W (Futex_wq i) = []" if "i < FUTEX_MAX" "\<not> factive (ftable ?t ! i)" for i
    using that l(3) [OF that(1)] e unfolding tab by (cases "i = j") auto
  ultimately have "futex_ok ?t W" unfolding futex_ok_def tab using T(1) by blast
  moreover have "fline ?t W a = fline s W a" for a
    using T(2) [of a] None e by (simp add: fline_def tab)
  ultimately have "slot_ready addr j W s ?t"
    using T(2) [of addr] unfolding slot_ready_def by (simp add: tab same_cpus_def fun_eq_iff)
  moreover have "find_slot addr True s = (int j, ?t)" using None j by (simp add: find_slot_eq)
  ultimately show ?thesis using that T(3) by blast
qed

text \<open>
  C27. \<open>futex_wait\<close> does what the abstract futex does: if the word has not the expected value at
  either reading it returns -1 and no line changes; otherwise, with a slot and a queue entry
  left, the caller joins the end of the line of that word, and only that line changes, and is
  blocked. Without a slot it returns -1; without a queue entry it returns 0, as after a
  wake-up, and no line changes.
\<close>

theorem futex_wait_refines:
  assumes "futex_ok s W" and "sched_ok s" and "c < MAX_CPUS" and "cur_of s c = int T" and "status s T \<noteq> TASK_DEAD"
  shows "let avail = (slot_of (ftable s) addr \<noteq> None \<or> free_slot_of (ftable s) \<noteq> None);
             room = (card (wq_used s) < WQ_POOL_SIZE)
    in if v1 = expected \<and> v2 = expected \<and> avail \<and> room
       then \<exists>slot W' s'. futex_wait c addr v1 v2 expected s = Some (Futex_blocked (int T) slot s') \<and> futex_ok s' W' \<and>
              fline s' W' = (fline s W)(addr := fline s W addr @ [(int T, 0)]) \<and> status s' T = TASK_BLOCKED
       else \<exists>s'. futex_wait c addr v1 v2 expected s =
                Some (Futex_done (if v1 = expected \<and> v2 = expected \<and> avail then 0 else - 1) s') \<and>
              futex_ok s' W \<and> fline s' W = fline s W \<and> tasks s' = tasks s"
proof (cases "v1 = expected \<and> (slot_of (ftable s) addr \<noteq> None \<or> free_slot_of (ftable s) \<noteq> None)")
  case False
  then have "futex_prepare addr v1 v2 expected s = (- 1, s)" by (auto simp: futex_prepare_def find_slot_eq)
  then have "futex_wait c addr v1 v2 expected s = Some (Futex_done (- 1) s)" by (simp add: futex_wait_def)
  then show ?thesis using False assms(1) by (auto simp: Let_def)
next
  case True
  then obtain i t where t: "find_slot addr True s = (int i, t)" "i < FUTEX_MAX" "slot_ready addr i W s t"
    using find_slot_ready [OF assms(1)] by metis
  note R = t(3) [unfolded slot_ready_def]
  have ok: "futex_ok t W" using R by blast
  show ?thesis
  proof (cases "v2 = expected")
    case False
    then have "futex_wait c addr v1 v2 expected s = Some (Futex_done (- 1) (maybe_free_slot i t))"
      using True t(1) by (simp add: futex_wait_def futex_prepare_def)
    then show ?thesis using maybe_free_ok [OF ok t(2)] R False by (auto simp: Let_def)
  next
    case v2: True
    have w: "futex_wait c addr v1 v2 expected s = futex_block i (wq_wait c (Futex_wq i) t) (Some 0)"
      using True v2 t(1) by (simp add: futex_wait_def futex_prepare_def)
    obtain Q where Q: "wq_inv Q t" "waiting Q t = W" using ok by (auto simp: futex_ok_def lines_of_def)
    have tt: "sched_ok t" "cur_of t c = int T" "status t T \<noteq> TASK_DEAD"
      using R assms(2,4,5) sched_ok_cong [of t s] by (simp_all add: same_cpus_def)
    have u: "wq_used t = wq_used s" using R by (simp add: wq_used_def)
    show ?thesis
    proof (cases "card (wq_used s) < WQ_POOL_SIZE")
      case False
      then have "wq_wait c (Futex_wq i) t = Some (Returned 0 t)"
        using wait_full [of t] tt(2) u by (simp add: wq_wait_def Let_def task_current_id_def)
      then have "futex_wait c addr v1 v2 expected s = Some (Futex_done 0 (maybe_free_slot i t))"
        using w by (simp add: futex_block_def futex_finish_def)
      then show ?thesis using maybe_free_ok [OF ok t(2)] R False True v2 by (auto simp: Let_def)
    next
      case room: True
      obtain Q' s' where s': "joined c T (Futex_wq i) 0 Q t Q' s'" "wq_wait c (Futex_wq i) t = Some (Gave_up (int T) s')"
        using wait_spec [OF Q(1) tt(1) assms(3) tt(2,3), of "Futex_wq i" 0] room u by metis
      have j: "wq_inv Q' s'" "waiting Q' s' = W(Futex_wq i := W (Futex_wq i) @ [(int T, 0)])" "gave_up c T t s'"
        using s'(1) Q(2) by (simp_all add: joined_def)
      have tab: "ftable s' = ftable t" by (rule wq_more_ftable [OF wait_more(1) [OF s'(2)]])
      have l: "table_ok (ftable t)" using ok by (simp add: futex_ok_def)
      have i: "factive (ftable t ! i)" using R slot_of_iff [OF l] by blast
      have "length (tasks s') = MAX_TASKS" using j(3) by (simp add: gave_up_def sched_ok_def)
      then have "lines_of s' (W(Futex_wq i := W (Futex_wq i) @ [(int T, 0)]))" unfolding lines_of_def using j(1,2) by blast
      then have "futex_ok s' (W(Futex_wq i := W (Futex_wq i) @ [(int T, 0)]))"
        using ok i unfolding futex_ok_def tab by auto
      moreover have "fline s W addr = W (Futex_wq i)" using R by (metis fline_def option.simps(5))
      then have "fline s' (W(Futex_wq i := W (Futex_wq i) @ [(int T, 0)])) = (fline s W)(addr := fline s W addr @ [(int T, 0)])"
        using fline_upd [OF l _ tab, of addr i] R by simp
      moreover have "status s' T = TASK_BLOCKED" using j(3) by (simp add: gave_up_def)
      moreover have "futex_wait c addr v1 v2 expected s = Some (Futex_blocked (int T) i s')"
        using w s'(2) by (simp add: futex_block_def)
      ultimately show ?thesis using True v2 room by (auto simp: Let_def)
    qed
  qed
qed

section \<open>The gap between the check and the wait\<close>

text \<open>
  The check of the word and the entry into the queue are not one step, although the header
  promises an atomic check: if another CPU wakes the word after a waiter has checked it and
  released \<^verbatim>\<open>futex_lock\<close>, and before the waiter has entered the queue, the wake-up serves nobody
  and gives the slot up; the waiter then blocks in the queue of a slot that no longer has its
  address, where no later wake-up of that word finds it.
\<close>

theorem futex_wake_in_gap_is_lost:
  assumes "futex_ok s W" and "sched_ok s" and "c < MAX_CPUS" and "cur_of s c = int T" and "status s T \<noteq> TASK_DEAD"
    and "slot_of (ftable s) addr = None" and "free_slot_of (ftable s) = Some i" and "card (wq_used s) < WQ_POOL_SIZE"
  shows "\<exists>s1 s2 s3. futex_prepare addr v v v s = (int i, s1) \<and> futex_wake addr n s1 = (0, s2) \<and>
     wq_wait c (Futex_wq i) s2 = Some (Gave_up (int T) s3) \<and> status s3 T = TASK_BLOCKED \<and>
     (\<forall>m. futex_wake addr m s3 = (0, s3))"
proof -
  obtain i' s1 where f: "find_slot addr True s = (int i', s1)" "i' < FUTEX_MAX" "slot_ready addr i' W s s1"
    using find_slot_ready [OF assms(1)] assms(7) by (metis option.distinct(1))
  have i: "i' = i" using f(1) assms(6,7) by (simp add: find_slot_eq)
  note R = f(3) [unfolded slot_ready_def i]
  have p: "futex_prepare addr v v v s = (int i, s1)" using f(1) i by (simp add: futex_prepare_def)
  have ok: "futex_ok s1 W" and l: "table_ok (ftable s1)" "lines_of s1 W" using R by (simp_all add: futex_ok_def)
  have "fline s W addr = []" using assms(6) by (simp add: fline_def)
  then have "W (Futex_wq i) = []" using R by (metis fline_def option.simps(5))
  then have h: "whead s1 (Futex_wq i) < 0" using wq_lines.nonempty_iff [OF l(2), of "Futex_wq i"] by simp
  let ?s2 = "maybe_free_slot i s1"
  have "wake_loop 0 n i s1 = (0, s1)" using h by (subst wake_loop.simps) simp
  then have w: "futex_wake addr n s1 = (0, ?s2)" using R by (simp add: futex_wake_def find_slot_eq)
  have s2: "?s2 = upd_slot i (\<lambda>f. f\<lparr>factive := False\<rparr>) s1" using h by (simp add: maybe_free_slot_def)
  have iF: "i < FUTEX_MAX" using f(2) i by simp
  have gone: "slot_of (ftable ?s2) addr = None" using table_give_up(2) [OF l(1) iF, of addr] R s2 by simp
  obtain Q where Q: "wq_inv Q ?s2" using l(2) s2 by (auto simp: lines_of_def)
  have t: "sched_ok ?s2" "cur_of ?s2 c = int T" "status ?s2 T \<noteq> TASK_DEAD" "card (wq_used ?s2) < WQ_POOL_SIZE"
    using R assms(2,4,5,8) sched_ok_cong [of ?s2 s] s2 by (simp_all add: same_cpus_def wq_used_def)
  obtain Q' s3 where s3: "joined c T (Futex_wq i) 0 Q ?s2 Q' s3" "wq_wait c (Futex_wq i) ?s2 = Some (Gave_up (int T) s3)"
    using wait_spec [OF Q t(1) assms(3) t(2-4), of "Futex_wq i" 0] by metis
  have "ftable s3 = ftable ?s2" by (rule wq_more_ftable [OF wait_more(1) [OF s3(2)]])
  then have "futex_wake addr m s3 = (0, s3)" for m
    using gone by (simp add: futex_wake_def find_slot_eq split: option.split)
  moreover have "status s3 T = TASK_BLOCKED" using s3(1) by (simp add: joined_def gave_up_def)
  ultimately show ?thesis using p w s3(2) by blast
qed

section \<open>A machine with futexes\<close>

definition futex_machine :: "int list \<Rightarrow> (nat \<Rightarrow> task_status) \<Rightarrow> u64 \<Rightarrow> futex_state" where
  "futex_machine curs st now = futex_init (irq_state.extend (irq_machine curs st now)
     \<lparr>ftable = replicate 16 \<lparr>faddr = 0, factive = False\<rparr>\<rparr>)"

lemma futex_init_ok:
  assumes "lines_of s (\<lambda>_. [])" and "length (ftable s) = FUTEX_MAX"
  shows "futex_ok (futex_init s) (\<lambda>_. [])" and "tasks (futex_init s) = tasks s" and "same_cpus s (futex_init s)"
    and "wq_used (futex_init s) = wq_used s" and "\<forall>i<FUTEX_MAX. \<not> factive (ftable (futex_init s) ! i)"
proof -
  let ?f = "\<lambda>i s. wq_init (Futex_wq i) (upd_slot i (\<lambda>f. f\<lparr>faddr := 0, factive := False\<rparr>) s)"
  let ?P = "\<lambda>k t. lines_of t (\<lambda>_. []) \<and> length (ftable t) = FUTEX_MAX \<and> (\<forall>i<k. \<not> factive (ftable t ! i)) \<and>
     tasks t = tasks s \<and> same_cpus s t \<and> wq_used t = wq_used s"
  have "?P FUTEX_MAX (for_loop 0 FUTEX_MAX ?f s)"
  proof (rule for_loop_inv [where P = ?P])
    show "?P 0 s" using assms by (simp add: same_cpus_def)
    fix j and t :: "'a futex_state_scheme"
    assume j: "j < FUTEX_MAX" and t: "?P j t"
    obtain Q where Q: "wq_inv Q t" "waiting Q t = (\<lambda>_. [])" using t by (auto simp: lines_of_def)
    have "Q r = []" for r using Q(2) by (simp add: waiting_def fun_eq_iff)
    then have "lines_of (?f j t) (\<lambda>_. [])"
      using wq_inv_init [of Q "upd_slot j (\<lambda>f. f\<lparr>faddr := 0, factive := False\<rparr>) t"] Q t unfolding lines_of_def by auto
    then show "?P (Suc j) (?f j t)" using t j by (auto simp: less_Suc_eq same_cpus_def wq_used_def nth_list_update)
  qed simp
  then have P: "?P FUTEX_MAX (futex_init s)" by (simp add: futex_init_def)
  then show "tasks (futex_init s) = tasks s" "same_cpus s (futex_init s)" "wq_used (futex_init s) = wq_used s"
    "\<forall>i<FUTEX_MAX. \<not> factive (ftable (futex_init s) ! i)" by blast+
  show "futex_ok (futex_init s) (\<lambda>_. [])" using P unfolding futex_ok_def table_ok_def by blast
qed

lemma futex_machine_ok:
  fixes st :: "nat \<Rightarrow> task_status" and now :: u64
  assumes "list_all (\<lambda>i. - 1 \<le> i \<and> i < 32) curs" and "length curs = 4"
  defines "m \<equiv> futex_machine curs st now"
  shows "futex_ok m (\<lambda>_. [])" "sched_ok m" "wq_used m = {}" "tasks m = tasks (machine_with curs st)"
    "percpu m = percpu (machine_with curs st)" "slot_of (ftable m) a = None" "free_slot_of (ftable m) = Some 0"
    "fline m (\<lambda>_. []) = (\<lambda>_. [])"
proof -
  let ?b = "irq_state.extend (irq_machine curs st now) \<lparr>ftable = replicate 16 \<lparr>faddr = 0, factive = False\<rparr>\<rparr>"
  have b: "tasks ?b = tasks (machine_with curs st)" "percpu ?b = percpu (machine_with curs st)"
    "regs ?b = regs (machine_with curs st)" "ttbr0 ?b = ttbr0 (machine_with curs st)" "wq_used ?b = {}"
    using irq_machine_queues(2) [of curs st now] by (simp_all add: irq_state.defs wq_used_def)
  have inv: "wq_inv (\<lambda>_. []) ?b" "waiting (\<lambda>_. []) ?b = (\<lambda>_. [])"
    using irq_machine_queues(1) [of curs st now] by (simp_all add: irq_state.defs wq_inv_def waiting_def [abs_def])
  have mw: "sched_ok (machine_with curs st)" by (rule machine_with_ok [OF assms(1,2)])
  then have ok: "sched_ok ?b" using b by (simp add: sched_ok_def)
  then have "lines_of ?b (\<lambda>_. [])" using inv unfolding lines_of_def sched_ok_def by blast
  moreover have "length (ftable ?b) = FUTEX_MAX" by (simp add: irq_state.defs FUTEX_MAX_def)
  ultimately have I: "futex_ok (futex_init ?b) (\<lambda>_. [])" "tasks (futex_init ?b) = tasks ?b" "same_cpus ?b (futex_init ?b)"
    "wq_used (futex_init ?b) = wq_used ?b" "\<forall>i<FUTEX_MAX. \<not> factive (ftable (futex_init ?b) ! i)"
    by (rule futex_init_ok)+
  have m: "m = futex_init ?b" by (simp add: m_def futex_machine_def)
  show "futex_ok m (\<lambda>_. [])" "wq_used m = {}" "tasks m = tasks (machine_with curs st)" "percpu m = percpu (machine_with curs st)"
    using I b unfolding m same_cpus_def by simp_all
  show "sched_ok m" using ok sched_ok_cong [of m ?b] I(2,3) unfolding m same_cpus_def by simp
  show none: "slot_of (ftable m) a = None" for a using I(5) by (simp add: m slot_of_None)
  show "free_slot_of (ftable m) = Some 0" using I(5) by (simp add: m free_slot_of_def first_idx_Some FUTEX_MAX_def)
  show "fline m (\<lambda>_. []) = (\<lambda>_. [])" by (simp add: fline_def none fun_eq_iff)
qed

text \<open>The machine of the examples: task 5 runs on CPU 2.\<close>

abbreviation futex_example :: futex_state where
  "futex_example \<equiv> futex_machine [- 1, - 1, 5, - 1] ((\<lambda>_. TASK_READY)(5 := TASK_RUNNING)) 0"

lemma futex_example_ok:
  "futex_ok futex_example (\<lambda>_. [])" "sched_ok futex_example" "2 < MAX_CPUS" "cur_of futex_example 2 = int 5"
  "status futex_example 5 \<noteq> TASK_DEAD" "card (wq_used futex_example) < WQ_POOL_SIZE"
  "slot_of (ftable futex_example) a = None" "free_slot_of (ftable futex_example) = Some 0"
  "fline futex_example (\<lambda>_. []) = (\<lambda>_. [])"
  using futex_machine_ok [of "[- 1, - 1, 5, - 1]" "(\<lambda>_. TASK_READY)(5 := TASK_RUNNING)" 0]
  by (simp_all add: MAX_CPUS_def MAX_TASKS_def WQ_POOL_SIZE_def)

theorem futex_wait_refines_witness:
  "\<exists>slot W s. futex_wait 2 0x50000000 9 9 9 futex_example = Some (Futex_blocked 5 slot s) \<and>
     fline s W 0x50000000 = [(5, 0)] \<and> status s 5 = TASK_BLOCKED"
proof -
  note E = futex_example_ok
  obtain slot W s where "futex_wait 2 0x50000000 9 9 9 futex_example = Some (Futex_blocked (int 5) slot s)"
    "fline s W = (fline futex_example (\<lambda>_. []))(0x50000000 := fline futex_example (\<lambda>_. []) 0x50000000 @ [(int 5, 0)])"
    "status s 5 = TASK_BLOCKED"
    using futex_wait_refines [OF E(1-5), of "0x50000000" 9 9 9] E(6,8) by (auto simp: Let_def)
  then show ?thesis unfolding E(9) by (intro exI [of _ slot] exI [of _ W] exI [of _ s]) simp
qed


theorem futex_wake_in_gap_is_lost_witness:
  "\<exists>s1 s2 s3. futex_prepare 0x50000000 9 9 9 futex_example = (0, s1) \<and> futex_wake 0x50000000 1 s1 = (0, s2) \<and>
     wq_wait 2 (Futex_wq 0) s2 = Some (Gave_up 5 s3) \<and> status s3 5 = TASK_BLOCKED \<and> futex_wake 0x50000000 1 s3 = (0, s3)"
  using futex_wake_in_gap_is_lost [OF futex_example_ok(1-5,7,8,6), of "0x50000000" 9 1] by fastforce

end
