(* ===== verification/Ipc.thy ===== *)
theory Ipc
  imports Futex
begin

text \<open>
  Synchronous messages (\<^verbatim>\<open>kernel/ipc.c\<close>) between tasks over a table of 32 endpoints. A call that
  blocks is split at its call of \<^verbatim>\<open>schedule\<close>; a pointer to a message that a call may fill in is an
  optional result.
\<close>

section \<open>State\<close>

definition MAX_ENDPOINTS :: nat where "MAX_ENDPOINTS = 32"

record ipc_message =
  mdata :: "u64 \<times> u64 \<times> u64 \<times> u64"
  cap_transfer :: int

record ipc_endpoint =
  eactive :: bool
  sender_task :: int
  receiver_task :: int
  pending_msg :: ipc_message
  has_pending :: bool

record ipc_state = futex_state +
  endpoints :: "ipc_endpoint list"

section \<open>Operations\<close>

definition upd_ep :: "nat \<Rightarrow> (ipc_endpoint \<Rightarrow> ipc_endpoint) \<Rightarrow> 'a ipc_state_scheme \<Rightarrow> 'a ipc_state_scheme" where
  "upd_ep i f s = s\<lparr>endpoints := (endpoints s)[i := f (endpoints s ! i)]\<rparr>"

definition ipc_init :: "'a ipc_state_scheme \<Rightarrow> 'a ipc_state_scheme" where
  "ipc_init s = for_loop 0 MAX_ENDPOINTS (\<lambda>i.
     upd_ep i (\<lambda>e. e\<lparr>eactive := False, sender_task := - 1, receiver_task := - 1, has_pending := False\<rparr>)) s"

definition ipc_endpoint_create :: "'a ipc_state_scheme \<Rightarrow> int \<times> 'a ipc_state_scheme" where
  "ipc_endpoint_create s =
     (case first_idx (\<lambda>i. \<not> eactive (endpoints s ! i)) 0 MAX_ENDPOINTS of
        Some i \<Rightarrow> (int i, upd_ep i (\<lambda>e. e\<lparr>eactive := True, sender_task := - 1, receiver_task := - 1, has_pending := False\<rparr>) s)
      | None \<Rightarrow> (- 1, s))"

definition ipc_endpoint_destroy :: "int \<Rightarrow> 'a ipc_state_scheme \<Rightarrow> 'a ipc_state_scheme" where
  "ipc_endpoint_destroy ep_id s =
     (if ep_id < 0 \<or> ep_id \<ge> int MAX_ENDPOINTS then s else upd_ep (nat ep_id) (\<lambda>e. e\<lparr>eactive := False\<rparr>) s)"

text \<open>The check both calls make first.\<close>

definition bad_ep :: "int \<Rightarrow> 'a ipc_state_scheme \<Rightarrow> bool" where
  "bad_ep ep_id s \<longleftrightarrow> ep_id < 0 \<or> ep_id \<ge> int MAX_ENDPOINTS \<or> \<not> eactive (endpoints s ! nat ep_id)"

definition set_status :: "int \<Rightarrow> task_status \<Rightarrow> 'a task_state_scheme \<Rightarrow> 'a task_state_scheme" where
  "set_status t st s = (case task_get t s of None \<Rightarrow> s | Some _ \<Rightarrow> upd_task (nat t) (\<lambda>t. t\<lparr>tstate := st\<rparr>) s)"

definition ipc_send :: "nat \<Rightarrow> int \<Rightarrow> ipc_message \<Rightarrow> 'a ipc_state_scheme \<Rightarrow> 'a ipc_state_scheme waited" where
  "ipc_send c ep_id msg s =
     (if bad_ep ep_id s then Returned (- 1) s
      else let i = nat ep_id; r = receiver_task (endpoints s ! i) in
        if r \<ge> 0 \<and> task_get r s \<noteq> None
        then (let s1 = upd_ep i (\<lambda>e. e\<lparr>pending_msg := msg, has_pending := True\<rparr>) s;
                  s2 = set_status r TASK_READY s1
              in Returned 0 (upd_ep i (\<lambda>e. e\<lparr>receiver_task := - 1\<rparr>) s2))
        else (let cur = task_current_id c s;
                  s1 = upd_ep i (\<lambda>e. e\<lparr>pending_msg := msg, has_pending := True, sender_task := cur\<rparr>) s
              in Gave_up cur (schedule c (set_status cur TASK_BLOCKED s1))))"

text \<open>\<^verbatim>\<open>ipc_send\<close> returns 0 when the sender runs again.\<close>

datatype 's received = Recv_done int "ipc_message option" 's | Recv_blocked int nat 's

definition ipc_recv :: "nat \<Rightarrow> int \<Rightarrow> 'a ipc_state_scheme \<Rightarrow> 'a ipc_state_scheme received" where
  "ipc_recv c ep_id s =
     (if bad_ep ep_id s then Recv_done (- 1) None s
      else let i = nat ep_id; e = endpoints s ! i in
        if has_pending e
        then (let s1 = upd_ep i (\<lambda>e. e\<lparr>has_pending := False\<rparr>) s
              in Recv_done 0 (Some (pending_msg e))
                   (if sender_task e \<ge> 0
                    then upd_ep i (\<lambda>e. e\<lparr>sender_task := - 1\<rparr>) (set_status (sender_task e) TASK_READY s1)
                    else s1))
        else (let cur = task_current_id c s; s1 = upd_ep i (\<lambda>e. e\<lparr>receiver_task := cur\<rparr>) s
              in Recv_blocked cur i (schedule c (set_status cur TASK_BLOCKED s1))))"

definition ipc_recv_resume :: "nat \<Rightarrow> 'a ipc_state_scheme \<Rightarrow> int \<times> ipc_message option \<times> 'a ipc_state_scheme" where
  "ipc_recv_resume i s =
     (let e = endpoints s ! i
      in if has_pending e then (0, Some (pending_msg e), upd_ep i (\<lambda>e. e\<lparr>has_pending := False\<rparr>) s) else (- 1, None, s))"

section \<open>Frames\<close>

lemma upd_ep_fields [simp]:
  "endpoints (upd_ep i f s) = (endpoints s)[i := f (endpoints s ! i)]" "tasks (upd_ep i f s) = tasks s"
  "percpu (upd_ep i f s) = percpu s" "regs (upd_ep i f s) = regs s" "ttbr0 (upd_ep i f s) = ttbr0 s"
  "endpoints (upd_task j g s) = endpoints s" "task_get t (upd_ep i f s) = task_get t s"
  by (simp_all add: upd_ep_def upd_task_def task_get_def)

lemma endpoints_sched: "sched_state.more t = sched_state.more s \<Longrightarrow> endpoints t = endpoints s"
  by (cases s, cases t) simp

lemma endpoints_schedule [simp]: "endpoints (schedule c s) = endpoints s"
  by (rule endpoints_sched [OF schedule_more])

lemma set_status_endpoints [simp]: "endpoints (set_status t st s) = endpoints s"
  by (simp add: set_status_def split: option.split)

lemma set_status_frame [simp]:
  "percpu (set_status t st s) = percpu s" "length (tasks (set_status t st s)) = length (tasks s)"
  by (simp_all add: set_status_def split: option.split)

lemma set_status_regs [simp]: "regs (set_status t st s) = regs s" "ttbr0 (set_status t st s) = ttbr0 s"
  by (simp_all add: set_status_def split: option.split)

lemma set_status_nth:
  assumes "length (tasks s) = MAX_TASKS" and "j < MAX_TASKS"
  shows "tasks (set_status t st s) ! j =
    (if t = int j \<and> status s j \<noteq> TASK_DEAD then (tasks s ! j)\<lparr>tstate := st\<rparr> else tasks s ! j)"
  using assms by (auto simp: set_status_def task_get_def nth_list_update split: if_splits)

lemma sched_ok_ipc [simp]:
  "sched_ok (upd_ep i f s) = sched_ok s" by (rule sched_ok_cong) simp_all

lemma sched_ok_set_status [simp]: "sched_ok (set_status t st s) = sched_ok s"
  by (rule sched_ok_cong) simp_all

text \<open>A task that blocks in a call gives up its CPU.\<close>

lemma blocked_leaves:
  assumes "sched_ok s" and "c < MAX_CPUS" and "cur_of s c = int T" and "status s T \<noteq> TASK_DEAD"
  shows "sched_ok (schedule c (set_status (int T) TASK_BLOCKED s)) \<and>
     status (schedule c (set_status (int T) TASK_BLOCKED s)) T = TASK_BLOCKED \<and>
     cur_of (schedule c (set_status (int T) TASK_BLOCKED s)) c \<noteq> int T"
proof -
  let ?b = "set_status (int T) TASK_BLOCKED s"
  have ok: "sched_ok ?b" and len: "length (tasks s) = MAX_TASKS" using assms(1) by (simp_all add: sched_ok_def)
  have T: "T < MAX_TASKS" using assms(1-3) by (auto simp: sched_ok_def)
  have b: "status ?b T = TASK_BLOCKED" using assms(4) set_status_nth [OF len T, of "int T" TASK_BLOCKED] by simp
  then have n: "chosen c ?b \<noteq> Some T" using chosen_ready(2) [of c ?b T] by auto
  have "status (schedule c ?b) T = TASK_BLOCKED"
    unfolding scheduledD(1) [OF ok assms(2) T] b after_put_back_def using n by simp
  moreover have "cur_of (schedule c ?b) c \<noteq> int T"
    using scheduledD(2) [OF ok assms(2,2)] n by (auto split: option.splits)
  ultimately show ?thesis using sched_ok_schedule [OF ok assms(2)] by blast
qed

section \<open>The endpoint table is a slot pool\<close>

definition ep_used :: "'a ipc_state_scheme \<Rightarrow> nat set" where
  "ep_used s = {i. i < MAX_ENDPOINTS \<and> eactive (endpoints s ! i)}"

definition ep_slot :: "'a ipc_state_scheme \<Rightarrow> nat option \<times> 'a ipc_state_scheme" where
  "ep_slot s = (case ipc_endpoint_create s of (i, s') \<Rightarrow> (if i < 0 then None else Some (nat i), s'))"

interpretation eps: slot_pool ep_slot "\<lambda>i. ipc_endpoint_destroy (int i)" ep_used "{..<MAX_ENDPOINTS}"
  "\<lambda>s. length (endpoints s) = MAX_ENDPOINTS"
proof
  show "ep_used s \<subseteq> {..<MAX_ENDPOINTS}" for s :: "'a ipc_state_scheme" by (auto simp: ep_used_def)
next
  fix s s' :: "'a ipc_state_scheme" and i
  assume "length (endpoints s) = MAX_ENDPOINTS" "ep_slot s = (Some i, s')"
  then show "i \<in> {..<MAX_ENDPOINTS} \<and> i \<notin> ep_used s \<and> ep_used s' = insert i (ep_used s) \<and> length (endpoints s') = MAX_ENDPOINTS"
    by (auto simp: ep_slot_def ipc_endpoint_create_def ep_used_def first_idx_Some nth_list_update split: option.splits if_splits)
next
  fix s s' :: "'a ipc_state_scheme"
  assume "ep_slot s = (None, s')"
  then show "s' = s \<and> ep_used s = {..<MAX_ENDPOINTS}"
    by (auto simp: ep_slot_def ipc_endpoint_create_def ep_used_def first_idx_None split: option.splits)
next
  fix s :: "'a ipc_state_scheme" and i
  assume "length (endpoints s) = MAX_ENDPOINTS" "i \<in> ep_used s"
  then show "ep_used (ipc_endpoint_destroy (int i) s) = ep_used s - {i} \<and>
      length (endpoints (ipc_endpoint_destroy (int i) s)) = MAX_ENDPOINTS"
    by (auto simp: ep_used_def ipc_endpoint_destroy_def nth_list_update split: if_splits)
qed simp

section \<open>Rendezvous\<close>

definition idle_ep :: "ipc_endpoint \<Rightarrow> bool" where
  "idle_ep e \<longleftrightarrow> eactive e \<and> sender_task e = - 1 \<and> receiver_task e = - 1 \<and> \<not> has_pending e"

text \<open>A later state in which nobody has touched the endpoint and the task still waits.\<close>

definition still_waiting :: "nat \<Rightarrow> nat \<Rightarrow> 'a ipc_state_scheme \<Rightarrow> 'a ipc_state_scheme \<Rightarrow> bool" where
  "still_waiting ep T s t \<longleftrightarrow> endpoints t ! ep = endpoints s ! ep \<and> length (endpoints t) = MAX_ENDPOINTS \<and>
     length (tasks t) = MAX_TASKS \<and> T < MAX_TASKS \<and> status t T = TASK_BLOCKED"


text \<open>
  Rendezvous, receiver first: a receive from an idle endpoint blocks the receiver; whenever
  a task then sends to it, the send returns 0 at once and the receiver is ready; and when the
  receiver runs again, with the endpoint untouched, it gets exactly that message and the
  endpoint is idle again.
\<close>

theorem ipc_recv_then_send:
  fixes s :: "'a ipc_state_scheme"
  assumes "sched_ok s" and "c < MAX_CPUS" and "cur_of s c = int S" and "status s S \<noteq> TASK_DEAD"
    and "length (endpoints s) = MAX_ENDPOINTS" and "ep < MAX_ENDPOINTS" and "idle_ep (endpoints s ! ep)"
  shows "\<exists>s1. ipc_recv c (int ep) s = Recv_blocked (int S) ep s1 \<and> still_waiting ep S s1 s1 \<and> cur_of s1 c \<noteq> int S \<and>
     (\<forall>t d msg. still_waiting ep S s1 t \<longrightarrow> (\<exists>t'. ipc_send d (int ep) msg t = Returned 0 t' \<and> status t' S = TASK_READY \<and>
        (\<forall>u :: 'a ipc_state_scheme. endpoints u ! ep = endpoints t' ! ep \<and> length (endpoints u) = MAX_ENDPOINTS \<longrightarrow>
           (\<exists>u'. ipc_recv_resume ep u = (0, Some msg, u') \<and> idle_ep (endpoints u' ! ep)))))"
proof -
  let ?s0 = "upd_ep ep (\<lambda>e. e\<lparr>receiver_task := int S\<rparr>) s"
  let ?s1 = "schedule c (set_status (int S) TASK_BLOCKED ?s0)"
  have S: "S < MAX_TASKS" using assms(1-3) by (auto simp: sched_ok_def)
  have e1: "endpoints ?s1 ! ep = (endpoints s ! ep)\<lparr>receiver_task := int S\<rparr>" using assms(5,6) by simp
  have "ipc_recv c (int ep) s = Recv_blocked (int S) ep ?s1"
    using assms(3,6,7) by (simp add: ipc_recv_def bad_ep_def idle_ep_def task_current_id_def Let_def)
  moreover have "still_waiting ep S ?s1 ?s1" "cur_of ?s1 c \<noteq> int S"
    using blocked_leaves [of ?s0 c S] assms(1-5) S by (simp_all add: still_waiting_def sched_ok_def)
  moreover have "\<exists>t'. ipc_send d (int ep) msg t = Returned 0 t' \<and> status t' S = TASK_READY \<and>
       (\<forall>u :: 'a ipc_state_scheme. endpoints u ! ep = endpoints t' ! ep \<and> length (endpoints u) = MAX_ENDPOINTS \<longrightarrow>
           (\<exists>u'. ipc_recv_resume ep u = (0, Some msg, u') \<and> idle_ep (endpoints u' ! ep)))"
    if w: "still_waiting ep S ?s1 t" for t d msg
  proof -
    note W = w [unfolded still_waiting_def e1]
    let ?u = "upd_ep ep (\<lambda>e. e\<lparr>pending_msg := msg, has_pending := True\<rparr>) t"
    let ?t = "upd_ep ep (\<lambda>e. e\<lparr>receiver_task := - 1\<rparr>) (set_status (int S) TASK_READY ?u)"
    have "task_get (int S) t \<noteq> None" using W by (simp add: task_get_def)
    then have "ipc_send d (int ep) msg t = Returned 0 ?t"
      using W assms(6,7) by (simp add: ipc_send_def bad_ep_def idle_ep_def Let_def)
    moreover have "status ?t S = TASK_READY" using W set_status_nth [of ?u S "int S" TASK_READY] by simp
    moreover have "endpoints ?t ! ep = (endpoints s ! ep)\<lparr>pending_msg := msg, has_pending := True, receiver_task := - 1\<rparr>"
      using W assms(6) by simp
    then have "\<exists>u'. ipc_recv_resume ep u = (0, Some msg, u') \<and> idle_ep (endpoints u' ! ep)"
      if "endpoints u ! ep = endpoints ?t ! ep \<and> length (endpoints u) = MAX_ENDPOINTS" for u
      using that assms(6,7) by (simp add: ipc_recv_resume_def Let_def idle_ep_def)
    ultimately show ?thesis by blast
  qed
  ultimately show ?thesis by blast
qed

section \<open>Calls on other endpoints, and two senders\<close>

datatype ipc_call = Call_send nat int ipc_message | Call_recv nat int | Call_resume nat | Call_create | Call_destroy int

fun run_call :: "ipc_call \<Rightarrow> 'a ipc_state_scheme \<Rightarrow> 'a ipc_state_scheme" where
  "run_call (Call_send c ep msg) s = (case ipc_send c ep msg s of Returned _ s' \<Rightarrow> s' | Gave_up _ s' \<Rightarrow> s')"
| "run_call (Call_recv c ep) s = (case ipc_recv c ep s of Recv_done _ _ s' \<Rightarrow> s' | Recv_blocked _ _ s' \<Rightarrow> s')"
| "run_call (Call_resume i) s = snd (snd (ipc_recv_resume i s))"
| "run_call Call_create s = snd (ipc_endpoint_create s)"
| "run_call (Call_destroy ep) s = ipc_endpoint_destroy ep s"

fun call_target :: "ipc_call \<Rightarrow> int" where
  "call_target (Call_send c ep msg) = ep"
| "call_target (Call_recv c ep) = ep"
| "call_target (Call_resume i) = int i"
| "call_target Call_create = - 1"
| "call_target (Call_destroy ep) = ep"

lemma run_call_other:
  assumes "eactive (endpoints s ! ep)" and "ep < MAX_ENDPOINTS" and "call_target x \<noteq> int ep"
  shows "endpoints (run_call x s) ! ep = endpoints s ! ep"
proof (cases x)
  case (Call_send c e msg)
  then have "\<not> bad_ep e s \<Longrightarrow> nat e \<noteq> ep" using assms(3) by (auto simp: bad_ep_def)
  then show ?thesis using Call_send by (cases "bad_ep e s") (simp_all add: ipc_send_def Let_def)
next
  case (Call_recv c e)
  then have "\<not> bad_ep e s \<Longrightarrow> nat e \<noteq> ep" using assms(3) by (auto simp: bad_ep_def)
  then show ?thesis using Call_recv by (cases "bad_ep e s") (simp_all add: ipc_recv_def Let_def)
next
  case (Call_resume i)
  then show ?thesis using assms(3) by (simp add: ipc_recv_resume_def Let_def)
next
  case Call_create
  have "i \<noteq> ep" if "first_idx (\<lambda>i. \<not> eactive (endpoints s ! i)) 0 MAX_ENDPOINTS = Some i" for i
    using assms(1) that by (auto simp: first_idx_Some)
  then show ?thesis using Call_create by (simp add: ipc_endpoint_create_def split: option.split)
next
  case (Call_destroy e)
  then show ?thesis using assms(3) by (auto simp: ipc_endpoint_destroy_def)
qed

text \<open>
  Endpoints are independent: whatever calls are made on other endpoints, on any CPU and in
  any order, creation and destruction included, an active endpoint keeps its state: its
  pending message and the tasks that wait there.
\<close>

theorem ipc_endpoints_independent:
  assumes "eactive (endpoints s ! ep)" and "ep < MAX_ENDPOINTS" and "\<forall>x\<in>set xs. call_target x \<noteq> int ep"
  shows "endpoints (fold run_call xs s) ! ep = endpoints s ! ep"
  using assms(1,3)
proof (induction xs arbitrary: s)
  case (Cons x xs)
  have e: "endpoints (run_call x s) ! ep = endpoints s ! ep" using Cons.prems by (intro run_call_other assms(2)) auto
  then show ?case using Cons.IH [of "run_call x s"] Cons.prems by simp
qed simp

text \<open>
  C38. One pending message per endpoint: a second send before the message was received does not
  queue behind the first. It overwrites the message and the record of who waits, so the
  receiver gets the second message, the second sender is woken, and the first sender stays
  blocked with nothing left in the endpoint that names it.
\<close>

theorem ipc_second_sender_strands_first:
  assumes "sched_ok t" and "d < MAX_CPUS" and "cur_of t d = int U" and "status t U \<noteq> TASK_DEAD" and "U \<noteq> S"
    and "S < MAX_TASKS" and "status t S = TASK_BLOCKED" and "length (endpoints t) = MAX_ENDPOINTS" and "ep < MAX_ENDPOINTS"
    and "endpoints t ! ep = \<lparr>eactive = True, sender_task = int S, receiver_task = - 1, pending_msg = m1, has_pending = True\<rparr>"
  shows "\<exists>t1 t2. ipc_send d (int ep) m2 t = Gave_up (int U) t1 \<and> ipc_recv e (int ep) t1 = Recv_done 0 (Some m2) t2 \<and>
     status t2 U = TASK_READY \<and> status t2 S = TASK_BLOCKED \<and> idle_ep (endpoints t2 ! ep)"
proof -
  let ?a = "upd_ep ep (\<lambda>e. e\<lparr>pending_msg := m2, has_pending := True, sender_task := int U\<rparr>) t"
  let ?b = "set_status (int U) TASK_BLOCKED ?a"
  let ?t1 = "schedule d ?b"
  have len: "length (tasks t) = MAX_TASKS" using assms(1) by (simp add: sched_ok_def)
  have U: "U < MAX_TASKS" using assms(1-3) by (auto simp: sched_ok_def)
  have s1: "ipc_send d (int ep) m2 t = Gave_up (int U) ?t1"
    using assms(3,9,10) by (simp add: ipc_send_def bad_ep_def task_current_id_def Let_def)
  have ok: "sched_ok ?b" using assms(1) by simp
  have st: "status ?b U = TASK_BLOCKED" "status ?b S = TASK_BLOCKED"
    using set_status_nth [of ?a U "int U" TASK_BLOCKED] set_status_nth [of ?a S "int U" TASK_BLOCKED] len U assms(4-7) by simp_all
  have "status ?t1 i = TASK_BLOCKED" if "i < MAX_TASKS" "status ?b i = TASK_BLOCKED" for i
    unfolding scheduledD(1) [OF ok assms(2) that(1)] that(2) after_put_back_def
    using chosen_ready(2) [of d ?b i] that(2) by auto
  then have t1: "status ?t1 U = TASK_BLOCKED" "status ?t1 S = TASK_BLOCKED" using st U assms(6) by blast+
  have e1: "endpoints ?t1 ! ep = \<lparr>eactive = True, sender_task = int U, receiver_task = - 1, pending_msg = m2, has_pending = True\<rparr>"
    using assms(8-10) by simp
  have len1: "length (tasks ?t1) = MAX_TASKS" "length (endpoints ?t1) = MAX_ENDPOINTS"
    using schedule_frame(7) [OF ok assms(2)] len assms(8) by simp_all
  let ?c = "upd_ep ep (\<lambda>e. e\<lparr>has_pending := False\<rparr>) ?t1"
  let ?d = "upd_ep ep (\<lambda>e. e\<lparr>sender_task := - 1\<rparr>) (set_status (int U) TASK_READY ?c)"
  have "ipc_recv e (int ep) ?t1 = Recv_done 0 (Some m2) ?d"
    unfolding ipc_recv_def bad_ep_def nat_int Let_def e1 using assms(9) by simp
  moreover have "status ?d U = TASK_READY" "status ?d S = TASK_BLOCKED"
    using set_status_nth [of ?c U "int U" TASK_READY] set_status_nth [of ?c S "int U" TASK_READY] len1 U t1 assms(5,6) by simp_all
  moreover have "idle_ep (endpoints ?d ! ep)"
    using e1 len1(2) assms(9) by (simp add: idle_ep_def)
  ultimately show ?thesis using s1 by blast
qed

section \<open>A machine with endpoints\<close>

definition ipc_machine :: "int list \<Rightarrow> (nat \<Rightarrow> task_status) \<Rightarrow> ipc_endpoint \<Rightarrow> ipc_state" where
  "ipc_machine curs st e = futex_state.extend (futex_machine curs st 0) \<lparr>endpoints = replicate 32 e\<rparr>"

lemma ipc_machine_simps:
  assumes "list_all (\<lambda>i. - 1 \<le> i \<and> i < 32) curs" and "length curs = 4"
  shows "sched_ok (ipc_machine curs st e)" "tasks (ipc_machine curs st e) = tasks (machine_with curs st)"
    "percpu (ipc_machine curs st e) = percpu (machine_with curs st)" "length (endpoints (ipc_machine curs st e)) = MAX_ENDPOINTS"
    "ep < MAX_ENDPOINTS \<Longrightarrow> endpoints (ipc_machine curs st e) ! ep = e"
  using futex_machine_ok [OF assms, of st 0]
  by (simp_all add: ipc_machine_def futex_state.defs sched_ok_def MAX_ENDPOINTS_def)

definition sample_msg :: "u64 \<Rightarrow> ipc_message" where
  "sample_msg x = \<lparr>mdata = (x, 2, 3, 0), cap_transfer = - 1\<rparr>"

abbreviation free_ep :: ipc_endpoint where
  "free_ep \<equiv> \<lparr>eactive = True, sender_task = - 1, receiver_task = - 1, pending_msg = sample_msg 0, has_pending = False\<rparr>"

abbreviation ipc_example :: ipc_state where
  "ipc_example \<equiv> ipc_machine [5, 6, - 1, - 1] ((\<lambda>_. TASK_BLOCKED)(5 := TASK_RUNNING, 6 := TASK_RUNNING)) free_ep"

lemma ipc_example_ok:
  "sched_ok ipc_example" "0 < MAX_CPUS" "cur_of ipc_example 0 = int 5" "status ipc_example 5 \<noteq> TASK_DEAD"
  "length (endpoints ipc_example) = MAX_ENDPOINTS" "7 < MAX_ENDPOINTS" "idle_ep (endpoints ipc_example ! 7)"
  using ipc_machine_simps [where curs = "[5, 6, - 1, - 1]" and st = "(\<lambda>_. TASK_BLOCKED)(5 := TASK_RUNNING, 6 := TASK_RUNNING)"
      and e = free_ep]
  by (simp_all add: MAX_CPUS_def MAX_TASKS_def MAX_ENDPOINTS_def idle_ep_def)


theorem ipc_recv_then_send_witness:
  "\<exists>s1 s2 s3. ipc_recv 0 7 ipc_example = Recv_blocked 5 7 s1 \<and> ipc_send 1 7 (sample_msg 1) s1 = Returned 0 s2 \<and>
     status s2 5 = TASK_READY \<and> ipc_recv_resume 7 s2 = (0, Some (sample_msg 1), s3)"
proof -
  obtain s1 where s1: "ipc_recv 0 (int 7) ipc_example = Recv_blocked (int 5) 7 s1" "still_waiting 7 5 s1 s1"
    "\<forall>t d msg. still_waiting 7 5 s1 t \<longrightarrow> (\<exists>t'. ipc_send d (int 7) msg t = Returned 0 t' \<and> status t' 5 = TASK_READY \<and>
        (\<forall>u :: ipc_state. endpoints u ! 7 = endpoints t' ! 7 \<and> length (endpoints u) = MAX_ENDPOINTS \<longrightarrow>
           (\<exists>u'. ipc_recv_resume 7 u = (0, Some msg, u') \<and> idle_ep (endpoints u' ! 7))))"
    using ipc_recv_then_send [OF ipc_example_ok] by metis
  then obtain s2 where s2: "ipc_send 1 (int 7) (sample_msg 1) s1 = Returned 0 s2" "status s2 5 = TASK_READY"
    "\<forall>u :: ipc_state. endpoints u ! 7 = endpoints s2 ! 7 \<and> length (endpoints u) = MAX_ENDPOINTS \<longrightarrow>
           (\<exists>u'. ipc_recv_resume 7 u = (0, Some (sample_msg 1), u') \<and> idle_ep (endpoints u' ! 7))"
    by blast
  have "length (endpoints s2) = length (endpoints s1)"
    using s2(1) by (auto simp: ipc_send_def Let_def split: if_splits)
  then have "length (endpoints s2) = MAX_ENDPOINTS" using s1(2) by (simp add: still_waiting_def)
  then obtain s3 where "ipc_recv_resume 7 s2 = (0, Some (sample_msg 1), s3)" using s2(3) by blast
  then show ?thesis using s1(1) s2 by (intro exI [of _ s1] exI [of _ s2] exI [of _ s3]) simp
qed

theorem ipc_endpoints_independent_witness:
  "endpoints (fold run_call [Call_send 0 3 (sample_msg 1), Call_recv 1 9, Call_create, Call_destroy 3] ipc_example) ! 7 =
     endpoints ipc_example ! 7"
proof -
  have "eactive (endpoints ipc_example ! 7)" using ipc_example_ok(7) by (simp add: idle_ep_def)
  then show ?thesis
    using ipc_endpoints_independent [OF _ ipc_example_ok(6),
        of ipc_example "[Call_send 0 3 (sample_msg 1), Call_recv 1 9, Call_create, Call_destroy 3]"] by simp
qed

theorem ipc_second_sender_strands_first_witness:
  "let e = \<lparr>eactive = True, sender_task = int 4, receiver_task = - 1, pending_msg = sample_msg 1, has_pending = True\<rparr>;
       t = ipc_machine [5, 6, - 1, - 1] ((\<lambda>_. TASK_BLOCKED)(5 := TASK_RUNNING, 6 := TASK_RUNNING)) e
   in \<exists>t1 t2. ipc_send 1 7 (sample_msg 2) t = Gave_up 6 t1 \<and> ipc_recv 0 7 t1 = Recv_done 0 (Some (sample_msg 2)) t2 \<and>
        status t2 6 = TASK_READY \<and> status t2 4 = TASK_BLOCKED"
proof -
  let ?e = "\<lparr>eactive = True, sender_task = int 4, receiver_task = - 1, pending_msg = sample_msg 1, has_pending = True\<rparr>"
  let ?t = "ipc_machine [5, 6, - 1, - 1] ((\<lambda>_. TASK_BLOCKED)(5 := TASK_RUNNING, 6 := TASK_RUNNING)) ?e"
  have n: "(1::nat) < MAX_CPUS" "7 < MAX_ENDPOINTS" "4 < MAX_TASKS" "6 < MAX_TASKS"
    by (simp_all add: MAX_CPUS_def MAX_ENDPOINTS_def MAX_TASKS_def)
  have t: "sched_ok ?t" "cur_of ?t 1 = int 6" "status ?t 6 \<noteq> TASK_DEAD" "status ?t 4 = TASK_BLOCKED"
    "length (endpoints ?t) = MAX_ENDPOINTS" "endpoints ?t ! 7 = ?e"
    using ipc_machine_simps [where curs = "[5, 6, - 1, - 1]" and st = "(\<lambda>_. TASK_BLOCKED)(5 := TASK_RUNNING, 6 := TASK_RUNNING)"
      and e = ?e] n by simp_all
  have "\<exists>t1 t2. ipc_send 1 (int 7) (sample_msg 2) ?t = Gave_up (int 6) t1 \<and> ipc_recv 0 (int 7) t1 = Recv_done 0 (Some (sample_msg 2)) t2 \<and>
     status t2 6 = TASK_READY \<and> status t2 4 = TASK_BLOCKED \<and> idle_ep (endpoints t2 ! 7)"
    by (rule ipc_second_sender_strands_first [OF t(1) n(1) t(2,3) _ n(3) t(4,5) n(2) t(6)]) simp
  then show ?thesis unfolding Let_def by fastforce
qed

end
