(* ===== verification/Syscall.thy ===== *)
theory Syscall
  imports Ipc
begin

text \<open>
  System calls (\<^verbatim>\<open>kernel/syscall.c\<close>): the dispatcher. A result of a call is the value left in
  register x0 and the new state, or that the caller blocked. Printing has no effect on the
  modelled state.
\<close>

section \<open>The dispatcher\<close>

abbreviation SYS_YIELD :: u64 where "SYS_YIELD \<equiv> 0"
abbreviation SYS_SEND :: u64 where "SYS_SEND \<equiv> 1"
abbreviation SYS_RECV :: u64 where "SYS_RECV \<equiv> 2"
abbreviation SYS_CAP_CREATE :: u64 where "SYS_CAP_CREATE \<equiv> 3"
abbreviation SYS_CAP_DESTROY :: u64 where "SYS_CAP_DESTROY \<equiv> 4"
abbreviation SYS_MAP_PAGE :: u64 where "SYS_MAP_PAGE \<equiv> 5"
abbreviation SYS_DEBUG_PRINT :: u64 where "SYS_DEBUG_PRINT \<equiv> 6"
abbreviation SYS_EXIT :: u64 where "SYS_EXIT \<equiv> 7"

text \<open>The C casts \<^verbatim>\<open>(int)a0\<close> and \<^verbatim>\<open>(u64)ret\<close>.\<close>

definition to_int :: "u64 \<Rightarrow> int" where
  "to_int a = sint (ucast a :: u32)"

definition from_int :: "int \<Rightarrow> u64" where
  "from_int i = word_of_int i"

datatype 's sys_result = Sys_ret u64 's | Sys_send_blocked int 's | Sys_recv_blocked int nat 's | Sys_gone 's

definition sys_cap_create :: "u64 \<Rightarrow> u64 \<Rightarrow> u64 \<Rightarrow> 'a ipc_state_scheme \<Rightarrow> 'a ipc_state_scheme sys_result" where
  "sys_cap_create a0 a1 a2 s =
     (let ty = ucast a0 :: u32
      in if ty = CAP_MEMORY
         then (case cap_alloc \<lparr>ctype = ty, refcount = 0, object = Cap_mem a1 a2\<rparr> s of (r, s') \<Rightarrow> Sys_ret (from_int r) s')
         else if ty = CAP_IO
         then (case cap_alloc \<lparr>ctype = ty, refcount = 0, object = Cap_io a1 a2\<rparr> s of (r, s') \<Rightarrow> Sys_ret (from_int r) s')
         else Sys_ret (- 1) s)"

definition sys_send :: "nat \<Rightarrow> u64 \<Rightarrow> u64 \<Rightarrow> u64 \<Rightarrow> u64 \<Rightarrow> 'a ipc_state_scheme \<Rightarrow> 'a ipc_state_scheme sys_result" where
  "sys_send c a0 a1 a2 a3 s =
     (case ipc_send c (to_int a0) \<lparr>mdata = (a1, a2, a3, 0), cap_transfer = - 1\<rparr> s of
        Returned r s' \<Rightarrow> Sys_ret (from_int r) s'
      | Gave_up t s' \<Rightarrow> Sys_send_blocked t s')"

text \<open>What \<^verbatim>\<open>SYS_RECV\<close> returns once \<^verbatim>\<open>ipc_recv\<close> has: the first word, or -1.\<close>

definition sys_recv_value :: "int \<Rightarrow> ipc_message option \<Rightarrow> u64" where
  "sys_recv_value ret msg = (case msg of Some m \<Rightarrow> if ret = 0 then fst (mdata m) else - 1 | None \<Rightarrow> - 1)"

definition sys_recv :: "nat \<Rightarrow> u64 \<Rightarrow> 'a ipc_state_scheme \<Rightarrow> 'a ipc_state_scheme sys_result" where
  "sys_recv c a0 s =
     (case ipc_recv c (to_int a0) s of
        Recv_done r m s' \<Rightarrow> Sys_ret (sys_recv_value r m) s'
      | Recv_blocked t i s' \<Rightarrow> Sys_recv_blocked t i s')"

definition sys_recv_resume :: "nat \<Rightarrow> 'a ipc_state_scheme \<Rightarrow> u64 \<times> 'a ipc_state_scheme" where
  "sys_recv_resume i s = (case ipc_recv_resume i s of (r, m, s') \<Rightarrow> (sys_recv_value r m, s'))"

definition sys_exit :: "nat \<Rightarrow> 'a ipc_state_scheme \<Rightarrow> 'a ipc_state_scheme sys_result" where
  "sys_exit c s =
     (let cur = task_current_id c s
      in case task_get cur s of
           Some _ \<Rightarrow> Sys_gone (schedule c (upd_task (nat cur) (\<lambda>t. t\<lparr>tstate := TASK_DEAD\<rparr>) s))
         | None \<Rightarrow> Sys_ret 0 s)"

definition syscall_handler ::
  "nat \<Rightarrow> u64 \<Rightarrow> u64 \<Rightarrow> u64 \<Rightarrow> u64 \<Rightarrow> u64 \<Rightarrow> 'a ipc_state_scheme \<Rightarrow> 'a ipc_state_scheme sys_result" where
  "syscall_handler c num a0 a1 a2 a3 s =
     (if num = SYS_YIELD then Sys_ret 0 (sched_yield c s)
      else if num = SYS_SEND then sys_send c a0 a1 a2 a3 s
      else if num = SYS_RECV then sys_recv c a0 s
      else if num = SYS_CAP_CREATE then sys_cap_create a0 a1 a2 s
      else if num = SYS_CAP_DESTROY then (case cap_destroy (to_int a0) s of (r, s') \<Rightarrow> Sys_ret (from_int r) s')
      else if num = SYS_MAP_PAGE then (case page_alloc s of (p, s') \<Rightarrow> Sys_ret p s')
      else if num = SYS_DEBUG_PRINT then Sys_ret 0 s
      else if num = SYS_EXIT then sys_exit c s
      else Sys_ret (- 1) s)"

fun sys_state :: "'s sys_result \<Rightarrow> 's" where
  "sys_state (Sys_ret r s) = s"
| "sys_state (Sys_send_blocked t s) = s"
| "sys_state (Sys_recv_blocked t i s) = s"
| "sys_state (Sys_gone s) = s"

section \<open>Isolation is kept\<close>

text \<open>Changes that touch neither memory nor the tables of a task.\<close>

definition keeps_isolation :: "'a task_state_scheme \<Rightarrow> 'a task_state_scheme \<Rightarrow> bool" where
  "keeps_isolation s s' \<longleftrightarrow> (\<forall>L kow k R. sys_inv L kow k R s \<longrightarrow> sys_inv L kow k R s')"

lemma keeps_isolation_refl [simp]: "keeps_isolation s s"
  by (simp add: keeps_isolation_def)

lemma keeps_isolation_trans: "keeps_isolation s t \<Longrightarrow> keeps_isolation t u \<Longrightarrow> keeps_isolation s u"
  by (simp add: keeps_isolation_def)

lemma keeps_isolation_schedule: "sched_ok s \<Longrightarrow> c < MAX_CPUS \<Longrightarrow> keeps_isolation s (schedule c s)"
  by (simp add: keeps_isolation_def sys_inv_schedule)

lemma keeps_isolationI:
  assumes "mem s' = mem s" and "used_set s' = used_set s" and "mm_inv s' = mm_inv s" and "asid_used s' = asid_used s"
    and "asid_inv s' = asid_inv s" and "num_tasks s' = num_tasks s" and "length (tasks s') = length (tasks s)"
    and "\<And>j. j < MAX_TASKS \<Longrightarrow> (status s' j = TASK_DEAD) = (status s j = TASK_DEAD) \<and>
          tas (tasks s' ! j) = tas (tasks s ! j) \<and> stack_base (tasks s' ! j) = stack_base (tasks s ! j)"
  shows "keeps_isolation s s'"
  unfolding keeps_isolation_def
proof (intro allI impI)
  fix L kow k R assume inv: "sys_inv L kow k R s"
  note I = sys_invD [OF inv]
  show "sys_inv L kow k R s'"
    by (rule sys_inv_step [OF inv]) (use assms I in \<open>auto intro: keeps_pages_mem\<close>)
qed

lemma keeps_isolation_set_status:
  assumes "length (tasks s) = MAX_TASKS" and "st \<noteq> TASK_DEAD"
  shows "keeps_isolation s (set_status t st s)"
proof (rule keeps_isolationI)
  fix j assume j: "j < MAX_TASKS"
  show "(status (set_status t st s) j = TASK_DEAD) = (status s j = TASK_DEAD) \<and>
     tas (tasks (set_status t st s) ! j) = tas (tasks s ! j) \<and> stack_base (tasks (set_status t st s) ! j) = stack_base (tasks s ! j)"
    using assms(2) by (simp add: set_status_nth [OF assms(1) j])
qed (simp_all add: set_status_def split: option.split)

lemma keeps_isolation_upd_ep: "keeps_isolation s (upd_ep i f s)"
  by (rule keeps_isolationI) (simp_all add: upd_ep_def mm_inv_def used_set_def bitmap_test_def asid_used_def asid_free_bit_def asid_inv_def)

lemma keeps_isolation_pool: "keeps_isolation s (s\<lparr>cap_pool := p\<rparr>)" "keeps_isolation s (s\<lparr>cap_pool_used := u\<rparr>)"
  by (rule keeps_isolationI;
      simp add: mm_inv_def used_set_def bitmap_test_def asid_used_def asid_free_bit_def asid_inv_def)+

lemma keeps_isolation_caps:
  fixes s :: "'a task_state_scheme"
  shows "keeps_isolation s (snd (cap_alloc cap s))" "keeps_isolation s (snd (cap_destroy i s))"
proof -
  have both: "keeps_isolation s (s\<lparr>cap_pool := p, cap_pool_used := u\<rparr>)" "keeps_isolation s (s\<lparr>cap_pool_used := u, cap_pool := p\<rparr>)" for p u
    by (rule keeps_isolation_trans [OF keeps_isolation_pool(1) keeps_isolation_pool(2)],
        rule keeps_isolation_trans [OF keeps_isolation_pool(2) keeps_isolation_pool(1)])
  then show "keeps_isolation s (snd (cap_alloc cap s))"
    by (cases "first_idx (\<lambda>i. \<not> cap_pool_used s ! i) 0 CAP_POOL_SIZE") (simp_all add: cap_alloc_def)
  show "keeps_isolation s (snd (cap_destroy i s))"
    using both keeps_isolation_pool(1) [of s] by (simp add: cap_destroy_def Let_def)
qed

lemma keeps_isolation_page_alloc: "keeps_isolation s (snd (page_alloc s))"
  unfolding keeps_isolation_def
proof (intro allI impI)
  fix L kow k R assume inv: "sys_inv L kow k R s"
  note I = sys_invD [OF inv]
  obtain a s' where al: "page_alloc s = (a, s')" by fastforce
  show "sys_inv L kow k R (snd (page_alloc s))"
  proof (cases "a = 0")
    case True
    then show ?thesis using page_alloc_fail [of s s'] al inv by simp
  next
    case False
    obtain i where i: "i < MAX_PAGES" "a = page_addr i" "i \<notin> used_set s" "used_set s' = insert i (used_set s)" "mm_inv s'"
      "mem s' = zero_words a PAGE_WORDS (mem s)" "mm_state.more s' = mm_state.more s"
      by (rule page_alloc_result [OF I(2) al False])
    note above = same_aboveD [OF same_above_mm [OF i(7)]] and as = asid_same_more [OF i(7)]
    have "p < MAX_PAGES \<and> p \<noteq> i" if "p \<in> used_set s" for p using that i(3) by (auto simp: used_set_def)
    then have "keeps_pages s s'"
      using i(1,2,6) unfolding keeps_pages_def by (auto simp: zero_page_apply cell_in_page)
    then have "sys_inv L kow k R s'"
      using I i(4,5) above as by (intro sys_inv_step [OF inv]) auto
    then show ?thesis using al by simp
  qed
qed

lemma keeps_isolation_send:
  assumes "sched_ok s" and "c < MAX_CPUS"
  shows "keeps_isolation s (case ipc_send c ep msg s of Returned _ s' \<Rightarrow> s' | Gave_up _ s' \<Rightarrow> s')"
proof -
  have len: "length (tasks s) = MAX_TASKS" using assms(1) by (simp add: sched_ok_def)
  have a: "keeps_isolation s (set_status r st (upd_ep i f s))" if "st \<noteq> TASK_DEAD" for r i f st
    by (rule keeps_isolation_trans [OF keeps_isolation_upd_ep keeps_isolation_set_status]) (use len that in simp_all)
  have "keeps_isolation s (upd_ep i g (set_status r TASK_READY (upd_ep i f s)))" for r i f g
    by (rule keeps_isolation_trans [OF a keeps_isolation_upd_ep]) simp
  moreover have "keeps_isolation s (schedule c (set_status r TASK_BLOCKED (upd_ep i f s)))" for r i f
    by (rule keeps_isolation_trans [OF a keeps_isolation_schedule]) (use assms in simp_all)
  ultimately show ?thesis by (simp add: ipc_send_def Let_def)
qed

lemma keeps_isolation_recv:
  assumes "sched_ok s" and "c < MAX_CPUS"
  shows "keeps_isolation s (case ipc_recv c ep s of Recv_done _ _ s' \<Rightarrow> s' | Recv_blocked _ _ s' \<Rightarrow> s')"
proof -
  have len: "length (tasks s) = MAX_TASKS" using assms(1) by (simp add: sched_ok_def)
  have a: "keeps_isolation s (set_status r st (upd_ep i f s))" if "st \<noteq> TASK_DEAD" for r i f st
    by (rule keeps_isolation_trans [OF keeps_isolation_upd_ep keeps_isolation_set_status]) (use len that in simp_all)
  have "keeps_isolation s (upd_ep i g (set_status r TASK_READY (upd_ep i f s)))" for r i f g
    by (rule keeps_isolation_trans [OF a keeps_isolation_upd_ep]) simp
  moreover have "keeps_isolation s (schedule c (set_status r TASK_BLOCKED (upd_ep i f s)))" for r i f
    by (rule keeps_isolation_trans [OF a keeps_isolation_schedule]) (use assms in simp_all)
  ultimately show ?thesis by (simp add: ipc_recv_def Let_def keeps_isolation_upd_ep)
qed

lemma keeps_isolation_yield:
  assumes "sched_ok s" and "c < MAX_CPUS"
  shows "keeps_isolation s (sched_yield c s)"
proof -
  let ?s = "upd_cpu c (\<lambda>p. p\<lparr>reschedule_needed := 0\<rparr>) s"
  have "keeps_isolation s ?s" by (rule keeps_isolationI) simp_all
  moreover have "sched_ok ?s"
    using assms by (auto simp: sched_ok_def upd_cpu_def nth_list_update)
  ultimately show ?thesis
    unfolding sched_yield_def using keeps_isolation_trans keeps_isolation_schedule [OF _ assms(2)] by blast
qed

text \<open>
  No system call breaks the isolation of the tasks, whatever its number and its arguments,
  except the exit call: if before it every live task had its own page tables, ASID and stack, apart
  from every other task's and the kernel's, so it is after, when the call returned and when
  it blocked the caller.
\<close>

theorem syscall_keeps_isolation:
  assumes "sys_inv L kow k R s" and "sched_ok s" and "c < MAX_CPUS" and "num \<noteq> SYS_EXIT"
  shows "sys_inv L kow k R (sys_state (syscall_handler c num a0 a1 a2 a3 s))"
proof -
  have send: "keeps_isolation s (sys_state (sys_send c a0 a1 a2 a3 s))"
    using keeps_isolation_send [OF assms(2,3), of "to_int a0" "\<lparr>mdata = (a1, a2, a3, 0), cap_transfer = - 1\<rparr>"]
    unfolding sys_send_def by (simp split: waited.splits)
  have recv: "keeps_isolation s (sys_state (sys_recv c a0 s))"
    using keeps_isolation_recv [OF assms(2,3), of "to_int a0"] unfolding sys_recv_def by (simp split: received.splits)
  have alloc: "keeps_isolation s (sys_state (case cap_alloc x s of (r, s') \<Rightarrow> Sys_ret (from_int r) s'))" for x
    using keeps_isolation_caps(1) [of s x] by (cases "cap_alloc x s") simp
  then have create: "keeps_isolation s (sys_state (sys_cap_create a0 a1 a2 s))"
    by (simp add: sys_cap_create_def Let_def)
  have destroy: "keeps_isolation s (sys_state (case cap_destroy x s of (r, s') \<Rightarrow> Sys_ret (from_int r) s'))" for x
    using keeps_isolation_caps(2) [of s x] by (cases "cap_destroy x s") simp
  have page: "keeps_isolation s (sys_state (case page_alloc s of (p, s') \<Rightarrow> Sys_ret p s'))"
    using keeps_isolation_page_alloc [of s] by (cases "page_alloc s") simp
  have "keeps_isolation s (sys_state (syscall_handler c num a0 a1 a2 a3 s))"
    unfolding syscall_handler_def using send recv create destroy page keeps_isolation_yield [OF assms(2,3)] assms(4) by simp
  then show ?thesis using assms(1) unfolding keeps_isolation_def by blast
qed

text \<open>
  The exit call forgets to count: it makes the caller dead, but leaves the counter of live
  tasks as it was, which is then one too high and no longer agrees with the table. The scheduler's
  loop halts a CPU only when the counter is 0, so it never halts after such an exit.
\<close>

theorem sys_exit_leaves_count_high:
  assumes "sys_inv L kow k R s" and "sched_ok s" and "c < MAX_CPUS" and "cur_of s c = int T" and "status s T \<noteq> TASK_DEAD"
  shows "\<exists>s'. syscall_handler c SYS_EXIT a0 a1 a2 a3 s = Sys_gone s' \<and> status s' T = TASK_DEAD \<and>
     num_tasks s' = int (card {i. live s' i}) + 1 \<and> \<not> sys_inv L kow k R s' \<and>
     ({i. live s' i} = {} \<longrightarrow> sched_start_round d s' = Some (schedule d s'))"
proof -
  let ?a = "upd_task T (\<lambda>t. t\<lparr>tstate := TASK_DEAD\<rparr>) s"
  let ?s = "schedule c ?a"
  note I = sys_invD [OF assms(1)]
  have T: "T < MAX_TASKS" using assms(2-4) by (auto simp: sched_ok_def)
  have g: "task_get (int T) s = Some (tasks s ! T)" using T assms(5) by (simp add: task_get_def)
  have h: "syscall_handler c SYS_EXIT a0 a1 a2 a3 s = Sys_gone ?s"
    using g assms(4) by (simp add: syscall_handler_def sys_exit_def task_current_id_def)
  have ok: "sched_ok ?a" using assms(2) sched_ok_cong [of ?a s] by simp
  have st: "status ?a i = (if i = T then TASK_DEAD else status s i)" for i using I(4) T by (cases "i = T") auto
  have dead: "status ?s i = TASK_DEAD \<longleftrightarrow> status ?a i = TASK_DEAD" if "i < MAX_TASKS" for i
    using scheduledD(1) [OF ok assms(3) that] chosen_ready(2) [of c ?a i] by (auto simp: after_put_back_def)
  have live: "live ?s i \<longleftrightarrow> live s i \<and> i \<noteq> T" for i
  proof (cases "i < MAX_TASKS")
    case True
    then show ?thesis using dead [OF True] unfolding st by auto
  qed auto
  have "{i. live s i} = insert T {i. live ?s i}" "T \<notin> {i. live ?s i}" using live T assms(5) by auto
  then have "card {i. live s i} = Suc (card {i. live ?s i})" using card_insert_disjoint [of "{i. live ?s i}" T] by simp
  moreover have "num_tasks ?s = num_tasks s" using schedule_frame(6) [OF ok assms(3)] by simp
  ultimately have n: "num_tasks ?s = int (card {i. live ?s i}) + 1" using I(8) by simp
  then have "\<not> sys_inv L kow k R ?s" using sys_invD(8) [of L kow k R ?s] by auto
  moreover have "sched_start_round d ?s = Some (schedule d ?s)" if "{i. live ?s i} = {}"
    using n that by (simp add: sched_start_round_def task_count_def)
  moreover have "status ?s T = TASK_DEAD" using dead [OF T] st by simp
  ultimately show ?thesis using h n by blast
qed

section \<open>A machine with one task\<close>

definition kernel_blank :: ipc_state where
  "kernel_blank = futex_state.extend (irq_state.extend (wq_state.extend (sched_state.extend sched_machine
     \<lparr>wq_pool = replicate 64 \<lparr>task_id = 0, timeout_tick = 0, wnext = 0, in_use = False, wowner = None\<rparr>,
      whead = (\<lambda>_. - 1), tick_count = 0, gic_trace = []\<rparr>)
     \<lparr>irq_handlers = replicate 256 None, timer_freq = 0, timer_interval = 0, cntv_tval = replicate 4 0, cntv_ctl = replicate 4 0,
      vectors_on = replicate 4 False, irqs_on = replicate 4 False, secondary_stacks = replicate 4 0, num_cpus_online = 1\<rparr>)
     \<lparr>ftable = replicate 16 \<lparr>faddr = 0, factive = False\<rparr>\<rparr>)
     \<lparr>endpoints = replicate 32 free_ep\<rparr>"

lemma kernel_blank_ok: "blank_ok kernel_blank" "length (regs kernel_blank) = MAX_CPUS" "length (ttbr0 kernel_blank) = MAX_CPUS"
  using sched_machine_ok
  by (simp_all add: blank_ok_def kernel_blank_def sched_machine_def sched_state.defs wq_state.defs irq_state.defs futex_state.defs
      task_state.defs MAX_CPUS_def)

text \<open>The first task, created at boot, running on CPU 1.\<close>

definition one_task :: "(nat \<Rightarrow> task_res) \<Rightarrow> ipc_state \<Rightarrow> bool" where
  "one_task R s \<longleftrightarrow> sys_inv sample_layout (kernel_labels 144 145 146 147) 144 R s \<and> sched_ok s \<and> cur_of s 1 = int 0 \<and>
     status s 0 = TASK_RUNNING \<and> (\<forall>i. live s i \<longrightarrow> i = 0)"

lemma one_task_exists: "\<exists>R s. one_task R s"
proof -
  let ?b = "boot_tasks kernel_blank"
  note B = boot_tasks_spec [OF kernel_blank_ok(1)]
  obtain root n b s where c: "task_create sample_layout 0x40080800 ''shell'' 0x40081000 ?b = (0, s)"
    "create_done sample_layout (kernel_labels 144 145 146 147) 144 0x40080800 ''shell'' 0x40081000 0 root n b ?b s"
    using first_create [OF kernel_blank_ok(1)] by metis
  let ?R = "(undefined :: nat \<Rightarrow> task_res)(0 := Res (task_tree (kernel_labels 144 145 146 147) 144 root) root b)"
  have inv: "sys_inv sample_layout (kernel_labels 144 145 146 147) 144 ?R s"
    by (rule sys_inv_create_done [OF B(1) c(2)])
  have d: "tasks s = (tasks ?b)[0 := created_task 0x40080800 ''shell'' 0x40081000 root n b (tasks ?b ! 0)]"
    "percpu s = percpu ?b" "task_state.more s = task_state.more ?b"
    using c(2) by (simp_all add: create_done_def)
  have z: "0 < MAX_TASKS" "1 < MAX_CPUS" by (simp_all add: MAX_TASKS_def MAX_CPUS_def)
  have "regs s = regs kernel_blank" "ttbr0 s = ttbr0 kernel_blank"
    using more_regs [OF d(3)] more_regs [OF B(5)] by simp_all
  then have ok: "sched_ok s"
    using B(2) d kernel_blank_ok(2,3) by (auto simp: sched_ok_def started_def)
  have t: "status s 0 = TASK_READY" using d(1) z(1) sys_invD(4) [OF B(1)] by (simp add: created_task_def)
  have other: "status s i = TASK_DEAD" if "i < MAX_TASKS" "i \<noteq> 0" for i
    using B(2) d(1) that by (simp add: started_def)
  have "is_ready i s \<longleftrightarrow> i = 0" for i
    using t other [of i] z by (cases "i = 0") (auto simp: is_ready_iff)
  then have ch: "chosen 1 s = Some 0"
    using find_next_None [of "start_of 1 s" s] find_next_Some(1) [of "start_of 1 s" s]
    by (cases "find_next (start_of 1 s) s") (auto simp: chosen_start)
  let ?s = "schedule 1 s"
  have "status ?s i = TASK_DEAD" if "i < MAX_TASKS" "i \<noteq> 0" for i
    using scheduledD(1) [OF ok z(2) that(1)] ch other [OF that] that by (auto simp: after_put_back_def)
  moreover have "status ?s 0 = TASK_RUNNING" "cur_of ?s 1 = int 0"
    using scheduledD(1) [OF ok z(2,1)] scheduledD(2) [OF ok z(2,2)] ch by simp_all
  ultimately have "one_task ?R ?s"
    unfolding one_task_def using sys_inv_schedule [OF inv ok z(2)] sched_ok_schedule [OF ok z(2)] by blast
  then show ?thesis by blast
qed

theorem syscall_keeps_isolation_witness:
  "\<exists>R s. cur_of s 1 = 0 \<and> live s 0 \<and> sys_inv sample_layout (kernel_labels 144 145 146 147) 144 R
     (sys_state (syscall_handler 1 SYS_SEND 3 10 20 30 (s :: ipc_state)))"
proof -
  obtain R s where s: "one_task R s" using one_task_exists by blast
  have "(1::nat) < MAX_CPUS" "0 < MAX_TASKS" by (simp_all add: MAX_CPUS_def MAX_TASKS_def)
  then have "sys_inv sample_layout (kernel_labels 144 145 146 147) 144 R (sys_state (syscall_handler 1 SYS_SEND 3 10 20 30 s))"
    using s by (intro syscall_keeps_isolation) (simp_all add: one_task_def)
  moreover have "cur_of s 1 = 0" "live s 0" using s \<open>0 < MAX_TASKS\<close> by (simp_all add: one_task_def)
  ultimately show ?thesis by blast
qed

theorem sys_exit_leaves_count_high_witness:
  "\<exists>s s' :: ipc_state. syscall_handler 1 SYS_EXIT 0 0 0 0 s = Sys_gone s' \<and> num_tasks s' = 1 \<and> (\<forall>i. \<not> live s' i)"
proof -
  obtain R s where s: "one_task R s" using one_task_exists by blast
  have c: "(1::nat) < MAX_CPUS" by (simp add: MAX_CPUS_def)
  have o: "sys_inv sample_layout (kernel_labels 144 145 146 147) 144 R s" "sched_ok s" "cur_of s 1 = int 0" "status s 0 \<noteq> TASK_DEAD"
    "\<And>i. live s i \<Longrightarrow> i = 0" using s by (simp_all add: one_task_def)
  obtain s' where s': "syscall_handler 1 SYS_EXIT 0 0 0 0 s = Sys_gone s'" "status s' 0 = TASK_DEAD"
    "num_tasks s' = int (card {i. live s' i}) + 1"
    using sys_exit_leaves_count_high [OF o(1,2) c o(3,4)] by blast
  have "num_tasks s' = num_tasks s"
  proof -
    have "sched_ok (upd_task 0 (\<lambda>t. t\<lparr>tstate := TASK_DEAD\<rparr>) s)" using o(2) by (subst sched_ok_cong [of _ s]) simp_all
    from schedule_frame(6) [OF this c] have "num_tasks (schedule 1 (upd_task 0 (\<lambda>t. t\<lparr>tstate := TASK_DEAD\<rparr>) s)) = num_tasks s" by simp
    moreover have "s' = schedule 1 (upd_task 0 (\<lambda>t. t\<lparr>tstate := TASK_DEAD\<rparr>) s)"
      using s'(1) o(3) by (auto simp: syscall_handler_def sys_exit_def task_current_id_def Let_def split: option.splits)
    ultimately show ?thesis by simp
  qed
  moreover have "{i. live s i} = {0}" using o(4,5) by (auto simp: MAX_TASKS_def)
  then have "num_tasks s = 1" using sys_invD(8) [OF o(1)] by simp
  ultimately have "card {i. live s' i} = 0" using s'(3) by simp
  then have "\<forall>i. \<not> live s' i" by simp
  then show ?thesis using s'(1) \<open>num_tasks s' = num_tasks s\<close> \<open>num_tasks s = 1\<close> by auto
qed

end
