(* ===== verification/Mmu.thy ===== *)
theory Mmu
  imports Page_Tables
begin

text \<open>
  The MMU registers of a CPU (\<^verbatim>\<open>mm_enable_mmu\<close> and \<^verbatim>\<open>secondary_mmu_init\<close> of \<^verbatim>\<open>kernel/mm.c\<close>, with the register
  macros of \<^verbatim>\<open>kernel/types.h\<close>): the registers, the sequence of the instructions issued, and on the
  specification side how a CPU with these registers translates an address.
\<close>

section \<open>The registers\<close>

datatype sysreg = MAIR_EL1 | TCR_EL1 | TTBR0_EL1 | SCTLR_EL1

datatype sys_op = Msr sysreg u64 | Isb | Dsb | Tlbi_vmalle1is

record cpu_regs =
  sysregs :: "sysreg \<Rightarrow> u64"
  issued :: "sys_op list"

definition read_sysreg :: "sysreg \<Rightarrow> cpu_regs \<Rightarrow> u64" where
  "read_sysreg r c = sysregs c r"

definition write_sysreg :: "sysreg \<Rightarrow> u64 \<Rightarrow> cpu_regs \<Rightarrow> cpu_regs" where
  "write_sysreg r v c = c\<lparr>sysregs := (sysregs c)(r := v), issued := issued c @ [Msr r v]\<rparr>"

definition issue :: "sys_op \<Rightarrow> cpu_regs \<Rightarrow> cpu_regs" where
  "issue i c = c\<lparr>issued := issued c @ [i]\<rparr>"

definition MAIR_IDX_NORMAL :: nat where "MAIR_IDX_NORMAL = 0"
definition MAIR_IDX_DEVICE :: nat where "MAIR_IDX_DEVICE = 1"

definition mm_enable_mmu :: "pt_layout \<Rightarrow> cpu_regs \<Rightarrow> cpu_regs" where
  "mm_enable_mmu L c =
     (let mair = push_bit (MAIR_IDX_NORMAL * 8) 0xFF OR push_bit (MAIR_IDX_DEVICE * 8) 0x00;
          c1 = write_sysreg MAIR_EL1 mair c;
          tcr = push_bit 0 16 OR push_bit 8 1 OR push_bit 10 1 OR push_bit 12 3 OR push_bit 14 0 OR push_bit 16 16 OR
                push_bit 24 1 OR push_bit 26 1 OR push_bit 28 3 OR push_bit 30 2 OR push_bit 23 1;
          c2 = write_sysreg TCR_EL1 tcr c1;
          c3 = write_sysreg TTBR0_EL1 (pgd_table L) c2;
          c4 = issue Isb (issue Dsb (issue Tlbi_vmalle1is (issue Isb c3)));
          sctlr = read_sysreg SCTLR_EL1 c4;
          sctlr1 = sctlr OR push_bit 0 1;
          sctlr2 = sctlr1 OR push_bit 2 1;
          sctlr3 = sctlr2 OR push_bit 12 1;
          sctlr4 = sctlr3 AND NOT (push_bit 19 1)
      in issue Isb (write_sysreg SCTLR_EL1 sctlr4 c4))"

definition secondary_mmu_init :: "pt_layout \<Rightarrow> cpu_regs \<Rightarrow> cpu_regs" where
  "secondary_mmu_init L c =
     (let mair = push_bit (MAIR_IDX_NORMAL * 8) 0xFF OR push_bit (MAIR_IDX_DEVICE * 8) 0x00;
          c1 = write_sysreg MAIR_EL1 mair c;
          tcr = push_bit 0 16 OR push_bit 8 1 OR push_bit 10 1 OR push_bit 12 3 OR push_bit 14 0 OR push_bit 16 16 OR
                push_bit 24 1 OR push_bit 26 1 OR push_bit 28 3 OR push_bit 30 2 OR push_bit 23 1;
          c2 = write_sysreg TCR_EL1 tcr c1;
          c3 = write_sysreg TTBR0_EL1 (pgd_table L) c2;
          c4 = issue Isb (issue Dsb (issue Tlbi_vmalle1is (issue Isb c3)));
          sctlr = read_sysreg SCTLR_EL1 c4;
          sctlr1 = sctlr OR push_bit 0 1;
          sctlr2 = sctlr1 OR push_bit 2 1;
          sctlr3 = sctlr2 OR push_bit 12 1;
          sctlr4 = sctlr3 AND NOT (push_bit 19 1)
      in issue Isb (write_sysreg SCTLR_EL1 sctlr4 c4))"

section \<open>Translation by a CPU\<close>

text \<open>
  With the MMU off an address stands for itself and is device memory. With it on, the 4 KB granule and
  48-bit addresses, the tables at \<^verbatim>\<open>TTBR0_EL1\<close> are walked and \<^verbatim>\<open>MAIR_EL1\<close> gives the memory type; other
  configurations are not described (\<open>None\<close>), and addresses above fault as \<^verbatim>\<open>EPD1\<close> disables their walks.
\<close>

definition mmu_access :: "cpu_regs \<Rightarrow> memory \<Rightarrow> u64 \<Rightarrow> (u64 \<times> u8) option" where
  "mmu_access c m va =
     (let tcr = sysregs c TCR_EL1
      in if \<not> bit (sysregs c SCTLR_EL1) 0 then Some (va, 0)
         else if take_bit 6 tcr = 16 \<and> \<not> bit tcr 7 \<and> take_bit 2 (drop_bit 14 tcr) = 0 \<and> bit tcr 23 \<and> unat va < 2 ^ 48
         then map_option (\<lambda>(pa, e). (pa, ucast (drop_bit (8 * unat (mem_attr e)) (sysregs c MAIR_EL1))))
                (translate m (pa_field 12 (sysregs c TTBR0_EL1)) va)
         else None)"

text \<open>The page tables are only used after the last TLB invalidation has completed and been synchronised.\<close>

definition clean_start :: "sys_op list \<Rightarrow> bool" where
  "clean_start ops \<longleftrightarrow> (\<exists>before v. ops = before @ [Tlbi_vmalle1is, Dsb, Isb, Msr SCTLR_EL1 v, Isb])"

lemma root_field: "layout_ok L \<Longrightarrow> pa_field 12 (pgd_table L) = pgd_table L"
  using pa_field_desc [of 12 "pgd_table L" 0] by (auto simp: layout_ok_def Let_def take_bit_48 aligned_def mod_eq_0_iff_dvd simp flip: aligned_take_bit)

lemma bit_masks:
  "bit (0x1005 :: u64) n \<longleftrightarrow> n \<in> {0, 2, 12}" "bit (0x80000 :: u64) n \<longleftrightarrow> n = 19"
proof -
  have b: "bit (push_bit k 1 :: u64) n \<longleftrightarrow> n = k" if "k < 64" for k
    using that by (auto simp only: bit_push_bit_iff bit_1_iff possible_bit_word len_of_numeral_defs)
  have z: "(0 :: nat) < 64" "(2 :: nat) < 64" "(12 :: nat) < 64" "(19 :: nat) < 64" by simp_all
  have c: "(0x1005 :: u64) = push_bit 0 1 OR push_bit 2 1 OR push_bit 12 1" "(0x80000 :: u64) = push_bit 19 1" by simp_all
  show "bit (0x1005 :: u64) n \<longleftrightarrow> n \<in> {0, 2, 12}" unfolding c(1) bit_or_iff using b [OF z(1)] b [OF z(2)] b [OF z(3)] by blast
  show "bit (0x80000 :: u64) n \<longleftrightarrow> n = 19" unfolding c(2) using b [OF z(4)] by blast
qed

lemma enabled_regs:
  assumes "c' = mm_enable_mmu L c \<or> c' = secondary_mmu_init L c"
  shows "sysregs c' MAIR_EL1 = 0xFF" "sysregs c' TCR_EL1 = 0xB5903510" "sysregs c' TTBR0_EL1 = pgd_table L"
    "sysregs c' SCTLR_EL1 = (sysregs c SCTLR_EL1 OR 0x1005) AND NOT 0x80000"
  using assms by (auto simp: mm_enable_mmu_def secondary_mmu_init_def write_sysreg_def read_sysreg_def issue_def Let_def MAIR_IDX_NORMAL_def MAIR_IDX_DEVICE_def or.assoc)

lemma enabled_issue:
  assumes "c' = mm_enable_mmu L c \<or> c' = secondary_mmu_init L c"
  shows "clean_start (issued c')"
  using assms by (auto simp: mm_enable_mmu_def secondary_mmu_init_def write_sysreg_def issue_def Let_def clean_start_def)

section \<open>The kernel's view of memory\<close>



end
