(* ===== verification/Boot.thy ===== *)
theory Boot
  imports Syscall Mmu
begin

text \<open>
  The start of the kernel (\<^verbatim>\<open>kernel/main.c\<close>): \<^verbatim>\<open>kernel_main\<close>, the composition of the initialisation functions of
  all components, and the work of \<^verbatim>\<open>init_task\<close>. The addresses the linker gives to the functions and tables are
  arguments, and so are the values of the hardware registers read; what is printed is left out, and with it
  \<^verbatim>\<open>uart_init\<close> (theory \<open>Uart\<close>), whose registers no other step reads, and \<^verbatim>\<open>syscall_init\<close>, which only prints.
\<close>

section \<open>The code\<close>

text \<open>\<^verbatim>\<open>kernel_main\<close> from \<^verbatim>\<open>mm_init\<close> to \<^verbatim>\<open>futex_init\<close>, on the boot CPU, whose MMU registers are \<open>c\<close>.\<close>

definition kernel_init :: "u64 \<Rightarrow> pt_layout \<Rightarrow> u32 \<Rightarrow> u64 \<Rightarrow> cpu_regs \<times> ipc_state \<Rightarrow> cpu_regs \<times> ipc_state" where
  "kernel_init stack_top L typer freq = (\<lambda>(c, s).
     (let s1 = mm_init stack_top s;
          s2 = mm_create_page_tables L s1;
          c1 = mm_enable_mmu L c;
          s3 = irq_init typer s2;
          s4 = timer_init 0 freq s3;
          s5 = cap_init s4;
          s6 = task_init s5;
          s7 = sched_init s6;
          s8 = ipc_init s7;
          s9 = wq_pool_init s8;
          s10 = sleep_init s9
      in (c1, futex_init s10)))"

record entry_points =
  task_trampoline :: u64
  linux_compat_server_at :: u64
  init_task_at :: u64
  gui_main_at :: u64
  secondary_start_at :: u64

definition kernel_tasks :: "pt_layout \<Rightarrow> entry_points \<Rightarrow> ipc_state \<Rightarrow> ipc_state" where
  "kernel_tasks L e s =
     (let s1 = snd (task_create L (task_trampoline e) ''linux-compat'' (linux_compat_server_at e) s);
          s2 = snd (task_create L (task_trampoline e) ''init'' (init_task_at e) s1)
      in snd (task_create L (task_trampoline e) ''gui'' (gui_main_at e) s2))"

text \<open>Up to the loop of \<^verbatim>\<open>sched_start\<close>.\<close>

definition kernel_main ::
  "u64 \<Rightarrow> pt_layout \<Rightarrow> entry_points \<Rightarrow> u32 \<Rightarrow> u64 \<Rightarrow> (u64 \<Rightarrow> u64 \<Rightarrow> u64 \<Rightarrow> u64) \<Rightarrow> cpu_regs \<times> ipc_state \<Rightarrow> cpu_regs \<times> ipc_state" where
  "kernel_main stack_top L e typer freq psci m =
     (case kernel_init stack_top L typer freq m of
        (c1, s1) \<Rightarrow>
          let s2 = kernel_tasks L e s1;
              s3 = smp_init psci (secondary_start_at e) (int MAX_CPUS) s2
          in (c1, sched_start_enter s3))"

text \<open>
  \<^verbatim>\<open>init_task\<close> before it yields: the numbers of the memory capability and the endpoint it creates, the
  capability it looks up, the page it takes and gives back.
\<close>

definition init_task :: "ipc_state \<Rightarrow> (int \<times> capability option \<times> u64 \<times> int) \<times> ipc_state" where
  "init_task s =
     (case cap_create_memory RAM_BASE 1024 s of (mem_cap, s1) \<Rightarrow>
        let found = cap_lookup mem_cap s1
        in case page_alloc s1 of (p, s2) \<Rightarrow>
             let s3 = page_free p s2
             in case ipc_endpoint_create s3 of (ep, s4) \<Rightarrow> ((mem_cap, found, p, ep), s4))"

section \<open>What the steps leave alone\<close>

text \<open>The tasks' part of the state with everything below it, and the registers of the scheduler.\<close>

abbreviation core :: "'a sched_state_scheme \<Rightarrow> task_state \<times> task_context list \<times> u64 list" where
  "core s \<equiv> (task_state.truncate s, regs s, ttbr0 s)"

lemma coreD:
  assumes "core s = core t"
  shows "mem s = mem t" "page_bitmap s = page_bitmap t" "total_pages s = total_pages t" "used_pages s = used_pages t"
    "asid_bitmap s = asid_bitmap t" "cap_pool s = cap_pool t" "cap_pool_used s = cap_pool_used t" "tasks s = tasks t"
    "num_tasks s = num_tasks t" "percpu s = percpu t" "regs s = regs t" "ttbr0 s = ttbr0 t"
  using assms by (cases s; cases t; simp add: task_state.defs)+

lemma core_inv:
  assumes "core s = core t"
  shows "used_set s = used_set t" "mm_inv s = mm_inv t" "asid_used s = asid_used t" "asid_inv s = asid_inv t" "started s = started t"
  using coreD [OF assms] by (simp_all add: used_set_def bitmap_test_def mm_inv_def asid_used_def asid_free_bit_def asid_inv_def started_def)

text \<open>The wait queues, futexes and endpoints, and the interrupt controller and timer.\<close>

abbreviation pools :: "'a ipc_state_scheme \<Rightarrow> wq_entry list \<times> (wq_ref \<Rightarrow> int) \<times> futex_slot list \<times> ipc_endpoint list" where
  "pools s \<equiv> (wq_pool s, whead s, ftable s, endpoints s)"

abbreviation device :: "'a irq_state_scheme \<Rightarrow> (u64 \<times> u32) list \<times> irq_handler option list \<times> u64 list \<times> u64 list \<times> u64 list" where
  "device s \<equiv> (gic_trace s, irq_handlers s, cntv_tval s, cntv_ctl s, secondary_stacks s)"

named_theorems boot_frame \<open>what the steps of the start leave alone\<close>

lemma core_updates [boot_frame]:
  "core (gic_write a v s) = core s" "core (s\<lparr>irq_handlers := h\<rparr>) = core s" "core (s\<lparr>vectors_on := h2\<rparr>) = core s"
  "core (s\<lparr>irqs_on := h2\<rparr>) = core s" "core (s\<lparr>timer_freq := f\<rparr>) = core s" "core (s\<lparr>timer_interval := f\<rparr>) = core s"
  "core (s\<lparr>cntv_tval := l\<rparr>) = core s" "core (s\<lparr>cntv_ctl := l\<rparr>) = core s" "core (s\<lparr>tick_count := f\<rparr>) = core s"
  "core (s\<lparr>scheduler_running := r\<rparr>) = core s" "core (upd_ep i e s) = core s" "core (upd_entry i q s) = core s"
  "core (wq_init w s) = core s" "core (upd_slot i z s) = core s"
  for s :: "'a ipc_state_scheme"
  by (simp_all add: gic_write_def upd_ep_def upd_entry_def wq_init_def set_head_def upd_slot_def task_state.defs)

lemma pools_updates [boot_frame]:
  "pools (gic_write a v s) = pools s" "pools (s\<lparr>irq_handlers := h\<rparr>) = pools s" "pools (s\<lparr>vectors_on := h2\<rparr>) = pools s"
  "pools (s\<lparr>irqs_on := h2\<rparr>) = pools s" "pools (s\<lparr>timer_freq := f\<rparr>) = pools s" "pools (s\<lparr>timer_interval := f\<rparr>) = pools s"
  "pools (s\<lparr>cntv_tval := l\<rparr>) = pools s" "pools (s\<lparr>cntv_ctl := l\<rparr>) = pools s" "pools (s\<lparr>tick_count := f\<rparr>) = pools s"
  "pools (s\<lparr>scheduler_running := r\<rparr>) = pools s"
  for s :: "'a ipc_state_scheme"
  by (simp_all add: gic_write_def)

lemma device_updates [boot_frame]:
  "device (s\<lparr>scheduler_running := r\<rparr>) = device s" "device (upd_ep i e s) = device s" "device (upd_entry i q s) = device s"
  "device (wq_init w s) = device s" "device (upd_slot i z s) = device s"
  for s :: "'a ipc_state_scheme"
  by (simp_all add: upd_ep_def upd_entry_def wq_init_def set_head_def upd_slot_def)

lemma gic_fill_frame [boot_frame]:
  fixes s :: "'a ipc_state_scheme"
  shows "core (gic_fill a n v w s) = core s" "pools (gic_fill a n v w s) = pools s"
  unfolding gic_fill_def by (rule for_loop_frame, simp only: boot_frame)+

lemma handlers_frame [boot_frame]:
  fixes s :: "'a ipc_state_scheme"
  shows "core (for_loop 0 n (\<lambda>i s. s\<lparr>irq_handlers := (irq_handlers s)[i := None]\<rparr>) s) = core s"
    "pools (for_loop 0 n (\<lambda>i s. s\<lparr>irq_handlers := (irq_handlers s)[i := None]\<rparr>) s) = pools s"
  by (rule for_loop_frame, simp only: boot_frame)+

lemma irq_steps [boot_frame]:
  fixes s :: "'a ipc_state_scheme"
  shows "core (gic_cpu_init s) = core s" "pools (gic_cpu_init s) = pools s" "core (irq_enable i s) = core s" "pools (irq_enable i s) = pools s"
    "core (irq_register i h s) = core s" "pools (irq_register i h s) = pools s"
  by (simp_all only: gic_cpu_init_def irq_enable_def irq_register_def Let_def boot_frame split: if_splits) auto

lemma irq_frame:
  fixes s :: "'a ipc_state_scheme"
  shows "core (irq_init typer s) = core s" "core (timer_init c freq s) = core s" "pools (irq_init typer s) = pools s"
    "pools (timer_init c freq s) = pools s"
  by (simp_all only: irq_init_def timer_init_def Let_def boot_frame)

lemma late_frame:
  fixes s :: "'a ipc_state_scheme"
  shows "core (sched_init s) = core s" "core (ipc_init s) = core s" "core (wq_pool_init s) = core s" "core (sleep_init s) = core s"
    "core (futex_init s) = core s" "device (sched_init s) = device s" "device (ipc_init s) = device s" "device (wq_pool_init s) = device s"
    "device (sleep_init s) = device s" "device (futex_init s) = device s"
  unfolding ipc_init_def wq_pool_init_def futex_init_def sched_init_def sleep_init_def
  by (simp_all only: boot_frame, (rule for_loop_frame, simp only: boot_frame)+)

lemma above_task:
  fixes s t :: "'a ipc_state_scheme"
  assumes "task_state.more s = task_state.more t"
  shows "pools s = pools t" "device s = device t" "regs s = regs t" "ttbr0 s = ttbr0 t"
  using assms by (cases s; cases t; simp)+

lemma above_mm:
  fixes s t :: "'a ipc_state_scheme"
  assumes "mm_state.more s = mm_state.more t"
  shows "pools s = pools t" "device s = device t" "regs s = regs t" "ttbr0 s = ttbr0 t" "tasks s = tasks t" "percpu s = percpu t"
    "num_tasks s = num_tasks t" "cap_pool_used s = cap_pool_used t"
  using assms by (cases s; cases t; simp)+

section \<open>The machine after the initialisation\<close>

text \<open>A machine whose tables have the sizes of the C arrays and whose futex queues are empty.\<close>

definition blank_kernel :: "ipc_state \<Rightarrow> bool" where
  "blank_kernel s \<longleftrightarrow> blank_ok s \<and> length (regs s) = MAX_CPUS \<and> length (ttbr0 s) = MAX_CPUS \<and> length (wq_pool s) = WQ_POOL_SIZE \<and>
     (\<forall>k. whead s (Futex_wq k) = - 1) \<and> length (ftable s) = FUTEX_MAX \<and> length (endpoints s) = MAX_ENDPOINTS \<and>
     length (irq_handlers s) = MAX_IRQ \<and> length (cntv_tval s) = MAX_CPUS \<and> length (cntv_ctl s) = MAX_CPUS \<and>
     length (secondary_stacks s) = MAX_CPUS"

abbreviation kernel_ok :: "(nat \<Rightarrow> task_res) \<Rightarrow> 'a task_state_scheme \<Rightarrow> bool" where
  "kernel_ok R s \<equiv> sys_inv sample_layout (kernel_labels 144 145 146 147) 144 R s"

lemma ipc_init_spec:
  fixes s :: "'a ipc_state_scheme"
  assumes "length (endpoints s) = MAX_ENDPOINTS"
  shows "length (endpoints (ipc_init s)) = MAX_ENDPOINTS" "ep_used (ipc_init s) = {}" "wq_pool (ipc_init s) = wq_pool s"
    "whead (ipc_init s) = whead s" "ftable (ipc_init s) = ftable s"
proof -
  let ?P = "\<lambda>k t. length (endpoints t) = MAX_ENDPOINTS \<and> (\<forall>i<k. \<not> eactive (endpoints t ! i))"
  have "?P MAX_ENDPOINTS (ipc_init s)"
    unfolding ipc_init_def by (rule for_loop_inv [where P = ?P]) (use assms in \<open>auto simp: upd_ep_def nth_list_update less_Suc_eq\<close>)
  then show "length (endpoints (ipc_init s)) = MAX_ENDPOINTS" "ep_used (ipc_init s) = {}" by (simp_all add: ep_used_def)
  show "wq_pool (ipc_init s) = wq_pool s" "whead (ipc_init s) = whead s" "ftable (ipc_init s) = ftable s"
    unfolding ipc_init_def by (rule for_loop_frame, simp add: upd_ep_def)+
qed

lemma wait_init_frame:
  fixes s :: "'a ipc_state_scheme"
  shows "endpoints (wq_pool_init s) = endpoints s" "endpoints (sleep_init s) = endpoints s" "endpoints (futex_init s) = endpoints s"
    "ftable (wq_pool_init s) = ftable s" "ftable (sleep_init s) = ftable s"
  unfolding wq_pool_init_def futex_init_def sleep_init_def
  by ((rule for_loop_frame)?, simp add: upd_entry_def wq_init_def set_head_def upd_slot_def)+

lemma tasks_start:
  fixes s u :: ipc_state
  assumes b: "blank_kernel s" and u: "core u = core (boot_mm s)"
  shows "kernel_ok R (task_init (cap_init u))" "started (task_init (cap_init u))" "used_set (task_init (cap_init u)) = {..<256}"
    "asid_used (task_init (cap_init u)) = {}" "task_state.more (task_init (cap_init u)) = task_state.more u"
proof -
  let ?v = "task_init (cap_init u)" and ?b = "boot_tasks s"
  have blank: "blank_ok s" using b by (simp add: blank_kernel_def)
  note B = boot_tasks_spec [OF blank] and C = coreD [OF u] and I = core_inv [OF u]
  note above = above_mm [OF boot_mm_spec(4), of s]
  show st: "started ?v"
    by (rule task_init_started) (use blank C(8,10) above(5,6) in \<open>simp_all add: frame_simps blank_ok_def\<close>)
  have v: "mem ?v = mem ?b" "used_set ?v = used_set ?b" "mm_inv ?v" "asid_used ?v = asid_used ?b" "asid_inv ?v"
    using C(1) I sys_invD(2,3) [OF B(1)] by (simp_all add: frame_simps boot_tasks_def)
  show "used_set ?v = {..<256}" "asid_used ?v = {}" using v B(3,4) by simp_all
  show "task_state.more ?v = task_state.more u" by (simp add: frame_simps)
  show "kernel_ok R ?v"
    by (rule sys_inv_step [OF B(1)]) (use v B(2) st in \<open>auto simp: started_def keeps_pages_def\<close>)
qed

lemma kernel_init_spec:
  assumes b: "blank_kernel s" and t: "kernel_init 0x40100000 sample_layout typer freq (c, s) = (c1, t)"
  shows "c1 = mm_enable_mmu sample_layout c" "kernel_ok R t" "started t" "used_set t = {..<256}" "asid_used t = {}" "sched_ok t"
    "device t = device (timer_init 0 freq (irq_init typer (boot_mm s)))" "futex_ok t (\<lambda>_. [])" "ep_used t = {}"
    "length (endpoints t) = MAX_ENDPOINTS"
proof -
  define u where "u = timer_init 0 freq (irq_init typer (boot_mm s))"
  define v where "v = task_init (cap_init u)"
  define w where "w = wq_pool_init (ipc_init (sched_init v))"
  have t': "c1 = mm_enable_mmu sample_layout c" "t = futex_init (sleep_init w)"
    using t by (simp_all add: kernel_init_def Let_def u_def v_def w_def boot_mm_def)
  show "c1 = mm_enable_mmu sample_layout c" by (rule t')
  have "core u = core (boot_mm s)" by (simp only: u_def irq_frame)
  note V = tasks_start [OF b this, folded v_def]
  have core: "core t = core v" by (simp only: t'(2) w_def late_frame)
  note C = coreD [OF core] and I = core_inv [OF core]
  show "kernel_ok R t"
    by (rule sys_inv_step [OF V(1)]) (use C I sys_invD [OF V(1)] in \<open>auto simp: keeps_pages_def\<close>)
  show "started t" "used_set t = {..<256}" "asid_used t = {}" using V I by simp_all
  have more: "pools v = pools u" "device v = device u" "regs v = regs u" "ttbr0 v = ttbr0 u" by (rule above_task [OF V(5)])+
  show "device t = device (timer_init 0 freq (irq_init typer (boot_mm s)))"
    using more(2) by (simp only: t'(2) w_def late_frame u_def)
  have "pools u = pools (boot_mm s)" by (simp only: u_def irq_frame)
  also have "\<dots> = pools s" by (rule above_mm(1) [OF boot_mm_spec(4)])
  finally have pools: "pools v = pools s" using more(1) by simp
  have "regs v = regs s" "ttbr0 v = ttbr0 s"
    using more(3,4) coreD(11,12) [OF \<open>core u = core (boot_mm s)\<close>] above_mm(3,4) [OF boot_mm_spec(4), of s] by simp_all
  then show "sched_ok t"
    using C V(2) b by (auto simp: sched_ok_def started_def blank_kernel_def MAX_TASKS_def)
  show "futex_ok t (\<lambda>_. [])" "ep_used t = {}" "length (endpoints t) = MAX_ENDPOINTS"
  proof -
    define x where "x = ipc_init (sched_init v)"
    have v: "length (endpoints (sched_init v)) = MAX_ENDPOINTS" "length (wq_pool (sched_init v)) = WQ_POOL_SIZE"
      "\<forall>k. whead (sched_init v) (Futex_wq k) = - 1" "length (ftable (sched_init v)) = FUTEX_MAX"
      using pools b by (simp_all add: sched_init_def blank_kernel_def)
    note X = ipc_init_spec [OF v(1), folded x_def]
    have w: "sleep_init w = boot_wq x" by (simp add: w_def x_def boot_wq_def)
    have q: "wq_inv (\<lambda>_. []) (boot_wq x)" "waiting (\<lambda>_. []) (boot_wq x) = (\<lambda>_. [])"
      by (rule boot_wq_inv; use v X in simp)+
    have "tasks (boot_wq x) = tasks v" using coreD(8) [of "boot_wq x" v] by (simp only: boot_wq_def x_def late_frame)
    then have "lines_of (boot_wq x) (\<lambda>_. [])" using q sys_invD(4) [OF V(1)] unfolding lines_of_def by metis
    then show "futex_ok t (\<lambda>_. [])"
      unfolding t'(2) w using v(4) X(5) by (intro futex_init_ok(1)) (simp_all add: boot_wq_def wait_init_frame)
    show "ep_used t = {}" "length (endpoints t) = MAX_ENDPOINTS"
      using X(1,2) by (simp_all add: t'(2) w_def x_def wait_init_frame ep_used_def)
  qed
qed

section \<open>The first tasks\<close>

text \<open>With few pages in use there is room for a task: every run of four pages is blocked by a page of its own.\<close>

lemma room_for_task:
  fixes s :: "'a mm_state_scheme"
  assumes "used_set s \<subseteq> {..<MAX_PAGES}" "card (used_set s) \<le> 1000"
  shows "\<not> no_room s"
proof -
  have fin: "finite (used_set s)" using assms(1) finite_subset by blast
  have "\<exists>r. free_run (\<lambda>i. i \<notin> insert root (used_set s)) 4 r" for root
  proof (rule ccontr)
    assume no: "\<nexists>r. free_run (\<lambda>i. i \<notin> insert root (used_set s)) 4 r"
    let ?U = "insert root (used_set s)"
    have "k \<in> (\<lambda>u. u div 4) ` ?U" if k: "k < 8192" for k
    proof -
      have "\<not> free_run (\<lambda>i. i \<notin> ?U) 4 (4 * k)" using no by blast
      then obtain i where "4 * k \<le> i" "i < 4 * k + 4" "i \<in> ?U" using k by (auto simp: free_run_def MAX_PAGES_def)
      moreover from this have "i div 4 = k" by (simp add: div_nat_eqI)
      ultimately show ?thesis by blast
    qed
    then have "{..<8192} \<subseteq> (\<lambda>u. u div 4) ` ?U" by auto
    then have "card {..<8192 :: nat} \<le> card ?U" using fin by (meson card_image_le card_mono finite_imageI finite_insert le_trans)
    also have "\<dots> \<le> 1001" using assms(2) fin by (simp add: card_insert_if)
    finally show False by simp
  qed
  moreover have "used_set s \<noteq> {..<MAX_PAGES}"
  proof
    assume "used_set s = {..<MAX_PAGES}"
    then have "card (used_set s) = MAX_PAGES" by (simp only: card_lessThan)
    then show False using assms(2) by (simp add: MAX_PAGES_def)
  qed
  ultimately show ?thesis by (auto simp: no_room_def)
qed

text \<open>Task \<open>i\<close> starts at \<open>es ! i\<close>, through the trampoline, when it is first chosen; there are no other tasks.\<close>

definition tasks_ready :: "u64 \<Rightarrow> u64 list \<Rightarrow> 'a task_state_scheme \<Rightarrow> bool" where
  "tasks_ready tr es s \<longleftrightarrow> (\<forall>i<MAX_TASKS.
     if i < length es then status s i = TASK_READY \<and> x19 (ctx (tasks s ! i)) = es ! i \<and> x30 (ctx (tasks s ! i)) = tr
     else status s i = TASK_DEAD)"

lemma create_next:
  fixes s :: ipc_state
  assumes ok: "kernel_ok R s" "sched_ok s" and ready: "tasks_ready tr es s" "length es < MAX_TASKS" and room: "card (used_set s) \<le> 900"
  obtains R' s' where "task_create sample_layout tr name st s = (int (length es), s')" "kernel_ok R' s'" "sched_ok s'"
    "tasks_ready tr (es @ [st]) s'" "card (used_set s') \<le> card (used_set s) + 5" "percpu s' = percpu s"
    "task_state.more s' = task_state.more s" "num_tasks s' = num_tasks s + 1"
proof (cases rule: task_create_cases [OF sys_invD(5) [OF ok(1)], of tr name st])
  case 1
  then show ?thesis using ready by (auto simp: tasks_ready_def)
next
  case (2 i s')
  have "used_set s \<subseteq> {..<MAX_PAGES}" by (auto simp: used_set_def)
  then show ?thesis using 2(3) room_for_task [of s] room by simp
next
  case (3 i root n b s')
  note d = 3(2) [unfolded create_done_def]
  have i: "i = length es"
  proof (rule ccontr)
    assume "i \<noteq> length es"
    then show False
    proof (cases i "length es" rule: linorder_cases)
      case less
      then show ?thesis using ready d by (auto simp: tasks_ready_def)
    next
      case greater
      then have "live s (length es)" using d by blast
      then show ?thesis using ready by (simp add: tasks_ready_def)
    qed (use \<open>i \<noteq> length es\<close> in simp)
  qed
  have "finite (used_set s)" by (rule finite_subset [of _ "{..<MAX_PAGES}"]) (auto simp: used_set_def)
  have "used_set s' = insert root (used_set s) \<union> {b..<b + 4}" using d by blast
  then have "card (used_set s') \<le> card (insert root (used_set s)) + card {b..<b + 4}" by (simp only: card_Un_le)
  also have "\<dots> \<le> card (used_set s) + 5" using \<open>finite (used_set s)\<close> by (simp add: card_insert_if)
  finally have card: "card (used_set s') \<le> card (used_set s) + 5" .
  have len: "length (tasks s) = MAX_TASKS" by (rule sys_invD(4) [OF ok(1)])
  have more: "task_state.more s' = task_state.more s" "percpu s' = percpu s" "num_tasks s' = num_tasks s + 1" using d by blast+
  have ts: "tasks s' = (tasks s)[i := created_task tr name st root n b (tasks s ! i)]" using d by blast
  have "tasks_ready tr (es @ [st]) s'"
    unfolding tasks_ready_def
  proof (intro allI impI)
    fix j assume j: "j < MAX_TASKS"
    show "if j < length (es @ [st]) then status s' j = TASK_READY \<and> x19 (ctx (tasks s' ! j)) = (es @ [st]) ! j \<and> x30 (ctx (tasks s' ! j)) = tr
      else status s' j = TASK_DEAD"
      using ready(1) j len by (cases "j = i") (auto simp: ts i tasks_ready_def created_task_def initial_context_def nth_append)
  qed
  moreover have "sched_ok s'" using ok(2) above_task(3,4) [OF more(1)] more(2) ts by (simp add: sched_ok_def)
  ultimately show ?thesis using that [OF _ sys_inv_create_done [OF ok(1) 3(2)]] 3(1) i card more by simp
qed

lemma kernel_tasks_spec:
  fixes s :: ipc_state
  assumes ok: "kernel_ok R s" "sched_ok s" "started s" "card (used_set s) \<le> 800"
  obtains R' where "kernel_ok R' (kernel_tasks sample_layout e s)" "sched_ok (kernel_tasks sample_layout e s)"
    "tasks_ready (task_trampoline e) [linux_compat_server_at e, init_task_at e, gui_main_at e] (kernel_tasks sample_layout e s)"
    "percpu (kernel_tasks sample_layout e s) = percpu s" "task_state.more (kernel_tasks sample_layout e s) = task_state.more s"
    "num_tasks (kernel_tasks sample_layout e s) = 3"
proof -
  let ?tr = "task_trampoline e" and ?a = "linux_compat_server_at e" and ?b = "init_task_at e" and ?c = "gui_main_at e"
  have ready: "tasks_ready ?tr [] s" "length ([] :: u64 list) < MAX_TASKS" "card (used_set s) \<le> 900"
    using ok(3,4) by (simp_all add: tasks_ready_def started_def) (simp_all add: MAX_TASKS_def)
  obtain R1 s1 where 1: "task_create sample_layout ?tr ''linux-compat'' ?a s = (int (length ([] :: u64 list)), s1)" "kernel_ok R1 s1" "sched_ok s1"
    "tasks_ready ?tr ([] @ [?a]) s1" "card (used_set s1) \<le> card (used_set s) + 5" "percpu s1 = percpu s" "task_state.more s1 = task_state.more s"
    "num_tasks s1 = num_tasks s + 1"
    by (rule create_next [OF ok(1,2) ready])
  have "length ([] @ [?a]) < MAX_TASKS" "card (used_set s1) \<le> 900" using 1(5) ok(4) by (simp_all add: MAX_TASKS_def)
  then obtain R2 s2 where 2: "task_create sample_layout ?tr ''init'' ?b s1 = (int (length ([] @ [?a])), s2)" "kernel_ok R2 s2" "sched_ok s2"
    "tasks_ready ?tr (([] @ [?a]) @ [?b]) s2" "card (used_set s2) \<le> card (used_set s1) + 5" "percpu s2 = percpu s1"
    "task_state.more s2 = task_state.more s1" "num_tasks s2 = num_tasks s1 + 1"
    by (rule create_next [OF 1(2,3,4)])
  have "length (([] @ [?a]) @ [?b]) < MAX_TASKS" "card (used_set s2) \<le> 900" using 1(5) 2(5) ok(4) by (simp_all add: MAX_TASKS_def)
  then obtain R3 s3 where 3: "task_create sample_layout ?tr ''gui'' ?c s2 = (int (length (([] @ [?a]) @ [?b])), s3)" "kernel_ok R3 s3" "sched_ok s3"
    "tasks_ready ?tr ((([] @ [?a]) @ [?b]) @ [?c]) s3" "card (used_set s3) \<le> card (used_set s2) + 5" "percpu s3 = percpu s2"
    "task_state.more s3 = task_state.more s2" "num_tasks s3 = num_tasks s2 + 1"
    by (rule create_next [OF 2(2,3,4)])
  have t: "kernel_tasks sample_layout e s = s3" using 1(1) 2(1) 3(1) by (simp add: kernel_tasks_def Let_def)
  have "num_tasks s = 0" using ok(3) by (simp add: started_def)
  then have n: "num_tasks s3 = 3" using 1(8) 2(8) 3(8) by simp
  have "percpu s3 = percpu s" "task_state.more s3 = task_state.more s" using 1(6,7) 2(6,7) 3(6,7) by simp_all
  then show thesis using that [of R3] 3(2,3,4) n unfolding t by simp
qed

section \<open>The other CPUs\<close>

text \<open>What \<^verbatim>\<open>smp_init\<close> leaves alone: everything but pages that were free and the stacks of the CPUs.\<close>

definition same_kernel :: "ipc_state \<Rightarrow> ipc_state \<Rightarrow> bool" where
  "same_kernel s t \<longleftrightarrow> tasks t = tasks s \<and> percpu t = percpu s \<and> num_tasks t = num_tasks s \<and> regs t = regs s \<and> ttbr0 t = ttbr0 s \<and>
     pools t = pools s \<and> (gic_trace t, irq_handlers t, cntv_tval t, cntv_ctl t) = (gic_trace s, irq_handlers s, cntv_tval s, cntv_ctl s)"

lemma same_kernel_mm: "mm_state.more t = mm_state.more s \<Longrightarrow> same_kernel s t"
  unfolding same_kernel_def using above_mm [of t s] by simp

lemma same_kernel_trans: "same_kernel s t \<Longrightarrow> same_kernel t u \<Longrightarrow> same_kernel s u"
  by (simp add: same_kernel_def)

lemma sys_inv_pages:
  fixes s t :: "'a task_state_scheme"
  assumes "sys_inv L kow k R s" "tasks t = tasks s" "num_tasks t = num_tasks s" "asid_used t = asid_used s" "asid_inv t = asid_inv s"
    "used_set s \<subseteq> used_set t" "keeps_pages s t" "mm_inv t"
  shows "sys_inv L kow k R t"
  by (rule sys_inv_step [OF assms(1)]) (use assms sys_invD [OF assms(1)] in auto)

lemma boot_cpu_keeps:
  fixes s :: ipc_state
  assumes inv: "kernel_ok R s"
  shows "kernel_ok R (boot_cpu psci pc k s) \<and> same_kernel s (boot_cpu psci pc k s)"
proof -
  obtain a s1 where al: "pages_alloc 16 s = (a, s1)" by fastforce
  show ?thesis
  proof (cases "a = 0")
    case True
    then have "boot_cpu psci pc k s = s" using al pages_alloc_failed [of 16 s s1] by (simp add: boot_cpu_def)
    then show ?thesis using inv by (simp add: same_kernel_def)
  next
    case False
    have 16: "unat (16 :: u64) = 16" by simp
    obtain r where r: "a = page_addr r" "r + 16 \<le> MAX_PAGES" "{r..<r + 16} \<inter> used_set s = {}" "used_set s1 = used_set s \<union> {r..<r + 16}"
      "mm_inv s1" "mm_state.more s1 = mm_state.more s"
      and ent: "\<And>p i. p < MAX_PAGES \<Longrightarrow> i < 512 \<Longrightarrow> entry s1 p i = (if p \<in> {r..<r + 16} then 0 else entry s p i)"
      by (rule pages_alloc_result [OF sys_invD(2) [OF inv] al False, unfolded 16]) blast
    define s2 where "s2 = s1\<lparr>secondary_stacks := (secondary_stacks s1)[k := a + 16 * PAGE_SIZE]\<rparr>"
    have 2: "tasks s2 = tasks s1" "num_tasks s2 = num_tasks s1" "asid_used s2 = asid_used s1" "asid_inv s2 = asid_inv s1" "mem s2 = mem s1"
      "used_set s2 = used_set s1" "mm_inv s2" "same_kernel s1 s2"
      using r(5) by (simp_all add: s2_def asid_used_def asid_inv_def asid_free_bit_def same_kernel_def)
    have keep: "keeps_pages s s2" using ent r(3) 2(5) unfolding keeps_pages_def used_set_def by auto
    note A = asid_same_more [OF r(6)] and M = above_mm [OF r(6)]
    have same: "same_kernel s s2" using same_kernel_trans [OF same_kernel_mm [OF r(6)] 2(8)] .
    show ?thesis
    proof (cases "psci_cpu_on psci (of_nat k) pc (of_nat k) = 0")
      case True
      then have b: "boot_cpu psci pc k s = s2" using al False by (simp add: boot_cpu_def Let_def s2_def)
      have "kernel_ok R s2" by (rule sys_inv_pages [OF inv]) (use 2 A M r(4) keep in auto)
      then show ?thesis using same b by simp
    next
      case refused: False
      then have b: "boot_cpu psci pc k s = pages_free (page_addr r) 16 s2" using al False r(1) by (simp add: boot_cpu_def Let_def s2_def)
      have g: "gives_back {r..<r + 16} s2 (boot_cpu psci pc k s)"
        using pages_free_gives_back [OF 2(7), of r 16] r(2) unfolding b 16 by blast
      note G = g [unfolded gives_back_def]
      have more: "mm_state.more (boot_cpu psci pc k s) = mm_state.more s2" using G by blast
      have "keeps_pages s (boot_cpu psci pc k s)" using keep G by (simp add: keeps_pages_def)
      moreover have "used_set s \<subseteq> used_set (boot_cpu psci pc k s)" using G 2(6) r(3,4) by auto
      ultimately have "kernel_ok R (boot_cpu psci pc k s)"
        using G 2 A M above_mm [OF more] asid_same_more [OF more] by (intro sys_inv_pages [OF inv]) auto
      then show ?thesis using same_kernel_trans [OF same same_kernel_mm [OF more]] by blast
    qed
  qed
qed

lemma smp_init_keeps:
  fixes s :: ipc_state
  assumes "kernel_ok R s"
  shows "kernel_ok R (smp_init psci pc n s)" "same_kernel s (smp_init psci pc n s)"
proof -
  define m where "m = (if n \<le> 1 \<or> n > int MAX_CPUS then 1 else nat n)"
  have m: "1 \<le> m" by (auto simp: m_def)
  have "kernel_ok R (for_loop 1 m (boot_cpu psci pc) s) \<and> same_kernel s (for_loop 1 m (boot_cpu psci pc) s)"
  proof (rule for_loop_inv [where P = "\<lambda>_ t. kernel_ok R t \<and> same_kernel s t"])
    show "kernel_ok R (boot_cpu psci pc j t) \<and> same_kernel s (boot_cpu psci pc j t)" if "kernel_ok R t \<and> same_kernel s t" for j t
      using boot_cpu_keeps that same_kernel_trans by blast
  qed (use assms m in \<open>simp_all add: same_kernel_def\<close>)
  then show "kernel_ok R (smp_init psci pc n s)" "same_kernel s (smp_init psci pc n s)" by (simp_all add: smp_init_def Let_def m_def)
qed

section \<open>The kernel starts\<close>

lemma futex_ok_same:
  fixes s t :: ipc_state
  assumes "futex_ok s W" "pools t = pools s" "length (tasks t) = MAX_TASKS"
  shows "futex_ok t W"
proof -
  have "wq_inv Q t = wq_inv Q s" "waiting Q t = waiting Q s" for Q using assms(2) by (simp_all add: wq_inv_def waiting_def fun_eq_iff)
  then show ?thesis using assms by (simp add: futex_ok_def lines_of_def)
qed

text \<open>The scheduler looks at task 1 first, as the search begins behind the number of the idle CPU's last task, 0.\<close>

lemma first_choice:
  fixes s :: "'a sched_state_scheme"
  assumes "\<forall>i<3. is_ready i s" "cur_of s c = - 1"
  shows "chosen c s = Some 1"
proof -
  have "is_ready 1 s" using assms(1) by simp
  then obtain n where n: "find_next 0 s = Some n" using find_next_None [of 0 s] by (cases "find_next 0 s") auto
  have "ahead 0 n \<le> ahead 0 1" using find_next_Some(2) [OF n \<open>is_ready 1 s\<close>] .
  moreover have "n < MAX_TASKS" using find_next_Some(1) [OF n] by (simp add: is_ready_iff)
  ultimately have "n = 1" by (simp add: ahead_def MAX_TASKS_def split: if_splits) presburger?
  then show ?thesis using n assms(2) by (simp add: chosen_def Let_def)
qed

lemma kernel_main_spec:
  assumes b: "blank_kernel s" and m: "kernel_main 0x40100000 sample_layout e typer freq psci (c, s) = (c', s')"
  shows "c' = mm_enable_mmu sample_layout c \<and> (\<exists>R. kernel_ok R s') \<and> sched_ok s' \<and> scheduler_running s' = 1 \<and> num_tasks s' = 3 \<and>
    tasks_ready (task_trampoline e) [linux_compat_server_at e, init_task_at e, gui_main_at e] s' \<and> (\<forall>c<MAX_CPUS. cur_of s' c = - 1) \<and>
    futex_ok s' (\<lambda>_. []) \<and> ep_used s' = {} \<and> (\<forall>L<unat (num_irqs_of typer). line_enabled L (gic_trace s') \<longleftrightarrow> L \<in> {0, 27}) \<and>
    cntv_tval s' ! 0 = freq div 100 \<and> cntv_ctl s' ! 0 = 1"
proof -
  obtain c1 t where t: "kernel_init 0x40100000 sample_layout typer freq (c, s) = (c1, t)" by fastforce
  note K = kernel_init_spec [OF b t]
  have "card (used_set t) \<le> 800" by (simp add: K(4))
  from kernel_tasks_spec [OF K(2,6,3) this, of e] obtain R where
    T: "kernel_ok R (kernel_tasks sample_layout e t)" "sched_ok (kernel_tasks sample_layout e t)"
      "tasks_ready (task_trampoline e) [linux_compat_server_at e, init_task_at e, gui_main_at e] (kernel_tasks sample_layout e t)"
      "percpu (kernel_tasks sample_layout e t) = percpu t" "task_state.more (kernel_tasks sample_layout e t) = task_state.more t"
      "num_tasks (kernel_tasks sample_layout e t) = 3" by metis
  let ?t = "kernel_tasks sample_layout e t"
  define u where "u = smp_init psci (secondary_start_at e) (int MAX_CPUS) ?t"
  have U: "kernel_ok R u" "same_kernel ?t u" unfolding u_def using smp_init_keeps [OF T(1)] by blast+
  note same = U(2) [unfolded same_kernel_def]
  have s': "c' = c1" "s' = sched_start_enter u" using m t by (simp_all add: kernel_main_def Let_def u_def)
  have S: "tasks s' = tasks u" "percpu s' = percpu u" "num_tasks s' = num_tasks u" "regs s' = regs u" "ttbr0 s' = ttbr0 u" "pools s' = pools u"
    "gic_trace s' = gic_trace u" "cntv_tval s' = cntv_tval u" "cntv_ctl s' = cntv_ctl u" "scheduler_running s' = 1" "core s' = core u"
    unfolding s'(2) by (simp_all add: sched_start_enter_def task_state.defs)
  have "kernel_ok R s'"
    by (rule sys_inv_step [OF U(1)]) (use coreD [OF S(11)] core_inv [OF S(11)] sys_invD [OF U(1)] in \<open>auto simp: keeps_pages_def\<close>)
  moreover have ok: "sched_ok s'" using T(2) same S by (simp add: sched_ok_def)
  moreover have ready: "tasks_ready (task_trampoline e) [linux_compat_server_at e, init_task_at e, gui_main_at e] s'"
    using T(3) same S(1) by (simp add: tasks_ready_def)
  moreover have "num_tasks s' = 3" using T(6) same S(3) by simp
  moreover have idle: "\<forall>c<MAX_CPUS. cur_of s' c = - 1" using K(3) T(4) same S(2) by (simp add: started_def)
  moreover have pools: "pools s' = pools t" using S(6) same above_task(1) [OF T(5)] by simp
  moreover have "futex_ok s' (\<lambda>_. [])" by (rule futex_ok_same [OF K(8) pools]) (use ok in \<open>simp add: sched_ok_def\<close>)
  moreover have "ep_used s' = {}" using K(9) pools by (simp add: ep_used_def)
  moreover have dev: "gic_trace s' = gic_trace (timer_init 0 freq (irq_init typer (boot_mm s)))"
    "cntv_tval s' = cntv_tval (timer_init 0 freq (irq_init typer (boot_mm s)))" "cntv_ctl s' = cntv_ctl (timer_init 0 freq (irq_init typer (boot_mm s)))"
    using S(7-9) same above_task(2) [OF T(5)] K(7) by simp_all
  moreover have "(\<forall>L<unat (num_irqs_of typer). line_enabled L (gic_trace s') \<longleftrightarrow> L \<in> {0, 27}) \<and> cntv_tval s' ! 0 = freq div 100 \<and> cntv_ctl s' ! 0 = 1"
  proof -
    have "length (irq_handlers (boot_mm s)) = MAX_IRQ" "length (cntv_tval (boot_mm s)) = MAX_CPUS" "length (cntv_ctl (boot_mm s)) = MAX_CPUS"
      using b above_mm(2) [OF boot_mm_spec(4), of s] by (simp_all add: blank_kernel_def)
    from timer_interrupt_setup [OF this, of freq typer] show ?thesis unfolding dev by (simp add: Let_def)
  qed
  ultimately show ?thesis using K(1) s'(1) S(10) by blast
qed


lemma kernel_blank_sizes: "blank_kernel kernel_blank"
  using kernel_blank_ok
  by (simp add: blank_kernel_def) (simp add: kernel_blank_def sched_machine_def sched_state.defs wq_state.defs irq_state.defs futex_state.defs
      WQ_POOL_SIZE_def FUTEX_MAX_def MAX_ENDPOINTS_def MAX_IRQ_def MAX_CPUS_def)


section \<open>The first task\<close>

text \<open>
  The demonstration of \<^verbatim>\<open>init_task\<close>: the page it allocates is free again, the capability it looks up is the one
  it made, over 1024 pages of RAM, and with a free place in the table it makes one endpoint.
\<close>

theorem init_task_demo:
  assumes "mm_inv s" "cap_inv s" "cap_used s \<noteq> {..<CAP_POOL_SIZE}" "length (endpoints s) = MAX_ENDPOINTS" "ep_used s \<noteq> {..<MAX_ENDPOINTS}"
    and "init_task s = ((mem_cap, found, p, ep), s')"
  shows "used_set s' = used_set s \<and> found \<noteq> None \<and> object (the found) = Cap_mem RAM_BASE 1024 \<and> cap_used s' = insert (nat mem_cap) (cap_used s) \<and>
    nat mem_cap \<notin> cap_used s \<and> ep_used s' = insert (nat ep) (ep_used s) \<and> nat ep \<notin> ep_used s"
proof (cases rule: cap_alloc_cases [OF assms(2), of "\<lparr>ctype = CAP_MEMORY, refcount = 0, object = Cap_mem RAM_BASE 1024\<rparr>"])
  case 1
  then show ?thesis using assms(3) by simp
next
  case ok: (2 i s1)
  obtain a s2 where al: "page_alloc s1 = (a, s2)" by fastforce
  obtain n s4 where ep: "ipc_endpoint_create (page_free a s2) = (n, s4)" by fastforce
  have init: "init_task s = ((int i, cap_lookup (int i) s1, a, n), s4)"
    using ok(1) al ep by (simp add: init_task_def cap_create_memory_def Let_def)
  have lookup: "cap_lookup (int i) s1 = Some \<lparr>ctype = CAP_MEMORY, refcount = 1, object = Cap_mem RAM_BASE 1024\<rparr>"
    using fun_cong [OF ok(7), of "int i"] by (simp add: cap_view_def)
  have v: "used_set s1 = used_set s" "mm_inv s1" "endpoints s1 = endpoints s"
  proof -
    obtain x y where "s1 = s\<lparr>cap_pool_used := x, cap_pool := y\<rparr>"
      using ok(1) ok(2) by (auto simp: cap_alloc_def split: option.splits)
    then show "used_set s1 = used_set s" "mm_inv s1" "endpoints s1 = endpoints s"
      using assms(1) by (simp_all add: used_set_def bitmap_test_def mm_inv_def)
  qed
  have f: "used_set (page_free a s2) = used_set s" "mm_state.more (page_free a s2) = mm_state.more s1"
  proof -
    have "used_set (page_free a s2) = used_set s1 \<and> mm_state.more (page_free a s2) = mm_state.more s1"
    proof (cases "a = 0")
      case True
      then show ?thesis using al page_alloc_fail [of s1 s2] by (simp add: page_free_def)
    next
      case False
      then obtain j where j: "j < MAX_PAGES" "a = page_addr j" "j \<notin> used_set s1" "used_set s2 = insert j (used_set s1)" "mm_inv s2"
        "mm_state.more s2 = mm_state.more s1"
        using page_alloc_result [OF v(2) al] by metis
      then show ?thesis by (simp add: page_free_page_addr used_set_release mm_inv_length frame_simps)
    qed
    then show "used_set (page_free a s2) = used_set s" "mm_state.more (page_free a s2) = mm_state.more s1" using v(1) by simp_all
  qed
  have fields: "endpoints (page_free a s2) = endpoints s" "cap_used (page_free a s2) = cap_used s1"
    using above_mm(1,8) [OF f(2)] v(3) by (simp_all add: cap_used_def)
  have E: "ep_used (page_free a s2) = ep_used s" "length (endpoints (page_free a s2)) = MAX_ENDPOINTS"
    using fields(1) assms(4) by (simp_all add: ep_used_def)
  have slot: "ep_slot (page_free a s2) = (if n < 0 then None else Some (nat n), s4)" using ep by (simp add: ep_slot_def)
  have "\<not> n < 0"
  proof
    assume "n < 0"
    then have "ep_used (page_free a s2) = {..<MAX_ENDPOINTS}" using eps.alloc_None [OF E(2), of s4] slot by simp
    then show False using assms(5) E(1) by simp
  qed
  then obtain m where "n = int m" by (metis nat_0_le not_le)
  then have k: "n = int m" "ep_used s4 = insert m (ep_used s)" "m \<notin> ep_used s"
    using eps.alloc_Some [OF E(2), of m s4] E(1) slot by simp_all
  have rest: "used_set s4 = used_set (page_free a s2)" "cap_used s4 = cap_used (page_free a s2)"
    using ep by (auto simp: ipc_endpoint_create_def used_set_def bitmap_test_def cap_used_def upd_ep_def split: option.splits)
  show ?thesis
    using assms(6) init [unfolded lookup] k ok(3,5) f(1) fields(2) rest by auto
qed

end
