(* ===== verification/Kernel_Run.thy ===== *)
theory Kernel_Run
  imports Boot
begin

text \<open>
  The running kernel: after \<^verbatim>\<open>kernel_main\<close> the CPUs execute, in any order, system calls, timer interrupts, switches
  and the calls that kernel tasks make. Each is one step on the composed state, the futex waits included (what
  happens in the gap between their two locks is the subject of the theory \<open>Futex\<close>). The theory shows that every state
  that can be reached keeps the invariants of the components, and that no step gets stuck.
\<close>

section \<open>Steps\<close>

datatype kernel_event =
  Tick nat
| Resched nat
| Call nat u64 u64 u64 u64 u64
| Recv_again nat
| Sleep nat u64
| Fwait nat u64 u32 u32 u32
| Fwait_timeout nat u64 u32 u32 u32 u64
| Fwait_again nat
| Fwake u64 int
| Ep_create
| Ep_destroy int
| Create u64 string u64
| Destroy int
| Exit nat

definition futex_state :: "'s futex_result option \<Rightarrow> 's option" where
  "futex_state r = map_option (\<lambda>f. case f of Futex_done _ s \<Rightarrow> s | Futex_blocked _ _ s \<Rightarrow> s) r"

fun happens :: "pt_layout \<Rightarrow> kernel_event \<Rightarrow> ipc_state \<Rightarrow> ipc_state option" where
  "happens L (Tick c) s = timer_handler c s"
| "happens L (Resched c) s = Some (sched_yield c s)"
| "happens L (Call c num a0 a1 a2 a3) s = Some (sys_state (syscall_handler c num a0 a1 a2 a3 s))"
| "happens L (Recv_again i) s = Some (snd (sys_recv_resume i s))"
| "happens L (Sleep c n) s = waited_state (sleep_ticks c n s)"
| "happens L (Fwait c addr v1 v2 x) s = futex_state (futex_wait c addr v1 v2 x s)"
| "happens L (Fwait_timeout c addr v1 v2 x n) s = futex_state (futex_wait_timeout c addr v1 v2 x n s)"
| "happens L (Fwait_again slot) s = Some (snd (futex_wait_resume slot s))"
| "happens L (Fwake addr n) s = Some (snd (futex_wake addr n s))"
| "happens L Ep_create s = Some (snd (ipc_endpoint_create s))"
| "happens L (Ep_destroy i) s = Some (ipc_endpoint_destroy i s)"
| "happens L (Create tr name st) s = Some (snd (task_create L tr name st s))"
| "happens L (Destroy i) s = Some (task_destroy i s)"
| "happens L (Exit c) s = Some (schedule c (task_exit_handler c s))"

text \<open>A step takes place on an existing CPU; only a live task can exit. The exit system call is left out.\<close>

fun enabled :: "kernel_event \<Rightarrow> ipc_state \<Rightarrow> bool" where
  "enabled (Tick c) s \<longleftrightarrow> c < MAX_CPUS"
| "enabled (Resched c) s \<longleftrightarrow> c < MAX_CPUS"
| "enabled (Call c num a0 a1 a2 a3) s \<longleftrightarrow> c < MAX_CPUS \<and> num \<noteq> SYS_EXIT"
| "enabled (Sleep c n) s \<longleftrightarrow> c < MAX_CPUS"
| "enabled (Fwait c addr v1 v2 x) s \<longleftrightarrow> c < MAX_CPUS"
| "enabled (Fwait_timeout c addr v1 v2 x n) s \<longleftrightarrow> c < MAX_CPUS"
| "enabled (Exit c) s \<longleftrightarrow> c < MAX_CPUS \<and> 0 \<le> task_current_id c s \<and> live s (nat (task_current_id c s))"
| "enabled e s \<longleftrightarrow> True"

inductive kernel_reaches :: "pt_layout \<Rightarrow> ipc_state \<Rightarrow> ipc_state \<Rightarrow> bool" for L s where
  start: "kernel_reaches L s s"
| step: "kernel_reaches L s t \<Longrightarrow> enabled e t \<Longrightarrow> happens L e t = Some u \<Longrightarrow> kernel_reaches L s u"

section \<open>The invariant\<close>

definition queues_ok :: "'a futex_state_scheme \<Rightarrow> bool" where
  "queues_ok s \<longleftrightarrow> (\<exists>Q. wq_inv Q s) \<and> length (ftable s) = FUTEX_MAX \<and>
     (\<forall>i<FUTEX_MAX. \<not> factive (ftable s ! i) \<longrightarrow> whead s (Futex_wq i) < 0)"

definition kernel_inv :: "ipc_state \<Rightarrow> bool" where
  "kernel_inv s \<longleftrightarrow> (\<exists>R. kernel_ok R s) \<and> sched_ok s \<and> queues_ok s"

lemma kernel_invD:
  assumes "kernel_inv s"
  shows "\<exists>R. kernel_ok R s" "sched_ok s" "queues_ok s" "length (tasks s) = MAX_TASKS" "\<exists>Q. wq_inv Q s"
    "length (ftable s) = FUTEX_MAX" "i < FUTEX_MAX \<Longrightarrow> \<not> factive (ftable s ! i) \<Longrightarrow> whead s (Futex_wq i) < 0"
  using assms by (auto simp: kernel_inv_def queues_ok_def sched_ok_def)

abbreviation queue_part :: "'a futex_state_scheme \<Rightarrow> wq_entry list \<times> (wq_ref \<Rightarrow> int) \<times> futex_slot list" where
  "queue_part s \<equiv> (wq_pool s, whead s, ftable s)"

lemma queues_ok_cong: "queue_part t = queue_part s \<Longrightarrow> queues_ok t = queues_ok s"
  by (simp add: queues_ok_def wq_inv_def)

lemma queue_part_more: "task_state.more t = task_state.more s \<Longrightarrow> queue_part t = queue_part (s :: ipc_state)"
  "sched_state.more t = sched_state.more s \<Longrightarrow> queue_part t = queue_part s"
  by (cases s; cases t; simp)+

text \<open>What a step shows to keep the invariant.\<close>

lemma kernel_invI:
  assumes "kernel_inv s" "keeps_isolation s t" "sched_ok t" "queues_ok t"
  shows "kernel_inv t"
  using assms unfolding kernel_inv_def keeps_isolation_def by blast

lemma kernel_inv_quiet:
  assumes "kernel_inv s" "keeps_isolation s t" "sched_ok s \<Longrightarrow> sched_ok t" "queue_part t = queue_part s"
  shows "kernel_inv t"
  by (rule kernel_invI [OF assms(1,2)]) (use assms(1,3) queues_ok_cong [OF assms(4)] in \<open>simp_all add: kernel_inv_def\<close>)

lemma keeps_isolation_fields:
  fixes s t :: "'a task_state_scheme"
  assumes "mem t = mem s" "page_bitmap t = page_bitmap s" "total_pages t = total_pages s" "used_pages t = used_pages s"
    "asid_bitmap t = asid_bitmap s" "num_tasks t = num_tasks s" "length (tasks t) = length (tasks s)"
    and "\<And>j. j < MAX_TASKS \<Longrightarrow> (status t j = TASK_DEAD) = (status s j = TASK_DEAD) \<and>
          tas (tasks t ! j) = tas (tasks s ! j) \<and> stack_base (tasks t ! j) = stack_base (tasks s ! j)"
  shows "keeps_isolation s t"
  by (rule keeps_isolationI)
    (use assms in \<open>simp_all add: mm_inv_def used_set_def bitmap_test_def asid_used_def asid_free_bit_def asid_inv_def\<close>)

lemma kernel_inv_core:
  fixes s t :: ipc_state
  assumes "kernel_inv s" "core t = core s" "queue_part t = queue_part s"
  shows "kernel_inv t"
  by (rule kernel_inv_quiet [OF assms(1) keeps_isolation_fields _ assms(3)]) (use coreD [OF assms(2)] in \<open>simp_all add: sched_ok_def\<close>)

text \<open>What is below the task table, the task counter, and what is above the wait queues.\<close>

definition low :: "'a wq_state_scheme \<Rightarrow> memory \<times> u64 list \<times> u64 \<times> u64 \<times> u8 list \<times> int \<times> 'a" where
  "low s = (mem s, page_bitmap s, total_pages s, used_pages s, asid_bitmap s, num_tasks s, wq_state.more s)"

lemma keeps_isolation_low:
  assumes "low t = low s" "length (tasks t) = length (tasks s)"
    and "\<And>j. j < MAX_TASKS \<Longrightarrow> (status t j = TASK_DEAD) = (status s j = TASK_DEAD) \<and>
          tas (tasks t ! j) = tas (tasks s ! j) \<and> stack_base (tasks t ! j) = stack_base (tasks s ! j)"
  shows "keeps_isolation s t"
  by (rule keeps_isolation_fields) (use assms in \<open>simp_all add: low_def\<close>)

lemma low_ftable: "low t = low s \<Longrightarrow> ftable t = ftable (s :: ipc_state)"
  by (cases s; cases t; simp add: low_def)

subsection \<open>Frames of the wait queues\<close>

named_theorems low_frame

lemma low_prims [low_frame]:
  "low (upd_entry i f s) = low s" "low (set_head q h s) = low s" "low (upd_task j g s) = low s" "low (gic_write a v s) = low s"
  "low (upd_cpu c k s) = low s"
  by (simp_all add: low_def upd_entry_def set_head_def upd_task_def gic_write_def upd_cpu_def)

lemma low_wq [low_frame]:
  "low (wake_task r t s) = low s" "low (pool_free i s) = low s" "low (block_task t s) = low s" "low (snd (pool_alloc s)) = low s"
  by (simp_all add: wake_task_def pool_free_def block_task_def pool_alloc_def low_frame split: option.split)

lemma low_wake_one [low_frame]: "low (wq_wake_one q s) = low s"
  by (simp add: wq_wake_one_def dequeue_wake_def Let_def smp_send_reschedule_def low_frame)

lemma low_option [low_frame]:
  "queue_append q i s = Some t \<Longrightarrow> low t = low s" "queue_remove q i s = Some t \<Longrightarrow> low t = low s"
  "enqueue_current q k n j s = Some t \<Longrightarrow> low t = low s"
proof -
  show a: "low t = low s" if "queue_append q i s = Some t" for s t :: "'a wq_state_scheme" and i
    using that by (auto simp: queue_append_def Let_def low_frame split: if_splits option.splits)
  show "queue_remove q i s = Some t \<Longrightarrow> low t = low s"
    by (auto simp: queue_remove_def Let_def low_frame split: if_splits option.splits)
  show "enqueue_current q k n j s = Some t \<Longrightarrow> low t = low s"
    by (auto simp: enqueue_current_def low_frame dest!: a split: option.splits)
qed

lemma low_tick_entry: "wq_tick_entry now i s = Some t \<Longrightarrow> low t = low s"
  by (auto simp: wq_tick_entry_def Let_def low_frame split: if_splits option.splits dest!: low_option(2))

lemma low_wq_tick:
  fixes s t :: "'a wq_state_scheme"
  assumes t: "wq_tick s = Some t"
  shows "low t = low s"
proof -
  let ?P = "\<lambda>(_ :: nat) (r :: 'a wq_state_scheme option). case r of None \<Rightarrow> True | Some u \<Rightarrow> low u = low s"
  have "?P WQ_POOL_SIZE (wq_tick s)"
    unfolding wq_tick_def Let_def
  proof (rule for_loop_inv [where P = ?P])
    fix j r assume r: "?P j r"
    show "?P (Suc j) (case r of None \<Rightarrow> None | Some u \<Rightarrow> wq_tick_entry (timer_get_ticks s) j u)"
    proof (cases r)
      case (Some u)
      then show ?thesis using r low_tick_entry [of _ j u] by (simp split: option.split)
    qed simp
  qed simp_all
  then show "low t = low s" using t by simp
qed

subsection \<open>Switches and messages\<close>

lemma kernel_inv_schedule: "kernel_inv s \<Longrightarrow> c < MAX_CPUS \<Longrightarrow> kernel_inv (schedule c s)"
  by (rule kernel_inv_quiet [OF _ keeps_isolation_schedule [OF kernel_invD(2)] sched_ok_schedule [OF kernel_invD(2)]
        queue_part_more(2) [OF schedule_more]])

lemma kernel_inv_cpu_flag:
  assumes "kernel_inv s" "\<And>p. current_task_id (f p) = current_task_id p"
  shows "kernel_inv (upd_cpu c f s)"
proof (rule kernel_inv_quiet [OF assms(1)])
  show "keeps_isolation s (upd_cpu c f s)" by (rule keeps_isolation_low) (simp_all add: low_frame)
  show "sched_ok (upd_cpu c f s)" if "sched_ok s"
  proof -
    have "cur_of (upd_cpu c f s) d = cur_of s d" for d
      using assms(2) by (cases "d = c \<and> c < length (percpu s)") (auto simp: upd_cpu_def list_update_beyond)
    then show ?thesis using that by (simp add: sched_ok_def upd_cpu_def)
  qed
qed (simp add: upd_cpu_def)

lemma kernel_inv_yield: "kernel_inv s \<Longrightarrow> c < MAX_CPUS \<Longrightarrow> kernel_inv (sched_yield c s)"
  unfolding sched_yield_def by (intro kernel_inv_schedule kernel_inv_cpu_flag) simp_all

lemma kernel_inv_set_status:
  assumes "kernel_inv s" "st \<noteq> TASK_DEAD"
  shows "kernel_inv (set_status t st s)"
proof (rule kernel_inv_quiet [OF assms(1)])
  show "keeps_isolation s (set_status t st s)"
    using kernel_invD(4) [OF assms(1)] assms(2) by (intro keeps_isolation_set_status) simp_all
  show "queue_part (set_status t st s) = queue_part s" by (simp add: set_status_def upd_task_def split: option.split)
qed simp

lemma kernel_inv_upd_ep: "kernel_inv s \<Longrightarrow> kernel_inv (upd_ep i f s)"
  by (rule kernel_inv_quiet [OF _ keeps_isolation_upd_ep]) (simp_all add: upd_ep_def sched_ok_def)

lemma kernel_inv_caps: "kernel_inv s \<Longrightarrow> kernel_inv (snd (cap_alloc x s))" "kernel_inv s \<Longrightarrow> kernel_inv (snd (cap_destroy i s))"
  by (rule kernel_inv_quiet [OF _ keeps_isolation_caps(1)]; simp add: cap_alloc_def sched_ok_def split: option.split)
    (rule kernel_inv_quiet [OF _ keeps_isolation_caps(2)]; simp add: cap_destroy_def Let_def sched_ok_def)

lemma kernel_inv_page_alloc:
  assumes "kernel_inv s"
  shows "kernel_inv (snd (page_alloc s))"
proof (rule kernel_inv_quiet [OF assms keeps_isolation_page_alloc])
  obtain a t where t: "page_alloc s = (a, t)" by fastforce
  have "mm_state.more t = mm_state.more s"
  proof (cases "a = 0")
    case True
    then show ?thesis using page_alloc_fail [of s t] t by simp
  next
    case False
    obtain R where "kernel_ok R s" using kernel_invD(1) [OF assms] by blast
    from page_alloc_result [OF sys_invD(2) [OF this] t False] show ?thesis by blast
  qed
  note above = above_mm [OF this]
  show "queue_part (snd (page_alloc s)) = queue_part s" "sched_ok s \<Longrightarrow> sched_ok (snd (page_alloc s))"
    using above t by (simp_all add: sched_ok_def)
qed

subsection \<open>Waking\<close>

lemma kernel_inv_woken:
  assumes inv: "kernel_inv s" "wq_inv Q s" and t: "wq_inv Q' t" "\<And>q. Q q = [] \<Longrightarrow> Q' q = []" "woken r X s t" "same_cpus s t" "low t = low s"
  shows "kernel_inv t"
proof (rule kernel_invI [OF inv(1)])
  show "keeps_isolation s t" by (rule keeps_isolation_low [OF t(5)]) (use t(3) in \<open>simp_all add: woken_def\<close>)
  show "sched_ok t" using woken_sched_ok [OF t(3,4)] kernel_invD(2) [OF inv(1)] by simp
  have "whead t q < 0" if "whead s q < 0" for q using that wq_invD(9) [OF inv(2), of q] wq_invD(9) [OF t(1), of q] t(2) by blast
  then show "queues_ok t" using kernel_invD(6,7) [OF inv(1)] t(1) low_ftable [OF t(5)] unfolding queues_ok_def by auto
qed

lemma kernel_inv_wake_one:
  assumes "kernel_inv s"
  shows "kernel_inv (wq_wake_one q s)"
proof -
  obtain Q where Q: "wq_inv Q s" using kernel_invD(5) [OF assms] by blast
  show ?thesis
  proof (cases "Q q")
    case Nil
    then show ?thesis using wq_invD(9) [OF Q, of q] assms by (simp add: wq_wake_one_def)
  next
    case (Cons i xs)
    note W = wake_one_spec [where s = s and Q = Q, OF Q kernel_invD(4) [OF assms] Cons]
    show ?thesis by (rule kernel_inv_woken [OF assms Q W(1) _ W(3,4) low_wake_one]) (use Cons in \<open>auto split: if_splits\<close>)
  qed
qed

lemma timer_handler_inv:
  assumes "kernel_inv s" "c < MAX_CPUS"
  shows "\<exists>t. timer_handler c s = Some t \<and> kernel_inv t"
proof -
  have rearm: "kernel_inv (rearm c t)" if "kernel_inv t" for t
  proof -
    have "kernel_inv (upd_cpu c (\<lambda>p. p\<lparr>reschedule_needed := 1\<rparr>) t)" using kernel_inv_cpu_flag [OF that] by simp
    then show ?thesis
      unfolding rearm_def Let_def by (rule kernel_inv_core) (simp_all add: task_state.defs)
  qed
  let ?s = "s\<lparr>tick_count := tick_count s + 1\<rparr>"
  have s: "kernel_inv ?s" by (rule kernel_inv_core [OF assms(1)]) (simp_all add: task_state.defs)
  obtain Q where Q: "wq_inv Q ?s" using kernel_invD(5) [OF s] by blast
  obtain Q' t where t: "wq_tick ?s = Some t" "wq_inv Q' t"
    "waiting Q' t = (\<lambda>q. filter (\<lambda>(t, tmo). tmo = 0 \<or> tick_count ?s < tmo) (waiting Q ?s q))"
    "woken (- 1) {t. \<exists>q tmo. (t, tmo) \<in> set (waiting Q ?s q) \<and> tmo \<noteq> 0 \<and> tmo \<le> tick_count ?s} ?s t" "same_cpus ?s t"
    by (rule wq_tick_waiting [OF Q kernel_invD(4) [OF s]])
  have "Q' q = []" if "Q q = []" for q
    using fun_cong [OF t(3), of q] that by (simp add: waiting_def)
  from kernel_inv_woken [OF s Q t(2) this t(4,5) low_wq_tick [OF t(1)]] have "kernel_inv t" .
  then show ?thesis using rearm [of t] rearm [OF assms(1)] t(1) by (cases "c = 0") (simp_all add: timer_handler_rearm)
qed

subsection \<open>Waiting\<close>

text \<open>A queue that may be waited on: the one of the sleepers, and those of the futexes in use.\<close>

definition open_queue :: "wq_ref \<Rightarrow> ipc_state \<Rightarrow> bool" where
  "open_queue q s \<longleftrightarrow> (\<forall>i<FUTEX_MAX. q = Futex_wq i \<longrightarrow> factive (ftable s ! i))"

lemma kernel_inv_blocked:
  assumes inv: "kernel_inv s" "open_queue q s" and room: "card (wq_used s) < WQ_POOL_SIZE"
  obtains i s2 where "pool_alloc s = (int i, upd_entry i (\<lambda>e. e\<lparr>in_use := True, wnext := - 1\<rparr>) s)"
    "enqueue_current q t tmo i (upd_entry i (\<lambda>e. e\<lparr>in_use := True, wnext := - 1\<rparr>) s) = Some s2" "kernel_inv s2"
proof -
  obtain Q where Q: "wq_inv Q s" using kernel_invD(5) [OF inv(1)] by blast
  obtain i s1 where e: "pool_alloc s = (int i, upd_entry i (\<lambda>e. e\<lparr>in_use := True, wnext := - 1\<rparr>) s)"
    "enqueue_current q t tmo i (upd_entry i (\<lambda>e. e\<lparr>in_use := True, wnext := - 1\<rparr>) s) = Some (block_task t s1)"
    "wq_inv (Q(q := Q q @ [i])) s1" "same_tasks s s1"
    using enqueue_waiting [OF Q room, of q t tmo] by metis
  note same = same_tasksD [OF e(4)]
  have low: "low (block_task t s1) = low s" using low_option(3) [OF e(2)] by (simp add: low_frame)
  have len: "length (tasks s1) = MAX_TASKS" using same kernel_invD(4) [OF inv(1)] by simp
  have "kernel_inv (block_task t s1)"
  proof (rule kernel_invI [OF inv(1)])
    show "keeps_isolation s (block_task t s1)"
      by (rule keeps_isolation_low [OF low]) (use same len in \<open>auto simp: block_task_nth\<close>)
    show "sched_ok (block_task t s1)" using same_tasks_sched_ok [OF e(4)] kernel_invD(2) [OF inv(1)] by simp
    have "wq_inv (Q(q := Q q @ [i])) (block_task t s1)" using e(3) wq_inv_cong [of "block_task t s1" s1] by simp
    moreover from wq_invD(9) [OF this] wq_invD(9) [OF Q]
    have "whead (block_task t s1) r < 0" if "whead s r < 0" "r \<noteq> q" for r using that by auto
    ultimately show "queues_ok (block_task t s1)"
      using kernel_invD(6,7) [OF inv(1)] low_ftable [OF low] inv(2) unfolding queues_ok_def open_queue_def by metis
  qed
  then show thesis using that e(1,2) by blast
qed

lemma wait_inv:
  assumes "kernel_inv s" "c < MAX_CPUS" "open_queue q s"
  shows "\<exists>w. wq_wait c q s = Some w \<and> (\<forall>t. waited_state (Some w) = Some t \<longrightarrow> kernel_inv t)"
    and "\<exists>w. wq_wait_timeout c q n s = Some w \<and> (\<forall>t. waited_state (Some w) = Some t \<longrightarrow> kernel_inv t)"
proof -
  have "(\<exists>w. wq_wait c q s = Some w \<and> (\<forall>t. waited_state (Some w) = Some t \<longrightarrow> kernel_inv t)) \<and>
    (\<exists>w. wq_wait_timeout c q n s = Some w \<and> (\<forall>t. waited_state (Some w) = Some t \<longrightarrow> kernel_inv t))"
  proof (cases "task_current_id c s < 0 \<or> \<not> card (wq_used s) < WQ_POOL_SIZE")
    case True
    then have "wq_wait c q s = Some (Returned 0 s)" "wq_wait_timeout c q n s = Some (Returned (- 1) s)"
      using wait_full [of s] by (auto simp: wq_wait_def wq_wait_timeout_def Let_def)
    then show ?thesis using assms(1) by (simp add: waited_state_def)
  next
    case False
    then have room: "card (wq_used s) < WQ_POOL_SIZE" by simp
    obtain i s1 where 1: "pool_alloc s = (int i, upd_entry i (\<lambda>e. e\<lparr>in_use := True, wnext := - 1\<rparr>) s)"
      "enqueue_current q (task_current_id c s) 0 i (upd_entry i (\<lambda>e. e\<lparr>in_use := True, wnext := - 1\<rparr>) s) = Some s1" "kernel_inv s1"
      by (rule kernel_inv_blocked [OF assms(1,3) room])
    obtain j s2 where 2: "pool_alloc s = (int j, upd_entry j (\<lambda>e. e\<lparr>in_use := True, wnext := - 1\<rparr>) s)"
      "enqueue_current q (task_current_id c s) (tick_count s + n) j (upd_entry j (\<lambda>e. e\<lparr>in_use := True, wnext := - 1\<rparr>) s) = Some s2"
      "kernel_inv s2"
      by (rule kernel_inv_blocked [OF assms(1,3) room])
    have "wq_wait c q s = Some (Gave_up (task_current_id c s) (schedule c s1))" using False 1 by (simp add: wq_wait_def Let_def)
    moreover have "wq_wait_timeout c q n s = Some (Gave_up (task_current_id c s) (schedule c s2))"
      using False 2 by (simp add: wq_wait_timeout_def Let_def timer_get_ticks_def)
    ultimately show ?thesis using kernel_inv_schedule [OF _ assms(2)] 1(3) 2(3) by (simp add: waited_state_def)
  qed
  then show "\<exists>w. wq_wait c q s = Some w \<and> (\<forall>t. waited_state (Some w) = Some t \<longrightarrow> kernel_inv t)"
    "\<exists>w. wq_wait_timeout c q n s = Some w \<and> (\<forall>t. waited_state (Some w) = Some t \<longrightarrow> kernel_inv t)" by blast+
qed

subsection \<open>Futexes\<close>

lemma kernel_inv_slots:
  assumes "kernel_inv s" and t: "core t = core s" "wq_pool t = wq_pool s" "\<And>q. whead s q < 0 \<longleftrightarrow> whead t q < 0"
      "\<And>q. 0 \<le> whead s q \<Longrightarrow> whead t q = whead s q" "length (ftable t) = FUTEX_MAX"
      "\<And>i. i < FUTEX_MAX \<Longrightarrow> \<not> factive (ftable t ! i) \<Longrightarrow> whead s (Futex_wq i) < 0"
  shows "kernel_inv t"
proof (rule kernel_invI [OF assms(1)])
  show "keeps_isolation s t" by (rule keeps_isolation_fields) (use coreD [OF t(1)] in simp_all)
  show "sched_ok t" using kernel_invD(2) [OF assms(1)] coreD [OF t(1)] by (simp add: sched_ok_def)
  obtain Q where Q: "wq_inv Q s" using kernel_invD(5) [OF assms(1)] by blast
  have "chain (wq_pool s) (whead t q) (Q q)" for q
  proof (cases "whead s q < 0")
    case True
    then have "Q q = []" "whead t q < 0" using wq_invD(9) [OF Q, of q] t(3) [of q] by blast+
    then show ?thesis by simp
  next
    case False
    then have "whead t q = whead s q" using t(4) [of q] by (simp only: not_less)
    then show ?thesis using wq_invD(2) [OF Q, of q] by (simp only:)
  qed
  then have "wq_inv Q t" using Q t(2) by (simp add: wq_inv_def)
  then show "queues_ok t" using t(3,5,6) by (auto simp: queues_ok_def)
qed

lemma find_slot_inv:
  assumes inv: "kernel_inv s" and f: "find_slot addr create s = (n, t)"
  shows "kernel_inv t \<and> (0 \<le> n \<longrightarrow> open_queue (Futex_wq (nat n)) t)"
proof (cases "slot_of (ftable s) addr")
  case (Some i)
  then have "n = int i" "t = s" "factive (ftable s ! i)"
    using f by (simp_all add: find_slot_eq) (simp add: slot_of_def first_idx_Some)
  then show ?thesis using inv by (simp add: open_queue_def)
next
  case None
  show ?thesis
  proof (cases "create \<and> (\<exists>j. free_slot_of (ftable s) = Some j)")
    case True
    then obtain j where j: "free_slot_of (ftable s) = Some j" by blast
    then have t: "n = int j" "t = wq_init (Futex_wq j) (upd_slot j (\<lambda>f. f\<lparr>faddr := addr, factive := True\<rparr>) s)" "j < FUTEX_MAX" "\<not> factive (ftable s ! j)"
      using f None True by (simp_all add: find_slot_eq) (simp_all add: free_slot_of_def first_idx_Some)
    note K = kernel_invD(6,7) [OF inv]
    have h: "whead s (Futex_wq j) < 0" "whead t = (whead s)(Futex_wq j := - 1)" "wq_pool t = wq_pool s"
      "ftable t = (ftable s)[j := (ftable s ! j)\<lparr>faddr := addr, factive := True\<rparr>]"
      using K(2) [OF t(3,4)] by (simp_all add: t(2) wq_init_def set_head_def upd_slot_def)
    have core: "core t = core s" unfolding t(2) by (simp only: boot_frame)
    have "kernel_inv t"
    proof (rule kernel_inv_slots [OF inv core h(3)])
      show "whead s q < 0 \<longleftrightarrow> whead t q < 0" for q using h(1,2) by simp
      show "whead t q = whead s q" if "0 \<le> whead s q" for q using that h(1,2) by auto
      show "length (ftable t) = FUTEX_MAX" using h(4) K(1) by simp
      show "whead s (Futex_wq i) < 0" if "i < FUTEX_MAX" "\<not> factive (ftable t ! i)" for i
        using that h(1,4) K by (cases "i = j") simp_all
    qed
    then show ?thesis using t(1,3) h(4) K(1) by (simp add: open_queue_def)
  next
    case False
    then have "n = - 1" "t = s" using f None by (auto simp: find_slot_eq split: option.splits)
    then show ?thesis using inv by simp
  qed
qed

lemma maybe_free_slot_inv: "kernel_inv s \<Longrightarrow> kernel_inv (maybe_free_slot slot s)"
proof -
  assume inv: "kernel_inv s"
  have "kernel_inv (upd_slot slot (\<lambda>f. f\<lparr>factive := False\<rparr>) s)" if "whead s (Futex_wq slot) < 0"
    by (rule kernel_inv_slots [OF inv])
      (use that kernel_invD(6,7) [OF inv] in \<open>simp_all only: boot_frame, simp_all add: upd_slot_def, metis nth_list_update_neq\<close>)
  then show ?thesis using inv by (simp add: maybe_free_slot_def)
qed

lemma futex_prepare_inv:
  assumes "kernel_inv s" and "futex_prepare addr v1 v2 x s = (n, t)"
  shows "kernel_inv t \<and> (0 \<le> n \<longrightarrow> open_queue (Futex_wq (nat n)) t)"
proof (cases "v1 \<noteq> x")
  case False
  obtain m u where f: "find_slot addr True s = (m, u)" by fastforce
  note F = find_slot_inv [OF assms(1) f]
  show ?thesis
    using assms(2) f False F maybe_free_slot_inv [of u "nat m"] by (auto simp: futex_prepare_def split: if_splits)
qed (use assms in \<open>simp add: futex_prepare_def\<close>)

lemma futex_block_inv:
  assumes "w = Some x" "\<And>t. waited_state (Some x) = Some t \<Longrightarrow> kernel_inv t"
  shows "\<exists>t. futex_state (futex_block slot w r) = Some t \<and> kernel_inv t"
  using assms by (cases x) (auto simp: futex_block_def futex_state_def futex_finish_def waited_state_def intro: maybe_free_slot_inv)

lemma futex_wait_inv:
  assumes "kernel_inv s" "c < MAX_CPUS"
  shows "\<exists>t. futex_state (futex_wait c addr v1 v2 x s) = Some t \<and> kernel_inv t"
    and "\<exists>t. futex_state (futex_wait_timeout c addr v1 v2 x n s) = Some t \<and> kernel_inv t"
proof -
  obtain m u where p: "futex_prepare addr v1 v2 x s = (m, u)" by fastforce
  note P = futex_prepare_inv [OF assms(1) p]
  show "\<exists>t. futex_state (futex_wait c addr v1 v2 x s) = Some t \<and> kernel_inv t"
  proof (cases "m < 0")
    case False
    then obtain w where "wq_wait c (Futex_wq (nat m)) u = Some w" "\<And>t. waited_state (Some w) = Some t \<Longrightarrow> kernel_inv t"
      using wait_inv(1) [OF _ assms(2), of u "Futex_wq (nat m)"] P by auto
    from futex_block_inv [OF this, of "nat m" "Some 0"] False p show ?thesis by (simp add: futex_wait_def)
  qed (use P p in \<open>simp add: futex_wait_def futex_state_def\<close>)
  show "\<exists>t. futex_state (futex_wait_timeout c addr v1 v2 x n s) = Some t \<and> kernel_inv t"
  proof (cases "m < 0")
    case False
    then obtain w where "wq_wait_timeout c (Futex_wq (nat m)) n u = Some w" "\<And>t. waited_state (Some w) = Some t \<Longrightarrow> kernel_inv t"
      using wait_inv(2) [OF _ assms(2), of u "Futex_wq (nat m)" n] P by auto
    from futex_block_inv [OF this, of "nat m" None] False p show ?thesis by (simp add: futex_wait_timeout_def)
  qed (use P p in \<open>simp add: futex_wait_timeout_def futex_state_def\<close>)
qed

lemma wake_loop_inv: "kernel_inv s \<Longrightarrow> kernel_inv (snd (wake_loop w n slot s))"
proof (induction w n slot s rule: wake_loop.induct)
  case (1 w n slot s)
  then show ?case
    using kernel_inv_wake_one [of s "Futex_wq slot"] by (subst wake_loop.simps) simp
qed

lemma futex_wake_inv:
  assumes "kernel_inv s"
  shows "kernel_inv (snd (futex_wake addr n s))"
proof -
  obtain m u where f: "find_slot addr False s = (m, u)" by fastforce
  have u: "kernel_inv u" using find_slot_inv [OF assms f] by blast
  then have "kernel_inv (maybe_free_slot (nat m) (snd (wake_loop 0 n (nat m) u)))" by (intro maybe_free_slot_inv wake_loop_inv)
  then show ?thesis using u f by (simp add: futex_wake_def case_prod_unfold)
qed

subsection \<open>Tasks\<close>

lemma kernel_inv_task:
  assumes "kernel_inv s" "kernel_ok R t" "length (tasks t) = MAX_TASKS" "percpu t = percpu s" "task_state.more t = task_state.more s"
  shows "kernel_inv t"
  using assms(1,2) queues_ok_cong [of t s] queue_part_more(1) [OF assms(5)] above_task(3,4) [OF assms(5)] assms(3,4)
  by (auto simp: kernel_inv_def sched_ok_def)

lemma task_create_inv:
  assumes "kernel_inv s"
  shows "kernel_inv (snd (task_create sample_layout tr name st s))"
proof -
  obtain R where R: "kernel_ok R s" using kernel_invD(1) [OF assms] by blast
  show ?thesis
  proof (cases rule: task_create_cases [OF sys_invD(5) [OF R], of tr name st])
    case 1
    then show ?thesis using assms by simp
  next
    case (2 i t)
    have t: "kernel_ok R t" by (rule sys_inv_create_failed [OF R 2(2)])
    show ?thesis using kernel_inv_task [OF assms t sys_invD(4) [OF t]] 2 by (simp add: create_failed_def)
  next
    case (3 i root n b t)
    note t = sys_inv_create_done [OF R 3(2)]
    show ?thesis using kernel_inv_task [OF assms t sys_invD(4) [OF t]] 3 by (simp add: create_done_def)
  qed
qed

lemma task_destroy_inv:
  assumes "kernel_inv s"
  shows "kernel_inv (task_destroy i s)"
proof (cases "0 \<le> i \<and> live s (nat i)")
  case True
  obtain R where R: "kernel_ok R s" using kernel_invD(1) [OF assms] by blast
  note I = sys_invD [OF R]
  have l: "live s (nat i)" using True by blast
  have g: "task_gone (nat i) (R (nat i)) s (task_destroy (int (nat i)) s)"
    by (rule task_destroy_gone [OF I(2,3) l I(6) [OF l] kernel_dom_used [OF I(1)]])
  note t = sys_inv_task_gone [OF R l g]
  show ?thesis using kernel_inv_task [OF assms t sys_invD(4) [OF t]] g True by (simp add: task_gone_def)
next
  case False
  show ?thesis using task_destroy_dead [OF False] assms by simp
qed

lemma task_exit_inv:
  assumes "kernel_inv s" "0 \<le> task_current_id c s" "live s (nat (task_current_id c s))"
  shows "kernel_inv (task_exit_handler c s)"
proof -
  obtain R where R: "kernel_ok R s" using kernel_invD(1) [OF assms(1)] by blast
  have t: "kernel_ok R (task_exit_handler c s)" using sys_inv_exit [OF R] assms(3) by (simp add: task_current_id_def)
  show ?thesis
    by (rule kernel_inv_task [OF assms(1) t sys_invD(4) [OF t]]) (simp_all add: task_exit_handler_def Let_def)
qed

subsection \<open>System calls\<close>

lemma ipc_inv:
  assumes "kernel_inv s" "c < MAX_CPUS"
  shows "kernel_inv (sys_state (sys_send c a0 a1 a2 a3 s))" "kernel_inv (sys_state (sys_recv c a0 s))"
    "kernel_inv (snd (sys_recv_resume i s))"
proof -
  note keep = kernel_inv_schedule [OF _ assms(2)] kernel_inv_set_status kernel_inv_upd_ep assms(1)
  show "kernel_inv (sys_state (sys_send c a0 a1 a2 a3 s))"
    by (simp add: sys_send_def ipc_send_def Let_def keep)
  show "kernel_inv (sys_state (sys_recv c a0 s))"
    by (simp add: sys_recv_def ipc_recv_def Let_def keep)
  show "kernel_inv (snd (sys_recv_resume i s))"
    by (simp add: sys_recv_resume_def ipc_recv_resume_def Let_def keep)
qed

lemma syscall_inv:
  assumes "kernel_inv s" "c < MAX_CPUS" "num \<noteq> SYS_EXIT"
  shows "kernel_inv (sys_state (syscall_handler c num a0 a1 a2 a3 s))"
proof -
  have cap: "kernel_inv (sys_state (case cap_alloc x s of (r, t) \<Rightarrow> Sys_ret (from_int r) t))"
    "kernel_inv (sys_state (case cap_destroy i s of (r, t) \<Rightarrow> Sys_ret (from_int r) t))"
    "kernel_inv (sys_state (case page_alloc s of (p, t) \<Rightarrow> Sys_ret p t))" for x i
    using kernel_inv_caps [OF assms(1)] kernel_inv_page_alloc [OF assms(1)] by (simp_all add: case_prod_unfold)
  have "kernel_inv (sys_state (sys_cap_create a0 a1 a2 s))" using cap(1) assms(1) by (simp add: sys_cap_create_def Let_def)
  then show ?thesis
    unfolding syscall_handler_def using cap ipc_inv [OF assms(1,2)] kernel_inv_yield [OF assms(1,2)] assms(1,3) by simp
qed

section \<open>Every run is safe\<close>

lemma happens_inv:
  assumes "kernel_inv s" "enabled e s"
  shows "\<exists>t. happens sample_layout e s = Some t \<and> kernel_inv t"
proof (cases e)
  case (Tick c) then show ?thesis using timer_handler_inv assms by simp
next
  case (Resched c) then show ?thesis using kernel_inv_yield assms by simp
next
  case (Call c num a0 a1 a2 a3) then show ?thesis using syscall_inv assms by simp
next
  case (Recv_again i) then show ?thesis using ipc_inv(3) [OF assms(1), of 0 i] by (simp add: MAX_CPUS_def)
next
  case (Sleep c n)
  have "open_queue Sleep_wq s" by (simp add: open_queue_def)
  then show ?thesis
    using wait_inv(2) [OF assms(1), of c Sleep_wq n] assms Sleep
    by (cases "n = 0") (auto simp: sleep_ticks_def waited_state_def)
next
  case (Fwait c addr v1 v2 x) then show ?thesis using futex_wait_inv(1) assms by simp
next
  case (Fwait_timeout c addr v1 v2 x n) then show ?thesis using futex_wait_inv(2) assms by simp
next
  case (Fwait_again slot)
  then show ?thesis using maybe_free_slot_inv [OF assms(1)] by (simp add: futex_wait_resume_def futex_finish_def)
next
  case (Fwake addr n) then show ?thesis using futex_wake_inv [OF assms(1)] by simp
next
  case Ep_create
  then show ?thesis using kernel_inv_upd_ep [OF assms(1)] assms(1) by (simp add: ipc_endpoint_create_def split: option.split)
next
  case (Ep_destroy i)
  then show ?thesis using kernel_inv_upd_ep [OF assms(1)] assms(1) by (simp add: ipc_endpoint_destroy_def)
next
  case (Create tr name st) then show ?thesis using task_create_inv [OF assms(1)] by simp
next
  case (Destroy i) then show ?thesis using task_destroy_inv [OF assms(1)] by simp
next
  case (Exit c)
  then show ?thesis using kernel_inv_schedule task_exit_inv [OF assms(1)] assms by simp
qed

lemma kernel_reaches_inv: "kernel_reaches sample_layout s t \<Longrightarrow> kernel_inv s \<Longrightarrow> kernel_inv t"
proof (induction rule: kernel_reaches.induct)
  case (step t e u)
  then show ?case using happens_inv [of t e] by simp
qed

lemma kernel_main_inv:
  assumes "blank_kernel s" and "kernel_main 0x40100000 sample_layout e typer freq psci (c, s) = (c', s')"
  shows "kernel_inv s'"
proof -
  note K = kernel_main_spec [OF assms]
  have f: "futex_ok s' (\<lambda>_. [])" using K by blast
  then obtain Q where Q: "wq_inv Q s'" "waiting Q s' = (\<lambda>_. [])" by (auto simp: futex_ok_def lines_of_def)
  have "Q q = []" for q using fun_cong [OF Q(2), of q] by (simp add: waiting_def)
  then have "whead s' q < 0" for q using wq_invD(9) [OF Q(1), of q] by simp
  then have "queues_ok s'" using Q(1) f by (auto simp: queues_ok_def futex_ok_def table_ok_def)
  then show ?thesis using K by (simp add: kernel_inv_def)
qed



end
