(* ===== verification/Spinlock.thy ===== *)
theory Spinlock
  imports Dragoon_Prelude
begin

text \<open>
  The ticket lock (\<^verbatim>\<open>kernel/spinlock.h\<close>) under every interleaving of any number of CPUs below
  \<open>2 ^ 32\<close>. A step is one memory access or one register access of one CPU: the exclusive load and
  store of the ticket counter, the load of \<^verbatim>\<open>owner\<close> in the spin loop, the load and the store of
  \<^verbatim>\<open>owner\<close> when unlocking, saving and restoring the interrupt mask. An exclusive store fails when
  another store to the counter came in between.
\<close>

section \<open>State and steps\<close>

text \<open>Where a CPU is: outside; between load and store of the ticket; spinning; inside; unlocking.\<close>

datatype pc = Out | Try | Loaded u32 | Spin u32 | Crit u32 | Release u32 | Restore

record cpu =
  at :: pc
  daif :: u64
  saved :: "u64 option"

record lock =
  owner :: u32
  nextt :: u32
  resv :: "nat \<Rightarrow> bool"
  cpus :: "nat \<Rightarrow> cpu"

definition spin_init :: "lock \<Rightarrow> lock" where
  "spin_init l = l\<lparr>owner := 0, nextt := 0\<rparr>"

datatype access = Lock | Lock_irqsave | Ldaxr | Stlxr | Poll | Unlock_load | Unlock_store | Irq_restore

definition upd_at :: "nat \<Rightarrow> (cpu \<Rightarrow> cpu) \<Rightarrow> lock \<Rightarrow> lock" where
  "upd_at i f l = l\<lparr>cpus := (cpus l)(i := f (cpus l i))\<rparr>"

text \<open>The calls: \<^verbatim>\<open>spin_lock\<close>, and \<^verbatim>\<open>spin_lock_irqsave\<close>, which saves and sets the interrupt mask first.\<close>

definition spin_lock_enter :: "nat \<Rightarrow> lock \<Rightarrow> lock option" where
  "spin_lock_enter i l = (if at (cpus l i) = Out then Some (upd_at i (\<lambda>c. c\<lparr>at := Try, saved := None\<rparr>) l) else None)"

definition spin_lock_irqsave_enter :: "nat \<Rightarrow> lock \<Rightarrow> lock option" where
  "spin_lock_irqsave_enter i l =
     (if at (cpus l i) = Out
      then Some (upd_at i (\<lambda>c. c\<lparr>saved := Some (daif c), daif := daif c OR push_bit 7 1, at := Try\<rparr>) l) else None)"

text \<open>The loop of \<^verbatim>\<open>ldaxr\<close>, \<^verbatim>\<open>add\<close>, \<^verbatim>\<open>stlxr\<close>, \<^verbatim>\<open>cbnz\<close>.\<close>

definition ldaxr :: "nat \<Rightarrow> lock \<Rightarrow> lock option" where
  "ldaxr i l =
     (if at (cpus l i) = Try
      then Some ((upd_at i (\<lambda>c. c\<lparr>at := Loaded (nextt l)\<rparr>) l)\<lparr>resv := (resv l)(i := True)\<rparr>) else None)"

definition stlxr :: "nat \<Rightarrow> lock \<Rightarrow> lock option" where
  "stlxr i l =
     (case at (cpus l i) of
        Loaded t \<Rightarrow>
          if resv l i
          then Some ((upd_at i (\<lambda>c. c\<lparr>at := Spin t\<rparr>) l)\<lparr>nextt := t + 1, resv := (\<lambda>_. False)\<rparr>)
          else Some (upd_at i (\<lambda>c. c\<lparr>at := Try\<rparr>) l)
      | _ \<Rightarrow> None)"

text \<open>One round of \<^verbatim>\<open>while (owner != ticket) wfe;\<close>.\<close>

definition poll :: "nat \<Rightarrow> lock \<Rightarrow> lock option" where
  "poll i l =
     (case at (cpus l i) of
        Spin t \<Rightarrow> Some (if owner l = t then upd_at i (\<lambda>c. c\<lparr>at := Crit t\<rparr>) l else l)
      | _ \<Rightarrow> None)"

text \<open>\<^verbatim>\<open>spin_unlock\<close>: load \<^verbatim>\<open>owner\<close>, store it plus one; then the mask, if it was saved.\<close>

definition unlock_load :: "nat \<Rightarrow> lock \<Rightarrow> lock option" where
  "unlock_load i l = (case at (cpus l i) of Crit t \<Rightarrow> Some (upd_at i (\<lambda>c. c\<lparr>at := Release (owner l)\<rparr>) l) | _ \<Rightarrow> None)"

definition unlock_store :: "nat \<Rightarrow> lock \<Rightarrow> lock option" where
  "unlock_store i l =
     (case at (cpus l i) of
        Release x \<Rightarrow> Some ((upd_at i (\<lambda>c. c\<lparr>at := (if saved c = None then Out else Restore)\<rparr>) l)\<lparr>owner := x + 1\<rparr>)
      | _ \<Rightarrow> None)"

definition irq_restore :: "nat \<Rightarrow> lock \<Rightarrow> lock option" where
  "irq_restore i l =
     (case (at (cpus l i), saved (cpus l i)) of
        (Restore, Some d) \<Rightarrow> Some (upd_at i (\<lambda>c. c\<lparr>daif := d, at := Out\<rparr>) l)
      | _ \<Rightarrow> None)"

fun perform :: "access \<Rightarrow> nat \<Rightarrow> lock \<Rightarrow> lock option" where
  "perform Lock i l = spin_lock_enter i l"
| "perform Lock_irqsave i l = spin_lock_irqsave_enter i l"
| "perform Ldaxr i l = ldaxr i l"
| "perform Stlxr i l = stlxr i l"
| "perform Poll i l = poll i l"
| "perform Unlock_load i l = unlock_load i l"
| "perform Unlock_store i l = unlock_store i l"
| "perform Irq_restore i l = irq_restore i l"

lemmas lock_defs = spin_lock_enter_def spin_lock_irqsave_enter_def ldaxr_def stlxr_def poll_def unlock_load_def unlock_store_def
  irq_restore_def upd_at_def

text \<open>The states that \<open>N\<close> CPUs can reach from an initialised lock that nobody uses.\<close>

inductive reach :: "nat \<Rightarrow> lock \<Rightarrow> bool" for N where
  start: "\<forall>i. at (cpus l i) = Out \<Longrightarrow> reach N (spin_init l)"
| step: "reach N l \<Longrightarrow> i < N \<Longrightarrow> perform a i l = Some l' \<Longrightarrow> reach N l'"

section \<open>The queue of tickets\<close>

fun ticket :: "pc \<Rightarrow> u32 option" where
  "ticket (Spin t) = Some t"
| "ticket (Crit t) = Some t"
| "ticket (Release t) = Some t"
| "ticket _ = None"

definition inside :: "lock \<Rightarrow> nat \<Rightarrow> bool" where
  "inside l i \<longleftrightarrow> (case at (cpus l i) of Crit _ \<Rightarrow> True | Release _ \<Rightarrow> True | _ \<Rightarrow> False)"

text \<open>
  \<open>q\<close> lists the CPUs that hold a ticket, in the order of their tickets, which are the numbers
  from \<^verbatim>\<open>owner\<close> on, modulo \<open>2 ^ 32\<close>; only the first can be inside.
\<close>

definition lock_inv :: "nat \<Rightarrow> nat list \<Rightarrow> lock \<Rightarrow> bool" where
  "lock_inv N q l \<longleftrightarrow> distinct q \<and> set q = {i. ticket (at (cpus l i)) \<noteq> None} \<and> set q \<subseteq> {..<N} \<and>
     nextt l = owner l + of_nat (length q) \<and>
     (\<forall>k<length q. ticket (at (cpus l (q ! k))) = Some (owner l + of_nat k)) \<and>
     (\<forall>i t. resv l i \<and> at (cpus l i) = Loaded t \<longrightarrow> t = nextt l) \<and>
     (\<forall>i. inside l i \<longrightarrow> q \<noteq> [] \<and> hd q = i)"

lemma lock_invD:
  assumes "lock_inv N q l"
  shows "distinct q" "i \<in> set q \<longleftrightarrow> ticket (at (cpus l i)) \<noteq> None" "set q \<subseteq> {..<N}" "nextt l = owner l + of_nat (length q)"
    "k < length q \<Longrightarrow> ticket (at (cpus l (q ! k))) = Some (owner l + of_nat k)"
    "resv l i \<Longrightarrow> at (cpus l i) = Loaded t \<Longrightarrow> t = nextt l" "inside l i \<Longrightarrow> q \<noteq> [] \<and> hd q = i"
  using assms unfolding lock_inv_def by auto

lemma queue_length: "lock_inv N q l \<Longrightarrow> length q \<le> N"
  using card_mono [of "{..<N}" "set q"] lock_invD(1,3) [of N q l] by (simp add: distinct_card)

text \<open>What each access does to the queue.\<close>

fun queue_after :: "access \<Rightarrow> nat \<Rightarrow> lock \<Rightarrow> nat list \<Rightarrow> nat list" where
  "queue_after Stlxr i l q = (if resv l i then q @ [i] else q)"
| "queue_after Unlock_store i l q = tl q"
| "queue_after _ i l q = q"

lemma queue_kept:
  assumes inv: "lock_inv N q l" and same: "owner l' = owner l" "nextt l' = nextt l"
    and t: "\<And>j. ticket (at (cpus l' j)) = ticket (at (cpus l j))" and i: "\<And>j. inside l' j \<Longrightarrow> inside l j \<or> q \<noteq> [] \<and> hd q = j"
    and r: "\<And>j t. resv l' j \<Longrightarrow> at (cpus l' j) = Loaded t \<Longrightarrow> t = nextt l"
  shows "lock_inv N q l'"
  using inv i r unfolding lock_inv_def same t by blast

lemma head_ticket:
  assumes inv: "lock_inv N q l" and N: "N < 2 ^ 32" and t: "ticket (at (cpus l i)) = Some (owner l)"
  shows "q \<noteq> [] \<and> hd q = i"
proof -
  have "i \<in> set q" using t lock_invD(2) [OF inv, of i] by simp
  then obtain k where k: "k < length q" "q ! k = i" by (auto simp: in_set_conv_nth)
  then have "of_nat k = (0 :: u32)" using t lock_invD(5) [OF inv k(1)] by simp
  moreover have "k < 2 ^ 32" using k(1) queue_length [OF inv] N by simp
  ultimately have "k = 0" using unat_of_nat_small [of k, where ?'a = 32] by simp
  then show ?thesis using k by (auto simp: hd_conv_nth)
qed

lemma inside_owner:
  assumes inv: "lock_inv N q l" and "inside l i"
  shows "ticket (at (cpus l i)) = Some (owner l)" and "q = i # tl q"
proof -
  have q: "q \<noteq> []" "hd q = i" using lock_invD(7) [OF inv assms(2)] by simp_all
  then show "q = i # tl q" by (metis list.collapse)
  have "q ! 0 = i" using q by (simp add: hd_conv_nth)
  moreover have "0 < length q" using q(1) by simp
  ultimately show "ticket (at (cpus l i)) = Some (owner l)" using lock_invD(5) [OF inv, of 0] by simp
qed

lemma stlxr_inv:
  assumes inv: "lock_inv N q l" and i: "i < N" and at: "at (cpus l i) = Loaded t" and r: "resv l i"
  shows "lock_inv N (q @ [i]) ((upd_at i (\<lambda>c. c\<lparr>at := Spin t\<rparr>) l)\<lparr>nextt := t + 1, resv := (\<lambda>_. False)\<rparr>)"
proof -
  note I = lock_invD [OF inv]
  have t: "t = owner l + of_nat (length q)" using I(6) [OF r at] I(4) by simp
  have out: "i \<notin> set q" using I(2) [of i] at by simp
  then have ne: "k < length q \<Longrightarrow> q ! k \<noteq> i" for k using nth_mem by blast
  have inside: "q \<noteq> [] \<and> hd q = j" if "inside l j" for j by (rule I(7) [OF that])
  show ?thesis
    unfolding lock_inv_def
  proof (intro conjI allI impI)
    show "distinct (q @ [i])" using I(1) out by simp
    show "set (q @ [i]) \<subseteq> {..<N}" using I(3) i by simp
    fix k assume k: "k < length (q @ [i])"
    let ?l = "(upd_at i (\<lambda>c. c\<lparr>at := Spin t\<rparr>) l)\<lparr>nextt := t + 1, resv := (\<lambda>_. False)\<rparr>"
    show "ticket (at (cpus ?l ((q @ [i]) ! k))) = Some (owner ?l + of_nat k)"
      using k ne [of k] I(5) [of k] t by (cases "k < length q") (auto simp: upd_at_def nth_append less_Suc_eq)
  next
    fix j assume j: "inside ((upd_at i (\<lambda>c. c\<lparr>at := Spin t\<rparr>) l)\<lparr>nextt := t + 1, resv := (\<lambda>_. False)\<rparr>) j"
    then have "inside l j" by (cases "j = i") (simp_all add: inside_def upd_at_def)
    then show "q @ [i] \<noteq> []" "hd (q @ [i]) = j" using inside by auto
  qed (use I(2) t in \<open>auto simp: upd_at_def\<close>)
qed

lemma unlock_store_inv:
  assumes inv: "lock_inv N q l" and at: "at (cpus l i) = Release x" and new: "p = Out \<or> p = Restore"
  shows "lock_inv N (tl q) ((upd_at i (\<lambda>c. c\<lparr>at := p\<rparr>) l)\<lparr>owner := x + 1\<rparr>)"
proof -
  let ?l = "(upd_at i (\<lambda>c. c\<lparr>at := p\<rparr>) l)\<lparr>owner := x + 1\<rparr>"
  note I = lock_invD [OF inv]
  have ins: "inside l i" using at by (simp add: inside_def)
  have x: "x = owner l" and q: "q = i # tl q" using inside_owner [OF inv ins] at by simp_all
  obtain q' where q': "q = i # q'" using q by blast
  have out: "i \<notin> set q'" using I(1) q' by simp
  show ?thesis
    unfolding lock_inv_def
  proof (intro conjI allI impI)
    fix k assume k: "k < length (tl q)"
    then have "(tl q) ! k \<noteq> i" using out q' nth_mem [of k "tl q"] by auto
    then show "ticket (at (cpus ?l ((tl q) ! k))) = Some (owner ?l + of_nat k)"
      using I(5) [of "Suc k"] k q' x by (simp add: upd_at_def add.commute add.left_commute)
  next
    fix j assume "inside ?l j"
    then have "j \<noteq> i" "inside l j" using new by (auto simp: inside_def upd_at_def split: pc.splits if_splits)
    then show "tl q \<noteq> []" "hd (tl q) = j" using I(7) [of j] q' by auto
  next
    show "set (tl q) = {j. ticket (at (cpus ?l j)) \<noteq> None}"
      using I(2) q' out new by (auto simp: upd_at_def)
    show "t = nextt ?l" if "resv ?l j \<and> at (cpus ?l j) = Loaded t" for j t
      using that I(6) [of j t] at new by (auto simp: upd_at_def split: if_splits)
  qed (use I(1,3,4) q' x in \<open>auto simp: upd_at_def\<close>)
qed

lemma perform_inv:
  assumes inv: "lock_inv N q l" and N: "N < 2 ^ 32" and i: "i < N" and p: "perform a i l = Some l'"
  shows "lock_inv N (queue_after a i l q) l'"
proof -
  note I = lock_invD [OF inv]
  have keep: "lock_inv N q l'"
    if l': "l' = upd_at i f l \<or> l' = (upd_at i f l)\<lparr>resv := (resv l)(i := True)\<rparr>" and "ticket (at (f (cpus l i))) = ticket (at (cpus l i))"
      and "inside l' i \<longrightarrow> q \<noteq> [] \<and> hd q = i" and ld: "\<forall>t. at (f (cpus l i)) = Loaded t \<longrightarrow> t = nextt l" for f
  proof (rule queue_kept [OF inv])
    show "inside l j \<or> q \<noteq> [] \<and> hd q = j" if "inside l' j" for j
      using that l' \<open>inside l' i \<longrightarrow> _\<close> by (cases "j = i") (auto simp: inside_def upd_at_def)
    show "t = nextt l" if "resv l' j" "at (cpus l' j) = Loaded t" for j t
      using that l' ld I(6) [of j t] by (cases "j = i") (auto simp: upd_at_def)
  qed (use that in \<open>auto simp: upd_at_def\<close>)
  show ?thesis
  proof (cases a)
    case Lock
    then have "at (cpus l i) = Out" and l': "l' = upd_at i (\<lambda>c. c\<lparr>at := Try, saved := None\<rparr>) l"
      using p by (auto simp: spin_lock_enter_def split: if_splits)
    moreover have "\<not> inside l' i" by (simp add: l' inside_def upd_at_def)
    ultimately show ?thesis using keep [of "\<lambda>c. c\<lparr>at := Try, saved := None\<rparr>"] Lock by simp
  next
    case Lock_irqsave
    let ?f = "\<lambda>c. c\<lparr>saved := Some (daif c), daif := daif c OR push_bit 7 1, at := Try\<rparr>"
    from Lock_irqsave have "at (cpus l i) = Out" and l': "l' = upd_at i ?f l"
      using p by (auto simp: spin_lock_irqsave_enter_def split: if_splits)
    moreover have "\<not> inside l' i" by (simp add: l' inside_def upd_at_def)
    ultimately show ?thesis using keep [of ?f] Lock_irqsave by simp
  next
    case Ldaxr
    let ?f = "\<lambda>c. c\<lparr>at := Loaded (nextt l)\<rparr>"
    from Ldaxr have "at (cpus l i) = Try" and l': "l' = (upd_at i ?f l)\<lparr>resv := (resv l)(i := True)\<rparr>"
      using p by (auto simp: ldaxr_def split: if_splits)
    moreover have "\<not> inside l' i" by (simp add: l' inside_def upd_at_def)
    ultimately show ?thesis using keep [of ?f] Ldaxr by simp
  next
    case Stlxr
    then obtain t where t: "at (cpus l i) = Loaded t" using p by (auto simp: stlxr_def split: pc.splits)
    show ?thesis
    proof (cases "resv l i")
      case True
      then show ?thesis using Stlxr p t stlxr_inv [OF inv i t True] by (simp add: stlxr_def)
    next
      case False
      then have l': "l' = upd_at i (\<lambda>c. c\<lparr>at := Try\<rparr>) l" using Stlxr p t by (simp add: stlxr_def)
      then have "\<not> inside l' i" by (simp add: inside_def upd_at_def)
      then show ?thesis using keep [of "\<lambda>c. c\<lparr>at := Try\<rparr>"] l' t Stlxr False by simp
    qed
  next
    case Poll
    then obtain t where t: "at (cpus l i) = Spin t" using p by (auto simp: poll_def split: pc.splits)
    show ?thesis
    proof (cases "owner l = t")
      case True
      then have "q \<noteq> [] \<and> hd q = i" using head_ticket [OF inv N, of i] t by simp
      moreover have "l' = upd_at i (\<lambda>c. c\<lparr>at := Crit t\<rparr>) l" using Poll p t True by (simp add: poll_def)
      ultimately show ?thesis using keep [of "\<lambda>c. c\<lparr>at := Crit t\<rparr>"] t Poll by simp
    next
      case False
      then show ?thesis using Poll p t inv by (simp add: poll_def)
    qed
  next
    case Unlock_load
    then obtain t where t: "at (cpus l i) = Crit t" using p by (auto simp: unlock_load_def split: pc.splits)
    let ?f = "\<lambda>c. c\<lparr>at := Release (owner l)\<rparr>"
    have ins: "inside l i" using t by (simp add: inside_def)
    have "l' = upd_at i ?f l" using Unlock_load p t by (simp add: unlock_load_def)
    moreover have "t = owner l" using inside_owner(1) [OF inv ins] t by simp
    ultimately show ?thesis using keep [of ?f] t I(7) [OF ins] Unlock_load by simp
  next
    case Unlock_store
    then obtain x where x: "at (cpus l i) = Release x" using p by (auto simp: unlock_store_def split: pc.splits)
    show ?thesis
      using Unlock_store p x unlock_store_inv [OF inv x, of "if saved (cpus l i) = None then Out else Restore"]
      by (simp add: unlock_store_def upd_at_def split: if_splits)
  next
    case Irq_restore
    then obtain d where "at (cpus l i) = Restore" and l': "l' = upd_at i (\<lambda>c. c\<lparr>daif := d, at := Out\<rparr>) l"
      using p by (auto simp: irq_restore_def split: pc.splits option.splits)
    moreover have "\<not> inside l' i" by (simp add: l' inside_def upd_at_def)
    ultimately show ?thesis using keep [of "\<lambda>c. c\<lparr>daif := d, at := Out\<rparr>"] Irq_restore by simp
  qed
qed

lemma reach_inv:
  assumes "reach N l" and N: "N < 2 ^ 32"
  shows "\<exists>q. lock_inv N q l"
  using assms(1)
proof induction
  case (start l)
  then have "lock_inv N [] (spin_init l)" by (auto simp: lock_inv_def spin_init_def inside_def)
  then show ?case by blast
next
  case (step l i a l')
  then show ?case using perform_inv [OF _ N] by blast
qed

text \<open>
  C9. Mutual exclusion: in every state that any interleaving of fewer than \<open>2 ^ 32\<close> CPUs reaches, at most
  one of them is between its acquisition and its release of the lock.
\<close>

theorem spinlock_mutual_exclusion:
  assumes "reach N l" and "N < 2 ^ 32" and "inside l i" and "inside l j"
  shows "i = j"
proof -
  obtain q where "lock_inv N q l" using reach_inv [OF assms(1,2)] by blast
  then show ?thesis using lock_invD(7) assms(3,4) by blast
qed

text \<open>
  C29. First come, first served, and no deadlock: in every reachable state the CPUs that hold a
  ticket stand in one queue, across the wrap-around of the counters. An access of a CPU adds
  it at the end when it takes its ticket, removes the first when that one releases, and
  otherwise leaves the queue alone; only the first can be inside; and when nobody is inside and
  the queue is not empty, its first enters at its next look at the lock.
\<close>

theorem spinlock_fifo:
  assumes "reach N l" and "N < 2 ^ 32"
  shows "\<exists>q. lock_inv N q l \<and>
     (\<forall>a i l'. i < N \<and> perform a i l = Some l' \<longrightarrow> lock_inv N (queue_after a i l q) l') \<and>
     (q \<noteq> [] \<and> (\<forall>i. \<not> inside l i) \<longrightarrow> (\<exists>l'. perform Poll (hd q) l = Some l' \<and> inside l' (hd q)))"
proof -
  obtain q where q: "lock_inv N q l" using reach_inv [OF assms] by blast
  have "\<exists>l'. perform Poll (hd q) l = Some l' \<and> inside l' (hd q)" if "q \<noteq> []" "\<forall>i. \<not> inside l i"
  proof -
    have "ticket (at (cpus l (hd q))) = Some (owner l)"
      using lock_invD(5) [OF q, of 0] that(1) by (simp add: hd_conv_nth)
    then have "at (cpus l (hd q)) = Spin (owner l)"
      using that(2) [rule_format, of "hd q"] by (cases "at (cpus l (hd q))") (auto simp: inside_def)
    then show ?thesis by (simp add: poll_def inside_def upd_at_def)
  qed
  then show ?thesis using q perform_inv [OF q assms(2)] by blast
qed

section \<open>Interrupt masks\<close>

text \<open>
  What a CPU's mask is while it is in a call of the \<^verbatim>\<open>irqsave\<close> pair that started with the mask \<open>d\<close>,
  and after.
\<close>

definition mask_ok :: "u64 \<Rightarrow> cpu \<Rightarrow> bool" where
  "mask_ok d c \<longleftrightarrow> (if at c = Out then daif c = d else saved c = Some d \<and> daif c = d OR push_bit 7 1)"

text \<open>The accesses of one CPU that uses the lock only through the \<^verbatim>\<open>irqsave\<close> pair, and of all others.\<close>

inductive irq_run :: "nat \<Rightarrow> lock \<Rightarrow> lock \<Rightarrow> bool" for i where
  none: "irq_run i l l"
| more: "irq_run i l l' \<Longrightarrow> j = i \<longrightarrow> a \<noteq> Lock \<Longrightarrow> perform a j l' = Some l'' \<Longrightarrow> irq_run i l l''"

lemma perform_other: "perform a j l = Some l' \<Longrightarrow> j \<noteq> i \<Longrightarrow> cpus l' i = cpus l i"
  by (cases a) (auto simp: lock_defs split: if_splits pc.splits option.splits)

lemma perform_mask:
  assumes "perform a i l = Some l'" and "a \<noteq> Lock" and "mask_ok d (cpus l i)"
  shows "mask_ok d (cpus l' i)"
  using assms by (cases a) (auto simp: lock_defs mask_ok_def split: if_splits pc.splits option.splits)

text \<open>
  \<open>spin_lock_irqsave\<close> masks interrupts for the whole critical section and \<open>spin_unlock_irqrestore\<close>
  gives back exactly the mask of the caller: along every run, whatever the other CPUs do,
  while the CPU is anywhere between the two calls its mask is the caller's with the interrupt
  bit set, and whenever it is outside it is the caller's.
\<close>

theorem irqsave_masks_and_restores:
  assumes "irq_run i l l'" and "at (cpus l i) = Out"
  shows "(if at (cpus l' i) = Out then daif (cpus l' i) = daif (cpus l i)
     else daif (cpus l' i) = daif (cpus l i) OR push_bit 7 1 \<and> bit (daif (cpus l' i)) 7)"
proof -
  have "mask_ok (daif (cpus l i)) (cpus l' i)"
    using assms
  proof (induction rule: irq_run.induct)
    case (none l)
    then show ?case by (simp add: mask_ok_def)
  next
    case (more l l' j a l'')
    then show ?case using perform_other [OF more.hyps(3)] perform_mask [OF more.hyps(3)] by (cases "j = i") auto
  qed
  then show ?thesis by (auto simp: mask_ok_def bit_or_iff bit_push_bit_iff)
qed

section \<open>Two CPUs, one lock\<close>

definition free_lock :: "u32 \<Rightarrow> lock" where
  "free_lock n = \<lparr>owner = n, nextt = n, resv = (\<lambda>_. False), cpus = (\<lambda>_. \<lparr>at = Out, daif = 0x340, saved = None\<rparr>)\<rparr>"

fun perform_all :: "(access \<times> nat) list \<Rightarrow> lock \<Rightarrow> lock option" where
  "perform_all [] l = Some l"
| "perform_all ((a, i) # xs) l = (case perform a i l of None \<Rightarrow> None | Some l' \<Rightarrow> perform_all xs l')"

lemma reach_perform_all:
  "reach N l \<Longrightarrow> \<forall>(a, i)\<in>set xs. i < N \<Longrightarrow> perform_all xs l = Some l' \<Longrightarrow> reach N l'"
proof (induction xs arbitrary: l)
  case (Cons x xs)
  obtain a i where x: "x = (a, i)" by fastforce
  then obtain k where k: "perform a i l = Some k" "perform_all xs k = Some l'" using Cons.prems(3) by (auto split: option.splits)
  have "reach N k" using Cons.prems(1,2) x k(1) by (intro reach.step [of N l i a k]) auto
  then show ?case using Cons.IH Cons.prems(2) k(2) by simp
qed simp

abbreviation contend :: "(access \<times> nat) list" where
  "contend \<equiv> [(Lock, 0), (Lock_irqsave, 1), (Ldaxr, 0), (Ldaxr, 1), (Stlxr, 1), (Stlxr, 0), (Ldaxr, 0), (Stlxr, 0), (Poll, 0), (Poll, 1)]"

lemma contend_reach:
  "\<exists>l. perform_all contend (spin_init (free_lock 0)) = Some l \<and> reach 2 l \<and> at (cpus l 1) = Crit 0 \<and> at (cpus l 0) = Spin 1"
proof -
  obtain l where l: "perform_all contend (spin_init (free_lock 0)) = Some l" "at (cpus l 1) = Crit 0" "at (cpus l 0) = Spin 1"
    by (simp add: lock_defs free_lock_def spin_init_def)
  have "reach 2 (spin_init (free_lock 0))" by (rule reach.start) (simp add: free_lock_def)
  then have "reach 2 l" by (rule reach_perform_all [OF _ _ l(1)]) auto
  then show ?thesis using l by blast
qed

theorem spinlock_mutual_exclusion_witness:
  "\<exists>l. perform_all contend (spin_init (free_lock 0)) = Some l \<and> inside l 1 \<and> (\<forall>j. inside l j \<longrightarrow> j = 1)"
proof -
  obtain l where l: "perform_all contend (spin_init (free_lock 0)) = Some l" "reach 2 l" "at (cpus l 1) = Crit 0"
    using contend_reach by blast
  have ins: "inside l 1" using l(3) by (simp add: inside_def)
  have "j = 1" if "inside l j" for j by (rule spinlock_mutual_exclusion [OF l(2) _ that ins]) simp
  then show ?thesis using l(1) ins by blast
qed

theorem spinlock_fifo_witness:
  "\<exists>l q. perform_all contend (spin_init (free_lock 0)) = Some l \<and> lock_inv 2 q l \<and> hd q = 1"
proof -
  obtain l where l: "perform_all contend (spin_init (free_lock 0)) = Some l" "reach 2 l" "at (cpus l 1) = Crit 0"
    using contend_reach by blast
  obtain q where "lock_inv 2 q l" using spinlock_fifo [OF l(2)] by auto
  moreover have "inside l 1" using l(3) by (simp add: inside_def)
  ultimately show ?thesis using l(1) lock_invD(7) by blast
qed

theorem irqsave_masks_and_restores_witness:
  "\<exists>l. perform_all [(Lock_irqsave, 1), (Ldaxr, 1)] (free_lock 0) = Some l \<and> daif (cpus l 1) = 0x3C0"
proof -
  obtain k l where k: "perform Lock_irqsave 1 (free_lock 0) = Some k" and l: "perform Ldaxr 1 k = Some l" "at (cpus l 1) \<noteq> Out"
    by (simp add: lock_defs free_lock_def)
  have "irq_run 1 (free_lock 0) l"
    by (rule irq_run.more [OF irq_run.more [OF irq_run.none _ k] _ l(1)]) simp_all
  from irqsave_masks_and_restores [OF this] l(2) have "daif (cpus l 1) = 0x3C0" by (simp add: free_lock_def)
  then show ?thesis using k l(1) by simp
qed

end
