(* ===== verification/Bytes.thy ===== *)
theory Bytes
  imports Mm
begin

text \<open>
  Bytes in the memory of 8-byte cells, as the little-endian machine sees them, and the byte loops of
  \<^verbatim>\<open>kernel/mm.c\<close>: \<^verbatim>\<open>memcpy\<close>, \<^verbatim>\<open>memset\<close> and \<^verbatim>\<open>memcmp\<close>.
\<close>

section \<open>Bytes of a cell\<close>

definition word_at :: "u64 \<Rightarrow> u64" where "word_at a = a AND NOT 7"

definition lane :: "u64 \<Rightarrow> nat" where "lane a = 8 * unat (a AND 7)"

definition load8 :: "memory \<Rightarrow> u64 \<Rightarrow> u8" where
  "load8 m a = ucast (drop_bit (lane a) (m (word_at a)))"

definition store8 :: "u64 \<Rightarrow> u8 \<Rightarrow> memory \<Rightarrow> memory" where
  "store8 a v m = m(word_at a := (m (word_at a) AND NOT (push_bit (lane a) 0xFF)) OR push_bit (lane a) (ucast v))"

section \<open>Byte loops\<close>

primrec memcpy_loop :: "u64 \<Rightarrow> u64 \<Rightarrow> nat \<Rightarrow> memory \<Rightarrow> memory" where
  "memcpy_loop d s 0 m = m"
| "memcpy_loop d s (Suc n) m = memcpy_loop (d + 1) (s + 1) n (store8 d (load8 m s) m)"

definition memcpy :: "u64 \<Rightarrow> u64 \<Rightarrow> u64 \<Rightarrow> memory \<Rightarrow> u64 \<times> memory" where
  "memcpy dest src n m = (dest, memcpy_loop dest src (unat n) m)"

primrec memset_loop :: "u64 \<Rightarrow> u8 \<Rightarrow> nat \<Rightarrow> memory \<Rightarrow> memory" where
  "memset_loop p c 0 m = m"
| "memset_loop p c (Suc n) m = memset_loop (p + 1) c n (store8 p c m)"

definition memset :: "u64 \<Rightarrow> u32 \<Rightarrow> u64 \<Rightarrow> memory \<Rightarrow> u64 \<times> memory" where
  "memset s c n m = (s, memset_loop s (ucast c) (unat n) m)"

primrec memcmp_loop :: "u64 \<Rightarrow> u64 \<Rightarrow> nat \<Rightarrow> memory \<Rightarrow> int" where
  "memcmp_loop a b 0 m = 0"
| "memcmp_loop a b (Suc n) m =
     (if load8 m a \<noteq> load8 m b then uint (load8 m a) - uint (load8 m b) else memcmp_loop (a + 1) (b + 1) n m)"

definition memcmp :: "u64 \<Rightarrow> u64 \<Rightarrow> u64 \<Rightarrow> memory \<Rightarrow> int" where
  "memcmp s1 s2 n m = memcmp_loop s1 s2 (unat n) m"

section \<open>A byte stored and read\<close>

lemma bit_0xFF: "bit (0xFF :: int) k \<longleftrightarrow> k < 8"
proof -
  have "bit (mask 8 :: int) k \<longleftrightarrow> k < 8" by (simp add: bit_mask_iff)
  then show ?thesis by (simp add: mask_eq_exp_minus_1)
qed

lemma lane_le: "lane a \<le> 56"
proof -
  have "a AND 7 \<le> 7" by (rule word_and_le1)
  then show ?thesis by (simp add: lane_def word_le_nat_alt)
qed

lemma same_byte: "word_at a = word_at b \<and> lane a = lane b \<longleftrightarrow> a = b"
proof
  assume "word_at a = word_at b \<and> lane a = lane b"
  then have "a AND NOT 7 = b AND NOT 7" "a AND 7 = b AND 7" by (simp_all add: word_at_def lane_def word_unat_eq_iff [of "a AND 7"])
  then have "(a AND NOT 7) OR (a AND 7) = (b AND NOT 7) OR (b AND 7)" by simp
  then show "a = b" by (simp flip: bit.conj_disj_distrib)
qed simp

lemma lane_disjoint:
  assumes "lane a \<noteq> lane b" "k < 8" "j < 8"
  shows "lane a + k \<noteq> lane b + j"
  using assms unfolding lane_def by presburger

lemma load_store8: "load8 (store8 a v m) b = (if a = b then v else load8 m b)"
proof (cases "word_at a = word_at b")
  case False
  then have "a \<noteq> b" by auto
  then show ?thesis using False by (simp add: load8_def store8_def)
next
  case True
  have "bit (load8 (store8 a v m) b) k = bit (if a = b then v else load8 m b) k" if k: "k < 8" for k
  proof (cases "lane a = lane b")
    case same: True
    then have "a = b" using True same_byte by blast
    then show ?thesis
      using k lane_le [of b]
      by (auto simp: load8_def store8_def bit_simps bit_0xFF)
  next
    case False
    then have "a \<noteq> b" by auto
    have "lane a \<le> lane b + k \<Longrightarrow> \<not> lane b + k - lane a < 8"
      using lane_disjoint [OF False, of "lane b + k - lane a" k] k by auto
    then show ?thesis
      using k lane_le [of b] \<open>a \<noteq> b\<close> True
      by (auto simp: load8_def store8_def bit_simps bit_0xFF dest: bit_imp_le_length)
  qed
  then show ?thesis by (intro bit_word_eqI) simp
qed


lemma unat_step: "x \<noteq> p \<Longrightarrow> unat (x - p) = Suc (unat (x - (p + 1)))" for x p :: u64
  by (simp add: diff_diff_eq [symmetric] unat_minus_one unat_gt_0)

lemma unat_wrap: "unat (p - (p + 1) :: u64) = 2 ^ 64 - 1"
  by (simp add: unsigned_minus_1_eq_mask mask_eq_exp_minus_1)

lemma memset_loop_load:
  assumes "n < 2 ^ 64"
  shows "load8 (memset_loop p c n m) x = (if unat (x - p) < n then c else load8 m x)"
  using assms
proof (induction n arbitrary: p m)
  case (Suc n)
  show ?case
  proof (cases "x = p")
    case True
    then show ?thesis using Suc unat_wrap [of p] by (simp add: load_store8)
  next
    case False
    then show ?thesis using Suc by (simp add: load_store8 unat_step)
  qed
qed simp


lemma memcpy_loop_load:
  assumes "n < 2 ^ 64" "d = s \<or> n \<le> unat (d - s)"
  shows "load8 (memcpy_loop d s n m) x = (if unat (x - d) < n then load8 m (s + (x - d)) else load8 m x)"
  using assms
proof (induction n arbitrary: d s m)
  case (Suc n)
  let ?m = "store8 d (load8 m s) m"
  have IH: "load8 (memcpy_loop (d + 1) (s + 1) n ?m) x =
    (if unat (x - (d + 1)) < n then load8 ?m (s + (x - d)) else load8 ?m x)"
    using Suc.IH [of "d + 1" "s + 1" ?m] Suc.prems by (auto simp: algebra_simps)
  show ?case
  proof (cases "x = d")
    case True
    then show ?thesis using IH Suc.prems(1) unat_wrap [of d] by (simp add: load_store8)
  next
    case False
    have "load8 ?m (s + (x - d)) = load8 m (s + (x - d))" if "unat (x - d) < Suc n"
    proof (cases "d = s + (x - d)")
      case True
      then have "d - s = x - d" by (metis add_diff_cancel_left')
      then have "d = s" using Suc.prems(2) that by auto
      then show ?thesis by (simp add: load_store8)
    qed (simp add: load_store8)
    then show ?thesis using IH False by (auto simp: unat_step load_store8)
  qed
qed simp

lemma memcmp_loop_eq0: "memcmp_loop a b n m = 0 \<longleftrightarrow> (\<forall>i<n. load8 m (a + of_nat i) = load8 m (b + of_nat i))"
proof (induction n arbitrary: a b)
  case (Suc n)
  have "uint (load8 m a) - uint (load8 m b) = 0 \<longleftrightarrow> load8 m a = load8 m b" by (simp add: word_uint_eq_iff)
  then show ?case using Suc by (simp add: All_less_Suc2 add.assoc)
qed simp

section \<open>Properties\<close>

text \<open>
  \<^verbatim>\<open>memset\<close>, \<^verbatim>\<open>memcpy\<close> and \<^verbatim>\<open>memcmp\<close> do what the C library documents, byte for byte, at any alignment:
  the range is filled, nothing else changes; the destination becomes what the source was (also where
  the ranges overlap with the destination below the source); the comparison is \<open>0\<close> exactly for equal ranges.
\<close>

theorem byte_loops_correct:
  "load8 (snd (memset p c n m)) x = (if unat (x - p) < unat n then ucast c else load8 m x) \<and>
   (d = s \<or> n \<le> d - s \<longrightarrow> load8 (snd (memcpy d s n m)) x = (if unat (x - d) < unat n then load8 m (s + (x - d)) else load8 m x)) \<and>
   (memcmp a b n m = 0 \<longleftrightarrow> (\<forall>i<unat n. load8 m (a + of_nat i) = load8 m (b + of_nat i)))"
proof -
  have "unat n < 2 ^ 64" using unsigned_less [of n] by simp
  then show ?thesis
    by (simp add: memset_def memcpy_def memcmp_def memset_loop_load memcpy_loop_load memcmp_loop_eq0 word_le_nat_alt)
qed

end
