(* ===== verification/Printf.thy ===== *)
theory Printf
  imports Dragoon_Prelude
begin

text \<open>
  Formatted output (\<^verbatim>\<open>kernel/printf.c\<close>). A function that prints returns the characters it sends to
  the serial port, in order. \<open>None\<close> stands for a memory error: more than 64 characters stored in
  the digit buffer, a read past the end of the format, or an argument that was not passed.
  Arguments are the 8-byte slots of the variable argument list; \<open>str\<close> gives the string at an
  address.
\<close>

section \<open>Operations\<close>

abbreviation CR :: char where "CR \<equiv> CHR 0x0D"
abbreviation NL :: char where "NL \<equiv> CHR 0x0A"

definition print_char :: "char \<Rightarrow> string" where
  "print_char c = (if c = NL then [CR, c] else [c])"

definition print_string :: "string option \<Rightarrow> string" where
  "print_string s = concat (map print_char (case s of None \<Rightarrow> ''(null)'' | Some t \<Rightarrow> t))"

definition digit_char :: "bool \<Rightarrow> nat \<Rightarrow> char" where
  "digit_char is_upper d = (if is_upper then ''0123456789ABCDEF'' else ''0123456789abcdef'') ! d"

text \<open>
  The loop that stores the digits, lowest first. Every call has base 10 or 16; a base below 2,
  for which the loop would not end, stores nothing here.
\<close>

function digit_loop :: "bool \<Rightarrow> nat \<Rightarrow> u64 \<Rightarrow> string" where
  "digit_loop is_upper base val =
     (if val > 0 \<and> base \<ge> 2
      then digit_char is_upper (unat val mod base) # digit_loop is_upper base (of_nat (unat val div base)) else [])"
  by pat_completeness auto
termination
proof (relation "measure (\<lambda>(u, b, v). unat v)")
  fix base :: nat and val :: u64
  assume a: "0 < val \<and> 2 \<le> base"
  then have "0 < unat val" by (simp add: word_less_nat_alt)
  then have l: "unat val div base < unat val" using a by simp
  moreover have "unat val < 2 ^ 64" using unsigned_less [of val] by simp
  ultimately have "unat val div base < 2 ^ LENGTH(64)" by simp
  then have "unat (of_nat (unat val div base) :: u64) = unat val div base" by (rule unat_of_nat_small)
  with l show "((u, base, of_nat (unat val div base)), (u, base, val)) \<in> measure (\<lambda>(u, b, v). unat v)" for u :: bool by simp
qed simp

declare digit_loop.simps [simp del]

definition print_unsigned :: "u64 \<Rightarrow> nat \<Rightarrow> nat \<Rightarrow> char \<Rightarrow> bool \<Rightarrow> string option" where
  "print_unsigned val base width pad is_upper =
     (let buf = (if val = 0 then ''0'' else digit_loop is_upper base val);
          padded = buf @ replicate (width - length buf) pad
      in if length padded > 64 then None else Some (concat (map print_char (rev padded))))"

definition print_signed :: "64 word \<Rightarrow> nat \<Rightarrow> char \<Rightarrow> string option" where
  "print_signed val width pad =
     (if sint val < 0
      then map_option (\<lambda>s. print_char CHR ''-'' @ s) (print_unsigned (- val) 10 (width - 1) pad False)
      else print_unsigned val 10 width pad False)"

fun take_width :: "nat \<Rightarrow> string \<Rightarrow> nat \<times> string" where
  "take_width w (c # cs) =
     (if 48 \<le> (of_char c :: nat) \<and> (of_char c :: nat) \<le> 57 then take_width (w * 10 + (of_char c - 48)) cs else (w, c # cs))"
| "take_width w [] = (w, [])"

definition take_flag :: "string \<Rightarrow> char \<times> string" where
  "take_flag cs = (case cs of c # r \<Rightarrow> if c = CHR ''0'' then (CHR ''0'', r) else (CHR '' '', cs) | [] \<Rightarrow> (CHR '' '', cs))"

text \<open>\<open>True\<close> when an \<^verbatim>\<open>l\<close> or \<^verbatim>\<open>ll\<close> was read: both make the argument 64 bits wide.\<close>

definition take_length :: "string \<Rightarrow> bool \<times> string" where
  "take_length cs =
     (case cs of
        c # r \<Rightarrow> if c = CHR ''l'' then (True, case r of d # r' \<Rightarrow> if d = CHR ''l'' then r' else r | [] \<Rightarrow> r) else (False, cs)
      | [] \<Rightarrow> (False, cs))"

definition arg_signed :: "bool \<Rightarrow> u64 \<Rightarrow> u64" where
  "arg_signed long a = (if long then a else scast (ucast a :: u32))"

definition arg_unsigned :: "bool \<Rightarrow> u64 \<Rightarrow> u64" where
  "arg_unsigned long a = (if long then a else ucast (ucast a :: u32))"

definition next_arg :: "u64 list \<Rightarrow> (u64 \<Rightarrow> string option) \<Rightarrow> (string \<times> u64 list) option" where
  "next_arg args f = (case args of [] \<Rightarrow> None | a # as \<Rightarrow> (case f a of None \<Rightarrow> None | Some s \<Rightarrow> Some (s, as)))"

definition convert :: "(u64 \<Rightarrow> string) \<Rightarrow> char \<Rightarrow> nat \<Rightarrow> bool \<Rightarrow> char \<Rightarrow> u64 list \<Rightarrow> (string \<times> u64 list) option" where
  "convert str pad width long d args =
     (if d = CHR ''d'' \<or> d = CHR ''i'' then next_arg args (\<lambda>a. print_signed (arg_signed long a) width pad)
      else if d = CHR ''u'' then next_arg args (\<lambda>a. print_unsigned (arg_unsigned long a) 10 width pad False)
      else if d = CHR ''x'' then next_arg args (\<lambda>a. print_unsigned (arg_unsigned long a) 16 width pad False)
      else if d = CHR ''X'' then next_arg args (\<lambda>a. print_unsigned (arg_unsigned long a) 16 width pad True)
      else if d = CHR ''p'' then next_arg args (\<lambda>a. map_option (\<lambda>s. print_string (Some ''0x'') @ s) (print_unsigned a 16 0 CHR ''0'' False))
      else if d = CHR ''s'' then next_arg args (\<lambda>a. Some (print_string (if a = 0 then None else Some (str a))))
      else if d = CHR ''c'' then next_arg args (\<lambda>a. Some (print_char (char_of (unat a mod 256))))
      else if d = CHR ''%'' then Some (print_char CHR ''%'', args)
      else Some (print_char CHR ''%'' @ print_char d, args))"

text \<open>The directive after a percent sign: flag, width, length, conversion character; the rest of the format.\<close>

definition directive :: "(u64 \<Rightarrow> string) \<Rightarrow> string \<Rightarrow> u64 list \<Rightarrow> (string \<times> string \<times> u64 list) option" where
  "directive str cs args =
     (case take_flag cs of (pad, cs1) \<Rightarrow> case take_width 0 cs1 of (width, cs2) \<Rightarrow> case take_length cs2 of (long, cs3) \<Rightarrow>
        (case cs3 of
           [] \<Rightarrow> None
         | d # rest \<Rightarrow> (case convert str pad width long d args of None \<Rightarrow> None | Some (out, args') \<Rightarrow> Some (out, rest, args'))))"

lemma take_width_length: "length (snd (take_width w cs)) \<le> length cs"
  by (induction w cs rule: take_width.induct) auto

lemma take_flag_length: "length (snd (take_flag cs)) \<le> length cs"
  by (auto simp: take_flag_def split: list.split)

lemma take_length_length: "length (snd (take_length cs)) \<le> length cs"
  by (auto simp: take_length_def split: list.split)

lemma directive_shorter: "directive str cs args = Some (out, rest, args') \<Longrightarrow> length rest < length cs"
  using take_flag_length [of cs] take_width_length [of 0 "snd (take_flag cs)"]
    take_length_length [of "snd (take_width 0 (snd (take_flag cs)))"]
  by (auto simp: directive_def split: prod.splits list.splits option.splits)

function kvprintf :: "(u64 \<Rightarrow> string) \<Rightarrow> string \<Rightarrow> u64 list \<Rightarrow> string option" where
  "kvprintf str [] args = Some []"
| "kvprintf str (c # cs) args =
     (if c \<noteq> CHR ''%'' then map_option (\<lambda>s. print_char c @ s) (kvprintf str cs args)
      else case directive str cs args of
             None \<Rightarrow> None
           | Some (out, rest, args') \<Rightarrow> map_option (\<lambda>s. out @ s) (kvprintf str rest args'))"
  by pat_completeness auto
termination
  by (relation "measure (\<lambda>(str, cs, args). length cs)") (auto dest: directive_shorter)

definition kprintf :: "(u64 \<Rightarrow> string) \<Rightarrow> string \<Rightarrow> u64 list \<Rightarrow> string option" where
  "kprintf str fmt args = kvprintf str fmt args"

section \<open>Numbers\<close>

text \<open>The reader's view of a printed number.\<close>

definition digit_val :: "char \<Rightarrow> nat" where
  "digit_val c =
     (let n = of_char c :: nat in if n \<le> 57 then n - 48 else if n \<le> 70 then n - 55 else n - 87)"

definition numeral_val :: "nat \<Rightarrow> string \<Rightarrow> nat" where
  "numeral_val base s = foldl (\<lambda>a c. a * base + digit_val c) 0 (dropWhile (\<lambda>c. c = CHR '' '') s)"

lemma lt16: "d < 16 \<Longrightarrow> d \<in> {0, 1, 2, 3, 4, 5, 6, 7, 8, 9, 10, 11, 12, 13, 14, 15 :: nat}"
  by (simp add: numeral_eq_Suc less_Suc_eq)

lemma digit_val_digit_char: "d < 16 \<Longrightarrow> digit_val (digit_char u d) = d"
  by (drule lt16, elim insertE emptyE) (simp_all add: digit_val_def digit_char_def)

lemma digit_char_plain: "d < 16 \<Longrightarrow> digit_char u d \<noteq> CHR '' '' \<and> digit_char u d \<noteq> NL"
  by (drule lt16, elim insertE emptyE) (simp_all add: digit_char_def)

lemma unat_div_of_nat: "unat (of_nat (unat (v :: u64) div base) :: u64) = unat v div base"
proof (rule unat_of_nat_small)
  have "unat v < 2 ^ LENGTH(64)" by (rule unsigned_less)
  then show "unat v div base < 2 ^ LENGTH(64)" by (rule le_less_trans [OF div_le_dividend])
qed

lemma digit_loop_spec:
  assumes "2 \<le> base" "base \<le> 16"
  shows "foldr (\<lambda>c a. a * base + digit_val c) (digit_loop u base val) 0 = unat val \<and>
         (\<forall>c \<in> set (digit_loop u base val). c \<noteq> CHR '' '' \<and> c \<noteq> NL)"
  using assms
proof (induction u base val rule: digit_loop.induct)
  case (1 u base val)
  show ?case
  proof (cases "val = 0")
    case True then show ?thesis by (simp add: digit_loop.simps [of u base 0])
  next
    case False
    then have v: "0 < val" by (simp add: word_neq_0_conv)
    have d: "unat val mod base < 16" using 1(2,3) by (meson le_trans less_le_trans mod_less_divisor not_less zero_less_numeral)
    show ?thesis
      using 1(1) [OF conjI [OF v 1(2)]] 1(2,3) v digit_val_digit_char [OF d, of u] digit_char_plain [OF d, of u]
      by (simp add: digit_loop.simps [of u base val] unat_div_of_nat)
  qed
qed

lemma digit_loop_length:
  assumes "2 \<le> base"
  shows "val \<noteq> 0 \<Longrightarrow> digit_loop u base val \<noteq> [] \<and> 2 ^ (length (digit_loop u base val) - 1) \<le> unat val"
  using assms
proof (induction u base val rule: digit_loop.induct)
  case (1 u base val)
  let ?v = "of_nat (unat val div base) :: u64"
  have v: "0 < val" "0 < unat val" using 1(2) by (simp_all add: word_neq_0_conv word_less_nat_alt)
  have eq: "digit_loop u base val = digit_char u (unat val mod base) # digit_loop u base ?v"
    using v 1(3) by (simp add: digit_loop.simps [of u base val])
  show ?case
  proof (cases "?v = 0")
    case True
    then show ?thesis using v eq by (simp add: digit_loop.simps [of u base 0])
  next
    case False
    have h: "digit_loop u base ?v \<noteq> []" "2 ^ (length (digit_loop u base ?v) - 1) \<le> unat val div base"
      using 1(1) [OF conjI [OF v(1) 1(3)] False 1(3)] by (simp_all add: unat_div_of_nat)
    have "2 ^ length (digit_loop u base ?v) = 2 * 2 ^ (length (digit_loop u base ?v) - 1 :: nat)"
      using h(1) by (cases "digit_loop u base ?v") simp_all
    also have "\<dots> \<le> base * (unat val div base)" using h(2) 1(3) by (intro mult_mono) simp_all
    also have "\<dots> \<le> unat val" by (rule times_div_less_eq_dividend)
    finally show ?thesis by (simp add: eq)
  qed
qed

lemma digit_loop_fits:
  assumes "2 \<le> base"
  shows "length (digit_loop u base val) \<le> 64"
proof (cases "val = 0")
  case True then show ?thesis by (simp add: digit_loop.simps [of u base 0])
next
  case False
  have "2 ^ (length (digit_loop u base val) - 1) < (2 ^ 64 :: nat)"
    using digit_loop_length [OF assms False, of u] unsigned_less [of val, where 'a = nat] by simp
  then have "length (digit_loop u base val) - 1 < 64" by (rule power_less_imp_less_exp [rotated]) simp
  then show ?thesis by simp
qed

lemma dropWhile_replicate_pad:
  "\<lbrakk>pad = CHR '' '' \<or> pad = CHR ''0''; \<forall>c \<in> set s. c \<noteq> CHR '' ''; s \<noteq> []\<rbrakk> \<Longrightarrow>
   numeral_val b (replicate n pad @ s) = foldl (\<lambda>a c. a * b + digit_val c) 0 s"
proof (induction n)
  case 0 then show ?case by (cases s) (simp_all add: numeral_val_def)
next
  case (Suc n)
  have "digit_val CHR ''0'' = 0" by (simp add: digit_val_def)
  then have "foldl (\<lambda>a c. a * b + digit_val c) 0 (replicate n CHR ''0'' @ s) = foldl (\<lambda>a c. a * b + digit_val c) 0 s" for n
    by (induction n) simp_all
  from this [of "Suc n"] show ?case using Suc by (auto simp: numeral_val_def)
qed

lemma print_plain: "\<forall>c \<in> set s. c \<noteq> NL \<Longrightarrow> concat (map print_char s) = s"
  by (induction s) (simp_all add: print_char_def)

text \<open>
  Printing an unsigned number in base 10 or 16, blank- or zero-padded to a field of at
  most 64 characters, fits the 64-byte buffer, fills the field, and reads back as the number,
  for every 64-bit value.
\<close>

lemma print_unsigned_roundtrip:
  assumes "base = 10 \<or> base = 16" and "pad = CHR '' '' \<or> pad = CHR ''0''" and "width \<le> 64"
  shows "\<exists>s. print_unsigned val base width pad is_upper = Some s \<and> numeral_val base s = unat val \<and>
             width \<le> length s \<and> length s \<le> 64"
proof -
  define buf where "buf = (if val = 0 then ''0'' else digit_loop is_upper base val)"
  let ?f = "\<lambda>a c. a * base + digit_val c"
  have b: "2 \<le> base" "base \<le> 16" using assms(1) by auto
  have plain: "\<forall>c \<in> set buf. c \<noteq> CHR '' '' \<and> c \<noteq> NL" and nonempty: "buf \<noteq> []" and fits: "length buf \<le> 64"
    using digit_loop_spec [OF b, of is_upper val] digit_loop_length [OF b(1), of val is_upper]
      digit_loop_fits [OF b(1), of is_upper val] by (auto simp: buf_def)
  have val: "foldl ?f 0 (rev buf) = unat val"
    using digit_loop_spec [OF b, of is_upper val] by (simp add: buf_def foldl_conv_foldr digit_val_def)
  let ?s = "replicate (width - length buf) pad @ rev buf"
  have "pad \<noteq> NL" using assms(2) by auto
  then have "\<forall>c \<in> set ?s. c \<noteq> NL" using plain by (simp add: ball_Un)
  then have out: "concat (map print_char ?s) = ?s" by (rule print_plain)
  have len: "length (buf @ replicate (width - length buf) pad) \<le> 64" using fits assms(3) by simp
  have "print_unsigned val base width pad is_upper = Some (concat (map print_char ?s))"
    unfolding print_unsigned_def buf_def [symmetric] Let_def if_not_P [OF leD [OF len]] by simp
  then have "print_unsigned val base width pad is_upper = Some ?s" by (simp only: out)
  moreover have "numeral_val base ?s = unat val"
    using dropWhile_replicate_pad [of pad "rev buf"] assms(2) plain nonempty val by simp
  ultimately show ?thesis using fits assms(3) by auto
qed

lemma print_unsigned_overflow:
  "2 \<le> base \<Longrightarrow> print_unsigned val base width pad is_upper = None \<longleftrightarrow> 64 < width"
  using digit_loop_fits [of base is_upper val] by (auto simp: print_unsigned_def Let_def)

lemma unat_minus_negative:
  fixes val :: u64
  assumes "sint val < 0"
  shows "int (unat (- val)) = - sint val"
proof -
  have lb: "- (2 ^ 63) \<le> sint val" using sint_ge [of val] by simp
  have "- val = word_of_int (- sint val)" by simp
  then have "uint (- val) = (- sint val) mod 2 ^ 64" by (simp only: uint_word_of_int) simp
  also have "\<dots> = - sint val" using lb assms by (intro mod_pos_pos_trivial) simp_all
  finally show ?thesis by simp
qed

text \<open>
  A signed number printed in a field of at most 64 characters reads back as the number: a
  minus sign and the magnitude when it is negative, the magnitude alone otherwise, also for the
  most negative 64-bit number, whose negation wraps around to itself.
\<close>

theorem print_signed_roundtrip:
  assumes "pad = CHR '' '' \<or> pad = CHR ''0''" and "width \<le> 64"
  shows "\<exists>s. print_signed val width pad = Some s \<and> width \<le> length s \<and>
             (if sint val < 0 then \<exists>t. s = CHR ''-'' # t \<and> - int (numeral_val 10 t) = sint val
              else int (numeral_val 10 s) = sint val)"
proof (cases "sint val < 0")
  case True
  obtain t where "print_unsigned (- val) 10 (width - 1) pad False = Some t" "numeral_val 10 t = unat (- val)"
      "width - 1 \<le> length t"
    using print_unsigned_roundtrip [of 10 pad "width - 1" "- val" False, OF _ assms(1)] assms(2) by (meson diff_le_self le_trans)
  then show ?thesis using True unat_minus_negative [OF True]
    by (simp add: print_signed_def print_char_def)
next
  case False
  have "uint val = sint val mod 2 ^ 64" using uint_sint [of val] by (simp add: take_bit_eq_mod)
  then have "int (unat val) = sint val" using False sint_lt [of val] by simp
  then show ?thesis using False print_unsigned_roundtrip [of 10 pad width val False] assms
    by (auto simp: print_signed_def)
qed

theorem print_signed_roundtrip_witness:
  "\<exists>s. print_signed (- (2 ^ 63)) 24 CHR '' '' = Some s \<and> 24 \<le> length s \<and>
       (if sint (- (2 ^ 63) :: u64) < 0 then \<exists>t. s = CHR ''-'' # t \<and> - int (numeral_val 10 t) = sint (- (2 ^ 63) :: u64)
        else int (numeral_val 10 s) = sint (- (2 ^ 63) :: u64))"
  by (rule print_signed_roundtrip) simp_all

section \<open>Formats\<close>

text \<open>
  What a format means, apart from how it is scanned: a list of pieces, each a character to copy
  or a directive with its flag, the digits of its width, its length modifier (0, 1 or 2 times
  \<^verbatim>\<open>l\<close>) and its conversion character.
\<close>

datatype piece = Lit char | Conv bool "nat list" nat char

abbreviation dec_digit :: "nat \<Rightarrow> char" where
  "dec_digit d \<equiv> char_of (d + 48)"

fun piece_text :: "piece \<Rightarrow> string" where
  "piece_text (Lit c) = [c]"
| "piece_text (Conv zero ws ls d) =
     CHR ''%'' # (if zero then ''0'' else []) @ map dec_digit ws @ replicate ls CHR ''l'' @ [d]"

abbreviation width_of :: "nat list \<Rightarrow> nat" where
  "width_of ws \<equiv> foldl (\<lambda>w d. w * 10 + d) 0 ws"

definition conv_char :: "char \<Rightarrow> bool" where
  "conv_char d = (d \<notin> set ''0123456789l'')"

fun piece_ok :: "piece \<Rightarrow> bool" where
  "piece_ok (Lit c) = (c \<noteq> CHR ''%'')"
| "piece_ok (Conv zero ws ls d) =
     ((\<forall>w \<in> set ws. w < 10) \<and> (ws \<noteq> [] \<longrightarrow> zero \<or> hd ws \<noteq> 0) \<and> width_of ws \<le> 64 \<and> ls \<le> 2 \<and> conv_char d)"

fun piece_args :: "piece \<Rightarrow> nat" where
  "piece_args (Lit c) = 0"
| "piece_args (Conv zero ws ls d) = (if d \<in> set ''diuxXpsc'' then 1 else 0)"

fun render :: "(u64 \<Rightarrow> string) \<Rightarrow> piece list \<Rightarrow> u64 list \<Rightarrow> string option" where
  "render str [] args = Some []"
| "render str (Lit c # ps) args = map_option (\<lambda>s. print_char c @ s) (render str ps args)"
| "render str (Conv zero ws ls d # ps) args =
     (case convert str (if zero then CHR ''0'' else CHR '' '') (width_of ws) (ls > 0) d args of
        None \<Rightarrow> None
      | Some (out, args') \<Rightarrow> map_option (\<lambda>s. out @ s) (render str ps args'))"

lemma dec_digit_code: "d < 10 \<Longrightarrow> (of_char (dec_digit d) :: nat) = d + 48"
  by simp

lemma conv_char_code:
  assumes "conv_char d"
  shows "\<not> (48 \<le> (of_char d :: nat) \<and> (of_char d :: nat) \<le> 57)" and "d \<noteq> CHR ''l''" and "d \<noteq> CHR ''0''"
proof -
  show "\<not> (48 \<le> (of_char d :: nat) \<and> (of_char d :: nat) \<le> 57)"
  proof
    assume "48 \<le> (of_char d :: nat) \<and> (of_char d :: nat) \<le> 57"
    then have "(of_char d :: nat) \<in> {48, 49, 50, 51, 52, 53, 54, 55, 56, 57}"
      by (simp add: numeral_eq_Suc le_Suc_eq) linarith
    then have "char_of (of_char d :: nat) \<in> set ''0123456789''"
      by (elim insertE emptyE) (simp_all add: char_of_def bit_0)
    then show False using assms by (simp add: conv_char_def)
  qed
qed (use assms in \<open>simp_all add: conv_char_def\<close>)

lemma take_width_digits:
  assumes "\<forall>w \<in> set ws. w < 10" and "cs = [] \<or> \<not> (48 \<le> (of_char (hd cs) :: nat) \<and> (of_char (hd cs) :: nat) \<le> 57)"
  shows "take_width a (map dec_digit ws @ cs) = (foldl (\<lambda>w d. w * 10 + d) a ws, cs)"
  using assms(1)
proof (induction ws arbitrary: a)
  case Nil then show ?case using assms(2) by (cases cs) auto
next
  case (Cons w ws) then show ?case by simp
qed

lemma directive_piece:
  assumes "piece_ok (Conv zero ws ls d)"
  shows "directive str (tl (piece_text (Conv zero ws ls d)) @ cs) args =
           (case convert str (if zero then CHR ''0'' else CHR '' '') (width_of ws) (ls > 0) d args of
              None \<Rightarrow> None | Some (out, args') \<Rightarrow> Some (out, cs, args'))"
proof -
  let ?m = "replicate ls CHR ''l'' @ d # cs"
  have d: "conv_char d" and ws: "\<forall>w \<in> set ws. w < 10" and z: "ws \<noteq> [] \<longrightarrow> zero \<or> hd ws \<noteq> 0" and l: "ls \<le> 2"
    using assms by simp_all
  have nz: "hd (map dec_digit ws @ ?m) \<noteq> CHR ''0''" if "\<not> zero"
  proof (cases ws)
    case Nil then show ?thesis using conv_char_code(3) [OF d] by (cases ls) simp_all
  next
    case (Cons w ws')
    then have "w + 48 \<noteq> 48" "w < 10" using z ws that by simp_all
    then have "(of_char (dec_digit w) :: nat) \<noteq> of_char CHR ''0''" using dec_digit_code [of w] by simp
    then have "dec_digit w \<noteq> CHR ''0''" by metis
    then show ?thesis using Cons by simp
  qed
  have "take_flag ((if zero then ''0'' else []) @ map dec_digit ws @ ?m) =
          (if zero then CHR ''0'' else CHR '' '', map dec_digit ws @ ?m)"
    using nz by (cases "map dec_digit ws @ ?m") (auto simp: take_flag_def)
  moreover have "take_width 0 (map dec_digit ws @ ?m) = (width_of ws, ?m)"
    by (rule take_width_digits [OF ws]) (cases ls; use conv_char_code(1) [OF d] in simp)
  moreover have "take_length ?m = (ls > 0, d # cs)"
    using l conv_char_code(2) [OF d] by (cases ls; cases "ls - 1") (auto simp: take_length_def)
  ultimately show ?thesis by (simp add: directive_def)
qed

lemma kvprintf_render:
  "\<forall>p \<in> set ps. piece_ok p \<Longrightarrow> kvprintf str (concat (map piece_text ps)) args = render str ps args"
proof (induction ps arbitrary: args)
  case Nil then show ?case by simp
next
  case (Cons p ps)
  show ?case
  proof (cases p)
    case (Lit c) then show ?thesis using Cons by simp
  next
    case (Conv zero ws ls d)
    let ?t = "tl (piece_text p)"
    have ok: "piece_ok (Conv zero ws ls d)" using Cons.prems Conv by simp
    have "concat (map piece_text (p # ps)) = CHR ''%'' # ?t @ concat (map piece_text ps)" by (simp add: Conv)
    then show ?thesis
      using Cons.IH Cons.prems
      by (simp add: Conv directive_piece [OF ok, simplified] del: piece_ok.simps split: option.split prod.split)
  qed
qed

lemma next_arg_total: "args \<noteq> [] \<Longrightarrow> (\<And>a. f a \<noteq> None) \<Longrightarrow> \<exists>out. next_arg args f = Some (out, tl args)"
  by (cases args) (auto simp: next_arg_def split: option.split)

lemma convert_total:
  assumes "width \<le> 64" and "(if d \<in> set ''diuxXpsc'' then 1 else 0) \<le> length args"
  shows "\<exists>out. convert str pad width long d args = Some (out, drop (if d \<in> set ''diuxXpsc'' then 1 else 0) args)"
proof (cases "d \<in> set ''diuxXpsc''")
  case True
  then have a: "args \<noteq> []" using assms(2) by auto
  have ps: "print_signed v width pad \<noteq> None" for v
    using assms(1) by (simp add: print_signed_def print_unsigned_overflow del: not_None_eq) linarith
  have pu: "print_unsigned v 10 width pad u \<noteq> None" "print_unsigned v 16 width pad u \<noteq> None"
    "print_unsigned v 16 0 CHR ''0'' u \<noteq> None" for v u using assms(1) by (simp_all add: print_unsigned_overflow)
  have some: "\<exists>out. next_arg args f = Some (out, drop (Suc 0) args)" if "\<forall>a. f a \<noteq> None" for f
    using next_arg_total [OF a, of f] that by (simp add: drop_Suc)
  have "d = CHR ''d'' \<or> d = CHR ''i'' \<or> d = CHR ''u'' \<or> d = CHR ''x'' \<or> d = CHR ''X'' \<or> d = CHR ''p'' \<or> d = CHR ''s'' \<or> d = CHR ''c''"
    using True by simp
  then show ?thesis
    by (elim disjE) (simp_all add: convert_def some ps pu del: not_None_eq)
next
  case False then show ?thesis by (auto simp: convert_def)
qed

lemma render_total:
  assumes "\<forall>p \<in> set ps. piece_ok p" and "sum_list (map piece_args ps) \<le> length args"
  shows "\<exists>out. render str ps args = Some out"
  using assms
proof (induction ps arbitrary: args)
  case Nil then show ?case by simp
next
  case (Cons p ps)
  show ?case
  proof (cases p)
    case (Lit c) then show ?thesis using Cons by simp
  next
    case (Conv zero ws ls d)
    let ?n = "piece_args p"
    have "width_of ws \<le> 64" "?n \<le> length args" using Cons.prems Conv by simp_all
    then obtain out where "convert str (if zero then CHR ''0'' else CHR '' '') (width_of ws) (ls > 0) d args = Some (out, drop ?n args)"
      using convert_total [of "width_of ws" d args str] Conv by fastforce
    moreover obtain out' where "render str ps (drop ?n args) = Some out'"
      using Cons.IH [of "drop ?n args"] Cons.prems by (auto simp: le_diff_conv2)
    ultimately show ?thesis by (simp add: Conv)
  qed
qed

text \<open>
  C37. \<^verbatim>\<open>kvprintf\<close> scans a format as the list of pieces it is written from, whatever the
  arguments: copied characters and directives with flag, width, length and conversion in turn. With widths up
  to 64 and an argument for every conversion that takes one it stays inside its buffer and its
  arguments, and returns.
\<close>

theorem kvprintf_renders_format:
  assumes "\<forall>p \<in> set ps. piece_ok p" and "sum_list (map piece_args ps) \<le> length args"
  shows "kvprintf str (concat (map piece_text ps)) args = render str ps args \<and> render str ps args \<noteq> None"
  using kvprintf_render [OF assms(1)] render_total [OF assms] by auto

theorem kvprintf_renders_format_witness:
  "kvprintf (\<lambda>_. ''idle'') (concat (map piece_text [Lit CHR ''t'', Conv True [4] 1 CHR ''x'', Lit NL, Conv False [] 0 CHR ''s'']))
     [0xBEE, 0x40000000] = render (\<lambda>_. ''idle'') [Lit CHR ''t'', Conv True [4] 1 CHR ''x'', Lit NL, Conv False [] 0 CHR ''s'']
     [0xBEE, 0x40000000] \<and> render (\<lambda>_. ''idle'') [Lit CHR ''t'', Conv True [4] 1 CHR ''x'', Lit NL, Conv False [] 0 CHR ''s'']
     [0xBEE, 0x40000000] \<noteq> None"
  by (rule kvprintf_renders_format) (simp_all add: conv_char_def)

lemma kprintf_example:
  "kprintf (\<lambda>_. ''idle'') (''t%04lx'' @ [NL] @ ''%s'') [0xBEE, 0x40000000] = Some (''t0bee'' @ [CR, NL] @ ''idle'')"
  by (simp add: kprintf_def directive_def take_flag_def take_length_def convert_def next_arg_def arg_unsigned_def
      print_unsigned_def print_string_def print_char_def digit_loop.simps digit_char_def)

text \<open>
  A format that ends in a percent sign runs past its end: after the sign the scan consumes
  the terminating zero byte as the conversion character and goes on reading behind the string.
\<close>

theorem kvprintf_trailing_percent:
  assumes "CHR ''%'' \<notin> set fmt"
  shows "kvprintf str (fmt @ ''%'') args = None"
  using assms by (induction fmt) (auto simp: directive_def take_flag_def take_length_def)

theorem kvprintf_trailing_percent_witness: "kvprintf (\<lambda>_. []) (''load 50'' @ ''%'') [] = None"
  by (rule kvprintf_trailing_percent) simp

end
