(* ===== verification/Compat.thy ===== *)
theory Compat
  imports Irq Bytes Printf
begin

text \<open>
  The Linux compatibility layer (\<^verbatim>\<open>linux/compat.c\<close>, \<^verbatim>\<open>linux/server.c\<close>) and its test driver
  (\<^verbatim>\<open>drivers/hello/hello.c\<close>): small allocations on top of \<^verbatim>\<open>page_alloc\<close>, platform devices and drivers
  matched by name, resources, interrupts. The structures of a driver are read from memory at the offsets
  the code uses. A call through a function pointer is an argument of the definitions.
\<close>

section \<open>State\<close>

definition MAX_PLATFORM_DEVICES :: nat where "MAX_PLATFORM_DEVICES = 8"
definition MAX_PLATFORM_DRIVERS :: nat where "MAX_PLATFORM_DRIVERS = 8"

record compat_platform_device =
  pd_name :: u64
  pd_id :: int
  pd_num_resources :: u32
  pd_resources :: u64
  platform_device_ptr :: u64
  pd_active :: bool

record compat_platform_driver =
  pr_name :: u64
  pr_probe :: u64
  pr_remove :: u64
  pr_active :: bool

record compat_state = irq_state +
  slab_page :: u64
  slab_offset :: u64
  pdevices :: "compat_platform_device list"
  pdrivers :: "compat_platform_driver list"
  pdevice_count :: nat
  pdriver_count :: nat

section \<open>Printing\<close>

definition printk :: "(u64 \<Rightarrow> string) \<Rightarrow> string \<Rightarrow> u64 list \<Rightarrow> string option" where
  "printk str fmt args =
     (let fmt1 = (case fmt of
                    c0 # c1 # c2 # rest \<Rightarrow>
                      if c0 = CHR ''<'' \<and> (48 :: nat) \<le> of_char c1 \<and> of_char c1 \<le> (55 :: nat) \<and> c2 = CHR ''>'' then rest else fmt
                  | _ \<Rightarrow> fmt)
      in Option.bind (kprintf str ''[linux] '' []) (\<lambda>a. map_option (\<lambda>b. a @ b) (kvprintf str fmt1 args)))"

section \<open>Allocation\<close>

text \<open>Room for \<open>sz\<close> bytes in the current page of small allocations, or a new page; \<open>False\<close> when there is none.\<close>

definition slab_room :: "u64 \<Rightarrow> 'a compat_state_scheme \<Rightarrow> bool \<times> 'a compat_state_scheme" where
  "slab_room sz s =
     (if slab_page s = 0 \<or> slab_offset s + sz > PAGE_SIZE
      then case page_alloc s of (p, s1) \<Rightarrow> if p = 0 then (False, s1) else (True, s1\<lparr>slab_page := p, slab_offset := 0\<rparr>)
      else (True, s))"

definition kmalloc :: "u64 \<Rightarrow> u32 \<Rightarrow> 'a compat_state_scheme \<Rightarrow> u64 \<times> 'a compat_state_scheme" where
  "kmalloc sz0 flags s =
     (if sz0 = 0 then (0, s)
      else if sz0 \<le> 2048 then
        let sz = (sz0 + 15) AND NOT 15
        in case slab_room sz s of
             (False, s1) \<Rightarrow> (0, s1)
           | (True, s1) \<Rightarrow> (slab_page s1 + slab_offset s1, s1\<lparr>slab_offset := slab_offset s1 + sz\<rparr>)
      else
        let pages = (sz0 + PAGE_SIZE - 1) div PAGE_SIZE
        in if pages > 1 then (0, s) else page_alloc s)"

definition kzalloc :: "u64 \<Rightarrow> u32 \<Rightarrow> 'a compat_state_scheme \<Rightarrow> u64 \<times> 'a compat_state_scheme" where
  "kzalloc sz flags s =
     (case kmalloc sz flags s of
        (p, s1) \<Rightarrow> (p, if p \<noteq> 0 then s1\<lparr>mem := memset_loop p 0 (unat sz) (mem s1)\<rparr> else s1))"

definition kfree :: "u64 \<Rightarrow> 'a compat_state_scheme \<Rightarrow> 'a compat_state_scheme" where
  "kfree ptr s = (if ptr = 0 then s else if ptr AND (PAGE_SIZE - 1) = 0 then page_free ptr s else s)"

definition ioremap :: "u64 \<Rightarrow> u64 \<Rightarrow> u64" where "ioremap offset sz = offset"

definition iounmap :: "u64 \<Rightarrow> 'a compat_state_scheme \<Rightarrow> 'a compat_state_scheme" where "iounmap addr s = s"

definition devm_kzalloc :: "u64 \<Rightarrow> u64 \<Rightarrow> u32 \<Rightarrow> 'a compat_state_scheme \<Rightarrow> u64 \<times> 'a compat_state_scheme" where
  "devm_kzalloc dev sz gfp_flags s = kzalloc sz gfp_flags s"

definition devm_ioremap :: "u64 \<Rightarrow> u64 \<Rightarrow> u64 \<Rightarrow> u64" where
  "devm_ioremap dev offset sz = ioremap offset sz"

section \<open>Platform devices and drivers\<close>

definition PDEV_OFF_NAME :: u64 where "PDEV_OFF_NAME = 0"
definition PDEV_OFF_DEV :: u64 where "PDEV_OFF_DEV = 16"
definition PDEV_OFF_NUMRES :: u64 where "PDEV_OFF_NUMRES = 48"
definition PDEV_OFF_RESOURCE :: u64 where "PDEV_OFF_RESOURCE = 56"
definition PDRV_OFF_PROBE :: u64 where "PDRV_OFF_PROBE = 0"
definition PDRV_OFF_NAME :: u64 where "PDRV_OFF_NAME = 24"

definition pdev_name :: "memory \<Rightarrow> u64 \<Rightarrow> u64" where "pdev_name m p = m (p + PDEV_OFF_NAME)"
definition pdev_num_res :: "memory \<Rightarrow> u64 \<Rightarrow> u32" where "pdev_num_res m p = ucast (m (p + PDEV_OFF_NUMRES))"
definition pdev_resource :: "memory \<Rightarrow> u64 \<Rightarrow> u64" where "pdev_resource m p = m (p + PDEV_OFF_RESOURCE)"
definition pdrv_probe :: "memory \<Rightarrow> u64 \<Rightarrow> u64" where "pdrv_probe m p = m (p + PDRV_OFF_PROBE)"
definition pdrv_name :: "memory \<Rightarrow> u64 \<Rightarrow> u64" where "pdrv_name m p = m (p + PDRV_OFF_NAME)"

definition compat_register_platform_device :: "u64 \<Rightarrow> 'a compat_state_scheme \<Rightarrow> int \<times> 'a compat_state_scheme" where
  "compat_register_platform_device pdev_ptr s =
     (if pdevice_count s \<ge> MAX_PLATFORM_DEVICES then (-1, s)
      else
        let d = \<lparr>pd_name = pdev_name (mem s) pdev_ptr, pd_id = 0, pd_num_resources = pdev_num_res (mem s) pdev_ptr,
                 pd_resources = pdev_resource (mem s) pdev_ptr, platform_device_ptr = pdev_ptr, pd_active = True\<rparr>
        in (0, s\<lparr>pdevices := (pdevices s)[pdevice_count s := d], pdevice_count := pdevice_count s + 1\<rparr>))"

text \<open>\<open>None\<close> for strings that never end.\<close>

partial_function (option) streq :: "memory \<Rightarrow> u64 \<Rightarrow> u64 \<Rightarrow> bool option" where
  "streq m a b =
     (if load8 m a \<noteq> 0 \<and> load8 m b \<noteq> 0
      then if load8 m a \<noteq> load8 m b then Some False else streq m (a + 1) (b + 1)
      else Some (load8 m a = load8 m b))"

text \<open>The loop over the devices, for driver \<open>k\<close>; \<open>call f p\<close> is the call of the function at \<open>f\<close> with argument \<open>p\<close>.\<close>

partial_function (option) match_loop ::
  "(u64 \<Rightarrow> u64 \<Rightarrow> compat_state \<Rightarrow> (int \<times> compat_state) option) \<Rightarrow> nat \<Rightarrow> nat \<Rightarrow> compat_state \<Rightarrow> compat_state option" where
  "match_loop call k i s =
     (if i < pdevice_count s
      then if pd_active (pdevices s ! i)
           then Option.bind (streq (mem s) (pd_name (pdevices s ! i)) (pr_name (pdrivers s ! k))) (\<lambda>same.
                  if same
                  then Option.bind (call (pr_probe (pdrivers s ! k)) (platform_device_ptr (pdevices s ! i)) s)
                         (\<lambda>(ret, s1). match_loop call k (i + 1) s1)
                  else match_loop call k (i + 1) s)
           else match_loop call k (i + 1) s
      else Some s)"

definition platform_driver_register ::
  "(u64 \<Rightarrow> u64 \<Rightarrow> compat_state \<Rightarrow> (int \<times> compat_state) option) \<Rightarrow> u64 \<Rightarrow> compat_state \<Rightarrow> (int \<times> compat_state) option" where
  "platform_driver_register call drv_ptr s =
     (if pdriver_count s \<ge> MAX_PLATFORM_DRIVERS then Some (-1, s)
      else
        let k = pdriver_count s;
            d = \<lparr>pr_name = pdrv_name (mem s) drv_ptr, pr_probe = pdrv_probe (mem s) drv_ptr, pr_remove = 0, pr_active = True\<rparr>;
            s1 = s\<lparr>pdrivers := (pdrivers s)[k := d], pdriver_count := k + 1\<rparr>
        in map_option (\<lambda>s2. (0, s2)) (match_loop call k 0 s1))"

definition platform_driver_unregister :: "u64 \<Rightarrow> compat_state \<Rightarrow> compat_state" where
  "platform_driver_unregister drv_ptr s = s"

primrec resource_loop :: "memory \<Rightarrow> u64 \<Rightarrow> u32 \<Rightarrow> nat \<Rightarrow> nat \<Rightarrow> nat \<Rightarrow> nat \<Rightarrow> u64" where
  "resource_loop m res_base type wanted 0 i count = 0"
| "resource_loop m res_base type wanted (Suc n) i count =
     (let res = res_base + ucast (of_nat i * 32 :: u32); flags = m (res + 16)
      in if flags AND ucast type = ucast type
         then if count = wanted then res else resource_loop m res_base type wanted n (i + 1) (count + 1)
         else resource_loop m res_base type wanted n (i + 1) count)"

definition platform_get_resource :: "u64 \<Rightarrow> u32 \<Rightarrow> u32 \<Rightarrow> memory \<Rightarrow> u64" where
  "platform_get_resource pdev_ptr type n m = resource_loop m (pdev_resource m pdev_ptr) type (unat n) (unat (pdev_num_res m pdev_ptr)) 0 0"

section \<open>Interrupts and character devices\<close>

definition request_irq :: "u32 \<Rightarrow> u64 \<Rightarrow> 'a irq_state_scheme \<Rightarrow> int \<times> 'a irq_state_scheme" where
  "request_irq irq_num handler s = (0, irq_enable irq_num (irq_register irq_num (if handler = 0 then None else Some (Driver_handler handler)) s))"

definition free_irq :: "u32 \<Rightarrow> 'a irq_state_scheme \<Rightarrow> 'a irq_state_scheme" where
  "free_irq irq_num s = irq_disable irq_num s"

definition register_chrdev :: "u32 \<Rightarrow> u64 \<Rightarrow> 'a compat_state_scheme \<Rightarrow> int \<times> 'a compat_state_scheme" where
  "register_chrdev major fops s = (0, s)"

definition unregister_chrdev :: "u32 \<Rightarrow> 'a compat_state_scheme \<Rightarrow> 'a compat_state_scheme" where
  "unregister_chrdev major s = s"


section \<open>The server and the hello driver\<close>

definition IORESOURCE_MEM :: u32 where "IORESOURCE_MEM = 0x200"
definition ENOMEM :: int where "ENOMEM = 12"
definition ENODEV :: int where "ENODEV = 19"

text \<open>An \<^verbatim>\<open>int\<close> stored in the lower half of a cell.\<close>

definition store_int :: "u64 \<Rightarrow> u32 \<Rightarrow> memory \<Rightarrow> memory" where
  "store_int a v m = m(a := (m a AND NOT 0xFFFFFFFF) OR ucast v)"

definition dev_set_drvdata :: "u64 \<Rightarrow> u64 \<Rightarrow> memory \<Rightarrow> memory" where
  "dev_set_drvdata dev data m = m(dev + 8 := data)"

definition dev_get_drvdata :: "u64 \<Rightarrow> memory \<Rightarrow> u64" where
  "dev_get_drvdata dev m = m (dev + 8)"

definition hello_probe :: "u64 \<Rightarrow> compat_state \<Rightarrow> int \<times> compat_state" where
  "hello_probe pdev s =
     (let res = platform_get_resource pdev IORESOURCE_MEM 0 (mem s)
      in if res = 0 then (- ENODEV, s)
         else
           case devm_kzalloc (pdev + PDEV_OFF_DEV) 16 0 s of
             (data, s1) \<Rightarrow>
               if data = 0 then (- ENOMEM, s1)
               else
                 let start = mem s1 res; last_byte = mem s1 (res + 8);
                     s2 = s1\<lparr>mem := (mem s1)(data := devm_ioremap (pdev + PDEV_OFF_DEV) start (last_byte - start + 1))\<rparr>;
                     s3 = s2\<lparr>mem := store_int (data + 8) 42 (mem s2)\<rparr>
                 in (0, s3\<lparr>mem := dev_set_drvdata (pdev + PDEV_OFF_DEV) data (mem s3)\<rparr>))"

text \<open>
  The table \<^verbatim>\<open>.initcall.init\<close> is the list \<open>initcalls\<close> of function pointers, with \<open>run\<close> the call of one.
  The result is the number of calls made.
\<close>

primrec run_initcalls ::
  "(u64 \<Rightarrow> compat_state \<Rightarrow> (int \<times> compat_state) option) \<Rightarrow> u64 list \<Rightarrow> nat \<Rightarrow> compat_state \<Rightarrow> (nat \<times> compat_state) option" where
  "run_initcalls run [] count s = Some (count, s)"
| "run_initcalls run (fn # fns) count s =
     (if fn \<noteq> 0 then Option.bind (run fn s) (\<lambda>(ret, s1). run_initcalls run fns (count + 1) s1)
      else run_initcalls run fns count s)"

definition linux_compat_server ::
  "(u64 \<Rightarrow> compat_state \<Rightarrow> (int \<times> compat_state) option) \<Rightarrow> u64 list \<Rightarrow> u64 \<Rightarrow> compat_state \<Rightarrow> (nat \<times> compat_state) option" where
  "linux_compat_server run initcalls hello_pdev s =
     run_initcalls run initcalls 0 (snd (compat_register_platform_device hello_pdev s))"

section \<open>Strings in memory\<close>

definition cstr :: "memory \<Rightarrow> u64 \<Rightarrow> u8 list \<Rightarrow> bool" where
  "cstr m a bs \<longleftrightarrow> (\<forall>i<length bs. load8 m (a + of_nat i) = bs ! i \<and> bs ! i \<noteq> 0) \<and> load8 m (a + of_nat (length bs)) = 0"

lemma cstr_Nil: "cstr m a [] \<longleftrightarrow> load8 m a = 0"
  by (simp add: cstr_def)

lemma cstr_Cons: "cstr m a (b # bs) \<longleftrightarrow> load8 m a = b \<and> b \<noteq> 0 \<and> cstr m (a + 1) bs"
  by (auto simp: cstr_def All_less_Suc2 add.assoc)

lemma streq_correct: "cstr m a xs \<Longrightarrow> cstr m b ys \<Longrightarrow> streq m a b = Some (xs = ys)"
proof (induction xs arbitrary: a b ys)
  case Nil
  then show ?case by (subst streq.simps) (cases ys; auto simp: cstr_Nil cstr_Cons)
next
  case (Cons x xs)
  then show ?case by (subst streq.simps) (cases ys; auto simp: cstr_Nil cstr_Cons)
qed

section \<open>Small allocations\<close>

text \<open>
  The blocks handed out: each lies in a page in use, those in the current page of small allocations lie
  below its offset, and no two overlap.
\<close>

definition slab_ok :: "'a compat_state_scheme \<Rightarrow> bool" where
  "slab_ok s \<longleftrightarrow> mm_inv s \<and> unat (slab_offset s) \<le> 4096 \<and>
     (slab_page s = 0 \<or> (\<exists>p \<in> used_set s. p < MAX_PAGES \<and> slab_page s = page_addr p))"

definition block_ok :: "'a compat_state_scheme \<Rightarrow> u64 \<times> u64 \<Rightarrow> bool" where
  "block_ok s = (\<lambda>(a, n). \<exists>p \<in> used_set s. p < MAX_PAGES \<and>
     unat (page_addr p) \<le> unat a \<and> unat a + unat n \<le> unat (page_addr p) + 4096 \<and>
     (slab_page s = page_addr p \<longrightarrow> unat a + unat n \<le> unat (slab_page s) + unat (slab_offset s)))"

definition apart :: "u64 \<times> u64 \<Rightarrow> u64 \<times> u64 \<Rightarrow> bool" where
  "apart x y \<longleftrightarrow> unat (fst x) + unat (snd x) \<le> unat (fst y) \<or> unat (fst y) + unat (snd y) \<le> unat (fst x)"

definition blocks_ok :: "(u64 \<times> u64) list \<Rightarrow> 'a compat_state_scheme \<Rightarrow> bool" where
  "blocks_ok bs s \<longleftrightarrow> slab_ok s \<and> list_all (block_ok s) bs \<and> sorted_wrt apart bs"

lemma round16:
  assumes "n \<le> 2048"
  shows "unat n \<le> unat ((n + 15) AND NOT 15 :: u64)" "unat ((n + 15) AND NOT 15 :: u64) \<le> 2048"
proof -
  have "unat ((y :: u64) AND NOT 15) = unat y div 16 * 16" for y
    using unat_and_not_mask [of 4 y] by (simp add: mask_eq_exp_minus_1)
  then have "unat ((n + 15) AND NOT 15) = (unat n + 15) div 16 * 16"
    using assms unat_add_small [of n 15] by (simp add: word_le_nat_alt)
  moreover have "unat n \<le> 2048" using assms by (simp add: word_le_nat_alt)
  ultimately show "unat n \<le> unat ((n + 15) AND NOT 15 :: u64)" "unat ((n + 15) AND NOT 15 :: u64) \<le> 2048"
    by presburger+
qed


lemma compat_fields_mm:
  assumes "mm_state.more t = mm_state.more s"
  shows "slab_page t = slab_page s" "slab_offset t = slab_offset s"
  using assms by (cases s; cases t; simp)+

lemma mm_slab_update [simp]:
  "used_set (s\<lparr>slab_page := a\<rparr>) = used_set s" "used_set (s\<lparr>slab_offset := b\<rparr>) = used_set s"
  "mm_inv (s\<lparr>slab_page := a\<rparr>) = mm_inv s" "mm_inv (s\<lparr>slab_offset := b\<rparr>) = mm_inv s"
  by (simp_all add: used_set_def mm_inv_def bitmap_test_def)

definition in_page :: "nat \<Rightarrow> u64 \<times> u64 \<Rightarrow> bool" where
  "in_page p = (\<lambda>(a, n). unat (page_addr p) \<le> unat a \<and> unat a + unat n \<le> unat (page_addr p) + 4096)"

lemma block_okE:
  assumes "block_ok s x"
  obtains p where "p \<in> used_set s" "p < MAX_PAGES" "in_page p x"
    "slab_page s = page_addr p \<Longrightarrow> unat (fst x) + unat (snd x) \<le> unat (slab_page s) + unat (slab_offset s)"
  using assms by (auto simp: block_ok_def in_page_def split: prod.splits)

lemma block_okI:
  assumes "p \<in> used_set s" "p < MAX_PAGES" "in_page p x"
    "slab_page s = page_addr p \<Longrightarrow> unat (fst x) + unat (snd x) \<le> unat (slab_page s) + unat (slab_offset s)"
  shows "block_ok s x"
  using assms by (auto simp: block_ok_def in_page_def split: prod.splits)

lemma pages_apart:
  assumes "in_page p x" "in_page q y" "p \<noteq> q" "p < MAX_PAGES" "q < MAX_PAGES"
  shows "apart x y"
  using assms by (cases "p < q") (auto simp: in_page_def apart_def unat_page_addr split: prod.splits)

text \<open>A page that was free keeps out of the way of every block.\<close>

lemma blocks_new_page:
  assumes bs: "list_all (block_ok s) bs" and i: "i < MAX_PAGES" "i \<notin> used_set s" and used: "used_set s' = insert i (used_set s)"
    and slab: "slab_page s' = slab_page s \<and> slab_offset s' = slab_offset s \<or> slab_page s' = page_addr i" and x: "in_page i x"
  shows "list_all (block_ok s') bs" "list_all (apart x) bs"
proof -
  have "block_ok s' y \<and> apart x y" if "block_ok s y" for y
    using that
  proof (rule block_okE)
    fix p assume p: "p \<in> used_set s" "p < MAX_PAGES" "in_page p y"
      and below: "slab_page s = page_addr p \<Longrightarrow> unat (fst y) + unat (snd y) \<le> unat (slab_page s) + unat (slab_offset s)"
    have "p \<noteq> i" using p i by auto
    moreover have "block_ok s' y"
      by (rule block_okI [OF _ p(2,3)]) (use p i used slab below \<open>p \<noteq> i\<close> page_addr_inj in auto)
    ultimately show ?thesis using pages_apart [OF x p(3)] p(2) i(1) by auto
  qed
  then show "list_all (block_ok s') bs" "list_all (apart x) bs" using bs by (auto simp: list_all_iff)
qed

lemma blocks_ok_Cons:
  "blocks_ok (x # bs) s \<longleftrightarrow> slab_ok s \<and> block_ok s x \<and> list_all (block_ok s) bs \<and> list_all (apart x) bs \<and> sorted_wrt apart bs"
  by (auto simp: blocks_ok_def list_all_iff)

lemma slab_take:
  assumes ok: "blocks_ok bs s" and p: "slab_page s = page_addr p" "p \<in> used_set s" "p < MAX_PAGES"
    and n: "unat n \<le> unat r" "unat (slab_offset s) + unat r \<le> 4096"
  shows "blocks_ok ((slab_page s + slab_offset s, n) # bs) (s\<lparr>slab_offset := slab_offset s + r\<rparr>)"
proof -
  let ?a = "slab_page s + slab_offset s" and ?t = "s\<lparr>slab_offset := slab_offset s + r\<rparr>"
  have o: "unat (slab_offset s + r) = unat (slab_offset s) + unat r" using n by (simp add: unat_add_small)
  have a: "unat ?a = unat (page_addr p) + unat (slab_offset s)"
    using n p(3) by (simp add: p(1) unat_page_addr MAX_PAGES_def unat_add_small)
  have blk: "in_page p (?a, n)" using a n by (simp add: in_page_def)
  have "block_ok ?t (?a, n)" by (rule block_okI [OF _ p(3) blk]) (use p n a o in simp_all)
  moreover have "block_ok ?t y \<and> apart (?a, n) y" if "block_ok s y" for y
    using that
  proof (rule block_okE)
    fix q assume q: "q \<in> used_set s" "q < MAX_PAGES" "in_page q y"
      and below: "slab_page s = page_addr q \<Longrightarrow> unat (fst y) + unat (snd y) \<le> unat (slab_page s) + unat (slab_offset s)"
    have "block_ok ?t y" by (rule block_okI [OF _ q(2,3)]) (use q below o in auto)
    moreover have "apart (?a, n) y"
    proof (cases "q = p")
      case True then show ?thesis using below p(1) a by (simp add: apart_def)
    next
      case False then show ?thesis using pages_apart [OF blk q(3)] q(2) p(3) by simp
    qed
    ultimately show ?thesis ..
  qed
  moreover have "slab_ok ?t" using ok p n o by (auto simp: slab_ok_def blocks_ok_def)
  ultimately show ?thesis using ok unfolding blocks_ok_Cons by (auto simp: blocks_ok_def list_all_iff)
qed


lemma slab_roomE:
  assumes "slab_room r s = (True, t)" "slab_ok s" "unat r \<le> 2048"
  obtains (same) p where "t = s" "slab_page s = page_addr p" "p \<in> used_set s" "p < MAX_PAGES" "unat (slab_offset s) + unat r \<le> 4096"
  | (new) i s1 where "page_alloc s = (page_addr i, s1)" "t = s1\<lparr>slab_page := page_addr i, slab_offset := 0\<rparr>" "i < MAX_PAGES"
      "i \<notin> used_set s" "\<forall>j<i. j \<in> used_set s" "used_set t = insert i (used_set s)" "mm_inv t"
proof (cases "slab_page s = 0 \<or> slab_offset s + r > PAGE_SIZE")
  case True
  obtain a s1 where al: "page_alloc s = (a, s1)" by (cases "page_alloc s")
  then have a: "a \<noteq> 0" "t = s1\<lparr>slab_page := a, slab_offset := 0\<rparr>" using assms(1) True by (auto simp: slab_room_def split: if_splits)
  have "mm_inv s" using assms(2) by (simp add: slab_ok_def)
  from page_alloc_result [OF this al a(1)] show thesis using al a(2) new by (metis mm_slab_update)
next
  case False
  then have "t = s" using assms(1) by (simp add: slab_room_def)
  moreover have "unat (slab_offset s + r) = unat (slab_offset s) + unat r"
    using assms(2,3) by (simp add: slab_ok_def unat_add_small)
  ultimately show thesis using False assms(2) same by (auto simp: slab_ok_def not_less word_le_nat_alt)
qed

lemma kmalloc_small:
  assumes "kmalloc n f s = (a, s')" "a \<noteq> 0" "n \<le> 2048"
  obtains t where "n \<noteq> 0" "slab_room ((n + 15) AND NOT 15) s = (True, t)" "a = slab_page t + slab_offset t"
    "s' = t\<lparr>slab_offset := slab_offset t + ((n + 15) AND NOT 15)\<rparr>"
  using assms by (auto simp: kmalloc_def Let_def split: if_splits prod.splits bool.splits)

lemma kmalloc_large:
  assumes "n > 2048" "n \<le> 4096"
  shows "kmalloc n f s = page_alloc s"
proof -
  have "unat (4095 + n) = 4095 + unat n" using assms by (simp add: unat_add_small word_le_nat_alt)
  then have "unat ((n + PAGE_SIZE - 1) div PAGE_SIZE) \<le> 1"
    using assms by (simp add: unat_div_distrib word_le_nat_alt)
  then show ?thesis using assms by (auto simp: kmalloc_def Let_def word_less_nat_alt word_le_nat_alt)
qed

lemma slab_ok_mm:
  assumes "slab_ok s" "mm_inv t" "used_set s \<subseteq> used_set t" "slab_page t = slab_page s" "slab_offset t = slab_offset s"
  shows "slab_ok t"
  using assms by (auto simp: slab_ok_def)

lemma kmalloc_blocks:
  assumes ok: "blocks_ok bs s" and al: "kmalloc n f s = (a, s')" "a \<noteq> 0" and n: "n \<le> 4096"
  shows "blocks_ok ((a, n) # bs) s'"
proof (cases "n \<le> 2048")
  case True
  let ?r = "(n + 15) AND NOT 15"
  note r = round16 [OF True]
  have inv: "slab_ok s" using ok by (simp add: blocks_ok_def)
  from al True obtain t where t: "slab_room ?r s = (True, t)" "a = slab_page t + slab_offset t" "s' = t\<lparr>slab_offset := slab_offset t + ?r\<rparr>"
    by (rule kmalloc_small)
  from t(1) inv r(2) show ?thesis
  proof (cases rule: slab_roomE)
    case (same p)
    then show ?thesis using slab_take [OF ok same(2-4) r(1) same(5)] t by simp
  next
    case (new i s1)
    have "in_page i (page_addr i, 0)" by (simp add: in_page_def)
    from blocks_new_page [OF _ new(3,4,6) _ this] have "list_all (block_ok t) bs"
      using ok new(2) by (simp add: blocks_ok_def)
    then have "blocks_ok bs t" using ok new inv by (auto simp: blocks_ok_def slab_ok_def)
    from slab_take [OF this _ _ new(3) r(1)] show ?thesis using t new(2,6) r(2) by simp
  qed
next
  case False
  then have al': "page_alloc s = (a, s')" using al kmalloc_large n by (metis not_le)
  have inv: "mm_inv s" "slab_ok s" using ok by (simp_all add: blocks_ok_def slab_ok_def)
  from page_alloc_result [OF inv(1) al' al(2)] obtain i where
    i: "i < MAX_PAGES" "a = page_addr i" "i \<notin> used_set s" "used_set s' = insert i (used_set s)" "mm_inv s'" "mm_state.more s' = mm_state.more s"
    by metis
  note f = compat_fields_mm [OF i(6)]
  have x: "in_page i (a, n)" using n by (simp add: in_page_def i(2) word_le_nat_alt)
  have "slab_page s \<noteq> page_addr i" using inv(2) i(1,3) page_addr_nonzero by (metis page_addr_inj slab_ok_def)
  then have "block_ok s' (a, n)" by (intro block_okI [OF _ i(1) x]) (use i f in auto)
  moreover have "slab_ok s'" by (rule slab_ok_mm [OF inv(2) i(5)]) (use i f in auto)
  ultimately show ?thesis
    using blocks_new_page [OF _ i(1,3,4) _ x, of bs] ok f unfolding blocks_ok_Cons by (simp add: blocks_ok_def)
qed

lemma kmalloc_fails:
  assumes "kmalloc n f s = (0, s')" "slab_ok s" "n \<le> 4096"
  shows "s' = s \<and> (n = 0 \<or> used_set s = {..<MAX_PAGES})"
proof (cases "n \<le> 2048")
  case False
  then have "page_alloc s = (0, s')" using assms(1,3) kmalloc_large by (metis not_le)
  then show ?thesis using page_alloc_fail by blast
next
  case True
  let ?r = "(n + 15) AND NOT 15"
  obtain b t where room: "slab_room ?r s = (b, t)" by (cases "slab_room ?r s")
  have "\<not> b \<or> n = 0"
  proof (rule ccontr)
    assume "\<not> ?thesis"
    then have b: b "n \<noteq> 0" by auto
    then have z: "slab_page t + slab_offset t = 0" using assms(1) True room by (simp add: kmalloc_def Let_def)
    from room [unfolded b(1) [THEN eqTrueI]] assms(2) round16(2) [OF True] show False
    proof (cases rule: slab_roomE)
      case (same p)
      then have "unat (slab_page t + slab_offset t) \<ge> 0x40000000"
        by (simp add: unat_page_addr MAX_PAGES_def unat_add_small)
      then show False using z by simp
    next
      case (new i s1)
      then show False using z by simp
    qed
  qed
  then show ?thesis
    using assms(1) True room by (auto simp: kmalloc_def Let_def slab_room_def dest: page_alloc_fail split: if_splits prod.splits)
qed


section \<open>Properties of the allocator\<close>

text \<open>
  C28. \<^verbatim>\<open>kmalloc\<close> of at most a page: the block lies within one page that is in use and overlaps none of the
  blocks handed out before, so any number of blocks is pairwise disjoint. It fails, changing nothing,
  only for size zero or when every page is in use.
\<close>

theorem kmalloc_blocks_apart:
  assumes "blocks_ok bs s" "kmalloc n f s = (a, s')" "n \<le> 4096"
  shows "if a = 0 then s' = s \<and> (n = 0 \<or> used_set s = {..<MAX_PAGES}) else blocks_ok ((a, n) # bs) s'"
  using assms kmalloc_blocks [OF assms(1,2)] kmalloc_fails [of n f s s'] by (auto simp: blocks_ok_def)

text \<open>
  C39. \<^verbatim>\<open>kfree\<close> of the first small block of a page, whose address is the page's, gives the whole page back
  while the blocks behind it are still in use: the next \<^verbatim>\<open>page_alloc\<close> returns the page that holds them.
\<close>

theorem kfree_releases_live_blocks:
  assumes "mm_inv s" "slab_page s = 0" "n \<le> 2048" "m \<le> 2048"
    and al: "kmalloc n f s = (a, s1)" "a \<noteq> 0" "kmalloc m f s1 = (b, s2)" "b \<noteq> 0"
  shows "fst (page_alloc (kfree a s2)) = a \<and> unat a + unat n \<le> unat b \<and> unat b + unat m \<le> unat a + 4096"
proof -
  let ?r = "(n + 15) AND NOT 15" and ?q = "(m + 15) AND NOT 15"
  note r = round16 [OF assms(3)] and q = round16 [OF assms(4)]
  from al(1,2) assms(3) obtain t where t: "slab_room ?r s = (True, t)" "a = slab_page t + slab_offset t" "s1 = t\<lparr>slab_offset := slab_offset t + ?r\<rparr>"
    by (rule kmalloc_small)
  obtain i u where new: "page_alloc s = (page_addr i, u)" "t = u\<lparr>slab_page := page_addr i, slab_offset := 0\<rparr>" "i < MAX_PAGES"
    "i \<notin> used_set s" "\<forall>j<i. j \<in> used_set s" "used_set t = insert i (used_set s)" "mm_inv t"
  proof -
    obtain c u where c: "page_alloc s = (c, u)" by (cases "page_alloc s")
    then have "c \<noteq> 0" "t = u\<lparr>slab_page := c, slab_offset := 0\<rparr>"
      using t(1) assms(2) by (auto simp: slab_room_def split: if_splits)
    then show thesis using page_alloc_result [OF assms(1) c] c that by (metis mm_slab_update)
  qed
  have s1: "slab_page s1 = page_addr i" "slab_offset s1 = ?r" "used_set s1 = used_set t" "mm_inv s1" using t(3) new(2,7) by simp_all
  have "\<not> slab_offset s1 + ?q > PAGE_SIZE"
    using r(2) q(2) by (simp add: s1(2) not_less word_le_nat_alt unat_add_small)
  then have room: "slab_room ?q s1 = (True, s1)" using s1(1) new(3) by (simp add: slab_room_def)
  from al(3,4) assms(4) obtain t2 where t2: "slab_room ?q s1 = (True, t2)" "b = slab_page t2 + slab_offset t2" "s2 = t2\<lparr>slab_offset := slab_offset t2 + ?q\<rparr>"
    by (rule kmalloc_small)
  then have s2: "b = page_addr i + ?r" "used_set s2 = insert i (used_set s)" "mm_inv s2" using room s1 new(6) by simp_all
  have ub: "unat b = unat (page_addr i) + unat ?r" using r(2) new(3) by (simp add: s2(1) unat_page_addr MAX_PAGES_def unat_add_small)
  have a: "a = page_addr i" using t(2) new(2) by simp
  have "a AND (PAGE_SIZE - 1) = 0"
  proof -
    have "take_bit 12 a = 0" using new(3) by (simp add: a flip: aligned_take_bit)
    then show ?thesis by (simp add: take_bit_eq_mask mask_eq_exp_minus_1)
  qed
  then have k: "kfree a s2 = release_page i s2" using al(2) new(3) by (simp add: kfree_def a page_free_page_addr)
  have free: "used_set (kfree a s2) = used_set s" using s2 new(3,4) by (simp add: k used_set_release)
  have "fst (page_alloc (kfree a s2)) = page_addr i"
  proof (cases "kfree a s2" rule: page_alloc_cases)
    case fail
    then show ?thesis using free new(3,4) by auto
  next
    case (ok j)
    then show ?thesis using free new(4,5) by (metis fst_conv linorder_neqE_nat)
  qed
  then show ?thesis using ub r q a by (simp add: s2(1)) 
qed

text \<open>
  Rounding a size of nearly \<open>2\<^sup>6\<^sup>4\<close> up to pages wraps around to zero pages: \<^verbatim>\<open>kmalloc\<close> then returns a single
  page instead of failing.
\<close>

theorem kmalloc_huge_wraps:
  assumes "n > 0xFFFFFFFFFFFFF000"
  shows "kmalloc n f s = page_alloc s"
proof -
  have "unat n > 0xFFFFFFFFFFFFF000" "unat n < 2 ^ 64" using assms unsigned_less [of n] by (simp_all add: word_less_nat_alt)
  then have "unat (4095 + n) = unat n - 0xFFFFFFFFFFFFF001" by (simp add: unat_word_ariths mod_if)
  then have "unat (4095 + n) < 4096" using \<open>unat n < 2 ^ 64\<close> by simp
  then have "(4095 + n) div 4096 = 0" by (simp add: word_unat_eq_iff unat_div_distrib)
  then show ?thesis using assms by (auto simp: kmalloc_def Let_def word_less_nat_alt word_le_nat_alt)
qed


section \<open>Devices and drivers\<close>

text \<open>
  \<open>probes call f ps\<close> calls the function at \<open>f\<close> for each of the pointers \<open>ps\<close> in turn.
\<close>

fun probes :: "(u64 \<Rightarrow> u64 \<Rightarrow> compat_state \<Rightarrow> (int \<times> compat_state) option) \<Rightarrow> u64 \<Rightarrow> u64 list \<Rightarrow> compat_state \<Rightarrow> compat_state option" where
  "probes call f [] s = Some s"
| "probes call f (p # ps) s = Option.bind (call f p s) (\<lambda>(ret, s1). probes call f ps s1)"

text \<open>The registered devices and driver \<open>k\<close>, with the names they have in memory.\<close>

definition registered :: "(u8 list \<times> u64) list \<Rightarrow> nat \<Rightarrow> u8 list \<Rightarrow> u64 \<Rightarrow> compat_state \<Rightarrow> bool" where
  "registered devs k name f s \<longleftrightarrow> pdevice_count s = length devs \<and> pr_probe (pdrivers s ! k) = f \<and> cstr (mem s) (pr_name (pdrivers s ! k)) name \<and>
     (\<forall>i<length devs. pd_active (pdevices s ! i) \<and> cstr (mem s) (pd_name (pdevices s ! i)) (fst (devs ! i)) \<and>
        platform_device_ptr (pdevices s ! i) = snd (devs ! i))"

text \<open>
  The loop calls the driver's probe function exactly for the devices of its name, in the order of
  their registration. A probe function is expected to return and to leave the registration and the
  names alone.
\<close>

lemma match_loop_probes:
  assumes "registered devs k name f s" "i \<le> length devs"
    and "\<And>p t. registered devs k name f t \<Longrightarrow> \<exists>ret t'. call f p t = Some (ret, t') \<and> registered devs k name f t'"
  shows "match_loop call k i s = probes call f (map snd (filter (\<lambda>d. fst d = name) (drop i devs))) s"
  using assms(1,2)
proof (induction "length devs - i" arbitrary: i s)
  case 0
  then show ?case by (subst match_loop.simps) (simp add: registered_def)
next
  case (Suc n)
  then have i: "i < length devs" by simp
  have d: "pd_active (pdevices s ! i)" "streq (mem s) (pd_name (pdevices s ! i)) (pr_name (pdrivers s ! k)) = Some (fst (devs ! i) = name)"
    "platform_device_ptr (pdevices s ! i) = snd (devs ! i)" "pr_probe (pdrivers s ! k) = f" "pdevice_count s = length devs"
    using Suc.prems(1) i by (auto simp: registered_def intro!: streq_correct)
  have drop: "drop i devs = devs ! i # drop (Suc i) devs" using i by (simp add: Cons_nth_drop_Suc)
  have n: "n = length devs - Suc i" "Suc i \<le> length devs" using Suc.hyps(2) i by simp_all
  show ?case
  proof (cases "fst (devs ! i) = name")
    case False
    then show ?thesis using Suc.hyps(1) [OF n(1) Suc.prems(1) n(2)] d i by (subst match_loop.simps) (simp add: drop)
  next
    case True
    obtain ret t where t: "call f (snd (devs ! i)) s = Some (ret, t)" "registered devs k name f t" using assms(3) [OF Suc.prems(1)] by blast
    show ?thesis using Suc.hyps(1) [OF n(1) t(2) n(2)] d i True t(1) by (subst match_loop.simps) (simp add: drop)
  qed
qed

lemma probes_return:
  assumes "registered devs k name f s"
    and "\<And>p t. registered devs k name f t \<Longrightarrow> \<exists>ret t'. call f p t = Some (ret, t') \<and> registered devs k name f t'"
  shows "\<exists>t. probes call f ps s = Some t \<and> registered devs k name f t"
  using assms(1)
proof (induction ps arbitrary: s)
  case (Cons p ps)
  obtain ret t where "call f p s = Some (ret, t)" "registered devs k name f t" using assms(2) [OF Cons.prems] by blast
  then show ?case using Cons.IH by simp
qed simp

text \<open>
  Registration of a driver: recorded in the next free entry, and its probe function called for exactly
  the active devices of the same name.
\<close>

theorem platform_driver_register_matches:
  assumes "pdriver_count s < 8" and s1: "s1 = s\<lparr>pdrivers := (pdrivers s)[pdriver_count s :=
      \<lparr>pr_name = pdrv_name (mem s) drv, pr_probe = f, pr_remove = 0, pr_active = True\<rparr>], pdriver_count := pdriver_count s + 1\<rparr>"
    and "f = pdrv_probe (mem s) drv" "registered devs (pdriver_count s) name f s1"
    and "\<And>p t. registered devs (pdriver_count s) name f t \<Longrightarrow> \<exists>ret t'. call f p t = Some (ret, t') \<and> registered devs (pdriver_count s) name f t'"
  shows "\<exists>s'. platform_driver_register call drv s = Some (0, s') \<and>
    probes call f (map snd (filter (\<lambda>d. fst d = name) devs)) s1 = Some s'"
proof -
  have "match_loop call (pdriver_count s) 0 s1 = probes call f (map snd (filter (\<lambda>d. fst d = name) devs)) s1"
    using match_loop_probes [OF assms(4), of 0 call] assms(5) by simp
  moreover obtain s' where "probes call f (map snd (filter (\<lambda>d. fst d = name) devs)) s1 = Some s'"
    using probes_return [OF assms(4), of call] assms(5) by blast
  ultimately show ?thesis
    using assms(1,3) by (simp add: platform_driver_register_def MAX_PLATFORM_DRIVERS_def Let_def s1)
qed

text \<open>The resources of a kind, in the order of the table.\<close>

lemma resource_loop_nth:
  assumes "count \<le> wanted"
  shows "resource_loop m b type wanted n i count =
    (let rs = filter (\<lambda>r. m (r + 16) AND ucast type = ucast type) (map (\<lambda>j. b + ucast (of_nat j * 32 :: u32)) [i..<i + n])
     in if wanted - count < length rs then rs ! (wanted - count) else 0)"
  using assms
proof (induction n arbitrary: i count)
  case (Suc n)
  have "[i..<i + Suc n] = i # [Suc i..<Suc i + n]" by (simp add: upt_rec)
  then show ?case using Suc.prems by (auto simp: Suc.IH Let_def nth_Cons' simp del: upt_Suc)
qed (simp add: Let_def)


section \<open>The hello driver\<close>

lemma bit_low32: "bit (0xFFFFFFFF :: int) k \<longleftrightarrow> k < 32"
proof -
  have "bit (mask 32 :: int) k \<longleftrightarrow> k < 32" by (simp add: bit_mask_iff)
  then show ?thesis by (simp add: mask_eq_exp_minus_1)
qed

lemma store8_other: "word_at a \<noteq> x \<Longrightarrow> store8 a v m x = m x"
  by (simp add: store8_def)

lemma memset_loop_other: "(\<And>j. j < n \<Longrightarrow> word_at (p + of_nat j) \<noteq> x) \<Longrightarrow> memset_loop p c n m x = m x"
proof (induction n arbitrary: p m)
  case (Suc n)
  have "word_at (p + 1 + of_nat j) \<noteq> x" if "j < n" for j using Suc.prems [of "Suc j"] that by (simp add: add.assoc)
  then show ?case using Suc.IH [of "p + 1"] Suc.prems [of 0] by (simp add: store8_other)
qed simp

lemma unat_word_at: "unat (word_at a) = unat a div 8 * 8"
  using unat_and_not_mask [of 3 a] by (simp add: word_at_def mask_eq_exp_minus_1)

text \<open>The first small allocation: a new page, and nothing below the page changes.\<close>

lemma kzalloc_first:
  assumes "mm_inv s" "slab_page s = 0" "i < MAX_PAGES" "i \<notin> used_set s" "\<forall>j<i. j \<in> used_set s"
  obtains s' where "kzalloc 16 f s = (page_addr i, s')" "used_set s' = insert i (used_set s)"
    "\<And>x. unat x < unat (page_addr i) \<Longrightarrow> mem s' x = mem s x" "pdevice_count s' = pdevice_count s"
proof -
  obtain a u where al: "page_alloc s = (a, u)" by (cases "page_alloc s")
  have a: "a = page_addr i"
  proof (cases s rule: page_alloc_cases)
    case (ok j)
    then have "j = i" using assms(4,5) by (metis linorder_neqE_nat)
    then show ?thesis using ok(4) al by simp
  qed (use assms(3,4) in auto)
  then have "a \<noteq> 0" using assms(3) by simp
  from page_alloc_result [OF assms(1) al this] have u: "used_set u = insert i (used_set s)" "mem u = zero_words a PAGE_WORDS (mem s)"
    "mm_state.more u = mm_state.more s"
    using a assms(3) by (metis page_addr_inj)+
  let ?t = "u\<lparr>slab_page := a, slab_offset := 16, mem := memset_loop a 0 16 (mem u)\<rparr>"
  have "kzalloc 16 f s = (page_addr i, ?t)"
    using al assms(2) \<open>a \<noteq> 0\<close> by (simp add: kzalloc_def kmalloc_def slab_room_def a)
  moreover have "used_set ?t = insert i (used_set s)" using u(1) by simp
  moreover have "mem ?t x = mem s x" if x: "unat x < unat (page_addr i)" for x
  proof -
    have pa: "unat (page_addr i) = 0x40000000 + i * 4096" "i < 32768" using assms(3) by (simp_all add: unat_page_addr MAX_PAGES_def)
    have "word_at (a + of_nat j) \<noteq> x" if "j < 16" for j
    proof
      assume w: "word_at (a + of_nat j) = x"
      have "unat (a + of_nat j) = unat (page_addr i) + j"
        using that pa by (simp add: a unat_add_small unat_of_nat_small)
      then have "unat x = (j + (0x8000000 + i * 512) * 8) div 8 * 8" using w pa unat_word_at [of "a + of_nat j"] by (simp add: add.commute)
      moreover have "(j + (0x8000000 + i * 512) * 8) div 8 = (0x8000000 + i * 512) + j div 8" by (rule div_mult_self1) simp
      ultimately show False using x pa by simp
    qed
    then have "mem ?t x = mem u x" by (simp add: memset_loop_other)
    moreover have "x \<notin> page_cells i"
    proof
      assume "x \<in> page_cells i"
      then obtain j where "x = page_addr i + 8 * of_nat j" "j < 512" by (auto simp: page_cells_def PAGE_WORDS_def)
      then have "unat x = unat (page_addr i) + 8 * j"
        using pa by (simp add: unat_add_small unat_mult_small unat_of_nat_small)
      then show False using x by simp
    qed
    ultimately show ?thesis using u(2) zero_page_apply [of i "mem s" x] assms(3) a by simp
  qed
  moreover have "pdevice_count ?t = pdevice_count s" using u(3) by (cases s; cases u) simp
  ultimately show thesis by (rule that)
qed


text \<open>
  The data of the hello driver in memory: the platform device, its resource table, the driver structure
  and the two names, all below the pages that are free.
\<close>

definition hello_call :: "u64 \<Rightarrow> u64 \<Rightarrow> u64 \<Rightarrow> compat_state \<Rightarrow> (int \<times> compat_state) option" where
  "hello_call probe_ptr f p s = (if f = probe_ptr then Some (hello_probe p s) else None)"

definition hello_init :: "u64 \<Rightarrow> u64 \<Rightarrow> u64 \<Rightarrow> u64 \<Rightarrow> compat_state \<Rightarrow> (int \<times> compat_state) option" where
  "hello_init init_ptr probe_ptr drv fn s =
     (if fn = init_ptr then platform_driver_register (hello_call probe_ptr) drv s else None)"

definition hello_image :: "u64 \<Rightarrow> u64 \<Rightarrow> u64 \<Rightarrow> u8 list \<Rightarrow> memory \<Rightarrow> bool" where
  "hello_image pdev drv probe_ptr name m \<longleftrightarrow>
     cstr m (pdev_name m pdev) name \<and> cstr m (pdrv_name m drv) name \<and> pdrv_probe m drv = probe_ptr \<and> pdev_num_res m pdev = 1 \<and>
     (let res = pdev_resource m pdev
      in res \<noteq> 0 \<and> m res = 0x0A000000 \<and> m (res + 8) = 0x0A0001FF \<and> m (res + 16) AND 0x200 = 0x200)"

text \<open>
  C18. The compatibility server, run with the hello device and driver: the device is registered, the empty
  entry of the table is skipped, the driver's initialisation finds the device by its name and calls the
  probe function, which finds the memory resource, gets a block of its own and leaves there the address
  of the resource and the value 42, with the block as the device's driver data. One call is counted.
\<close>

theorem hello_driver_loads:
  assumes img: "hello_image pdev drv probe_ptr name (mem s)" and fn: "init_ptr \<noteq> 0"
    and start: "mm_inv s" "slab_page s = 0" "pdevice_count s = 0" "pdriver_count s = 0"
      "length (pdevices s) = 8" "length (pdrivers s) = 8"
    and i: "i < MAX_PAGES" "i \<notin> used_set s" "\<forall>j<i. j \<in> used_set s"
    and below: "unat (pdev + 24) < unat (page_addr i)" "unat (pdev_resource (mem s) pdev) < unat (page_addr i)"
      "unat (pdev_resource (mem s) pdev + 8) < unat (page_addr i)"
  shows "\<exists>s'. linux_compat_server (hello_init init_ptr probe_ptr drv) [0, init_ptr] pdev s = Some (1, s') \<and>
    dev_get_drvdata (pdev + PDEV_OFF_DEV) (mem s') = page_addr i \<and> used_set s' = insert i (used_set s) \<and>
    mem s' (page_addr i) = 0x0A000000 \<and> ucast (mem s' (page_addr i + 8)) = (42 :: u32)"
proof -
  let ?res = "pdev_resource (mem s) pdev"
  have im: "cstr (mem s) (pdev_name (mem s) pdev) name" "cstr (mem s) (pdrv_name (mem s) drv) name" "pdrv_probe (mem s) drv = probe_ptr"
    "pdev_num_res (mem s) pdev = 1" "?res \<noteq> 0" "mem s ?res = 0x0A000000" "mem s (?res + 16) AND 0x200 = 0x200"
    using img by (simp_all add: hello_image_def Let_def)
  define s1 where "s1 = snd (compat_register_platform_device pdev s)"
  define s2 where "s2 = s1\<lparr>pdrivers := (pdrivers s1)[0 := \<lparr>pr_name = pdrv_name (mem s1) drv, pr_probe = probe_ptr, pr_remove = 0, pr_active = True\<rparr>], pdriver_count := 1\<rparr>"
  have s2: "mem s2 = mem s" "slab_page s2 = 0" "mm_inv s2" "used_set s2 = used_set s" "pdevice_count s2 = 1"
    "pdevices s2 ! 0 = \<lparr>pd_name = pdev_name (mem s) pdev, pd_id = 0, pd_num_resources = pdev_num_res (mem s) pdev,
       pd_resources = ?res, platform_device_ptr = pdev, pd_active = True\<rparr>"
    "pdrivers s2 ! 0 = \<lparr>pr_name = pdrv_name (mem s) drv, pr_probe = probe_ptr, pr_remove = 0, pr_active = True\<rparr>"
    using start by (simp_all add: s2_def s1_def compat_register_platform_device_def MAX_PLATFORM_DEVICES_def Let_def mm_inv_def used_set_def bitmap_test_def)
  obtain s3 where s3: "kzalloc 16 0 s2 = (page_addr i, s3)" "used_set s3 = insert i (used_set s)"
    "\<And>x. unat x < unat (page_addr i) \<Longrightarrow> mem s3 x = mem s x" "pdevice_count s3 = 1"
    using kzalloc_first [OF s2(3,2) i(1), of 0] i(2,3) s2(1,4,5) by metis
  define s4 where "s4 = s3\<lparr>mem := dev_set_drvdata (pdev + 16) (page_addr i) (store_int (page_addr i + 8) 42 ((mem s3)(page_addr i := 0x0A000000)))\<rparr>"
  have probe: "hello_probe pdev s2 = (0, s4)"
  proof -
    have "platform_get_resource pdev IORESOURCE_MEM 0 (mem s2) = ?res"
      using im(4,7) by (simp add: platform_get_resource_def s2(1) IORESOURCE_MEM_def Let_def)
    moreover have "mem s3 ?res = 0x0A000000" using s3(3) below(2) im(6) by simp
    ultimately show ?thesis
      using s3(1) im(5) i(1) by (simp add: hello_probe_def s4_def devm_kzalloc_def devm_ioremap_def ioremap_def PDEV_OFF_DEV_def Let_def)
  qed
  have "streq (mem s2) (pd_name (pdevices s2 ! 0)) (pr_name (pdrivers s2 ! 0)) = Some True"
    using streq_correct [OF im(1,2)] by (simp add: s2)
  moreover have "match_loop (hello_call probe_ptr) 0 1 s4 = Some s4"
    by (subst match_loop.simps) (simp add: s4_def s3(4))
  ultimately have "match_loop (hello_call probe_ptr) 0 0 s2 = Some s4"
    using probe by (subst match_loop.simps) (simp add: s2(5-7) hello_call_def)
  moreover have "mem s1 = mem s" "pdriver_count s1 = 0" using start(4) by (simp_all add: s1_def compat_register_platform_device_def Let_def)
  ultimately have "hello_init init_ptr probe_ptr drv init_ptr s1 = Some (0, s4)"
    using im(3) by (simp add: hello_init_def platform_driver_register_def MAX_PLATFORM_DRIVERS_def Let_def s2_def)
  then have "linux_compat_server (hello_init init_ptr probe_ptr drv) [0, init_ptr] pdev s = Some (1, s4)"
    using fn by (simp add: linux_compat_server_def s1_def)
  moreover have "pdev + 24 \<noteq> page_addr i" using below(1) by auto
  moreover have "pdev + 24 \<noteq> page_addr i + 8"
  proof -
    have "unat (page_addr i + 8) = unat (page_addr i) + 8" using i(1) by (simp add: unat_page_addr MAX_PAGES_def unat_add_small)
    then show ?thesis using below(1) by (metis add.commute less_imp_not_less not_add_less1)
  qed
  moreover have "(ucast ((x AND NOT 0xFFFFFFFF) OR ucast (42 :: u32)) :: u32) = 42" for x :: u64
    by (rule bit_word_eqI) (simp add: bit_simps bit_low32)
  ultimately show ?thesis
    using s3(2) by (auto simp: s4_def dev_set_drvdata_def dev_get_drvdata_def store_int_def PDEV_OFF_DEV_def add.assoc)
qed


text \<open>A machine with 256 pages in use that holds these data at the start of memory.\<close>

definition hello_memory :: memory where
  "hello_memory = (\<lambda>_. 0)(0x40000000 := 0x40000100, 0x40000030 := 1, 0x40000038 := 0x40000080,
     0x40000080 := 0x0A000000, 0x40000088 := 0x0A0001FF, 0x40000090 := 0x200,
     0x400000C0 := 0x40000800, 0x400000D8 := 0x40000100, 0x40000100 := 0x6F6C6C6568)"

definition hello_machine :: compat_state where
  "hello_machine = (irq_state.extend (irq_machine [- 1, - 1, - 1, - 1] (\<lambda>_. TASK_DEAD) 0)
     \<lparr>slab_page = 0, slab_offset = 0,
      pdevices = replicate 8 \<lparr>pd_name = 0, pd_id = 0, pd_num_resources = 0, pd_resources = 0, platform_device_ptr = 0, pd_active = False\<rparr>,
      pdrivers = replicate 8 \<lparr>pr_name = 0, pr_probe = 0, pr_remove = 0, pr_active = False\<rparr>, pdevice_count = 0, pdriver_count = 0\<rparr>)
     \<lparr>page_bitmap := page_bitmap mm_boot, total_pages := total_pages mm_boot, used_pages := used_pages mm_boot, mem := hello_memory\<rparr>"

lemma hello_machine_spec:
  "mm_inv hello_machine" "used_set hello_machine = {..<256}" "mem hello_machine = hello_memory" "slab_page hello_machine = 0"
  "slab_offset hello_machine = 0" "pdevice_count hello_machine = 0" "pdriver_count hello_machine = 0"
  "length (pdevices hello_machine) = 8" "length (pdrivers hello_machine) = 8"
  using mm_boot_spec(1,2) by (simp_all add: hello_machine_def mm_inv_def used_set_def bitmap_test_def irq_state.defs)

lemma hello_image_boot: "hello_image 0x40000000 0x400000C0 0x40000800 [0x68, 0x65, 0x6C, 0x6C, 0x6F] hello_memory"
proof -
  have "cstr hello_memory 0x40000100 [0x68, 0x65, 0x6C, 0x6C, 0x6F]"
    by (simp add: cstr_Cons cstr_Nil load8_def word_at_def lane_def hello_memory_def)
  then show ?thesis
    by (simp add: hello_image_def pdev_name_def pdrv_name_def pdrv_probe_def pdev_num_res_def pdev_resource_def PDEV_OFF_NAME_def PDRV_OFF_NAME_def
        PDRV_OFF_PROBE_def PDEV_OFF_NUMRES_def PDEV_OFF_RESOURCE_def) (simp add: hello_memory_def)
qed

theorem hello_driver_loads_witness:
  "\<exists>s'. linux_compat_server (hello_init 0x40000900 0x40000800 0x400000C0) [0, 0x40000900] 0x40000000 hello_machine = Some (1, s') \<and>
     mem s' 0x40100000 = 0x0A000000 \<and> used_set s' = insert 256 {..<256}"
proof -
  have pa: "page_addr 256 = 0x40100000" by (simp add: page_addr_def)
  have res: "pdev_resource hello_memory 0x40000000 = 0x40000080" by (simp add: pdev_resource_def PDEV_OFF_RESOURCE_def hello_memory_def)
  have "\<exists>s'. linux_compat_server (hello_init 0x40000900 0x40000800 0x400000C0) [0, 0x40000900] 0x40000000 hello_machine = Some (1, s') \<and>
    dev_get_drvdata (0x40000000 + PDEV_OFF_DEV) (mem s') = page_addr 256 \<and> used_set s' = insert 256 (used_set hello_machine) \<and>
    mem s' (page_addr 256) = 0x0A000000 \<and> ucast (mem s' (page_addr 256 + 8)) = (42 :: u32)"
    by (rule hello_driver_loads [where name = "[0x68, 0x65, 0x6C, 0x6C, 0x6F]"])
      (simp_all add: hello_machine_spec hello_image_boot pa res MAX_PAGES_def)
  then show ?thesis by (auto simp: pa hello_machine_spec)
qed

lemma blocks_start: "blocks_ok [] hello_machine"
  by (simp add: blocks_ok_def slab_ok_def hello_machine_spec)

theorem kmalloc_blocks_apart_witness:
  "\<exists>a s1 b s2. kmalloc 24 0 hello_machine = (a, s1) \<and> kmalloc 4000 0 s1 = (b, s2) \<and> a \<noteq> 0 \<and> (b = 0 \<or> blocks_ok [(b, 4000), (a, 24)] s2)"
proof -
  obtain a s1 where a: "kmalloc 24 0 hello_machine = (a, s1)" by (cases "kmalloc 24 0 hello_machine")
  obtain b s2 where b: "kmalloc 4000 0 s1 = (b, s2)" by (cases "kmalloc 4000 0 s1")
  have "used_set hello_machine \<noteq> {..<MAX_PAGES}" by (simp add: hello_machine_spec MAX_PAGES_def)
  then have "a \<noteq> 0" using kmalloc_blocks_apart [OF blocks_start a] by (auto split: if_splits)
  moreover from this have "blocks_ok [(a, 24)] s1" using kmalloc_blocks_apart [OF blocks_start a] by simp
  from kmalloc_blocks_apart [OF this b] have "b = 0 \<or> blocks_ok [(b, 4000), (a, 24)] s2" by (simp split: if_splits)
  ultimately show ?thesis using a b by blast
qed


theorem kfree_releases_live_blocks_witness:
  "\<exists>a s1 b s2. kmalloc 24 0 hello_machine = (a, s1) \<and> kmalloc 40 0 s1 = (b, s2) \<and> b \<noteq> 0 \<and>
     fst (page_alloc (kfree a s2)) = a \<and> unat b + 40 \<le> unat a + 4096"
proof -
  obtain a s1 where a: "kmalloc 24 0 hello_machine = (a, s1)" by (cases "kmalloc 24 0 hello_machine")
  obtain b s2 where b: "kmalloc 40 0 s1 = (b, s2)" by (cases "kmalloc 40 0 s1")
  have inv: "slab_ok hello_machine" by (simp add: slab_ok_def hello_machine_spec)
  have a0: "a \<noteq> 0" using kmalloc_fails [of 24 0 hello_machine s1] inv a by (auto simp: hello_machine_spec MAX_PAGES_def)
  then have ok1: "slab_ok s1" using kmalloc_blocks [OF blocks_start a] by (simp add: blocks_ok_def)
  from a a0 obtain t where t: "slab_room ((24 + 15) AND NOT 15) hello_machine = (True, t)" "s1 = t\<lparr>slab_offset := slab_offset t + ((24 + 15) AND NOT 15)\<rparr>"
    by (rule kmalloc_small) simp_all
  then obtain i where "used_set s1 = insert i {..<256}"
  proof (cases rule: slab_roomE [OF t(1) inv])
    case (3 i u)
    then show thesis using t(2) that by (simp add: hello_machine_spec)
  qed (simp_all add: hello_machine_spec)
  moreover have "insert i {..<256} \<noteq> {..<32768 :: nat}" for i
  proof
    assume "insert i {..<256} = {..<32768 :: nat}"
    then have "300 \<in> insert i {..<256 :: nat}" "301 \<in> insert i {..<256 :: nat}" by simp_all
    then show False by simp
  qed
  ultimately have b0: "b \<noteq> 0" using kmalloc_fails [of 40 0 s1 s2] ok1 b by (auto simp: MAX_PAGES_def)
  from kfree_releases_live_blocks [OF hello_machine_spec(1,4) _ _ a a0 b b0]
  show ?thesis using a b b0 by simp
qed

end
