(* ===== verification/Gpu.thy ===== *)
theory Gpu
  imports Mm Font
begin

text \<open>
  Graphics primitives (\<^verbatim>\<open>kernel/gpu.c\<close>). Pixel buffers are memory objects: the page allocator
  makes one of 1024 zero pixels a page, freeing the pages takes it away, and a store or a load
  outside the object sets \<open>fault\<close>. Coordinates are unbounded integers: the callers pass values of
  the order of the screen size, for which the C sums do not overflow.

  What a drawing operation puts on its target is specified by a picture, a partial function from
  coordinates to colours, and each operation is shown to be exactly the painting of its picture,
  clipped to the target.
\<close>

section \<open>State\<close>

definition FB_WIDTH :: int where "FB_WIDTH = 640"
definition FB_HEIGHT :: int where "FB_HEIGHT = 480"
definition FB_SIZE :: u64 where "FB_SIZE = 640 * 480 * 4"
definition FONT_WIDTH :: int where "FONT_WIDTH = 8"
definition FONT_HEIGHT :: int where "FONT_HEIGHT = 16"

abbreviation COLOR_BLACK :: u32 where "COLOR_BLACK \<equiv> 0x00000000"
abbreviation COLOR_WHITE :: u32 where "COLOR_WHITE \<equiv> 0x00FFFFFF"
abbreviation COLOR_RED :: u32 where "COLOR_RED \<equiv> 0x00FF0000"
abbreviation COLOR_GREEN :: u32 where "COLOR_GREEN \<equiv> 0x0000FF00"
abbreviation COLOR_BLUE :: u32 where "COLOR_BLUE \<equiv> 0x000000FF"
abbreviation COLOR_YELLOW :: u32 where "COLOR_YELLOW \<equiv> 0x00FFFF00"
abbreviation COLOR_CYAN :: u32 where "COLOR_CYAN \<equiv> 0x0000FFFF"
abbreviation COLOR_MAGENTA :: u32 where "COLOR_MAGENTA \<equiv> 0x00FF00FF"
abbreviation COLOR_GRAY :: u32 where "COLOR_GRAY \<equiv> 0x00808080"
abbreviation COLOR_DKGRAY :: u32 where "COLOR_DKGRAY \<equiv> 0x00404040"
abbreviation COLOR_LTGRAY :: u32 where "COLOR_LTGRAY \<equiv> 0x00C0C0C0"
abbreviation COLOR_ORANGE :: u32 where "COLOR_ORANGE \<equiv> 0x00FF8000"
abbreviation COLOR_DKBLUE :: u32 where "COLOR_DKBLUE \<equiv> 0x00000080"
abbreviation COLOR_DKGREEN :: u32 where "COLOR_DKGREEN \<equiv> 0x00008000"
abbreviation COLOR_DKRED :: u32 where "COLOR_DKRED \<equiv> 0x00800000"
abbreviation COLOR_BROWN :: u32 where "COLOR_BROWN \<equiv> 0x00804000"

record gpu_state = mm_state +
  frontbuf :: u64
  backbuf :: u64
  cur_buf :: u64
  cur_w :: int
  cur_h :: int
  pixels :: "u64 \<Rightarrow> u32 list"
  fault :: bool

text \<open>The buffer objects that come and go with pages.\<close>

definition PAGE_PIXELS :: nat where "PAGE_PIXELS = 1024"

definition buffer_alloc :: "u64 \<Rightarrow> 'a gpu_state_scheme \<Rightarrow> u64 \<times> 'a gpu_state_scheme" where
  "buffer_alloc pages s =
     (case pages_alloc pages s of
        (a, s1) \<Rightarrow> if a = 0 then (a, s1)
                   else (a, s1\<lparr>pixels := (pixels s1)(a := replicate (unat pages * PAGE_PIXELS) 0)\<rparr>))"

definition buffer_free :: "u64 \<Rightarrow> u64 \<Rightarrow> 'a gpu_state_scheme \<Rightarrow> 'a gpu_state_scheme" where
  "buffer_free a pages s = (let s1 = pages_free a pages s in s1\<lparr>pixels := (pixels s1)(a := [])\<rparr>)"

text \<open>\<^verbatim>\<open>cur_buf[i] = color\<close>, and the same with the colour read from \<^verbatim>\<open>src[k]\<close>.\<close>

definition store :: "int \<Rightarrow> u32 \<Rightarrow> 'a gpu_state_scheme \<Rightarrow> 'a gpu_state_scheme" where
  "store i color s =
     (let b = pixels s (cur_buf s)
      in if 0 \<le> i \<and> nat i < length b then s\<lparr>pixels := (pixels s)(cur_buf s := b[nat i := color])\<rparr>
         else s\<lparr>fault := True\<rparr>)"

definition store_from :: "int \<Rightarrow> u64 \<Rightarrow> int \<Rightarrow> 'a gpu_state_scheme \<Rightarrow> 'a gpu_state_scheme" where
  "store_from i src k s =
     (if 0 \<le> k \<and> nat k < length (pixels s src) then store i (pixels s src ! nat k) s else s\<lparr>fault := True\<rparr>)"

text \<open>\<^verbatim>\<open>for (int i = lo; i < hi; i++)\<close>\<close>

definition int_loop :: "int \<Rightarrow> int \<Rightarrow> (int \<Rightarrow> 's \<Rightarrow> 's) \<Rightarrow> 's \<Rightarrow> 's" where
  "int_loop lo hi f s = fold f [lo..hi - 1] s"

section \<open>Operations\<close>

definition gpu_init :: "u64 \<Rightarrow> 'a gpu_state_scheme \<Rightarrow> 'a gpu_state_scheme" where
  "gpu_init framebuffer s =
     (case buffer_alloc ((FB_SIZE + PAGE_SIZE - 1) div PAGE_SIZE) (s\<lparr>frontbuf := framebuffer\<rparr>) of
        (a, s1) \<Rightarrow>
          let b = (if a = 0 then framebuffer else a)
          in s1\<lparr>backbuf := b, cur_buf := b, cur_w := FB_WIDTH, cur_h := FB_HEIGHT\<rparr>)"

definition gpu_set_target :: "u64 \<Rightarrow> int \<Rightarrow> int \<Rightarrow> 'a gpu_state_scheme \<Rightarrow> 'a gpu_state_scheme" where
  "gpu_set_target buf w h s = s\<lparr>cur_buf := buf, cur_w := w, cur_h := h\<rparr>"

definition gpu_reset_target :: "'a gpu_state_scheme \<Rightarrow> 'a gpu_state_scheme" where
  "gpu_reset_target s = s\<lparr>cur_buf := backbuf s, cur_w := FB_WIDTH, cur_h := FB_HEIGHT\<rparr>"

definition gpu_target_w :: "'a gpu_state_scheme \<Rightarrow> int" where "gpu_target_w s = cur_w s"
definition gpu_target_h :: "'a gpu_state_scheme \<Rightarrow> int" where "gpu_target_h s = cur_h s"

text \<open>\<^verbatim>\<open>memcpy(frontbuf, backbuf, FB_SIZE)\<close> copies \<open>FB_SIZE / 4\<close> pixels.\<close>

definition FB_PIXELS :: nat where "FB_PIXELS = unat (FB_SIZE div 4)"

definition gpu_flip :: "'a gpu_state_scheme \<Rightarrow> 'a gpu_state_scheme" where
  "gpu_flip s =
     (if backbuf s \<noteq> frontbuf s then
        let f = pixels s (frontbuf s); b = pixels s (backbuf s)
        in if FB_PIXELS \<le> length f \<and> FB_PIXELS \<le> length b
           then s\<lparr>pixels := (pixels s)(frontbuf s := take FB_PIXELS b @ drop FB_PIXELS f)\<rparr>
           else s\<lparr>fault := True\<rparr>
      else s)"

definition gpu_backbuf :: "'a gpu_state_scheme \<Rightarrow> u64" where "gpu_backbuf s = cur_buf s"

definition gpu_clear :: "u32 \<Rightarrow> 'a gpu_state_scheme \<Rightarrow> 'a gpu_state_scheme" where
  "gpu_clear color s = int_loop 0 (cur_w s * cur_h s) (\<lambda>i. store i color) s"

definition gpu_pixel :: "int \<Rightarrow> int \<Rightarrow> u32 \<Rightarrow> 'a gpu_state_scheme \<Rightarrow> 'a gpu_state_scheme" where
  "gpu_pixel x y color s =
     (if x \<ge> 0 \<and> x < cur_w s \<and> y \<ge> 0 \<and> y < cur_h s then store (y * cur_w s + x) color s else s)"

definition gpu_fill_rect :: "int \<Rightarrow> int \<Rightarrow> int \<Rightarrow> int \<Rightarrow> u32 \<Rightarrow> 'a gpu_state_scheme \<Rightarrow> 'a gpu_state_scheme" where
  "gpu_fill_rect x y w h color s =
     (let x0 = if x < 0 then 0 else x; y0 = if y < 0 then 0 else y;
          x1 = if x + w > cur_w s then cur_w s else x + w; y1 = if y + h > cur_h s then cur_h s else y + h
      in int_loop y0 y1 (\<lambda>j. int_loop x0 x1 (\<lambda>i. store (j * cur_w s + i) color)) s)"

definition gpu_hline :: "int \<Rightarrow> int \<Rightarrow> int \<Rightarrow> u32 \<Rightarrow> 'a gpu_state_scheme \<Rightarrow> 'a gpu_state_scheme" where
  "gpu_hline x y w color s =
     (if y < 0 \<or> y \<ge> cur_h s then s
      else let x0 = if x < 0 then 0 else x; x1 = if x + w > cur_w s then cur_w s else x + w
           in int_loop x0 x1 (\<lambda>i. store (y * cur_w s + i) color) s)"

definition gpu_vline :: "int \<Rightarrow> int \<Rightarrow> int \<Rightarrow> u32 \<Rightarrow> 'a gpu_state_scheme \<Rightarrow> 'a gpu_state_scheme" where
  "gpu_vline x y h color s =
     (if x < 0 \<or> x \<ge> cur_w s then s
      else let y0 = if y < 0 then 0 else y; y1 = if y + h > cur_h s then cur_h s else y + h
           in int_loop y0 y1 (\<lambda>j. store (j * cur_w s + x) color) s)"

definition gpu_draw_rect :: "int \<Rightarrow> int \<Rightarrow> int \<Rightarrow> int \<Rightarrow> u32 \<Rightarrow> 'a gpu_state_scheme \<Rightarrow> 'a gpu_state_scheme" where
  "gpu_draw_rect x y w h color s =
     gpu_vline (x + w - 1) y h color (gpu_vline x y h color (gpu_hline x (y + h - 1) w color (gpu_hline x y w color s)))"

definition gpu_draw_char :: "int \<Rightarrow> int \<Rightarrow> char \<Rightarrow> u32 \<Rightarrow> u32 \<Rightarrow> 'a gpu_state_scheme \<Rightarrow> 'a gpu_state_scheme" where
  "gpu_draw_char x y c fg bg =
     (let glyph = font_get_glyph c
      in int_loop 0 FONT_HEIGHT (\<lambda>row s.
           let py = y + row
           in if py < 0 \<or> py \<ge> cur_h s then s
              else let bits = glyph ! nat row
                   in int_loop 0 FONT_WIDTH (\<lambda>col s.
                        let px = x + col
                        in if px \<ge> 0 \<and> px < cur_w s
                           then store (py * cur_w s + px) (if bits AND drop_bit (nat col) 0x80 \<noteq> 0 then fg else bg) s
                           else s) s))"

fun gpu_draw_string :: "int \<Rightarrow> int \<Rightarrow> string \<Rightarrow> u32 \<Rightarrow> u32 \<Rightarrow> 'a gpu_state_scheme \<Rightarrow> 'a gpu_state_scheme" where
  "gpu_draw_string x y [] fg bg s = s"
| "gpu_draw_string x y (c # cs) fg bg s = gpu_draw_string (x + FONT_WIDTH) y cs fg bg (gpu_draw_char x y c fg bg s)"

text \<open>The buffer \<^verbatim>\<open>gpu_draw_int\<close> fills, lowest digit first, with the sign last.\<close>

function int_digits :: "int \<Rightarrow> string" where
  "int_digits val = (if val > 0 then char_of (48 + nat (val mod 10)) # int_digits (val div 10) else [])"
  by pat_completeness auto
termination
  by (relation "measure nat") auto

declare int_digits.simps [simp del]

definition int_text :: "int \<Rightarrow> string" where
  "int_text val =
     (let neg = val < 0; v = if neg then - val else val;
          buf = if v = 0 then ''0'' else int_digits v
      in if neg then buf @ ''-'' else buf)"

definition gpu_draw_int :: "int \<Rightarrow> int \<Rightarrow> int \<Rightarrow> u32 \<Rightarrow> u32 \<Rightarrow> 'a gpu_state_scheme \<Rightarrow> 'a gpu_state_scheme" where
  "gpu_draw_int x y val fg bg s = gpu_draw_string x y (rev (int_text val)) fg bg s"

definition gpu_blit :: "int \<Rightarrow> int \<Rightarrow> u64 \<Rightarrow> int \<Rightarrow> int \<Rightarrow> int \<Rightarrow> 'a gpu_state_scheme \<Rightarrow> 'a gpu_state_scheme" where
  "gpu_blit dx dy src sw sh src_stride =
     int_loop 0 sh (\<lambda>j s.
       let py = dy + j
       in if py < 0 \<or> py \<ge> cur_h s then s
          else int_loop 0 sw (\<lambda>i s.
                 let px = dx + i
                 in if px \<ge> 0 \<and> px < cur_w s then store_from (py * cur_w s + px) src (j * src_stride + i) s else s) s)"

definition cursor_data :: "nat list list" where
  "cursor_data =
    [[2,0,0,0,0,0,0,0,0,0,0,0],
     [2,2,0,0,0,0,0,0,0,0,0,0],
     [2,1,2,0,0,0,0,0,0,0,0,0],
     [2,1,1,2,0,0,0,0,0,0,0,0],
     [2,1,1,1,2,0,0,0,0,0,0,0],
     [2,1,1,1,1,2,0,0,0,0,0,0],
     [2,1,1,1,1,1,2,0,0,0,0,0],
     [2,1,1,1,1,1,1,2,0,0,0,0],
     [2,1,1,1,1,1,1,1,2,0,0,0],
     [2,1,1,1,1,1,1,1,1,2,0,0],
     [2,1,1,1,1,1,2,2,2,2,0,0],
     [2,1,1,2,1,1,2,0,0,0,0,0],
     [2,1,2,0,2,1,1,2,0,0,0,0],
     [2,2,0,0,2,1,1,2,0,0,0,0],
     [0,0,0,0,0,2,1,1,2,0,0,0],
     [0,0,0,0,0,2,2,2,0,0,0,0]]"

definition gpu_draw_cursor :: "int \<Rightarrow> int \<Rightarrow> 'a gpu_state_scheme \<Rightarrow> 'a gpu_state_scheme" where
  "gpu_draw_cursor x y =
     int_loop 0 16 (\<lambda>j s.
       let py = y + j
       in if py < 0 \<or> py \<ge> cur_h s then s
          else int_loop 0 12 (\<lambda>i s.
                 let px = x + i
                 in if px < 0 \<or> px \<ge> cur_w s then s
                    else let v = cursor_data ! nat j ! nat i
                         in if v = 1 then store (py * cur_w s + px) COLOR_WHITE s
                            else if v = 2 then store (py * cur_w s + px) COLOR_BLACK s
                            else s) s)"

section \<open>Pictures\<close>

type_synonym picture = "int \<Rightarrow> int \<Rightarrow> u32 option"

abbreviation blank :: picture where "blank \<equiv> \<lambda>x y. None"

definition over :: "picture \<Rightarrow> picture \<Rightarrow> picture" where
  "over q p = (\<lambda>x y. case q x y of Some c \<Rightarrow> Some c | None \<Rightarrow> p x y)"

definition paint :: "picture \<Rightarrow> 'a gpu_state_scheme \<Rightarrow> 'a gpu_state_scheme" where
  "paint p s =
     (let b = pixels s (cur_buf s)
      in s\<lparr>pixels := (pixels s)(cur_buf s :=
            map (\<lambda>k. if int k < cur_w s * cur_h s
                     then case p (int k mod cur_w s) (int k div cur_w s) of Some c \<Rightarrow> c | None \<Rightarrow> b ! k
                     else b ! k) [0..<length b])\<rparr>)"

definition target_ok :: "'a gpu_state_scheme \<Rightarrow> bool" where
  "target_ok s = (0 \<le> cur_w s \<and> 0 \<le> cur_h s \<and> nat (cur_w s * cur_h s) \<le> length (pixels s (cur_buf s)))"

lemma paint_fields [simp]:
  "cur_w (paint p s) = cur_w s" "cur_h (paint p s) = cur_h s" "cur_buf (paint p s) = cur_buf s"
  "backbuf (paint p s) = backbuf s" "frontbuf (paint p s) = frontbuf s" "fault (paint p s) = fault s"
  "length (pixels (paint p s) b) = length (pixels s b)"
  "b \<noteq> cur_buf s \<Longrightarrow> pixels (paint p s) b = pixels s b"
  by (simp_all add: paint_def Let_def)

lemma target_ok_paint [simp]: "target_ok (paint p s) = target_ok s"
  by (simp add: target_ok_def)

lemma paint_blank [simp]: "paint blank s = s"
  by (simp add: paint_def Let_def map_nth cong: if_cong)

lemma paint_over: "paint q (paint p s) = paint (over q p) s"
proof -
  have "pixels (paint q (paint p s)) = pixels (paint (over q p) s)"
    by (auto simp: paint_def Let_def over_def fun_eq_iff split: option.split intro!: nth_equalityI)
  then show ?thesis by (simp add: paint_def Let_def)
qed

lemma over_blank [simp]: "over p blank = p" "over blank p = p"
  by (auto simp: over_def fun_eq_iff split: option.split)

fun layers :: "picture list \<Rightarrow> picture" where
  "layers [] = blank"
| "layers (p # ps) = over (layers ps) p"

lemma layers_uniform:
  "(\<And>i. i \<in> set is \<Longrightarrow> p i x y = (if Q i then r else None)) \<Longrightarrow>
   layers (map p is) x y = (if \<exists>i \<in> set is. Q i then r else None)"
  by (induction "is") (auto simp: over_def split: option.split)

text \<open>\<open>t\<close> has the target of \<open>s\<close>, and differs from \<open>s\<close> in the pixels of the target only.\<close>

definition same_target :: "'a gpu_state_scheme \<Rightarrow> 'a gpu_state_scheme \<Rightarrow> bool" where
  "same_target s t =
     (target_ok t \<and> cur_w t = cur_w s \<and> cur_h t = cur_h s \<and> cur_buf t = cur_buf s \<and>
      (\<forall>b. b \<noteq> cur_buf s \<longrightarrow> pixels t b = pixels s b))"

lemma same_target_refl: "target_ok s \<Longrightarrow> same_target s s"
  by (simp add: same_target_def)

lemma same_targetD:
  assumes "same_target s t"
  shows "target_ok t" and "cur_w t = cur_w s" and "cur_h t = cur_h s" and "cur_buf t = cur_buf s"
    and "b \<noteq> cur_buf s \<Longrightarrow> pixels t b = pixels s b"
  using assms by (simp_all add: same_target_def)

lemma same_target_paint: "same_target s t \<Longrightarrow> same_target s (paint p t)"
  by (simp add: same_target_def)

lemma fold_paint:
  assumes "\<And>i t. i \<in> set is \<Longrightarrow> same_target s t \<Longrightarrow> F i t = paint (p i) t" and "same_target s t"
  shows "fold F is t = paint (layers (map p is)) t"
  using assms
proof (induction "is" arbitrary: t)
  case Nil then show ?case by simp
next
  case (Cons i "is")
  then have "fold F (i # is) t = fold F is (paint (p i) t)" by simp
  also have "\<dots> = paint (layers (map p is)) (paint (p i) t)"
    by (rule Cons.IH) (auto intro!: Cons.prems(1) same_target_paint [OF Cons.prems(2)])
  finally show ?case by (simp add: paint_over)
qed

lemma int_loop_paint:
  assumes "\<And>i t. lo \<le> i \<Longrightarrow> i < hi \<Longrightarrow> same_target s t \<Longrightarrow> F i t = paint (p i) t" and "same_target s t"
  shows "int_loop lo hi F t = paint (layers (map p [lo..hi - 1])) t"
  unfolding int_loop_def by (rule fold_paint [where s = s]) (use assms in auto)

definition dot :: "int \<Rightarrow> int \<Rightarrow> u32 \<Rightarrow> picture" where
  "dot x y c = (\<lambda>a b. if a = x \<and> b = y then Some c else None)"

lemma index_bounds:
  fixes x y w h :: int
  assumes "0 \<le> x" "x < w" "0 \<le> y" "y < h"
  shows "0 \<le> y * w + x" and "y * w + x < w * h"
proof -
  have "y * w + x < y * w + w" using assms by simp
  also have "\<dots> = (y + 1) * w" by (simp add: algebra_simps)
  also have "\<dots> \<le> h * w" using assms by (intro mult_right_mono) auto
  finally show "y * w + x < w * h" by (simp add: mult.commute)
qed (use assms in simp)

lemma store_paint:
  assumes ok: "target_ok s" and b: "0 \<le> x" "x < cur_w s" "0 \<le> y" "y < cur_h s"
  shows "store (y * cur_w s + x) c s = paint (dot x y c) s"
proof -
  let ?b = "pixels s (cur_buf s)" and ?k = "nat (y * cur_w s + x)"
  note ib = index_bounds [OF b]
  have "?k < nat (cur_w s * cur_h s)" using ib by (simp add: nat_less_iff)
  then have l: "?k < length ?b" using ok unfolding target_ok_def by linarith
  have "?b[?k := c] = map (\<lambda>k. if int k < cur_w s * cur_h s
          then case dot x y c (int k mod cur_w s) (int k div cur_w s) of Some c \<Rightarrow> c | None \<Rightarrow> ?b ! k else ?b ! k) [0..<length ?b]"
  proof (rule nth_equalityI)
    fix k assume k: "k < length (?b[?k := c])"
    have "dot x y c (int k mod cur_w s) (int k div cur_w s) = (if k = ?k then Some c else None)" if "int k < cur_w s * cur_h s"
    proof (cases "k = ?k")
      case True
      then have "int k = y * cur_w s + x" using ib by simp
      then show ?thesis using True b by (simp add: dot_def)
    next
      case False
      have "\<not> (int k mod cur_w s = x \<and> int k div cur_w s = y)"
      proof
        assume "int k mod cur_w s = x \<and> int k div cur_w s = y"
        then have "int k = y * cur_w s + x" using div_mult_mod_eq [of "int k" "cur_w s"] by simp
        with False show False by simp
      qed
      then show ?thesis using False by (simp add: dot_def)
    qed
    then show "?b[?k := c] ! k = map (\<lambda>k. if int k < cur_w s * cur_h s
          then case dot x y c (int k mod cur_w s) (int k div cur_w s) of Some c \<Rightarrow> c | None \<Rightarrow> ?b ! k else ?b ! k) [0..<length ?b] ! k"
      using k l ib by (auto simp: nth_list_update)
  qed simp
  then show ?thesis using ib l by (simp add: store_def paint_def Let_def)
qed

lemma store_in_paint:
  assumes "same_target s t" and "0 \<le> x" "x < cur_w s" "0 \<le> y" "y < cur_h s"
  shows "store (y * cur_w s + x) c t = paint (dot x y c) t"
  using store_paint [of t x y c] same_targetD [OF assms(1)] assms(2-5) by simp

section \<open>Each operation paints its picture\<close>

definition rect :: "int \<Rightarrow> int \<Rightarrow> int \<Rightarrow> int \<Rightarrow> u32 \<Rightarrow> picture" where
  "rect x y w h c = (\<lambda>a b. if x \<le> a \<and> a < x + w \<and> y \<le> b \<and> b < y + h then Some c else None)"

text \<open>Two pictures that agree on the target paint alike.\<close>

lemma paint_cong:
  assumes ok: "target_ok s" and "\<And>x y. 0 \<le> x \<Longrightarrow> x < cur_w s \<Longrightarrow> 0 \<le> y \<Longrightarrow> y < cur_h s \<Longrightarrow> p x y = q x y"
  shows "paint p s = paint q s"
proof -
  have "p (int k mod cur_w s) (int k div cur_w s) = q (int k mod cur_w s) (int k div cur_w s)" if k: "int k < cur_w s * cur_h s" for k
  proof -
    have w: "0 < cur_w s" using k ok by (cases "cur_w s = 0") (auto simp: target_ok_def)
    have "int k div cur_w s * cur_w s \<le> int k" using w pos_mod_sign [OF w, of "int k"] by (simp add: minus_mod_eq_div_mult [symmetric])
    then have "int k div cur_w s * cur_w s < cur_h s * cur_w s" using k by (simp add: mult.commute)
    then have "int k div cur_w s < cur_h s" using w by (simp add: mult_less_cancel_right_pos)
    then show ?thesis using w assms(2) by (simp add: pos_imp_zdiv_nonneg_iff)
  qed
  then show ?thesis by (auto simp: paint_def Let_def intro!: arg_cong [where f = "\<lambda>l. s\<lparr>pixels := (pixels s)(cur_buf s := l)\<rparr>"] cong: if_cong)
qed

lemma row_paint:
  assumes "target_ok s" and "0 \<le> x0" and "x1 \<le> cur_w s" and "0 \<le> y" and "y < cur_h s"
  shows "int_loop x0 x1 (\<lambda>i. store (y * cur_w s + i) c) s = paint (\<lambda>a b. if x0 \<le> a \<and> a < x1 \<and> b = y then Some c else None) s"
proof -
  have "int_loop x0 x1 (\<lambda>i. store (y * cur_w s + i) c) s = paint (layers (map (\<lambda>i. dot i y c) [x0..x1 - 1])) s"
    using assms by (intro int_loop_paint [where s = s] store_in_paint) (auto intro: same_target_refl)
  also have "\<dots> = paint (\<lambda>a b. if x0 \<le> a \<and> a < x1 \<and> b = y then Some c else None) s"
    by (rule arg_cong [where f = "\<lambda>p. paint p s"]) (auto simp: fun_eq_iff layers_uniform [where Q = "\<lambda>i. a = i \<and> b = y" and r = "Some c" for a b] dot_def)
  finally show ?thesis .
qed

lemma clip:
  "(if x < 0 then 0 else x) = max 0 (x :: int)" "(if a > m then m else a) = min m (a :: int)"
  by (simp_all add: max_def min_def)

lemma gpu_pixel_paint:
  assumes "target_ok s" shows "gpu_pixel x y c s = paint (dot x y c) s"
proof (cases "x \<ge> 0 \<and> x < cur_w s \<and> y \<ge> 0 \<and> y < cur_h s")
  case True then show ?thesis by (simp add: gpu_pixel_def store_paint [OF assms])
next
  case False
  then have "paint (dot x y c) s = paint blank s" by (intro paint_cong [OF assms]) (auto simp: dot_def)
  then show ?thesis by (simp only: gpu_pixel_def if_not_P [OF False] paint_blank)
qed

lemma gpu_hline_paint:
  assumes "target_ok s" shows "gpu_hline x y w c s = paint (rect x y w 1 c) s"
proof (cases "y < 0 \<or> y \<ge> cur_h s")
  case True
  then have "paint (rect x y w 1 c) s = paint blank s" by (intro paint_cong [OF assms]) (auto simp: rect_def)
  then show ?thesis using True by (simp add: gpu_hline_def)
next
  case False
  then have "gpu_hline x y w c s = paint (\<lambda>a b. if max 0 x \<le> a \<and> a < min (cur_w s) (x + w) \<and> b = y then Some c else None) s"
    by (simp only: gpu_hline_def Let_def clip if_False) (rule row_paint [OF assms]; simp)
  also have "\<dots> = paint (rect x y w 1 c) s" by (rule paint_cong [OF assms]) (auto simp: rect_def)
  finally show ?thesis .
qed

lemma gpu_vline_paint:
  assumes "target_ok s" shows "gpu_vline x y h c s = paint (rect x y 1 h c) s"
proof (cases "x < 0 \<or> x \<ge> cur_w s")
  case True
  then have "paint (rect x y 1 h c) s = paint blank s" by (intro paint_cong [OF assms]) (auto simp: rect_def)
  then show ?thesis using True by (simp add: gpu_vline_def)
next
  case False
  have "gpu_vline x y h c s = paint (layers (map (\<lambda>j. dot x j c) [max 0 y..min (cur_h s) (y + h) - 1])) s"
    using False by (simp only: gpu_vline_def Let_def clip if_False)
      (intro int_loop_paint [where s = s] store_in_paint; use assms in \<open>simp add: same_target_refl\<close>)
  also have "\<dots> = paint (rect x y 1 h c) s"
    by (rule paint_cong [OF assms]) (subst layers_uniform [where Q = "\<lambda>j. a = x \<and> b = j" and r = "Some c" for a b]; force simp: dot_def rect_def)
  finally show ?thesis .
qed

lemma gpu_fill_rect_paint:
  assumes "target_ok s" shows "gpu_fill_rect x y w h c s = paint (rect x y w h c) s"
proof -
  let ?x0 = "max 0 x" and ?x1 = "min (cur_w s) (x + w)" and ?y0 = "max 0 y" and ?y1 = "min (cur_h s) (y + h)"
  let ?p = "\<lambda>j a b. if ?x0 \<le> a \<and> a < ?x1 \<and> b = j then Some c else None"
  have "int_loop ?x0 ?x1 (\<lambda>i. store (j * cur_w s + i) c) t = paint (?p j) t"
    if "same_target s t" "?y0 \<le> j" "j < ?y1" for j t
    using row_paint [of t ?x0 ?x1 j c] same_targetD [OF that(1)] that(2,3) by simp
  then have "gpu_fill_rect x y w h c s = paint (layers (map ?p [?y0..?y1 - 1])) s"
    unfolding gpu_fill_rect_def Let_def clip by (intro int_loop_paint [where s = s]) (auto intro: same_target_refl [OF assms])
  also have "\<dots> = paint (rect x y w h c) s"
    by (rule paint_cong [OF assms])
      (subst layers_uniform [where Q = "\<lambda>j. ?x0 \<le> a \<and> a < ?x1 \<and> b = j" and r = "Some c" for a b]; force simp: rect_def)
  finally show ?thesis .
qed

definition frame_picture :: "int \<Rightarrow> int \<Rightarrow> int \<Rightarrow> int \<Rightarrow> u32 \<Rightarrow> picture" where
  "frame_picture x y w h c =
     over (rect (x + w - 1) y 1 h c) (over (rect x y 1 h c) (over (rect x (y + h - 1) w 1 c) (rect x y w 1 c)))"

lemma gpu_draw_rect_paint: "target_ok s \<Longrightarrow> gpu_draw_rect x y w h c s = paint (frame_picture x y w h c) s"
  by (simp add: gpu_draw_rect_def gpu_hline_paint gpu_vline_paint paint_over frame_picture_def)

lemma gpu_clear_paint:
  assumes "target_ok s" shows "gpu_clear c s = paint (\<lambda>x y. Some c) s"
proof -
  let ?w = "cur_w s" and ?h = "cur_h s"
  have dim: "0 \<le> ?w" "0 \<le> ?h" using assms by (simp_all add: target_ok_def)
  have "store i c t = paint (dot (i mod ?w) (i div ?w) c) t" if "same_target s t" "0 \<le> i" "i < ?w * ?h" for i t
  proof -
    have w: "0 < ?w" using that dim by (cases "?w = 0") auto
    have "i div ?w * ?w \<le> i" using pos_mod_sign [OF w, of i] by (simp add: minus_mod_eq_div_mult [symmetric])
    then have "i div ?w * ?w < ?h * ?w" using that(3) by (simp add: mult.commute)
    then have "i div ?w < ?h" using w by (simp add: mult_less_cancel_right_pos)
    then have "store (i div ?w * ?w + i mod ?w) c t = paint (dot (i mod ?w) (i div ?w) c) t"
      using w that(2) by (intro store_in_paint [OF that(1)]) (simp_all add: pos_imp_zdiv_nonneg_iff)
    then show ?thesis by simp
  qed
  then have "gpu_clear c s = paint (layers (map (\<lambda>i. dot (i mod ?w) (i div ?w) c) [0..?w * ?h - 1])) s"
    unfolding gpu_clear_def by (intro int_loop_paint [where s = s]) (auto intro: same_target_refl [OF assms])
  also have "\<dots> = paint (\<lambda>x y. Some c) s"
  proof (rule paint_cong [OF assms])
    fix x y assume b: "0 \<le> x" "x < ?w" "0 \<le> y" "y < ?h"
    have "\<exists>i \<in> set [0..?w * ?h - 1]. i mod ?w = x \<and> i div ?w = y"
      using index_bounds [OF b] b by (intro bexI [of _ "y * ?w + x"]) simp_all
    then show "layers (map (\<lambda>i. dot (i mod ?w) (i div ?w) c) [0..?w * ?h - 1]) x y = Some c"
      by (subst layers_uniform [where Q = "\<lambda>i. i mod ?w = x \<and> i div ?w = y" and r = "Some c"]) (auto simp: dot_def)
  qed
  finally show ?thesis .
qed

text \<open>
  Characters, bitmaps and the cursor are drawn pixel by pixel from a block of \<open>W\<close> by \<open>H\<close> cells
  with its corner at \<open>(x, y)\<close>; \<open>f\<close> gives the colour of a cell, if it has one.
\<close>

definition stamp :: "int \<Rightarrow> int \<Rightarrow> int \<Rightarrow> int \<Rightarrow> picture \<Rightarrow> picture" where
  "stamp x y W H f = (\<lambda>a b. if x \<le> a \<and> a < x + W \<and> y \<le> b \<and> b < y + H then f (a - x) (b - y) else None)"

lemma stamp_row:
  assumes st: "same_target s t0" and y: "0 \<le> y" "y < cur_h s"
    and G: "\<And>i t. same_target s t \<Longrightarrow> 0 \<le> i \<Longrightarrow> i < W \<Longrightarrow>
          G i t = (if 0 \<le> x + i \<and> x + i < cur_w s then case f i of None \<Rightarrow> t | Some c \<Rightarrow> store (y * cur_w s + (x + i)) c t else t)"
  shows "int_loop 0 W G t0 = paint (\<lambda>a b. if b = y \<and> x \<le> a \<and> a < x + W then f (a - x) else None) t0"
proof -
  let ?p = "\<lambda>i a b. if 0 \<le> x + i \<and> x + i < cur_w s \<and> a = x + i \<and> b = y then f i else None"
  have "G i t = paint (?p i) t" if "same_target s t" "0 \<le> i" "i < W" for i t
  proof (cases "f i")
    case None then show ?thesis using G [OF that] by (simp cong: if_cong)
  next
    case (Some c)
    show ?thesis
    proof (cases "0 \<le> x + i \<and> x + i < cur_w s")
      case True
      then have "G i t = paint (dot (x + i) y c) t" using G [OF that] Some store_in_paint [OF that(1), of "x + i" y c] y by simp
      also have "dot (x + i) y c = ?p i" using True Some by (auto simp: dot_def fun_eq_iff)
      finally show ?thesis .
    next
      case False
      then have "?p i = blank" by (auto simp: fun_eq_iff)
      then show ?thesis using G [OF that] False by (auto simp del: not_le)
    qed
  qed
  then have "int_loop 0 W G t0 = paint (layers (map ?p [0..W - 1])) t0" by (intro int_loop_paint [OF _ st]) auto
  also have "\<dots> = paint (\<lambda>a b. if b = y \<and> x \<le> a \<and> a < x + W then f (a - x) else None) t0"
  proof (rule paint_cong [OF same_targetD(1) [OF st]])
    fix a b assume "0 \<le> a" "a < cur_w t0" "0 \<le> b" "b < cur_h t0"
    then have "0 \<le> a" "a < cur_w s" using same_targetD(2) [OF st] by simp_all
    then have "layers (map ?p [0..W - 1]) a b = (if \<exists>i \<in> set [0..W - 1]. a = x + i \<and> b = y then f (a - x) else None)"
      by (intro layers_uniform) auto
    also have "(\<exists>i \<in> set [0..W - 1]. a = x + i \<and> b = y) \<longleftrightarrow> b = y \<and> x \<le> a \<and> a < x + W"
      by (auto intro!: bexI [of _ "a - x"])
    finally show "layers (map ?p [0..W - 1]) a b = (if b = y \<and> x \<le> a \<and> a < x + W then f (a - x) else None)" .
  qed
  finally show ?thesis .
qed

lemma stamp_paint:
  assumes ok: "target_ok s"
    and G: "\<And>i j t. same_target s t \<Longrightarrow> 0 \<le> i \<Longrightarrow> i < W \<Longrightarrow> 0 \<le> j \<Longrightarrow> j < H \<Longrightarrow>
          G j i t = (if 0 \<le> x + i \<and> x + i < cur_w s
                     then case f i j of None \<Rightarrow> t | Some c \<Rightarrow> store ((y + j) * cur_w s + (x + i)) c t else t)"
  shows "int_loop 0 H (\<lambda>j s. if y + j < 0 \<or> y + j \<ge> cur_h s then s else int_loop 0 W (G j) s) s = paint (stamp x y W H f) s"
proof -
  let ?F = "\<lambda>j s. if y + j < 0 \<or> y + j \<ge> cur_h s then s else int_loop 0 W (G j) s"
  let ?p = "\<lambda>j a b. if 0 \<le> y + j \<and> y + j < cur_h s \<and> b = y + j \<and> x \<le> a \<and> a < x + W then f (a - x) j else None"
  have row: "?F j t = paint (?p j) t" if t: "same_target s t" and j: "0 \<le> j" "j < H" for j t
  proof (cases "y + j < 0 \<or> y + j \<ge> cur_h s")
    case True
    then have "?p j = blank" by (auto simp: fun_eq_iff)
    then show ?thesis using True same_targetD(3) [OF t] by simp
  next
    case False
    then have "int_loop 0 W (G j) t = paint (\<lambda>a b. if b = y + j \<and> x \<le> a \<and> a < x + W then f (a - x) j else None) t"
      using G [OF _ _ _ j] by (intro stamp_row [OF t]) auto
    then show ?thesis using False same_targetD(3) [OF t] by (simp cong: if_cong)
  qed
  have "int_loop 0 H ?F s = paint (layers (map ?p [0..H - 1])) s"
    by (rule int_loop_paint [OF row same_target_refl [OF ok]]) auto
  also have "\<dots> = paint (stamp x y W H f) s"
  proof (rule paint_cong [OF ok])
    fix a b assume "0 \<le> a" "a < cur_w s" "0 \<le> b" "b < cur_h s"
    then have "layers (map ?p [0..H - 1]) a b =
        (if \<exists>j \<in> set [0..H - 1]. b = y + j \<and> x \<le> a \<and> a < x + W then f (a - x) (b - y) else None)"
      by (intro layers_uniform) auto
    also have "(\<exists>j \<in> set [0..H - 1]. b = y + j \<and> x \<le> a \<and> a < x + W) \<longleftrightarrow> x \<le> a \<and> a < x + W \<and> y \<le> b \<and> b < y + H"
      by (auto intro!: bexI [of _ "b - y"])
    finally show "layers (map ?p [0..H - 1]) a b = stamp x y W H f a b" by (simp add: stamp_def)
  qed
  finally show ?thesis .
qed

definition glyph_picture :: "char \<Rightarrow> u32 \<Rightarrow> u32 \<Rightarrow> picture" where
  "glyph_picture c fg bg = (\<lambda>col row. Some (if bit (font_get_glyph c ! nat row) (7 - nat col) then fg else bg))"

lemma glyph_bit:
  assumes "0 \<le> col" "col < 8"
  shows "(w :: u8) AND drop_bit (nat col) 0x80 \<noteq> 0 \<longleftrightarrow> bit w (7 - nat col)"
proof -
  have "drop_bit (nat col) (0x80 :: u8) = 2 ^ (7 - nat col)"
  proof -
    have "nat col < 8" using assms by simp
    then have "nat col \<in> {0, 1, 2, 3, 4, 5, 6, 7}" by (simp add: numeral_eq_Suc less_Suc_eq)
    then show ?thesis by (elim insertE emptyE) simp_all
  qed
  then show ?thesis by simp
qed

lemma gpu_draw_char_paint:
  assumes "target_ok s" shows "gpu_draw_char x y c fg bg s = paint (stamp x y 8 16 (glyph_picture c fg bg)) s"
  unfolding gpu_draw_char_def Let_def FONT_WIDTH_def FONT_HEIGHT_def
  by (rule stamp_paint [OF assms]) (simp add: glyph_picture_def glyph_bit same_targetD(2))

fun text_picture :: "int \<Rightarrow> int \<Rightarrow> string \<Rightarrow> u32 \<Rightarrow> u32 \<Rightarrow> picture" where
  "text_picture x y [] fg bg = blank"
| "text_picture x y (c # cs) fg bg = over (text_picture (x + 8) y cs fg bg) (stamp x y 8 16 (glyph_picture c fg bg))"

lemma gpu_draw_string_paint: "target_ok s \<Longrightarrow> gpu_draw_string x y t fg bg s = paint (text_picture x y t fg bg) s"
  by (induction x y t fg bg s rule: gpu_draw_string.induct) (simp_all add: gpu_draw_char_paint paint_over FONT_WIDTH_def)

lemma gpu_draw_int_paint: "target_ok s \<Longrightarrow> gpu_draw_int x y v fg bg s = paint (text_picture x y (rev (int_text v)) fg bg) s"
  by (simp add: gpu_draw_int_def gpu_draw_string_paint)

definition cursor_picture :: picture where
  "cursor_picture = (\<lambda>i j. let v = cursor_data ! nat j ! nat i in if v = 1 then Some COLOR_WHITE else if v = 2 then Some COLOR_BLACK else None)"

lemma gpu_draw_cursor_paint:
  assumes "target_ok s" shows "gpu_draw_cursor x y s = paint (stamp x y 12 16 cursor_picture) s"
  unfolding gpu_draw_cursor_def Let_def
  by (rule stamp_paint [OF assms]) (auto simp: cursor_picture_def Let_def same_targetD(2))

definition blit_picture :: "u32 list \<Rightarrow> int \<Rightarrow> picture" where
  "blit_picture b stride = (\<lambda>i j. Some (b ! nat (j * stride + i)))"

lemma gpu_blit_paint:
  assumes "target_ok s" and "src \<noteq> cur_buf s"
    and "\<And>i j. 0 \<le> i \<Longrightarrow> i < sw \<Longrightarrow> 0 \<le> j \<Longrightarrow> j < sh \<Longrightarrow> 0 \<le> j * stride + i \<and> nat (j * stride + i) < length (pixels s src)"
  shows "gpu_blit x y src sw sh stride s = paint (stamp x y sw sh (blit_picture (pixels s src) stride)) s"
  unfolding gpu_blit_def Let_def
  by (rule stamp_paint [OF assms(1)])
    (use assms(2,3) in \<open>simp add: blit_picture_def store_from_def same_targetD(2,5) same_targetD(5) [OF _ assms(2)]\<close>)

section \<open>Sequences of drawing operations\<close>

text \<open>
  \<open>draws s t\<close>: \<open>t\<close> is \<open>s\<close> with something painted on the target, so that everything else is
  as it was, \<open>fault\<close> included.
\<close>

definition draws :: "'a gpu_state_scheme \<Rightarrow> 'a gpu_state_scheme \<Rightarrow> bool" where
  "draws s t \<longleftrightarrow> (\<exists>p. t = paint p s)"

named_theorems draws_intros \<open>rules for code that only draws\<close>

lemma draws_refl [draws_intros]: "draws s s"
  unfolding draws_def by (rule exI [of _ blank]) simp

lemma draws_paint: "draws s t \<Longrightarrow> draws s (paint p t)"
  by (auto simp: draws_def paint_over)

lemma draws_trans: "draws s t \<Longrightarrow> draws t u \<Longrightarrow> draws s u"
  by (auto simp: draws_def paint_over)

lemma drawsD:
  assumes "draws s t"
  shows "target_ok t = target_ok s" and "cur_w t = cur_w s" and "cur_h t = cur_h s" and "cur_buf t = cur_buf s"
    and "backbuf t = backbuf s" and "frontbuf t = frontbuf s" and "fault t = fault s"
    and "length (pixels t b) = length (pixels s b)" and "b \<noteq> cur_buf s \<Longrightarrow> pixels t b = pixels s b"
  using assms by (auto simp: draws_def)

lemma draws_ops [draws_intros]:
  assumes "target_ok s" and "draws s t"
  shows "draws s (gpu_clear c t)" and "draws s (gpu_pixel x y c t)" and "draws s (gpu_fill_rect x y w h c t)"
    and "draws s (gpu_hline x y w c t)" and "draws s (gpu_vline x y h c t)" and "draws s (gpu_draw_rect x y w h c t)"
    and "draws s (gpu_draw_char x y ch fg bg t)" and "draws s (gpu_draw_string x y str fg bg t)"
    and "draws s (gpu_draw_int x y v fg bg t)" and "draws s (gpu_draw_cursor x y t)"
proof -
  have "target_ok t" using drawsD(1) [OF assms(2)] assms(1) by simp
  then show "draws s (gpu_clear c t)" "draws s (gpu_pixel x y c t)" "draws s (gpu_fill_rect x y w h c t)"
    "draws s (gpu_hline x y w c t)" "draws s (gpu_vline x y h c t)" "draws s (gpu_draw_rect x y w h c t)"
    "draws s (gpu_draw_char x y ch fg bg t)" "draws s (gpu_draw_string x y str fg bg t)"
    "draws s (gpu_draw_int x y v fg bg t)" "draws s (gpu_draw_cursor x y t)"
    using draws_paint [OF assms(2)]
    by (simp_all add: gpu_clear_paint gpu_pixel_paint gpu_fill_rect_paint gpu_hline_paint gpu_vline_paint
        gpu_draw_rect_paint gpu_draw_char_paint gpu_draw_string_paint gpu_draw_int_paint gpu_draw_cursor_paint)
qed

lemma draws_if [draws_intros]: "(b \<Longrightarrow> draws s t) \<Longrightarrow> (\<not> b \<Longrightarrow> draws s u) \<Longrightarrow> draws s (if b then t else u)"
  by simp

lemma draws_fold: "(\<And>i t. i \<in> set is \<Longrightarrow> draws s t \<Longrightarrow> draws s (F i t)) \<Longrightarrow> draws s t \<Longrightarrow> draws s (fold F is t)"
  by (induction "is" arbitrary: t) simp_all

lemma draws_int_loop [draws_intros]:
  "(\<And>i t. lo \<le> i \<Longrightarrow> i < hi \<Longrightarrow> draws s t \<Longrightarrow> draws s (F i t)) \<Longrightarrow> draws s t \<Longrightarrow> draws s (int_loop lo hi F t)"
  unfolding int_loop_def by (rule draws_fold) auto

lemma draws_for_loop [draws_intros]:
  "(\<And>i t. lo \<le> i \<Longrightarrow> i < hi \<Longrightarrow> draws s t \<Longrightarrow> draws s (F i t)) \<Longrightarrow> draws s t \<Longrightarrow> draws s (for_loop lo hi F t)"
  unfolding for_loop_def by (rule draws_fold) auto



section \<open>Buffers and the pages they lie in\<close>

definition base_page :: "u64 \<Rightarrow> nat" where
  "base_page a = unat ((a - RAM_BASE) div PAGE_SIZE)"

definition region :: "u64 \<Rightarrow> nat \<Rightarrow> nat set" where
  "region a n = {base_page a..<base_page a + n}"

text \<open>A live pixel buffer of \<open>n\<close> pages at \<open>a\<close>.\<close>

definition buffer_at :: "'a gpu_state_scheme \<Rightarrow> u64 \<Rightarrow> nat \<Rightarrow> bool" where
  "buffer_at s a n \<longleftrightarrow>
     a = page_addr (base_page a) \<and> base_page a + n \<le> MAX_PAGES \<and> 0 < n \<and> region a n \<subseteq> used_set s \<and>
     length (pixels s a) = n * PAGE_PIXELS"

lemma base_page_addr [simp]: "i < MAX_PAGES \<Longrightarrow> base_page (page_addr i) = i"
  by (simp add: base_page_def page_index_of_addr)

lemma buffer_at_nonzero: "buffer_at s a n \<Longrightarrow> a \<noteq> 0"
  unfolding buffer_at_def by (metis add_leD1 add_less_cancel_left less_le_trans page_addr_nonzero add_0_right)

lemma buffers_differ: "buffer_at s a n \<Longrightarrow> buffer_at t b m \<Longrightarrow> region a n \<inter> region b m = {} \<Longrightarrow> a \<noteq> b"
  by (auto simp: buffer_at_def region_def)

lemma gpu_fields_claim [frame_simps]:
  "pixels (claim_page i s) = pixels s" "fault (claim_page i s) = fault s" "backbuf (claim_page i s) = backbuf s"
  "frontbuf (claim_page i s) = frontbuf s" "cur_buf (claim_page i s) = cur_buf s" "cur_w (claim_page i s) = cur_w s"
  "cur_h (claim_page i s) = cur_h s" "gpu_state.more (claim_page i s) = gpu_state.more s"
  by (simp_all add: claim_page_def bitmap_set_def Let_def)

lemma gpu_fields_free_step [frame_simps]:
  "pixels (pages_free_step a i s) = pixels s" "fault (pages_free_step a i s) = fault s" "backbuf (pages_free_step a i s) = backbuf s"
  "frontbuf (pages_free_step a i s) = frontbuf s" "cur_buf (pages_free_step a i s) = cur_buf s" "cur_w (pages_free_step a i s) = cur_w s"
  "cur_h (pages_free_step a i s) = cur_h s" "gpu_state.more (pages_free_step a i s) = gpu_state.more s"
  by (simp_all add: pages_free_step_def release_page_def bitmap_clear_def Let_def)

lemma gpu_fields_alloc_run [frame_simps]:
  "pixels (pages_alloc_run r n s) = pixels s" "fault (pages_alloc_run r n s) = fault s" "backbuf (pages_alloc_run r n s) = backbuf s"
  "frontbuf (pages_alloc_run r n s) = frontbuf s" "cur_buf (pages_alloc_run r n s) = cur_buf s" "cur_w (pages_alloc_run r n s) = cur_w s"
  "cur_h (pages_alloc_run r n s) = cur_h s" "gpu_state.more (pages_alloc_run r n s) = gpu_state.more s"
  by (simp_all add: pages_alloc_run_def for_loop_frame [where g = pixels] for_loop_frame [where g = fault] for_loop_frame [where g = backbuf]
      for_loop_frame [where g = frontbuf] for_loop_frame [where g = cur_buf] for_loop_frame [where g = cur_w]
      for_loop_frame [where g = cur_h] for_loop_frame [where g = gpu_state.more] frame_simps)

lemma gpu_fields_pages_free [frame_simps]:
  "pixels (pages_free a n s) = pixels s" "fault (pages_free a n s) = fault s" "backbuf (pages_free a n s) = backbuf s"
  "frontbuf (pages_free a n s) = frontbuf s" "cur_buf (pages_free a n s) = cur_buf s" "cur_w (pages_free a n s) = cur_w s"
  "cur_h (pages_free a n s) = cur_h s" "gpu_state.more (pages_free a n s) = gpu_state.more s"
  by (simp_all add: pages_free_def for_loop_frame [where g = pixels] for_loop_frame [where g = fault] for_loop_frame [where g = backbuf]
      for_loop_frame [where g = frontbuf] for_loop_frame [where g = cur_buf] for_loop_frame [where g = cur_w]
      for_loop_frame [where g = cur_h] for_loop_frame [where g = gpu_state.more] frame_simps)

lemma mm_gpu_update [simp]:
  "used_set (s\<lparr>pixels := p\<rparr>) = used_set s" "mm_inv (s\<lparr>pixels := p\<rparr>) = mm_inv s"
  "used_set (s\<lparr>fault := f\<rparr>) = used_set s" "mm_inv (s\<lparr>fault := f\<rparr>) = mm_inv s"
  "used_set (s\<lparr>frontbuf := a\<rparr>) = used_set s" "mm_inv (s\<lparr>frontbuf := a\<rparr>) = mm_inv s"
  by (simp_all add: used_set_def bitmap_test_def mm_inv_def)

lemma buffer_alloc_fail:
  assumes "buffer_alloc n s = (0, s')" shows "s' = s"
proof (cases n s rule: pages_alloc_cases)
  case (ok r)
  then have "0 < unat n" "r + unat n \<le> MAX_PAGES" by (simp_all add: unat_gt_0 free_run_def)
  then have "page_addr r \<noteq> 0" by simp
  then show ?thesis using assms ok by (simp add: buffer_alloc_def)
qed (use assms in \<open>simp_all add: buffer_alloc_def\<close>)

lemma buffer_alloc_result:
  assumes inv: "mm_inv s" and r: "buffer_alloc n s = (a, s')" "a \<noteq> 0"
  shows "buffer_at s' a (unat n)" and "region a (unat n) \<inter> used_set s = {}"
    and "used_set s' = used_set s \<union> region a (unat n)" and "mm_inv s'"
    and "pixels s' = (pixels s)(a := replicate (unat n * PAGE_PIXELS) 0)"
    and "fault s' = fault s" and "backbuf s' = backbuf s" and "frontbuf s' = frontbuf s"
    and "cur_buf s' = cur_buf s" and "cur_w s' = cur_w s" and "cur_h s' = cur_h s"
    and "gpu_state.more s' = gpu_state.more s"
proof -
  obtain k where k: "n \<noteq> 0" "unat n \<le> MAX_PAGES" "free_run (\<lambda>i. i \<notin> used_set s) (unat n) k"
      "pages_alloc n s = (page_addr k, pages_alloc_run k n s)"
    using r by (cases n s rule: pages_alloc_cases) (auto simp: buffer_alloc_def)
  have n: "0 < unat n" using k(1) by (simp add: unat_gt_0)
  then have kM: "k < MAX_PAGES" "k + unat n \<le> MAX_PAGES" using k(3) by (auto simp: free_run_def)
  have a: "a = page_addr k" and s': "s' = (pages_alloc_run k n s)\<lparr>pixels := (pixels s)(a := replicate (unat n * PAGE_PIXELS) 0)\<rparr>"
    using r k(4) page_addr_nonzero [OF kM(1)] by (auto simp: buffer_alloc_def frame_simps)
  have reg: "region a (unat n) = {k..<k + unat n}" using kM by (simp add: region_def a)
  have run: "used_set (pages_alloc_run k n s) = used_set s \<union> {k..<k + unat n}" "mm_inv (pages_alloc_run k n s)"
    using claim_run [OF inv kM(2)] k(3) by (simp_all add: pages_alloc_run_def free_run_def)
  show u: "used_set s' = used_set s \<union> region a (unat n)" and "mm_inv s'" using run by (simp_all add: s' reg)
  show "region a (unat n) \<inter> used_set s = {}" using k(3) by (auto simp: reg free_run_def)
  show p: "pixels s' = (pixels s)(a := replicate (unat n * PAGE_PIXELS) 0)" by (simp add: s')
  show "buffer_at s' a (unat n)" using u p n kM by (simp add: buffer_at_def a)
  show "fault s' = fault s" "backbuf s' = backbuf s" "frontbuf s' = frontbuf s" "cur_buf s' = cur_buf s" "cur_w s' = cur_w s"
    "cur_h s' = cur_h s" "gpu_state.more s' = gpu_state.more s" by (simp_all add: s' frame_simps)
qed

lemma buffer_free_result:
  assumes inv: "mm_inv s" and b: "buffer_at s a (unat n)"
  defines "s' \<equiv> buffer_free a n s"
  shows "used_set s' = used_set s - region a (unat n)" and "mm_inv s'" and "pixels s' = (pixels s)(a := [])"
    and "fault s' = fault s" and "backbuf s' = backbuf s" and "frontbuf s' = frontbuf s"
    and "cur_buf s' = cur_buf s" and "cur_w s' = cur_w s" and "cur_h s' = cur_h s"
    and "gpu_state.more s' = gpu_state.more s"
proof -
  have a: "a = page_addr (base_page a)" "base_page a + unat n \<le> MAX_PAGES" using b by (simp_all add: buffer_at_def)
  note run = pages_free_run [OF inv a(2), folded a(1)]
  show "used_set s' = used_set s - region a (unat n)" "mm_inv s'"
    using run by (simp_all add: s'_def buffer_free_def pages_free_def region_def Let_def)
  show "pixels s' = (pixels s)(a := [])" "fault s' = fault s" "backbuf s' = backbuf s" "frontbuf s' = frontbuf s"
    "cur_buf s' = cur_buf s" "cur_w s' = cur_w s" "cur_h s' = cur_h s" "gpu_state.more s' = gpu_state.more s"
    by (simp_all add: s'_def buffer_free_def Let_def frame_simps)
qed

text \<open>A machine whose used pages are the first \<open>k\<close> hands out the pages from \<open>k\<close> on.\<close>

lemma buffer_alloc_first:
  assumes "used_set s = {..<k}" and "0 < unat n" and "k + unat n \<le> MAX_PAGES"
  shows "fst (buffer_alloc n s) = page_addr k"
proof -
  have run: "free_run (\<lambda>i. i \<notin> used_set s) (unat n) k" using assms by (simp add: free_run_def)
  show ?thesis
  proof (cases n s rule: pages_alloc_cases)
    case bad then show ?thesis using assms by auto
  next
    case none then show ?thesis using run by blast
  next
    case (ok r)
    have "r = k"
    proof (rule antisym)
      show "r \<le> k" using ok(4) run by (meson linorder_not_le)
      show "k \<le> r" using ok(3) assms(1,2) unfolding free_run_def by (metis le_add1 lessThan_iff less_add_same_cancel1 linorder_not_le order_refl)
    qed
    then show ?thesis using ok(5) assms by (simp add: buffer_alloc_def)
  qed
qed

lemma buffer_alloc_first_used:
  assumes "mm_inv s" and "used_set s = {..<k}" and "0 < unat n" and "k + unat n \<le> MAX_PAGES"
  shows "used_set (snd (buffer_alloc n s)) = {..<k + unat n}"
proof -
  obtain a t where at: "buffer_alloc n s = (a, t)" by fastforce
  then have a: "a = page_addr k" using buffer_alloc_first [OF assms(2-4)] by simp
  then have "a \<noteq> 0" using assms(3,4) by simp
  moreover have "region a (unat n) = {k..<k + unat n}" using assms(3,4) by (simp add: a region_def)
  ultimately have "used_set t = {..<k} \<union> {k..<k + unat n}"
    using buffer_alloc_result(3) [OF assms(1) at] assms(2) by simp
  then show ?thesis using at by (simp add: ivl_disj_un_one(2))
qed

lemma fb_pages: "unat ((FB_SIZE + PAGE_SIZE - 1) div PAGE_SIZE) = 300"
  by (simp add: FB_SIZE_def unat_div_distrib)

lemma gpu_init_buffers:
  assumes inv: "mm_inv s" and fb: "buffer_at s a 300"
  defines "s' \<equiv> gpu_init a s"
  shows "mm_inv s'" and "buffer_at s' (frontbuf s') 300" and "buffer_at s' (backbuf s') 300" and "frontbuf s' = a"
    and "cur_buf s' = backbuf s'" and "cur_w s' = FB_WIDTH" and "cur_h s' = FB_HEIGHT" and "fault s' = fault s"
    and "gpu_state.more s' = gpu_state.more s"
proof -
  let ?n = "(FB_SIZE + PAGE_SIZE - 1) div PAGE_SIZE :: u64" and ?t = "s\<lparr>frontbuf := a\<rparr>"
  obtain b t where bt: "buffer_alloc ?n ?t = (b, t)" by fastforce
  have s': "s' = t\<lparr>backbuf := if b = 0 then a else b, cur_buf := if b = 0 then a else b, cur_w := FB_WIDTH, cur_h := FB_HEIGHT\<rparr>"
    unfolding s'_def gpu_init_def bt by (simp add: Let_def)
  have t: "mm_inv t \<and> buffer_at t a 300 \<and> (b \<noteq> 0 \<longrightarrow> buffer_at t b 300) \<and> frontbuf t = a \<and> fault t = fault s \<and> gpu_state.more t = gpu_state.more s"
  proof (cases "b = 0")
    case True
    then have "t = ?t" using buffer_alloc_fail bt by blast
    then show ?thesis using True inv fb by (simp add: buffer_at_def)
  next
    case False
    have inv': "mm_inv ?t" using inv by simp
    note B = buffer_alloc_result [OF inv' bt False, unfolded fb_pages]
    have fb': "buffer_at ?t a 300" using fb by (simp add: buffer_at_def)
    then have "a \<noteq> b" using B(2) by (intro buffers_differ [OF fb' B(1)]) (auto simp: buffer_at_def)
    then show ?thesis using B fb by (auto simp: buffer_at_def)
  qed
  then show "mm_inv s'" "buffer_at s' (frontbuf s') 300" "buffer_at s' (backbuf s') 300" "frontbuf s' = a"
    "cur_buf s' = backbuf s'" "cur_w s' = FB_WIDTH" "cur_h s' = FB_HEIGHT" "fault s' = fault s" "gpu_state.more s' = gpu_state.more s"
    by (auto simp: s' buffer_at_def mm_inv_def used_set_def bitmap_test_def)
qed

lemma buffer_target_ok:
  "buffer_at s (cur_buf s) 300 \<Longrightarrow> cur_w s = FB_WIDTH \<Longrightarrow> cur_h s = FB_HEIGHT \<Longrightarrow> target_ok s"
  by (simp add: target_ok_def buffer_at_def FB_WIDTH_def FB_HEIGHT_def PAGE_PIXELS_def)

lemma gpu_init_used:
  assumes "mm_inv s" and "used_set s = {..<k}" and "k + 300 \<le> MAX_PAGES"
  shows "used_set (gpu_init a s) = {..<k + 300}"
proof -
  have "used_set (gpu_init a s) = used_set (snd (buffer_alloc ((FB_SIZE + PAGE_SIZE - 1) div PAGE_SIZE) (s\<lparr>frontbuf := a\<rparr>)))"
    unfolding gpu_init_def by (simp add: Let_def used_set_def bitmap_test_def split: prod.split)
  also have "\<dots> = {..<k + 300}" using buffer_alloc_first_used [of "s\<lparr>frontbuf := a\<rparr>" k "(FB_SIZE + PAGE_SIZE - 1) div PAGE_SIZE", unfolded fb_pages] assms by simp
  finally show ?thesis .
qed

end
