(* ===== verification/Wm.thy ===== *)
theory Wm
  imports Gpu
begin

text \<open>
  The window manager (\<^verbatim>\<open>kernel/wm.c\<close>): eight window slots, the stacking order from back to
  front, focus, dragging and the composition of the screen. Window ids are the integers the code
  passes around, \<open>-1\<close> for none. Contents are pixel buffers of the graphics component, a null
  pointer is \<open>0\<close>. Messages printed with \<^verbatim>\<open>kprintf\<close> are left out.
\<close>

section \<open>State\<close>

definition WM_MAX_WINDOWS :: nat where "WM_MAX_WINDOWS = 8"
definition TITLEBAR_H :: int where "TITLEBAR_H = 20"
definition TASKBAR_H :: int where "TASKBAR_H = 24"
definition CLOSE_BTN_W :: int where "CLOSE_BTN_W = 16"
definition START_BTN_W :: int where "START_BTN_W = 60"
definition MOUSE_BTN_LEFT :: int where "MOUSE_BTN_LEFT = 1"

definition TITLE_BG_FOCUSED :: u32 where "TITLE_BG_FOCUSED = 0x00336699"
definition TITLE_BG_UNFOCUSED :: u32 where "TITLE_BG_UNFOCUSED = 0x00606060"
definition CLOSE_BG :: u32 where "CLOSE_BG = 0x00CC3333"
definition BORDER_COLOR :: u32 where "BORDER_COLOR = 0x00808080"
definition DESKTOP_BG :: u32 where "DESKTOP_BG = COLOR_DKBLUE"
definition TASKBAR_BG :: u32 where "TASKBAR_BG = 0x00333333"
definition TASKBAR_FG :: u32 where "TASKBAR_FG = COLOR_LTGRAY"
definition TASKBAR_ACTIVE_BG :: u32 where "TASKBAR_ACTIVE_BG = 0x00336699"

record wm_window =
  win_x :: int
  win_y :: int
  win_w :: int
  win_h :: int
  title :: string
  content :: u64
  content_w :: int
  content_h :: int
  visible :: bool
  focused :: bool
  dragging :: bool
  drag_ox :: int
  drag_oy :: int
  needs_redraw :: bool

record wm_state = gpu_state +
  windows :: "wm_window list"
  z_order :: "nat list"
  z_count :: nat
  prev_buttons :: int

definition upd_window :: "nat \<Rightarrow> (wm_window \<Rightarrow> wm_window) \<Rightarrow> 'a wm_state_scheme \<Rightarrow> 'a wm_state_scheme" where
  "upd_window i f s = s\<lparr>windows := (windows s)[i := f (windows s ! i)]\<rparr>"

definition bad_id :: "int \<Rightarrow> bool" where
  "bad_id wid \<longleftrightarrow> wid < 0 \<or> wid \<ge> int WM_MAX_WINDOWS"

section \<open>Operations\<close>

definition wm_init :: "'a wm_state_scheme \<Rightarrow> 'a wm_state_scheme" where
  "wm_init s =
     (let s1 = for_loop 0 WM_MAX_WINDOWS (\<lambda>i. upd_window i (\<lambda>w. w\<lparr>visible := False, content := 0\<rparr>)) s
      in s1\<lparr>z_count := 0, prev_buttons := 0\<rparr>)"

text \<open>\<^verbatim>\<open>z_order[i] = z_order[i + 1]\<close> for \<open>i\<close> from \<open>pos\<close> below \<open>n\<close>.\<close>

definition shift_down :: "nat \<Rightarrow> nat \<Rightarrow> nat list \<Rightarrow> nat list" where
  "shift_down pos n = for_loop pos n (\<lambda>i z. z[i := z ! (i + 1)])"

definition wm_focus_window :: "int \<Rightarrow> 'a wm_state_scheme \<Rightarrow> 'a wm_state_scheme" where
  "wm_focus_window wid s =
     (if bad_id wid \<or> \<not> visible (windows s ! nat wid) then s
      else
        let s1 = for_loop 0 WM_MAX_WINDOWS (\<lambda>i. upd_window i (\<lambda>w. w\<lparr>focused := False\<rparr>)) s;
            s2 = upd_window (nat wid) (\<lambda>w. w\<lparr>focused := True\<rparr>) s1
        in case first_idx (\<lambda>i. z_order s2 ! i = nat wid) 0 (z_count s2) of
             None \<Rightarrow> s2
           | Some pos \<Rightarrow>
               if pos < z_count s2 - 1
               then s2\<lparr>z_order := (shift_down pos (z_count s2 - 1) (z_order s2))[z_count s2 - 1 := nat wid]\<rparr>
               else s2)"

definition buf_pages :: "int \<Rightarrow> int \<Rightarrow> u64" where
  "buf_pages w h = (word_of_int w * word_of_int h * 4 + PAGE_SIZE - 1) div PAGE_SIZE"

text \<open>\<^verbatim>\<open>memset(buf, 0, size)\<close> on a pixel buffer, for a size in whole pixels.\<close>

definition buffer_zero :: "u64 \<Rightarrow> nat \<Rightarrow> 'a gpu_state_scheme \<Rightarrow> 'a gpu_state_scheme" where
  "buffer_zero b n s =
     (if n \<le> length (pixels s b) then s\<lparr>pixels := (pixels s)(b := replicate n 0 @ drop n (pixels s b))\<rparr>
      else s\<lparr>fault := True\<rparr>)"

definition wm_create_window :: "string \<Rightarrow> int \<Rightarrow> int \<Rightarrow> int \<Rightarrow> int \<Rightarrow> 'a wm_state_scheme \<Rightarrow> int \<times> 'a wm_state_scheme" where
  "wm_create_window name x y w h s =
     (case first_idx (\<lambda>i. \<not> visible (windows s ! i)) 0 WM_MAX_WINDOWS of
        None \<Rightarrow> (-1, s)
      | Some wid \<Rightarrow>
          let s1 = upd_window wid (\<lambda>win. win\<lparr>title := take 31 name, win_x := x, win_y := y, content_w := w, content_h := h,
                                           win_w := w + 2, win_h := h + TITLEBAR_H + 2\<rparr>) s
          in case buffer_alloc (buf_pages w h) s1 of
               (a, s2) \<Rightarrow>
                 let s3 = upd_window wid (\<lambda>win. win\<lparr>content := a\<rparr>) s2
                 in if a = 0 then (-1, s3)
                    else
                      let s4 = buffer_zero a (unat (word_of_int w * word_of_int h * 4 :: u64) div 4) s3;
                          s5 = upd_window wid (\<lambda>win. win\<lparr>visible := True, focused := False, dragging := False, needs_redraw := True\<rparr>) s4;
                          s6 = s5\<lparr>z_order := (z_order s5)[z_count s5 := wid], z_count := z_count s5 + 1\<rparr>
                      in (int wid, wm_focus_window (int wid) s6))"

text \<open>The scan that takes \<open>wid\<close> out of the stacking order: the flag \<open>found\<close> and the array.\<close>

definition remove_step :: "nat \<Rightarrow> nat \<Rightarrow> nat \<Rightarrow> bool \<times> nat list \<Rightarrow> bool \<times> nat list" where
  "remove_step wid n i = (\<lambda>(found, z).
     let found' = (if z ! i = wid then True else found)
     in (found', if found' \<and> i + 1 < n then z[i := z ! (i + 1)] else z))"

definition wm_destroy_window :: "int \<Rightarrow> 'a wm_state_scheme \<Rightarrow> 'a wm_state_scheme" where
  "wm_destroy_window wid s =
     (if bad_id wid \<or> \<not> visible (windows s ! nat wid) then s
      else
        let win = windows s ! nat wid;
            s1 = (if content win \<noteq> 0
                  then upd_window (nat wid) (\<lambda>w. w\<lparr>content := 0\<rparr>)
                         (buffer_free (content win) (buf_pages (content_w win) (content_h win)) s)
                  else s);
            s2 = upd_window (nat wid) (\<lambda>w. w\<lparr>visible := False, focused := False\<rparr>) s1;
            (found, z) = for_loop 0 (z_count s2) (remove_step (nat wid) (z_count s2)) (False, z_order s2);
            s3 = s2\<lparr>z_order := z, z_count := if found then z_count s2 - 1 else z_count s2\<rparr>
        in if z_count s3 > 0 then wm_focus_window (int (z_order s3 ! (z_count s3 - 1))) s3 else s3)"

definition wm_get_content :: "int \<Rightarrow> 'a wm_state_scheme \<Rightarrow> u64" where
  "wm_get_content wid s = (if bad_id wid \<or> \<not> visible (windows s ! nat wid) then 0 else content (windows s ! nat wid))"

definition wm_get_content_w :: "int \<Rightarrow> 'a wm_state_scheme \<Rightarrow> int" where
  "wm_get_content_w wid s = (if bad_id wid then 0 else content_w (windows s ! nat wid))"

definition wm_get_content_h :: "int \<Rightarrow> 'a wm_state_scheme \<Rightarrow> int" where
  "wm_get_content_h wid s = (if bad_id wid then 0 else content_h (windows s ! nat wid))"

definition wm_get_window :: "int \<Rightarrow> 'a wm_state_scheme \<Rightarrow> nat option" where
  "wm_get_window wid s = (if bad_id wid \<or> \<not> visible (windows s ! nat wid) then None else Some (nat wid))"

definition wm_get_focused :: "'a wm_state_scheme \<Rightarrow> int" where
  "wm_get_focused s =
     (case first_idx (\<lambda>i. visible (windows s ! i) \<and> focused (windows s ! i)) 0 WM_MAX_WINDOWS of
        Some i \<Rightarrow> int i | None \<Rightarrow> -1)"

definition wm_window_count :: "'a wm_state_scheme \<Rightarrow> nat" where
  "wm_window_count s = for_loop 0 WM_MAX_WINDOWS (\<lambda>i count. if visible (windows s ! i) then count + 1 else count) 0"

definition draw_window :: "wm_window \<Rightarrow> 'a gpu_state_scheme \<Rightarrow> 'a gpu_state_scheme" where
  "draw_window win s =
     (let x = win_x win; y = win_y win; w = win_w win; h = win_h win;
          s1 = gpu_draw_rect x y w h BORDER_COLOR s;
          title_bg = (if focused win then TITLE_BG_FOCUSED else TITLE_BG_UNFOCUSED);
          s2 = gpu_fill_rect (x + 1) (y + 1) (w - 2) TITLEBAR_H title_bg s1;
          s3 = gpu_draw_string (x + 4) (y + 3) (title win) COLOR_WHITE title_bg s2;
          cx = x + w - CLOSE_BTN_W - 2; cy = y + 2;
          s4 = gpu_fill_rect cx cy CLOSE_BTN_W (TITLEBAR_H - 4) CLOSE_BG s3;
          s5 = gpu_draw_char (cx + 4) (cy + 1) CHR ''X'' COLOR_WHITE CLOSE_BG s4;
          client_x = x + 1; client_y = y + TITLEBAR_H + 1
      in if content win \<noteq> 0
         then gpu_blit client_x client_y (content win) (content_w win) (content_h win) (content_w win) s5
         else s5)"

text \<open>The width of a window's button in the taskbar.\<close>

definition button_w :: "wm_window \<Rightarrow> int" where
  "button_w win = (int (length (title win)) + 2) * FONT_WIDTH + 8"

fun draw_buttons :: "int \<Rightarrow> int \<Rightarrow> nat list \<Rightarrow> 'a wm_state_scheme \<Rightarrow> 'a wm_state_scheme" where
  "draw_buttons ty bx [] s = s"
| "draw_buttons ty bx (wid # ids) s =
     (let win = windows s ! wid
      in if \<not> visible win then draw_buttons ty bx ids s
         else let bw = button_w win;
                  bg = (if focused win then TASKBAR_ACTIVE_BG else TASKBAR_BG);
                  s1 = gpu_fill_rect bx (ty + 2) bw (TASKBAR_H - 4) bg s;
                  s2 = gpu_draw_string (bx + 4) (ty + 5) (title win) TASKBAR_FG bg s1
              in draw_buttons ty (bx + bw + 4) ids s2)"

definition draw_taskbar :: "'a wm_state_scheme \<Rightarrow> 'a wm_state_scheme" where
  "draw_taskbar s =
     (let ty = FB_HEIGHT - TASKBAR_H;
          s1 = gpu_fill_rect 0 ty FB_WIDTH TASKBAR_H TASKBAR_BG s;
          s2 = gpu_hline 0 ty FB_WIDTH BORDER_COLOR s1;
          s3 = gpu_fill_rect 0 (ty + 1) START_BTN_W (TASKBAR_H - 1) 0x00336699 s2;
          s4 = gpu_draw_string 6 (ty + 5) ''Start'' COLOR_WHITE 0x00336699 s3;
          s5 = draw_buttons ty (START_BTN_W + 4) (take (z_count s4) (z_order s4)) s4
      in gpu_draw_string (FB_WIDTH - 8 * FONT_WIDTH - 4) (ty + 5) ''DRAGOON'' COLOR_GRAY TASKBAR_BG s5)"

definition wm_composite :: "'a wm_state_scheme \<Rightarrow> 'a wm_state_scheme" where
  "wm_composite s =
     (let s1 = gpu_clear DESKTOP_BG s;
          wx = (FB_WIDTH - 10 * FONT_WIDTH) div 2; wy = (FB_HEIGHT - TASKBAR_H) div 2 - 8;
          s2 = gpu_draw_string wx wy ''DRAGOON OS'' 0x00102040 DESKTOP_BG s1;
          s3 = fold (\<lambda>wid t. if visible (windows t ! wid) then draw_window (windows t ! wid) t else t)
                 (take (z_count s2) (z_order s2)) s2
      in draw_taskbar s3)"

definition drag_to :: "int \<Rightarrow> int \<Rightarrow> wm_window \<Rightarrow> wm_window" where
  "drag_to mx my win =
     (let y = my - drag_oy win;
          y1 = (if y < 0 then 0 else y);
          y2 = (if y1 > FB_HEIGHT - TASKBAR_H - TITLEBAR_H then FB_HEIGHT - TASKBAR_H - TITLEBAR_H else y1)
      in win\<lparr>win_x := mx - drag_ox win, win_y := y2\<rparr>)"

fun taskbar_hit :: "wm_window list \<Rightarrow> int \<Rightarrow> int \<Rightarrow> nat list \<Rightarrow> nat option" where
  "taskbar_hit ws mx bx [] = None"
| "taskbar_hit ws mx bx (wid # ids) =
     (if \<not> visible (ws ! wid) then taskbar_hit ws mx bx ids
      else let bw = button_w (ws ! wid)
           in if mx \<ge> bx \<and> mx < bx + bw then Some wid else taskbar_hit ws mx (bx + bw + 4) ids)"

definition hit :: "int \<Rightarrow> int \<Rightarrow> wm_window \<Rightarrow> bool" where
  "hit mx my win \<longleftrightarrow>
     \<not> (mx < win_x win \<or> mx \<ge> win_x win + win_w win \<or> my < win_y win \<or> my \<ge> win_y win + win_h win)"

definition close_hit :: "int \<Rightarrow> int \<Rightarrow> wm_window \<Rightarrow> bool" where
  "close_hit mx my win =
     (let cx = win_x win + win_w win - CLOSE_BTN_W - 2; cy = win_y win + 2
      in mx \<ge> cx \<and> mx < cx + CLOSE_BTN_W \<and> my \<ge> cy \<and> my < cy + TITLEBAR_H - 4)"

definition wm_handle_mouse :: "int \<Rightarrow> int \<Rightarrow> int \<Rightarrow> 'a wm_state_scheme \<Rightarrow> int \<times> 'a wm_state_scheme" where
  "wm_handle_mouse mx my buttons s0 =
     (let clicked = (buttons AND MOUSE_BTN_LEFT \<noteq> 0 \<and> \<not> prev_buttons s0 AND MOUSE_BTN_LEFT \<noteq> 0);
          released = (\<not> buttons AND MOUSE_BTN_LEFT \<noteq> 0 \<and> prev_buttons s0 AND MOUSE_BTN_LEFT \<noteq> 0);
          s = s0\<lparr>prev_buttons := buttons\<rparr>
      in case first_idx (\<lambda>i. dragging (windows s ! i)) 0 WM_MAX_WINDOWS of
           Some i \<Rightarrow> (-1, upd_window i (if released then (\<lambda>w. w\<lparr>dragging := False\<rparr>) else drag_to mx my) s)
         | None \<Rightarrow>
             if \<not> clicked then (-1, s)
             else if my \<ge> FB_HEIGHT - TASKBAR_H then
               if mx < START_BTN_W then (-2, s)
               else (case taskbar_hit (windows s) mx (START_BTN_W + 4) (take (z_count s) (z_order s)) of
                       Some wid \<Rightarrow> (-1, wm_focus_window (int wid) s)
                     | None \<Rightarrow> (-1, s))
             else case find (\<lambda>wid. visible (windows s ! wid) \<and> hit mx my (windows s ! wid)) (rev (take (z_count s) (z_order s))) of
                    None \<Rightarrow> (-1, s)
                  | Some wid \<Rightarrow>
                      let s1 = wm_focus_window (int wid) s; win = windows s1 ! wid
                      in if close_hit mx my win then (- (int wid + 100), s1)
                         else if my < win_y win + TITLEBAR_H + 1
                              then (-1, upd_window wid (\<lambda>w. w\<lparr>dragging := True, drag_ox := mx - win_x w, drag_oy := my - win_y w\<rparr>) s1)
                              else (int wid, s1))"

section \<open>The stacking order as a list\<close>

definition zlist :: "'a wm_state_scheme \<Rightarrow> nat list" where
  "zlist s = take (z_count s) (z_order s)"

lemma shift_down_eq:
  "pos \<le> n \<Longrightarrow> n < length z \<Longrightarrow> shift_down pos n z = take pos z @ take (n - pos) (drop (Suc pos) z) @ drop n z"
proof (induction n rule: dec_induct)
  case base then show ?case by (simp add: shift_down_def)
next
  case (step n)
  define l where "l = take pos z @ take (n - pos) (drop (Suc pos) z)"
  have l: "length l = n" using step by (simp add: l_def)
  have d: "drop n z = z ! n # z ! Suc n # drop (Suc (Suc n)) z" using step.prems by (simp add: Cons_nth_drop_Suc)
  have "shift_down pos n z = l @ drop n z" using step by (simp add: l_def)
  then have "shift_down pos (Suc n) z = (l @ drop n z)[n := (l @ drop n z) ! Suc n]"
    using step by (simp add: shift_down_def for_loop_Suc)
  also have "\<dots> = l @ z ! Suc n # z ! Suc n # drop (Suc (Suc n)) z"
    unfolding d using l by (simp add: list_update_append nth_append)
  also have "\<dots> = (l @ [z ! Suc n]) @ drop (Suc n) z" using step.prems by (simp add: Cons_nth_drop_Suc)
  also have "l @ [z ! Suc n] = take pos z @ take (Suc n - pos) (drop (Suc pos) z)"
    using step by (simp add: l_def Suc_diff_le take_Suc_conv_app_nth)
  finally show ?case by simp
qed

lemma shift_down_le [simp]: "n \<le> pos \<Longrightarrow> shift_down pos n z = z"
  by (simp add: shift_down_def)

lemma shift_down_Suc: "pos \<le> n \<Longrightarrow> shift_down pos (Suc n) z = (shift_down pos n z)[n := shift_down pos n z ! Suc n]"
  by (simp add: shift_down_def for_loop_Suc)

lemma length_shift_down [simp]: "length (shift_down pos n z) = length z"
  unfolding shift_down_def by (rule for_loop_frame) simp

text \<open>Where \<open>remove1\<close> takes an element of a list without repetitions away.\<close>

lemma remove1_nth:
  "distinct xs \<Longrightarrow> k < length xs \<Longrightarrow> remove1 (xs ! k) xs = take k xs @ drop (Suc k) xs"
proof (induction xs arbitrary: k)
  case (Cons x xs) then show ?case by (cases k) auto
qed simp

lemma take_shift_down:
  assumes "distinct (take n z)" and "k < n" and "n \<le> length z"
  shows "take (n - 1) (shift_down k (n - 1) z) = remove1 (z ! k) (take n z)"
proof -
  have "take (n - 1) (shift_down k (n - 1) z) = take k z @ take (n - 1 - k) (drop (Suc k) z)"
    using assms by (simp add: shift_down_eq)
  also have "\<dots> = take k (take n z) @ drop (Suc k) (take n z)"
    using assms by (simp add: min_def drop_take)
  also have "\<dots> = remove1 (take n z ! k) (take n z)" using assms by (intro remove1_nth [symmetric]) auto
  finally show ?thesis using assms by simp
qed

lemma remove_loop:
  assumes "distinct (take n z)" and "k < n" and "n \<le> length z" and "z ! k = w"
  shows "for_loop 0 n (remove_step w n) (False, z) = (True, shift_down k (n - 1) z)"
proof -
  define P where "P i p \<longleftrightarrow> p = (k < i, shift_down k (min i (n - 1)) z)" for i and p :: "bool \<times> nat list"
  have "P n (for_loop 0 n (remove_step w n) (False, z))"
  proof (rule for_loop_inv [where P = P])
    show "P 0 (False, z)" by (simp add: P_def)
    fix i p assume i: "i < n" and p: "P i p"
    have dist: "z ! i = w \<longleftrightarrow> i = k" if "i \<le> k"
      using assms i that nth_eq_iff_index_eq [OF assms(1), of i k] by auto
    show "P (Suc i) (remove_step w n i p)"
    proof (cases "Suc i < n")
      case True
      then show ?thesis
        using p dist by (cases "i < k"; cases "i = k") (auto simp: P_def remove_step_def Let_def shift_down_Suc min_def)
    next
      case False
      then have "n = Suc i" using i by simp
      then show ?thesis
        using p dist assms(2) by (cases "i = k") (auto simp: P_def remove_step_def Let_def)
    qed
  qed simp
  then show ?thesis using assms(2) by (simp add: P_def)
qed

section \<open>The invariant of windows and stacking order\<close>

text \<open>
  The stacking order lists each visible window once, and the focus is on the top one.
\<close>

definition shown :: "'a wm_state_scheme \<Rightarrow> nat set" where
  "shown s = {i. i < WM_MAX_WINDOWS \<and> visible (windows s ! i)}"

definition shape_inv :: "'a wm_state_scheme \<Rightarrow> bool" where
  "shape_inv s \<longleftrightarrow>
     length (windows s) = WM_MAX_WINDOWS \<and> length (z_order s) = WM_MAX_WINDOWS \<and> z_count s \<le> WM_MAX_WINDOWS \<and>
     distinct (zlist s) \<and> set (zlist s) = shown s"

definition stack_inv :: "'a wm_state_scheme \<Rightarrow> bool" where
  "stack_inv s \<longleftrightarrow> shape_inv s \<and> (\<forall>i \<in> shown s. focused (windows s ! i) \<longleftrightarrow> i = last (zlist s))"

lemma shape_invD:
  assumes "shape_inv s"
  shows "length (windows s) = WM_MAX_WINDOWS" and "length (z_order s) = WM_MAX_WINDOWS" and "z_count s \<le> WM_MAX_WINDOWS"
    and "distinct (zlist s)" and "set (zlist s) = shown s" and "length (zlist s) = z_count s"
  using assms by (auto simp: shape_inv_def zlist_def)

lemma shown_bad_id [simp]: "i \<in> shown s \<Longrightarrow> \<not> bad_id (int i)"
  by (simp add: shown_def bad_id_def)

lemma shownD: "i \<in> shown s \<Longrightarrow> i < WM_MAX_WINDOWS" "i \<in> shown s \<Longrightarrow> visible (windows s ! i)"
  by (simp_all add: shown_def)

lemma windows_upd_window [simp]: "windows (upd_window i f s) = (windows s)[i := f (windows s ! i)]"
  by (simp add: upd_window_def)

lemma upd_window_frame [simp]:
  "z_order (upd_window i f s) = z_order s" "z_count (upd_window i f s) = z_count s" "prev_buttons (upd_window i f s) = prev_buttons s"
  "pixels (upd_window i f s) = pixels s" "fault (upd_window i f s) = fault s" "backbuf (upd_window i f s) = backbuf s"
  "frontbuf (upd_window i f s) = frontbuf s" "cur_buf (upd_window i f s) = cur_buf s" "cur_w (upd_window i f s) = cur_w s"
  "cur_h (upd_window i f s) = cur_h s"
  by (simp_all add: upd_window_def)

lemma fold_upd_windows:
  "windows (for_loop 0 n (\<lambda>i. upd_window i f) s) = map f (take n (windows s)) @ drop n (windows s)" if "n \<le> length (windows s)"
  using that
proof (induction n)
  case (Suc n)
  then show ?case
    by (simp add: for_loop_Suc take_Suc_conv_app_nth nth_append list_update_append Cons_nth_drop_Suc [symmetric])
qed simp

lemma loop_upd_frame [simp]:
  "z_order (for_loop 0 n (\<lambda>i. upd_window i f) s) = z_order s" "z_count (for_loop 0 n (\<lambda>i. upd_window i f) s) = z_count s"
  "pixels (for_loop 0 n (\<lambda>i. upd_window i f) s) = pixels s" "fault (for_loop 0 n (\<lambda>i. upd_window i f) s) = fault s"
  "backbuf (for_loop 0 n (\<lambda>i. upd_window i f) s) = backbuf s" "frontbuf (for_loop 0 n (\<lambda>i. upd_window i f) s) = frontbuf s"
  "prev_buttons (for_loop 0 n (\<lambda>i. upd_window i f) s) = prev_buttons s"
  by (rule for_loop_frame, simp)+

lemma focus_window:
  assumes inv: "shape_inv s" and i: "i \<in> shown s"
  defines "s' \<equiv> wm_focus_window (int i) s"
  shows "windows s' = (map (\<lambda>w. w\<lparr>focused := False\<rparr>) (windows s))[i := (windows s ! i)\<lparr>focused := True\<rparr>]"
    and "zlist s' = remove1 i (zlist s) @ [i]" and "z_count s' = z_count s" and "length (z_order s') = WM_MAX_WINDOWS"
    and "pixels s' = pixels s" and "fault s' = fault s" and "backbuf s' = backbuf s" and "frontbuf s' = frontbuf s"
proof -
  note D = shape_invD [OF inv]
  define s2 where "s2 = upd_window i (\<lambda>w. w\<lparr>focused := True\<rparr>) (for_loop 0 WM_MAX_WINDOWS (\<lambda>i. upd_window i (\<lambda>w. w\<lparr>focused := False\<rparr>)) s)"
  have z: "z_order s2 = z_order s" "z_count s2 = z_count s" by (simp_all add: s2_def)
  have w: "windows s2 = (map (\<lambda>w. w\<lparr>focused := False\<rparr>) (windows s))[i := (windows s ! i)\<lparr>focused := True\<rparr>]"
    using D(1) shownD(1) [OF i] by (simp add: s2_def fold_upd_windows)
  obtain k0 where k0: "k0 < z_count s" "zlist s ! k0 = i"
    using i unfolding D(5) [symmetric] in_set_conv_nth D(6) by blast
  then have "z_order s ! k0 = i" by (simp add: zlist_def)
  then obtain k where k: "first_idx (\<lambda>j. z_order s ! j = i) 0 (z_count s) = Some k"
    using k0(1) first_idx_None [of "\<lambda>j. z_order s ! j = i" 0 "z_count s"] by (cases "first_idx (\<lambda>j. z_order s ! j = i) 0 (z_count s)") auto
  then have kz: "k < z_count s" "z_order s ! k = i" by (auto dest: first_idx_SomeD)
  define z' where "z' = (if k < z_count s - 1 then (shift_down k (z_count s - 1) (z_order s))[z_count s - 1 := i] else z_order s)"
  have s': "s' = s2\<lparr>z_order := z'\<rparr>"
    using i k z by (simp add: s'_def wm_focus_window_def shownD s2_def Let_def z'_def)
  have "take (z_count s) z' = remove1 i (zlist s) @ [i]"
  proof (cases "k < z_count s - 1")
    case True
    have "take (z_count s) z' = take (z_count s - 1) z' @ [z' ! (z_count s - 1)]"
      using True D(2,3) take_Suc_conv_app_nth [of "z_count s - 1" z'] by (simp add: z'_def)
    also have "\<dots> = take (z_count s - 1) (shift_down k (z_count s - 1) (z_order s)) @ [i]"
      using True D(2,3) by (simp add: z'_def)
    finally show ?thesis using take_shift_down [of "z_count s" "z_order s" k] D(2,3,4) kz by (simp add: zlist_def)
  next
    case False
    then have "k = z_count s - 1" "0 < z_count s" using kz by simp_all
    then have "zlist s = take (z_count s - 1) (z_order s) @ [i]"
      using D(2,3) kz take_Suc_conv_app_nth [of "z_count s - 1" "z_order s"] by (simp add: zlist_def)
    moreover from this D(4) have "i \<notin> set (take (z_count s - 1) (z_order s))" by simp
    ultimately show ?thesis using False by (simp add: z'_def zlist_def [symmetric] remove1_append)
  qed
  then show "zlist s' = remove1 i (zlist s) @ [i]" by (simp add: s' zlist_def z)
  show "windows s' = (map (\<lambda>w. w\<lparr>focused := False\<rparr>) (windows s))[i := (windows s ! i)\<lparr>focused := True\<rparr>]" by (simp add: s' w)
  show "z_count s' = z_count s" "length (z_order s') = WM_MAX_WINDOWS" "pixels s' = pixels s" "fault s' = fault s"
    "backbuf s' = backbuf s" "frontbuf s' = frontbuf s" using D(2) by (simp_all add: s' z z'_def s2_def)
qed

lemma focus_not_shown: "length (windows s) = WM_MAX_WINDOWS \<Longrightarrow> i \<notin> shown s \<Longrightarrow> wm_focus_window (int i) s = s"
  by (auto simp: wm_focus_window_def shown_def bad_id_def)

lemma focus_nth:
  assumes "shape_inv s" and "i \<in> shown s" and "j < WM_MAX_WINDOWS"
  shows "windows (wm_focus_window (int i) s) ! j = (windows s ! j)\<lparr>focused := (j = i)\<rparr>"
  using assms(3) shape_invD(1) [OF assms(1)] shownD(1) [OF assms(2)] by (simp add: focus_window(1) [OF assms(1,2)] nth_list_update)

lemma focus_stack_inv:
  assumes inv: "shape_inv s" and i: "i \<in> shown s"
  shows "stack_inv (wm_focus_window (int i) s)" and "shown (wm_focus_window (int i) s) = shown s"
proof -
  note D = shape_invD [OF inv] and F = focus_window [OF inv i] and N = focus_nth [OF inv i]
  show sh: "shown (wm_focus_window (int i) s) = shown s" using N by (auto simp: shown_def)
  have "set (remove1 i (zlist s) @ [i]) = shown s" "distinct (remove1 i (zlist s) @ [i])" using D(4,5) i by auto
  then have "shape_inv (wm_focus_window (int i) s)"
    unfolding shape_inv_def sh F(2,3,4) using D(1,3) by (simp add: F(1))
  moreover have "\<forall>j \<in> shown s. focused (windows (wm_focus_window (int i) s) ! j) \<longleftrightarrow> j = last (remove1 i (zlist s) @ [i])"
    by (simp add: N shownD(1))
  ultimately show "stack_inv (wm_focus_window (int i) s)" unfolding stack_inv_def sh F(2) by blast
qed

section \<open>Windows and their memory\<close>

abbreviation win_pages :: "wm_window \<Rightarrow> nat" where
  "win_pages w \<equiv> unat (buf_pages (content_w w) (content_h w))"

abbreviation win_region :: "wm_window \<Rightarrow> nat set" where
  "win_region w \<equiv> region (content w) (win_pages w)"

text \<open>The pages of the screen, front and back.\<close>

definition screen :: "'a gpu_state_scheme \<Rightarrow> nat set" where
  "screen s = region (frontbuf s) 300 \<union> region (backbuf s) 300"

definition screen_ok :: "'a gpu_state_scheme \<Rightarrow> bool" where
  "screen_ok s \<longleftrightarrow> buffer_at s (frontbuf s) 300 \<and> buffer_at s (backbuf s) 300"

definition size_ok :: "int \<Rightarrow> int \<Rightarrow> bool" where
  "size_ok w h \<longleftrightarrow> 0 < w \<and> w < 2 ^ 31 \<and> 0 < h \<and> h < 2 ^ 31"

definition win_ok :: "'a gpu_state_scheme \<Rightarrow> wm_window \<Rightarrow> bool" where
  "win_ok s w \<longleftrightarrow> size_ok (content_w w) (content_h w) \<and> win_w w = content_w w + 2 \<and> win_h w = content_h w + TITLEBAR_H + 2 \<and>
     buffer_at s (content w) (win_pages w) \<and> win_region w \<inter> screen s = {}"

definition wm_inv :: "'a wm_state_scheme \<Rightarrow> bool" where
  "wm_inv s \<longleftrightarrow>
     stack_inv s \<and> mm_inv s \<and> screen_ok s \<and> (\<forall>i \<in> shown s. win_ok s (windows s ! i)) \<and>
     (\<forall>i \<in> shown s. \<forall>j \<in> shown s. i \<noteq> j \<longrightarrow> win_region (windows s ! i) \<inter> win_region (windows s ! j) = {})"

lemma mm_wm_update [simp]:
  "used_set (upd_window i f s) = used_set s" "mm_inv (upd_window i f s) = mm_inv s"
  "used_set (s\<lparr>z_order := z\<rparr>) = used_set s" "mm_inv (s\<lparr>z_order := z\<rparr>) = mm_inv s"
  "used_set (s\<lparr>z_count := n\<rparr>) = used_set s" "mm_inv (s\<lparr>z_count := n\<rparr>) = mm_inv s"
  "used_set (s\<lparr>prev_buttons := b\<rparr>) = used_set s" "mm_inv (s\<lparr>prev_buttons := b\<rparr>) = mm_inv s"
  by (simp_all add: used_set_def bitmap_test_def mm_inv_def upd_window_def)

lemma mm_focus [simp]: "used_set (wm_focus_window i s) = used_set s" "mm_inv (wm_focus_window i s) = mm_inv s"
proof -
  have "page_bitmap (wm_focus_window i s) = page_bitmap s" "total_pages (wm_focus_window i s) = total_pages s"
    "used_pages (wm_focus_window i s) = used_pages s"
    by (auto simp: wm_focus_window_def Let_def upd_window_def for_loop_frame [where g = page_bitmap]
        for_loop_frame [where g = total_pages] for_loop_frame [where g = used_pages] split: option.split)
  then show "used_set (wm_focus_window i s) = used_set s" "mm_inv (wm_focus_window i s) = mm_inv s"
    by (simp_all add: used_set_def bitmap_test_def mm_inv_def)
qed

lemma unat_area:
  assumes "size_ok w h"
  shows "unat (word_of_int w * word_of_int h * 4 :: u64) = nat w * nat h * 4"
    and "unat (buf_pages w h) = (nat w * nat h * 4 + 4095) div 4096"
proof -
  have b: "nat w < 2 ^ 31" "nat h < 2 ^ 31" using assms by (simp_all add: size_ok_def nat_less_iff)
  then have "nat w \<le> 2 ^ 31 - 1" "nat h \<le> 2 ^ 31 - 1" by simp_all
  then have area: "nat w * nat h \<le> (2 ^ 31 - 1) * (2 ^ 31 - 1)" by (rule mult_le_mono)
  have u: "unat (word_of_int w :: u64) = nat w" "unat (word_of_int h :: u64) = nat h"
    using b assms by (simp_all add: size_ok_def unat_eq_nat_uint uint_word_of_int)
  have p: "unat (word_of_int w * word_of_int h :: u64) = nat w * nat h"
    using area u by (simp add: unat_mult_small)
  then show a: "unat (word_of_int w * word_of_int h * 4 :: u64) = nat w * nat h * 4"
    using area unat_mult_small [of "word_of_int w * word_of_int h" "4 :: u64"] by (simp add: mult.commute [of "nat h" "nat w"])
  have "unat (word_of_int w * word_of_int h * 4 + 4095 :: u64) = nat w * nat h * 4 + 4095"
    using area a unat_add_small [of "word_of_int w * word_of_int h * 4" "4095 :: u64"] by simp
  then show "unat (buf_pages w h) = (nat w * nat h * 4 + 4095) div 4096"
    by (simp add: buf_pages_def unat_div_distrib add.commute [of 4095])
qed

lemma content_fits:
  assumes "win_ok s w"
  shows "nat (content_w w * content_h w) \<le> length (pixels s (content w))"
proof -
  have "size_ok (content_w w) (content_h w)" "length (pixels s (content w)) = win_pages w * PAGE_PIXELS"
    using assms by (simp_all add: win_ok_def buffer_at_def)
  moreover have "x \<le> (x * 4 + 4095) div 4096 * 1024" for x :: nat by linarith
  ultimately show ?thesis
    using unat_area(2) [of "content_w w" "content_h w"] by (simp add: PAGE_PIXELS_def nat_mult_distrib size_ok_def)
qed

section \<open>Every operation keeps the invariant\<close>

lemma wm_invD:
  assumes "wm_inv s"
  shows "stack_inv s" and "shape_inv s" and "mm_inv s" and "screen_ok s"
    and "i \<in> shown s \<Longrightarrow> win_ok s (windows s ! i)"
    and "i \<in> shown s \<Longrightarrow> j \<in> shown s \<Longrightarrow> i \<noteq> j \<Longrightarrow> win_region (windows s ! i) \<inter> win_region (windows s ! j) = {}"
  using assms unfolding wm_inv_def stack_inv_def by blast+

text \<open>
  A step that leaves memory alone and changes no window's buffer or visibility keeps the part of the invariant
  about memory.
\<close>

lemma wm_inv_step:
  assumes inv: "wm_inv s" and "stack_inv t" and "shown t = shown s"
    and mm: "used_set t = used_set s" "mm_inv t" "pixels t = pixels s" "frontbuf t = frontbuf s" "backbuf t = backbuf s"
    and win: "\<And>i. i \<in> shown s \<Longrightarrow> content (windows t ! i) = content (windows s ! i) \<and>
         content_w (windows t ! i) = content_w (windows s ! i) \<and> content_h (windows t ! i) = content_h (windows s ! i) \<and> win_w (windows t ! i) = win_w (windows s ! i) \<and> win_h (windows t ! i) = win_h (windows s ! i)"
  shows "wm_inv t"
proof -
  have buf: "buffer_at t a n = buffer_at s a n" for a n using mm by (simp add: buffer_at_def)
  have scr: "screen t = screen s" using mm by (simp add: screen_def)
  show ?thesis
    using inv assms(2,3) mm win unfolding wm_inv_def win_ok_def screen_ok_def buf scr by simp
qed

lemma wm_focus_inv:
  assumes inv: "wm_inv s"
  shows "wm_inv (wm_focus_window w s)"
proof (cases "bad_id w \<or> \<not> visible (windows s ! nat w)")
  case True then show ?thesis using inv by (simp add: wm_focus_window_def)
next
  case False
  then obtain i where w: "w = int i" and i: "i \<in> shown s"
    by (metis bad_id_def int_nat_eq linorder_not_le mem_Collect_eq nat_less_iff nle_le shown_def of_nat_less_iff)
  note sh = wm_invD(2) [OF inv]
  show ?thesis unfolding w
    using focus_stack_inv [OF sh i] focus_window(5,7,8) [OF sh i] wm_invD(3) [OF inv]
    by (intro wm_inv_step [OF inv]) (simp_all add: focus_nth [OF sh i] shownD(1))
qed

lemma free_slot:
  assumes "shape_inv s" and "first_idx (\<lambda>i. \<not> visible (windows s ! i)) 0 WM_MAX_WINDOWS = Some k"
  shows "k < WM_MAX_WINDOWS" and "k \<notin> shown s" and "z_count s < WM_MAX_WINDOWS"
proof -
  note D = shape_invD [OF assms(1)]
  show k: "k < WM_MAX_WINDOWS" "k \<notin> shown s" using first_idx_SomeD [OF assms(2)] by (auto simp: shown_def)
  have "card (shown s) = z_count s" using D(4,5,6) distinct_card by metis
  moreover have "shown s \<subset> {..<WM_MAX_WINDOWS}" using k by (auto simp: shown_def)
  then have "card (shown s) < WM_MAX_WINDOWS" using psubset_card_mono [of "{..<WM_MAX_WINDOWS}"] by simp
  ultimately show "z_count s < WM_MAX_WINDOWS" by simp
qed

lemma wm_fields_more:
  assumes "gpu_state.more t = gpu_state.more s"
  shows "windows t = windows s" and "z_order t = z_order s" and "z_count t = z_count s" and "prev_buttons t = prev_buttons s"
    and "wm_state.more t = wm_state.more s"
  using assms by (cases s; cases t; simp)+

lemma buffer_at_keep: "buffer_at s b m \<Longrightarrow> region b m \<subseteq> used_set t \<Longrightarrow> pixels t b = pixels s b \<Longrightarrow> buffer_at t b m"
  by (simp add: buffer_at_def)

text \<open>The new window \<open>k\<close> just before it is focused, with its buffer at \<open>a\<close>.\<close>

definition placed :: "string \<Rightarrow> int \<Rightarrow> int \<Rightarrow> int \<Rightarrow> int \<Rightarrow> u64 \<Rightarrow> wm_window \<Rightarrow> wm_window" where
  "placed name x y w h a win = win\<lparr>title := take 31 name, win_x := x, win_y := y, content_w := w, content_h := h,
     win_w := w + 2, win_h := h + TITLEBAR_H + 2, content := a\<rparr>"

abbreviation opened :: "wm_window \<Rightarrow> wm_window" where
  "opened win \<equiv> win\<lparr>visible := True, focused := False, dragging := False, needs_redraw := True\<rparr>"

lemma create_window_cases:
  assumes inv: "wm_inv s" and sz: "size_ok w h" and c: "wm_create_window name x y w h s = (res, s')"
  obtains (full) "res = -1" "s' = s" "shown s = {..<WM_MAX_WINDOWS}"
  | (no_memory) k where "res = -1" "k < WM_MAX_WINDOWS" "k \<notin> shown s" "s' = upd_window k (placed name x y w h 0) s"
  | (ok) k a t where "k < WM_MAX_WINDOWS" "k \<notin> shown s" "res = int k" "s' = wm_focus_window (int k) t" "a \<noteq> 0"
      "buffer_at t a (unat (buf_pages w h))" "region a (unat (buf_pages w h)) \<inter> used_set s = {}"
      "used_set t = used_set s \<union> region a (unat (buf_pages w h))" "mm_inv t"
      "pixels t = (pixels s)(a := replicate (unat (buf_pages w h) * PAGE_PIXELS) 0)"
      "fault t = fault s" "backbuf t = backbuf s" "frontbuf t = frontbuf s"
      "windows t = (windows s)[k := opened (placed name x y w h a (windows s ! k))]"
      "z_order t = (z_order s)[z_count s := k]" "z_count t = Suc (z_count s)"
proof (cases "first_idx (\<lambda>i. \<not> visible (windows s ! i)) 0 WM_MAX_WINDOWS")
  case None
  then have "res = -1" "s' = s" using c by (simp_all add: wm_create_window_def)
  moreover have "shown s = {..<WM_MAX_WINDOWS}" using None by (auto simp: first_idx_None shown_def)
  ultimately show ?thesis by (rule full)
next
  case (Some k)
  note k = free_slot [OF wm_invD(2) [OF inv] Some]
  have len: "k < length (windows s)" using k(1) shape_invD(1) [OF wm_invD(2) [OF inv]] by simp
  define s1 where "s1 = upd_window k (\<lambda>win. win\<lparr>title := take 31 name, win_x := x, win_y := y, content_w := w, content_h := h,
                                           win_w := w + 2, win_h := h + TITLEBAR_H + 2\<rparr>) s"
  obtain a s2 where al: "buffer_alloc (buf_pages w h) s1 = (a, s2)" by fastforce
  show ?thesis
  proof (cases "a = 0")
    case True
    then have "s2 = s1" using buffer_alloc_fail al by blast
    then have "res = -1" "s' = upd_window k (placed name x y w h 0) s"
      using c Some al True len by (simp_all add: wm_create_window_def s1_def [symmetric] Let_def) (simp_all add: s1_def upd_window_def placed_def)
    then show ?thesis using k by (intro no_memory)
  next
    case False
    have mm: "mm_inv s1" using wm_invD(3) [OF inv] by (simp add: s1_def)
    note B = buffer_alloc_result [OF mm al False]
    note M = wm_fields_more [OF B(12)]
    define s3 where "s3 = upd_window k (\<lambda>win. win\<lparr>content := a\<rparr>) s2"
    have "unat (word_of_int w * word_of_int h * 4 :: u64) div 4 \<le> unat (buf_pages w h) * PAGE_PIXELS"
    proof -
      have "x \<le> (x * 4 + 4095) div 4096 * 1024" for x :: nat by linarith
      then show ?thesis using unat_area [OF sz] by (simp add: PAGE_PIXELS_def)
    qed
    then have zero: "buffer_zero a (unat (word_of_int w * word_of_int h * 4 :: u64) div 4) s3 = s3"
      by (simp add: buffer_zero_def s3_def B(5) replicate_add [symmetric])
    define t where "t = (upd_window k opened s3)\<lparr>z_order := (z_order s3)[z_count s3 := k], z_count := z_count s3 + 1\<rparr>"
    have "res = int k" "s' = wm_focus_window (int k) t"
      using c Some al False zero by (auto simp: wm_create_window_def s1_def [symmetric] s3_def [symmetric] Let_def t_def)
    then show ?thesis
      using B(1-8) M False k len
      by (intro ok [of k t a]) (simp_all add: t_def s3_def s1_def placed_def buffer_at_def)
  qed
qed

lemma create_no_memory_inv:
  assumes inv: "wm_inv s" and k: "k < WM_MAX_WINDOWS" "k \<notin> shown s"
  shows "wm_inv (upd_window k (placed name x y w h a) s)" and "zlist (upd_window k (placed name x y w h a) s) = zlist s"
    and "shown (upd_window k (placed name x y w h a) s) = shown s"
proof -
  let ?t = "upd_window k (placed name x y w h a) s"
  note sh = shape_invD [OF wm_invD(2) [OF inv]]
  have vis: "\<not> visible (windows s ! k)" using k by (simp add: shown_def)
  show z: "zlist ?t = zlist s" by (simp add: zlist_def)
  show shown: "shown ?t = shown s" using vis sh(1) k by (auto simp: shown_def nth_list_update placed_def)
  have nth: "windows ?t ! i = windows s ! i" if "i \<in> shown s" for i using that k(2) by (cases "i = k") auto
  have "stack_inv ?t"
    using wm_invD(1) [OF inv] nth unfolding stack_inv_def shape_inv_def shown z by simp
  then show "wm_inv ?t" using nth shown wm_invD(3) [OF inv] by (intro wm_inv_step [OF inv]) simp_all
qed

lemma create_ok_shape:
  assumes inv: "wm_inv s" and k: "k < WM_MAX_WINDOWS" "k \<notin> shown s" and room: "z_count s < WM_MAX_WINDOWS"
    and t: "windows t = (windows s)[k := opened win]" "z_order t = (z_order s)[z_count s := k]" "z_count t = Suc (z_count s)"
  shows "zlist t = zlist s @ [k]" and "shown t = insert k (shown s)" and "shape_inv t"
proof -
  note sh = shape_invD [OF wm_invD(2) [OF inv]]
  show z: "zlist t = zlist s @ [k]" using sh(2) room by (simp add: zlist_def t take_Suc_conv_app_nth)
  show shown: "shown t = insert k (shown s)" using sh(1) k by (auto simp: shown_def t nth_list_update)
  show "shape_inv t" using sh k room unfolding shape_inv_def z shown by (simp add: t)
qed

text \<open>What a call that creates a window does to the stack of windows and to memory.\<close>

definition create_spec :: "int \<Rightarrow> int \<Rightarrow> int \<Rightarrow> 'a wm_state_scheme \<Rightarrow> 'a wm_state_scheme \<Rightarrow> bool" where
  "create_spec w h res s s' \<longleftrightarrow>
     res = -1 \<and> zlist s' = zlist s \<and> shown s' = shown s \<and> used_set s' = used_set s \<and> pixels s' = pixels s \<or>
     (\<exists>k. k < WM_MAX_WINDOWS \<and> k \<notin> shown s \<and> res = int k \<and> zlist s' = zlist s @ [k] \<and> shown s' = insert k (shown s) \<and>
        used_set s' = used_set s \<union> win_region (windows s' ! k) \<and> win_region (windows s' ! k) \<inter> used_set s = {} \<and>
        content_w (windows s' ! k) = w \<and> content_h (windows s' ! k) = h \<and>
        pixels s' = (pixels s)(content (windows s' ! k) := replicate (win_pages (windows s' ! k) * PAGE_PIXELS) 0))"

lemma create_window_inv:
  assumes inv: "wm_inv s" and sz: "size_ok w h" and c: "wm_create_window name x y w h s = (res, s')"
  shows "wm_inv s' \<and> fault s' = fault s \<and> backbuf s' = backbuf s \<and> frontbuf s' = frontbuf s \<and> create_spec w h res s s'"
proof (cases rule: create_window_cases [OF inv sz c])
  case 1
  then show ?thesis using inv by (simp add: create_spec_def)
next
  case (2 k)
  then show ?thesis using create_no_memory_inv [OF inv 2(2,3)] by (simp add: create_spec_def)
next
  case (3 k a t)
  note ok = 3
  have room: "z_count s < WM_MAX_WINDOWS"
  proof -
    note D = shape_invD [OF wm_invD(2) [OF inv]]
    have "shown s \<subset> {..<WM_MAX_WINDOWS}" using ok(1,2) by (auto simp: shown_def)
    then have "card (shown s) < WM_MAX_WINDOWS" using psubset_card_mono [of "{..<WM_MAX_WINDOWS}"] by simp
    then show ?thesis using D(4,5,6) distinct_card by metis
  qed
  note C = create_ok_shape [OF inv ok(1,2) room ok(14,15,16)]
  have kt: "k \<in> shown t" using C(2) by simp
  note F = focus_window [OF C(3) kt, folded ok(4)] and FS = focus_stack_inv [OF C(3) kt, folded ok(4)]
    and FN = focus_nth [OF C(3) kt, folded ok(4)]
  have len: "length (windows s) = WM_MAX_WINDOWS" by (rule shape_invD(1) [OF wm_invD(2) [OF inv]])
  have wk: "content (windows s' ! k) = a" "content_w (windows s' ! k) = w" "content_h (windows s' ! k) = h"
    "win_w (windows s' ! k) = w + 2" "win_h (windows s' ! k) = h + TITLEBAR_H + 2"
    using ok(1) len by (simp_all add: FN ok(14) placed_def)
  have wi: "content (windows s' ! i) = content (windows s ! i)" "content_w (windows s' ! i) = content_w (windows s ! i)"
    "content_h (windows s' ! i) = content_h (windows s ! i)" "win_w (windows s' ! i) = win_w (windows s ! i)"
    "win_h (windows s' ! i) = win_h (windows s ! i)" if "i \<in> shown s" for i
    using that ok(2) shownD(1) [OF that] by (cases "i = k"; simp add: FN ok(14))+
  have u: "used_set s' = used_set s \<union> region a (unat (buf_pages w h))" "mm_inv s'" using ok(8,9) by (simp_all add: ok(4))
  have p: "pixels s' = (pixels s)(a := replicate (unat (buf_pages w h) * PAGE_PIXELS) 0)" by (simp add: F(5) ok(10))
  have keep: "buffer_at s' b m" if b: "buffer_at s b m" for b m
  proof -
    have "b \<noteq> a" using b ok(6,7) by (intro buffers_differ [OF b ok(6)]) (auto simp: buffer_at_def)
    then show ?thesis using b u(1) p by (intro buffer_at_keep [OF b]) (auto simp: buffer_at_def)
  qed
  have scr: "screen s' = screen s" "screen s \<subseteq> used_set s"
    using F(7,8) ok(12,13) wm_invD(4) [OF inv] by (simp_all add: screen_def screen_ok_def buffer_at_def)
  have fresh: "region a (unat (buf_pages w h)) \<inter> win_region (windows s ! i) = {}" if "i \<in> shown s" for i
    using wm_invD(5) [OF inv that] ok(7) by (auto simp: win_ok_def buffer_at_def)
  have wok: "win_ok s' (windows s' ! i)" if "i \<in> shown s'" for i
  proof (cases "i = k")
    case True
    have "buffer_at s' a (unat (buf_pages w h))" by (rule buffer_at_keep [OF ok(6)]) (simp_all add: F(5) u(1))
    then show ?thesis using True sz ok(7) scr by (auto simp: win_ok_def wk)
  next
    case False
    then have i: "i \<in> shown s" using that FS(2) C(2) by auto
    show ?thesis using wm_invD(5) [OF inv i] keep scr by (simp add: win_ok_def wi [OF i])
  qed
  have "wm_inv s'"
    unfolding wm_inv_def
  proof (intro conjI ballI impI)
    show "stack_inv s'" "mm_inv s'" by (rule FS(1)) (rule u(2))
    show "screen_ok s'" using wm_invD(4) [OF inv] keep F(7,8) ok(12,13) by (simp add: screen_ok_def)
    show "win_ok s' (windows s' ! i)" if "i \<in> shown s'" for i using wok that .
    show "win_region (windows s' ! i) \<inter> win_region (windows s' ! j) = {}" if "i \<in> shown s'" "j \<in> shown s'" "i \<noteq> j" for i j
      using that fresh wm_invD(6) [OF inv, of i j] unfolding FS(2) C(2)
      by (cases "i = k"; cases "j = k") (auto simp: wk wi Int_commute)
  qed
  then show ?thesis
    using ok(1,2,3,7,11,12,13) F(2,6,7,8) FS(2) C(1,2) u p wk
    unfolding create_spec_def by (auto intro!: exI [of _ k] simp: remove1_append shape_invD(5) [OF wm_invD(2) [OF inv]])
qed

text \<open>The state just before the top window gets the focus, for a visible window \<open>i\<close>.\<close>

lemma destroy_window_before_focus:
  assumes inv: "wm_inv s" and i: "i \<in> shown s"
  obtains t where "wm_destroy_window (int i) s = (if zlist t = [] then t else wm_focus_window (int (last (zlist t))) t)"
    "zlist t = remove1 i (zlist s)" "shown t = shown s - {i}" "shape_inv t"
    "used_set t = used_set s - win_region (windows s ! i)" "mm_inv t" "pixels t = (pixels s)(content (windows s ! i) := [])"
    "fault t = fault s" "backbuf t = backbuf s" "frontbuf t = frontbuf s" "\<forall>j \<in> shown s - {i}. windows t ! j = windows s ! j"
proof -
  note sh = shape_invD [OF wm_invD(2) [OF inv]]
  let ?win = "windows s ! i"
  have b: "buffer_at s (content ?win) (win_pages ?win)" using wm_invD(5) [OF inv i] by (simp add: win_ok_def)
  define f where "f = buffer_free (content ?win) (buf_pages (content_w ?win) (content_h ?win)) s"
  note B = buffer_free_result [OF wm_invD(3) [OF inv] b, folded f_def]
  note M = wm_fields_more [OF B(10)]
  define s2 where "s2 = upd_window i (\<lambda>w. w\<lparr>visible := False, focused := False\<rparr>) (upd_window i (\<lambda>w. w\<lparr>content := 0\<rparr>) f)"
  obtain k where k: "k < z_count s" "zlist s ! k = i"
    using i unfolding sh(5) [symmetric] in_set_conv_nth sh(6) by blast
  then have kz: "z_order s ! k = i" by (simp add: zlist_def)
  define t where "t = s2\<lparr>z_order := shift_down k (z_count s - 1) (z_order s), z_count := z_count s - 1\<rparr>"
  have z: "zlist t = remove1 i (zlist s)"
    using take_shift_down [of "z_count s" "z_order s" k] sh(2,3,4) k kz by (simp add: t_def zlist_def)
  have len: "length (zlist t) = z_count s - 1" using z sh(5,6) i by (simp add: length_remove1)
  have loop: "for_loop 0 (z_count s) (remove_step i (z_count s)) (False, z_order s) = (True, shift_down k (z_count s - 1) (z_order s))"
    using remove_loop [of "z_count s" "z_order s" k i] sh(2,3,4) k kz by (simp add: zlist_def)
  have zc: "z_count t = length (zlist t)" using len by (simp add: t_def)
  have top1: "z_count t > 0 \<longleftrightarrow> zlist t \<noteq> []" by (simp add: zc)
  have top2: "last (zlist t) = z_order t ! (z_count t - 1)" if "zlist t \<noteq> []"
  proof -
    have "z_count t - 1 < z_count t" using that top1 by simp
    then have "zlist t ! (z_count t - 1) = z_order t ! (z_count t - 1)" unfolding zlist_def by (rule nth_take)
    then show ?thesis using that by (simp add: last_conv_nth zc)
  qed
  have ok: "\<not> (bad_id (int i) \<or> \<not> visible (windows s ! i))" using i by (simp add: shownD)
  have s2: "z_order s2 = z_order s" "z_count s2 = z_count s" by (simp_all add: s2_def M)
  have "wm_destroy_window (int i) s =
      (case for_loop 0 (z_count s2) (remove_step i (z_count s2)) (False, z_order s2) of
         (found, z) \<Rightarrow> let s3 = s2\<lparr>z_order := z, z_count := if found then z_count s2 - 1 else z_count s2\<rparr>
           in if z_count s3 > 0 then wm_focus_window (int (z_order s3 ! (z_count s3 - 1))) s3 else s3)"
    unfolding wm_destroy_window_def Let_def s2_def f_def nat_int if_not_P [OF ok] if_P [OF buffer_at_nonzero [OF b]] by (rule refl)
  then have d: "wm_destroy_window (int i) s = (if z_count t > 0 then wm_focus_window (int (z_order t ! (z_count t - 1))) t else t)"
    unfolding s2 loop by (simp add: t_def Let_def)
  have shown: "shown t = shown s - {i}" using sh(1) shownD(1) [OF i] by (auto simp: shown_def t_def s2_def M nth_list_update)
  have "shape_inv t" using sh z shown unfolding shape_inv_def by (simp add: t_def s2_def M)
  then show ?thesis
    using d top1 top2 z shown B by (intro that [of t]) (simp_all add: t_def s2_def M)
qed

lemma destroy_window_inv:
  assumes inv: "wm_inv s" and i: "i \<in> shown s"
  defines "s' \<equiv> wm_destroy_window (int i) s"
  shows "wm_inv s'" and "zlist s' = remove1 i (zlist s)" and "shown s' = shown s - {i}"
    and "used_set s' = used_set s - win_region (windows s ! i)" and "pixels s' = (pixels s)(content (windows s ! i) := [])"
    and "fault s' = fault s" and "backbuf s' = backbuf s" and "frontbuf s' = frontbuf s"
proof -
  obtain t where t: "s' = (if zlist t = [] then t else wm_focus_window (int (last (zlist t))) t)"
    "zlist t = remove1 i (zlist s)" "shown t = shown s - {i}" "shape_inv t"
    "used_set t = used_set s - win_region (windows s ! i)" "mm_inv t" "pixels t = (pixels s)(content (windows s ! i) := [])"
    "fault t = fault s" "backbuf t = backbuf s" "frontbuf t = frontbuf s" "\<forall>j \<in> shown s - {i}. windows t ! j = windows s ! j"
    by (rule destroy_window_before_focus [OF inv i, folded s'_def])
  have last: "last (zlist t) \<in> shown t" if "zlist t \<noteq> []" using last_in_set [OF that] shape_invD(5) [OF t(4)] by simp
  have "stack_inv s' \<and> shown s' = shown t"
  proof (cases "zlist t = []")
    case True
    then have "shown t = {}" using shape_invD(5) [OF t(4)] by simp
    then show ?thesis using t(1,4) True by (simp add: stack_inv_def)
  next
    case False then show ?thesis using t(1) focus_stack_inv [OF t(4) last [OF False]] by simp
  qed
  then have st: "stack_inv s'" "shown s' = shown t" by simp_all
  have fields: "pixels s' = pixels t" "fault s' = fault t" "backbuf s' = backbuf t" "frontbuf s' = frontbuf t"
    "used_set s' = used_set t" "mm_inv s'"
    using t(1,6) focus_window(5-8) [OF t(4) last] by auto
  have win: "content (windows s' ! j) = content (windows s ! j) \<and> content_w (windows s' ! j) = content_w (windows s ! j) \<and>
      content_h (windows s' ! j) = content_h (windows s ! j) \<and> win_w (windows s' ! j) = win_w (windows s ! j) \<and> win_h (windows s' ! j) = win_h (windows s ! j)" if "j \<in> shown s - {i}" for j
    using t(1,11) that focus_nth [OF t(4) last shownD(1) [of j s]] by (cases "zlist t = []") auto
  show "shown s' = shown s - {i}" using st(2) t(3) by simp
  show "zlist s' = remove1 i (zlist s)"
  proof (cases "zlist t = []")
    case False
    have "remove1 (last (zlist t)) (zlist t) @ [last (zlist t)] = zlist t"
      using False shape_invD(4) [OF t(4)] by (metis append_butlast_last_id distinct_append disjoint_insert(2) list.set(2) remove1_append remove1.simps(2) append_Nil2 Int_insert_right)
    then show ?thesis using False t(1,2) focus_window(2) [OF t(4) last [OF False]] by simp
  qed (use t in simp)
  show "used_set s' = used_set s - win_region (windows s ! i)" "pixels s' = (pixels s)(content (windows s ! i) := [])"
    "fault s' = fault s" "backbuf s' = backbuf s" "frontbuf s' = frontbuf s" using fields t by simp_all
  have wi: "buffer_at s (content (windows s ! i)) (win_pages (windows s ! i))" "win_region (windows s ! i) \<inter> screen s = {}"
    using wm_invD(5) [OF inv i] by (simp_all add: win_ok_def)
  have keep: "buffer_at s' b m" if "buffer_at s b m" "region b m \<inter> win_region (windows s ! i) = {}" for b m
    using that buffers_differ [OF that(1) wi(1) that(2)] fields(1,5) t(5,7)
    by (intro buffer_at_keep [OF that(1)]) (auto simp: buffer_at_def)
  have scr: "screen s' = screen s" using fields t by (simp add: screen_def)
  show "wm_inv s'"
    unfolding wm_inv_def
  proof (intro conjI ballI impI)
    show "stack_inv s'" "mm_inv s'" using st fields by simp_all
    have "region (frontbuf s) 300 \<inter> win_region (windows s ! i) = {}" "region (backbuf s) 300 \<inter> win_region (windows s ! i) = {}"
      using wi(2) by (auto simp: screen_def)
    then show "screen_ok s'" using wm_invD(4) [OF inv] fields(3,4) t(9,10) keep by (simp add: screen_ok_def)
    show "win_ok s' (windows s' ! j)" if "j \<in> shown s'" for j
    proof -
      have j: "j \<in> shown s - {i}" using that st t(3) by simp
      then show ?thesis
        using wm_invD(5) [OF inv, of j] wm_invD(6) [OF inv _ i, of j] win [OF j] keep scr by (auto simp: win_ok_def)
    qed
    show "win_region (windows s' ! j) \<inter> win_region (windows s' ! k) = {}" if "j \<in> shown s'" "k \<in> shown s'" "j \<noteq> k" for j k
      using that wm_invD(6) [OF inv, of j k] win [of j] win [of k] st t(3) by simp
  qed
qed

text \<open>Dragging and the like: a window keeps its buffer, its visibility and its focus.\<close>

lemma upd_window_inv:
  assumes inv: "wm_inv s"
    and f: "\<And>w. visible (f w) = visible w \<and> focused (f w) = focused w \<and> content (f w) = content w \<and>
              content_w (f w) = content_w w \<and> content_h (f w) = content_h w \<and> win_w (f w) = win_w w \<and> win_h (f w) = win_h w"
  shows "wm_inv (upd_window i f s)" and "zlist (upd_window i f s) = zlist s" and "shown (upd_window i f s) = shown s"
proof -
  let ?t = "upd_window i f s"
  have nth: "windows ?t ! j = (if j = i then f (windows s ! i) else windows s ! j)" if "j < WM_MAX_WINDOWS" for j
    using that shape_invD(1) [OF wm_invD(2) [OF inv]] by (simp add: nth_list_update)
  have keep: "visible (windows ?t ! j) = visible (windows s ! j)" "focused (windows ?t ! j) = focused (windows s ! j)"
    "content (windows ?t ! j) = content (windows s ! j)" "content_w (windows ?t ! j) = content_w (windows s ! j)"
    "content_h (windows ?t ! j) = content_h (windows s ! j)" "win_w (windows ?t ! j) = win_w (windows s ! j)"
    "win_h (windows ?t ! j) = win_h (windows s ! j)" if "j < WM_MAX_WINDOWS" for j
    unfolding nth [OF that] by (simp_all add: f)
  show z: "zlist ?t = zlist s" by (simp add: zlist_def)
  show sh: "shown ?t = shown s" unfolding shown_def using keep(1) by blast
  have "shape_inv ?t" using shape_invD [OF wm_invD(2) [OF inv]] unfolding shape_inv_def sh z by (simp add: upd_window_def)
  moreover have "\<forall>j \<in> shown s. focused (windows ?t ! j) \<longleftrightarrow> j = last (zlist s)"
    using wm_invD(1) [OF inv] keep(2) [OF shownD(1)] unfolding stack_inv_def by blast
  ultimately have "stack_inv ?t" unfolding stack_inv_def sh z by blast
  moreover have "mm_inv ?t" using wm_invD(3) [OF inv] by simp
  ultimately show "wm_inv ?t"
    by (intro wm_inv_step [OF inv] conjI keep shownD(1)) (simp_all add: sh)
qed

lemma prev_buttons_inv:
  assumes inv: "wm_inv s"
  shows "wm_inv (s\<lparr>prev_buttons := b\<rparr>)" and "zlist (s\<lparr>prev_buttons := b\<rparr>) = zlist s" and "shown (s\<lparr>prev_buttons := b\<rparr>) = shown s"
proof -
  let ?t = "s\<lparr>prev_buttons := b\<rparr>"
  show z: "zlist ?t = zlist s" by (simp add: zlist_def)
  show sh: "shown ?t = shown s" by (simp add: shown_def)
  have "stack_inv ?t" using wm_invD(1) [OF inv] unfolding stack_inv_def shape_inv_def sh z by simp
  then show "wm_inv ?t" using sh wm_invD(3) [OF inv] by (intro wm_inv_step [OF inv]) simp_all
qed

lemma drag_to_keeps:
  "visible (drag_to mx my w) = visible w \<and> focused (drag_to mx my w) = focused w \<and> content (drag_to mx my w) = content w \<and>
   content_w (drag_to mx my w) = content_w w \<and> content_h (drag_to mx my w) = content_h w \<and> win_w (drag_to mx my w) = win_w w \<and> win_h (drag_to mx my w) = win_h w"
  by (simp add: drag_to_def Let_def)

lemma handle_mouse_inv:
  assumes inv: "wm_inv s"
  shows "wm_inv (snd (wm_handle_mouse mx my b s))"
proof -
  note P = prev_buttons_inv(1) [OF inv, of b]
  have focus: "wm_inv (wm_focus_window w (s\<lparr>prev_buttons := b\<rparr>))" for w by (rule wm_focus_inv [OF P])
  have upd: "wm_inv (upd_window i f t)" if "wm_inv t" "\<And>w. visible (f w) = visible w \<and> focused (f w) = focused w \<and> content (f w) = content w \<and>
              content_w (f w) = content_w w \<and> content_h (f w) = content_h w \<and> win_w (f w) = win_w w \<and> win_h (f w) = win_h w" for i f and t :: "'a wm_state_scheme"
    by (rule upd_window_inv(1) [OF that])
  show ?thesis
    unfolding wm_handle_mouse_def Let_def
    using P focus upd [OF P] upd [OF focus] drag_to_keeps
    by (auto split: option.split)
qed

lemma wm_init_inv:
  assumes "length (windows s) = WM_MAX_WINDOWS" and "length (z_order s) = WM_MAX_WINDOWS" and "mm_inv s" and "screen_ok s"
  shows "wm_inv (wm_init s)" and "zlist (wm_init s) = []" and "shown (wm_init s) = {}"
proof -
  let ?l = "for_loop 0 WM_MAX_WINDOWS (\<lambda>i. upd_window i (\<lambda>w. w\<lparr>visible := False, content := 0\<rparr>)) s"
  have w: "windows (wm_init s) = map (\<lambda>w. w\<lparr>visible := False, content := 0\<rparr>) (windows s)"
    using assms(1) by (simp add: wm_init_def Let_def fold_upd_windows)
  show z: "zlist (wm_init s) = []" by (simp add: wm_init_def Let_def zlist_def)
  show sh: "shown (wm_init s) = {}" using assms(1) by (auto simp: shown_def w)
  have "used_set ?l = used_set s" by (rule for_loop_frame) simp
  moreover have "mm_inv ?l = mm_inv s" by (rule for_loop_frame) simp
  ultimately have "screen_ok (wm_init s)" "mm_inv (wm_init s)"
    using assms(3,4) by (simp_all add: screen_ok_def buffer_at_def wm_init_def Let_def)
  moreover have "stack_inv (wm_init s)"
    unfolding stack_inv_def shape_inv_def sh z using assms(1,2) by (simp add: w) (simp add: wm_init_def Let_def)
  ultimately show "wm_inv (wm_init s)" by (simp add: wm_inv_def sh)
qed

section \<open>Properties\<close>

text \<open>The desktop after start-up, as \<^verbatim>\<open>gui_main\<close> sets it up, for the closed instances below.\<close>

definition desk_blank :: wm_state where
  "desk_blank = \<lparr>page_bitmap = page_bitmap mm_boot, total_pages = total_pages mm_boot, used_pages = used_pages mm_boot, mem = mem mm_boot,
     frontbuf = 0, backbuf = 0, cur_buf = 0, cur_w = 0, cur_h = 0, pixels = (\<lambda>_. []), fault = False,
     windows = replicate 8 \<lparr>win_x = 0, win_y = 0, win_w = 0, win_h = 0, title = [], content = 0, content_w = 0, content_h = 0,
        visible = False, focused = False, dragging = False, drag_ox = 0, drag_oy = 0, needs_redraw = False\<rparr>,
     z_order = replicate 8 0, z_count = 0, prev_buttons = 0\<rparr>"

definition desk :: wm_state where
  "desk = (case buffer_alloc 300 desk_blank of (a, s) \<Rightarrow> wm_init (gpu_init a s))"

lemma wm_init_used: "used_set (wm_init s) = used_set s"
proof -
  have "used_set (for_loop 0 WM_MAX_WINDOWS (\<lambda>i. upd_window i (\<lambda>w. w\<lparr>visible := False, content := 0\<rparr>)) s) = used_set s"
    by (rule for_loop_frame) simp
  then show ?thesis by (simp add: wm_init_def Let_def)
qed

lemma desk_inv: "wm_inv desk" "zlist desk = []" "shown desk = {}" "used_set desk = {..<856}"
proof -
  have mm: "mm_inv desk_blank" "used_set desk_blank = {..<256}"
    using mm_boot_spec by (simp_all add: desk_blank_def mm_inv_def used_set_def bitmap_test_def)
  obtain a s where as: "buffer_alloc 300 desk_blank = (a, s)" by fastforce
  have "a = page_addr 256" using buffer_alloc_first [OF mm(2), of 300] as by (simp add: MAX_PAGES_def)
  then have "a \<noteq> 0" by (simp add: MAX_PAGES_def)
  note B = buffer_alloc_result [OF mm(1) as this]
  note G = gpu_init_buffers [OF B(4), of a] and M = wm_fields_more [OF B(12)]
  have g: "mm_inv (gpu_init a s)" "screen_ok (gpu_init a s)" "windows (gpu_init a s) = windows desk_blank"
    "z_order (gpu_init a s) = z_order desk_blank"
    using B(1) G(1-3) wm_fields_more [OF G(9)] M by (simp_all add: screen_ok_def)
  then have "length (windows (gpu_init a s)) = WM_MAX_WINDOWS" "length (z_order (gpu_init a s)) = WM_MAX_WINDOWS"
    by (simp_all add: desk_blank_def WM_MAX_WINDOWS_def)
  from wm_init_inv [OF this g(1,2)] show "wm_inv desk" "zlist desk = []" "shown desk = {}" by (simp_all add: desk_def as)
  have "used_set s = {..<556}" using buffer_alloc_first_used [OF mm, of 300] as by (simp add: MAX_PAGES_def)
  then show "used_set desk = {..<856}"
    using gpu_init_used [OF B(4), of 556 a] by (simp add: desk_def as wm_init_used MAX_PAGES_def)
qed

lemma wm_get_focused_last:
  assumes inv: "stack_inv s"
  shows "wm_get_focused s = (if zlist s = [] then -1 else int (last (zlist s)))"
proof (cases "zlist s = []")
  case True
  then have "shown s = {}" using inv by (simp add: stack_inv_def shape_inv_def)
  then have "first_idx (\<lambda>i. visible (windows s ! i) \<and> focused (windows s ! i)) 0 WM_MAX_WINDOWS = None"
    by (auto simp: first_idx_None shown_def)
  then show ?thesis using True by (simp add: wm_get_focused_def)
next
  case False
  then have l: "last (zlist s) \<in> shown s" using last_in_set [OF False] inv unfolding stack_inv_def shape_inv_def by blast
  have only: "i < WM_MAX_WINDOWS \<and> visible (windows s ! i) \<and> focused (windows s ! i) \<longleftrightarrow> i = last (zlist s)" for i
    using inv l by (auto simp: stack_inv_def shown_def)
  have "first_idx (\<lambda>i. visible (windows s ! i) \<and> focused (windows s ! i)) 0 WM_MAX_WINDOWS = Some (last (zlist s))"
    unfolding first_idx_Some
  proof (intro conjI allI impI)
    show "last (zlist s) < WM_MAX_WINDOWS" by (rule shownD(1) [OF l])
    then show "\<not> (visible (windows s ! j) \<and> focused (windows s ! j))" if "0 \<le> j \<and> j < last (zlist s)" for j
      using only [of j] that by linarith
  qed (use only [of "last (zlist s)"] in blast)+
  then show ?thesis using False by (simp add: wm_get_focused_def)
qed

lemma count_loop: "for_loop 0 n (\<lambda>i c. if P i then c + 1 else c) 0 = card {i. i < n \<and> P i}"
proof (induction n)
  case (Suc n)
  have "{i. i < Suc n \<and> P i} = (if P n then insert n {i. i < n \<and> P i} else {i. i < n \<and> P i})" by (auto simp: less_Suc_eq)
  then show ?case using Suc by (simp add: for_loop_Suc)
qed simp

lemma wm_window_count_length: "shape_inv s \<Longrightarrow> wm_window_count s = length (zlist s)"
  using shape_invD(4,5) [of s] distinct_card [of "zlist s"] count_loop [of WM_MAX_WINDOWS "\<lambda>i. visible (windows s ! i)"]
  by (simp add: wm_window_count_def shown_def)

lemma wm_destroy_not_shown: "i \<notin> shown s \<Longrightarrow> wm_destroy_window (int i) s = s"
  by (auto simp: wm_destroy_window_def shown_def bad_id_def)

text \<open>
  C15. The window manager implements a stack of windows: creating a window pushes it or fails and
  leaves the stack alone, destroying one takes it out wherever it is, focusing one moves it to the
  top, the focused window is the top of the stack and the window count its length.
\<close>

theorem wm_refines_window_stack:
  assumes "wm_inv s" and "size_ok w h" and "wm_create_window name x y w h s = (res, s')"
  shows "zlist s' = (if res < 0 then zlist s else zlist s @ [nat res]) \<and> (res \<ge> 0 \<longrightarrow> nat res \<notin> set (zlist s)) \<and>
         zlist (wm_destroy_window (int i) s) = remove1 i (zlist s) \<and>
         zlist (wm_focus_window (int i) s) = (if i \<in> set (zlist s) then remove1 i (zlist s) @ [i] else zlist s) \<and>
         wm_get_focused s = (if zlist s = [] then -1 else int (last (zlist s))) \<and> wm_window_count s = length (zlist s)"
proof -
  note sh = wm_invD(2) [OF assms(1)] and set = shape_invD(5) [OF wm_invD(2) [OF assms(1)]]
  have "zlist s' = (if res < 0 then zlist s else zlist s @ [nat res]) \<and> (res \<ge> 0 \<longrightarrow> nat res \<notin> set (zlist s))"
    using create_window_inv [OF assms] set by (auto simp: create_spec_def)
  moreover have "zlist (wm_destroy_window (int i) s) = remove1 i (zlist s)"
    using destroy_window_inv(2) [OF assms(1), of i] wm_destroy_not_shown [of i s] set
    by (cases "i \<in> shown s") (simp_all add: remove1_idem)
  moreover have "zlist (wm_focus_window (int i) s) = (if i \<in> set (zlist s) then remove1 i (zlist s) @ [i] else zlist s)"
    using focus_window(2) [OF sh, of i] focus_not_shown [of s i] shape_invD(1) [OF sh] set by (cases "i \<in> shown s") simp_all
  ultimately show ?thesis
    using wm_get_focused_last [OF wm_invD(1) [OF assms(1)]] wm_window_count_length [OF sh] by blast
qed

theorem wm_refines_window_stack_witness:
  "\<exists>res s'. wm_create_window ''Tetris'' 100 10 420 440 desk = (res, s') \<and> zlist s' = (if res < 0 then [] else [nat res]) \<and>
     wm_get_focused desk = -1 \<and> wm_window_count desk = 0"
proof -
  obtain res s' where c: "wm_create_window ''Tetris'' 100 10 420 440 desk = (res, s')" by fastforce
  have "size_ok 420 440" by (simp add: size_ok_def)
  from wm_refines_window_stack [OF desk_inv(1) this c, of 0] desk_inv(2) c show ?thesis by (auto split: if_splits)
qed

text \<open>
  Every window operation keeps the invariant: the stacking order is the list of visible
  windows, each has a live buffer of its size that overlaps neither another window's nor the
  screen's, and no operation accesses memory outside a buffer.
\<close>

theorem wm_ops_keep_invariant:
  assumes "wm_inv s" and "size_ok w h"
  shows "wm_inv (snd (wm_create_window name x y w h s)) \<and> wm_inv (wm_destroy_window i s) \<and> wm_inv (wm_focus_window i s) \<and>
         wm_inv (snd (wm_handle_mouse mx my b s)) \<and> fault (snd (wm_create_window name x y w h s)) = fault s"
proof -
  have "wm_inv (wm_destroy_window i s)"
  proof (cases "bad_id i \<or> nat i \<notin> shown s")
    case True
    then have "wm_destroy_window i s = s" by (auto simp: wm_destroy_window_def shown_def bad_id_def)
    then show ?thesis using assms by simp
  next
    case False
    then show ?thesis using destroy_window_inv(1) [OF assms(1), of "nat i"] by (simp add: bad_id_def)
  qed
  moreover obtain res s' where c: "wm_create_window name x y w h s = (res, s')" by fastforce
  then have "wm_inv s' \<and> fault s' = fault s" using create_window_inv [OF assms c] by blast
  ultimately show ?thesis using c wm_focus_inv [OF assms(1)] handle_mouse_inv [OF assms(1)] by simp
qed

theorem wm_ops_keep_invariant_witness:
  "wm_inv desk \<and> size_ok 420 440 \<and> wm_inv (snd (wm_create_window ''Tetris'' 100 10 420 440 desk)) \<and>
   fault (snd (wm_create_window ''Tetris'' 100 10 420 440 desk)) = fault desk"
  using wm_ops_keep_invariant [OF desk_inv(1), of 420 440 "''Tetris''" 100 10] desk_inv(1) by (simp add: size_ok_def)

text \<open>
  Opening a window and closing it again gives every page back, and the windows that
  were there are stacked as before.
\<close>

theorem wm_create_destroy_roundtrip:
  assumes "wm_inv s" and "size_ok w h" and "wm_create_window name x y w h s = (int k, s')"
  shows "used_set (wm_destroy_window (int k) s') = used_set s \<and> zlist (wm_destroy_window (int k) s') = zlist s"
proof -
  have inv: "wm_inv s'" and "create_spec w h (int k) s s'" using create_window_inv [OF assms] by blast+
  then have c: "k \<notin> shown s" "zlist s' = zlist s @ [k]" "k \<in> shown s'" "used_set s' = used_set s \<union> win_region (windows s' ! k)"
    "win_region (windows s' ! k) \<inter> used_set s = {}"
    by (auto simp: create_spec_def)
  moreover have "k \<notin> set (zlist s)" using c(1) shape_invD(5) [OF wm_invD(2) [OF assms(1)]] by simp
  ultimately show ?thesis
    using destroy_window_inv(2,4) [OF inv c(3)] by (auto simp: remove1_append)
qed

lemma wm_create_succeeds:
  assumes "used_set s = {..<k}" and "0 < unat (buf_pages w h)" and "k + unat (buf_pages w h) \<le> MAX_PAGES" and "shown s = {}"
  shows "fst (wm_create_window name x y w h s) = int 0"
proof -
  have slot: "first_idx (\<lambda>i. \<not> visible (windows s ! i)) 0 WM_MAX_WINDOWS = Some 0"
    using assms(4) by (auto simp: first_idx_Some shown_def WM_MAX_WINDOWS_def)
  have "fst (buffer_alloc (buf_pages w h) (upd_window 0 f s)) \<noteq> 0" for f
    using buffer_alloc_first [of "upd_window 0 f s" k "buf_pages w h"] assms(1-3) by simp
  then show ?thesis
    unfolding wm_create_window_def slot by (auto simp: Let_def split: prod.split) (metis fst_conv)
qed

theorem wm_create_destroy_roundtrip_witness:
  "\<exists>s'. wm_create_window ''Tetris'' 100 10 420 440 desk = (int 0, s') \<and>
     used_set (wm_destroy_window (int 0) s') = used_set desk \<and> zlist (wm_destroy_window (int 0) s') = zlist desk"
proof -
  have sz: "size_ok 420 440" by (simp add: size_ok_def)
  have "fst (wm_create_window ''Tetris'' 100 10 420 440 desk) = int 0"
    using wm_create_succeeds [OF desk_inv(4) _ _ desk_inv(3), of 420 440] unat_area(2) [OF sz] by (simp add: MAX_PAGES_def)
  then obtain s' where c: "wm_create_window ''Tetris'' 100 10 420 440 desk = (int 0, s')" by (metis prod.collapse)
  then show ?thesis using wm_create_destroy_roundtrip [OF desk_inv(1) sz c] by blast
qed

end
