(* ===== verification/Uart.thy ===== *)
theory Uart
  imports Printf
begin

text \<open>
  The PL011 serial port (\<^verbatim>\<open>kernel/uart.c\<close>). The driver only reads the flag and data registers
  and writes registers, so an operation is a function of what its successive register reads
  return (\<open>fr n\<close> is the value of the \<open>n\<close>-th read of the flag register) and yields the register
  writes it makes. \<open>None\<close> is polling for ever.
\<close>

definition UART_DR :: u32 where "UART_DR = 0x000"
definition UART_FR :: u32 where "UART_FR = 0x018"
definition UART_IBRD :: u32 where "UART_IBRD = 0x024"
definition UART_FBRD :: u32 where "UART_FBRD = 0x028"
definition UART_LCR_H :: u32 where "UART_LCR_H = 0x02C"
definition UART_CR :: u32 where "UART_CR = 0x030"
definition UART_IMSC :: u32 where "UART_IMSC = 0x038"
definition UART_ICR :: u32 where "UART_ICR = 0x044"

definition FR_TXFF :: u32 where "FR_TXFF = push_bit 5 1"
definition FR_RXFE :: u32 where "FR_RXFE = push_bit 4 1"

definition uart_init :: "(u32 \<times> u32) list" where
  "uart_init =
     [(UART_CR, 0), (UART_ICR, 0x7FF), (UART_IBRD, 13), (UART_FBRD, 1),
      (UART_LCR_H, push_bit 5 3 OR push_bit 4 1), (UART_IMSC, 0),
      (UART_CR, push_bit 0 1 OR push_bit 8 1 OR push_bit 9 1)]"

text \<open>\<^verbatim>\<open>while (mmio_read(UART_BASE, UART_FR) & flag);\<close> from the \<open>n\<close>-th read on: the number of the next read.\<close>

partial_function (option) poll_clear :: "u32 \<Rightarrow> (nat \<Rightarrow> u32) \<Rightarrow> nat \<Rightarrow> nat option" where
  "poll_clear flag fr n = (if fr n AND flag \<noteq> 0 then poll_clear flag fr (Suc n) else Some (Suc n))"

definition uart_putc :: "(nat \<Rightarrow> u32) \<Rightarrow> nat \<Rightarrow> char \<Rightarrow> ((u32 \<times> u32) list \<times> nat) option" where
  "uart_putc fr n c = map_option (\<lambda>n'. ([(UART_DR, of_char c)], n')) (poll_clear FR_TXFF fr n)"

definition uart_getc :: "(nat \<Rightarrow> u32) \<Rightarrow> u32 \<Rightarrow> nat \<Rightarrow> (char \<times> nat) option" where
  "uart_getc fr dr n = map_option (\<lambda>n'. (char_of (unat (dr AND 0xFF)), n')) (poll_clear FR_RXFE fr n)"

text \<open>Two operations in turn.\<close>

definition uart_then ::
  "(nat \<Rightarrow> ((u32 \<times> u32) list \<times> nat) option) \<Rightarrow> (nat \<Rightarrow> ((u32 \<times> u32) list \<times> nat) option) \<Rightarrow>
   nat \<Rightarrow> ((u32 \<times> u32) list \<times> nat) option" where
  "uart_then f g n =
     (case f n of None \<Rightarrow> None
      | Some (ws, n1) \<Rightarrow> (case g n1 of None \<Rightarrow> None | Some (ws', n2) \<Rightarrow> Some (ws @ ws', n2)))"

fun uart_puts :: "(nat \<Rightarrow> u32) \<Rightarrow> string \<Rightarrow> nat \<Rightarrow> ((u32 \<times> u32) list \<times> nat) option" where
  "uart_puts fr [] n = Some ([], n)"
| "uart_puts fr (c # cs) n =
     (if c = NL then uart_then (\<lambda>n. uart_putc fr n CR) (uart_then (\<lambda>n. uart_putc fr n c) (uart_puts fr cs)) n
      else uart_then (\<lambda>n. uart_putc fr n c) (uart_puts fr cs) n)"

section \<open>Properties\<close>

lemma poll_clear_returns:
  "fr (n + k) AND flag = 0 \<Longrightarrow> \<exists>n'. poll_clear flag fr n = Some n' \<and> n < n' \<and> n' \<le> Suc (n + k) \<and> fr (n' - 1) AND flag = 0"
proof (induction k arbitrary: n)
  case 0 then show ?case by (simp add: poll_clear.simps [of flag fr n])
next
  case (Suc k)
  show ?case
  proof (cases "fr n AND flag = 0")
    case True then show ?thesis by (simp add: poll_clear.simps [of flag fr n])
  next
    case False
    obtain n' where "poll_clear flag fr (Suc n) = Some n'" "Suc n < n'" "n' \<le> Suc (Suc n + k)" "fr (n' - 1) AND flag = 0"
      using Suc.IH [of "Suc n"] Suc.prems by auto
    then show ?thesis using False by (simp add: poll_clear.simps [of flag fr n])
  qed
qed

text \<open>The transmitter keeps draining: after every read some later read finds room.\<close>

definition tx_live :: "(nat \<Rightarrow> u32) \<Rightarrow> bool" where
  "tx_live fr = (\<forall>n. \<exists>k. fr (n + k) AND FR_TXFF = 0)"

lemma uart_putc_returns: "tx_live fr \<Longrightarrow> \<exists>n'. uart_putc fr n c = Some ([(UART_DR, of_char c)], n')"
  using poll_clear_returns [of fr n _ FR_TXFF] by (fastforce simp: tx_live_def uart_putc_def)

text \<open>
  On a transmitter that keeps draining, \<^verbatim>\<open>uart_puts\<close> returns, and the bytes it writes to
  the data register are those \<^verbatim>\<open>print_string\<close> of the formatted output sends: the string with
  a carriage return before every line feed.
\<close>

theorem uart_puts_returns:
  assumes "tx_live fr"
  shows "\<exists>n'. uart_puts fr s n = Some (map (\<lambda>c. (UART_DR, of_char c)) (print_string (Some s)), n')"
proof (induction s arbitrary: n)
  case Nil then show ?case by (simp add: print_string_def)
next
  case (Cons c s)
  obtain n1 where n1: "uart_putc fr n CR = Some ([(UART_DR, of_char CR)], n1)" using uart_putc_returns [OF assms] by blast
  have one: "\<exists>n'. uart_then (\<lambda>n. uart_putc fr n c) (uart_puts fr s) n =
               Some ((UART_DR, of_char c) # map (\<lambda>c. (UART_DR, of_char c)) (print_string (Some s)), n')" for n
  proof -
    obtain n' where "uart_putc fr n c = Some ([(UART_DR, of_char c)], n')" using uart_putc_returns [OF assms] by blast
    then show ?thesis using Cons.IH [of n'] by (auto simp: uart_then_def)
  qed
  show ?case
    using one [of n] one [of n1] n1 by (auto simp: uart_then_def [of "\<lambda>n. uart_putc fr n CR"] print_string_def print_char_def)
qed

theorem uart_puts_returns_witness:
  "\<exists>n'. uart_puts (\<lambda>n. if even n then FR_TXFF else 0) [CHR ''k'', NL] 0 =
     Some (map (\<lambda>c. (UART_DR, of_char c)) (print_string (Some [CHR ''k'', NL])), n')"
proof (rule uart_puts_returns, unfold tx_live_def, rule allI)
  fix n :: nat
  show "\<exists>k. (if even (n + k) then FR_TXFF else 0) AND FR_TXFF = 0"
    by (rule exI [of _ "if even n then 1 else 0"]) simp
qed

end
