(* ===== verification/Input.thy ===== *)
theory Input
  imports Uart
begin

text \<open>
  The input layer (\<^verbatim>\<open>kernel/input.c\<close>): key codes, the state machine that turns the bytes of the
  serial port into keys, and the choice between the virtio keyboard and the serial port. What a
  read of a device register or a poll of the virtio driver returned is an argument.
\<close>

definition KEY_NONE :: int where "KEY_NONE = 0"
definition KEY_UP :: int where "KEY_UP = 128"
definition KEY_DOWN :: int where "KEY_DOWN = 129"
definition KEY_LEFT :: int where "KEY_LEFT = 130"
definition KEY_RIGHT :: int where "KEY_RIGHT = 131"
definition KEY_ENTER :: int where "KEY_ENTER = 10"
definition KEY_ESC :: int where "KEY_ESC = 27"
definition KEY_SPACE :: int where "KEY_SPACE = 32"
definition KEY_BACKSPACE :: int where "KEY_BACKSPACE = 127"

record input_state =
  esc_state :: nat
  virtio_available :: bool

text \<open>\<^verbatim>\<open>(int)(now - since)\<close>, the test of the frame and game timers: the low 32 bits of the difference, signed.\<close>

definition elapsed :: "u64 \<Rightarrow> u64 \<Rightarrow> int" where
  "elapsed now since = sint (ucast (now - since) :: u32)"

definition uart_try_read :: "u32 \<Rightarrow> u32 \<Rightarrow> int" where
  "uart_try_read fr dr = (if fr AND FR_RXFE \<noteq> 0 then -1 else uint (dr AND 0xFF))"

definition uart_poll :: "u32 \<Rightarrow> u32 \<Rightarrow> input_state \<Rightarrow> int \<times> input_state" where
  "uart_poll fr dr s =
     (let c = uart_try_read fr dr
      in if c < 0 then (KEY_NONE, s)
         else if esc_state s = 0 then
           if c = 27 then (KEY_NONE, s\<lparr>esc_state := 1\<rparr>)
           else if c = 13 \<or> c = 10 then (KEY_ENTER, s)
           else if c = 127 \<or> c = 8 then (KEY_BACKSPACE, s)
           else (c, s)
         else if esc_state s = 1 then
           if c = 91 then (KEY_NONE, s\<lparr>esc_state := 2\<rparr>) else (KEY_ESC, s\<lparr>esc_state := 0\<rparr>)
         else if esc_state s = 2 then
           (if c = 65 then KEY_UP else if c = 66 then KEY_DOWN else if c = 67 then KEY_RIGHT else if c = 68 then KEY_LEFT else KEY_NONE,
            s\<lparr>esc_state := 0\<rparr>)
         else (KEY_NONE, s\<lparr>esc_state := 0\<rparr>))"

definition input_init :: "int \<Rightarrow> int \<Rightarrow> input_state \<Rightarrow> input_state" where
  "input_init n init_result s =
     (let s1 = s\<lparr>esc_state := 0, virtio_available := False\<rparr>
      in if n > 0 \<and> init_result = 0 then s1\<lparr>virtio_available := True\<rparr> else s1)"

definition input_poll :: "int \<Rightarrow> u32 \<Rightarrow> u32 \<Rightarrow> input_state \<Rightarrow> int \<times> input_state" where
  "input_poll kbd fr dr s = (if virtio_available s \<and> kbd \<noteq> KEY_NONE then (kbd, s) else uart_poll fr dr s)"

definition mouse_get_state :: "int \<times> int \<times> int \<Rightarrow> input_state \<Rightarrow> int \<times> int \<times> int" where
  "mouse_get_state mouse s = (if virtio_available s then mouse else (0, 0, 0))"

text \<open>Polling once per received byte.\<close>

fun feed :: "nat list \<Rightarrow> input_state \<Rightarrow> int list \<times> input_state" where
  "feed [] s = ([], s)"
| "feed (b # bs) s =
     (case uart_poll 0 (of_nat b) s of (k, s1) \<Rightarrow> case feed bs s1 of (ks, s2) \<Rightarrow> (k # ks, s2))"

lemma uart_try_read_byte: "b < 256 \<Longrightarrow> uart_try_read 0 (of_nat b) = int b"
proof -
  assume b: "b < 256"
  have "(of_nat b :: u32) AND 0xFF = of_nat b"
  proof (rule word_unat_eq_iff [THEN iffD2])
    have "0xFF = (mask 8 :: u32)" by (simp add: mask_eq_exp_minus_1)
    then show "unat ((of_nat b :: u32) AND 0xFF) = unat (of_nat b :: u32)"
      using b by (simp only: take_bit_eq_mask [symmetric]) (simp add: unsigned_take_bit_eq unat_of_nat_small take_bit_nat_eq_self)
  qed
  then show ?thesis using b by (simp add: uart_try_read_def uint_nat unat_of_nat_small)
qed

text \<open>
  The bytes of an arrow key's escape sequence give exactly that arrow key, at the last
  byte, from the normal state back to the normal state; an escape byte followed by anything
  but a bracket gives the escape key. A byte without meaning in a sequence is dropped.
\<close>

theorem uart_escape_sequences:
  assumes "esc_state s = 0" and "b < 256"
  shows "feed [27, 91, b] s =
           ([KEY_NONE, KEY_NONE, if b = 65 then KEY_UP else if b = 66 then KEY_DOWN else if b = 67 then KEY_RIGHT
             else if b = 68 then KEY_LEFT else KEY_NONE], s) \<and>
         (b \<noteq> 91 \<longrightarrow> feed [27, b] s = ([KEY_NONE, KEY_ESC], s))"
proof -
  have "s\<lparr>esc_state := 0\<rparr> = s" using assms(1) by (cases s) simp
  then show ?thesis
    using assms uart_try_read_byte [of 27] uart_try_read_byte [of 91] uart_try_read_byte [of b]
    by (simp add: uart_poll_def Let_def)
qed

theorem uart_escape_sequences_witness:
  "feed [27, 91, 68] \<lparr>esc_state = 0, virtio_available = False\<rparr> =
     ([KEY_NONE, KEY_NONE, KEY_LEFT], \<lparr>esc_state = 0, virtio_available = False\<rparr>)"
  using uart_escape_sequences [of "\<lparr>esc_state = 0, virtio_available = False\<rparr>" 68] by simp

end
