(* ===== verification/Terminal.thy ===== *)
theory Terminal
  imports Wm Task Input
begin

text \<open>
  The terminal built into the desktop (\<^verbatim>\<open>kernel/gui.c\<close>): 20 rows of text, an input line and four
  commands. Rows and input line are the character arrays of the code; a C string is read off an
  array up to its first zero byte. The task table and the page counters the commands show are
  arguments. Lines the code composes in local arrays are strings that grow at their end.

  The abstract terminal keeps the last 20 lines and the typed text as plain strings; the handler
  of the code is shown to implement it.
\<close>

section \<open>State\<close>

definition TERM_COLS :: nat where "TERM_COLS = 60"
definition TERM_ROWS :: nat where "TERM_ROWS = 20"
definition TERM_PAD :: int where "TERM_PAD = 4"
definition INPUT_MAX :: nat where "INPUT_MAX = 56"

record terminal =
  term_buf :: "char list list"
  term_row :: nat
  term_input :: "char list"
  term_input_len :: nat

abbreviation NUL :: char where "NUL \<equiv> CHR 0x00"

definition c_string :: "char list \<Rightarrow> string" where
  "c_string b = takeWhile (\<lambda>c. c \<noteq> NUL) b"

definition set_char :: "nat \<Rightarrow> nat \<Rightarrow> char \<Rightarrow> char list list \<Rightarrow> char list list" where
  "set_char r c v b = b[r := (b ! r)[c := v]]"

section \<open>Operations\<close>

definition term_clear :: "terminal \<Rightarrow> terminal" where
  "term_clear t =
     t\<lparr>term_buf := for_loop 0 TERM_ROWS (\<lambda>r. for_loop 0 (TERM_COLS + 1) (\<lambda>c. set_char r c NUL)) (term_buf t), term_row := 0\<rparr>"

definition term_scroll :: "terminal \<Rightarrow> terminal" where
  "term_scroll t =
     (let b1 = for_loop 0 (TERM_ROWS - 1) (\<lambda>r. for_loop 0 (TERM_COLS + 1) (\<lambda>c b. set_char r c (b ! (r + 1) ! c) b)) (term_buf t);
          b2 = for_loop 0 (TERM_COLS + 1) (\<lambda>c. set_char (TERM_ROWS - 1) c NUL) b1
      in t\<lparr>term_buf := b2, term_row := TERM_ROWS - 1\<rparr>)"

text \<open>\<^verbatim>\<open>while (*s && c < TERM_COLS) row[c++] = *s++;\<close>\<close>

fun put_chars :: "nat \<Rightarrow> string \<Rightarrow> char list \<Rightarrow> nat \<times> char list" where
  "put_chars c [] row = (c, row)"
| "put_chars c (x # xs) row = (if c < TERM_COLS then put_chars (c + 1) xs (row[c := x]) else (c, row))"

definition term_putline :: "string \<Rightarrow> terminal \<Rightarrow> terminal" where
  "term_putline s t =
     (let t1 = (if term_row t \<ge> TERM_ROWS then term_scroll t else t);
          (c, row) = put_chars 0 s (term_buf t1 ! term_row t1)
      in t1\<lparr>term_buf := (term_buf t1)[term_row t1 := row[c := NUL]], term_row := term_row t1 + 1\<rparr>)"

fun str_eq :: "string \<Rightarrow> string \<Rightarrow> bool" where
  "str_eq (a # as) (b # bs) = (if a \<noteq> b then False else str_eq as bs)"
| "str_eq as bs = (as = [] \<and> bs = [])"

text \<open>\<^verbatim>\<open>while (*s && pos < n) line[pos++] = *s++;\<close>\<close>

definition append_upto :: "nat \<Rightarrow> string \<Rightarrow> string \<Rightarrow> string" where
  "append_upto n s line = line @ take (n - length line) s"

definition state_name :: "task_status \<Rightarrow> string" where
  "state_name st = (case st of TASK_DEAD \<Rightarrow> ''dead'' | TASK_READY \<Rightarrow> ''ready'' | TASK_RUNNING \<Rightarrow> ''running'' | TASK_BLOCKED \<Rightarrow> ''blocked'')"

definition ps_line :: "nat \<Rightarrow> task \<Rightarrow> string" where
  "ps_line i t =
     (let line = ''  ['' @ [char_of (48 + i)] @ ''] '';
          line1 = append_upto (TERM_COLS - 10) (c_string (tname t)) line @ '' ('';
          line2 = append_upto (TERM_COLS - 2) (state_name (tstate t)) line1
      in line2 @ '')'')"

definition decimal :: "u64 \<Rightarrow> string" where
  "decimal v = rev (if v = 0 then ''0'' else int_digits (uint v))"

definition mem_line :: "u64 \<Rightarrow> u64 \<Rightarrow> string" where
  "mem_line free_p total_p = append_upto TERM_COLS '' pages (4KB each)'' (''Free: '' @ decimal free_p @ '' / '' @ decimal total_p)"

definition unknown_line :: "string \<Rightarrow> string" where
  "unknown_line inp = append_upto TERM_COLS inp (append_upto (TERM_COLS - INPUT_MAX) ''Unknown: '' [])"

definition term_command :: "(int \<Rightarrow> task option) \<Rightarrow> u64 \<Rightarrow> u64 \<Rightarrow> terminal \<Rightarrow> terminal" where
  "term_command tab free_p total_p t =
     (let inp = c_string (term_input t)
      in if str_eq inp ''help'' then term_putline ''Commands: help, clear, ps, mem'' t
         else if str_eq inp ''clear'' then term_clear t
         else if str_eq inp ''ps''
              then for_loop 0 MAX_TASKS (\<lambda>i t. case tab (int i) of None \<Rightarrow> t | Some k \<Rightarrow> term_putline (ps_line i k) t)
                     (term_putline ''Tasks:'' t)
         else if str_eq inp ''mem'' then term_putline (mem_line free_p total_p) t
         else if term_input_len t > 0 then term_putline (unknown_line (take (term_input_len t) (term_input t))) t
         else t)"

definition term_handle_key :: "(int \<Rightarrow> task option) \<Rightarrow> u64 \<Rightarrow> u64 \<Rightarrow> int \<Rightarrow> terminal \<Rightarrow> terminal" where
  "term_handle_key tab free_p total_p key t =
     (if key = KEY_ENTER
      then (term_command tab free_p total_p (t\<lparr>term_input := (term_input t)[term_input_len t := NUL]\<rparr>))\<lparr>term_input_len := 0\<rparr>
      else if key = KEY_BACKSPACE then (if term_input_len t > 0 then t\<lparr>term_input_len := term_input_len t - 1\<rparr> else t)
      else if key \<ge> 32 \<and> key < 127 \<and> term_input_len t < INPUT_MAX
           then t\<lparr>term_input := (term_input t)[term_input_len t := char_of (nat key)], term_input_len := term_input_len t + 1\<rparr>
      else t)"

definition term_render_to_target :: "terminal \<Rightarrow> 'a gpu_state_scheme \<Rightarrow> terminal \<times> 'a gpu_state_scheme" where
  "term_render_to_target t s =
     (let s1 = gpu_clear COLOR_BLACK s;
          s2 = gpu_draw_string TERM_PAD TERM_PAD ''Dragoon Terminal'' COLOR_GREEN COLOR_BLACK s1;
          s3 = for_loop 0 TERM_ROWS (\<lambda>r. gpu_draw_string TERM_PAD (TERM_PAD + 16 + int r * FONT_HEIGHT) (c_string (term_buf t ! r)) COLOR_LTGRAY COLOR_BLACK) s2;
          tw = gpu_target_w s3; iy = TERM_PAD + 16 + int TERM_ROWS * FONT_HEIGHT + 4;
          s4 = gpu_fill_rect 0 iy tw FONT_HEIGHT COLOR_DKGRAY s3;
          s5 = gpu_draw_char TERM_PAD iy CHR ''>'' COLOR_GREEN COLOR_DKGRAY s4;
          s6 = gpu_draw_char (TERM_PAD + FONT_WIDTH) iy CHR '' '' COLOR_GREEN COLOR_DKGRAY s5;
          t1 = t\<lparr>term_input := (term_input t)[term_input_len t := NUL]\<rparr>;
          s7 = gpu_draw_string (TERM_PAD + FONT_WIDTH * 2) iy (c_string (term_input t1)) COLOR_WHITE COLOR_DKGRAY s6;
          s8 = gpu_draw_char (TERM_PAD + FONT_WIDTH * (2 + int (term_input_len t1))) iy CHR ''_'' COLOR_WHITE COLOR_DKGRAY s7
      in (t1, s8))"

section \<open>The abstract terminal\<close>

type_synonym screen_text = "string list \<times> string"

definition push :: "string \<Rightarrow> string list \<Rightarrow> string list" where
  "push l ls = (let ls' = ls @ [take TERM_COLS l] in drop (length ls' - TERM_ROWS) ls')"

definition listed :: "(int \<Rightarrow> task option) \<Rightarrow> string list" where
  "listed tab = concat (map (\<lambda>i. case tab (int i) of None \<Rightarrow> [] | Some k \<Rightarrow> [ps_line i k]) [0..<MAX_TASKS])"

definition command_output :: "(int \<Rightarrow> task option) \<Rightarrow> u64 \<Rightarrow> u64 \<Rightarrow> string \<Rightarrow> string list" where
  "command_output tab free_p total_p inp =
     (if inp = ''help'' then [''Commands: help, clear, ps, mem'']
      else if inp = ''ps'' then ''Tasks:'' # listed tab
      else if inp = ''mem'' then [mem_line free_p total_p]
      else if inp = [] then [] else [''Unkn'' @ inp])"

definition text_key :: "(int \<Rightarrow> task option) \<Rightarrow> u64 \<Rightarrow> u64 \<Rightarrow> int \<Rightarrow> screen_text \<Rightarrow> screen_text" where
  "text_key tab free_p total_p key = (\<lambda>(ls, inp).
     if key = KEY_ENTER
     then (if inp = ''clear'' then [] else fold push (command_output tab free_p total_p inp) ls, [])
     else if key = KEY_BACKSPACE then (ls, butlast inp)
     else if 32 \<le> key \<and> key < 127 \<and> length inp < INPUT_MAX then (ls, inp @ [char_of (nat key)])
     else (ls, inp))"

definition text_of :: "terminal \<Rightarrow> screen_text" where
  "text_of t = (map c_string (take (term_row t) (term_buf t)), take (term_input_len t) (term_input t))"

definition row_ok :: "char list \<Rightarrow> bool" where
  "row_ok row \<longleftrightarrow> length row = TERM_COLS + 1 \<and> row ! TERM_COLS = NUL"

definition term_inv :: "terminal \<Rightarrow> bool" where
  "term_inv t \<longleftrightarrow> length (term_buf t) = TERM_ROWS \<and> (\<forall>row \<in> set (term_buf t). row_ok row) \<and> term_row t \<le> TERM_ROWS \<and>
     (\<forall>r. term_row t \<le> r \<and> r < TERM_ROWS \<longrightarrow> term_buf t ! r ! 0 = NUL) \<and>
     length (term_input t) = INPUT_MAX + 1 \<and> term_input_len t \<le> INPUT_MAX \<and> NUL \<notin> set (take (term_input_len t) (term_input t))"

lemma str_eq_iff [simp]: "str_eq a b \<longleftrightarrow> a = b"
  by (induction a b rule: str_eq.induct) auto

lemma c_string_append: "NUL \<notin> set s \<Longrightarrow> c_string (s @ NUL # rest) = s"
  unfolding c_string_def by (subst takeWhile_append2) (auto intro: ccontr)

lemma c_string_NUL: "NUL \<notin> set (c_string s)"
  by (auto simp: c_string_def dest: set_takeWhileD)

lemma put_chars_eq:
  "c \<le> TERM_COLS \<Longrightarrow> length row = TERM_COLS + 1 \<Longrightarrow>
   put_chars c s row = (let k = min (length s) (TERM_COLS - c) in (c + k, take c row @ take k s @ drop (c + k) row))"
proof (induction c s row rule: put_chars.induct)
  case (2 c x xs row)
  show ?case
  proof (cases "c < TERM_COLS")
    case True
    let ?k = "min (length xs) (TERM_COLS - (c + 1))"
    have k: "min (length (x # xs)) (TERM_COLS - c) = Suc ?k" using True by simp
    have "take (c + 1) (row[c := x]) = take c row @ [x]" using True 2(3) by (simp add: take_Suc_conv_app_nth)
    then show ?thesis using 2 True unfolding k by (simp add: Let_def)
  qed simp
qed simp

lemma putline_row:
  assumes "row_ok row" and "NUL \<notin> set s"
  shows "let (c, row') = put_chars 0 s row in c_string (row'[c := NUL]) = take TERM_COLS s \<and> row_ok (row'[c := NUL])"
proof -
  let ?k = "min (length s) TERM_COLS"
  have len: "length row = TERM_COLS + 1" using assms(1) by (simp add: row_ok_def)
  have put: "put_chars 0 s row = (?k, take ?k s @ drop ?k row)" using put_chars_eq [of 0 row s] len by (simp add: Let_def)
  have d: "drop ?k row = row ! ?k # drop (Suc ?k) row" using len by (simp add: Cons_nth_drop_Suc)
  have eq: "(take ?k s @ drop ?k row)[?k := NUL] = take ?k s @ NUL # drop (Suc ?k) row"
    unfolding d by (simp add: list_update_append)
  have tk: "take ?k s = take TERM_COLS s" by (simp add: min_def)
  have n: "NUL \<notin> set (take ?k s)" using assms(2) by (auto dest: in_set_takeD)
  have ok: "row_ok (take ?k s @ NUL # drop (Suc ?k) row)"
  proof (cases "length s < TERM_COLS")
    case True
    then have "TERM_COLS - length s = Suc (TERM_COLS - Suc (length s))" by simp
    then show ?thesis using assms(1) len True by (simp add: row_ok_def nth_append min_def)
  next
    case False then show ?thesis using len by (simp add: row_ok_def nth_append min_def)
  qed
  show ?thesis unfolding put Let_def prod.case eq using c_string_append [OF n] ok tk by (simp only:)
qed

text \<open>The loops over the characters of a row, and over the rows.\<close>

lemma set_row_loop:
  assumes "r < length b" and "n \<le> length (b ! r)" and "n \<le> length new" and src: "\<And>c b'. c < n \<Longrightarrow> (\<And>j. j \<noteq> r \<Longrightarrow> b' ! j = b ! j) \<Longrightarrow> v c b' = new ! c"
  shows "for_loop 0 n (\<lambda>c b'. set_char r c (v c b') b') b = b[r := take n new @ drop n (b ! r)]"
  using assms
proof (induction n)
  case (Suc n)
  have IH: "for_loop 0 n (\<lambda>c b'. set_char r c (v c b') b') b = b[r := take n new @ drop n (b ! r)]"
    using Suc by simp
  have v: "v n (b[r := take n new @ drop n (b ! r)]) = new ! n" by (rule Suc.prems(4)) simp_all
  have d: "drop n (b ! r) = b ! r ! n # drop (Suc n) (b ! r)" using Suc.prems(2) by (simp add: Cons_nth_drop_Suc)
  have "(take n new @ drop n (b ! r))[n := new ! n] = take (Suc n) new @ drop (Suc n) (b ! r)"
    unfolding d using Suc.prems(3) by (simp add: list_update_append take_Suc_conv_app_nth)
  then show ?case using Suc.prems(1) IH v by (simp add: for_loop_Suc set_char_def)
qed simp

definition blank_row :: "char list" where
  "blank_row = replicate (TERM_COLS + 1) NUL"

definition buf_ok :: "char list list \<Rightarrow> bool" where
  "buf_ok b \<longleftrightarrow> length b = TERM_ROWS \<and> (\<forall>row \<in> set b. row_ok row)"

lemma blank_row_ok: "row_ok blank_row" "c_string blank_row = []" "blank_row ! 0 = NUL"
  by (simp_all add: blank_row_def row_ok_def c_string_def TERM_COLS_def)

lemma buf_ok_row: "buf_ok b \<Longrightarrow> r < TERM_ROWS \<Longrightarrow> row_ok (b ! r) \<and> length (b ! r) = TERM_COLS + 1"
  by (auto simp: buf_ok_def row_ok_def)

lemma blank_loop:
  assumes "r < length b" and "length (b ! r) = TERM_COLS + 1"
  shows "for_loop 0 (TERM_COLS + 1) (\<lambda>c. set_char r c NUL) b = b[r := blank_row]"
  using set_row_loop [of r b "TERM_COLS + 1" blank_row "\<lambda>c b. NUL"] assms by (simp add: blank_row_def del: replicate.simps)

lemma clear_loop_rows:
  "buf_ok b \<Longrightarrow> n \<le> TERM_ROWS \<Longrightarrow>
   for_loop 0 n (\<lambda>r. for_loop 0 (TERM_COLS + 1) (\<lambda>c. set_char r c NUL)) b = replicate n blank_row @ drop n b"
proof (induction n)
  case (Suc n)
  have n: "n < length b" "length (b ! n) = TERM_COLS + 1" using Suc.prems buf_ok_row [of b n] by (simp_all add: buf_ok_def)
  have "(replicate n blank_row @ drop n b)[n := blank_row] = replicate (Suc n) blank_row @ drop (Suc n) b"
    using n(1) by (simp add: list_update_append Cons_nth_drop_Suc [symmetric] replicate_append_same [symmetric])
  then show ?case using Suc n blank_loop [of n "replicate n blank_row @ drop n b"] by (simp add: for_loop_Suc nth_append)
qed simp

lemma scroll_loop:
  "buf_ok b \<Longrightarrow> n \<le> TERM_ROWS - 1 \<Longrightarrow>
   for_loop 0 n (\<lambda>r. for_loop 0 (TERM_COLS + 1) (\<lambda>c b. set_char r c (b ! (r + 1) ! c) b)) b = take n (tl b) @ drop n b"
proof (induction n)
  case (Suc n)
  let ?b = "take n (tl b) @ drop n b"
  have len: "length b = TERM_ROWS" using Suc.prems by (simp add: buf_ok_def)
  have rows: "length (b ! n) = TERM_COLS + 1" "length (b ! Suc n) = TERM_COLS + 1" using Suc.prems buf_ok_row by auto
  have nth: "?b ! n = b ! n" "?b ! Suc n = b ! Suc n" using len Suc.prems by (simp_all add: nth_append nth_tl)
  have n: "n < length ?b" using len Suc.prems by simp
  have "for_loop 0 (TERM_COLS + 1) (\<lambda>c b. set_char n c (b ! (n + 1) ! c) b) ?b = ?b[n := take (TERM_COLS + 1) (b ! Suc n) @ drop (TERM_COLS + 1) (?b ! n)]"
    by (rule set_row_loop) (use n nth rows in auto)
  also have "\<dots> = ?b[n := b ! Suc n]" using rows nth by simp
  also have "\<dots> = take (Suc n) (tl b) @ drop (Suc n) b"
    using len Suc.prems by (simp add: list_update_append Cons_nth_drop_Suc [symmetric] take_Suc_conv_app_nth nth_tl)
  finally show ?case using Suc by (simp add: for_loop_Suc)
qed simp

lemma term_scroll_eq:
  assumes "buf_ok (term_buf t)"
  shows "term_scroll t = t\<lparr>term_buf := tl (term_buf t) @ [blank_row], term_row := TERM_ROWS - 1\<rparr>"
proof -
  let ?b = "term_buf t"
  let ?b1 = "take (TERM_ROWS - 1) (tl ?b) @ drop (TERM_ROWS - 1) ?b"
  have len: "length ?b = TERM_ROWS" "0 < TERM_ROWS" using assms by (simp_all add: buf_ok_def TERM_ROWS_def)
  then have tl: "take (TERM_ROWS - 1) (tl ?b) = tl ?b" by simp
  have last: "drop (TERM_ROWS - 1) ?b = [?b ! (TERM_ROWS - 1)]"
    using len Cons_nth_drop_Suc [of "TERM_ROWS - 1" ?b] by simp
  have row: "length (?b ! (TERM_ROWS - 1)) = TERM_COLS + 1" using buf_ok_row [OF assms, of "TERM_ROWS - 1"] len by simp
  have "for_loop 0 (TERM_COLS + 1) (\<lambda>c. set_char (TERM_ROWS - 1) c NUL) (tl ?b @ [?b ! (TERM_ROWS - 1)]) = tl ?b @ [blank_row]"
    using blank_loop [of "TERM_ROWS - 1" "tl ?b @ [?b ! (TERM_ROWS - 1)]"] len row by (simp add: nth_append list_update_append)
  then show ?thesis unfolding term_scroll_def Let_def by (simp only: scroll_loop [OF assms order_refl] tl last)
qed

lemma term_clear_eq:
  "buf_ok (term_buf t) \<Longrightarrow> term_clear t = t\<lparr>term_buf := replicate TERM_ROWS blank_row, term_row := 0\<rparr>"
  unfolding term_clear_def by (simp only: clear_loop_rows [OF _ order_refl]) (simp add: buf_ok_def)

lemma term_inv_buf: "term_inv t \<Longrightarrow> buf_ok (term_buf t)"
  by (simp add: term_inv_def buf_ok_def)

lemma putline_room:
  assumes inv: "term_inv t" and room: "term_row t < TERM_ROWS" and s: "NUL \<notin> set s"
  shows "term_inv (term_putline s t) \<and>
     map c_string (take (term_row (term_putline s t)) (term_buf (term_putline s t))) = map c_string (take (term_row t) (term_buf t)) @ [take TERM_COLS s] \<and>
     term_input (term_putline s t) = term_input t \<and> term_input_len (term_putline s t) = term_input_len t"
proof -
  let ?r = "term_row t" and ?b = "term_buf t"
  obtain c row where cr: "put_chars 0 s (?b ! ?r) = (c, row)" by fastforce
  have len: "length ?b = TERM_ROWS" using inv by (simp add: term_inv_def)
  have "row_ok (?b ! ?r)" using buf_ok_row [OF term_inv_buf [OF inv] room] by simp
  from putline_row [OF this s] have row: "c_string (row[c := NUL]) = take TERM_COLS s" "row_ok (row[c := NUL])" by (simp_all add: cr)
  have P: "term_putline s t = t\<lparr>term_buf := ?b[?r := row[c := NUL]], term_row := ?r + 1\<rparr>"
    using room by (simp add: term_putline_def cr)
  have "set (?b[?r := row[c := NUL]]) \<subseteq> insert (row[c := NUL]) (set ?b)" by (rule set_update_subset_insert)
  then have "term_inv (term_putline s t)" unfolding P using inv room row(2) by (auto simp: term_inv_def)
  then show ?thesis unfolding P using room len row(1) by (simp add: take_Suc_conv_app_nth)
qed

lemma push_room: "length ls < TERM_ROWS \<Longrightarrow> push l ls = ls @ [take TERM_COLS l]"
  by (simp add: push_def Let_def)

lemma push_full: "length ls = TERM_ROWS \<Longrightarrow> push l ls = tl ls @ [take TERM_COLS l]"
  by (cases ls) (simp_all add: push_def Let_def TERM_ROWS_def)

lemma putline_text:
  assumes inv: "term_inv t" and s: "NUL \<notin> set s"
  shows "term_inv (term_putline s t)" and "text_of (term_putline s t) = (push s (fst (text_of t)), snd (text_of t))"
proof -
  let ?b = "term_buf t"
  have len: "length ?b = TERM_ROWS" "term_row t \<le> TERM_ROWS" using inv by (simp_all add: term_inv_def)
  have "term_inv (term_putline s t) \<and> text_of (term_putline s t) = (push s (fst (text_of t)), snd (text_of t))"
  proof (cases "term_row t < TERM_ROWS")
    case True
    then show ?thesis using putline_room [OF inv True s] len by (simp add: text_of_def push_room)
  next
    case False
    then have full: "term_row t = TERM_ROWS" using len by simp
    define u where "u = t\<lparr>term_buf := tl ?b @ [blank_row], term_row := TERM_ROWS - 1\<rparr>"
    have u: "term_scroll t = u" using term_scroll_eq [OF term_inv_buf [OF inv]] by (simp add: u_def)
    have pos: "0 < TERM_ROWS" by (simp add: TERM_ROWS_def)
    have iu: "term_inv u" using inv len pos blank_row_ok
      by (auto simp: term_inv_def u_def nth_append not_less_eq_eq dest: list.set_sel(2) [rotated] intro: le_antisym)
    have P: "term_putline s t = term_putline s u"
      using full pos u by (simp add: term_putline_def u_def)
    have "map c_string (take (term_row u) (term_buf u)) = tl (map c_string ?b)"
      using len by (simp add: u_def map_tl)
    moreover have "push s (fst (text_of t)) = tl (map c_string ?b) @ [take TERM_COLS s]"
      using len full by (simp add: text_of_def push_full)
    ultimately show ?thesis
      using putline_room [OF iu _ s] pos full unfolding P by (simp add: text_of_def u_def)
  qed
  then show "term_inv (term_putline s t)" "text_of (term_putline s t) = (push s (fst (text_of t)), snd (text_of t))" by blast+
qed

section \<open>The lines the commands print\<close>

lemma char_of_NUL: "char_of (n :: nat) = NUL \<Longrightarrow> n mod 256 = 0"
proof -
  assume "char_of n = NUL"
  then have "of_char (char_of n :: char) = (of_char NUL :: nat)" by simp
  then show ?thesis by simp
qed

lemma append_upto_set: "set (append_upto n s l) \<subseteq> set l \<union> set s"
  by (auto simp: append_upto_def dest: in_set_takeD)

lemma append_upto_length: "length l \<le> n \<Longrightarrow> length (append_upto n s l) \<le> n"
  by (simp add: append_upto_def)

lemma state_name_ok: "NUL \<notin> set (state_name st)" "length (state_name st) \<le> 7"
  by (cases st; simp add: state_name_def)+

lemma int_digits_chars: "c \<in> set (int_digits v) \<Longrightarrow> c \<noteq> NUL"
proof (induction v rule: int_digits.induct)
  case (1 v)
  show ?case
  proof (cases "v > 0")
    case True
    have "char_of (48 + nat (v mod 10)) \<noteq> NUL"
    proof
      assume "char_of (48 + nat (v mod 10)) = NUL"
      then have "(48 + nat (v mod 10)) mod 256 = 0" by (rule char_of_NUL)
      moreover have "nat (v mod 10) < 10" by (simp add: nat_less_iff)
      ultimately show False by simp
    qed
    moreover have "c = char_of (48 + nat (v mod 10)) \<or> c \<in> set (int_digits (v div 10))"
      using "1.prems" True int_digits.simps [of v] by simp
    ultimately show ?thesis using "1.IH" [OF True] by (elim disjE) simp_all
  next
    case False then show ?thesis using "1.prems" int_digits.simps [of v] by simp
  qed
qed

lemma int_digits_length: "v < 10 ^ n \<Longrightarrow> length (int_digits v) \<le> n"
proof (induction n arbitrary: v)
  case 0 then show ?case using int_digits.simps [of v] by simp
next
  case (Suc n)
  have "v div 10 < 10 ^ n" using Suc.prems by (simp add: div_less_iff_less_mult)
  then show ?case using Suc.IH int_digits.simps [of v] by simp
qed

lemma decimal_ok: "NUL \<notin> set (decimal v)" "v < 10 ^ 15 \<Longrightarrow> length (decimal v) \<le> 15"
proof -
  show "NUL \<notin> set (decimal v)" using int_digits_chars [of NUL "uint v"] by (auto simp: decimal_def)
  assume "v < 10 ^ 15"
  then have "uint v < 10 ^ 15" by (simp add: word_less_def)
  then show "length (decimal v) \<le> 15" using int_digits_length [of "uint v" 15] by (simp add: decimal_def)
qed

lemma ps_line_ok:
  assumes "i < MAX_TASKS" shows "NUL \<notin> set (ps_line i k)" and "length (ps_line i k) \<le> TERM_COLS"
proof -
  have i: "char_of (48 + i) \<noteq> NUL" using char_of_NUL [of "48 + i"] assms by (auto simp: MAX_TASKS_def)
  define l where "l = ''  ['' @ [char_of (48 + i)] @ ''] ''"
  define l1 where "l1 = append_upto (TERM_COLS - 10) (c_string (tname k)) l @ '' (''"
  define l2 where "l2 = append_upto (TERM_COLS - 2) (state_name (tstate k)) l1"
  have P: "ps_line i k = l2 @ '')''" by (simp add: ps_line_def Let_def l_def l1_def l2_def)
  have "NUL \<notin> set l" using i by (auto simp: l_def)
  then have "NUL \<notin> set l1" using append_upto_set [of "TERM_COLS - 10" "c_string (tname k)" l] c_string_NUL by (auto simp: l1_def)
  then have "NUL \<notin> set l2" using append_upto_set [of "TERM_COLS - 2" "state_name (tstate k)" l1] state_name_ok(1) by (auto simp: l2_def)
  then show "NUL \<notin> set (ps_line i k)" by (simp add: P)
  have "length (append_upto (TERM_COLS - 10) (c_string (tname k)) l) \<le> TERM_COLS - 10"
    by (rule append_upto_length) (simp add: l_def TERM_COLS_def)
  then have "length l1 \<le> TERM_COLS - 2" by (simp add: l1_def TERM_COLS_def)
  then have "length l2 \<le> TERM_COLS - 2" unfolding l2_def by (rule append_upto_length)
  then show "length (ps_line i k) \<le> TERM_COLS" by (simp add: P TERM_COLS_def)
qed

lemma mem_line_ok:
  "NUL \<notin> set (mem_line a b)" "a < 10 ^ 15 \<Longrightarrow> b < 10 ^ 15 \<Longrightarrow> length (mem_line a b) \<le> TERM_COLS"
proof -
  have "NUL \<notin> set (''Free: '' @ decimal a @ '' / '' @ decimal b)" "NUL \<notin> set '' pages (4KB each)''" using decimal_ok(1) by simp_all
  then show "NUL \<notin> set (mem_line a b)" using append_upto_set unfolding mem_line_def by blast
  assume "a < 10 ^ 15" "b < 10 ^ 15"
  from decimal_ok(2) [OF this(1)] decimal_ok(2) [OF this(2)] show "length (mem_line a b) \<le> TERM_COLS"
    unfolding mem_line_def by (intro append_upto_length) (simp add: TERM_COLS_def)
qed

lemma unknown_line_eq: "length inp \<le> INPUT_MAX \<Longrightarrow> unknown_line inp = ''Unkn'' @ inp"
  by (simp add: unknown_line_def append_upto_def TERM_COLS_def INPUT_MAX_def)

section \<open>Properties\<close>

lemma ps_text:
  "term_inv t \<Longrightarrow> n \<le> MAX_TASKS \<Longrightarrow>
   term_inv (for_loop 0 n (\<lambda>i t. case tab (int i) of None \<Rightarrow> t | Some k \<Rightarrow> term_putline (ps_line i k) t) t) \<and>
   text_of (for_loop 0 n (\<lambda>i t. case tab (int i) of None \<Rightarrow> t | Some k \<Rightarrow> term_putline (ps_line i k) t) t) =
   (fold push (concat (map (\<lambda>i. case tab (int i) of None \<Rightarrow> [] | Some k \<Rightarrow> [ps_line i k]) [0..<n])) (fst (text_of t)), snd (text_of t))"
proof (induction n)
  case (Suc n)
  then show ?case using putline_text [OF _ ps_line_ok(1), of _ n] by (cases "tab (int n)") (auto simp: for_loop_Suc)
qed simp

lemma command_text:
  assumes inv: "term_inv t" and inp: "c_string (term_input t) = take (term_input_len t) (term_input t)"
  shows "term_inv (term_command tab f p t) \<and>
    fst (text_of (term_command tab f p t)) =
      (if snd (text_of t) = ''clear'' then [] else fold push (command_output tab f p (snd (text_of t))) (fst (text_of t)))"
proof -
  define w where "w = take (term_input_len t) (term_input t)"
  have w: "snd (text_of t) = w" "c_string (term_input t) = w" "NUL \<notin> set w" "length w \<le> INPUT_MAX" "w = [] \<longleftrightarrow> term_input_len t = 0"
    using inv inp by (auto simp: text_of_def w_def term_inv_def)
  consider "w = ''help''" | "w = ''clear''" | "w = ''ps''" | "w = ''mem''" | "w = []"
    | "w \<notin> {''help'', ''clear'', ''ps'', ''mem'', []}" by blast
  then show ?thesis
  proof cases
    case 1
    have "NUL \<notin> set ''Commands: help, clear, ps, mem''" by simp
    from putline_text [OF inv this] show ?thesis unfolding term_command_def Let_def w(1,2) 1 by (simp add: command_output_def)
  next
    case 2
    have "term_inv (term_clear t)" unfolding term_clear_eq [OF term_inv_buf [OF inv]]
      using inv blank_row_ok by (simp add: term_inv_def)
    then show ?thesis unfolding term_command_def Let_def w(1,2) 2
      by (simp add: text_of_def term_clear_eq [OF term_inv_buf [OF inv]])
  next
    case 3
    have n: "NUL \<notin> set ''Tasks:''" by simp
    show ?thesis using ps_text [OF putline_text(1) [OF inv n] order_refl, of tab] putline_text(2) [OF inv n]
      unfolding term_command_def Let_def w(1,2) 3 by (simp add: command_output_def listed_def)
  next
    case 4
    from putline_text [OF inv mem_line_ok(1)] show ?thesis unfolding term_command_def Let_def w(1,2) 4 by (simp add: command_output_def)
  next
    case 5 then show ?thesis using w(5) inv unfolding term_command_def Let_def w(1,2) by (simp add: command_output_def)
  next
    case 6
    then have pos: "term_input_len t > 0" using w(5) by auto
    have "NUL \<notin> set (''Unkn'' @ w)" using w(3) by simp
    from putline_text [OF inv this] show ?thesis
      using 6 pos unknown_line_eq [OF w(4)] unfolding term_command_def Let_def w(1,2) w_def [symmetric] by (simp add: command_output_def)
  qed
qed

lemma term_handle_key_text:
  assumes "term_inv t"
  shows "term_inv (term_handle_key tab free_p total_p key t) \<and>
         text_of (term_handle_key tab free_p total_p key t) = text_key tab free_p total_p key (text_of t)"
proof -
  let ?n = "term_input_len t"
  have len: "length (term_input t) = INPUT_MAX + 1" "?n \<le> INPUT_MAX" "NUL \<notin> set (take ?n (term_input t))"
    using assms by (simp_all add: term_inv_def)
  consider "key = KEY_ENTER" | "key = KEY_BACKSPACE" | "key \<noteq> KEY_ENTER" "key \<noteq> KEY_BACKSPACE" "32 \<le> key \<and> key < 127 \<and> ?n < INPUT_MAX"
    | "key \<noteq> KEY_ENTER" "key \<noteq> KEY_BACKSPACE" "\<not> (32 \<le> key \<and> key < 127 \<and> ?n < INPUT_MAX)" by blast
  then show ?thesis
  proof cases
    case 1
    define u where "u = t\<lparr>term_input := (term_input t)[?n := NUL]\<rparr>"
    have iu: "term_inv u" using assms len by (simp add: term_inv_def u_def)
    have tu: "text_of u = text_of t" by (simp add: text_of_def u_def)
    have "(term_input t)[?n := NUL] = take ?n (term_input t) @ NUL # drop (Suc ?n) (term_input t)"
      using len by (simp add: upd_conv_take_nth_drop)
    then have cu: "c_string (term_input u) = take (term_input_len u) (term_input u)"
      using c_string_append [OF len(3)] len by (simp add: u_def)
    have H: "term_handle_key tab free_p total_p key t = (term_command tab free_p total_p u)\<lparr>term_input_len := 0\<rparr>"
      using 1 by (simp add: term_handle_key_def u_def)
    have "term_inv (x\<lparr>term_input_len := 0\<rparr>)" "text_of (x\<lparr>term_input_len := 0\<rparr>) = (fst (text_of x), [])" if "term_inv x" for x
      using that by (simp_all add: term_inv_def text_of_def)
    with command_text [OF iu cu, of tab free_p total_p] show ?thesis
      unfolding H using 1 tu by (simp add: text_key_def split: prod.split)
  next
    case 2
    have "NUL \<notin> set (take (?n - 1) (term_input t))" using len(3) set_take_subset_set_take [of "?n - 1" ?n "term_input t"] by auto
    then show ?thesis using 2 assms len
      by (auto simp: term_handle_key_def KEY_ENTER_def KEY_BACKSPACE_def term_inv_def text_of_def text_key_def butlast_take)
  next
    case 3
    have "char_of (nat key) \<noteq> NUL" using char_of_NUL [of "nat key"] 3 by auto
    moreover have "take (Suc ?n) ((term_input t)[?n := char_of (nat key)]) = take ?n (term_input t) @ [char_of (nat key)]"
      using len 3 by (simp add: take_Suc_conv_app_nth)
    ultimately show ?thesis using assms len 3
      by (simp add: term_handle_key_def term_inv_def text_of_def text_key_def min_def)
  next
    case 4
    then show ?thesis using assms len by (auto simp: term_handle_key_def text_of_def text_key_def min_def)
  qed
qed


definition term_zero :: terminal where
  "term_zero = \<lparr>term_buf = replicate TERM_ROWS blank_row, term_row = 0, term_input = replicate (INPUT_MAX + 1) NUL, term_input_len = 0\<rparr>"

lemma term_zero_inv: "term_inv term_zero" "text_of term_zero = ([], [])"
  using blank_row_ok by (simp_all add: term_inv_def term_zero_def text_of_def)


text \<open>
  The lines the commands compose fit into their 61 bytes, for page counts below \<open>10^15\<close> also the digits
  into theirs; an unknown command is announced by the first four letters of \<^verbatim>\<open>Unknown: \<close> only.
\<close>

theorem terminal_lines_fit:
  assumes "i < MAX_TASKS" and "a < 10 ^ 15" and "b < 10 ^ 15" and "length inp \<le> INPUT_MAX"
  shows "length (ps_line i k) \<le> TERM_COLS \<and> length (mem_line a b) \<le> TERM_COLS \<and> length (decimal a) \<le> 15 \<and>
         unknown_line inp = ''Unkn'' @ inp"
  using ps_line_ok(2) [OF assms(1)] mem_line_ok(2) [OF assms(2,3)] decimal_ok(2) [OF assms(2)] unknown_line_eq [OF assms(4)] by blast

lemma term_render_draws:
  assumes "target_ok s" and "term_inv t"
  shows "draws s (snd (term_render_to_target t s))" and "term_inv (fst (term_render_to_target t s))"
    and "text_of (fst (term_render_to_target t s)) = text_of t"
proof -
  show "draws s (snd (term_render_to_target t s))"
    unfolding term_render_to_target_def Let_def snd_conv by (intro draws_intros assms)
  show "term_inv (fst (term_render_to_target t s))" "text_of (fst (term_render_to_target t s)) = text_of t"
    using assms(2) by (simp_all add: term_render_to_target_def Let_def term_inv_def text_of_def)
qed

end
