(* ===== verification/Wm_Screen.thy ===== *)
theory Wm_Screen
  imports Wm
begin

text \<open>
  What the window manager puts on the screen and what a click on it means
  (\<^verbatim>\<open>draw_window\<close>, \<^verbatim>\<open>draw_taskbar\<close>, \<^verbatim>\<open>wm_composite\<close> and \<^verbatim>\<open>wm_handle_mouse\<close> of \<^verbatim>\<open>kernel/wm.c\<close>).
\<close>

section \<open>Reading the screen\<close>

declare gpu_draw_string.simps [simp del]

lemma wm_fields_paint [simp]:
  "windows (paint p s) = windows s" "z_order (paint p s) = z_order s" "z_count (paint p s) = z_count s"
  by (simp_all add: paint_def Let_def)

lemma used_set_paint [simp]: "used_set (paint p s) = used_set s"
  by (simp add: used_set_def bitmap_test_def paint_def Let_def)

lemma zlist_paint [simp]: "zlist (paint p s) = zlist s"
  by (simp add: zlist_def)

lemma paint_at:
  assumes ok: "target_ok s" and b: "0 \<le> x" "x < cur_w s" "0 \<le> y" "y < cur_h s"
  shows "pixels (paint p s) (cur_buf s) ! nat (y * cur_w s + x) =
           (case p x y of Some c \<Rightarrow> c | None \<Rightarrow> pixels s (cur_buf s) ! nat (y * cur_w s + x))"
proof -
  note ib = index_bounds [OF b]
  have "nat (y * cur_w s + x) < nat (cur_w s * cur_h s)" using ib by (simp add: nat_less_iff)
  then have "nat (y * cur_w s + x) < length (pixels s (cur_buf s))" using ok unfolding target_ok_def by linarith
  then show ?thesis using ib b by (simp add: paint_def Let_def split: option.split)
qed

text \<open>Pictures that are blank outside a set of points.\<close>

definition within :: "(int \<Rightarrow> int \<Rightarrow> bool) \<Rightarrow> picture \<Rightarrow> bool" where
  "within R p \<longleftrightarrow> (\<forall>x y. p x y \<noteq> None \<longrightarrow> R x y)"

lemma withinD: "within R p \<Longrightarrow> \<not> R x y \<Longrightarrow> p x y = None"
  unfolding within_def by blast

lemma within_over: "within R p \<Longrightarrow> within R q \<Longrightarrow> within R (over q p)"
  by (fastforce simp: within_def over_def split: option.splits)

lemma within_blank: "within R blank"
  by (simp add: within_def)

lemma within_rect: "(\<And>a b. x \<le> a \<Longrightarrow> a < x + w \<Longrightarrow> y \<le> b \<Longrightarrow> b < y + h \<Longrightarrow> R a b) \<Longrightarrow> within R (rect x y w h c)"
  by (auto simp: within_def rect_def split: if_splits)

lemma within_stamp: "(\<And>a b. x \<le> a \<Longrightarrow> a < x + w \<Longrightarrow> y \<le> b \<Longrightarrow> b < y + h \<Longrightarrow> R a b) \<Longrightarrow> within R (stamp x y w h f)"
  by (auto simp: within_def stamp_def split: if_splits)

lemma within_text:
  "(\<And>a b. x \<le> a \<Longrightarrow> a < x + 8 * int (length t) \<Longrightarrow> y \<le> b \<Longrightarrow> b < y + 16 \<Longrightarrow> R a b) \<Longrightarrow> within R (text_picture x y t fg bg)"
proof (induction t arbitrary: x)
  case Nil then show ?case by (simp add: within_blank)
next
  case (Cons c t)
  have "within R (text_picture (x + 8) y t fg bg)" by (rule Cons.IH) (use Cons.prems in auto)
  moreover have "within R (stamp x y 8 16 (glyph_picture c fg bg))" by (rule within_stamp) (use Cons.prems in auto)
  ultimately show ?case by (simp add: within_over)
qed

lemma within_frame:
  assumes "\<And>a b. x \<le> a \<Longrightarrow> a < x + w \<Longrightarrow> y \<le> b \<Longrightarrow> b < y + h \<Longrightarrow> R a b" and "0 < w" "0 < h"
  shows "within R (frame_picture x y w h c)"
  unfolding frame_picture_def using assms(2,3) by (intro within_over within_rect assms(1)) auto

lemmas within_intros = within_over within_rect within_stamp within_text within_frame within_blank

declare text_picture.simps [simp del]

section \<open>One window\<close>

definition title_color :: "wm_window \<Rightarrow> u32" where
  "title_color win = (if focused win then TITLE_BG_FOCUSED else TITLE_BG_UNFOCUSED)"

text \<open>Frame, title and close button, and the client area with the pixels \<open>b\<close> over them.\<close>

definition decoration :: "wm_window \<Rightarrow> picture" where
  "decoration win =
     (let x = win_x win; y = win_y win; w = win_w win; h = win_h win; cx = x + w - CLOSE_BTN_W - 2; cy = y + 2
      in over (stamp (cx + 4) (cy + 1) 8 16 (glyph_picture CHR ''X'' COLOR_WHITE CLOSE_BG))
        (over (rect cx cy CLOSE_BTN_W (TITLEBAR_H - 4) CLOSE_BG)
        (over (text_picture (x + 4) (y + 3) (title win) COLOR_WHITE (title_color win))
        (over (rect (x + 1) (y + 1) (w - 2) TITLEBAR_H (title_color win)) (frame_picture x y w h BORDER_COLOR)))))"

definition window_picture :: "u32 list \<Rightarrow> wm_window \<Rightarrow> picture" where
  "window_picture b win =
     over (stamp (win_x win + 1) (win_y win + TITLEBAR_H + 1) (content_w win) (content_h win) (blit_picture b (content_w win)))
       (decoration win)"

lemma draw_window_paint:
  assumes ok: "target_ok s" and win: "win_ok s win" and c: "content win \<noteq> cur_buf s"
  shows "draw_window win s = paint (window_picture (pixels s (content win)) win) s"
proof -
  let ?s5 = "paint (decoration win) s"
  have b: "0 \<le> j * content_w win + i \<and> nat (j * content_w win + i) < length (pixels s (content win))"
    if "0 \<le> i" "i < content_w win" "0 \<le> j" "j < content_h win" for i j
    using index_bounds [OF that] content_fits [OF win] by linarith
  have "content win \<noteq> 0" using win buffer_at_nonzero by (auto simp: win_ok_def)
  then have "draw_window win s =
      gpu_blit (win_x win + 1) (win_y win + TITLEBAR_H + 1) (content win) (content_w win) (content_h win) (content_w win) ?s5"
    using ok by (simp add: draw_window_def Let_def decoration_def title_color_def gpu_draw_rect_paint gpu_fill_rect_paint
        gpu_draw_string_paint gpu_draw_char_paint paint_over)
  also have "\<dots> = paint (stamp (win_x win + 1) (win_y win + TITLEBAR_H + 1) (content_w win) (content_h win)
        (blit_picture (pixels ?s5 (content win)) (content_w win))) ?s5"
    using ok c b by (intro gpu_blit_paint) simp_all
  finally show ?thesis using c by (simp add: paint_over window_picture_def)
qed

text \<open>The window is wide enough for its title and for the close button.\<close>

definition title_fits :: "wm_window \<Rightarrow> bool" where
  "title_fits win \<longleftrightarrow> 8 * int (length (title win)) + 4 \<le> win_w win \<and> CLOSE_BTN_W + 2 \<le> win_w win"

lemma window_picture_within:
  assumes "win_ok s win" and "title_fits win"
  shows "within (\<lambda>x y. hit x y win) (window_picture b win)"
  using assms
  unfolding window_picture_def decoration_def Let_def win_ok_def title_fits_def size_ok_def
  by (intro within_intros) (auto simp: hit_def CLOSE_BTN_W_def TITLEBAR_H_def)

definition client_hit :: "int \<Rightarrow> int \<Rightarrow> wm_window \<Rightarrow> bool" where
  "client_hit x y win \<longleftrightarrow>
     win_x win + 1 \<le> x \<and> x < win_x win + 1 + content_w win \<and>
     win_y win + TITLEBAR_H + 1 \<le> y \<and> y < win_y win + TITLEBAR_H + 1 + content_h win"

definition client_pixel :: "'a gpu_state_scheme \<Rightarrow> int \<Rightarrow> int \<Rightarrow> wm_window \<Rightarrow> u32" where
  "client_pixel s x y win =
     pixels s (content win) ! nat ((y - (win_y win + TITLEBAR_H + 1)) * content_w win + (x - (win_x win + 1)))"

lemma window_picture_client: "client_hit x y win \<Longrightarrow> window_picture (pixels s (content win)) win x y = Some (client_pixel s x y win)"
  by (simp add: window_picture_def over_def stamp_def client_hit_def client_pixel_def blit_picture_def)

section \<open>The whole screen\<close>

lemma over_assoc: "over (over r q) p = over r (over q p)"
  by (auto simp: over_def fun_eq_iff split: option.split)

lemma fold_windows_paint:
  assumes ok: "target_ok s" and win: "\<And>i. i \<in> set ids \<Longrightarrow> visible (windows s ! i) \<and> win_ok s (windows s ! i) \<and> content (windows s ! i) \<noteq> cur_buf s"
  shows "fold (\<lambda>i t. if visible (windows t ! i) then draw_window (windows t ! i) t else t) ids (paint p s) =
         paint (over (layers (map (\<lambda>i. window_picture (pixels s (content (windows s ! i))) (windows s ! i)) ids)) p) s"
  using win
proof (induction ids arbitrary: p)
  case Nil then show ?case by simp
next
  case (Cons i ids)
  let ?pic = "window_picture (pixels s (content (windows s ! i))) (windows s ! i)"
  have i: "visible (windows s ! i)" "win_ok s (windows s ! i)" "content (windows s ! i) \<noteq> cur_buf s" using Cons.prems by simp_all
  have "win_ok (paint p s) (windows s ! i)"
    using i(2) by (simp add: win_ok_def buffer_at_def screen_def)
  then have "draw_window (windows s ! i) (paint p s) = paint ?pic (paint p s)"
    using draw_window_paint [of "paint p s" "windows s ! i"] ok i(3) by simp
  then show ?case
    using i(1) Cons.IH [of "over ?pic p"] Cons.prems by (simp add: paint_over over_assoc)
qed

lemma draw_buttons_paint:
  assumes "target_ok s"
  shows "\<exists>p. draw_buttons ty bx ids s = paint p s \<and> within (\<lambda>x y. ty \<le> y) p"
  using assms
proof (induction ty bx ids s rule: draw_buttons.induct)
  case (1 ty bx s) then show ?case by (intro exI [of _ blank]) (simp add: within_blank)
next
  case (2 ty bx i ids s)
  let ?win = "windows s ! i"
  show ?case
  proof (cases "visible ?win")
    case False then show ?thesis using 2 by simp
  next
    case True
    let ?bg = "if focused ?win then TASKBAR_ACTIVE_BG else TASKBAR_BG"
    let ?q = "over (text_picture (bx + 4) (ty + 5) (title ?win) TASKBAR_FG ?bg) (rect bx (ty + 2) (button_w ?win) (TASKBAR_H - 4) ?bg)"
    have s2: "gpu_draw_string (bx + 4) (ty + 5) (title ?win) TASKBAR_FG ?bg (gpu_fill_rect bx (ty + 2) (button_w ?win) (TASKBAR_H - 4) ?bg s) = paint ?q s"
      using 2 by (simp add: gpu_fill_rect_paint gpu_draw_string_paint paint_over)
    have ok: "target_ok (paint ?q s)" using 2 by simp
    obtain p where p: "draw_buttons ty (bx + button_w ?win + 4) ids (paint ?q s) = paint p (paint ?q s)" "within (\<lambda>x y. ty \<le> y) p"
      using 2(2) [OF refl _ refl refl refl s2 [symmetric] ok] True by auto
    have "draw_buttons ty bx (i # ids) s = paint (over p ?q) s"
      using True p(1) by (simp only: draw_buttons.simps Let_def s2 if_False not_True_eq_False paint_over simp_thms)
    moreover have "within (\<lambda>x y. ty \<le> y) (over p ?q)" using p(2) by (intro within_intros) auto
    ultimately show ?thesis by blast
  qed
qed

lemma draw_taskbar_paint:
  assumes ok: "target_ok s"
  shows "\<exists>p. draw_taskbar s = paint p s \<and> within (\<lambda>x y. FB_HEIGHT - TASKBAR_H \<le> y) p"
proof -
  let ?ty = "FB_HEIGHT - TASKBAR_H"
  let ?q = "over (text_picture 6 (?ty + 5) ''Start'' COLOR_WHITE 0x00336699) (over (rect 0 (?ty + 1) START_BTN_W (TASKBAR_H - 1) 0x00336699)
      (over (rect 0 ?ty FB_WIDTH 1 BORDER_COLOR) (rect 0 ?ty FB_WIDTH TASKBAR_H TASKBAR_BG)))"
  have q: "target_ok (paint ?q s)" using ok by simp
  obtain p where p: "draw_buttons ?ty (START_BTN_W + 4) (zlist (paint ?q s)) (paint ?q s) = paint p (paint ?q s)" "within (\<lambda>x y. ?ty \<le> y) p"
    using draw_buttons_paint [OF q] by blast
  let ?l = "text_picture (FB_WIDTH - 8 * FONT_WIDTH - 4) (?ty + 5) ''DRAGOON'' COLOR_GRAY TASKBAR_BG"
  have "draw_taskbar s = paint (over ?l (over p ?q)) s"
    using ok p(1) by (simp add: draw_taskbar_def Let_def gpu_fill_rect_paint gpu_hline_paint gpu_draw_string_paint paint_over zlist_def)
  moreover have "within (\<lambda>x y. ?ty \<le> y) (over ?l (over p ?q))" using p(2) by (intro within_intros) auto
  ultimately show ?thesis by blast
qed

lemma layers_append: "layers (ps @ qs) = over (layers qs) (layers ps)"
  by (induction ps) (auto simp: over_def fun_eq_iff split: option.split)

lemma layers_None: "(\<And>p. p \<in> set ps \<Longrightarrow> p x y = None) \<Longrightarrow> layers ps x y = None"
  by (induction ps) (auto simp: over_def)

text \<open>Drawing goes to the back buffer.\<close>

definition on_backbuf :: "'a gpu_state_scheme \<Rightarrow> bool" where
  "on_backbuf s \<longleftrightarrow> cur_buf s = backbuf s \<and> cur_w s = FB_WIDTH \<and> cur_h s = FB_HEIGHT"

lemma on_backbuf_ok: "screen_ok s \<Longrightarrow> on_backbuf s \<Longrightarrow> target_ok s"
  by (rule buffer_target_ok) (simp_all add: screen_ok_def on_backbuf_def)

lemma content_not_backbuf:
  assumes "wm_inv s" and "i \<in> shown s" shows "content (windows s ! i) \<noteq> backbuf s"
  using wm_invD(4) [OF assms(1)] wm_invD(5) [OF assms]
  by (intro buffers_differ [of s _ "win_pages (windows s ! i)" s _ 300]) (auto simp: screen_ok_def win_ok_def screen_def)

lemma wm_composite_paint:
  assumes inv: "wm_inv s" and tgt: "on_backbuf s"
  obtains bar desktop where "wm_composite s = paint (over bar (over (layers
        (map (\<lambda>i. window_picture (pixels s (content (windows s ! i))) (windows s ! i)) (zlist s))) desktop)) s"
    "within (\<lambda>x y. FB_HEIGHT - TASKBAR_H \<le> y) bar"
proof -
  let ?L = "layers (map (\<lambda>i. window_picture (pixels s (content (windows s ! i))) (windows s ! i)) (zlist s))"
  have ok: "target_ok s" using on_backbuf_ok wm_invD(4) [OF inv] tgt by blast
  let ?d = "over (text_picture ((FB_WIDTH - 10 * FONT_WIDTH) div 2) ((FB_HEIGHT - TASKBAR_H) div 2 - 8) ''DRAGOON OS'' 0x00102040 DESKTOP_BG)
              (\<lambda>x y. Some DESKTOP_BG)"
  let ?F = "\<lambda>i t. if visible (windows t ! i) then draw_window (windows t ! i) t else t"
  have "\<And>i. i \<in> set (zlist s) \<Longrightarrow> visible (windows s ! i) \<and> win_ok s (windows s ! i) \<and> content (windows s ! i) \<noteq> cur_buf s"
    using shape_invD(5) [OF wm_invD(2) [OF inv]] wm_invD(5) [OF inv] content_not_backbuf [OF inv] tgt
    by (auto simp: shownD on_backbuf_def)
  from fold_windows_paint [OF ok this] have f: "fold ?F (zlist s) (paint ?d s) = paint (over ?L ?d) s" by simp
  have "target_ok (paint (over ?L ?d) s)" using ok by simp
  from draw_taskbar_paint [OF this] obtain bar where
    bar: "draw_taskbar (paint (over ?L ?d) s) = paint bar (paint (over ?L ?d) s)" "within (\<lambda>x y. FB_HEIGHT - TASKBAR_H \<le> y) bar" by blast
  have "wm_composite s = draw_taskbar (fold ?F (zlist s) (paint ?d s))"
    using ok by (simp add: wm_composite_def Let_def gpu_clear_paint gpu_draw_string_paint paint_over zlist_def)
  then have "wm_composite s = paint (over bar (over ?L ?d)) s" unfolding f bar(1) by (simp only: paint_over)
  then show ?thesis using bar(2) by (rule that)
qed

section \<open>Properties\<close>

text \<open>The desktop with one window, drawing on the back buffer.\<close>

lemma windows_desk: "j < WM_MAX_WINDOWS \<Longrightarrow> \<not> dragging (windows desk ! j)" "length (windows desk) = WM_MAX_WINDOWS" "prev_buttons desk = 0"
proof -
  obtain a s where as: "buffer_alloc 300 desk_blank = (a, s)" by fastforce
  have mm: "mm_inv desk_blank" "used_set desk_blank = {..<256}"
    using mm_boot_spec by (simp_all add: desk_blank_def mm_inv_def used_set_def bitmap_test_def)
  have "a = page_addr 256" using buffer_alloc_first [OF mm(2), of 300] as by (simp add: MAX_PAGES_def)
  then have "a \<noteq> 0" by (simp add: MAX_PAGES_def)
  note B = buffer_alloc_result [OF mm(1) as this]
  have "buffer_at s a 300" using B(1) by simp
  note G = wm_fields_more [OF gpu_init_buffers(9) [OF B(4) this]] and M = wm_fields_more [OF B(12)]
  have len: "length (windows (gpu_init a s)) = WM_MAX_WINDOWS" by (simp add: G M desk_blank_def WM_MAX_WINDOWS_def)
  have "windows desk = map (\<lambda>w. w\<lparr>visible := False, content := 0\<rparr>) (windows desk_blank)"
    using len by (simp add: desk_def as wm_init_def Let_def fold_upd_windows) (simp add: G M)
  then show "j < WM_MAX_WINDOWS \<Longrightarrow> \<not> dragging (windows desk ! j)" "length (windows desk) = WM_MAX_WINDOWS"
    by (simp_all add: desk_blank_def WM_MAX_WINDOWS_def)
  show "prev_buttons desk = 0" by (simp add: desk_def as wm_init_def Let_def)
qed

lemma reset_target_inv:
  assumes inv: "wm_inv s"
  shows "wm_inv (gpu_reset_target s)" and "on_backbuf (gpu_reset_target s)" and "zlist (gpu_reset_target s) = zlist s"
    and "windows (gpu_reset_target s) = windows s" and "shown (gpu_reset_target s) = shown s"
proof -
  let ?t = "gpu_reset_target s"
  show "on_backbuf ?t" by (simp add: gpu_reset_target_def on_backbuf_def)
  show z: "zlist ?t = zlist s" and w: "windows ?t = windows s" and sh: "shown ?t = shown s"
    by (simp_all add: gpu_reset_target_def zlist_def shown_def)
  have "z_order ?t = z_order s" "z_count ?t = z_count s" by (simp_all add: gpu_reset_target_def)
  then have "stack_inv ?t" using wm_invD(1) [OF inv] unfolding stack_inv_def shape_inv_def sh z w by simp
  moreover have "used_set ?t = used_set s" "mm_inv ?t = mm_inv s" "pixels ?t = pixels s" "frontbuf ?t = frontbuf s" "backbuf ?t = backbuf s"
    by (simp_all add: gpu_reset_target_def used_set_def mm_inv_def bitmap_test_def)
  ultimately show "wm_inv ?t" using wm_invD(3) [OF inv] sh w by (intro wm_inv_step [OF inv]) simp_all
qed

lemma desk_with_window:
  obtains s :: wm_state where "wm_inv s" "on_backbuf s" "zlist s = [0]" "shown s = {0}" "title (windows s ! 0) = ''Tetris''"
    "win_x (windows s ! 0) = 100" "win_y (windows s ! 0) = 10" "content_w (windows s ! 0) = 420" "content_h (windows s ! 0) = 440"
    "win_w (windows s ! 0) = 422" "\<forall>j < WM_MAX_WINDOWS. \<not> dragging (windows s ! j)"
proof -
  have sz: "size_ok 420 440" by (simp add: size_ok_def)
  have "fst (wm_create_window ''Tetris'' 100 10 420 440 desk) = int 0"
    using wm_create_succeeds [OF desk_inv(4) _ _ desk_inv(3), of 420 440] unat_area(2) [OF sz] by (simp add: MAX_PAGES_def)
  then obtain s' where c: "wm_create_window ''Tetris'' 100 10 420 440 desk = (int 0, s')" by (metis prod.collapse)
  have inv: "wm_inv s'" and spec: "create_spec 420 440 (int 0) desk s'" using create_window_inv [OF desk_inv(1) sz c] by blast+
  have z: "zlist s' = [0]" "shown s' = {0}" using spec desk_inv(2,3) by (auto simp: create_spec_def)
  from c obtain t a where t: "s' = wm_focus_window (int 0) t" "z_order t = (z_order desk)[z_count desk := 0]" "z_count t = Suc (z_count desk)"
      "windows t = (windows desk)[0 := opened (placed ''Tetris'' 100 10 420 440 a (windows desk ! 0))]"
    by (cases rule: create_window_cases [OF desk_inv(1) sz c]) auto
  have zc: "z_count desk = 0" using desk_inv(2) shape_invD(6) [OF wm_invD(2) [OF desk_inv(1)]] by simp
  have C: "shape_inv t" "0 \<in> shown t"
    using create_ok_shape(2,3) [OF desk_inv(1) _ _ _ t(4,2,3)] desk_inv(3) zc by (simp_all add: WM_MAX_WINDOWS_def)
  have w: "windows s' ! j = (windows t ! j)\<lparr>focused := (j = 0)\<rparr>" if "j < WM_MAX_WINDOWS" for j
    using focus_nth [OF C that] t(1) by simp
  have w0: "windows s' ! 0 = (opened (placed ''Tetris'' 100 10 420 440 a (windows desk ! 0)))\<lparr>focused := True\<rparr>"
    using w [of 0] windows_desk(2) by (simp add: t(4) WM_MAX_WINDOWS_def)
  have drag: "\<not> dragging (windows s' ! j)" if "j < WM_MAX_WINDOWS" for j
    using w [OF that] windows_desk(1) [OF that] windows_desk(2) that by (cases "j = 0") (simp_all add: t(4))
  show ?thesis
    using reset_target_inv [OF inv] z w0 drag by (intro that [of "gpu_reset_target s'"]) (simp_all add: placed_def)
qed


text \<open>
  A press of the left button on the client area of the topmost window at the pointer
  selects that window: its id is returned and it becomes the focused top of the stack, when no
  window is being dragged.
\<close>

theorem wm_click_selects_topmost:
  assumes inv: "wm_inv s" and z: "zlist s = lower @ i # upper" and upper: "\<forall>j \<in> set upper. \<not> hit x y (windows s ! j)"
    and pt: "client_hit x y (windows s ! i)" "y < FB_HEIGHT - TASKBAR_H"
    and press: "buttons AND MOUSE_BTN_LEFT \<noteq> 0" "prev_buttons s AND MOUSE_BTN_LEFT = 0"
    and idle: "\<forall>j < WM_MAX_WINDOWS. \<not> dragging (windows s ! j)"
  shows "\<exists>s'. wm_handle_mouse x y buttons s = (int i, s') \<and> zlist s' = lower @ upper @ [i] \<and> wm_get_focused s' = int i"
proof -
  let ?s = "s\<lparr>prev_buttons := buttons\<rparr>"
  note P = prev_buttons_inv [OF inv, of buttons]
  have i: "i \<in> shown s" using z shape_invD(5) [OF wm_invD(2) [OF inv]] by auto
  then have i': "i \<in> shown ?s" by (simp add: P)
  have wok: "win_ok s (windows s ! i)" by (rule wm_invD(5) [OF inv i])
  have hit: "hit x y (windows s ! i)" using pt(1) wok by (auto simp: hit_def client_hit_def win_ok_def TITLEBAR_H_def)
  have drag: "first_idx (\<lambda>j. dragging (windows s ! j)) 0 WM_MAX_WINDOWS = None" using idle by (simp add: first_idx_None)
  have find: "find (\<lambda>j. visible (windows s ! j) \<and> hit x y (windows s ! j)) (rev (take (z_count s) (z_order s))) = Some i"
  proof -
    have "find (\<lambda>j. visible (windows s ! j) \<and> hit x y (windows s ! j)) (rev upper @ i # rev lower) = Some i"
      using upper hit shownD(2) [OF i] by (induction upper rule: rev_induct) auto
    then show ?thesis using z by (simp add: zlist_def)
  qed
  let ?t = "wm_focus_window (int i) ?s"
  have win: "windows ?t ! i = (windows s ! i)\<lparr>focused := True\<rparr>" using focus_nth [OF wm_invD(2) [OF P(1)] i' shownD(1) [OF i]] by simp
  have "\<not> close_hit x y (windows ?t ! i)" "\<not> y < win_y (windows ?t ! i) + TITLEBAR_H + 1"
    using pt(1) by (auto simp: win close_hit_def Let_def client_hit_def TITLEBAR_H_def)
  then have "wm_handle_mouse x y buttons s = (int i, ?t)"
    using drag find press pt(2) by (simp add: wm_handle_mouse_def Let_def)
  moreover have "zlist ?t = lower @ upper @ [i]"
    using focus_window(2) [OF wm_invD(2) [OF P(1)] i'] z shape_invD(4) [OF wm_invD(2) [OF inv]] by (simp add: P(2) remove1_append)
  moreover have "wm_get_focused ?t = int i"
    using wm_get_focused_last [OF focus_stack_inv(1) [OF wm_invD(2) [OF P(1)] i']] calculation(2) by simp
  ultimately show ?thesis by blast
qed


theorem wm_click_selects_topmost_witness:
  "\<exists>(s :: wm_state) s'. wm_inv s \<and> wm_handle_mouse 300 200 1 s = (int 0, s') \<and> zlist s' = [0] \<and> wm_get_focused s' = int 0"
proof -
  obtain s :: wm_state where s: "wm_inv s" "on_backbuf s" "zlist s = [0]" "shown s = {0}" "title (windows s ! 0) = ''Tetris''"
    "win_x (windows s ! 0) = 100" "win_y (windows s ! 0) = 10" "content_w (windows s ! 0) = 420" "content_h (windows s ! 0) = 440"
    "win_w (windows s ! 0) = 422" "\<forall>j < WM_MAX_WINDOWS. \<not> dragging (windows s ! j)"
    by (rule desk_with_window)
  let ?t = "s\<lparr>prev_buttons := 0\<rparr>"
  note P = prev_buttons_inv [OF s(1), of 0]
  have hit: "client_hit 300 200 (windows ?t ! 0)" using s by (simp add: client_hit_def TITLEBAR_H_def)
  have z: "zlist ?t = [] @ 0 # []" using P(2) s(3) by simp
  have "\<exists>s'. wm_handle_mouse 300 200 1 ?t = (int 0, s') \<and> zlist s' = [] @ [] @ [0] \<and> wm_get_focused s' = int 0"
    by (rule wm_click_selects_topmost [OF P(1) z _ hit]) (use s(11) in \<open>simp_all add: FB_HEIGHT_def TASKBAR_H_def MOUSE_BTN_LEFT_def\<close>)
  then show ?thesis using P(1) by auto
qed

end
