(* ===== verification/Tetris.thy ===== *)
theory Tetris
  imports Gpu Input "HOL-Library.Signed_Division"
begin

text \<open>
  The game of Tetris (\<^verbatim>\<open>games/tetris.c\<close>): board, falling piece, keys, ticks and drawing. The two
  loops whose end depends on the board are partial functions, \<open>None\<close> standing for a loop that does
  not end; \<open>None\<close> is also the read outside the table of scores. Results of \<^verbatim>\<open>timer_get_ticks\<close> are
  arguments. Coordinates and scores are unbounded integers, times are 64-bit words.
\<close>

section \<open>State\<close>

definition BOARD_W :: nat where "BOARD_W = 10"
definition BOARD_H :: nat where "BOARD_H = 20"
definition CELL_SIZE :: int where "CELL_SIZE = 20"

definition pieces :: "u16 list list" where
  "pieces =
    [[0x0F00, 0x2222, 0x00F0, 0x4444],
     [0x6600, 0x6600, 0x6600, 0x6600],
     [0x0E40, 0x4C40, 0x4E00, 0x4640],
     [0x06C0, 0x8C40, 0x6C00, 0x4620],
     [0x0C60, 0x4C80, 0xC600, 0x2640],
     [0x0E80, 0xC440, 0x2E00, 0x44C0],
     [0x0E20, 0x44C0, 0x8E00, 0xC440]]"

definition piece_colors :: "u32 list" where
  "piece_colors = [COLOR_CYAN, COLOR_YELLOW, COLOR_MAGENTA, COLOR_GREEN, COLOR_RED, COLOR_BLUE, COLOR_ORANGE]"

type_synonym board = "u8 list list"

record tetris_state =
  tet_rng :: u32
  board :: board
  cur_piece :: nat
  cur_rot :: nat
  cur_x :: int
  cur_y :: int
  next_piece :: nat
  tet_score :: int
  level :: int
  lines_cleared :: int
  tet_over :: bool
  last_drop :: u64
  drop_interval :: int

section \<open>Operations\<close>

definition rng_piece :: "u32 \<Rightarrow> nat \<times> u32" where
  "rng_piece r = (let r' = r * 1103515245 + 12345 in (unat (drop_bit 16 r') mod 7, r'))"

definition piece_bit :: "nat \<Rightarrow> nat \<Rightarrow> nat \<Rightarrow> nat \<Rightarrow> bool" where
  "piece_bit piece rot r c = (let msk = pieces ! piece ! rot in drop_bit (15 - (r * 4 + c)) msk AND 1 \<noteq> 0)"

text \<open>The cell at row \<open>r\<close> and column \<open>c\<close> of the piece has room on the board.\<close>

definition cell_fits :: "board \<Rightarrow> int \<Rightarrow> int \<Rightarrow> bool" where
  "cell_fits b bx by =
     (if bx < 0 \<or> bx \<ge> int BOARD_W \<or> by \<ge> int BOARD_H then False
      else if by \<ge> 0 \<and> b ! nat by ! nat bx \<noteq> 0 then False else True)"

definition fits :: "board \<Rightarrow> nat \<Rightarrow> nat \<Rightarrow> int \<Rightarrow> int \<Rightarrow> bool" where
  "fits b piece rot px py =
     list_all (\<lambda>r. list_all (\<lambda>c. if \<not> piece_bit piece rot r c then True else cell_fits b (px + int c) (py + int r)) [0..<4]) [0..<4]"

definition set_cell :: "int \<Rightarrow> int \<Rightarrow> u8 \<Rightarrow> board \<Rightarrow> board" where
  "set_cell bx by v b =
     (if by \<ge> 0 \<and> by < int BOARD_H \<and> bx \<ge> 0 \<and> bx < int BOARD_W then b[nat by := (b ! nat by)[nat bx := v]] else b)"

definition lock_piece :: "tetris_state \<Rightarrow> tetris_state" where
  "lock_piece g = g\<lparr>board :=
     for_loop 0 4 (\<lambda>r. for_loop 0 4 (\<lambda>c b.
       if \<not> piece_bit (cur_piece g) (cur_rot g) r c then b
       else set_cell (cur_x g + int c) (cur_y g + int r) (of_nat (cur_piece g + 1)) b)) (board g)\<rparr>"

definition row_full :: "u8 list \<Rightarrow> bool" where
  "row_full row = list_all (\<lambda>c. row ! c \<noteq> 0) [0..<BOARD_W]"

text \<open>Rows \<open>r, \<dots>, 1\<close> take the row above them, row 0 is emptied.\<close>

definition drop_rows :: "nat \<Rightarrow> board \<Rightarrow> board" where
  "drop_rows r b = (fold (\<lambda>rr b. b[rr := b ! (rr - 1)]) (rev [1..<Suc r]) b)[0 := replicate BOARD_W 0]"

text \<open>The loop of \<^verbatim>\<open>clear_lines\<close> with \<open>r = n - 1\<close>.\<close>

partial_function (option) clear_loop :: "nat \<Rightarrow> nat \<Rightarrow> board \<Rightarrow> (nat \<times> board) option" where
  "clear_loop n cleared b =
     (if n = 0 then Some (cleared, b)
      else if row_full (b ! (n - 1)) then clear_loop n (cleared + 1) (drop_rows (n - 1) b)
      else clear_loop (n - 1) cleared b)"

definition clear_lines :: "board \<Rightarrow> (nat \<times> board) option" where
  "clear_lines b = clear_loop BOARD_H 0 b"

definition spawn_piece :: "tetris_state \<Rightarrow> tetris_state" where
  "spawn_piece g =
     (case rng_piece (tet_rng g) of
        (p, r) \<Rightarrow>
          let g1 = g\<lparr>cur_piece := next_piece g, next_piece := p, tet_rng := r, cur_rot := 0,
                     cur_x := int BOARD_W div 2 - 2, cur_y := -1\<rparr>
          in if \<not> fits (board g1) (cur_piece g1) (cur_rot g1) (cur_x g1) (cur_y g1) then g1\<lparr>tet_over := True\<rparr> else g1)"

definition tetris_init :: "u64 \<Rightarrow> u64 \<Rightarrow> tetris_state \<Rightarrow> tetris_state" where
  "tetris_init now now' g =
     (let g1 = g\<lparr>tet_rng := ucast now, board := replicate BOARD_H (replicate BOARD_W 0), tet_score := 0, level := 1,
                 lines_cleared := 0, tet_over := False, drop_interval := 50\<rparr>
      in case rng_piece (tet_rng g1) of
           (p, r) \<Rightarrow> (spawn_piece (g1\<lparr>next_piece := p, tet_rng := r\<rparr>))\<lparr>last_drop := now'\<rparr>)"

text \<open>\<^verbatim>\<open>while (fits(..., y + 1)) y++;\<close>\<close>

partial_function (option) hard_drop :: "board \<Rightarrow> nat \<Rightarrow> nat \<Rightarrow> int \<Rightarrow> int \<Rightarrow> int option" where
  "hard_drop b piece rot x y = (if fits b piece rot x (y + 1) then hard_drop b piece rot x (y + 1) else Some y)"

definition tetris_key :: "int \<Rightarrow> tetris_state \<Rightarrow> tetris_state option" where
  "tetris_key key g =
     (let ok = fits (board g) (cur_piece g)
      in if tet_over g then Some g
         else if key = KEY_LEFT \<and> ok (cur_rot g) (cur_x g - 1) (cur_y g) then Some (g\<lparr>cur_x := cur_x g - 1\<rparr>)
         else if key = KEY_RIGHT \<and> ok (cur_rot g) (cur_x g + 1) (cur_y g) then Some (g\<lparr>cur_x := cur_x g + 1\<rparr>)
         else if key = KEY_DOWN \<and> ok (cur_rot g) (cur_x g) (cur_y g + 1) then Some (g\<lparr>cur_y := cur_y g + 1\<rparr>)
         else if key = KEY_UP then
           (let new_rot = (cur_rot g + 1) mod 4
            in if ok new_rot (cur_x g) (cur_y g) then Some (g\<lparr>cur_rot := new_rot\<rparr>) else Some g)
         else if key = KEY_SPACE then
           map_option (\<lambda>y. g\<lparr>cur_y := y\<rparr>) (hard_drop (board g) (cur_piece g) (cur_rot g) (cur_x g) (cur_y g))
         else Some g)"

definition scores :: "int list" where
  "scores = [0, 100, 300, 500, 800]"

definition add_score :: "nat \<Rightarrow> tetris_state \<Rightarrow> tetris_state option" where
  "add_score cl g =
     (if cl > 0 then
        if cl < length scores then
          let g1 = g\<lparr>tet_score := tet_score g + scores ! cl * level g, lines_cleared := lines_cleared g + int cl\<rparr>;
              g2 = g1\<lparr>level := 1 + lines_cleared g1 div 10\<rparr>;
              d = 50 - (level g2 - 1) * 4
          in Some (g2\<lparr>drop_interval := if d < 8 then 8 else d\<rparr>)
        else None
      else Some g)"

definition tetris_tick :: "u64 \<Rightarrow> tetris_state \<Rightarrow> (bool \<times> tetris_state) option" where
  "tetris_tick now g =
     (if tet_over g then Some (False, g)
      else if elapsed now (last_drop g) < drop_interval g then Some (False, g)
      else
        let g1 = g\<lparr>last_drop := now\<rparr>
        in if fits (board g1) (cur_piece g1) (cur_rot g1) (cur_x g1) (cur_y g1 + 1)
           then Some (True, g1\<lparr>cur_y := cur_y g1 + 1\<rparr>)
           else
             let g2 = lock_piece g1
             in case clear_lines (board g2) of
                  None \<Rightarrow> None
                | Some (cl, b) \<Rightarrow>
                    (case add_score cl (g2\<lparr>board := b\<rparr>) of None \<Rightarrow> None | Some g3 \<Rightarrow> Some (True, spawn_piece g3)))"

definition draw_cell :: "int \<Rightarrow> int \<Rightarrow> int \<Rightarrow> int \<Rightarrow> u32 \<Rightarrow> 'a gpu_state_scheme \<Rightarrow> 'a gpu_state_scheme" where
  "draw_cell board_x board_y c r col =
     gpu_fill_rect (board_x + c * CELL_SIZE + 1) (board_y + r * CELL_SIZE + 1) (CELL_SIZE - 2) (CELL_SIZE - 2) col"

definition tetris_draw :: "tetris_state \<Rightarrow> 'a gpu_state_scheme \<Rightarrow> 'a gpu_state_scheme" where
  "tetris_draw g s =
     (let tw = gpu_target_w s; th = gpu_target_h s;
          board_x = (tw - int BOARD_W * CELL_SIZE) sdiv 2; board_y = 20;
          s1 = gpu_clear COLOR_BLACK s;
          s2 = gpu_draw_rect (board_x - 1) (board_y - 1) (int BOARD_W * CELL_SIZE + 2) (int BOARD_H * CELL_SIZE + 2) COLOR_GRAY s1;
          s3 = for_loop 0 BOARD_H (\<lambda>r. for_loop 0 BOARD_W (\<lambda>c s.
                 if board g ! r ! c \<noteq> 0
                 then draw_cell board_x board_y (int c) (int r) (piece_colors ! (unat (board g ! r ! c) - 1)) s else s)) s2;
          s4 = (if \<not> tet_over g
                then for_loop 0 4 (\<lambda>r. for_loop 0 4 (\<lambda>c s.
                       if \<not> piece_bit (cur_piece g) (cur_rot g) r c then s
                       else if cur_y g + int r \<ge> 0
                            then draw_cell board_x board_y (cur_x g + int c) (cur_y g + int r) (piece_colors ! cur_piece g) s
                            else s)) s3
                else s3);
          nx_x = board_x + int BOARD_W * CELL_SIZE + 20; nx_y = board_y + 20;
          s5 = gpu_draw_string nx_x (nx_y - 20) ''Next:'' COLOR_WHITE COLOR_BLACK s4;
          s6 = for_loop 0 4 (\<lambda>r. for_loop 0 4 (\<lambda>c s.
                 if piece_bit (next_piece g) 0 r c
                 then gpu_fill_rect (nx_x + int c * 12) (nx_y + int r * 12) 10 10 (piece_colors ! next_piece g) s else s)) s5;
          info_x = board_x + int BOARD_W * CELL_SIZE + 20;
          s7 = gpu_draw_string info_x (board_y + 120) ''Score:'' COLOR_WHITE COLOR_BLACK s6;
          s8 = gpu_draw_int info_x (board_y + 140) (tet_score g) COLOR_YELLOW COLOR_BLACK s7;
          s9 = gpu_draw_string info_x (board_y + 170) ''Level:'' COLOR_WHITE COLOR_BLACK s8;
          s10 = gpu_draw_int info_x (board_y + 190) (level g) COLOR_YELLOW COLOR_BLACK s9;
          s11 = gpu_draw_string info_x (board_y + 220) ''Lines:'' COLOR_WHITE COLOR_BLACK s10;
          s12 = gpu_draw_int info_x (board_y + 240) (lines_cleared g) COLOR_YELLOW COLOR_BLACK s11
      in if tet_over g
         then let gx = (tw - 9 * FONT_WIDTH) sdiv 2; gy = th sdiv 2 - 8;
                  s13 = gpu_fill_rect (gx - 16) (gy - 8) (9 * FONT_WIDTH + 32) (FONT_HEIGHT + 16) COLOR_DKRED s12
              in gpu_draw_string gx gy ''GAME OVER'' COLOR_WHITE COLOR_DKRED s13
         else s12)"

section \<open>Clearing full rows\<close>

definition board_ok :: "board \<Rightarrow> bool" where
  "board_ok b \<longleftrightarrow> length b = BOARD_H \<and> (\<forall>row \<in> set b. length row = BOARD_W \<and> (\<forall>v \<in> set row. v \<le> 7))"

abbreviation empty_row :: "u8 list" where "empty_row \<equiv> replicate BOARD_W 0"

lemma empty_row_not_full [simp]: "\<not> row_full empty_row"
  by (auto simp: row_full_def BOARD_W_def list_all_iff intro!: exI [of _ 0])

lemma shift_rows:
  "r < length b \<Longrightarrow> fold (\<lambda>rr b. b[rr := b ! (rr - 1)]) (rev [1..<Suc r]) b = take 1 b @ take r b @ drop (Suc r) b"
proof (induction r arbitrary: b)
  case 0 then show ?case by (cases b) auto
next
  case (Suc r)
  let ?b = "b[Suc r := b ! r]"
  have "fold (\<lambda>rr b. b[rr := b ! (rr - 1)]) (rev [1..<Suc (Suc r)]) b = fold (\<lambda>rr b. b[rr := b ! (rr - 1)]) (rev [1..<Suc r]) ?b"
    by simp
  also have "\<dots> = take 1 ?b @ take r ?b @ drop (Suc r) ?b" using Suc by simp
  also have "\<dots> = take 1 b @ take r b @ b ! r # drop (Suc (Suc r)) b"
    using Suc.prems by (simp add: drop_update_swap Cons_nth_drop_Suc [symmetric])
  also have "\<dots> = take 1 b @ take (Suc r) b @ drop (Suc (Suc r)) b" using Suc.prems by (simp add: take_Suc_conv_app_nth)
  finally show ?case .
qed

lemma drop_rows_eq: "r < length b \<Longrightarrow> drop_rows r b = empty_row # take r b @ drop (Suc r) b"
  unfolding drop_rows_def by (subst shift_rows) (cases b; simp)+

text \<open>The rows below \<open>n\<close> hold no full row any more, those above are still to be looked at.\<close>

lemma clear_loop_eq:
  assumes "n \<le> length b" and "\<forall>row \<in> set (drop n b). \<not> row_full row"
  shows "clear_loop n k b = Some (k + length (filter row_full b), replicate (length (filter row_full b)) empty_row @ filter (\<lambda>r. \<not> row_full r) b)"
  using assms
proof (induction "n + length (filter row_full b)" arbitrary: n k b rule: less_induct)
  case less
  show ?case
  proof (cases n)
    case 0
    then have "filter row_full b = []" "filter (\<lambda>r. \<not> row_full r) b = b" using less.prems by (auto simp: filter_empty_conv filter_id_conv)
    then show ?thesis using 0 by (simp add: clear_loop.simps [of 0 k b])
  next
    case (Suc r)
    have b: "b = take r b @ b ! r # drop (Suc r) b" using Suc less.prems(1) by (simp add: id_take_nth_drop)
    have rest: "filter row_full (drop (Suc r) b) = []" using less.prems(2) Suc by (auto simp: filter_empty_conv)
    show ?thesis
    proof (cases "row_full (b ! r)")
      case False
      have "\<forall>row \<in> set (drop r b). \<not> row_full row" using less.prems Suc False by (simp add: Cons_nth_drop_Suc [symmetric])
      then show ?thesis using less.hyps [of r b k] less.prems Suc False by (simp add: clear_loop.simps [of "Suc r" k b])
    next
      case True
      let ?b = "empty_row # take r b @ drop (Suc r) b"
      have f: "filter row_full ?b = filter row_full (take r b)" "filter row_full b = filter row_full (take r b) @ [b ! r]"
        using rest True by (simp, subst b) simp
      have g: "filter (\<lambda>r. \<not> row_full r) ?b = empty_row # filter (\<lambda>r. \<not> row_full r) b"
        using True by (subst (3) b) simp
      have "clear_loop n (k + 1) ?b = Some (k + 1 + length (filter row_full ?b), replicate (length (filter row_full ?b)) empty_row @ filter (\<lambda>r. \<not> row_full r) ?b)"
        by (rule less.hyps) (use less.prems Suc f rest in \<open>auto simp: filter_empty_conv\<close>)
      then show ?thesis
        using True Suc less.prems(1) f g by (simp add: clear_loop.simps [of "Suc r" k b] drop_rows_eq replicate_app_Cons_same)
    qed
  qed
qed

text \<open>
  C35. \<^verbatim>\<open>clear_lines\<close> ends, returns the number of full rows, and leaves the other rows in
  their order at the bottom of the board with that many empty rows on top.
\<close>

theorem clear_lines_removes_full_rows:
  assumes "board_ok b"
  shows "clear_lines b = Some (length (filter row_full b), replicate (length (filter row_full b)) empty_row @ filter (\<lambda>r. \<not> row_full r) b)"
  using clear_loop_eq [of BOARD_H b 0] assms by (simp add: clear_lines_def board_ok_def)

theorem clear_lines_removes_full_rows_witness:
  "clear_lines (replicate 17 empty_row @ [replicate 10 3, 5 # replicate 9 0, replicate 10 2]) =
     Some (2, replicate 19 empty_row @ [5 # replicate 9 0])"
proof -
  let ?b = "replicate 17 empty_row @ [replicate 10 3, 5 # replicate 9 0, replicate 10 2]"
  have ok: "board_ok ?b" by (auto simp: board_ok_def BOARD_H_def BOARD_W_def)
  have full: "row_full (replicate 10 3)" "row_full (replicate 10 2)" "\<not> row_full (5 # replicate 9 0)"
    by (auto simp: row_full_def BOARD_W_def list_all_iff intro!: bexI [of _ 1])
  moreover have "filter row_full ?b = [replicate 10 3, replicate 10 2]" "filter (\<lambda>r. \<not> row_full r) ?b = replicate 17 empty_row @ [5 # replicate 9 0]"
    using full by (simp_all add: filter_replicate)
  ultimately show ?thesis using clear_lines_removes_full_rows [OF ok]
    by (simp add: replicate_add [symmetric, of 2 17, simplified] del: replicate_Suc) (simp add: eval_nat_numeral)
qed

section \<open>Pieces\<close>

definition piece_cells :: "nat \<Rightarrow> nat \<Rightarrow> (nat \<times> nat) list" where
  "piece_cells p rot = filter (\<lambda>(r, c). piece_bit p rot r c) (List.product [0..<4] [0..<4])"

lemma four_cells: "p < 7 \<Longrightarrow> rot < 4 \<Longrightarrow> length (piece_cells p rot) = 4"
proof -
  have "\<forall>p \<in> set [0..<7]. \<forall>rot \<in> set [0..<4]. length (piece_cells p rot) = 4" by code_simp
  then show "p < 7 \<Longrightarrow> rot < 4 \<Longrightarrow> length (piece_cells p rot) = 4" by simp
qed

lemma piece_has_cell:
  assumes "p < 7" "rot < 4" obtains r c where "r < 4" "c < 4" "piece_bit p rot r c"
proof -
  have "piece_cells p rot \<noteq> []" using four_cells [OF assms] by auto
  then have "hd (piece_cells p rot) \<in> set (piece_cells p rot)" by (rule hd_in_set)
  moreover obtain r c where "hd (piece_cells p rot) = (r, c)" by fastforce
  ultimately show ?thesis using that by (auto simp: piece_cells_def)
qed

lemma fits_cell: "fits b p rot x y \<Longrightarrow> r < 4 \<Longrightarrow> c < 4 \<Longrightarrow> piece_bit p rot r c \<Longrightarrow> cell_fits b (x + int c) (y + int r)"
  by (auto simp: fits_def list_all_iff)

lemma fits_above_floor:
  assumes "p < 7" "rot < 4" "fits b p rot x y" shows "y < int BOARD_H"
proof -
  obtain r c where "r < 4" "c < 4" "piece_bit p rot r c" by (rule piece_has_cell [OF assms(1,2)])
  then have "cell_fits b (x + int c) (y + int r)" by (rule fits_cell [OF assms(3)])
  then show ?thesis by (simp add: cell_fits_def split: if_splits)
qed

lemma hard_drop_lands:
  assumes "p < 7" "rot < 4"
  shows "\<exists>y'. hard_drop b p rot x y = Some y' \<and> y \<le> y' \<and> \<not> fits b p rot x (y' + 1) \<and> (\<forall>z. y < z \<and> z \<le> y' \<longrightarrow> fits b p rot x z)"
proof (induction "nat (int BOARD_H - y)" arbitrary: y rule: less_induct)
  case less
  show ?case
  proof (cases "fits b p rot x (y + 1)")
    case False then show ?thesis by (intro exI [of _ y]) (auto simp: hard_drop.simps [of b p rot x y])
  next
    case True
    then have "y + 1 < int BOARD_H" by (rule fits_above_floor [OF assms])
    then obtain y' where y': "hard_drop b p rot x (y + 1) = Some y'" "y + 1 \<le> y'" "\<not> fits b p rot x (y' + 1)"
        "\<forall>z. y + 1 < z \<and> z \<le> y' \<longrightarrow> fits b p rot x z" using less [of "y + 1"] by auto
    have "\<forall>z. y < z \<and> z \<le> y' \<longrightarrow> fits b p rot x z" using y'(4) True by (metis add.commute add1_zle_eq order_le_less)
    then show ?thesis using True y' by (intro exI [of _ y']) (simp add: hard_drop.simps [of b p rot x y])
  qed
qed

section \<open>The invariant\<close>

definition tet_inv :: "tetris_state \<Rightarrow> bool" where
  "tet_inv g \<longleftrightarrow>
     board_ok (board g) \<and> (\<forall>row \<in> set (board g). \<not> row_full row) \<and> cur_piece g < 7 \<and> cur_rot g < 4 \<and> next_piece g < 7 \<and>
     0 \<le> tet_score g \<and> 0 \<le> lines_cleared g \<and> level g = 1 + lines_cleared g div 10 \<and>
     8 \<le> drop_interval g \<and> drop_interval g \<le> 50 \<and>
     (\<not> tet_over g \<longrightarrow> fits (board g) (cur_piece g) (cur_rot g) (cur_x g) (cur_y g))"

lemma board_ok_nth: "board_ok b \<Longrightarrow> i < BOARD_H \<Longrightarrow> length (b ! i) = BOARD_W \<and> (\<forall>v \<in> set (b ! i). v \<le> 7)"
  by (auto simp: board_ok_def)

lemma set_cell_ok:
  assumes "board_ok b" and "v \<le> 7"
  shows "board_ok (set_cell bx by v b)" and "int j \<noteq> by \<Longrightarrow> set_cell bx by v b ! j = b ! j"
proof -
  show "board_ok (set_cell bx by v b)"
  proof (cases "by \<ge> 0 \<and> by < int BOARD_H \<and> bx \<ge> 0 \<and> bx < int BOARD_W")
    case True
    let ?row = "(b ! nat by)[nat bx := v]"
    have "length ?row = BOARD_W \<and> (\<forall>v \<in> set ?row. v \<le> 7)"
      using board_ok_nth [OF assms(1), of "nat by"] True assms(2) set_update_subset_insert [of "b ! nat by" "nat bx" v] by auto
    then have "board_ok (b[nat by := ?row])"
      using assms(1) by (auto simp: board_ok_def dest!: set_update_subset_insert [THEN subsetD])
    then show ?thesis using True by (simp add: set_cell_def)
  qed (use assms in \<open>auto simp: set_cell_def\<close>)
  show "int j \<noteq> by \<Longrightarrow> set_cell bx by v b ! j = b ! j" by (auto simp: set_cell_def)
qed

lemma lock_piece_board:
  assumes "board_ok (board g)" and "cur_piece g < 7"
  shows "board_ok (board (lock_piece g))"
    and "\<not> (cur_y g \<le> int j \<and> int j < cur_y g + 4) \<Longrightarrow> board (lock_piece g) ! j = board g ! j"
proof -
  let ?v = "of_nat (cur_piece g + 1) :: u8"
  have v: "?v \<le> 7"
  proof -
    have "unat ?v = cur_piece g + 1" using assms(2) by (intro unat_of_nat_small) simp
    then show ?thesis using assms(2) by (simp add: word_le_nat_alt del: of_nat_add of_nat_Suc)
  qed
  define P where "P b \<longleftrightarrow> board_ok b \<and> (\<forall>j. \<not> (cur_y g \<le> int j \<and> int j < cur_y g + 4) \<longrightarrow> b ! j = board g ! j)" for b
  let ?F = "\<lambda>r c b. if \<not> piece_bit (cur_piece g) (cur_rot g) r c then b else set_cell (cur_x g + int c) (cur_y g + int r) ?v b"
  have inner: "P (?F r c b)" if "r < 4" "P b" for r c b
    using that set_cell_ok [OF _ v] by (auto simp: P_def)
  have "P (for_loop 0 4 (\<lambda>r. for_loop 0 4 (?F r)) (board g))"
  proof (rule for_loop_inv [where P = "\<lambda>_. P"])
    show "P (board g)" using assms(1) by (simp add: P_def)
    show "P (for_loop 0 4 (?F r) b)" if "0 \<le> r" "r < 4" "P b" for r b
      by (rule for_loop_inv [where P = "\<lambda>_. P"]) (use that inner in auto)
  qed simp
  then show "board_ok (board (lock_piece g))"
    and "\<not> (cur_y g \<le> int j \<and> int j < cur_y g + 4) \<Longrightarrow> board (lock_piece g) ! j = board g ! j"
    by (simp_all add: lock_piece_def P_def)
qed

lemma few_full_rows:
  assumes inv: "board_ok (board g)" "\<forall>row \<in> set (board g). \<not> row_full row" and p: "cur_piece g < 7"
  shows "length (filter row_full (board (lock_piece g))) \<le> 4"
proof -
  let ?b = "board (lock_piece g)"
  have len: "length ?b = length (board g)" using lock_piece_board(1) [OF inv(1) p] inv(1) by (simp add: board_ok_def)
  have "{i. i < length ?b \<and> row_full (?b ! i)} \<subseteq> nat ` {cur_y g..cur_y g + 3}"
  proof
    fix i assume i: "i \<in> {i. i < length ?b \<and> row_full (?b ! i)}"
    have "\<not> row_full (board g ! i)" using inv(2) i len by simp
    moreover have "row_full (?b ! i)" using i by simp
    ultimately have "?b ! i \<noteq> board g ! i" by metis
    then have "cur_y g \<le> int i \<and> int i < cur_y g + 4" using lock_piece_board(2) [OF inv(1) p] by blast
    then show "i \<in> nat ` {cur_y g..cur_y g + 3}" by (intro image_eqI [of _ _ "int i"]) auto
  qed
  then have "card {i. i < length ?b \<and> row_full (?b ! i)} \<le> card (nat ` {cur_y g..cur_y g + 3})" by (rule card_mono [rotated]) simp
  also have "\<dots> \<le> card {cur_y g..cur_y g + 3}" by (rule card_image_le) simp
  finally show ?thesis by (simp add: length_filter_conv_card)
qed

lemma cleared_board:
  assumes "board_ok b"
  shows "board_ok (replicate (length (filter row_full b)) empty_row @ filter (\<lambda>r. \<not> row_full r) b)"
  using assms sum_length_filter_compl [of row_full b] by (auto simp: board_ok_def)

lemma clear_lines_ok:
  "board_ok b \<Longrightarrow> clear_lines b = Some (length (filter row_full b), replicate (length (filter row_full b)) empty_row @ filter (\<lambda>r. \<not> row_full r) b)"
  using clear_loop_eq [of BOARD_H b 0] by (simp add: clear_lines_def board_ok_def)

text \<open>What is left of the invariant while there is no falling piece.\<close>

definition between_pieces :: "tetris_state \<Rightarrow> bool" where
  "between_pieces g \<longleftrightarrow>
     board_ok (board g) \<and> (\<forall>row \<in> set (board g). \<not> row_full row) \<and> next_piece g < 7 \<and> 0 \<le> tet_score g \<and> 0 \<le> lines_cleared g \<and>
     level g = 1 + lines_cleared g div 10 \<and> 8 \<le> drop_interval g \<and> drop_interval g \<le> 50"

lemma spawn_piece_inv: "between_pieces g \<Longrightarrow> tet_inv (spawn_piece g)"
  by (auto simp: spawn_piece_def rng_piece_def Let_def tet_inv_def between_pieces_def)

lemma add_score_ok:
  assumes "between_pieces g" and "cl \<le> 4"
  shows "\<exists>g'. add_score cl g = Some g' \<and> between_pieces g' \<and> board g' = board g"
proof (cases "cl = 0")
  case True then show ?thesis using assms by (simp add: add_score_def)
next
  case False
  have s: "0 \<le> scores ! cl" using assms(2) by (cases cl; simp add: scores_def nth_Cons') 
  have l: "1 \<le> level g" using assms(1) by (simp add: between_pieces_def pos_imp_zdiv_nonneg_iff)
  have "0 \<le> (lines_cleared g + int cl) div 10" using assms(1) by (simp add: between_pieces_def pos_imp_zdiv_nonneg_iff)
  then show ?thesis
    using False assms s l mult_nonneg_nonneg [OF s, of "level g"]
    by (auto simp: add_score_def Let_def between_pieces_def scores_def)
qed

lemma tetris_init_inv: "tet_inv (tetris_init now now' g)"
proof -
  have b: "board_ok (replicate BOARD_H empty_row)" by (auto simp: board_ok_def)
  obtain p r where pr: "rng_piece (ucast now) = (p, r)" by fastforce
  then have p: "p < 7" by (auto simp: rng_piece_def Let_def)
  let ?g = "g\<lparr>board := replicate BOARD_H empty_row, tet_score := 0, level := 1,
                 lines_cleared := 0, tet_over := False, drop_interval := 50, next_piece := p, tet_rng := r\<rparr>"
  have "between_pieces ?g" using b p by (auto simp: between_pieces_def)
  then have "tet_inv ((spawn_piece ?g)\<lparr>last_drop := now'\<rparr>)" using spawn_piece_inv [of ?g] by (simp add: tet_inv_def)
  then show ?thesis by (simp add: tetris_init_def pr)
qed

lemma tetris_tick_inv:
  assumes inv: "tet_inv g"
  shows "\<exists>moved g'. tetris_tick now g = Some (moved, g') \<and> tet_inv g'"
proof (cases "tet_over g \<or> elapsed now (last_drop g) < drop_interval g")
  case True then show ?thesis using inv by (auto simp: tetris_tick_def)
next
  case False
  let ?g1 = "g\<lparr>last_drop := now\<rparr>"
  show ?thesis
  proof (cases "fits (board g) (cur_piece g) (cur_rot g) (cur_x g) (cur_y g + 1)")
    case True then show ?thesis using False inv by (auto simp: tetris_tick_def Let_def tet_inv_def)
  next
    case nofit: False
    let ?b = "board (lock_piece ?g1)"
    have g1: "board_ok (board ?g1)" "\<forall>row \<in> set (board ?g1). \<not> row_full row" "cur_piece ?g1 < 7" using inv by (simp_all add: tet_inv_def)
    have b: "board_ok ?b" by (rule lock_piece_board(1) [OF g1(1,3)])
    note c = clear_lines_ok [OF b] and few = few_full_rows [OF g1]
    let ?c = "replicate (length (filter row_full ?b)) empty_row @ filter (\<lambda>r. \<not> row_full r) ?b"
    have "between_pieces ((lock_piece ?g1)\<lparr>board := ?c\<rparr>)"
      using inv cleared_board [OF b] by (auto simp: between_pieces_def tet_inv_def lock_piece_def)
    from add_score_ok [OF this few] obtain g3 where
      "add_score (length (filter row_full ?b)) ((lock_piece ?g1)\<lparr>board := ?c\<rparr>) = Some g3" "between_pieces g3" by blast
    then show ?thesis using False nofit c spawn_piece_inv [of g3]
      by (intro exI [of _ True] exI [of _ "spawn_piece g3"]) (simp add: tetris_tick_def Let_def)
  qed
qed

lemma tetris_key_inv:
  assumes inv: "tet_inv g"
  shows "\<exists>g'. tetris_key key g = Some g' \<and> tet_inv g'"
proof -
  have p: "cur_piece g < 7" "cur_rot g < 4" using inv by (simp_all add: tet_inv_def)
  obtain y' where y': "hard_drop (board g) (cur_piece g) (cur_rot g) (cur_x g) (cur_y g) = Some y'" "cur_y g \<le> y'"
      "\<forall>z. cur_y g < z \<and> z \<le> y' \<longrightarrow> fits (board g) (cur_piece g) (cur_rot g) (cur_x g) z"
    using hard_drop_lands [OF p] by blast
  have "fits (board g) (cur_piece g) (cur_rot g) (cur_x g) y'" if "\<not> tet_over g"
    using y'(2,3) inv that by (cases "cur_y g = y'") (auto simp: tet_inv_def)
  then show ?thesis using inv y'(1) by (simp add: tetris_key_def Let_def tet_inv_def)
qed

section \<open>Properties\<close>

text \<open>
  From the start of a game on, every key and every tick is handled: the loops end, no
  table is read outside its bounds, a landing piece completes at most four rows, and the state
  stays well formed: cells hold 0 to 7, no full row stays on the board, the falling piece lies on free
  cells, the level follows the cleared lines and the speed stays within 8 to 50 ticks.
\<close>

theorem tetris_steps_safe:
  shows "tet_inv (tetris_init now now' g0) \<and>
         (tet_inv g \<longrightarrow> (\<exists>g'. tetris_key key g = Some g' \<and> tet_inv g') \<and> (\<exists>moved g'. tetris_tick now g = Some (moved, g') \<and> tet_inv g'))"
  using tetris_init_inv tetris_tick_inv tetris_key_inv by blast

definition tet_zero :: tetris_state where
  "tet_zero = \<lparr>tet_rng = 0, board = [], cur_piece = 0, cur_rot = 0, cur_x = 0, cur_y = 0, next_piece = 0, tet_score = 0, level = 0,
     lines_cleared = 0, tet_over = False, last_drop = 0, drop_interval = 0\<rparr>"

theorem tetris_steps_safe_witness:
  "\<exists>g'. tetris_key KEY_SPACE (tetris_init 7 7 tet_zero) = Some g' \<and> tet_inv g'"
  using tetris_steps_safe [of 7 7 tet_zero] tetris_steps_safe [of _ _ _ "tetris_init 7 7 tet_zero" KEY_SPACE] by blast

text \<open>
  C36. The drop key moves the piece down column-wise to where it cannot fall further,
  through free positions only, and leaves everything else alone.
\<close>

theorem tetris_drop_lands:
  assumes "tet_inv g" and "\<not> tet_over g"
  shows "\<exists>y. tetris_key KEY_SPACE g = Some (g\<lparr>cur_y := y\<rparr>) \<and> cur_y g \<le> y \<and>
             \<not> fits (board g) (cur_piece g) (cur_rot g) (cur_x g) (y + 1) \<and>
             (\<forall>z. cur_y g \<le> z \<and> z \<le> y \<longrightarrow> fits (board g) (cur_piece g) (cur_rot g) (cur_x g) z)"
proof -
  have p: "cur_piece g < 7" "cur_rot g < 4" and f: "fits (board g) (cur_piece g) (cur_rot g) (cur_x g) (cur_y g)"
    using assms by (simp_all add: tet_inv_def)
  obtain y where y: "hard_drop (board g) (cur_piece g) (cur_rot g) (cur_x g) (cur_y g) = Some y" "cur_y g \<le> y"
      "\<not> fits (board g) (cur_piece g) (cur_rot g) (cur_x g) (y + 1)"
      "\<forall>z. cur_y g < z \<and> z \<le> y \<longrightarrow> fits (board g) (cur_piece g) (cur_rot g) (cur_x g) z"
    using hard_drop_lands [OF p] by blast
  have "\<forall>z. cur_y g \<le> z \<and> z \<le> y \<longrightarrow> fits (board g) (cur_piece g) (cur_rot g) (cur_x g) z"
    using y(4) f by (metis order_le_less)
  then show ?thesis
    using assms(2) y by (intro exI [of _ y]) (simp add: tetris_key_def Let_def KEY_SPACE_def KEY_LEFT_def KEY_RIGHT_def KEY_DOWN_def KEY_UP_def)
qed

lemma tetris_starts: "\<not> tet_over (tetris_init now now' g)"
proof -
  have "cell_fits (replicate BOARD_H empty_row) (3 + int c) (int r - 1)" if "r < 4" "c < 4" for r c
    using that by (auto simp: cell_fits_def BOARD_W_def BOARD_H_def)
  then have "fits (replicate BOARD_H empty_row) p rot (int BOARD_W div 2 - 2) (-1)" for p rot
    by (auto simp: fits_def list_all_iff BOARD_W_def)
  then show ?thesis by (simp add: tetris_init_def spawn_piece_def rng_piece_def Let_def)
qed

theorem tetris_drop_lands_witness:
  "\<exists>g y. tet_inv g \<and> tetris_key KEY_SPACE g = Some (g\<lparr>cur_y := y\<rparr>) \<and> \<not> fits (board g) (cur_piece g) (cur_rot g) (cur_x g) (y + 1)"
  using tetris_drop_lands [OF tetris_init_inv tetris_starts] tetris_init_inv by blast

text \<open>Shapes up to position: the cells relative to the top left corner of their bounding box, and a quarter turn.\<close>

definition shape :: "(nat \<times> nat) list \<Rightarrow> (nat \<times> nat) set" where
  "shape cs = (let top = foldr min (map fst cs) 3; left = foldr min (map snd cs) 3 in set (map (\<lambda>(r, c). (r - top, c - left)) cs))"

definition turned :: "(nat \<times> nat) list \<Rightarrow> (nat \<times> nat) list" where
  "turned cs = map (\<lambda>(r, c). (c, 3 - r)) cs"

text \<open>
  The rotation table turns the first five pieces by a quarter turn each time. The third turn of
  the sixth piece (L) yields the second position of the seventh (J) instead, and the third turn of J yields
  the second position of L: a player who rotates an L three times holds a J.
\<close>

theorem tetris_L_turns_into_J:
  "list_all (\<lambda>p. list_all (\<lambda>rot. shape (turned (piece_cells p rot)) = shape (piece_cells p ((rot + 1) mod 4))) [0..<4]) [0..<5] \<and>
   shape (piece_cells 5 3) = shape (piece_cells 6 1) \<and> shape (piece_cells 6 3) = shape (piece_cells 5 1) \<and>
   shape (turned (piece_cells 5 2)) \<noteq> shape (piece_cells 5 3)"
  by code_simp

text \<open>
  \<^verbatim>\<open>tetris_draw\<close> only paints on the current target: whatever the state of the game and
  the size of the window, no store falls outside the window's buffer and no other buffer changes.
\<close>

theorem tetris_draw_confined:
  assumes "target_ok s"
  shows "draws s (tetris_draw g s) \<and> fault (tetris_draw g s) = fault s \<and>
         (\<forall>b. b \<noteq> cur_buf s \<longrightarrow> pixels (tetris_draw g s) b = pixels s b)"
proof -
  have "draws s (tetris_draw g s)"
    unfolding tetris_draw_def draw_cell_def Let_def by (intro draws_intros assms)
  then show ?thesis using drawsD(7,9) by blast
qed

theorem tetris_draw_confined_witness:
  "\<exists>s :: gpu_state. target_ok s \<and> cur_w s = 3 \<and> fault (tetris_draw (tetris_init 7 7 tet_zero) s) = fault s"
proof -
  define s :: gpu_state where
    "s = \<lparr>page_bitmap = [], total_pages = 0, used_pages = 0, mem = (\<lambda>_. 0), frontbuf = 0, backbuf = 0, cur_buf = 0x40100000,
          cur_w = 3, cur_h = 2, pixels = (\<lambda>_. replicate 6 0), fault = False\<rparr>"
  have "target_ok s" by (simp add: s_def target_ok_def)
  from tetris_draw_confined [OF this] this show ?thesis by (intro exI [of _ s]) (auto simp: s_def)
qed

end
