(* ===== verification/Snake.thy ===== *)
theory Snake
  imports Tetris
begin

text \<open>
  The game of Snake (\<^verbatim>\<open>games/snake.c\<close>): the arrays of the body's cells with the head first, food,
  keys, ticks and drawing. The results of \<^verbatim>\<open>timer_get_ticks\<close> are arguments.
\<close>

section \<open>State\<close>

definition GRID_W :: nat where "GRID_W = 38"
definition GRID_H :: nat where "GRID_H = 28"
definition CELL :: int where "CELL = 16"
definition MAX_SNAKE :: nat where "MAX_SNAKE = GRID_W * GRID_H"

datatype direction = DIR_UP | DIR_DOWN | DIR_LEFT | DIR_RIGHT

record snake_state =
  snk_rng :: u32
  snake_x :: "int list"
  snake_y :: "int list"
  snake_len :: nat
  dir :: direction
  food_x :: int
  food_y :: int
  snk_score :: int
  snk_over :: bool
  last_tick :: u64
  tick_interval :: int

section \<open>Operations\<close>

definition rng_next :: "u32 \<Rightarrow> nat \<times> u32" where
  "rng_next r = (let r' = r * 1103515245 + 12345 in (unat (drop_bit 16 r' AND 0x7FFF), r'))"

text \<open>The scan of the body for a cell.\<close>

definition on_snake :: "int \<Rightarrow> int \<Rightarrow> snake_state \<Rightarrow> bool" where
  "on_snake x y g = list_ex (\<lambda>i. snake_x g ! i = x \<and> snake_y g ! i = y) [0..<snake_len g]"

primrec food_attempts :: "nat \<Rightarrow> snake_state \<Rightarrow> snake_state" where
  "food_attempts 0 g = g"
| "food_attempts (Suc n) g =
     (let (a, r1) = rng_next (snk_rng g); (b, r2) = rng_next r1;
          fx = int (a mod GRID_W); fy = int (b mod GRID_H); g1 = g\<lparr>snk_rng := r2\<rparr>
      in if \<not> on_snake fx fy g1 then g1\<lparr>food_x := fx, food_y := fy\<rparr> else food_attempts n g1)"

definition place_food :: "snake_state \<Rightarrow> snake_state" where
  "place_food g = food_attempts 1000 g"

definition snake_init :: "u64 \<Rightarrow> u64 \<Rightarrow> snake_state \<Rightarrow> snake_state" where
  "snake_init now now' g =
     (let g1 = g\<lparr>snk_rng := ucast now, snake_len := 3\<rparr>;
          g2 = for_loop 0 (snake_len g1) (\<lambda>i g. g\<lparr>snake_x := (snake_x g)[i := int (GRID_W div 2) - int i],
                                                snake_y := (snake_y g)[i := int (GRID_H div 2)]\<rparr>) g1
      in place_food (g2\<lparr>dir := DIR_RIGHT, snk_score := 0, snk_over := False, tick_interval := 12, last_tick := now'\<rparr>))"

definition snake_key :: "int \<Rightarrow> snake_state \<Rightarrow> snake_state" where
  "snake_key key g =
     (if \<not> snk_over g then
        let g1 = (if key = KEY_UP \<and> dir g \<noteq> DIR_DOWN then g\<lparr>dir := DIR_UP\<rparr> else g);
            g2 = (if key = KEY_DOWN \<and> dir g1 \<noteq> DIR_UP then g1\<lparr>dir := DIR_DOWN\<rparr> else g1);
            g3 = (if key = KEY_LEFT \<and> dir g2 \<noteq> DIR_RIGHT then g2\<lparr>dir := DIR_LEFT\<rparr> else g2)
        in (if key = KEY_RIGHT \<and> dir g3 \<noteq> DIR_LEFT then g3\<lparr>dir := DIR_RIGHT\<rparr> else g3)
      else g)"

text \<open>\<^verbatim>\<open>for (i = n; i > 0; i--) a[i] = a[i - 1];\<close>\<close>

definition shift_up :: "nat \<Rightarrow> int list \<Rightarrow> int list" where
  "shift_up n a = fold (\<lambda>i a. a[i := a ! (i - 1)]) (rev [1..<Suc n]) a"

definition next_cell :: "snake_state \<Rightarrow> int \<times> int" where
  "next_cell g =
     (let x = snake_x g ! 0; y = snake_y g ! 0
      in case dir g of DIR_UP \<Rightarrow> (x, y - 1) | DIR_DOWN \<Rightarrow> (x, y + 1) | DIR_LEFT \<Rightarrow> (x - 1, y) | DIR_RIGHT \<Rightarrow> (x + 1, y))"

definition snake_tick :: "u64 \<Rightarrow> snake_state \<Rightarrow> bool \<times> snake_state" where
  "snake_tick now g =
     (if snk_over g then (False, g)
      else if elapsed now (last_tick g) < tick_interval g then (False, g)
      else
        let g1 = g\<lparr>last_tick := now\<rparr>; (nx, ny) = next_cell g1
        in if nx < 0 \<or> nx \<ge> int GRID_W \<or> ny < 0 \<or> ny \<ge> int GRID_H then (True, g1\<lparr>snk_over := True\<rparr>)
           else if on_snake nx ny g1 then (True, g1\<lparr>snk_over := True\<rparr>)
           else
             let ate = (nx = food_x g1 \<and> ny = food_y g1);
                 g2 = (if \<not> ate
                       then g1\<lparr>snake_x := shift_up (snake_len g1 - 1) (snake_x g1), snake_y := shift_up (snake_len g1 - 1) (snake_y g1)\<rparr>
                       else
                         let g' = (if snake_len g1 < MAX_SNAKE
                                   then g1\<lparr>snake_x := shift_up (snake_len g1) (snake_x g1), snake_y := shift_up (snake_len g1) (snake_y g1),
                                          snake_len := snake_len g1 + 1\<rparr>
                                   else g1)
                         in place_food (g'\<lparr>snk_score := snk_score g' + 10\<rparr>))
             in (True, g2\<lparr>snake_x := (snake_x g2)[0 := nx], snake_y := (snake_y g2)[0 := ny]\<rparr>))"

definition snake_draw :: "snake_state \<Rightarrow> 'a gpu_state_scheme \<Rightarrow> 'a gpu_state_scheme" where
  "snake_draw g s =
     (let tw = gpu_target_w s; th = gpu_target_h s;
          offset_x = (tw - int GRID_W * CELL) sdiv 2; offset_y = 24;
          s1 = gpu_clear COLOR_BLACK s;
          s2 = gpu_draw_rect (offset_x - 1) (offset_y - 1) (int GRID_W * CELL + 2) (int GRID_H * CELL + 2) COLOR_GRAY s1;
          s3 = gpu_fill_rect (offset_x + food_x g * CELL + 2) (offset_y + food_y g * CELL + 2) (CELL - 4) (CELL - 4) COLOR_RED s2;
          s4 = for_loop 0 (snake_len g) (\<lambda>i.
                 gpu_fill_rect (offset_x + snake_x g ! i * CELL + 1) (offset_y + snake_y g ! i * CELL + 1) (CELL - 2) (CELL - 2)
                   (if i = 0 then COLOR_GREEN else COLOR_DKGREEN)) s3;
          s5 = gpu_draw_string 8 4 ''SNAKE  Score:'' COLOR_WHITE COLOR_BLACK s4;
          s6 = gpu_draw_int (8 + 14 * FONT_WIDTH) 4 (snk_score g) COLOR_YELLOW COLOR_BLACK s5
      in if snk_over g
         then let gx = (tw - 9 * FONT_WIDTH) sdiv 2; gy = th sdiv 2 - 8;
                  s7 = gpu_fill_rect (gx - 16) (gy - 8) (9 * FONT_WIDTH + 32) (FONT_HEIGHT + 16) COLOR_DKRED s6
              in gpu_draw_string gx gy ''GAME OVER'' COLOR_WHITE COLOR_DKRED s7
         else s6)"

section \<open>The body as a list of cells\<close>

definition body :: "snake_state \<Rightarrow> (int \<times> int) list" where
  "body g = zip (take (snake_len g) (snake_x g)) (take (snake_len g) (snake_y g))"

definition grid :: "(int \<times> int) set" where
  "grid = {0..<int GRID_W} \<times> {0..<int GRID_H}"

definition snk_inv :: "snake_state \<Rightarrow> bool" where
  "snk_inv g \<longleftrightarrow>
     length (snake_x g) = MAX_SNAKE \<and> length (snake_y g) = MAX_SNAKE \<and> 0 < snake_len g \<and> snake_len g \<le> MAX_SNAKE \<and>
     distinct (body g) \<and> set (body g) \<subseteq> grid"

lemma length_body: "snk_inv g \<Longrightarrow> length (body g) = snake_len g"
  by (simp add: body_def snk_inv_def)

lemma card_grid: "card grid = MAX_SNAKE" "finite grid"
  by (simp_all add: grid_def MAX_SNAKE_def GRID_W_def GRID_H_def)

lemma on_snake_body:
  assumes "snk_inv g" shows "on_snake x y g \<longleftrightarrow> (x, y) \<in> set (body g)"
proof -
  have "body g ! i = (snake_x g ! i, snake_y g ! i)" if "i < snake_len g" for i
    using that assms by (simp add: body_def snk_inv_def)
  then show ?thesis unfolding on_snake_def in_set_conv_nth length_body [OF assms] by (auto simp: list_ex_iff)
qed

lemma body_room:
  assumes "snk_inv g" and "p \<in> grid" and "p \<notin> set (body g)" shows "snake_len g < MAX_SNAKE"
proof -
  have "card (insert p (set (body g))) \<le> card grid" using assms card_grid(2) by (intro card_mono) (auto simp: snk_inv_def)
  moreover have "card (insert p (set (body g))) = Suc (snake_len g)"
    using assms distinct_card [of "body g"] length_body [OF assms(1)] by (simp add: snk_inv_def)
  ultimately show ?thesis by (simp add: card_grid)
qed

text \<open>Moving the cells up by one and writing the new head.\<close>

lemma shift_up_head: "n < length a \<Longrightarrow> (shift_up n a)[0 := v] = v # take n a @ drop (Suc n) a"
  unfolding shift_up_def by (subst shift_rows) (cases a; simp)+

lemma take_shift_head: "n < length a \<Longrightarrow> take (Suc n) ((shift_up n a)[0 := v]) = v # take n a"
  by (simp add: shift_up_head)

lemma length_shift_up: "n < length a \<Longrightarrow> length (shift_up n a) = length a"
  unfolding shift_up_def by (subst shift_rows) simp_all

lemma food_attempts_frame:
  "snake_x (food_attempts n g) = snake_x g" "snake_y (food_attempts n g) = snake_y g" "snake_len (food_attempts n g) = snake_len g"
  "snk_over (food_attempts n g) = snk_over g" "dir (food_attempts n g) = dir g" "snk_score (food_attempts n g) = snk_score g"
  by (induction n arbitrary: g) (simp_all add: Let_def split: prod.split)

lemma food_attempts_free:
  "food_attempts n g \<noteq> g \<Longrightarrow> food_x (food_attempts n g) \<noteq> food_x g \<or> food_y (food_attempts n g) \<noteq> food_y g \<Longrightarrow>
   \<not> on_snake (food_x (food_attempts n g)) (food_y (food_attempts n g)) g \<and>
   (food_x (food_attempts n g), food_y (food_attempts n g)) \<in> grid"
proof (induction n arbitrary: g)
  case (Suc n)
  obtain a r1 b r2 where ab: "rng_next (snk_rng g) = (a, r1)" "rng_next r1 = (b, r2)" by fastforce
  let ?x = "int (a mod GRID_W)" and ?y = "int (b mod GRID_H)" and ?g = "g\<lparr>snk_rng := r2\<rparr>"
  have on: "on_snake x y ?g = on_snake x y g" for x y by (simp add: on_snake_def)
  have grid: "(?x, ?y) \<in> grid" by (simp add: grid_def GRID_W_def GRID_H_def)
  show ?case
  proof (cases "on_snake ?x ?y ?g")
    case True
    have eq: "food_attempts (Suc n) g = food_attempts n ?g" using ab True by simp
    show ?thesis
      using Suc.IH [of ?g] Suc.prems(2) unfolding eq on by (cases "food_attempts n ?g = ?g") auto
  next
    case False then show ?thesis using ab grid on by (simp add: on_snake_def)
  qed
qed simp

section \<open>Properties\<close>

lemma snake_tick_move:
  assumes inv: "snk_inv g" and run: "\<not> snk_over g" "tick_interval g \<le> elapsed now (last_tick g)"
    and c: "next_cell g = (nx, ny)" "(nx, ny) \<in> grid" "(nx, ny) \<notin> set (body g)"
  shows "body (snd (snake_tick now g)) = (nx, ny) # (if (nx, ny) = (food_x g, food_y g) then body g else butlast (body g))"
    and "length (snake_x (snd (snake_tick now g))) = MAX_SNAKE" and "length (snake_y (snd (snake_tick now g))) = MAX_SNAKE"
    and "snake_len (snd (snake_tick now g)) = (if (nx, ny) = (food_x g, food_y g) then Suc (snake_len g) else snake_len g)"
    and "\<not> snk_over (snd (snake_tick now g))"
proof -
  let ?g1 = "g\<lparr>last_tick := now\<rparr>" and ?t = "snd (snake_tick now g)"
  have room: "snake_len g < MAX_SNAKE" by (rule body_room [OF inv c(2,3)])
  have len: "length (snake_x g) = MAX_SNAKE" "length (snake_y g) = MAX_SNAKE" "0 < snake_len g" using inv by (simp_all add: snk_inv_def)
  have free: "\<not> on_snake nx ny ?g1" using on_snake_body [OF inv] c(3) by (simp add: on_snake_def)
  have cell: "next_cell ?g1 = (nx, ny)" "0 \<le> nx" "nx < int GRID_W" "0 \<le> ny" "ny < int GRID_H"
    using c(1,2) by (simp_all add: next_cell_def grid_def)
  have butlast: "butlast (body g) = zip (take (snake_len g - 1) (snake_x g)) (take (snake_len g - 1) (snake_y g))"
    using len room by (simp add: body_def butlast_conv_take take_zip min_def)
  have "body ?t = (nx, ny) # (if (nx, ny) = (food_x g, food_y g) then body g else butlast (body g)) \<and>
        length (snake_x ?t) = MAX_SNAKE \<and> length (snake_y ?t) = MAX_SNAKE \<and>
        snake_len ?t = (if (nx, ny) = (food_x g, food_y g) then Suc (snake_len g) else snake_len g) \<and> \<not> snk_over ?t"
  proof (cases "nx = food_x g \<and> ny = food_y g")
    case True
    then show ?thesis
      using run free cell room len
      by (simp add: snake_tick_def Let_def place_food_def food_attempts_frame body_def take_shift_head length_shift_up)
  next
    case False
    have "Suc (snake_len g - 1) = snake_len g" "snake_len g - 1 < MAX_SNAKE" using len room by simp_all
    then show ?thesis
      using False run free cell len butlast take_shift_head [of "snake_len g - 1" "snake_x g" nx] take_shift_head [of "snake_len g - 1" "snake_y g" ny]
      by (auto simp: snake_tick_def Let_def body_def length_shift_up)
  qed
  then show "body ?t = (nx, ny) # (if (nx, ny) = (food_x g, food_y g) then body g else butlast (body g))"
    "length (snake_x ?t) = MAX_SNAKE" "length (snake_y ?t) = MAX_SNAKE"
    "snake_len ?t = (if (nx, ny) = (food_x g, food_y g) then Suc (snake_len g) else snake_len g)" "\<not> snk_over ?t" by blast+
qed

lemma snake_tick_blocked:
  assumes inv: "snk_inv g" and run: "\<not> snk_over g" "tick_interval g \<le> elapsed now (last_tick g)" and c: "next_cell g \<notin> grid - set (body g)"
  shows "snake_tick now g = (True, g\<lparr>last_tick := now, snk_over := True\<rparr>)"
proof -
  obtain nx ny where n: "next_cell g = (nx, ny)" by fastforce
  let ?g1 = "g\<lparr>last_tick := now\<rparr>"
  have n1: "next_cell ?g1 = (nx, ny)" using n by (simp add: next_cell_def)
  have on: "on_snake nx ny ?g1 \<longleftrightarrow> (nx, ny) \<in> set (body g)" using on_snake_body [OF inv] by (simp add: on_snake_def)
  show ?thesis using c run n1 on n by (auto simp: snake_tick_def Let_def grid_def)
qed

lemma snake_tick_inv:
  assumes inv: "snk_inv g" shows "snk_inv (snd (snake_tick now g))"
proof (cases "snk_over g \<or> elapsed now (last_tick g) < tick_interval g")
  case True then show ?thesis using inv by (auto simp: snake_tick_def)
next
  case False
  then have run: "\<not> snk_over g" "tick_interval g \<le> elapsed now (last_tick g)" by auto
  show ?thesis
  proof (cases "next_cell g \<in> grid - set (body g)")
    case True
    obtain nx ny where n: "next_cell g = (nx, ny)" by fastforce
    then have c: "(nx, ny) \<in> grid" "(nx, ny) \<notin> set (body g)" using True by auto
    have sub: "set (butlast (body g)) \<subseteq> set (body g)" by (auto dest: in_set_butlastD)
    show ?thesis
      using inv c snake_tick_move [OF inv run n c] body_room [OF inv c] sub unfolding snk_inv_def by (auto simp: distinct_butlast)
  next
    case False
    show ?thesis unfolding snake_tick_blocked [OF inv run False] using inv by (simp add: body_def snk_inv_def)
  qed
qed

lemma snake_key_inv:
  assumes "snk_inv g" shows "snk_inv (snake_key key g)"
proof -
  have "snake_x (snake_key key g) = snake_x g" "snake_y (snake_key key g) = snake_y g" "snake_len (snake_key key g) = snake_len g"
    by (simp_all add: snake_key_def Let_def)
  with assms show ?thesis by (simp add: snk_inv_def body_def)
qed

definition snk_arrays :: "snake_state \<Rightarrow> bool" where
  "snk_arrays g \<longleftrightarrow> length (snake_x g) = MAX_SNAKE \<and> length (snake_y g) = MAX_SNAKE"

lemma take3: "3 \<le> length a \<Longrightarrow> take 3 (a[0 := x, Suc 0 := y, 2 := z]) = [x, y, z]"
  by (cases a rule: list.exhaust; cases "tl a" rule: list.exhaust; cases "tl (tl a)" rule: list.exhaust) (auto simp: eval_nat_numeral)

lemma snake_init_inv:
  assumes "snk_arrays g" shows "snk_inv (snake_init now now' g)"
proof -
  let ?g = "snake_init now now' g"
  have x: "snake_x ?g = (snake_x g)[0 := 19, Suc 0 := 18, 2 := 17]" "snake_y ?g = (snake_y g)[0 := 14, Suc 0 := 14, 2 := 14]" "snake_len ?g = 3"
  proof -
    have three: "[0..<3] = [0, Suc 0, 2]" by (simp add: upt_rec)
    show "snake_x ?g = (snake_x g)[0 := 19, Suc 0 := 18, 2 := 17]" "snake_y ?g = (snake_y g)[0 := 14, Suc 0 := 14, 2 := 14]" "snake_len ?g = 3"
      by (simp_all add: snake_init_def Let_def place_food_def food_attempts_frame for_loop_def three GRID_W_def GRID_H_def)
  qed
  have len: "length (snake_x g) = 1064" "length (snake_y g) = 1064" using assms by (simp_all add: snk_arrays_def MAX_SNAKE_def GRID_W_def GRID_H_def)
  have "body ?g = [(19, 14), (18, 14), (17, 14)]" by (simp add: body_def x take3 len)
  then show ?thesis using len by (simp add: snk_inv_def x MAX_SNAKE_def GRID_W_def GRID_H_def grid_def)
qed

text \<open>
  A tick that is due moves the snake: onto a free cell of the grid it advances by one,
  growing exactly when there was food; towards a wall or its own body it ends the game and
  stays where it is. The body always consists of distinct cells of the grid, and so fits the arrays.
\<close>

theorem snake_tick_moves:
  assumes inv: "snk_inv g" and run: "\<not> snk_over g" "tick_interval g \<le> elapsed now (last_tick g)"
  shows "(if next_cell g \<in> grid - set (body g)
          then body (snd (snake_tick now g)) = next_cell g # (if next_cell g = (food_x g, food_y g) then body g else butlast (body g)) \<and>
               \<not> snk_over (snd (snake_tick now g))
          else body (snd (snake_tick now g)) = body g \<and> snk_over (snd (snake_tick now g))) \<and>
         snk_inv (snd (snake_tick now g))"
proof (cases "next_cell g \<in> grid - set (body g)")
  case True
  obtain nx ny where n: "next_cell g = (nx, ny)" by fastforce
  then have c: "(nx, ny) \<in> grid" "(nx, ny) \<notin> set (body g)" using True by auto
  show ?thesis using True snake_tick_move [OF inv run n c] n snake_tick_inv [OF inv] by simp
next
  case False
  show ?thesis using False snake_tick_blocked [OF inv run False] snake_tick_inv [OF inv, of now] by (simp add: body_def)
qed

text \<open>A snake of three cells heading right, its food in front of it; \<open>r\<close> is the state of the generator.\<close>

definition snake_sample :: "u32 \<Rightarrow> snake_state" where
  "snake_sample r = \<lparr>snk_rng = r, snake_x = [19, 18, 17] @ replicate 1061 0, snake_y = [14, 14, 14] @ replicate 1061 0, snake_len = 3,
     dir = DIR_RIGHT, food_x = 20, food_y = 14, snk_score = 0, snk_over = False, last_tick = 0, tick_interval = 12\<rparr>"

lemma snake_sample_body: "body (snake_sample r) = [(19, 14), (18, 14), (17, 14)]"
  by (simp add: body_def snake_sample_def eval_nat_numeral)

lemma snake_sample_inv: "snk_inv (snake_sample r)"
  by (simp add: snk_inv_def snake_sample_body) (simp add: snake_sample_def MAX_SNAKE_def GRID_W_def GRID_H_def grid_def)

theorem snake_tick_moves_witness:
  "body (snd (snake_tick 12 (snake_sample 1))) = [(20, 14), (19, 14), (18, 14), (17, 14)] \<and> snk_inv (snd (snake_tick 12 (snake_sample 1)))"
proof -
  have n: "next_cell (snake_sample 1) = (20, 14)" by (simp add: next_cell_def snake_sample_def)
  have "snk_over (snake_sample 1) = False" "tick_interval (snake_sample 1) \<le> elapsed 12 (last_tick (snake_sample 1))"
    by (simp_all add: snake_sample_def elapsed_def)
  with snake_tick_moves [OF snake_sample_inv, of 1 12] n snake_sample_body [of 1] show ?thesis
    by (simp add: grid_def GRID_W_def GRID_H_def) (simp add: snake_sample_def)
qed

text \<open>
  \<^verbatim>\<open>place_food\<close> runs before the new head is written to the arrays, so that new food can land
  under the snake's head; here it does, and the food is then hidden by the snake.
\<close>

theorem snake_food_under_head:
  "\<exists>g'. snk_inv (snake_sample 296) \<and> snake_tick 12 (snake_sample 296) = (True, g') \<and> (food_x g', food_y g') = hd (body g')"
proof -
  let ?g = "snake_sample 296"
  have cell: "next_cell (?g\<lparr>last_tick := 12\<rparr>) = (20, 14)" by (simp add: next_cell_def snake_sample_def)
  have on: "\<not> on_snake 20 14 (?g\<lparr>last_tick := 12\<rparr>)"
    by (simp add: on_snake_def snake_sample_def upt_rec [of _ 3] eval_nat_numeral)
  let ?h = "?g\<lparr>last_tick := 12, snake_x := shift_up 3 (snake_x ?g), snake_y := shift_up 3 (snake_y ?g), snake_len := 4, snk_score := 10\<rparr>"
  have sh: "shift_up 3 (snake_x ?g) = [19, 19, 18, 17] @ replicate 1060 0" "shift_up 3 (snake_y ?g) = [14, 14, 14, 14] @ replicate 1060 0"
    by (simp_all add: shift_up_def snake_sample_def eval_nat_numeral)
  have free: "\<not> on_snake 20 14 (?h\<lparr>snk_rng := r\<rparr>)" for r
    unfolding on_snake_def sh by (simp add: upt_rec [of _ 4] eval_nat_numeral)
  obtain a r1 b r2 where ab: "rng_next 296 = (a, r1)" "rng_next r1 = (b, r2)" by fastforce
  have "a mod GRID_W = 20 \<and> b mod GRID_H = 14"
    using ab by (auto simp: rng_next_def Let_def GRID_W_def GRID_H_def)
  then have f: "place_food ?h = ?h\<lparr>snk_rng := r2, food_x := 20, food_y := 14\<rparr>"
    using ab free [of r2] by (simp add: place_food_def eval_nat_numeral) (simp add: snake_sample_def)
  have "snake_tick 12 ?g = (True, (place_food ?h)\<lparr>snake_x := (snake_x (place_food ?h))[0 := 20], snake_y := (snake_y (place_food ?h))[0 := 14]\<rparr>)"
    using cell on by (simp add: snake_tick_def Let_def) (simp add: snake_sample_def elapsed_def GRID_W_def GRID_H_def MAX_SNAKE_def)
  then show ?thesis unfolding f by (simp add: body_def snake_sample_inv sh)
qed

text \<open>
  \<^verbatim>\<open>snake_draw\<close> only paints on the current target, whatever the state of the game and the
  size of the window.
\<close>

theorem snake_draw_confined:
  assumes "target_ok s"
  shows "draws s (snake_draw g s) \<and> fault (snake_draw g s) = fault s"
proof -
  have "draws s (snake_draw g s)"
    unfolding snake_draw_def Let_def by (intro draws_intros assms)
  then show ?thesis using drawsD(7) by blast
qed

end
