(* ===== verification/Breakout.thy ===== *)
theory Breakout
  imports Tetris
begin

text \<open>
  The game of Breakout (\<^verbatim>\<open>games/breakout.c\<close>): paddle, ball in 8.8 fixed point, bricks, keys,
  ticks and drawing. The results of \<^verbatim>\<open>timer_get_ticks\<close> are arguments; the shift to the right of a
  fixed-point number is the division by 256 that rounds down, the division of C rounds to zero.
\<close>

section \<open>State\<close>

definition FX_ONE :: int where "FX_ONE = 256"
definition FX_TO_INT :: "int \<Rightarrow> int" where "FX_TO_INT a = a div 256"
definition INT_TO_FX :: "int \<Rightarrow> int" where "INT_TO_FX a = a * 256"

definition BRICK_COLS :: nat where "BRICK_COLS = 10"
definition BRICK_ROWS :: nat where "BRICK_ROWS = 5"
definition BRICK_W :: int where "BRICK_W = 58"
definition BRICK_H :: int where "BRICK_H = 16"
definition BRICK_GAP :: int where "BRICK_GAP = 4"
definition BRICK_OFFSET_Y :: int where "BRICK_OFFSET_Y = 40"
definition PADDLE_H :: int where "PADDLE_H = 12"
definition PADDLE_SPEED :: int where "PADDLE_SPEED = 8"
definition BALL_SIZE :: int where "BALL_SIZE = 8"

record breakout_state =
  bricks :: "bool list list"
  paddle_x :: int
  paddle_w :: int
  ball_x :: int
  ball_y :: int
  ball_dx :: int
  ball_dy :: int
  brk_score :: int
  lives :: int
  brk_over :: bool
  game_won :: bool
  bricks_left :: int
  brk_last_tick :: u64
  scr_w :: int
  scr_h :: int
  paddle_y :: int
  brick_offset_x :: int

definition brick_colors :: "u32 list" where
  "brick_colors = [COLOR_RED, COLOR_ORANGE, COLOR_YELLOW, COLOR_GREEN, COLOR_CYAN]"

section \<open>Operations\<close>

definition reset_ball :: "breakout_state \<Rightarrow> breakout_state" where
  "reset_ball g = g\<lparr>ball_x := INT_TO_FX (scr_w g sdiv 2), ball_y := INT_TO_FX (paddle_y g - 20),
                    ball_dx := FX_ONE * 2, ball_dy := - (FX_ONE * 2)\<rparr>"

definition set_brick :: "nat \<Rightarrow> nat \<Rightarrow> bool \<Rightarrow> bool list list \<Rightarrow> bool list list" where
  "set_brick r c v b = b[r := (b ! r)[c := v]]"

definition init_bricks :: "breakout_state \<Rightarrow> breakout_state" where
  "init_bricks g =
     for_loop 0 BRICK_ROWS (\<lambda>r. for_loop 0 BRICK_COLS (\<lambda>c g. g\<lparr>bricks := set_brick r c True (bricks g), bricks_left := bricks_left g + 1\<rparr>))
       (g\<lparr>bricks_left := 0\<rparr>)"

definition breakout_init :: "u64 \<Rightarrow> int \<Rightarrow> int \<Rightarrow> breakout_state \<Rightarrow> breakout_state" where
  "breakout_init now tw th g =
     (let g1 = g\<lparr>scr_w := tw, scr_h := th, paddle_w := 80, paddle_y := th - 40,
                 brick_offset_x := (tw - int BRICK_COLS * (BRICK_W + BRICK_GAP) + BRICK_GAP) sdiv 2,
                 paddle_x := (tw - 80) sdiv 2, brk_score := 0, lives := 3, brk_over := False, game_won := False\<rparr>
      in (reset_ball (init_bricks g1))\<lparr>brk_last_tick := now\<rparr>)"

definition breakout_key :: "int \<Rightarrow> breakout_state \<Rightarrow> breakout_state" where
  "breakout_key key g =
     (if brk_over g \<or> game_won g then g
      else
        let g1 = (if (key = KEY_LEFT \<or> key = 97 \<or> key = 65) \<and> paddle_x g > 0
                  then let x = paddle_x g - PADDLE_SPEED in g\<lparr>paddle_x := if x < 0 then 0 else x\<rparr> else g)
        in if (key = KEY_RIGHT \<or> key = 100 \<or> key = 68) \<and> paddle_x g1 < scr_w g1 - paddle_w g1
           then let x = paddle_x g1 + PADDLE_SPEED
                in g1\<lparr>paddle_x := if x > scr_w g1 - paddle_w g1 then scr_w g1 - paddle_w g1 else x\<rparr>
           else g1)"

text \<open>The bounces at the left and right wall and at the ceiling, for a ball at pixel \<open>(bx, by)\<close>.\<close>

definition bounce_walls :: "int \<Rightarrow> int \<Rightarrow> breakout_state \<Rightarrow> breakout_state" where
  "bounce_walls bx by g =
     (let g1 = (if bx \<le> BALL_SIZE div 2 then g\<lparr>ball_x := INT_TO_FX (BALL_SIZE div 2), ball_dx := - ball_dx g\<rparr> else g);
          g2 = (if bx \<ge> scr_w g1 - BALL_SIZE div 2
                then g1\<lparr>ball_x := INT_TO_FX (scr_w g1 - BALL_SIZE div 2), ball_dx := - ball_dx g1\<rparr> else g1)
      in if by \<le> BALL_SIZE div 2 then g2\<lparr>ball_y := INT_TO_FX (BALL_SIZE div 2), ball_dy := - ball_dy g2\<rparr> else g2)"

definition bounce_paddle :: "int \<Rightarrow> int \<Rightarrow> breakout_state \<Rightarrow> breakout_state" where
  "bounce_paddle bx by g =
     (if ball_dy g > 0 \<and> by \<ge> paddle_y g - BALL_SIZE div 2 \<and> by < paddle_y g + PADDLE_H \<and> bx \<ge> paddle_x g \<and> bx \<le> paddle_x g + paddle_w g
      then let hit_pos = bx - paddle_x g - paddle_w g sdiv 2;
               dx = (hit_pos * FX_ONE * 3) sdiv (paddle_w g sdiv 2);
               dx1 = (if dx > FX_ONE * 3 then FX_ONE * 3 else dx);
               dx2 = (if dx1 < - (FX_ONE * 3) then - (FX_ONE * 3) else dx1)
           in g\<lparr>ball_dy := - ball_dy g, ball_dx := dx2, ball_y := INT_TO_FX (paddle_y g - BALL_SIZE div 2)\<rparr>
      else g)"

definition brick_hit :: "int \<Rightarrow> int \<Rightarrow> breakout_state \<Rightarrow> nat \<times> nat \<Rightarrow> bool" where
  "brick_hit bx by g = (\<lambda>(r, c).
     bricks g ! r ! c \<and>
     (let brk_x = brick_offset_x g + int c * (BRICK_W + BRICK_GAP); brk_y = BRICK_OFFSET_Y + int r * (BRICK_H + BRICK_GAP)
      in bx + BALL_SIZE div 2 \<ge> brk_x \<and> bx - BALL_SIZE div 2 \<le> brk_x + BRICK_W \<and>
         by + BALL_SIZE div 2 \<ge> brk_y \<and> by - BALL_SIZE div 2 \<le> brk_y + BRICK_H))"

text \<open>The double loop over the bricks, rows first, returns at the first brick that is hit.\<close>

definition hit_bricks :: "int \<Rightarrow> int \<Rightarrow> breakout_state \<Rightarrow> breakout_state" where
  "hit_bricks bx by g =
     (case find (brick_hit bx by g) (List.product [0..<BRICK_ROWS] [0..<BRICK_COLS]) of
        None \<Rightarrow> g
      | Some (r, c) \<Rightarrow>
          let g1 = g\<lparr>bricks := set_brick r c False (bricks g), bricks_left := bricks_left g - 1,
                     brk_score := brk_score g + (int BRICK_ROWS - int r) * 10, ball_dy := - ball_dy g\<rparr>
          in if bricks_left g1 \<le> 0 then g1\<lparr>game_won := True\<rparr> else g1)"

definition breakout_tick :: "u64 \<Rightarrow> breakout_state \<Rightarrow> bool \<times> breakout_state" where
  "breakout_tick now g =
     (if brk_over g \<or> game_won g then (False, g)
      else if elapsed now (brk_last_tick g) < 3 then (False, g)
      else
        let g1 = g\<lparr>brk_last_tick := now, ball_x := ball_x g + ball_dx g, ball_y := ball_y g + ball_dy g\<rparr>;
            bx = FX_TO_INT (ball_x g1); by = FX_TO_INT (ball_y g1);
            g2 = bounce_walls bx by g1
        in if by \<ge> scr_h g2
           then let g3 = g2\<lparr>lives := lives g2 - 1\<rparr>
                in (True, if lives g3 \<le> 0 then g3\<lparr>brk_over := True\<rparr> else reset_ball g3)
           else (True, hit_bricks bx by (bounce_paddle bx by g2)))"

definition breakout_draw :: "breakout_state \<Rightarrow> 'a gpu_state_scheme \<Rightarrow> 'a gpu_state_scheme" where
  "breakout_draw g s =
     (let tw = gpu_target_w s; th = gpu_target_h s;
          s1 = gpu_clear COLOR_BLACK s;
          s2 = for_loop 0 BRICK_ROWS (\<lambda>r. for_loop 0 BRICK_COLS (\<lambda>c s.
                 if \<not> bricks g ! r ! c then s
                 else gpu_fill_rect (brick_offset_x g + int c * (BRICK_W + BRICK_GAP)) (BRICK_OFFSET_Y + int r * (BRICK_H + BRICK_GAP))
                        BRICK_W BRICK_H (brick_colors ! r) s)) s1;
          s3 = gpu_fill_rect (paddle_x g) (paddle_y g) (paddle_w g) PADDLE_H COLOR_WHITE s2;
          s4 = gpu_fill_rect (FX_TO_INT (ball_x g) - BALL_SIZE div 2) (FX_TO_INT (ball_y g) - BALL_SIZE div 2) BALL_SIZE BALL_SIZE COLOR_WHITE s3;
          s5 = gpu_draw_string 8 4 ''BREAKOUT  Score:'' COLOR_WHITE COLOR_BLACK s4;
          s6 = gpu_draw_int (8 + 17 * FONT_WIDTH) 4 (brk_score g) COLOR_YELLOW COLOR_BLACK s5;
          s7 = gpu_draw_string 8 20 ''Lives:'' COLOR_WHITE COLOR_BLACK s6;
          s8 = int_loop 0 (lives g) (\<lambda>i. gpu_fill_rect (8 + 7 * FONT_WIDTH + i * 16) 22 10 10 COLOR_RED) s7;
          s9 = (if brk_over g
                then let gx = (tw - 9 * FONT_WIDTH) sdiv 2; gy = th sdiv 2;
                         t = gpu_fill_rect (gx - 16) (gy - 8) (9 * FONT_WIDTH + 32) (FONT_HEIGHT + 16) COLOR_DKRED s8
                     in gpu_draw_string gx gy ''GAME OVER'' COLOR_WHITE COLOR_DKRED t
                else s8)
      in if game_won g
         then let gx = (tw - 8 * FONT_WIDTH) sdiv 2; gy = th sdiv 2;
                  t = gpu_fill_rect (gx - 16) (gy - 8) (8 * FONT_WIDTH + 32) (FONT_HEIGHT + 16) COLOR_DKGREEN s9
              in gpu_draw_string gx gy ''YOU WIN!'' COLOR_WHITE COLOR_DKGREEN t
         else s9)"

section \<open>The invariant\<close>

definition brick_count :: "bool list list \<Rightarrow> nat" where
  "brick_count b = sum_list (map (\<lambda>row. length (filter (\<lambda>v. v) row)) b)"

text \<open>The points still on the board: a brick of row \<open>r\<close> is worth \<open>(BRICK_ROWS - r) * 10\<close>.\<close>

definition brick_points :: "bool list list \<Rightarrow> int" where
  "brick_points b = (\<Sum>r<BRICK_ROWS. (int BRICK_ROWS - int r) * 10 * int (length (filter (\<lambda>v. v) (b ! r))))"

definition bricks_ok :: "bool list list \<Rightarrow> bool" where
  "bricks_ok b \<longleftrightarrow> length b = BRICK_ROWS \<and> (\<forall>row \<in> set b. length row = BRICK_COLS)"

text \<open>
  The board (bricks, counter, paddle), the ball's place and its speed, and what they give for a
  running or finished game.
\<close>

definition brk_board :: "breakout_state \<Rightarrow> bool" where
  "brk_board g \<longleftrightarrow>
     bricks_ok (bricks g) \<and> bricks_left g = int (brick_count (bricks g)) \<and> (game_won g \<longleftrightarrow> bricks_left g = 0) \<and>
     brk_score g + brick_points (bricks g) = 1500 \<and>
     paddle_w g = 80 \<and> 80 \<le> scr_w g \<and> 64 \<le> scr_h g \<and> paddle_y g = scr_h g - 40 \<and>
     0 \<le> paddle_x g \<and> paddle_x g \<le> scr_w g - paddle_w g"

definition ball_place :: "breakout_state \<Rightarrow> bool" where
  "ball_place g \<longleftrightarrow> INT_TO_FX 4 \<le> ball_x g \<and> ball_x g \<le> INT_TO_FX (scr_w g - 4) \<and>
     INT_TO_FX 4 \<le> ball_y g \<and> ball_y g < INT_TO_FX (scr_h g)"

definition ball_speed :: "breakout_state \<Rightarrow> bool" where
  "ball_speed g \<longleftrightarrow> \<bar>ball_dx g\<bar> \<le> 3 * FX_ONE \<and> \<bar>ball_dy g\<bar> = 2 * FX_ONE"

definition brk_inv :: "breakout_state \<Rightarrow> bool" where
  "brk_inv g \<longleftrightarrow> brk_board g \<and> 0 \<le> lives g \<and> lives g \<le> 3 \<and> (brk_over g \<longleftrightarrow> lives g = 0) \<and>
     (\<not> brk_over g \<longrightarrow> ball_place g) \<and> ball_speed g"

lemmas brk_simps = brk_board_def ball_place_def ball_speed_def INT_TO_FX_def FX_TO_INT_def FX_ONE_def BALL_SIZE_def

lemma count_row_clear:
  assumes "c < length row" and "row ! c"
  shows "Suc (length (filter (\<lambda>v. v) (row[c := False]))) = length (filter (\<lambda>v. v) row)"
proof -
  define a b where "a = take c row" and "b = drop (Suc c) row"
  have "row = a @ True # b" using id_take_nth_drop [OF assms(1)] assms(2) by (simp add: a_def b_def)
  moreover have "row[c := False] = a @ False # b" using assms(1) by (simp add: a_def b_def upd_conv_take_nth_drop)
  ultimately show ?thesis by simp
qed

lemma brick_count_set:
  assumes "bricks_ok b" and "r < BRICK_ROWS" and "c < BRICK_COLS" and "b ! r ! c"
  shows "Suc (brick_count (set_brick r c False b)) = brick_count b" and "bricks_ok (set_brick r c False b)"
proof -
  have r: "r < length b" "c < length (b ! r)" using assms(1,2,3) by (auto simp: bricks_ok_def)
  let ?n = "\<lambda>row. length (filter (\<lambda>v. v) row)"
  note row = count_row_clear [OF r(2) assms(4)]
  have "sum_list (map ?n b) = sum_list (map ?n (take r b)) + ?n (b ! r) + sum_list (map ?n (drop (Suc r) b))"
    by (subst id_take_nth_drop [OF r(1)]) simp
  moreover have "sum_list (map ?n (set_brick r c False b)) = sum_list (map ?n (take r b)) + ?n ((b ! r)[c := False]) + sum_list (map ?n (drop (Suc r) b))"
    using r(1) by (simp add: set_brick_def upd_conv_take_nth_drop)
  ultimately show "Suc (brick_count (set_brick r c False b)) = brick_count b" using row by (simp add: brick_count_def)
  show "bricks_ok (set_brick r c False b)"
    using assms(1) r by (auto simp: bricks_ok_def set_brick_def dest!: set_update_subset_insert [THEN subsetD])
qed

lemma brick_points_set:
  assumes "bricks_ok b" and "r < BRICK_ROWS" and "c < BRICK_COLS" and "b ! r ! c"
  shows "brick_points (set_brick r c False b) + (int BRICK_ROWS - int r) * 10 = brick_points b"
proof -
  have r: "r < length b" "c < length (b ! r)" using assms(1,2,3) by (auto simp: bricks_ok_def)
  note row = count_row_clear [OF r(2) assms(4)]
  let ?f = "\<lambda>b i. (int BRICK_ROWS - int i) * 10 * int (length (filter (\<lambda>v. v) (b ! i)))"
  have rest: "sum (?f (set_brick r c False b)) ({..<BRICK_ROWS} - {r}) = sum (?f b) ({..<BRICK_ROWS} - {r})"
    by (rule sum.cong) (auto simp: set_brick_def)
  have "?f (set_brick r c False b) r + (int BRICK_ROWS - int r) * 10 = ?f b r"
    unfolding row [symmetric] using r(1) by (simp add: set_brick_def algebra_simps)
  then show ?thesis
    using rest assms(2) unfolding brick_points_def by (simp add: sum.remove [of "{..<BRICK_ROWS}" r])
qed

lemma bounce_walls_inv:
  assumes "brk_board g" "ball_speed g"
  shows "brk_board (bounce_walls bx by g)" "ball_speed (bounce_walls bx by g)" "lives (bounce_walls bx by g) = lives g"
    "scr_h (bounce_walls bx by g) = scr_h g" "brk_over (bounce_walls bx by g) = brk_over g" "game_won (bounce_walls bx by g) = game_won g"
  using assms by (simp_all add: bounce_walls_def Let_def brk_simps)

lemma FX_TO_INT_bounds: "256 * FX_TO_INT a \<le> a" "a < 256 * FX_TO_INT a + 256"
  unfolding FX_TO_INT_def by presburger+

lemma bounce_walls_place:
  assumes "brk_board g" "FX_TO_INT (ball_y g) < scr_h g"
  shows "ball_place (bounce_walls (FX_TO_INT (ball_x g)) (FX_TO_INT (ball_y g)) g)"
  using assms FX_TO_INT_bounds [of "ball_x g"] FX_TO_INT_bounds [of "ball_y g"]
  by (auto simp: bounce_walls_def Let_def brk_board_def ball_place_def INT_TO_FX_def BALL_SIZE_def)

lemma bounce_paddle_inv:
  assumes "brk_board g" "ball_speed g" "ball_place g"
  shows "brk_board (bounce_paddle bx by g)" "ball_speed (bounce_paddle bx by g)" "ball_place (bounce_paddle bx by g)"
    "lives (bounce_paddle bx by g) = lives g" "brk_over (bounce_paddle bx by g) = brk_over g"
    "game_won (bounce_paddle bx by g) = game_won g"
  using assms by (auto simp: bounce_paddle_def Let_def brk_simps)

lemma hit_bricks_inv:
  assumes "brk_board g" "ball_speed g" "ball_place g" "\<not> game_won g"
  shows "brk_board (hit_bricks bx by g) \<and> ball_speed (hit_bricks bx by g) \<and> ball_place (hit_bricks bx by g) \<and>
     lives (hit_bricks bx by g) = lives g \<and> brk_over (hit_bricks bx by g) = brk_over g"
proof (cases "find (brick_hit bx by g) (List.product [0..<BRICK_ROWS] [0..<BRICK_COLS])")
  case None then show ?thesis using assms by (simp add: hit_bricks_def)
next
  case (Some rc)
  obtain r c where rc: "rc = (r, c)" by fastforce
  from Some have "rc \<in> set (List.product [0..<BRICK_ROWS] [0..<BRICK_COLS])" and hit: "brick_hit bx by g (r, c)"
    unfolding rc by (metis find_Some_iff nth_mem)+
  then have in_range: "r < BRICK_ROWS" "c < BRICK_COLS" unfolding rc by simp_all
  then have b: "bricks g ! r ! c" using hit by (simp add: brick_hit_def)
  from assms(1) have ok: "bricks_ok (bricks g)" "bricks_left g = int (brick_count (bricks g))" by (simp_all add: brk_board_def)
  note S = brick_count_set [OF ok(1) in_range b] and P = brick_points_set [OF ok(1) in_range b]
  have "bricks_left g - 1 = int (brick_count (set_brick r c False (bricks g)))" using S(1) ok(2) by linarith
  then show ?thesis using assms S(2) P by (auto simp: hit_bricks_def Some rc Let_def brk_board_def ball_speed_def ball_place_def)
qed

lemma reset_ball_inv:
  "brk_board g \<Longrightarrow> brk_board (reset_ball g) \<and> ball_place (reset_ball g) \<and> ball_speed (reset_ball g) \<and>
     lives (reset_ball g) = lives g \<and> brk_over (reset_ball g) = brk_over g"
  by (auto simp: reset_ball_def brk_simps signed_divide_int_def)

lemma init_row:
  "r < length (bricks g) \<Longrightarrow> n \<le> length (bricks g ! r) \<Longrightarrow>
   for_loop 0 n (\<lambda>c g. g\<lparr>bricks := set_brick r c True (bricks g), bricks_left := bricks_left g + 1\<rparr>) g =
   g\<lparr>bricks := (bricks g)[r := replicate n True @ drop n (bricks g ! r)], bricks_left := bricks_left g + int n\<rparr>"
proof (induction n)
  case (Suc n)
  then have "(replicate n True @ drop n (bricks g ! r))[n := True] = replicate (Suc n) True @ drop (Suc n) (bricks g ! r)"
    by (simp add: list_update_append Cons_nth_drop_Suc [symmetric] replicate_append_same [symmetric])
  then show ?case using Suc by (simp add: for_loop_Suc set_brick_def)
qed simp

lemma init_bricks_all:
  assumes "bricks_ok (bricks g)"
  shows "init_bricks g = g\<lparr>bricks := replicate BRICK_ROWS (replicate BRICK_COLS True), bricks_left := 50\<rparr>"
proof -
  let ?f = "\<lambda>r. for_loop 0 BRICK_COLS (\<lambda>c g. g\<lparr>bricks := set_brick r c True (bricks g), bricks_left := bricks_left g + 1\<rparr>)"
  let ?row = "replicate BRICK_COLS True"
  have "for_loop 0 n ?f (g\<lparr>bricks_left := 0\<rparr>) = g\<lparr>bricks := replicate n ?row @ drop n (bricks g), bricks_left := int (n * BRICK_COLS)\<rparr>"
    if "n \<le> BRICK_ROWS" for n
    using that
  proof (induction n)
    case (Suc n)
    have n: "n < length (bricks g)" "length (bricks g ! n) = BRICK_COLS" using assms Suc.prems by (auto simp: bricks_ok_def)
    have "(replicate n ?row @ drop n (bricks g))[n := ?row] = replicate (Suc n) ?row @ drop (Suc n) (bricks g)"
      using n(1) by (simp add: list_update_append Cons_nth_drop_Suc [symmetric] replicate_append_same [symmetric])
    then show ?case using Suc n by (simp add: for_loop_Suc init_row nth_append)
  qed simp
  from this [of BRICK_ROWS] show ?thesis using assms by (simp add: init_bricks_def bricks_ok_def BRICK_ROWS_def BRICK_COLS_def)
qed

lemma sdiv_half: "0 \<le> (a::int) \<Longrightarrow> 0 \<le> a sdiv 2 \<and> a sdiv 2 \<le> a"
  by (cases "a = 0") (simp_all add: signed_divide_int_def)

lemma breakout_init_inv:
  assumes "bricks_ok (bricks g)" and "80 \<le> tw" and "64 \<le> th"
  shows "brk_inv (breakout_init now tw th g)"
proof -
  define g1 where "g1 = g\<lparr>scr_w := tw, scr_h := th, paddle_w := 80, paddle_y := th - 40,
                 brick_offset_x := (tw - int BRICK_COLS * (BRICK_W + BRICK_GAP) + BRICK_GAP) sdiv 2,
                 paddle_x := (tw - 80) sdiv 2, brk_score := 0, lives := 3, brk_over := False, game_won := False\<rparr>"
  have ok: "bricks_ok (bricks g1)" using assms(1) by (simp add: g1_def)
  have "brick_count (replicate BRICK_ROWS (replicate BRICK_COLS True)) = 50" "bricks_ok (replicate BRICK_ROWS (replicate BRICK_COLS True))"
    "brick_points (replicate BRICK_ROWS (replicate BRICK_COLS True)) = 1500"
    by (code_simp, simp add: bricks_ok_def, simp add: brick_points_def BRICK_ROWS_def BRICK_COLS_def eval_nat_numeral)
  then have "brk_board (init_bricks g1)"
    using assms(2,3) sdiv_half [of "tw - 80"] unfolding init_bricks_all [OF ok] by (simp add: brk_board_def g1_def)
  note R = reset_ball_inv [OF this]
  have "lives (init_bricks g1) = 3" "\<not> brk_over (init_bricks g1)" unfolding init_bricks_all [OF ok] by (simp_all add: g1_def)
  moreover have "breakout_init now tw th g = (reset_ball (init_bricks g1))\<lparr>brk_last_tick := now\<rparr>" by (simp add: breakout_init_def g1_def)
  ultimately show ?thesis using R by (simp add: brk_inv_def brk_board_def ball_place_def ball_speed_def)
qed

lemma breakout_key_inv: "brk_inv g \<Longrightarrow> brk_inv (breakout_key key g)"
  by (auto simp: breakout_key_def Let_def brk_inv_def brk_board_def ball_place_def ball_speed_def PADDLE_SPEED_def)

lemma breakout_tick_inv:
  assumes "brk_inv g" shows "brk_inv (snd (breakout_tick now g))"
proof (cases "brk_over g \<or> game_won g \<or> elapsed now (brk_last_tick g) < 3")
  case True then show ?thesis using assms by (auto simp: breakout_tick_def)
next
  case False
  define g1 where "g1 = g\<lparr>brk_last_tick := now, ball_x := ball_x g + ball_dx g, ball_y := ball_y g + ball_dy g\<rparr>"
  define bx where "bx = FX_TO_INT (ball_x g1)"
  define y where "y = FX_TO_INT (ball_y g1)"
  define g2 where "g2 = bounce_walls bx y g1"
  have 1: "brk_board g1" "ball_speed g1" using assms by (simp_all add: g1_def brk_inv_def brk_board_def ball_speed_def)
  note W = bounce_walls_inv [OF 1, of bx y, folded g2_def]
  have L: "0 < lives g2" "lives g2 \<le> 3" "\<not> brk_over g2" "\<not> game_won g2" "scr_h g2 = scr_h g1"
    using False assms W unfolding brk_inv_def by (auto simp: g1_def)
  have T: "snd (breakout_tick now g) =
     (if y \<ge> scr_h g2
      then let g3 = g2\<lparr>lives := lives g2 - 1\<rparr> in if lives g3 \<le> 0 then g3\<lparr>brk_over := True\<rparr> else reset_ball g3
      else hit_bricks bx y (bounce_paddle bx y g2))"
    using False by (simp add: breakout_tick_def g2_def bx_def y_def g1_def Let_def)
  show ?thesis
  proof (cases "y \<ge> scr_h g2")
    case True
    have B: "brk_board (g2\<lparr>lives := lives g2 - 1\<rparr>)" using W(1) by (simp add: brk_board_def)
    show ?thesis
    proof (cases "lives g2 \<le> 1")
      case True then show ?thesis using \<open>y \<ge> scr_h g2\<close> W L unfolding T by (simp add: brk_inv_def brk_board_def ball_speed_def)
    next
      case False then show ?thesis using \<open>y \<ge> scr_h g2\<close> reset_ball_inv [OF B] L unfolding T by (simp add: brk_inv_def)
    qed
  next
    case False
    then have "ball_place g2" using bounce_walls_place [OF 1(1)] L(5) by (simp add: g2_def bx_def y_def)
    note P = bounce_paddle_inv [OF W(1,2) this, of bx y]
    then have "\<not> game_won (bounce_paddle bx y g2)" using L by simp
    from hit_bricks_inv [OF P(1,2,3) this, of bx y] P L False show ?thesis unfolding T by (simp add: brk_inv_def)
  qed
qed

section \<open>Properties\<close>

text \<open>A game from its start, in a target of size \<open>tw\<close> by \<open>th\<close>, by keys and ticks.\<close>

inductive brk_reach :: "int \<Rightarrow> int \<Rightarrow> breakout_state \<Rightarrow> bool" for tw th where
  start: "bricks_ok (bricks g) \<Longrightarrow> brk_reach tw th (breakout_init now tw th g)"
| key: "brk_reach tw th g \<Longrightarrow> brk_reach tw th (breakout_key k g)"
| tick: "brk_reach tw th g \<Longrightarrow> brk_reach tw th (snd (breakout_tick now g))"

lemma brk_reach_inv: "brk_reach tw th g \<Longrightarrow> 80 \<le> tw \<Longrightarrow> 64 \<le> th \<Longrightarrow> brk_inv g"
  by (induction rule: brk_reach.induct) (simp_all add: breakout_init_inv breakout_key_inv breakout_tick_inv)

text \<open>
  In every state of a game the paddle is on the screen, the ball of a running game is inside
  the walls, at most 3 and 2 pixels a tick fast, \<^verbatim>\<open>bricks_left\<close> counts the bricks, the game is won exactly
  when none is left, with a score of 1500, and over exactly when no life is left.
\<close>

theorem breakout_steps_safe:
  assumes "brk_reach tw th g" and "80 \<le> tw" and "64 \<le> th"
  shows "0 \<le> paddle_x g \<and> paddle_x g \<le> scr_w g - paddle_w g \<and>
         (\<not> brk_over g \<longrightarrow> ball_place g) \<and> ball_speed g \<and> bricks_left g = int (brick_count (bricks g)) \<and>
         (game_won g \<longleftrightarrow> brick_count (bricks g) = 0) \<and> brk_score g + brick_points (bricks g) = 1500 \<and>
         (brk_over g \<longleftrightarrow> lives g = 0) \<and> 0 \<le> lives g \<and> lives g \<le> 3"
  using brk_reach_inv [OF assms] by (simp add: brk_inv_def brk_board_def)

definition brk_zero :: breakout_state where
  "brk_zero = \<lparr>bricks = replicate BRICK_ROWS (replicate BRICK_COLS False), paddle_x = 0, paddle_w = 0, ball_x = 0, ball_y = 0,
     ball_dx = 0, ball_dy = 0, brk_score = 0, lives = 0, brk_over = False, game_won = False, bricks_left = 0, brk_last_tick = 0,
     scr_w = 0, scr_h = 0, paddle_y = 0, brick_offset_x = 0\<rparr>"

theorem breakout_steps_safe_witness:
  "brk_score (snd (breakout_tick 9 (breakout_init 5 616 415 brk_zero))) +
   brick_points (bricks (snd (breakout_tick 9 (breakout_init 5 616 415 brk_zero)))) = 1500"
proof -
  have "bricks_ok (bricks brk_zero)" by (simp add: brk_zero_def bricks_ok_def)
  from breakout_steps_safe [OF brk_reach.tick [OF brk_reach.start [OF this]], of 616 415 9 5] show ?thesis by simp
qed

text \<open>
  A ball that comes to the left wall with less than a pixel a tick sticks there: each tick puts it
  back to the wall and turns it round, since a ball at the wall counts as hitting it. It stays
  until the paddle gets under it or a life is lost.
\<close>

theorem breakout_ball_sticks:
  assumes "ball_x g = INT_TO_FX (BALL_SIZE div 2)" and "\<bar>ball_dx g\<bar> < FX_ONE"
    and "BALL_SIZE < scr_w g" and "BALL_SIZE div 2 < paddle_x g" and "lives (snd (breakout_tick now g)) = lives g"
  shows "ball_x (snd (breakout_tick now g)) = ball_x g \<and> \<bar>ball_dx (snd (breakout_tick now g))\<bar> = \<bar>ball_dx g\<bar>"
proof (cases "brk_over g \<or> game_won g \<or> elapsed now (brk_last_tick g) < 3")
  case True then show ?thesis by (auto simp: breakout_tick_def)
next
  case False
  define g1 where "g1 = g\<lparr>brk_last_tick := now, ball_x := ball_x g + ball_dx g, ball_y := ball_y g + ball_dy g\<rparr>"
  define bx where "bx = FX_TO_INT (ball_x g1)"
  define y where "y = FX_TO_INT (ball_y g1)"
  define g2 where "g2 = bounce_walls bx y g1"
  have bx: "bx \<le> 4" using assms(1,2) FX_TO_INT_bounds [of "ball_x g1"] by (simp add: bx_def g1_def INT_TO_FX_def BALL_SIZE_def FX_ONE_def)
  then have W: "ball_x g2 = ball_x g" "ball_dx g2 = - ball_dx g" "paddle_x g2 = paddle_x g" "lives g2 = lives g"
    using assms(1,3) by (simp_all add: g2_def bounce_walls_def Let_def g1_def BALL_SIZE_def)
  have P: "bounce_paddle bx y g2 = g2" using bx assms(4) W(3) by (simp add: bounce_paddle_def BALL_SIZE_def)
  have H: "ball_x (hit_bricks bx y g2) = ball_x g2" "ball_dx (hit_bricks bx y g2) = ball_dx g2"
    by (simp_all add: hit_bricks_def Let_def split: option.split prod.split)
  have "snd (breakout_tick now g) =
     (if y \<ge> scr_h g2
      then let g3 = g2\<lparr>lives := lives g2 - 1\<rparr> in if lives g3 \<le> 0 then g3\<lparr>brk_over := True\<rparr> else reset_ball g3
      else hit_bricks bx y (bounce_paddle bx y g2))"
    using False by (simp add: breakout_tick_def g2_def bx_def y_def g1_def Let_def)
  then show ?thesis using W H P assms(5) by (auto simp: Let_def reset_ball_def split: if_splits)
qed

definition brk_stuck :: breakout_state where
  "brk_stuck = brk_zero\<lparr>paddle_x := 100, paddle_w := 80, ball_x := 1024, ball_y := 51200, ball_dx := 153, ball_dy := 512, lives := 3,
     scr_w := 616, scr_h := 415, paddle_y := 375\<rparr>"

theorem breakout_ball_sticks_witness: "ball_x (snd (breakout_tick 9 brk_stuck)) = 1024 \<and> \<bar>ball_dx (snd (breakout_tick 9 brk_stuck))\<bar> = 153"
proof -
  have none: "\<not> brick_hit bx y g (r, c)" if "bricks g = bricks brk_zero" "r < BRICK_ROWS" "c < BRICK_COLS" for bx y g r c
    using that by (simp add: brick_hit_def brk_zero_def)
  have "hit_bricks bx y g = g" if "bricks g = bricks brk_zero" for bx y g
  proof -
    have "find (brick_hit bx y g) (List.product [0..<BRICK_ROWS] [0..<BRICK_COLS]) = None"
      using none [OF that] by (auto simp: find_None_iff)
    then show ?thesis by (simp add: hit_bricks_def)
  qed
  then have "lives (snd (breakout_tick 9 brk_stuck)) = lives brk_stuck"
    by (simp add: breakout_tick_def elapsed_def bounce_walls_def bounce_paddle_def Let_def brk_simps brk_stuck_def brk_zero_def)
  from breakout_ball_sticks [OF _ _ _ _ this] show ?thesis by (simp add: brk_stuck_def brk_zero_def brk_simps)
qed

theorem breakout_draw_confined:
  assumes "target_ok s"
  shows "draws s (breakout_draw g s) \<and> fault (breakout_draw g s) = fault s"
proof -
  have "draws s (breakout_draw g s)"
    unfolding breakout_draw_def Let_def by (intro draws_intros assms)
  then show ?thesis using drawsD(7) by blast
qed

end
