(* ===== verification/Raycaster.thy ===== *)
theory Raycaster
  imports Tetris
begin

text \<open>
  The ray caster (\<^verbatim>\<open>games/raycaster.c\<close>): a player on a walled map of 16 by 16 cells, keys, and
  the drawing of one wall slice for each column of the target. Numbers are 16.16 fixed point. The
  casts \<^verbatim>\<open>(int)\<close> of \<^verbatim>\<open>FP_MUL\<close> and \<^verbatim>\<open>FP_DIV\<close> keep 32 bits, as the code's values do not always fit;
  the shift to the right rounds down, the division of C rounds to zero.
\<close>

section \<open>Fixed-point numbers and tables\<close>

definition s32 :: "int \<Rightarrow> int" where "s32 x = sint (word_of_int x :: 32 word)"

definition FP_ONE :: int where "FP_ONE = 65536"
definition FP_HALF :: int where "FP_HALF = 32768"
definition FP_MUL :: "int \<Rightarrow> int \<Rightarrow> int" where "FP_MUL a b = s32 (a * b div 65536)"
definition FP_DIV :: "int \<Rightarrow> int \<Rightarrow> int" where "FP_DIV a b = s32 ((a * 65536) sdiv b)"
definition FP_TO_INT :: "int \<Rightarrow> int" where "FP_TO_INT a = a div 65536"
definition INT_TO_FP :: "int \<Rightarrow> int" where "INT_TO_FP a = a * 65536"
definition ANGLE_90 :: int where "ANGLE_90 = 64"
definition FOV :: int where "FOV = 42"
definition MAP_W :: int where "MAP_W = 16"
definition MAP_H :: int where "MAP_H = 16"

definition sin_table :: "int list" where
  "sin_table =
    [0, 1608, 3216, 4821, 6424, 8022, 9616, 11204,
     12785, 14359, 15924, 17479, 19024, 20557, 22078, 23586,
     25080, 26558, 28020, 29466, 30893, 32303, 33692, 35062,
     36410, 37736, 39040, 40320, 41576, 42806, 44011, 45190,
     46341, 47464, 48559, 49624, 50660, 51665, 52639, 53581,
     54491, 55368, 56212, 57022, 57798, 58538, 59244, 59914,
     60547, 61145, 61705, 62228, 62714, 63162, 63572, 63944,
     64277, 64571, 64827, 65043, 65220, 65358, 65457, 65516,
     65536, 65516, 65457, 65358, 65220, 65043, 64827, 64571,
     64277, 63944, 63572, 63162, 62714, 62228, 61705, 61145,
     60547, 59914, 59244, 58538, 57798, 57022, 56212, 55368,
     54491, 53581, 52639, 51665, 50660, 49624, 48559, 47464,
     46341, 45190, 44011, 42806, 41576, 40320, 39040, 37736,
     36410, 35062, 33692, 32303, 30893, 29466, 28020, 26558,
     25080, 23586, 22078, 20557, 19024, 17479, 15924, 14359,
     12785, 11204, 9616, 8022, 6424, 4821, 3216, 1608,
     0, -1608, -3216, -4821, -6424, -8022, -9616, -11204,
     -12785, -14359, -15924, -17479, -19024, -20557, -22078, -23586,
     -25080, -26558, -28020, -29466, -30893, -32303, -33692, -35062,
     -36410, -37736, -39040, -40320, -41576, -42806, -44011, -45190,
     -46341, -47464, -48559, -49624, -50660, -51665, -52639, -53581,
     -54491, -55368, -56212, -57022, -57798, -58538, -59244, -59914,
     -60547, -61145, -61705, -62228, -62714, -63162, -63572, -63944,
     -64277, -64571, -64827, -65043, -65220, -65358, -65457, -65516,
     -65536, -65516, -65457, -65358, -65220, -65043, -64827, -64571,
     -64277, -63944, -63572, -63162, -62714, -62228, -61705, -61145,
     -60547, -59914, -59244, -58538, -57798, -57022, -56212, -55368,
     -54491, -53581, -52639, -51665, -50660, -49624, -48559, -47464,
     -46341, -45190, -44011, -42806, -41576, -40320, -39040, -37736,
     -36410, -35062, -33692, -32303, -30893, -29466, -28020, -26558,
     -25080, -23586, -22078, -20557, -19024, -17479, -15924, -14359,
     -12785, -11204, -9616, -8022, -6424, -4821, -3216, -1608]"

definition fp_sin :: "int \<Rightarrow> int" where "fp_sin angle = sin_table ! nat (angle AND 0xFF)"
definition fp_cos :: "int \<Rightarrow> int" where "fp_cos angle = sin_table ! nat ((angle + ANGLE_90) AND 0xFF)"
definition fp_abs :: "int \<Rightarrow> int" where "fp_abs x = (if x < 0 then - x else x)"

definition world_map :: "nat list list" where
  "world_map =
    [[1, 1, 1, 1, 1, 1, 1, 1, 1, 1, 1, 1, 1, 1, 1, 1],
     [1, 0, 0, 0, 0, 0, 0, 0, 0, 0, 0, 0, 0, 0, 0, 1],
     [1, 0, 0, 0, 0, 0, 0, 0, 0, 0, 0, 0, 0, 0, 0, 1],
     [1, 0, 0, 2, 2, 0, 0, 0, 0, 0, 3, 3, 3, 0, 0, 1],
     [1, 0, 0, 2, 0, 0, 0, 0, 0, 0, 0, 0, 3, 0, 0, 1],
     [1, 0, 0, 0, 0, 0, 0, 0, 0, 0, 0, 0, 0, 0, 0, 1],
     [1, 0, 0, 0, 0, 0, 4, 4, 4, 0, 0, 0, 0, 0, 0, 1],
     [1, 0, 0, 0, 0, 0, 4, 0, 4, 0, 0, 0, 0, 0, 0, 1],
     [1, 0, 0, 0, 0, 0, 4, 0, 4, 0, 0, 0, 0, 0, 0, 1],
     [1, 0, 0, 0, 0, 0, 4, 4, 4, 0, 0, 0, 0, 0, 0, 1],
     [1, 0, 0, 0, 0, 0, 0, 0, 0, 0, 0, 0, 0, 0, 0, 1],
     [1, 0, 0, 2, 0, 0, 0, 0, 0, 0, 0, 3, 0, 0, 0, 1],
     [1, 0, 0, 2, 2, 0, 0, 0, 0, 0, 3, 3, 0, 0, 0, 1],
     [1, 0, 0, 0, 0, 0, 0, 0, 0, 0, 0, 0, 0, 0, 0, 1],
     [1, 0, 0, 0, 0, 0, 0, 0, 0, 0, 0, 0, 0, 0, 0, 1],
     [1, 1, 1, 1, 1, 1, 1, 1, 1, 1, 1, 1, 1, 1, 1, 1]]"

definition wall_colors :: "u32 list" where
  "wall_colors = [COLOR_GRAY, COLOR_WHITE, COLOR_RED, COLOR_BLUE, COLOR_GREEN]"

section \<open>State and operations\<close>

record ray_state =
  player_x :: int
  player_y :: int
  player_angle :: int
  move_speed :: int
  rot_speed :: int

text \<open>The local variables of one ray.\<close>

record ray =
  map_x :: int
  map_y :: int
  delta_dist_x :: int
  delta_dist_y :: int
  step_x :: int
  step_y :: int
  side_dist_x :: int
  side_dist_y :: int
  side :: bool

definition ray_start :: "ray_state \<Rightarrow> int \<Rightarrow> ray" where
  "ray_start g ray_angle =
     (let ray_cos = fp_cos ray_angle; ray_sin = fp_sin ray_angle;
          mx = FP_TO_INT (player_x g); my = FP_TO_INT (player_y g);
          dx = (if ray_cos \<noteq> 0 then fp_abs (FP_DIV FP_ONE ray_cos) else 0x7FFFFFFF);
          dy = (if ray_sin \<noteq> 0 then fp_abs (FP_DIV FP_ONE ray_sin) else 0x7FFFFFFF)
      in \<lparr>map_x = mx, map_y = my, delta_dist_x = dx, delta_dist_y = dy,
          step_x = (if ray_cos < 0 then -1 else 1), step_y = (if ray_sin < 0 then -1 else 1),
          side_dist_x = (if ray_cos < 0 then FP_MUL (player_x g - INT_TO_FP mx) dx else FP_MUL (INT_TO_FP (mx + 1) - player_x g) dx),
          side_dist_y = (if ray_sin < 0 then FP_MUL (player_y g - INT_TO_FP my) dy else FP_MUL (INT_TO_FP (my + 1) - player_y g) dy),
          side = False\<rparr>)"

definition on_map :: "int \<Rightarrow> int \<Rightarrow> bool" where
  "on_map x y \<longleftrightarrow> x \<ge> 0 \<and> x < MAP_W \<and> y \<ge> 0 \<and> y < MAP_H"

definition cell :: "int \<Rightarrow> int \<Rightarrow> nat" where
  "cell x y = world_map ! nat y ! nat x"

definition advance :: "ray \<Rightarrow> ray" where
  "advance r =
     (if side_dist_x r < side_dist_y r
      then r\<lparr>side_dist_x := side_dist_x r + delta_dist_x r, map_x := map_x r + step_x r, side := False\<rparr>
      else r\<lparr>side_dist_y := side_dist_y r + delta_dist_y r, map_y := map_y r + step_y r, side := True\<rparr>)"

text \<open>The loop over at most \<open>n\<close> cells: the ray at the wall with the wall's type, or none.\<close>

primrec dda :: "nat \<Rightarrow> ray \<Rightarrow> (ray \<times> nat) option" where
  "dda 0 r = None"
| "dda (Suc n) r =
     (let r1 = advance r
      in if on_map (map_x r1) (map_y r1)
         then if cell (map_x r1) (map_y r1) \<noteq> 0 then Some (r1, cell (map_x r1) (map_y r1)) else dda n r1
         else Some (r1, 1))"

definition ray_angle :: "ray_state \<Rightarrow> int \<Rightarrow> int \<Rightarrow> int" where
  "ray_angle g scr_w col = (player_angle g - FOV div 2 + (col * FOV) sdiv scr_w) AND 0xFF"

text \<open>The distance to the wall, corrected for the angle off the view's axis.\<close>

definition wall_dist :: "ray_state \<Rightarrow> int \<Rightarrow> ray \<Rightarrow> int" where
  "wall_dist g angle r =
     (let perp_dist = (if \<not> side r then side_dist_x r - delta_dist_x r else side_dist_y r - delta_dist_y r);
          perp_dist1 = (if perp_dist < 256 then 256 else perp_dist);
          angle_diff = (angle - player_angle g) AND 0xFF;
          cos_diff = fp_cos angle_diff;
          cos_diff1 = (if cos_diff = 0 then 1 else cos_diff);
          perp_dist2 = FP_MUL perp_dist1 cos_diff1
      in if perp_dist2 < 256 then 256 else perp_dist2)"

definition slice_height :: "int \<Rightarrow> int \<Rightarrow> int" where
  "slice_height scr_h perp_dist =
     (let line_height = FP_TO_INT (FP_DIV (INT_TO_FP scr_h) perp_dist)
      in if line_height > scr_h then scr_h else line_height)"

definition slice_color :: "nat \<Rightarrow> bool \<Rightarrow> u32" where
  "slice_color wall_type sd =
     (let color = wall_colors ! (if wall_type < 5 then wall_type else 0)
      in if sd then drop_bit 1 color AND 0x7F7F7F else color)"

definition draw_column :: "int \<Rightarrow> int \<Rightarrow> int \<Rightarrow> int \<Rightarrow> u32 \<Rightarrow> 'a gpu_state_scheme \<Rightarrow> 'a gpu_state_scheme" where
  "draw_column scr_w scr_h col line_height color s =
     (let draw_start = (scr_h - line_height) sdiv 2; draw_end = draw_start + line_height;
          s1 = int_loop 0 draw_start (\<lambda>y. store (y * scr_w + col) COLOR_DKGRAY) s;
          s2 = int_loop draw_start (min draw_end scr_h) (\<lambda>y s. if y \<ge> 0 then store (y * scr_w + col) color s else s) s1
      in int_loop draw_end scr_h (\<lambda>y. store (y * scr_w + col) COLOR_DKGREEN) s2)"

definition cast_ray :: "ray_state \<Rightarrow> int \<Rightarrow> int \<Rightarrow> int \<Rightarrow> 'a gpu_state_scheme \<Rightarrow> 'a gpu_state_scheme" where
  "cast_ray g scr_w scr_h col s =
     (let angle = ray_angle g scr_w col
      in case dda 64 (ray_start g angle) of
           None \<Rightarrow> s
         | Some (r, wall_type) \<Rightarrow>
             draw_column scr_w scr_h col (slice_height scr_h (wall_dist g angle r)) (slice_color wall_type (side r)) s)"

definition cast_rays :: "ray_state \<Rightarrow> 'a gpu_state_scheme \<Rightarrow> 'a gpu_state_scheme" where
  "cast_rays g s = (let scr_w = gpu_target_w s; scr_h = gpu_target_h s in int_loop 0 scr_w (cast_ray g scr_w scr_h) s)"

definition draw_minimap :: "ray_state \<Rightarrow> 'a gpu_state_scheme \<Rightarrow> 'a gpu_state_scheme" where
  "draw_minimap g s =
     (let scale = 4; ox = 4; oy = 4;
          s1 = int_loop 0 MAP_H (\<lambda>my. int_loop 0 MAP_W (\<lambda>mx.
                 gpu_fill_rect (ox + mx * scale) (oy + my * scale) scale scale
                   (if cell mx my \<noteq> 0 then wall_colors ! cell mx my else COLOR_DKGRAY))) s
      in gpu_fill_rect (ox + FP_TO_INT (player_x g) * scale) (oy + FP_TO_INT (player_y g) * scale) 2 2 COLOR_YELLOW s1)"

definition raycaster_init :: "ray_state \<Rightarrow> ray_state" where
  "raycaster_init g = g\<lparr>player_x := INT_TO_FP 2 + FP_HALF, player_y := INT_TO_FP 2 + FP_HALF, player_angle := 0,
                        move_speed := FP_ONE div 8, rot_speed := 3\<rparr>"

definition try_move :: "int \<Rightarrow> int \<Rightarrow> ray_state \<Rightarrow> ray_state" where
  "try_move nx ny g =
     (let mx = FP_TO_INT nx; my = FP_TO_INT ny
      in if on_map mx my \<and> cell mx my = 0 then g\<lparr>player_x := nx, player_y := ny\<rparr> else g)"

definition raycaster_key :: "int \<Rightarrow> ray_state \<Rightarrow> ray_state" where
  "raycaster_key key g =
     (let g1 = (if key = KEY_LEFT \<or> key = 97 \<or> key = 65 then g\<lparr>player_angle := (player_angle g - rot_speed g) AND 0xFF\<rparr> else g);
          g2 = (if key = KEY_RIGHT \<or> key = 100 \<or> key = 68 then g1\<lparr>player_angle := (player_angle g1 + rot_speed g1) AND 0xFF\<rparr> else g1);
          dx = FP_MUL (fp_cos (player_angle g2)) (move_speed g2); dy = FP_MUL (fp_sin (player_angle g2)) (move_speed g2);
          g3 = (if key = KEY_UP \<or> key = 119 \<or> key = 87 then try_move (player_x g2 + dx) (player_y g2 + dy) g2 else g2)
      in if key = KEY_DOWN \<or> key = 115 \<or> key = 83 then try_move (player_x g3 - dx) (player_y g3 - dy) g3 else g3)"

definition raycaster_tick :: "ray_state \<Rightarrow> bool \<times> ray_state" where
  "raycaster_tick g = (False, g)"

definition raycaster_draw :: "ray_state \<Rightarrow> 'a gpu_state_scheme \<Rightarrow> 'a gpu_state_scheme" where
  "raycaster_draw g s =
     (let s1 = draw_minimap g (cast_rays g s); th = gpu_target_h s1
      in gpu_draw_string 8 (th - 20) ''WASD/Arrows:move  ESC:close'' COLOR_WHITE COLOR_DKGREEN s1)"

section \<open>The player stays on free cells\<close>

definition ray_inv :: "ray_state \<Rightarrow> bool" where
  "ray_inv g \<longleftrightarrow> on_map (FP_TO_INT (player_x g)) (FP_TO_INT (player_y g)) \<and>
     cell (FP_TO_INT (player_x g)) (FP_TO_INT (player_y g)) = 0 \<and> 0 \<le> player_angle g \<and> player_angle g < 256"

lemma and_255: "(x :: int) AND 255 = x mod 256"
  using take_bit_eq_mask [of 8 x] by (simp add: mask_eq_exp_minus_1 take_bit_eq_mod)

lemma raycaster_init_inv: "ray_inv (raycaster_init g)"
  by (simp add: ray_inv_def raycaster_init_def INT_TO_FP_def FP_HALF_def FP_TO_INT_def on_map_def MAP_W_def MAP_H_def cell_def world_map_def
      nth_Cons_numeral)

lemma turn_inv: "ray_inv g \<Longrightarrow> ray_inv (g\<lparr>player_angle := a AND 0xFF\<rparr>)"
  by (simp add: ray_inv_def and_255)

lemma try_move_inv: "ray_inv g \<Longrightarrow> ray_inv (try_move nx ny g)"
  by (simp add: ray_inv_def try_move_def Let_def)

lemma raycaster_key_inv: "ray_inv g \<Longrightarrow> ray_inv (raycaster_key key g)"
  unfolding raycaster_key_def Let_def by (simp add: turn_inv try_move_inv)

section \<open>Every ray meets a wall\<close>

text \<open>
  With every step a ray gets one cell further from its start, always in the same direction, so that on a map
  of 16 by 16 cells it meets a wall, or the edge, within 31 steps.
\<close>

definition progress :: "int \<Rightarrow> int \<Rightarrow> ray \<Rightarrow> int" where
  "progress x0 y0 r = (map_x r - x0) * step_x r + (map_y r - y0) * step_y r"

lemma advance_steps [simp]: "step_x (advance r) = step_x r" "step_y (advance r) = step_y r"
  by (simp_all add: advance_def)

lemma advance_progress:
  "\<bar>step_x r\<bar> = 1 \<Longrightarrow> \<bar>step_y r\<bar> = 1 \<Longrightarrow> progress x0 y0 (advance r) = progress x0 y0 r + 1"
  by (auto simp: progress_def advance_def algebra_simps abs_if split: if_splits)

lemma dda_hits:
  assumes "\<bar>step_x r\<bar> = 1" "\<bar>step_y r\<bar> = 1" and "on_map x0 y0" and "on_map (map_x r) (map_y r)"
    and "progress x0 y0 r + int n > 30"
  shows "\<exists>r' w. dda n r = Some (r', w)"
  using assms
proof (induction n arbitrary: r)
  case 0
  have "(map_x r - x0) * step_x r \<le> 15" "(map_y r - y0) * step_y r \<le> 15"
    using "0.prems"(1-4) by (auto simp: on_map_def MAP_W_def MAP_H_def abs_if split: if_splits)
  then show ?case using "0.prems"(5) by (simp add: progress_def)
next
  case (Suc n)
  have "progress x0 y0 (advance r) + int n > 30" using Suc.prems(5) advance_progress [OF Suc.prems(1,2)] by simp
  then show ?case using Suc.IH [of "advance r"] Suc.prems(1-3) by (auto simp: Let_def)
qed

lemma ray_start_steps: "\<bar>step_x (ray_start g a)\<bar> = 1" "\<bar>step_y (ray_start g a)\<bar> = 1"
  "map_x (ray_start g a) = FP_TO_INT (player_x g)" "map_y (ray_start g a) = FP_TO_INT (player_y g)"
  by (simp_all add: ray_start_def Let_def)

lemma cells_small: "on_map x y \<Longrightarrow> cell x y < 5"
proof -
  assume "on_map x y"
  then have x: "nat x < 16" and "nat y < 16" by (auto simp: on_map_def MAP_W_def MAP_H_def nat_less_iff)
  moreover have "length world_map = 16" by (simp add: world_map_def)
  moreover have "list_all (\<lambda>row. length row = 16 \<and> list_all (\<lambda>v. v < 5) row) world_map" by (simp add: world_map_def)
  ultimately have "length (world_map ! nat y) = 16 \<and> list_all (\<lambda>v. v < 5) (world_map ! nat y)" by (simp add: list_all_length)
  then show ?thesis using x unfolding cell_def by (simp add: list_all_length)
qed

lemma dda_wall: "dda n r = Some (r', w) \<Longrightarrow> 0 < w \<and> w < 5"
  by (induction n arbitrary: r) (auto simp: Let_def cells_small split: if_splits)

lemma ray_hits:
  assumes "ray_inv g" shows "\<exists>r w. dda 64 (ray_start g a) = Some (r, w) \<and> 0 < w \<and> w < 5"
proof -
  have "on_map (FP_TO_INT (player_x g)) (FP_TO_INT (player_y g))" using assms by (simp add: ray_inv_def)
  then obtain r w where "dda 64 (ray_start g a) = Some (r, w)"
    using dda_hits [of "ray_start g a" "FP_TO_INT (player_x g)" "FP_TO_INT (player_y g)" 64] ray_start_steps [of g a] by (auto simp: progress_def)
  then show ?thesis using dda_wall by blast
qed

section \<open>The slice of a column\<close>

lemma column_loop_paint:
  assumes "target_ok s" and "0 \<le> x" "x < cur_w s" "0 \<le> y0" "y1 \<le> cur_h s" and w: "w = cur_w s"
  shows "int_loop y0 y1 (\<lambda>j. store (j * w + x) c) s = paint (rect x y0 1 (y1 - y0) c) s"
proof -
  have "int_loop y0 y1 (\<lambda>j. store (j * w + x) c) s = paint (layers (map (\<lambda>j. dot x j c) [y0..y1 - 1])) s"
    unfolding w by (intro int_loop_paint [where s = s] store_in_paint; use assms in \<open>simp add: same_target_refl\<close>)
  also have "\<dots> = paint (rect x y0 1 (y1 - y0) c) s"
    by (rule paint_cong [OF assms(1)]) (subst layers_uniform [where Q = "\<lambda>j. a = x \<and> b = j" and r = "Some c" for a b]; force simp: dot_def rect_def)
  finally show ?thesis .
qed

lemma half_bounds: "0 \<le> (a::int) \<Longrightarrow> 0 \<le> a sdiv 2 \<and> a sdiv 2 \<le> a"
  by (cases "a = 0") (simp_all add: signed_divide_int_def)

text \<open>Ceiling, wall and floor of a column whose slice has height \<open>lh\<close>.\<close>

definition slice_picture :: "int \<Rightarrow> int \<Rightarrow> int \<Rightarrow> u32 \<Rightarrow> picture" where
  "slice_picture h col lh color = (\<lambda>a b.
     if a \<noteq> col then None
     else Some (if b < (h - lh) sdiv 2 then COLOR_DKGRAY else if b < (h - lh) sdiv 2 + lh then color else COLOR_DKGREEN))"

lemma draw_column_paint:
  assumes ok: "target_ok s" and col: "0 \<le> col" "col < cur_w s" and lh: "0 \<le> lh" "lh \<le> cur_h s"
  shows "draw_column (cur_w s) (cur_h s) col lh color s = paint (slice_picture (cur_h s) col lh color) s"
proof -
  define ds where "ds = (cur_h s - lh) sdiv 2"
  have ds: "0 \<le> ds" "ds + lh \<le> cur_h s" using half_bounds [of "cur_h s - lh"] lh by (simp_all add: ds_def)
  define s1 where "s1 = paint (rect col 0 1 ds COLOR_DKGRAY) s"
  define s2 where "s2 = paint (rect col ds 1 lh color) s1"
  have 1: "int_loop 0 ds (\<lambda>y. store (y * cur_w s + col) COLOR_DKGRAY) s = s1"
    using column_loop_paint [OF ok col, of 0 ds "cur_w s" COLOR_DKGRAY] ds lh by (simp add: s1_def)
  have ok1: "target_ok s1" "cur_w s1 = cur_w s" "cur_h s1 = cur_h s" using ok by (simp_all add: s1_def)
  have guard: "int_loop ds (ds + lh) (\<lambda>y t. if y \<ge> 0 then store (y * cur_w s + col) color t else t) s1 =
      int_loop ds (ds + lh) (\<lambda>y. store (y * cur_w s + col) color) s1"
    unfolding int_loop_def using ds(1) by (intro fold_cong) auto
  have 2: "int_loop ds (min (ds + lh) (cur_h s)) (\<lambda>y t. if y \<ge> 0 then store (y * cur_w s + col) color t else t) s1 = s2"
  proof -
    have "min (ds + lh) (cur_h s) = ds + lh" using ds(2) by (rule min_absorb1)
    moreover have "int_loop ds (ds + lh) (\<lambda>y. store (y * cur_w s + col) color) s1 = s2"
      using column_loop_paint [OF ok1(1), of col ds "ds + lh" "cur_w s" color] col ds unfolding ok1(2,3) by (simp add: s2_def)
    ultimately show ?thesis using guard by (simp only:)
  qed
  have ok2: "target_ok s2" "cur_w s2 = cur_w s" "cur_h s2 = cur_h s" using ok1 by (simp_all add: s2_def)
  have "draw_column (cur_w s) (cur_h s) col lh color s = paint (rect col (ds + lh) 1 (cur_h s - (ds + lh)) COLOR_DKGREEN) s2"
    using column_loop_paint [OF ok2(1), of col "ds + lh" "cur_h s" "cur_w s" COLOR_DKGREEN] col ds lh
    unfolding draw_column_def Let_def ds_def [symmetric] 1 2 ok2(2,3) by simp
  also have "\<dots> = paint (slice_picture (cur_h s) col lh color) s"
    unfolding s2_def s1_def paint_over
  proof (rule paint_cong [OF ok])
    fix x y assume "0 \<le> y" "y < cur_h s"
    then show "over (rect col (ds + lh) 1 (cur_h s - (ds + lh)) COLOR_DKGREEN) (over (rect col ds 1 lh color) (rect col 0 1 ds COLOR_DKGRAY)) x y =
        slice_picture (cur_h s) col lh color x y"
      unfolding slice_picture_def ds_def [symmetric] over_def rect_def using ds lh by simp
  qed
  finally show ?thesis .
qed

text \<open>A wall further away than two heights of the target, in fixed point, gives a slice that fits.\<close>

lemma s32_id: "- (2 ^ 31) \<le> x \<Longrightarrow> x < 2 ^ 31 \<Longrightarrow> s32 x = x"
  unfolding s32_def sint_sbintrunc' by (rule signed_take_bit_int_eq_self) simp_all

lemma slice_height_fits:
  assumes "0 \<le> h" and "2 * h < d" shows "0 \<le> slice_height h d" and "slice_height h d \<le> h"
proof -
  define q where "q = h * 65536 * 65536 div d"
  have "d * q + h * 65536 * 65536 mod d = h * 65536 * 65536" unfolding q_def by (rule mult_div_mod_eq)
  moreover have "0 \<le> h * 65536 * 65536 mod d" using assms by (intro pos_mod_sign) simp
  ultimately have "d * q \<le> h * 2 ^ 32" by simp
  have "q < 2 ^ 31"
  proof (rule ccontr)
    assume "\<not> q < 2 ^ 31"
    then have "d * 2 ^ 31 \<le> d * q" using assms by (intro mult_left_mono) linarith+
    moreover have "h * 2 ^ 32 < d * 2 ^ 31" using assms(2) by simp
    ultimately show False using \<open>d * q \<le> h * 2 ^ 32\<close> by linarith
  qed
  moreover have "0 \<le> q" using assms by (simp add: q_def pos_imp_zdiv_nonneg_iff)
  moreover have "(h * 65536 * 65536) sdiv d = q" using assms by (simp add: q_def signed_divide_int_def sgn_if)
  ultimately have "FP_DIV (INT_TO_FP h) d = q" using s32_id [of q] by (simp add: FP_DIV_def INT_TO_FP_def)
  with \<open>0 \<le> q\<close> show "0 \<le> slice_height h d" "slice_height h d \<le> h"
    using assms(1) by (simp_all add: slice_height_def Let_def FP_TO_INT_def pos_imp_zdiv_nonneg_iff)
qed

section \<open>Properties\<close>

definition ray_reached :: "int list \<Rightarrow> ray_state \<Rightarrow> ray_state" where
  "ray_reached keys g = fold raycaster_key keys (raycaster_init g)"

lemma ray_reached_inv: "ray_inv (ray_reached keys g)"
proof -
  have "ray_inv h \<Longrightarrow> ray_inv (fold raycaster_key ks h)" for ks h
    by (induction ks arbitrary: h) (simp_all add: raycaster_key_inv)
  then show ?thesis by (simp add: ray_reached_def raycaster_init_inv)
qed

text \<open>What a column of the view shows: the slice of the wall its ray meets.\<close>

definition view_picture :: "ray_state \<Rightarrow> int \<Rightarrow> int \<Rightarrow> picture" where
  "view_picture g w h = (\<lambda>x y.
     case dda 64 (ray_start g (ray_angle g w x)) of
       None \<Rightarrow> None
     | Some (r, wall_type) \<Rightarrow> slice_picture h x (slice_height h (wall_dist g (ray_angle g w x) r)) (slice_color wall_type (side r)) x y)"

definition view_dist :: "ray_state \<Rightarrow> int \<Rightarrow> int \<Rightarrow> int" where
  "view_dist g w col = (case dda 64 (ray_start g (ray_angle g w col)) of None \<Rightarrow> 0 | Some (r, wall_type) \<Rightarrow> wall_dist g (ray_angle g w col) r)"

lemma cast_ray_paint:
  assumes inv: "ray_inv g" and ok: "target_ok s" and col: "0 \<le> col" "col < cur_w s" and d: "2 * cur_h s < view_dist g (cur_w s) col"
  shows "cast_ray g (cur_w s) (cur_h s) col s = paint (\<lambda>x y. if x = col then view_picture g (cur_w s) (cur_h s) x y else None) s"
proof -
  obtain r w where r: "dda 64 (ray_start g (ray_angle g (cur_w s) col)) = Some (r, w)" using ray_hits [OF inv] by blast
  have h: "0 \<le> cur_h s" using ok by (simp add: target_ok_def)
  have d': "2 * cur_h s < wall_dist g (ray_angle g (cur_w s) col) r" using d r by (simp add: view_dist_def)
  have "cast_ray g (cur_w s) (cur_h s) col s =
      paint (slice_picture (cur_h s) col (slice_height (cur_h s) (wall_dist g (ray_angle g (cur_w s) col) r)) (slice_color w (side r))) s"
    using draw_column_paint [OF ok col slice_height_fits [OF h d']] by (simp add: cast_ray_def r)
  also have "\<dots> = paint (\<lambda>x y. if x = col then view_picture g (cur_w s) (cur_h s) x y else None) s"
    by (rule paint_cong [OF ok]) (simp add: view_picture_def r slice_picture_def)
  finally show ?thesis .
qed

lemma cast_rays_paint:
  assumes inv: "ray_inv g" and ok: "target_ok s"
    and d: "\<And>col. 0 \<le> col \<Longrightarrow> col < cur_w s \<Longrightarrow> 2 * cur_h s < view_dist g (cur_w s) col"
  shows "cast_rays g s = paint (view_picture g (cur_w s) (cur_h s)) s"
proof -
  let ?p = "\<lambda>col x y. if x = col then view_picture g (cur_w s) (cur_h s) x y else None"
  have "cast_ray g (cur_w s) (cur_h s) col t = paint (?p col) t" if "same_target s t" "0 \<le> col" "col < cur_w s" for col t
    using cast_ray_paint [OF inv, of t col] d [OF that(2,3)] that(2,3) unfolding same_targetD(2,3) [OF that(1)]
    by (simp add: same_targetD(1) [OF that(1)])
  then have "cast_rays g s = paint (layers (map ?p [0..cur_w s - 1])) s"
    unfolding cast_rays_def Let_def gpu_target_w_def gpu_target_h_def
    by (intro int_loop_paint [where s = s]) (auto intro: same_target_refl [OF ok])
  also have "\<dots> = paint (view_picture g (cur_w s) (cur_h s)) s"
    by (rule paint_cong [OF ok])
      (subst layers_uniform [where Q = "\<lambda>col. a = col" and r = "view_picture g (cur_w s) (cur_h s) a b" for a b]; force)
  finally show ?thesis .
qed

text \<open>
  The player never stands in a wall, whatever keys are pressed, and every ray meets a wall of
  the map or its edge within the 64 steps of the loop. As long as no wall is closer than two heights of
  the target, in units of 1/65536 cell, each column of the target shows ceiling, the wall's slice and floor,
  and nothing outside the target is written.
\<close>

theorem raycaster_view:
  assumes "target_ok s" and "list_all (\<lambda>col. 2 * cur_h s < view_dist (ray_reached keys g0) (cur_w s) col) [0..cur_w s - 1]"
  shows "ray_inv (ray_reached keys g0) \<and>
         (\<forall>a. \<exists>r w. dda 64 (ray_start (ray_reached keys g0) a) = Some (r, w) \<and> 0 < w \<and> w < 5) \<and>
         cast_rays (ray_reached keys g0) s = paint (view_picture (ray_reached keys g0) (cur_w s) (cur_h s)) s \<and>
         draws s (raycaster_draw (ray_reached keys g0) s)"
proof -
  note inv = ray_reached_inv [of keys g0]
  have c: "cast_rays (ray_reached keys g0) s = paint (view_picture (ray_reached keys g0) (cur_w s) (cur_h s)) s"
    using assms(2) by (intro cast_rays_paint [OF inv assms(1)]) (simp add: list_all_iff)
  have "draws s (raycaster_draw (ray_reached keys g0) s)"
    unfolding raycaster_draw_def draw_minimap_def Let_def c by (intro draws_intros assms draws_paint)
  then show ?thesis using inv ray_hits [OF inv] c by blast
qed

text \<open>Walking backwards and turning round, from the start of a game.\<close>

lemma fold_replicate_Suc: "fold f (replicate (Suc n) x) s = f x (fold f (replicate n x) s)"
  by (induction n arbitrary: s) simp_all

lemma back_steps:
  "n \<le> 12 \<Longrightarrow> fold raycaster_key (replicate n KEY_DOWN) (raycaster_init g) = (raycaster_init g)\<lparr>player_x := 163840 - 8192 * int n\<rparr>"
proof (induction n)
  case 0 then show ?case by (simp add: raycaster_init_def INT_TO_FP_def FP_HALF_def)
next
  case (Suc n)
  have cs: "fp_cos 0 = 65536" "fp_sin 0 = 0" by code_simp+
  have mul: "FP_MUL 65536 8192 = 8192" "FP_MUL 0 8192 = 0" by (simp_all add: FP_MUL_def s32_def)
  let ?x = "163840 - 8192 * int (Suc n)"
  have "65536 div 65536 \<le> ?x div 65536" "?x div 65536 \<le> 163840 div 65536" using Suc.prems by (intro zdiv_mono1; simp)+
  then have "FP_TO_INT ?x = 1 \<or> FP_TO_INT ?x = 2" by (auto simp: FP_TO_INT_def)
  moreover have "cell 1 2 = 0" "cell 2 2 = 0" by (simp_all add: cell_def world_map_def nth_Cons_numeral)
  ultimately have free: "on_map (FP_TO_INT ?x) 2 \<and> cell (FP_TO_INT ?x) 2 = 0" by (auto simp: on_map_def MAP_W_def MAP_H_def)
  have two: "FP_TO_INT 163840 = 2" by (simp add: FP_TO_INT_def)
  let ?g = "(raycaster_init g)\<lparr>player_x := 163840 - 8192 * int n\<rparr>"
  have f: "player_angle ?g = 0" "move_speed ?g = 8192" "player_x ?g = 163840 - 8192 * int n" "player_y ?g = 163840"
    by (simp_all add: raycaster_init_def FP_ONE_def INT_TO_FP_def FP_HALF_def)
  have x: "163840 - 8192 * int n - 8192 = ?x" by simp
  have key: "raycaster_key KEY_DOWN ?g = try_move ?x 163840 ?g"
    unfolding raycaster_key_def Let_def using f cs mul x
    by (simp add: KEY_DOWN_def KEY_LEFT_def KEY_RIGHT_def KEY_UP_def)
  have "fold raycaster_key (replicate (Suc n) KEY_DOWN) (raycaster_init g) = raycaster_key KEY_DOWN ?g"
    using Suc by (simp only: fold_replicate_Suc Suc_leD)
  also have "\<dots> = try_move ?x 163840 ?g" by (rule key)
  also have "\<dots> = ?g\<lparr>player_x := ?x\<rparr>" using free two f(4) by (simp add: try_move_def Let_def)
  finally show ?case by simp
qed

lemma left_turns:
  "rot_speed g = 3 \<Longrightarrow> 0 \<le> player_angle g \<Longrightarrow> player_angle g < 256 \<Longrightarrow>
   fold raycaster_key (replicate n KEY_LEFT) g = g\<lparr>player_angle := (player_angle g - 3 * int n) mod 256\<rparr>"
proof (induction n arbitrary: g)
  case (Suc n)
  let ?g = "g\<lparr>player_angle := (player_angle g - 3) mod 256\<rparr>"
  have "raycaster_key KEY_LEFT g = ?g"
    using Suc.prems by (simp add: raycaster_key_def Let_def KEY_DOWN_def KEY_LEFT_def KEY_RIGHT_def KEY_UP_def and_255)
  moreover have "((player_angle g - 3) mod 256 - 3 * int n) mod 256 = (player_angle g - 3 * int (Suc n)) mod 256"
    by (simp add: mod_diff_left_eq algebra_simps)
  ultimately show ?case using Suc.IH [of ?g] Suc.prems(1) by simp
qed simp

definition cornered :: "ray_state \<Rightarrow> ray_state" where
  "cornered g0 = ray_reached (replicate 12 KEY_DOWN @ replicate 43 KEY_LEFT) g0"

lemma cornered_at: "cornered g0 = \<lparr>player_x = 65536, player_y = 163840, player_angle = 127, move_speed = 8192, rot_speed = 3, \<dots> = ray_state.more g0\<rparr>"
  unfolding cornered_def ray_reached_def fold_append comp_apply
  by (subst back_steps, simp, subst left_turns) (simp_all add: raycaster_init_def INT_TO_FP_def FP_HALF_def FP_ONE_def)

section \<open>A wall too close\<close>

text \<open>Code that only stores pixels: the target stays, the buffers keep their sizes, and a fault stays.\<close>

definition stored :: "'a gpu_state_scheme \<Rightarrow> 'a gpu_state_scheme \<Rightarrow> bool" where
  "stored s t \<longleftrightarrow> (fault s \<longrightarrow> fault t) \<and>
     (\<exists>p. t = s\<lparr>pixels := p, fault := fault t\<rparr> \<and> (\<forall>b. length (p b) = length (pixels s b)))"

lemma storedD:
  assumes "stored s t"
  shows "fault s \<Longrightarrow> fault t" and "cur_buf t = cur_buf s" and "cur_w t = cur_w s" and "cur_h t = cur_h s"
    and "length (pixels t b) = length (pixels s b)"
proof -
  obtain p where t: "t = s\<lparr>pixels := p, fault := fault t\<rparr>" and p: "\<forall>b. length (p b) = length (pixels s b)"
    and f: "fault s \<longrightarrow> fault t" using assms by (auto simp: stored_def)
  have "cur_buf (s\<lparr>pixels := p, fault := fault t\<rparr>) = cur_buf s" "cur_w (s\<lparr>pixels := p, fault := fault t\<rparr>) = cur_w s"
    "cur_h (s\<lparr>pixels := p, fault := fault t\<rparr>) = cur_h s" "pixels (s\<lparr>pixels := p, fault := fault t\<rparr>) = p" by simp_all
  then show "fault s \<Longrightarrow> fault t" "cur_buf t = cur_buf s" "cur_w t = cur_w s" "cur_h t = cur_h s" "length (pixels t b) = length (pixels s b)"
    using f p unfolding t [symmetric] by simp_all
qed

lemma storedI:
  "t = s\<lparr>pixels := p, fault := f\<rparr> \<Longrightarrow> (\<And>b. length (p b) = length (pixels s b)) \<Longrightarrow> (fault s \<Longrightarrow> f) \<Longrightarrow> stored s t"
  by (auto simp: stored_def)

lemma stored_refl: "stored s s"
  by (rule storedI [where p = "pixels s" and f = "fault s"]) simp_all

lemma stored_trans: "stored s t \<Longrightarrow> stored t u \<Longrightarrow> stored s u"
proof -
  assume st: "stored s t" and tu: "stored t u"
  obtain p where p: "t = s\<lparr>pixels := p, fault := fault t\<rparr>" using st by (auto simp: stored_def)
  obtain q where q: "u = t\<lparr>pixels := q, fault := fault u\<rparr>" "\<forall>b. length (q b) = length (pixels t b)" using tu by (auto simp: stored_def)
  have "t\<lparr>pixels := q, fault := fault u\<rparr> = s\<lparr>pixels := q, fault := fault u\<rparr>" by (subst p) simp
  with q(1) have "u = s\<lparr>pixels := q, fault := fault u\<rparr>" by (rule trans)
  then show ?thesis
    using q(2) storedD(5) [OF st] storedD(1) [OF st] storedD(1) [OF tu] unfolding stored_def by (intro conjI exI [of _ q]) simp_all
qed

lemma stored_store: "stored s t \<Longrightarrow> stored s (store i c t)"
proof (erule stored_trans)
  show "stored t (store i c t)"
  proof (cases "0 \<le> i \<and> nat i < length (pixels t (cur_buf t))")
    case True
    then show ?thesis
      by (intro storedI [where p = "(pixels t)(cur_buf t := (pixels t (cur_buf t))[nat i := c])" and f = "fault t"]) (simp_all add: store_def Let_def)
  next
    case False
    then show ?thesis by (intro storedI [where p = "pixels t" and f = True]) (auto simp: store_def Let_def)
  qed
qed

lemma stored_draws: "draws s t \<Longrightarrow> stored s t"
proof -
  assume "draws s t"
  then obtain p where "t = paint p s" by (auto simp: draws_def)
  then show ?thesis by (intro storedI [where p = "pixels (paint p s)" and f = "fault s"]) (simp_all add: paint_def Let_def)
qed

lemma stored_fold: "(\<And>i t. stored s t \<Longrightarrow> stored s (f i t)) \<Longrightarrow> stored s t \<Longrightarrow> stored s (fold f is t)"
  by (induction "is" arbitrary: t) simp_all

lemma stored_int_loop:
  "(\<And>i t. stored s t \<Longrightarrow> stored s (f i t)) \<Longrightarrow> stored s t \<Longrightarrow> stored s (int_loop lo hi f t)"
  unfolding int_loop_def by (rule stored_fold)

lemma stored_draw_column: "stored s t \<Longrightarrow> stored s (draw_column w h col lh c t)"
  unfolding draw_column_def Let_def by (intro stored_int_loop) (simp_all add: stored_store)

lemma stored_cast_ray: "stored s t \<Longrightarrow> stored s (cast_ray g w h col t)"
  by (simp add: cast_ray_def Let_def stored_draw_column split: option.split prod.split)

lemma int_loop_fault:
  assumes f: "\<And>i t. stored t (f i t)" and i: "lo \<le> i" "i < hi" and bad: "\<And>t. stored s t \<Longrightarrow> fault (f i t)"
  shows "fault (int_loop lo hi f s)"
proof -
  have split: "[lo..hi - 1] = [lo..i - 1] @ i # [i + 1..hi - 1]"
    using i upto_split3 [of lo i "hi - 1"] by simp
  have keep: "stored s' (fold f is s')" for "is" s'
    by (induction "is" arbitrary: s') (auto intro: stored_refl stored_trans [OF f])
  have "fault (f i (fold f [lo..i - 1] s))" by (rule bad [OF keep])
  then show ?thesis unfolding int_loop_def split using keep [of "f i (fold f [lo..i - 1] s)" "[i + 1..hi - 1]"] storedD(1) by fastforce
qed

lemma draw_column_overflow:
  assumes "stored s t" and "length (pixels s (cur_buf s)) \<le> 7000000"
  shows "fault (draw_column 500 400 262 (- 28672) c t)"
proof -
  let ?t1 = "int_loop 0 14536 (\<lambda>y. store (y * 500 + 262) COLOR_DKGRAY) t"
  have "fault ?t1"
  proof (rule int_loop_fault [where i = 14535])
    fix u assume "stored t u"
    then have "length (pixels u (cur_buf u)) \<le> 7000000" using assms by (simp add: storedD(2,5) [OF \<open>stored t u\<close>] storedD(2,5) [OF assms(1)])
    then show "fault (store (14535 * 500 + 262) COLOR_DKGRAY u)" by (simp add: store_def Let_def)
  qed (simp_all add: stored_store stored_refl)
  moreover have "stored ?t1 (draw_column 500 400 262 (- 28672) c t)"
    unfolding draw_column_def Let_def by (simp add: signed_divide_int_def)
      (rule stored_int_loop, simp add: stored_store, rule stored_int_loop, simp add: stored_store, rule stored_refl)
  ultimately show ?thesis using storedD(1) by blast
qed

lemma cornered_ray: "ray_angle (cornered g0) 500 262 = 128"
  by (simp add: ray_angle_def cornered_at FOV_def signed_divide_int_def and_255)

lemma cornered_wall: "\<exists>r. dda 64 (ray_start (cornered g0) 128) = Some (r, 1) \<and> slice_height 400 (wall_dist (cornered g0) 128 r) = - 28672"
proof -
  have cs: "fp_cos 128 = - 65536" "fp_sin 128 = 0" "fp_cos 1 = 65516" by code_simp+
  define r0 where "r0 = ray_start (cornered g0) 128"
  have r0: "r0 = \<lparr>map_x = 1, map_y = 2, delta_dist_x = 65536, delta_dist_y = 0x7FFFFFFF, step_x = -1, step_y = 1,
      side_dist_x = 0, side_dist_y = 0x3FFFFFFF, side = False\<rparr>"
    unfolding r0_def ray_start_def Let_def cs cornered_at
    by (simp add: FP_TO_INT_def INT_TO_FP_def fp_abs_def FP_DIV_def FP_MUL_def FP_ONE_def s32_def signed_divide_int_def)
  have "cell 0 2 = 1" by (simp add: cell_def world_map_def nth_Cons_numeral)
  then have "dda (Suc 63) r0 = Some (r0\<lparr>side_dist_x := 65536, map_x := 0\<rparr>, 1)"
    unfolding dda.simps Let_def by (simp add: advance_def r0 on_map_def MAP_W_def MAP_H_def)
  then have "dda 64 r0 = Some (r0\<lparr>side_dist_x := 65536, map_x := 0\<rparr>, 1)" by simp
  moreover have "slice_height 400 (wall_dist (cornered g0) 128 (r0\<lparr>side_dist_x := 65536, map_x := 0\<rparr>)) = - 28672"
    unfolding wall_dist_def slice_height_def Let_def r0 cornered_at
    by (simp add: cs FP_TO_INT_def INT_TO_FP_def FP_DIV_def FP_MUL_def s32_def signed_divide_int_def)
  ultimately show ?thesis unfolding r0_def [symmetric] by blast
qed

lemma raycaster_draw_stored:
  assumes "target_ok s" shows "stored s (raycaster_draw g s)"
proof -
  have c: "stored s (cast_rays g s)"
    unfolding cast_rays_def Let_def by (rule stored_int_loop) (simp_all add: stored_cast_ray stored_refl)
  then have "target_ok (cast_rays g s)" using assms by (simp add: target_ok_def storedD)
  then have "draws (cast_rays g s) (raycaster_draw g s)"
    unfolding raycaster_draw_def draw_minimap_def Let_def by (intro draws_intros)
  then show ?thesis using c stored_draws stored_trans by blast
qed

text \<open>
  Close to a wall the height of its slice does not fit into 32 bits and comes out negative, and
  \<^verbatim>\<open>cast_rays\<close> writes the ceiling far behind the end of the window's buffer. Twelve steps
  backwards and 43 turns to the left, in a new game in its window of 500 by 400 pixels, get there.
\<close>

theorem raycaster_writes_outside:
  assumes "target_ok s" and "cur_w s = 500" and "cur_h s = 400" and "length (pixels s (cur_buf s)) = 196 * PAGE_PIXELS"
  shows "fault (raycaster_draw (cornered g0) s)"
proof -
  define t where "t = cast_rays (cornered g0) s"
  obtain r where r: "dda 64 (ray_start (cornered g0) 128) = Some (r, 1)" "slice_height 400 (wall_dist (cornered g0) 128 r) = - 28672"
    using cornered_wall by blast
  have len: "length (pixels s (cur_buf s)) \<le> 7000000" using assms(4) by (simp add: PAGE_PIXELS_def)
  have t: "t = int_loop 0 500 (cast_ray (cornered g0) 500 400) s"
    using assms(2,3) by (simp add: t_def cast_rays_def Let_def gpu_target_w_def gpu_target_h_def)
  have "fault t" unfolding t
  proof (rule int_loop_fault [where i = 262])
    fix u assume "stored s u"
    then show "fault (cast_ray (cornered g0) 500 400 262 u)"
      using draw_column_overflow [OF _ len] by (simp add: cast_ray_def Let_def cornered_ray r)
  qed (simp_all add: stored_cast_ray stored_refl)
  have "stored s t" unfolding t by (rule stored_int_loop) (simp_all add: stored_cast_ray stored_refl)
  then have "target_ok t" using assms(1) by (simp add: target_ok_def storedD)
  then have "draws t (raycaster_draw (cornered g0) s)"
    unfolding raycaster_draw_def draw_minimap_def Let_def t_def [symmetric] by (intro draws_intros)
  then show ?thesis using drawsD(7) \<open>fault t\<close> by blast
qed

definition ray_zero :: ray_state where
  "ray_zero = \<lparr>player_x = 0, player_y = 0, player_angle = 0, move_speed = 0, rot_speed = 0\<rparr>"

definition ray_target :: "int \<Rightarrow> int \<Rightarrow> nat \<Rightarrow> gpu_state" where
  "ray_target w h n = \<lparr>page_bitmap = replicate BITMAP_SIZE 0, total_pages = of_nat MAX_PAGES, used_pages = 0, mem = (\<lambda>_. 0),
     frontbuf = 0, backbuf = 0, cur_buf = 0x40100000, cur_w = w, cur_h = h, pixels = (\<lambda>_. replicate n 0), fault = False\<rparr>"

theorem raycaster_writes_outside_witness: "fault (raycaster_draw (cornered ray_zero) (ray_target 500 400 (196 * PAGE_PIXELS)))"
  by (rule raycaster_writes_outside) (simp_all add: ray_target_def target_ok_def PAGE_PIXELS_def)

lemma start_view: "16 < view_dist (ray_reached [] ray_zero) 1 0"
  by code_simp

theorem raycaster_view_witness: "draws (ray_target 1 8 8) (raycaster_draw (ray_reached [] ray_zero) (ray_target 1 8 8))"
proof -
  have "target_ok (ray_target 1 8 8)" by (simp add: ray_target_def target_ok_def)
  moreover have "list_all (\<lambda>col. 2 * cur_h (ray_target 1 8 8) < view_dist (ray_reached [] ray_zero) (cur_w (ray_target 1 8 8)) col)
       [0..cur_w (ray_target 1 8 8) - 1]"
    by (simp add: ray_target_def start_view)
  ultimately show ?thesis using raycaster_view by blast
qed

end
