(* ===== verification/Gui.thy ===== *)
theory Gui
  imports Terminal Wm_Screen Snake Breakout Raycaster
begin

text \<open>
  The desktop (\<^verbatim>\<open>kernel/gui.c\<close>): start menu, the applications in their windows, and the main loop.
  The state holds the window manager's state, the variables of \<^verbatim>\<open>gui.c\<close> and those of the
  applications, of which there is one instance each. What a frame reads from outside (mouse, keys,
  the timer, the task table) is its argument. A Tetris function that would not return gives no result.
\<close>

section \<open>State\<close>

definition FRAME_TICKS :: int where "FRAME_TICKS = 3"

abbreviation APP_NONE :: int where "APP_NONE \<equiv> 0"
abbreviation APP_TERMINAL :: int where "APP_TERMINAL \<equiv> 1"
abbreviation APP_SNAKE :: int where "APP_SNAKE \<equiv> 2"
abbreviation APP_TETRIS :: int where "APP_TETRIS \<equiv> 3"
abbreviation APP_RAYCASTER :: int where "APP_RAYCASTER \<equiv> 4"
abbreviation APP_BREAKOUT :: int where "APP_BREAKOUT \<equiv> 5"

definition MENU_ITEMS :: nat where "MENU_ITEMS = 5"
definition menu_labels :: "string list" where "menu_labels = [''Terminal'', ''Snake'', ''Tetris'', ''Raycaster'', ''Breakout'']"
definition menu_app_types :: "int list" where "menu_app_types = [APP_TERMINAL, APP_SNAKE, APP_TETRIS, APP_RAYCASTER, APP_BREAKOUT]"
definition MENU_ITEM_H :: int where "MENU_ITEM_H = 24"
definition MENU_W :: int where "MENU_W = 140"

record gui_state =
  desktop :: wm_state
  win_app_type :: "int list"
  start_menu_open :: bool
  term_win_id :: int
  term_app :: terminal
  snake_app :: snake_state
  tetris_app :: tetris_state
  ray_app :: ray_state
  breakout_app :: breakout_state
  prev_left :: bool

text \<open>What the main loop reads from outside during one frame.\<close>

record frame_input =
  mouse_x :: int
  mouse_y :: int
  mouse_b :: int
  polled :: "int list"
  open_time :: u64
  open_time' :: u64
  tick_time :: "nat \<Rightarrow> u64"
  task_table :: "int \<Rightarrow> task option"

section \<open>Start menu\<close>

definition menu_h :: int where "menu_h = int MENU_ITEMS * MENU_ITEM_H + 4"
definition menu_y :: int where "menu_y = FB_HEIGHT - TASKBAR_H - menu_h"
definition item_y :: "nat \<Rightarrow> int" where "item_y i = menu_y + 2 + int i * MENU_ITEM_H"

definition draw_start_menu :: "bool \<Rightarrow> int \<Rightarrow> int \<Rightarrow> 'a gpu_state_scheme \<Rightarrow> 'a gpu_state_scheme" where
  "draw_start_menu menu_open mx my s =
     (if \<not> menu_open then s
      else
        let s1 = gpu_fill_rect 0 menu_y MENU_W menu_h COLOR_DKGRAY s;
            s2 = gpu_draw_rect 0 menu_y MENU_W menu_h COLOR_GRAY s1
        in for_loop 0 MENU_ITEMS (\<lambda>i s.
             let iy = item_y i
             in if mx \<ge> 0 \<and> mx < 0 + MENU_W \<and> my \<ge> iy \<and> my < iy + MENU_ITEM_H
                then let t = gpu_fill_rect (0 + 1) iy (MENU_W - 2) MENU_ITEM_H 0x00336699 s
                     in gpu_draw_string (0 + 8) (iy + 5) (menu_labels ! i) COLOR_WHITE 0x00336699 t
                else gpu_draw_string (0 + 8) (iy + 5) (menu_labels ! i) COLOR_LTGRAY COLOR_DKGRAY s) s2)"

text \<open>The selected application, or \<open>-1\<close>, and whether the menu is still open.\<close>

definition start_menu_click :: "bool \<Rightarrow> int \<Rightarrow> int \<Rightarrow> int \<times> bool" where
  "start_menu_click menu_open mx my =
     (if \<not> menu_open then (-1, menu_open)
      else if mx < 0 \<or> mx \<ge> 0 + MENU_W \<or> my < menu_y \<or> my \<ge> menu_y + menu_h then (-1, False)
      else case first_idx (\<lambda>i. my \<ge> item_y i \<and> my < item_y i + MENU_ITEM_H) 0 MENU_ITEMS of
             Some i \<Rightarrow> (menu_app_types ! i, False)
           | None \<Rightarrow> (-1, False))"

section \<open>Applications\<close>

definition app_start :: "u64 \<Rightarrow> u64 \<Rightarrow> int \<Rightarrow> gui_state \<Rightarrow> gui_state" where
  "app_start now now' app_type g =
     (if app_type = APP_TERMINAL
      then g\<lparr>term_app := term_putline '''' (term_putline ''Type 'help' for commands.'' (term_putline ''Dragoon Terminal v0.2''
               ((term_clear (term_app g))\<lparr>term_input_len := 0\<rparr>)))\<rparr>
      else if app_type = APP_SNAKE then g\<lparr>snake_app := snake_init now now' (snake_app g)\<rparr>
      else if app_type = APP_TETRIS then g\<lparr>tetris_app := tetris_init now now' (tetris_app g)\<rparr>
      else if app_type = APP_RAYCASTER then g\<lparr>ray_app := raycaster_init (ray_app g)\<rparr>
      else if app_type = APP_BREAKOUT
           then g\<lparr>breakout_app := breakout_init now (gpu_target_w (desktop g)) (gpu_target_h (desktop g)) (breakout_app g)\<rparr>
      else g)"

definition app_init :: "u64 \<Rightarrow> u64 \<Rightarrow> int \<Rightarrow> int \<Rightarrow> gui_state \<Rightarrow> gui_state" where
  "app_init now now' win_id app_type g =
     (let d = desktop g; content = wm_get_content win_id d; cw = wm_get_content_w win_id d; ch = wm_get_content_h win_id d
      in if content = 0 then g
         else let g1 = app_start now now' app_type (g\<lparr>desktop := gpu_set_target content cw ch d\<rparr>)
              in g1\<lparr>desktop := gpu_reset_target (desktop g1)\<rparr>)"

definition app_key :: "(int \<Rightarrow> task option) \<Rightarrow> int \<Rightarrow> int \<Rightarrow> gui_state \<Rightarrow> gui_state option" where
  "app_key tab win_id key g =
     (let app = win_app_type g ! nat win_id
      in if app = APP_TERMINAL
         then Some (g\<lparr>term_app := term_handle_key tab (mm_get_free_pages (desktop g)) (mm_get_total_pages (desktop g)) key (term_app g)\<rparr>)
         else if app = APP_SNAKE then Some (g\<lparr>snake_app := snake_key key (snake_app g)\<rparr>)
         else if app = APP_TETRIS then map_option (\<lambda>a. g\<lparr>tetris_app := a\<rparr>) (tetris_key key (tetris_app g))
         else if app = APP_RAYCASTER then Some (g\<lparr>ray_app := raycaster_key key (ray_app g)\<rparr>)
         else if app = APP_BREAKOUT then Some (g\<lparr>breakout_app := breakout_key key (breakout_app g)\<rparr>)
         else Some g)"

definition app_tick :: "u64 \<Rightarrow> nat \<Rightarrow> gui_state \<Rightarrow> gui_state option" where
  "app_tick now win_id g =
     (let app = win_app_type g ! win_id
      in if app = APP_SNAKE then Some (g\<lparr>snake_app := snd (snake_tick now (snake_app g))\<rparr>)
         else if app = APP_TETRIS then map_option (\<lambda>(r, a). g\<lparr>tetris_app := a\<rparr>) (tetris_tick now (tetris_app g))
         else if app = APP_RAYCASTER then Some (g\<lparr>ray_app := snd (raycaster_tick (ray_app g))\<rparr>)
         else if app = APP_BREAKOUT then Some (g\<lparr>breakout_app := snd (breakout_tick now (breakout_app g))\<rparr>)
         else Some g)"

definition app_draw :: "int \<Rightarrow> gui_state \<Rightarrow> gui_state" where
  "app_draw app g =
     (if app = APP_TERMINAL
      then let (t, d) = term_render_to_target (term_app g) (desktop g) in g\<lparr>term_app := t, desktop := d\<rparr>
      else if app = APP_SNAKE then g\<lparr>desktop := snake_draw (snake_app g) (desktop g)\<rparr>
      else if app = APP_TETRIS then g\<lparr>desktop := tetris_draw (tetris_app g) (desktop g)\<rparr>
      else if app = APP_RAYCASTER then g\<lparr>desktop := raycaster_draw (ray_app g) (desktop g)\<rparr>
      else if app = APP_BREAKOUT then g\<lparr>desktop := breakout_draw (breakout_app g) (desktop g)\<rparr>
      else g)"

definition app_render :: "nat \<Rightarrow> gui_state \<Rightarrow> gui_state" where
  "app_render win_id g =
     (let d = desktop g; content = wm_get_content (int win_id) d; cw = wm_get_content_w (int win_id) d; ch = wm_get_content_h (int win_id) d
      in if content = 0 then g
         else let g1 = app_draw (win_app_type g ! win_id) (g\<lparr>desktop := gpu_set_target content cw ch d\<rparr>)
              in g1\<lparr>desktop := gpu_reset_target (desktop g1)\<rparr>)"

section \<open>Windows of applications\<close>

definition find_existing_app_window :: "int \<Rightarrow> gui_state \<Rightarrow> int" where
  "find_existing_app_window app_type g =
     (case first_idx (\<lambda>i. win_app_type g ! i = app_type \<and> wm_get_window (int i) (desktop g) \<noteq> None) 0 WM_MAX_WINDOWS of
        Some i \<Rightarrow> int i | None \<Rightarrow> -1)"

text \<open>Title, width, height and position of an application's window.\<close>

definition app_geometry :: "int \<Rightarrow> string \<times> int \<times> int \<times> int \<times> int" where
  "app_geometry app_type =
     (if app_type = APP_TERMINAL then (''Terminal'', 500, 370, 120, 40)
      else if app_type = APP_SNAKE then (''Snake'', 612, 472, 10, 4)
      else if app_type = APP_TETRIS then (''Tetris'', 420, 440, 100, 10)
      else if app_type = APP_RAYCASTER then (''Raycaster'', 500, 400, 60, 20)
      else if app_type = APP_BREAKOUT then (''Breakout'', 620, 440, 10, 10)
      else (''App'', 500, 370, 80, 30))"

definition open_app :: "u64 \<Rightarrow> u64 \<Rightarrow> int \<Rightarrow> gui_state \<Rightarrow> gui_state" where
  "open_app now now' app_type g =
     (let existing = find_existing_app_window app_type g
      in if existing \<ge> 0 then g\<lparr>desktop := wm_focus_window existing (desktop g)\<rparr>
         else
           let (name, w, h, x, y) = app_geometry app_type;
               (win_id, d) = wm_create_window name x y w h (desktop g);
               g1 = g\<lparr>desktop := d\<rparr>
           in if win_id < 0 then g1
              else app_init now now' win_id app_type (g1\<lparr>win_app_type := (win_app_type g1)[nat win_id := app_type]\<rparr>))"

definition close_app :: "int \<Rightarrow> gui_state \<Rightarrow> gui_state" where
  "close_app close_id g =
     (let app = win_app_type g ! nat close_id;
          g1 = g\<lparr>win_app_type := (win_app_type g)[nat close_id := APP_NONE]\<rparr>;
          g2 = (if app = APP_TERMINAL then g1\<lparr>term_win_id := -1\<rparr> else g1)
      in g2\<lparr>desktop := wm_destroy_window close_id (desktop g2)\<rparr>)"

section \<open>The main loop\<close>

definition gui_mouse :: "frame_input \<Rightarrow> gui_state \<Rightarrow> gui_state" where
  "gui_mouse e g0 =
     (let mx = mouse_x e; my = mouse_y e; mb = mouse_b e;
          left_click = (mb AND MOUSE_BTN_LEFT \<noteq> 0 \<and> \<not> prev_left g0);
          g = g0\<lparr>prev_left := (mb AND MOUSE_BTN_LEFT \<noteq> 0)\<rparr>
      in if left_click then
           if start_menu_open g then
             let (app, menu_open) = start_menu_click (start_menu_open g) mx my; g1 = g\<lparr>start_menu_open := menu_open\<rparr>
             in if app > 0 then open_app (open_time e) (open_time' e) app g1 else g1
           else if my \<ge> FB_HEIGHT - TASKBAR_H \<and> mx < START_BTN_W then g\<lparr>start_menu_open := \<not> start_menu_open g\<rparr>
           else if start_menu_open g then g\<lparr>start_menu_open := False\<rparr>
           else
             let (result, d) = wm_handle_mouse mx my mb (desktop g); g1 = g\<lparr>desktop := d\<rparr>
             in if result \<le> -100 then close_app (- (result + 100)) g1 else g1
         else g\<lparr>desktop := snd (wm_handle_mouse mx my mb (desktop g))\<rparr>)"

text \<open>The keys of a frame, as \<^verbatim>\<open>input_poll\<close> delivers them.\<close>

fun gui_keys :: "(int \<Rightarrow> task option) \<Rightarrow> int list \<Rightarrow> gui_state \<Rightarrow> gui_state option" where
  "gui_keys tab [] g = Some g"
| "gui_keys tab (key # keys) g =
     (if key = KEY_NONE then Some g
      else
        let focused = wm_get_focused (desktop g)
        in if focused \<ge> 0 \<and> win_app_type g ! nat focused \<noteq> APP_NONE
           then if key = KEY_ESC then gui_keys tab keys (close_app focused g)
                else Option.bind (app_key tab focused key g) (gui_keys tab keys)
           else gui_keys tab keys g)"

definition app_open :: "nat \<Rightarrow> gui_state \<Rightarrow> bool" where
  "app_open i g \<longleftrightarrow> win_app_type g ! i \<noteq> APP_NONE \<and> wm_get_window (int i) (desktop g) \<noteq> None"

definition gui_ticks :: "(nat \<Rightarrow> u64) \<Rightarrow> gui_state \<Rightarrow> gui_state option" where
  "gui_ticks now g =
     for_loop 0 WM_MAX_WINDOWS (\<lambda>i r. Option.bind r (\<lambda>g. if app_open i g then app_tick (now i) i g else Some g)) (Some g)"

definition gui_render :: "gui_state \<Rightarrow> gui_state" where
  "gui_render g = for_loop 0 WM_MAX_WINDOWS (\<lambda>i g. if app_open i g then app_render i g else g) g"

definition gui_show :: "frame_input \<Rightarrow> gui_state \<Rightarrow> gui_state" where
  "gui_show e g =
     g\<lparr>desktop := gpu_flip (gpu_draw_cursor (mouse_x e) (mouse_y e)
         (draw_start_menu (start_menu_open g) (mouse_x e) (mouse_y e) (wm_composite (desktop g))))\<rparr>"

definition gui_frame :: "frame_input \<Rightarrow> gui_state \<Rightarrow> gui_state option" where
  "gui_frame e g =
     Option.bind (gui_keys (task_table e) (polled e) (gui_mouse e g)) (\<lambda>g1.
     Option.bind (gui_ticks (tick_time e) g1) (\<lambda>g2. Some (gui_show e (gui_render g2))))"

text \<open>The wait for the next frame, on the timer's readings: the reading it ends with.\<close>

fun wait_frame :: "u64 list \<Rightarrow> u64 \<Rightarrow> u64 option" where
  "wait_frame [] last_frame = None"
| "wait_frame (now # readings) last_frame = (if elapsed now last_frame \<ge> FRAME_TICKS then Some now else wait_frame readings last_frame)"

text \<open>
  The part of \<^verbatim>\<open>gui_main\<close> before the loop, for the result of \<^verbatim>\<open>fb_init\<close> and the address of the
  frame buffer; without a frame buffer the task ends.
\<close>

definition gui_start :: "int \<Rightarrow> u64 \<Rightarrow> gui_state \<Rightarrow> gui_state option" where
  "gui_start fb buffer g =
     (if fb < 0 then None
      else if buffer = 0 then None
      else Some (let g1 = g\<lparr>desktop := wm_init (gpu_init buffer (desktop g)), start_menu_open := False, term_win_id := -1,
                            term_app := (term_app g)\<lparr>term_input_len := 0\<rparr>\<rparr>
                 in (for_loop 0 WM_MAX_WINDOWS (\<lambda>i g. g\<lparr>win_app_type := (win_app_type g)[i := APP_NONE]\<rparr>) g1)\<lparr>prev_left := False\<rparr>))"

section \<open>Window operations keep the target\<close>

lemma on_backbuf_upd [simp]: "on_backbuf (upd_window i f s) = on_backbuf s"
  by (simp add: on_backbuf_def)

lemma on_backbuf_upd_loop [simp]: "on_backbuf (for_loop 0 n (\<lambda>i. upd_window i f) s) = on_backbuf s"
  by (rule for_loop_frame) simp

lemma on_backbuf_fields [simp]:
  "on_backbuf (s\<lparr>z_order := z\<rparr>) = on_backbuf s" "on_backbuf (s\<lparr>z_count := n\<rparr>) = on_backbuf s"
  "on_backbuf (s\<lparr>prev_buttons := b\<rparr>) = on_backbuf s" "on_backbuf (s\<lparr>pixels := p\<rparr>) = on_backbuf s"
  by (simp_all add: on_backbuf_def)

lemma on_backbuf_focus [simp]: "on_backbuf (wm_focus_window i s) = on_backbuf s"
  by (simp add: wm_focus_window_def Let_def split: option.split)

lemma on_backbuf_mouse [simp]: "on_backbuf (snd (wm_handle_mouse mx my b s)) = on_backbuf s"
  by (simp add: wm_handle_mouse_def Let_def split: option.split)

lemma on_backbuf_free [simp]: "on_backbuf (buffer_free a n s) = on_backbuf s"
  by (simp add: on_backbuf_def buffer_free_def Let_def frame_simps)

lemma on_backbuf_destroy [simp]: "on_backbuf (wm_destroy_window i s) = on_backbuf s"
  by (simp add: wm_destroy_window_def Let_def split: prod.split)

lemma on_backbuf_alloc: "mm_inv s \<Longrightarrow> on_backbuf (snd (buffer_alloc n s)) = on_backbuf s"
proof -
  assume inv: "mm_inv s"
  obtain a t where at: "buffer_alloc n s = (a, t)" by fastforce
  show ?thesis
  proof (cases "a = 0")
    case True then show ?thesis using buffer_alloc_fail at by auto
  next
    case False then show ?thesis using buffer_alloc_result(7,9,10,11) [OF inv at False] at by (simp add: on_backbuf_def)
  qed
qed

lemma on_backbuf_zero [simp]: "on_backbuf (buffer_zero b n s) = on_backbuf s"
  by (simp add: buffer_zero_def on_backbuf_def)

lemma on_backbuf_create:
  assumes "mm_inv s" shows "on_backbuf (snd (wm_create_window name x y w h s)) = on_backbuf s"
  using on_backbuf_alloc [of "upd_window i f s" for i f] assms
  by (auto simp: wm_create_window_def Let_def split: option.split prod.split) (metis mm_wm_update(2) on_backbuf_upd snd_conv)+

section \<open>Drawing keeps the windows\<close>

lemma stored_inv:
  assumes inv: "wm_inv s" and st: "stored s t"
  shows "wm_inv t" and "windows t = windows s" and "zlist t = zlist s" and "shown t = shown s" and "on_backbuf t = on_backbuf s"
    and "prev_buttons t = prev_buttons s"
proof -
  obtain p where t: "t = s\<lparr>pixels := p, fault := fault t\<rparr>" and p: "\<forall>b. length (p b) = length (pixels s b)"
    using st by (auto simp: stored_def)
  define u where "u = s\<lparr>pixels := p, fault := fault t\<rparr>"
  have u: "windows u = windows s" "z_order u = z_order s" "z_count u = z_count s" "frontbuf u = frontbuf s" "backbuf u = backbuf s"
    "used_set u = used_set s" "mm_inv u = mm_inv s" "cur_buf u = cur_buf s" "cur_w u = cur_w s" "cur_h u = cur_h s" "pixels u = p"
    "prev_buttons u = prev_buttons s"
    by (simp_all add: u_def)
  have z: "zlist u = zlist s" "shown u = shown s" by (simp_all add: zlist_def shown_def u)
  have b: "buffer_at u a n = buffer_at s a n" for a n using p by (simp add: buffer_at_def u)
  have sc: "screen u = screen s" by (simp add: screen_def u)
  have "wm_inv u"
    using inv unfolding wm_inv_def stack_inv_def shape_inv_def win_ok_def screen_ok_def b sc z u .
  then show "wm_inv t" "windows t = windows s" "zlist t = zlist s" "shown t = shown s" "on_backbuf t = on_backbuf s" "prev_buttons t = prev_buttons s"
    using u z t [folded u_def] by (simp_all add: on_backbuf_def)
qed

lemma set_target_inv:
  assumes inv: "wm_inv s"
  shows "wm_inv (gpu_set_target b w h s)" and "zlist (gpu_set_target b w h s) = zlist s"
    and "windows (gpu_set_target b w h s) = windows s" and "shown (gpu_set_target b w h s) = shown s"
proof -
  let ?t = "gpu_set_target b w h s"
  show z: "zlist ?t = zlist s" and w: "windows ?t = windows s" and sh: "shown ?t = shown s"
    by (simp_all add: gpu_set_target_def zlist_def shown_def)
  have "z_order ?t = z_order s" "z_count ?t = z_count s" by (simp_all add: gpu_set_target_def)
  then have "stack_inv ?t" using wm_invD(1) [OF inv] unfolding stack_inv_def shape_inv_def sh z w by simp
  moreover have "used_set ?t = used_set s" "mm_inv ?t = mm_inv s" "pixels ?t = pixels s" "frontbuf ?t = frontbuf s" "backbuf ?t = backbuf s"
    by (simp_all add: gpu_set_target_def used_set_def mm_inv_def bitmap_test_def)
  ultimately show "wm_inv ?t" using wm_invD(3) [OF inv] sh w by (intro wm_inv_step [OF inv]) simp_all
qed

lemma content_target_ok:
  assumes "wm_inv s" and "i \<in> shown s"
  shows "target_ok (gpu_set_target (content (windows s ! i)) (content_w (windows s ! i)) (content_h (windows s ! i)) s)"
  using content_fits [OF wm_invD(5) [OF assms]] wm_invD(5) [OF assms]
  by (simp add: target_ok_def gpu_set_target_def win_ok_def size_ok_def)

lemma flip_stored:
  assumes "screen_ok s" shows "stored s (gpu_flip s)" and "fault (gpu_flip s) = fault s"
proof -
  have len: "length (pixels s (frontbuf s)) = 307200" "length (pixels s (backbuf s)) = 307200" "FB_PIXELS = 307200"
    using assms by (simp_all add: screen_ok_def buffer_at_def PAGE_PIXELS_def FB_PIXELS_def FB_SIZE_def unat_div_distrib)
  show "fault (gpu_flip s) = fault s" by (simp add: gpu_flip_def Let_def len)
  show "stored s (gpu_flip s)"
  proof (cases "backbuf s = frontbuf s")
    case True then show ?thesis by (simp add: gpu_flip_def stored_refl)
  next
    case False
    then show ?thesis
      by (intro storedI [where p = "(pixels s)(frontbuf s := take FB_PIXELS (pixels s (backbuf s)) @ drop FB_PIXELS (pixels s (frontbuf s)))" and f = "fault s"])
        (simp_all add: gpu_flip_def Let_def len)
  qed
qed

lemma shown_focus [simp]:
  assumes "wm_inv s" shows "shown (wm_focus_window w s) = shown s"
proof (cases "bad_id w \<or> \<not> visible (windows s ! nat w)")
  case True then show ?thesis by (simp add: wm_focus_window_def)
next
  case False
  then have w: "w = int (nat w)" "nat w \<in> shown s" by (auto simp: bad_id_def shown_def)
  note sh = wm_invD(2) [OF assms]
  have "windows (wm_focus_window (int (nat w)) s) ! j = (windows s ! j)\<lparr>focused := (j = nat w)\<rparr>" if "j < WM_MAX_WINDOWS" for j
    using focus_nth [OF sh w(2) that] .
  then have "visible (windows (wm_focus_window w s) ! j) = visible (windows s ! j)" if "j < WM_MAX_WINDOWS" for j
    using that w(1) by simp
  then show ?thesis unfolding shown_def by blast
qed

lemma focus_fault [simp]: "fault (wm_focus_window w s) = fault s"
  by (simp add: wm_focus_window_def Let_def split: option.split)

lemma mouse_fault [simp]: "fault (snd (wm_handle_mouse mx my b s)) = fault s"
  by (simp add: wm_handle_mouse_def Let_def split: option.split)

text \<open>The mouse handler leaves the set of windows alone, and asks to close only a visible one.\<close>

lemma handle_mouse_shown:
  assumes inv: "wm_inv s" and m: "wm_handle_mouse mx my b s = (res, s')"
  shows "shown s' = shown s" and "res \<le> -100 \<Longrightarrow> \<exists>i \<in> shown s. res = - (int i + 100)"
proof -
  let ?t = "s\<lparr>prev_buttons := b\<rparr>"
  note P = prev_buttons_inv [OF inv, of b]
  have U: "shown (upd_window i f t) = shown t" if "wm_inv t" "\<And>w. visible (f w) = visible w \<and> focused (f w) = focused w \<and> content (f w) = content w \<and>
              content_w (f w) = content_w w \<and> content_h (f w) = content_h w \<and> win_w (f w) = win_w w \<and> win_h (f w) = win_h w" for i f and t :: "'a wm_state_scheme"
    by (rule upd_window_inv(3) [OF that])
  have F: "shown (wm_focus_window w ?t) = shown s" "wm_inv (wm_focus_window w ?t)" for w
    using P wm_focus_inv [OF P(1)] by simp_all
  have z: "wid \<in> shown s" if "find Q (rev (take (z_count ?t) (z_order ?t))) = Some wid" for Q wid
  proof -
    have "wid \<in> set (rev (take (z_count ?t) (z_order ?t)))" using that by (metis find_Some_iff nth_mem)
    then show ?thesis using shape_invD(5) [OF wm_invD(2) [OF inv]] by (simp add: zlist_def)
  qed
  show "shown s' = shown s"
    using m F U [OF P(1)] U [OF F(2)] P(3) drag_to_keeps
    unfolding wm_handle_mouse_def Let_def by (auto split: option.splits if_splits)
  show "\<exists>i \<in> shown s. res = - (int i + 100)" if "res \<le> -100"
    using m that z unfolding wm_handle_mouse_def Let_def by (auto split: option.splits if_splits)
qed

section \<open>The invariant of the desktop\<close>

text \<open>
  Every application that is open has one visible window and a well-formed state, and every
  visible window is that of an application.
\<close>

definition apps_ok :: "gui_state \<Rightarrow> bool" where
  "apps_ok g \<longleftrightarrow> term_inv (term_app g) \<and> snk_arrays (snake_app g) \<and> bricks_ok (bricks (breakout_app g)) \<and>
     (APP_SNAKE \<in> set (win_app_type g) \<longrightarrow> snk_inv (snake_app g)) \<and> (APP_TETRIS \<in> set (win_app_type g) \<longrightarrow> tet_inv (tetris_app g)) \<and>
     (APP_RAYCASTER \<in> set (win_app_type g) \<longrightarrow> ray_inv (ray_app g)) \<and> (APP_BREAKOUT \<in> set (win_app_type g) \<longrightarrow> brk_inv (breakout_app g))"

definition types_ok :: "int list \<Rightarrow> nat set \<Rightarrow> bool" where
  "types_ok ts ws \<longleftrightarrow> length ts = WM_MAX_WINDOWS \<and> set ts \<subseteq> {0..5} \<and>
     (\<forall>i < WM_MAX_WINDOWS. ts ! i \<noteq> APP_NONE \<longleftrightarrow> i \<in> ws) \<and>
     (\<forall>i < WM_MAX_WINDOWS. \<forall>j < WM_MAX_WINDOWS. ts ! i = ts ! j \<and> ts ! i \<noteq> APP_NONE \<longrightarrow> i = j)"

definition gui_inv :: "gui_state \<Rightarrow> bool" where
  "gui_inv g \<longleftrightarrow> wm_inv (desktop g) \<and> on_backbuf (desktop g) \<and> types_ok (win_app_type g) (shown (desktop g)) \<and> apps_ok g"

lemma gui_invD:
  assumes "gui_inv g"
  shows "wm_inv (desktop g)" and "on_backbuf (desktop g)" and "types_ok (win_app_type g) (shown (desktop g))" and "apps_ok g"
  using assms by (simp_all add: gui_inv_def)

lemma apps_ok_desktop [simp]: "apps_ok (g\<lparr>desktop := d\<rparr>) = apps_ok g" "apps_ok (g\<lparr>start_menu_open := m\<rparr>) = apps_ok g"
  "apps_ok (g\<lparr>prev_left := b\<rparr>) = apps_ok g" "apps_ok (g\<lparr>term_win_id := k\<rparr>) = apps_ok g"
  by (simp_all add: apps_ok_def)

lemma gui_inv_fields [simp]: "gui_inv (g\<lparr>start_menu_open := m\<rparr>) = gui_inv g" "gui_inv (g\<lparr>prev_left := b\<rparr>) = gui_inv g"
  "gui_inv (g\<lparr>term_win_id := k\<rparr>) = gui_inv g"
  by (simp_all add: gui_inv_def)

lemma gui_inv_desktop:
  "gui_inv g \<Longrightarrow> wm_inv d \<Longrightarrow> on_backbuf d \<Longrightarrow> shown d = shown (desktop g) \<Longrightarrow> gui_inv (g\<lparr>desktop := d\<rparr>)"
  by (simp add: gui_inv_def)

lemma types_ok_close:
  assumes "types_ok ts ws" and "i < WM_MAX_WINDOWS"
  shows "types_ok (ts[i := APP_NONE]) (ws - {i})" and "set (ts[i := APP_NONE]) \<subseteq> insert APP_NONE (set ts)"
proof -
  show sub: "set (ts[i := APP_NONE]) \<subseteq> insert APP_NONE (set ts)" by (rule set_update_subset_insert)
  show "types_ok (ts[i := APP_NONE]) (ws - {i})"
    using assms sub unfolding types_ok_def by (auto simp: nth_list_update split: if_splits)
qed

lemma types_ok_open:
  assumes "types_ok ts ws" and "k < WM_MAX_WINDOWS" and "k \<notin> ws" and "app \<notin> set ts" and "1 \<le> app" and "app \<le> 5"
  shows "types_ok (ts[k := app]) (insert k ws)" and "set (ts[k := app]) \<subseteq> insert app (set ts)"
proof -
  show sub: "set (ts[k := app]) \<subseteq> insert app (set ts)" by (rule set_update_subset_insert)
  have ne: "ts ! i \<noteq> app" if "i < WM_MAX_WINDOWS" for i using assms(1,4) that by (auto simp: types_ok_def)
  show "types_ok (ts[k := app]) (insert k ws)"
    using assms sub ne unfolding types_ok_def by (auto simp: nth_list_update split: if_splits)
qed

lemma close_app_inv:
  assumes inv: "gui_inv g" and i: "i \<in> shown (desktop g)"
  shows "gui_inv (close_app (int i) g)" and "fault (desktop (close_app (int i) g)) = fault (desktop g)"
    and "shown (desktop (close_app (int i) g)) = shown (desktop g) - {i}"
    and "used_set (desktop (close_app (int i) g)) = used_set (desktop g) - win_region (windows (desktop g) ! i)"
proof -
  note D = destroy_window_inv [OF gui_invD(1) [OF inv] i]
  let ?ts = "(win_app_type g)[i := APP_NONE]"
  let ?g = "close_app (int i) g"
  have f: "desktop ?g = wm_destroy_window (int i) (desktop g)" "win_app_type ?g = ?ts" "term_app ?g = term_app g" "snake_app ?g = snake_app g"
    "tetris_app ?g = tetris_app g" "ray_app ?g = ray_app g" "breakout_app ?g = breakout_app g"
    by (simp_all add: close_app_def Let_def)
  note T = types_ok_close [OF gui_invD(3) [OF inv] shownD(1) [OF i]]
  have "apps_ok ?g" using gui_invD(4) [OF inv] T(2) unfolding apps_ok_def f by auto
  then show "gui_inv ?g" using D(1,3) T(1) gui_invD(2) [OF inv] unfolding gui_inv_def f by simp
  show "fault (desktop ?g) = fault (desktop g)" "shown (desktop ?g) = shown (desktop g) - {i}"
    "used_set (desktop ?g) = used_set (desktop g) - win_region (windows (desktop g) ! i)" using D unfolding f by simp_all
qed

lemma find_existing_cases:
  assumes inv: "gui_inv g" and app: "app \<noteq> APP_NONE"
  shows "(find_existing_app_window app g = -1 \<and> app \<notin> set (win_app_type g)) \<or>
         (\<exists>i \<in> shown (desktop g). find_existing_app_window app g = int i \<and> win_app_type g ! i = app)"
proof -
  note T = gui_invD(3) [OF inv, unfolded types_ok_def]
  have vis: "wm_get_window (int i) (desktop g) \<noteq> None \<longleftrightarrow> i \<in> shown (desktop g)" if "i < WM_MAX_WINDOWS" for i
    using that by (simp add: wm_get_window_def bad_id_def shown_def)
  show ?thesis
  proof (cases "first_idx (\<lambda>i. win_app_type g ! i = app \<and> wm_get_window (int i) (desktop g) \<noteq> None) 0 WM_MAX_WINDOWS")
    case None
    then have "win_app_type g ! i \<noteq> app" if "i < WM_MAX_WINDOWS" for i
      using that vis [OF that] T app by (auto simp: first_idx_None)
    then have "app \<notin> set (win_app_type g)" using T by (auto simp: in_set_conv_nth)
    then show ?thesis using None by (simp add: find_existing_app_window_def)
  next
    case (Some i)
    then have i: "i < WM_MAX_WINDOWS" "win_app_type g ! i = app" "wm_get_window (int i) (desktop g) \<noteq> None"
      by (auto dest: first_idx_SomeD)
    then show ?thesis using Some vis [OF i(1)] by (auto simp: find_existing_app_window_def)
  qed
qed

lemma app_start_frame [simp]:
  "desktop (app_start now now' app g) = desktop g" "win_app_type (app_start now now' app g) = win_app_type g"
  "start_menu_open (app_start now now' app g) = start_menu_open g" "prev_left (app_start now now' app g) = prev_left g"
  by (simp_all add: app_start_def)

lemma term_start_inv:
  assumes inv: "term_inv t"
  shows "term_inv (term_putline '''' (term_putline ''Type 'help' for commands.'' (term_putline ''Dragoon Terminal v0.2''
     ((term_clear t)\<lparr>term_input_len := 0\<rparr>))))"
proof -
  have "term_inv ((term_clear t)\<lparr>term_input_len := 0\<rparr>)"
    unfolding term_clear_eq [OF term_inv_buf [OF inv]] using inv blank_row_ok by (simp add: term_inv_def)
  then show ?thesis by (intro putline_text(1)) simp_all
qed

text \<open>A started application is well formed in its window, the others stay as they are.\<close>

lemma app_start_ok:
  assumes ok: "apps_ok g" and app: "1 \<le> app" "app \<le> 5" and ts: "set ts \<subseteq> insert app (set (win_app_type g))"
    and sz: "app = APP_BREAKOUT \<longrightarrow> 80 \<le> cur_w (desktop g) \<and> 64 \<le> cur_h (desktop g)"
  shows "apps_ok ((app_start now now' app g)\<lparr>win_app_type := ts\<rparr>)"
proof -
  consider "app = APP_TERMINAL" | "app = APP_SNAKE" | "app = APP_TETRIS" | "app = APP_RAYCASTER" | "app = APP_BREAKOUT" using app by linarith
  then show ?thesis
  proof cases
    case 1 then show ?thesis using ok ts term_start_inv by (auto simp: apps_ok_def app_start_def)
  next
    case 2
    have s: "snk_inv (snake_init now now' (snake_app g))" using ok by (intro snake_init_inv) (simp add: apps_ok_def)
    then have "snk_arrays (snake_init now now' (snake_app g))" by (simp add: snk_inv_def snk_arrays_def)
    then show ?thesis using ok ts 2 s by (auto simp: apps_ok_def app_start_def)
  next
    case 3 then show ?thesis using ok ts tetris_init_inv by (auto simp: apps_ok_def app_start_def)
  next
    case 4 then show ?thesis using ok ts raycaster_init_inv by (auto simp: apps_ok_def app_start_def)
  next
    case 5
    let ?b = "breakout_init now (cur_w (desktop g)) (cur_h (desktop g)) (breakout_app g)"
    have "brk_inv ?b" using ok 5 sz by (intro breakout_init_inv) (simp_all add: apps_ok_def)
    moreover from this have "bricks_ok (bricks ?b)" by (simp add: brk_inv_def brk_board_def)
    ultimately show ?thesis using ok ts 5 by (auto simp: apps_ok_def app_start_def gpu_target_w_def gpu_target_h_def)
  qed
qed

lemma app_geometry_ok:
  assumes "1 \<le> app" "app \<le> 5" and g: "app_geometry app = (name, w, h, x, y)"
  shows "size_ok w h" and "app = APP_BREAKOUT \<Longrightarrow> 80 \<le> w \<and> 64 \<le> h" and "length name \<le> 9"
  using assms by (auto simp: app_geometry_def size_ok_def split: if_splits)

text \<open>An application that is not open: no window could be had, or window \<open>k\<close> is its new window.\<close>

lemma open_app_cases:
  assumes inv: "gui_inv g" and app: "1 \<le> app" "app \<le> 5" and new: "app \<notin> set (win_app_type g)"
  obtains (fail) d where "open_app now now' app g = g\<lparr>desktop := d\<rparr>" "wm_inv d" "on_backbuf d" "fault d = fault (desktop g)"
      "shown d = shown (desktop g)" "zlist d = zlist (desktop g)" "used_set d = used_set (desktop g)"
  | (fresh) k d name w h x y where "app_geometry app = (name, w, h, x, y)" "k < WM_MAX_WINDOWS" "k \<notin> shown (desktop g)" "wm_inv d" "fault d = fault (desktop g)"
      "shown d = insert k (shown (desktop g))" "zlist d = zlist (desktop g) @ [k]" "content_w (windows d ! k) = w" "content_h (windows d ! k) = h"
      "used_set d = used_set (desktop g) \<union> win_region (windows d ! k)" "win_region (windows d ! k) \<inter> used_set (desktop g) = {}"
      "open_app now now' app g = (app_start now now' app (g\<lparr>win_app_type := (win_app_type g)[k := app],
         desktop := gpu_set_target (content (windows d ! k)) w h d\<rparr>))
           \<lparr>desktop := gpu_reset_target (gpu_set_target (content (windows d ! k)) w h d)\<rparr>"
proof -
  note W = gui_invD(1) [OF inv]
  have "app \<noteq> win_app_type g ! i" if "i \<in> shown (desktop g)" for i
    using new gui_invD(3) [OF inv] shownD(1) [OF that] by (metis nth_mem types_ok_def)
  then have ex: "find_existing_app_window app g = -1" using find_existing_cases [OF inv, of app] app by fastforce
  obtain name w h x y where geo: "app_geometry app = (name, w, h, x, y)" by (metis prod_cases5)
  note G = app_geometry_ok [OF app geo]
  obtain res d where c: "wm_create_window name x y w h (desktop g) = (res, d)" by fastforce
  note C = create_window_inv [OF W G(1) c]
  have bb: "on_backbuf d" using on_backbuf_create [OF wm_invD(3) [OF W], of name x y w h] c gui_invD(2) [OF inv] by simp
  have opn: "open_app now now' app g = (if res < 0 then g\<lparr>desktop := d\<rparr>
      else app_init now now' res app (g\<lparr>desktop := d, win_app_type := (win_app_type g)[nat res := app]\<rparr>))"
    using ex geo c by (simp add: open_app_def Let_def)
  from C have "create_spec w h res (desktop g) d" by blast
  then show ?thesis
    unfolding create_spec_def
  proof (elim disjE exE conjE)
    assume "res = -1" "zlist d = zlist (desktop g)" "shown d = shown (desktop g)" "used_set d = used_set (desktop g)"
    then show ?thesis using C bb opn by (intro fail [of d]) simp_all
  next
    fix k assume k: "k < WM_MAX_WINDOWS" "k \<notin> shown (desktop g)" "res = int k" "zlist d = zlist (desktop g) @ [k]"
        "shown d = insert k (shown (desktop g))" "used_set d = used_set (desktop g) \<union> win_region (windows d ! k)"
        "win_region (windows d ! k) \<inter> used_set (desktop g) = {}" "content_w (windows d ! k) = w" "content_h (windows d ! k) = h"
    have kd: "k \<in> shown d" "wm_inv d" using k C by simp_all
    have c0: "content (windows d ! k) \<noteq> 0" using wm_invD(5) [OF kd(2,1)] buffer_at_nonzero by (auto simp: win_ok_def)
    have "\<not> bad_id (int k)" "visible (windows d ! k)" using kd(1) shownD by simp_all
    then have "open_app now now' app g = (app_start now now' app (g\<lparr>win_app_type := (win_app_type g)[k := app],
         desktop := gpu_set_target (content (windows d ! k)) w h d\<rparr>))
           \<lparr>desktop := gpu_reset_target (gpu_set_target (content (windows d ! k)) w h d)\<rparr>"
      unfolding opn using k(3,8,9) c0
      by (simp add: app_init_def Let_def wm_get_content_def wm_get_content_w_def wm_get_content_h_def)
    then show ?thesis using geo k C by (intro fresh) simp_all
  qed
qed

lemma open_app_inv:
  assumes inv: "gui_inv g" and app: "1 \<le> app" "app \<le> 5"
  shows "gui_inv (open_app now now' app g)" and "fault (desktop (open_app now now' app g)) = fault (desktop g)"
proof -
  note W = gui_invD(1) [OF inv]
  have "gui_inv (open_app now now' app g) \<and> fault (desktop (open_app now now' app g)) = fault (desktop g)"
  proof (cases "app \<in> set (win_app_type g)")
    case True
    then have "find_existing_app_window app g \<ge> 0" using find_existing_cases [OF inv, of app] app by auto
    then show ?thesis using inv wm_focus_inv [OF W] W gui_invD(2) [OF inv] by (simp add: open_app_def gui_inv_desktop)
  next
    case False
    show ?thesis
    proof (cases rule: open_app_cases [OF inv app False, of now now'])
      case (1 d)
      then show ?thesis using gui_inv_desktop [OF inv 1(2,3,5)] by simp
    next
      case (2 k d name w h x y)
      let ?ts = "(win_app_type g)[k := app]"
      let ?d = "gpu_set_target (content (windows d ! k)) w h d"
      note T = types_ok_open [OF gui_invD(3) [OF inv] 2(2,3) False app]
      define g1 where "g1 = app_start now now' app (g\<lparr>win_app_type := ?ts, desktop := ?d\<rparr>)"
      have "apps_ok ((app_start now now' app (g\<lparr>desktop := ?d\<rparr>))\<lparr>win_app_type := ?ts\<rparr>)"
        using gui_invD(4) [OF inv] app T(2) app_geometry_ok(2) [OF app 2(1)] by (intro app_start_ok) (simp_all add: gpu_set_target_def)
      moreover have "(app_start now now' app (g\<lparr>desktop := ?d\<rparr>))\<lparr>win_app_type := ?ts\<rparr> = g1"
        by (simp add: g1_def app_start_def)
      ultimately have "apps_ok g1" by simp
      moreover have "wm_inv (gpu_reset_target ?d)" "on_backbuf (gpu_reset_target ?d)" "shown (gpu_reset_target ?d) = shown d"
        using reset_target_inv [OF set_target_inv(1) [OF 2(4)]] set_target_inv(4) [OF 2(4)] by simp_all
      moreover have "win_app_type g1 = ?ts" by (simp add: g1_def)
      ultimately have "gui_inv (g1\<lparr>desktop := gpu_reset_target ?d\<rparr>)" using T(1) 2(6) by (simp add: gui_inv_def)
      moreover have "fault (gpu_reset_target ?d) = fault (desktop g)" using 2(5) by (simp add: gpu_reset_target_def gpu_set_target_def)
      ultimately show ?thesis unfolding 2(12) g1_def [symmetric] by simp
    qed
  qed
  then show "gui_inv (open_app now now' app g)" "fault (desktop (open_app now now' app g)) = fault (desktop g)" by blast+
qed

section \<open>Keys and ticks\<close>

text \<open>Only the application's own state changes.\<close>

lemma app_key_inv:
  assumes inv: "gui_inv g" and i: "i \<in> shown (desktop g)"
  shows "\<exists>g'. app_key tab (int i) key g = Some g' \<and> gui_inv g' \<and> desktop g' = desktop g \<and> win_app_type g' = win_app_type g"
proof -
  let ?app = "win_app_type g ! i"
  note T = gui_invD(3) [OF inv, unfolded types_ok_def] and A = gui_invD(4) [OF inv, unfolded apps_ok_def]
  have m: "?app \<in> set (win_app_type g)" using T shownD(1) [OF i] by simp
  then have range: "?app \<in> {0..5}" using T by blast
  have ok: "gui_inv g'" if "desktop g' = desktop g" "win_app_type g' = win_app_type g" "apps_ok g'" for g'
    using that inv by (simp add: gui_inv_def)
  consider "?app = APP_NONE" | "?app = APP_TERMINAL" | "?app = APP_SNAKE" | "?app = APP_TETRIS" | "?app = APP_RAYCASTER" | "?app = APP_BREAKOUT"
    using range by (auto; linarith)
  then show ?thesis
  proof cases
    case 1 then show ?thesis using inv by (simp add: app_key_def)
  next
    case 2
    then show ?thesis using A term_handle_key_text by (auto simp: app_key_def apps_ok_def intro!: ok)
  next
    case 3
    then have s: "snk_inv (snake_key key (snake_app g))" using A m by (intro snake_key_inv) simp
    then have "snk_arrays (snake_key key (snake_app g))" by (simp add: snk_inv_def snk_arrays_def)
    then show ?thesis using A 3 s by (auto simp: app_key_def apps_ok_def intro!: ok)
  next
    case 4
    then obtain t where "tetris_key key (tetris_app g) = Some t" "tet_inv t" using A m tetris_key_inv by auto
    then show ?thesis using A 4 by (auto simp: app_key_def apps_ok_def intro!: ok)
  next
    case 5
    then have "ray_inv (raycaster_key key (ray_app g))" using A m by (intro raycaster_key_inv) simp
    then show ?thesis using A 5 by (auto simp: app_key_def apps_ok_def intro!: ok)
  next
    case 6
    then have b: "brk_inv (breakout_key key (breakout_app g))" using A m by (intro breakout_key_inv) simp
    then have "bricks_ok (bricks (breakout_key key (breakout_app g)))" by (simp add: brk_inv_def brk_board_def)
    then show ?thesis using A 6 b by (auto simp: app_key_def apps_ok_def intro!: ok)
  qed
qed

lemma app_tick_inv:
  assumes inv: "gui_inv g" and i: "i \<in> shown (desktop g)"
  shows "\<exists>g'. app_tick now i g = Some g' \<and> gui_inv g' \<and> desktop g' = desktop g \<and> win_app_type g' = win_app_type g"
proof -
  let ?app = "win_app_type g ! i"
  note T = gui_invD(3) [OF inv, unfolded types_ok_def] and A = gui_invD(4) [OF inv, unfolded apps_ok_def]
  have m: "?app \<in> set (win_app_type g)" using T shownD(1) [OF i] by simp
  have ok: "gui_inv g'" if "desktop g' = desktop g" "win_app_type g' = win_app_type g" "apps_ok g'" for g'
    using that inv by (simp add: gui_inv_def)
  consider "?app = APP_SNAKE" | "?app = APP_TETRIS" | "?app = APP_RAYCASTER" | "?app = APP_BREAKOUT"
    | "?app \<notin> {APP_SNAKE, APP_TETRIS, APP_RAYCASTER, APP_BREAKOUT}" by blast
  then show ?thesis
  proof cases
    case 1
    then have s: "snk_inv (snd (snake_tick now (snake_app g)))" using A m by (intro snake_tick_inv) simp
    then have "snk_arrays (snd (snake_tick now (snake_app g)))" by (simp add: snk_inv_def snk_arrays_def)
    then show ?thesis using A 1 s by (auto simp: app_tick_def apps_ok_def intro!: ok)
  next
    case 2
    then obtain r t where "tetris_tick now (tetris_app g) = Some (r, t)" "tet_inv t" using A m tetris_tick_inv [of "tetris_app g" now] by auto
    then show ?thesis using A 2 by (auto simp: app_tick_def apps_ok_def intro!: ok)
  next
    case 3 then show ?thesis using A by (auto simp: app_tick_def apps_ok_def raycaster_tick_def intro!: ok)
  next
    case 4
    then have b: "brk_inv (snd (breakout_tick now (breakout_app g)))" using A m by (intro breakout_tick_inv) simp
    then have "bricks_ok (bricks (snd (breakout_tick now (breakout_app g))))" by (simp add: brk_inv_def brk_board_def)
    then show ?thesis using A 4 b by (auto simp: app_tick_def apps_ok_def intro!: ok)
  next
    case 5 then show ?thesis using inv by (simp add: app_tick_def)
  qed
qed

lemma app_open_shown: "gui_inv g \<Longrightarrow> i < WM_MAX_WINDOWS \<Longrightarrow> app_open i g \<longleftrightarrow> i \<in> shown (desktop g)"
  by (auto simp: app_open_def wm_get_window_def bad_id_def shown_def gui_inv_def types_ok_def)

lemma gui_ticks_inv:
  assumes "gui_inv g"
  shows "\<exists>g'. gui_ticks now g = Some g' \<and> gui_inv g' \<and> desktop g' = desktop g \<and> win_app_type g' = win_app_type g"
proof -
  let ?P = "\<lambda>r. \<exists>g'. r = Some g' \<and> gui_inv g' \<and> desktop g' = desktop g \<and> win_app_type g' = win_app_type g"
  show ?thesis unfolding gui_ticks_def
  proof (rule for_loop_inv [where P = "\<lambda>_ r. ?P r"])
    show "?P (Some g)" using assms by simp
    fix i r assume i: "i < WM_MAX_WINDOWS" and "?P r"
    then obtain h where h: "r = Some h" "gui_inv h" "desktop h = desktop g" "win_app_type h = win_app_type g" by blast
    show "?P (Option.bind r (\<lambda>g. if app_open i g then app_tick (now i) i g else Some g))"
      using app_tick_inv [OF h(2), of i "now i"] app_open_shown [OF h(2) i] h by auto
  qed simp
qed

lemma focused_shown:
  assumes "wm_inv s" and "wm_get_focused s \<ge> 0"
  shows "\<exists>i \<in> shown s. wm_get_focused s = int i"
proof -
  have "zlist s \<noteq> []" "wm_get_focused s = int (last (zlist s))"
    using wm_get_focused_last [OF wm_invD(1) [OF assms(1)]] assms(2) by (auto split: if_splits)
  then show ?thesis using last_in_set [of "zlist s"] shape_invD(5) [OF wm_invD(2) [OF assms(1)]] by auto
qed

lemma gui_keys_inv:
  "gui_inv g \<Longrightarrow> \<exists>g'. gui_keys tab keys g = Some g' \<and> gui_inv g' \<and> fault (desktop g') = fault (desktop g)"
proof (induction keys arbitrary: g)
  case (Cons key keys)
  note W = gui_invD(1) [OF Cons.prems]
  show ?case
  proof (cases "key \<noteq> KEY_NONE \<and> wm_get_focused (desktop g) \<ge> 0 \<and> win_app_type g ! nat (wm_get_focused (desktop g)) \<noteq> APP_NONE")
    case True
    then obtain i where i: "i \<in> shown (desktop g)" "wm_get_focused (desktop g) = int i" using focused_shown [OF W] by blast
    show ?thesis
    proof (cases "key = KEY_ESC")
      case esc: True
      then show ?thesis using True i Cons.IH [OF close_app_inv(1) [OF Cons.prems i(1)]] close_app_inv(2) [OF Cons.prems i(1)] by auto
    next
      case False
      obtain h where h: "app_key tab (int i) key g = Some h" "gui_inv h" "desktop h = desktop g" using app_key_inv [OF Cons.prems i(1)] by blast
      then show ?thesis using True False i Cons.IH [OF h(2)] by auto
    qed
  next
    case False
    then show ?thesis using Cons by (auto simp: Let_def)
  qed
qed simp

section \<open>Drawing a frame\<close>

lemma app_draw_ok:
  assumes tgt: "target_ok (desktop g)" and ok: "apps_ok g"
  shows "stored (desktop g) (desktop (app_draw app g))" and "apps_ok (app_draw app g)" and "win_app_type (app_draw app g) = win_app_type g"
    and "start_menu_open (app_draw app g) = start_menu_open g" and "app \<noteq> APP_RAYCASTER \<Longrightarrow> draws (desktop g) (desktop (app_draw app g))"
proof -
  have ti: "term_inv (term_app g)" using ok by (simp add: apps_ok_def)
  note R = term_render_draws [OF tgt ti]
  have d: "draws (desktop g) (desktop (app_draw app g))" if "app \<noteq> APP_RAYCASTER"
    using that R(1) snake_draw_confined [OF tgt] tetris_draw_confined [OF tgt] breakout_draw_confined [OF tgt] draws_refl [of "desktop g"]
    by (simp add: app_draw_def case_prod_unfold Let_def)
  show "app \<noteq> APP_RAYCASTER \<Longrightarrow> draws (desktop g) (desktop (app_draw app g))" by (rule d)
  show "stored (desktop g) (desktop (app_draw app g))"
    using d raycaster_draw_stored [OF tgt] by (cases "app = APP_RAYCASTER") (simp_all add: app_draw_def stored_draws)
  show "apps_ok (app_draw app g)" using ok R(2) by (simp add: app_draw_def case_prod_unfold apps_ok_def Let_def)
  show "win_app_type (app_draw app g) = win_app_type g" "start_menu_open (app_draw app g) = start_menu_open g"
    by (simp_all add: app_draw_def case_prod_unfold Let_def)
qed

lemma app_render_inv:
  assumes inv: "gui_inv g" and i: "i \<in> shown (desktop g)"
  shows "gui_inv (app_render i g) \<and> win_app_type (app_render i g) = win_app_type g \<and> shown (desktop (app_render i g)) = shown (desktop g) \<and>
     start_menu_open (app_render i g) = start_menu_open g \<and>
     (APP_RAYCASTER \<notin> set (win_app_type g) \<longrightarrow> fault (desktop (app_render i g)) = fault (desktop g))"
proof -
  let ?d = "desktop g" and ?w = "windows (desktop g) ! i"
  note W = gui_invD(1) [OF inv]
  define t where "t = gpu_set_target (content ?w) (content_w ?w) (content_h ?w) ?d"
  have vis: "\<not> bad_id (int i)" "visible ?w" "i < WM_MAX_WINDOWS" using i shownD by simp_all
  have c0: "content ?w \<noteq> 0" using wm_invD(5) [OF W i] buffer_at_nonzero by (auto simp: win_ok_def)
  define h where "h = app_draw (win_app_type g ! i) (g\<lparr>desktop := t\<rparr>)"
  have r: "app_render i g = h\<lparr>desktop := gpu_reset_target (desktop h)\<rparr>"
    using vis c0 by (simp add: app_render_def Let_def wm_get_content_def wm_get_content_w_def wm_get_content_h_def h_def t_def)
  have tok: "target_ok t" "wm_inv t" "shown t = shown ?d"
    using content_target_ok [OF W i] set_target_inv [OF W] by (simp_all add: t_def)
  have "target_ok (desktop (g\<lparr>desktop := t\<rparr>))" "apps_ok (g\<lparr>desktop := t\<rparr>)" using tok gui_invD(4) [OF inv] by simp_all
  note A = app_draw_ok [OF this, of "win_app_type g ! i", folded h_def, simplified]
  note S = stored_inv [OF tok(2) A(1)]
  note X = reset_target_inv [OF S(1)]
  have "gui_inv (app_render i g)" unfolding r gui_inv_def
    using X(1,2,5) S(4) tok(3) A(2,3) gui_invD(3) [OF inv] by simp
  moreover have "fault (desktop h) = fault ?d" if "APP_RAYCASTER \<notin> set (win_app_type g)"
  proof -
    have "win_app_type g ! i \<in> set (win_app_type g)" using gui_invD(3) [OF inv] vis(3) by (simp add: types_ok_def)
    then have "win_app_type g ! i \<noteq> APP_RAYCASTER" using that by metis
    then have "draws t (desktop h)" by (rule A(5))
    then show ?thesis using drawsD(7) by (fastforce simp: t_def gpu_set_target_def)
  qed
  ultimately show ?thesis using A(3,4) S(4) X(5) tok(3) unfolding r by (simp add: gpu_reset_target_def)
qed

lemma gui_render_inv:
  assumes "gui_inv g"
  shows "gui_inv (gui_render g) \<and> win_app_type (gui_render g) = win_app_type g \<and> shown (desktop (gui_render g)) = shown (desktop g) \<and>
     start_menu_open (gui_render g) = start_menu_open g \<and>
     (APP_RAYCASTER \<notin> set (win_app_type g) \<longrightarrow> fault (desktop (gui_render g)) = fault (desktop g))"
  unfolding gui_render_def
proof (rule for_loop_inv [where P = "\<lambda>_ h. gui_inv h \<and> win_app_type h = win_app_type g \<and> shown (desktop h) = shown (desktop g) \<and>
     start_menu_open h = start_menu_open g \<and> (APP_RAYCASTER \<notin> set (win_app_type g) \<longrightarrow> fault (desktop h) = fault (desktop g))"])
  fix i h assume i: "i < WM_MAX_WINDOWS"
  assume h: "gui_inv h \<and> win_app_type h = win_app_type g \<and> shown (desktop h) = shown (desktop g) \<and>
     start_menu_open h = start_menu_open g \<and> (APP_RAYCASTER \<notin> set (win_app_type g) \<longrightarrow> fault (desktop h) = fault (desktop g))"
  let ?h = "if app_open i h then app_render i h else h"
  show "gui_inv ?h \<and> win_app_type ?h = win_app_type g \<and> shown (desktop ?h) = shown (desktop g) \<and>
     start_menu_open ?h = start_menu_open g \<and> (APP_RAYCASTER \<notin> set (win_app_type g) \<longrightarrow> fault (desktop ?h) = fault (desktop g))"
    using h app_render_inv [of h i] app_open_shown [of h i] i by simp
qed (use assms in simp_all)

lemma draw_start_menu_draws:
  assumes "target_ok s" shows "draws s (draw_start_menu m mx my s)"
  unfolding draw_start_menu_def Let_def by (intro draws_intros assms)

lemma gui_show_inv:
  assumes inv: "gui_inv g"
  shows "gui_inv (gui_show e g)" and "fault (desktop (gui_show e g)) = fault (desktop g)" and "win_app_type (gui_show e g) = win_app_type g"
proof -
  let ?d = "desktop g"
  note W = gui_invD(1) [OF inv]
  have ok: "target_ok ?d" using on_backbuf_ok [OF wm_invD(4) [OF W] gui_invD(2) [OF inv]] .
  obtain p where "wm_composite ?d = paint p ?d" using wm_composite_paint [OF W gui_invD(2) [OF inv]] by blast
  then have 1: "draws ?d (wm_composite ?d)" by (auto simp: draws_def)
  then have ok1: "target_ok (wm_composite ?d)" using drawsD(1) ok by blast
  define t where "t = gpu_draw_cursor (mouse_x e) (mouse_y e) (draw_start_menu (start_menu_open g) (mouse_x e) (mouse_y e) (wm_composite ?d))"
  have "draws (wm_composite ?d) t" unfolding t_def by (rule draws_ops(10) [OF ok1 draw_start_menu_draws [OF ok1]])
  then have dt: "draws ?d t" using 1 draws_trans by blast
  note S = stored_inv [OF W stored_draws [OF dt]]
  note F = flip_stored [OF wm_invD(4) [OF S(1)]]
  note S2 = stored_inv [OF S(1) F(1)]
  have g: "gui_show e g = g\<lparr>desktop := gpu_flip t\<rparr>" by (simp add: gui_show_def t_def)
  show "gui_inv (gui_show e g)" unfolding g
    using S2 S gui_invD(2) [OF inv] by (intro gui_inv_desktop [OF inv]) simp_all
  show "fault (desktop (gui_show e g)) = fault ?d" using F(2) drawsD(7) [OF dt] by (simp add: g)
  show "win_app_type (gui_show e g) = win_app_type g" by (simp add: g)
qed

section \<open>The mouse\<close>

lemma menu_click_app: "start_menu_click m mx my = (app, m') \<Longrightarrow> app > 0 \<Longrightarrow> 1 \<le> app \<and> app \<le> 5"
  by (auto simp: start_menu_click_def menu_app_types_def MENU_ITEMS_def less_Suc_eq_le numeral_eq_Suc le_Suc_eq
      split: if_splits option.splits dest!: first_idx_SomeD)

lemma gui_mouse_inv:
  assumes inv0: "gui_inv g0"
  shows "gui_inv (gui_mouse e g0) \<and> fault (desktop (gui_mouse e g0)) = fault (desktop g0)"
proof -
  define g where "g = g0\<lparr>prev_left := (mouse_b e AND MOUSE_BTN_LEFT \<noteq> 0)\<rparr>"
  have inv: "gui_inv g" and d: "desktop g = desktop g0" using inv0 by (simp_all add: g_def)
  obtain res t where m: "wm_handle_mouse (mouse_x e) (mouse_y e) (mouse_b e) (desktop g) = (res, t)" by fastforce
  note W = gui_invD(1) [OF inv] and M = handle_mouse_shown [OF gui_invD(1) [OF inv] m]
  have t: "wm_inv t" "on_backbuf t" "fault t = fault (desktop g)"
    using handle_mouse_inv [OF W, of "mouse_x e" "mouse_y e" "mouse_b e"] on_backbuf_mouse [of "mouse_x e" "mouse_y e" "mouse_b e" "desktop g"]
      mouse_fault [of "mouse_x e" "mouse_y e" "mouse_b e" "desktop g"] gui_invD(2) [OF inv] by (simp_all add: m)
  have it: "gui_inv (g\<lparr>desktop := t\<rparr>)" by (rule gui_inv_desktop [OF inv t(1,2) M(1)])
  have close: "gui_inv (close_app (- (res + 100)) (g\<lparr>desktop := t\<rparr>)) \<and>
      fault (desktop (close_app (- (res + 100)) (g\<lparr>desktop := t\<rparr>))) = fault (desktop g)" if r: "res \<le> -100"
  proof -
    obtain i where i: "i \<in> shown t" "- (res + 100) = int i" using M r by auto
    then show ?thesis using close_app_inv(1,2) [OF it, of i] t(3) by simp
  qed
  obtain app m' where sc: "start_menu_click True (mouse_x e) (mouse_y e) = (app, m')" by fastforce
  have opn: "gui_inv (open_app (open_time e) (open_time' e) app (g\<lparr>start_menu_open := m'\<rparr>)) \<and>
      fault (desktop (open_app (open_time e) (open_time' e) app (g\<lparr>start_menu_open := m'\<rparr>))) = fault (desktop g)" if "app > 0"
    using open_app_inv [of "g\<lparr>start_menu_open := m'\<rparr>" app] menu_click_app [OF sc that] inv by simp
  show ?thesis
    unfolding gui_mouse_def Let_def g_def [symmetric]
    using inv it t(3) close opn m [unfolded d] by (simp add: sc d)
qed

section \<open>Properties\<close>


lemma types_none_loop: "n \<le> length (win_app_type g) \<Longrightarrow>
  for_loop 0 n (\<lambda>i g. g\<lparr>win_app_type := (win_app_type g)[i := APP_NONE]\<rparr>) g = g\<lparr>win_app_type := replicate n APP_NONE @ drop n (win_app_type g)\<rparr>"
proof (induction n)
  case (Suc n)
  then have "(replicate n APP_NONE @ drop n (win_app_type g))[n := APP_NONE] = replicate (Suc n) APP_NONE @ drop (Suc n) (win_app_type g)"
    by (simp add: list_update_append Cons_nth_drop_Suc [symmetric] replicate_append_same [symmetric])
  then show ?case using Suc by (simp add: for_loop_Suc)
qed simp

lemma gui_start_inv:
  assumes mm: "mm_inv (desktop g)" and fb: "buffer_at (desktop g) a 300"
    and len: "length (windows (desktop g)) = WM_MAX_WINDOWS" "length (z_order (desktop g)) = WM_MAX_WINDOWS" "length (win_app_type g) = WM_MAX_WINDOWS"
    and ok: "term_inv (term_app g)" "snk_arrays (snake_app g)" "bricks_ok (bricks (breakout_app g))"
  shows "\<exists>g'. gui_start 0 a g = Some g' \<and> gui_inv g' \<and> shown (desktop g') = {} \<and> desktop g' = wm_init (gpu_init a (desktop g))"
proof -
  let ?d = "gpu_init a (desktop g)"
  note G = gui_invD
  note I = gpu_init_buffers [OF mm fb]
  note M = wm_fields_more [OF I(9)]
  have "length (windows ?d) = WM_MAX_WINDOWS" "length (z_order ?d) = WM_MAX_WINDOWS" "screen_ok ?d"
    using M len I(2,3) by (simp_all add: screen_ok_def)
  note W = wm_init_inv [OF this(1,2) I(1) this(3)]
  have bb: "on_backbuf (wm_init ?d)" using I(5-7) by (simp add: wm_init_def Let_def) (simp add: on_backbuf_def)
  let ?g = "g\<lparr>desktop := wm_init ?d, start_menu_open := False, term_win_id := -1, term_app := (term_app g)\<lparr>term_input_len := 0\<rparr>,
       win_app_type := replicate WM_MAX_WINDOWS APP_NONE, prev_left := False\<rparr>"
  have nz: "a \<noteq> 0" by (rule buffer_at_nonzero [OF fb])
  have st: "gui_start 0 a g = Some ?g" using nz len by (simp add: gui_start_def Let_def types_none_loop)
  have "types_ok (replicate WM_MAX_WINDOWS APP_NONE) {}" by (auto simp: types_ok_def)
  moreover have "apps_ok ?g" using ok by (simp add: apps_ok_def term_inv_def)
  ultimately have "gui_inv ?g" using W bb by (simp add: gui_inv_def)
  then show ?thesis using st W by auto
qed

text \<open>The machine after the frame buffer has been set up, with the variables of the C program zero.\<close>

definition gui_zero :: gui_state where
  "gui_zero = \<lparr>desktop = snd (buffer_alloc 300 desk_blank), win_app_type = replicate 8 0, start_menu_open = False, term_win_id = 0,
     term_app = term_zero, snake_app = snake_sample 0, tetris_app = tet_zero, ray_app = ray_zero, breakout_app = brk_zero, prev_left = False\<rparr>"

lemma gui_zero_starts: "\<exists>g'. gui_start 0 (page_addr 256) gui_zero = Some g' \<and> gui_inv g' \<and> shown (desktop g') = {} \<and> desktop g' = desk"
proof -
  have mm: "mm_inv desk_blank" "used_set desk_blank = {..<256}"
    using mm_boot_spec by (simp_all add: desk_blank_def mm_inv_def used_set_def bitmap_test_def)
  obtain a s where as: "buffer_alloc 300 desk_blank = (a, s)" by fastforce
  have a: "a = page_addr 256" using buffer_alloc_first [OF mm(2), of 300] as by (simp add: MAX_PAGES_def)
  then have nz: "a \<noteq> 0" by (simp add: MAX_PAGES_def)
  note B = buffer_alloc_result [OF mm(1) as nz] and M = wm_fields_more [OF buffer_alloc_result(12) [OF mm(1) as nz]]
  have d: "desktop gui_zero = s" by (simp add: gui_zero_def as)
  have arr: "snk_arrays (snake_app gui_zero)" "bricks_ok (bricks (breakout_app gui_zero))" "term_inv (term_app gui_zero)"
    using snake_sample_inv [of 0] term_zero_inv(1) by (simp_all add: gui_zero_def snk_inv_def snk_arrays_def brk_zero_def bricks_ok_def)
  have "\<exists>g'. gui_start 0 a gui_zero = Some g' \<and> gui_inv g' \<and> shown (desktop g') = {} \<and> desktop g' = wm_init (gpu_init a (desktop gui_zero))"
  proof (rule gui_start_inv)
    show "mm_inv (desktop gui_zero)" "buffer_at (desktop gui_zero) a 300" using B(1,4) by (simp_all add: d)
    show "length (windows (desktop gui_zero)) = WM_MAX_WINDOWS" "length (z_order (desktop gui_zero)) = WM_MAX_WINDOWS"
      unfolding d M by (simp_all add: desk_blank_def WM_MAX_WINDOWS_def)
    show "length (win_app_type gui_zero) = WM_MAX_WINDOWS" by (simp add: gui_zero_def WM_MAX_WINDOWS_def)
  qed (use arr in simp_all)
  moreover have "desk = wm_init (gpu_init a s)" by (simp add: desk_def as)
  ultimately show ?thesis using a d by auto
qed

definition idle_frame :: frame_input where
  "idle_frame = \<lparr>mouse_x = 300, mouse_y = 200, mouse_b = 0, polled = [KEY_ESC, 65], open_time = 0, open_time' = 0, tick_time = (\<lambda>_. 0), task_table = (\<lambda>_. None)\<rparr>"




text \<open>
  A click on the open start menu chooses the entry whose row the mouse is in, the row that is
  drawn with this label and highlighted under the mouse; everywhere else it just closes the menu.
\<close>

theorem start_menu_click_selects:
  shows "start_menu_click True mx my =
           (if 0 \<le> mx \<and> mx < MENU_W \<and> item_y 0 \<le> my \<and> my < item_y MENU_ITEMS
            then (menu_app_types ! nat ((my - item_y 0) div MENU_ITEM_H), False) else (-1, False)) \<and>
         (item_y i \<le> my \<and> my < item_y i + MENU_ITEM_H \<longleftrightarrow> (my - item_y 0) div MENU_ITEM_H = int i)"
proof -
  have row: "item_y i \<le> my \<and> my < item_y i + MENU_ITEM_H \<longleftrightarrow> (my - item_y 0) div MENU_ITEM_H = int i" for i
    by (simp add: item_y_def MENU_ITEM_H_def) linarith
  show ?thesis
  proof (cases "0 \<le> mx \<and> mx < MENU_W \<and> item_y 0 \<le> my \<and> my < item_y MENU_ITEMS")
    case True
    let ?i = "nat ((my - item_y 0) div MENU_ITEM_H)"
    have "0 \<le> (my - item_y 0) div MENU_ITEM_H" "(my - item_y 0) div MENU_ITEM_H < 5"
      using True unfolding item_y_def MENU_ITEM_H_def MENU_ITEMS_def by linarith+
    then obtain n where n: "(my - item_y 0) div MENU_ITEM_H = int n" "n < MENU_ITEMS" by (metis MENU_ITEMS_def nat_int of_nat_less_iff of_nat_numeral zero_le_imp_eq_int)
    have "first_idx (\<lambda>i. my \<ge> item_y i \<and> my < item_y i + MENU_ITEM_H) 0 MENU_ITEMS = Some ?i"
      unfolding first_idx_Some row using n by simp
    then show ?thesis using True row by (simp add: start_menu_click_def item_y_def menu_h_def MENU_ITEM_H_def)
  next
    case False
    have "first_idx (\<lambda>i. my \<ge> item_y i \<and> my < item_y i + MENU_ITEM_H) 0 MENU_ITEMS = None" if "0 \<le> mx" "mx < MENU_W"
      using False that by (auto simp: first_idx_None item_y_def MENU_ITEM_H_def MENU_ITEMS_def)
    then have "start_menu_click True mx my = (-1, False)" by (auto simp: start_menu_click_def)
    then show ?thesis unfolding if_not_P [OF False] using row by blast
  qed
qed

text \<open>
  A click that only closes the start menu is not seen by the window manager, which thus takes the
  button, still down in the next frame, for a new click: it raises, drags or, on a close button, focuses
  the window under the closed menu.
\<close>

theorem gui_menu_click_falls_through:
  assumes "start_menu_open g" and "\<not> prev_left g" and "mouse_b e AND MOUSE_BTN_LEFT \<noteq> 0"
    and "start_menu_click True (mouse_x e) (mouse_y e) = (-1, False)"
  shows "desktop (gui_mouse e g) = desktop g \<and> \<not> start_menu_open (gui_mouse e g) \<and>
         desktop (gui_mouse e (gui_mouse e g)) = snd (wm_handle_mouse (mouse_x e) (mouse_y e) (mouse_b e) (desktop g))"
proof -
  have "gui_mouse e g = g\<lparr>prev_left := True, start_menu_open := False\<rparr>" using assms by (simp add: gui_mouse_def Let_def)
  then show ?thesis using assms(3) by (simp add: gui_mouse_def Let_def)
qed

lemma wait_frame_ends:
  assumes "elapsed now last_frame \<ge> FRAME_TICKS" shows "\<exists>t. wait_frame (before @ now # rest) last_frame = Some t \<and> elapsed t last_frame \<ge> FRAME_TICKS"
  using assms by (induction before) auto

end
