(* ===== verification/Fb.thy ===== *)
theory Fb
  imports Gui
begin

text \<open>
  The frame buffer (\<^verbatim>\<open>kernel/fb.c\<close>): QEMU's fw_cfg device, the search for the file \<^verbatim>\<open>etc/ramfb\<close>, the
  configuration written by DMA, and the start of \<^verbatim>\<open>gui_main\<close> (\<^verbatim>\<open>kernel/gui.c\<close>) on top of it. The bytes of the
  selected item are an argument, and so is what successive reads of the DMA control word give; the
  addresses of the two static structures are arguments as well.
\<close>

section \<open>Byte order\<close>

definition bswap16 :: "u16 \<Rightarrow> u16" where
  "bswap16 v = drop_bit 8 v OR push_bit 8 v"

definition bswap32 :: "u32 \<Rightarrow> u32" where
  "bswap32 v = drop_bit 24 (v AND 0xFF000000) OR drop_bit 8 (v AND 0x00FF0000) OR
               push_bit 8 (v AND 0x0000FF00) OR push_bit 24 (v AND 0x000000FF)"

definition bswap64 :: "u64 \<Rightarrow> u64" where
  "bswap64 v = push_bit 32 (ucast (bswap32 (ucast v))) OR ucast (bswap32 (ucast (drop_bit 32 v)))"

section \<open>The fw_cfg device\<close>

definition FW_CFG_BASE :: u64 where "FW_CFG_BASE = 0x09020000"
definition FW_CFG_DMA :: u64 where "FW_CFG_DMA = FW_CFG_BASE + 0x10"
definition FW_CFG_SIGNATURE :: u16 where "FW_CFG_SIGNATURE = 0x0000"
definition FW_CFG_FILE_DIR :: u16 where "FW_CFG_FILE_DIR = 0x0019"
definition DRM_FORMAT_XRGB8888 :: u32 where "DRM_FORMAT_XRGB8888 = 0x34325258"
definition FB_STRIDE :: u32 where "FB_STRIDE = 640 * 4"

record fw_cfg_dma_access =
  control :: u32
  len32 :: u32
  address :: u64

record ramfb_cfg =
  addr :: u64
  fourcc :: u32
  cflags :: u32
  width :: u32
  height :: u32
  stride :: u32

text \<open>The selector as the device reads it (the register is big-endian) and the position in its item.\<close>

record fb_state =
  selector :: u16
  position :: nat
  fb_buffer :: u64
  fb_phys_addr :: u64
  dma :: fw_cfg_dma_access
  cfg :: ramfb_cfg
  doorbell :: "(u64 \<times> u32) list"

type_synonym fw_cfg = "u16 \<Rightarrow> nat \<Rightarrow> u8"

definition fw_cfg_select :: "u16 \<Rightarrow> fb_state \<Rightarrow> fb_state" where
  "fw_cfg_select sel s = (let written = bswap16 sel in s\<lparr>selector := bswap16 written, position := 0\<rparr>)"

definition fw_cfg_read_byte :: "fw_cfg \<Rightarrow> fb_state \<Rightarrow> u8 \<times> fb_state" where
  "fw_cfg_read_byte fw s = (fw (selector s) (position s), s\<lparr>position := position s + 1\<rparr>)"

primrec fw_cfg_read :: "fw_cfg \<Rightarrow> nat \<Rightarrow> fb_state \<Rightarrow> u8 list \<times> fb_state" where
  "fw_cfg_read fw 0 s = ([], s)"
| "fw_cfg_read fw (Suc n) s =
     (case fw_cfg_read_byte fw s of (b, s1) \<Rightarrow> case fw_cfg_read fw n s1 of (bs, s2) \<Rightarrow> (b # bs, s2))"

text \<open>Little-endian words of the bytes read.\<close>

definition le16 :: "u8 list \<Rightarrow> u16" where
  "le16 bs = ucast (bs ! 0) OR push_bit 8 (ucast (bs ! 1))"

definition le32 :: "u8 list \<Rightarrow> u32" where
  "le32 bs = ucast (bs ! 0) OR push_bit 8 (ucast (bs ! 1)) OR push_bit 16 (ucast (bs ! 2)) OR push_bit 24 (ucast (bs ! 3))"

record fw_cfg_file =
  fsize :: u32
  fselect :: u16
  freserved :: u16
  fname :: "u8 list"

definition fw_cfg_file_of :: "u8 list \<Rightarrow> fw_cfg_file" where
  "fw_cfg_file_of bs = \<lparr>fsize = le32 bs, fselect = le16 (drop 4 bs), freserved = le16 (drop 6 bs), fname = drop 8 bs\<rparr>"

text \<open>
  The wait for the control word, whose \<open>k\<close>-th read gives \<open>ctrl k\<close>, with the counter \<open>timeout\<close>: the value
  of the read after the loop.
\<close>

primrec dma_wait :: "(nat \<Rightarrow> u32) \<Rightarrow> nat \<Rightarrow> nat \<Rightarrow> u32" where
  "dma_wait ctrl k 0 = ctrl (k + 1)"
| "dma_wait ctrl k (Suc t) = (if ctrl k \<noteq> 0 \<and> t > 0 then dma_wait ctrl (k + 1) t else ctrl (k + 1))"

definition fw_cfg_dma_write :: "(nat \<Rightarrow> u32) \<Rightarrow> u64 \<Rightarrow> u16 \<Rightarrow> u64 \<Rightarrow> u32 \<Rightarrow> fb_state \<Rightarrow> int \<times> fb_state" where
  "fw_cfg_dma_write ctrl dma_at sel data n s =
     (let s1 = s\<lparr>dma := \<lparr>control = bswap32 (push_bit 16 (ucast sel) OR 0x08 OR 0x10), len32 = bswap32 n, address = bswap64 data\<rparr>\<rparr>;
          s2 = s1\<lparr>doorbell := doorbell s1 @ [(FW_CFG_DMA, bswap32 (ucast (drop_bit 32 dma_at))),
                                            (FW_CFG_DMA + 4, bswap32 (ucast (dma_at AND 0xFFFFFFFF)))]\<rparr>
      in if dma_wait ctrl 0 1000000 \<noteq> 0 then (-1, s2) else (0, s2))"

definition name_matches :: "u8 list \<Rightarrow> u8 list \<Rightarrow> bool" where
  "name_matches name entry_name \<longleftrightarrow> list_all (\<lambda>j. entry_name ! j = name ! j) [0..<length name]"

primrec find_file_loop :: "fw_cfg \<Rightarrow> u8 list \<Rightarrow> nat \<Rightarrow> fb_state \<Rightarrow> int \<times> fb_state" where
  "find_file_loop fw name 0 s = (-1, s)"
| "find_file_loop fw name (Suc n) s =
     (case fw_cfg_read fw 64 s of
        (bs, s1) \<Rightarrow>
          let file = fw_cfg_file_of bs
          in if name_matches name (fname file) then (uint (bswap16 (fselect file)), s1) else find_file_loop fw name n s1)"

definition fw_cfg_find_file :: "fw_cfg \<Rightarrow> u8 list \<Rightarrow> fb_state \<Rightarrow> int \<times> fb_state" where
  "fw_cfg_find_file fw name s =
     (case fw_cfg_read fw 4 (fw_cfg_select FW_CFG_FILE_DIR s) of
        (count_be, s1) \<Rightarrow> find_file_loop fw name (unat (bswap32 (le32 count_be))) s1)"

section \<open>Initialisation\<close>

definition etc_ramfb :: "u8 list" where
  "etc_ramfb = [101, 116, 99, 47, 114, 97, 109, 102, 98]"

definition ramfb_config :: "u64 \<Rightarrow> ramfb_cfg" where
  "ramfb_config phys =
     \<lparr>addr = bswap64 phys, fourcc = bswap32 DRM_FORMAT_XRGB8888, cflags = 0,
      width = bswap32 (word_of_int FB_WIDTH), height = bswap32 (word_of_int FB_HEIGHT), stride = bswap32 FB_STRIDE\<rparr>"

definition fb_init ::
  "fw_cfg \<Rightarrow> (nat \<Rightarrow> u32) \<Rightarrow> u64 \<Rightarrow> u64 \<Rightarrow> fb_state \<Rightarrow> 'a gpu_state_scheme \<Rightarrow> int \<times> fb_state \<times> 'a gpu_state_scheme" where
  "fb_init fw ctrl dma_at cfg_at s g =
     (case fw_cfg_read fw 4 (fw_cfg_select FW_CFG_SIGNATURE s) of
        (sig, s1) \<Rightarrow>
          if sig ! 0 \<noteq> 81 \<or> sig ! 3 \<noteq> 85 then (-1, s1, g)
          else case fw_cfg_find_file fw etc_ramfb s1 of
                 (ramfb_sel, s2) \<Rightarrow>
                   if ramfb_sel < 0 then (-1, s2, g)
                   else case buffer_alloc ((FB_SIZE + PAGE_SIZE - 1) div PAGE_SIZE) g of
                          (buf, g1) \<Rightarrow>
                            let s3 = s2\<lparr>fb_buffer := buf\<rparr>
                            in if buf = 0 then (-1, s3, g1)
                               else let s4 = s3\<lparr>fb_phys_addr := buf, cfg := ramfb_config buf\<rparr>
                                    in case fw_cfg_dma_write ctrl dma_at (word_of_int ramfb_sel) cfg_at 28 s4 of
                                         (r, s5) \<Rightarrow> if r < 0 then (-1, s5, g1) else (0, s5, g1))"

definition fb_get_buffer :: "fb_state \<Rightarrow> u64" where
  "fb_get_buffer s = fb_buffer s"

text \<open>\<^verbatim>\<open>gui_main\<close> up to its loop.\<close>

definition gui_main_start ::
  "fw_cfg \<Rightarrow> (nat \<Rightarrow> u32) \<Rightarrow> u64 \<Rightarrow> u64 \<Rightarrow> fb_state \<Rightarrow> gui_state \<Rightarrow> fb_state \<times> gui_state \<times> gui_state option" where
  "gui_main_start fw ctrl dma_at cfg_at s g =
     (case fb_init fw ctrl dma_at cfg_at s (desktop g) of
        (r, s1, d) \<Rightarrow> let g1 = g\<lparr>desktop := d\<rparr> in (s1, g1, gui_start r (fb_get_buffer s1) g1))"


section \<open>Byte order\<close>

lemma bit_bswap16: "bit (bswap16 v) n \<longleftrightarrow> n < 16 \<and> bit v (if n < 8 then 8 + n else n - 8)"
  by (auto simp: bswap16_def bit_simps dest: bit_imp_le_length)

lemma bswap16_twice [simp]: "bswap16 (bswap16 v) = v"
  by (rule bit_word_eqI) (auto simp: bit_bswap16)

text \<open>The byte a bit of a 32-bit word is in.\<close>

lemma byte_cases:
  assumes "n < (32 :: nat)"
  obtains "n < 8" "n div 8 = 0" "n mod 8 = n" | "8 \<le> n" "n < 16" "n div 8 = 1" "n mod 8 = n - 8"
    | "16 \<le> n" "n < 24" "n div 8 = 2" "n mod 8 = n - 16" | "24 \<le> n" "n < 32" "n div 8 = 3" "n mod 8 = n - 24"
proof -
  have m: "n mod 8 = n - 8 * (n div 8)" by (simp add: minus_mult_div_eq_mod)
  consider "n < 8" | "8 \<le> n \<and> n < 16" | "16 \<le> n \<and> n < 24" | "24 \<le> n \<and> n < 32" using assms by linarith
  then show thesis
  proof cases
    case 1 then show thesis using that(1) by simp
  next
    case 2 then have "n div 8 = 1" by presburger
    then show thesis using that(2) 2 m by simp
  next
    case 3 then have "n div 8 = 2" by presburger
    then show thesis using that(3) 3 m by simp
  next
    case 4 then have "n div 8 = 3" by presburger
    then show thesis using that(4) 4 m by simp
  qed
qed

lemma byte_masks:
  "(0xFF000000 :: u32) = push_bit 24 (mask 8)" "(0x00FF0000 :: u32) = push_bit 16 (mask 8)"
  "(0x0000FF00 :: u32) = push_bit 8 (mask 8)" "(0x000000FF :: u32) = mask 8"
  by (simp_all add: mask_eq_exp_minus_1 push_bit_eq_mult)

lemma bit_bswap32: "n < 32 \<Longrightarrow> bit (bswap32 v) n \<longleftrightarrow> bit v (8 * (3 - n div 8) + n mod 8)"
  by (erule byte_cases) (simp_all add: bswap32_def byte_masks bit_simps del: push_bit_numeral push_bit_of_1, auto simp: add.commute)

lemma bswap32_twice [simp]: "bswap32 (bswap32 v) = v"
proof (rule bit_word_eqI)
  fix n assume n: "n < LENGTH(32)"
  let ?k = "8 * (3 - n div 8) + n mod 8"
  have d: "?k div 8 = 3 - n div 8" "?k mod 8 = n mod 8" by simp_all
  have q: "n div 8 \<le> 3" using n by (simp add: div_le_mono [of n 31 8, simplified])
  then have "?k < 32" by (simp add: less_mult_imp_div_less)
  then have "bit (bswap32 (bswap32 v)) n \<longleftrightarrow> bit v (8 * (3 - (3 - n div 8)) + n mod 8)"
    using n d by (simp add: bit_bswap32)
  then show "bit (bswap32 (bswap32 v)) n = bit v n" using q by simp
qed

lemma bswap64_halves:
  "(ucast (bswap64 v) :: u32) = bswap32 (ucast (drop_bit 32 v))" "(ucast (drop_bit 32 (bswap64 v)) :: u32) = bswap32 (ucast v)"
  by (rule bit_word_eqI; auto simp: bswap64_def bit_simps dest: bit_imp_le_length)+

lemma bswap64_twice [simp]: "bswap64 (bswap64 v) = v"
proof -
  have "bswap64 (bswap64 v) = push_bit 32 (ucast (ucast (drop_bit 32 v) :: u32)) OR ucast (ucast v :: u32)"
    unfolding bswap64_def [of "bswap64 v"] bswap64_halves by simp
  also have "\<dots> = v" by (rule bit_word_eqI) (auto simp: bit_simps dest: bit_imp_le_length)
  finally show ?thesis .
qed

text \<open>The device's byte order.\<close>

definition be16 :: "u8 list \<Rightarrow> u16" where
  "be16 bs = push_bit 8 (ucast (bs ! 0)) OR ucast (bs ! 1)"

definition be32 :: "u8 list \<Rightarrow> u32" where
  "be32 bs = push_bit 24 (ucast (bs ! 0)) OR push_bit 16 (ucast (bs ! 1)) OR push_bit 8 (ucast (bs ! 2)) OR ucast (bs ! 3)"

lemma bswap16_le16: "bswap16 (le16 bs) = be16 bs"
  by (rule bit_word_eqI) (auto simp: bit_bswap16 le16_def be16_def bit_simps dest: bit_imp_le_length)

lemma bit_le32: "n < 32 \<Longrightarrow> bit (le32 bs) n \<longleftrightarrow> bit (bs ! (n div 8)) (n mod 8)"
  by (erule byte_cases) (auto simp: le32_def bit_simps dest: bit_imp_le_length)

lemma bit_be32: "n < 32 \<Longrightarrow> bit (be32 bs) n \<longleftrightarrow> bit (bs ! (3 - n div 8)) (n mod 8)"
  by (erule byte_cases) (auto simp: be32_def bit_simps dest: bit_imp_le_length)

lemma bswap32_le32: "bswap32 (le32 bs) = be32 bs"
proof (rule bit_word_eqI)
  fix n assume n: "n < LENGTH(32)"
  let ?k = "8 * (3 - n div 8) + n mod 8"
  have d: "?k div 8 = 3 - n div 8" "?k mod 8 = n mod 8" by simp_all
  moreover have "?k < 32" by (simp add: less_mult_imp_div_less)
  ultimately show "bit (bswap32 (le32 bs)) n = bit (be32 bs) n" using n by (simp add: bit_bswap32 bit_le32 bit_be32)
qed

section \<open>Reading the directory\<close>

lemma fw_cfg_read_eq:
  "fw_cfg_read fw n s = (map (\<lambda>i. fw (selector s) (position s + i)) [0..<n], s\<lparr>position := position s + n\<rparr>)"
  by (induction n arbitrary: s) (simp_all add: fw_cfg_read_byte_def map_upt_Suc del: upt_Suc)

definition item_bytes :: "(nat \<Rightarrow> u8) \<Rightarrow> nat \<Rightarrow> nat \<Rightarrow> u8 list" where
  "item_bytes item at n = map (\<lambda>i. item (at + i)) [0..<n]"

definition dir_entry :: "(nat \<Rightarrow> u8) \<Rightarrow> nat \<Rightarrow> u8 list" where
  "dir_entry item i = item_bytes item (4 + 64 * i) 64"

lemma find_file_loop_eq:
  assumes "position s = 4 + 64 * i" "selector s = sel"
  shows "fst (find_file_loop fw name n s) =
    (case first_idx (\<lambda>i. name_matches name (drop 8 (dir_entry (fw sel) i))) i (i + n) of
       Some k \<Rightarrow> uint (be16 (drop 4 (dir_entry (fw sel) k))) | None \<Rightarrow> -1)"
  using assms
proof (induction n arbitrary: s i)
  case 0
  then show ?case by (simp add: first_idx.simps)
next
  case (Suc n)
  have rd: "fw_cfg_read fw 64 s = (dir_entry (fw sel) i, s\<lparr>position := position s + 64\<rparr>)"
    using Suc.prems by (simp add: fw_cfg_read_eq dir_entry_def item_bytes_def)
  show ?case
    using Suc.IH [of "s\<lparr>position := position s + 64\<rparr>" "Suc i"] Suc.prems
    by (subst first_idx.simps) (simp add: rd fw_cfg_file_of_def Let_def bswap16_le16)
qed

lemma find_file_loop_frame: "\<exists>k. snd (find_file_loop fw name n s) = s\<lparr>position := k\<rparr>"
proof (induction n arbitrary: s)
  case 0
  have "s = s\<lparr>position := position s\<rparr>" by simp
  then show ?case by (metis find_file_loop.simps(1) snd_conv)
next
  case (Suc n)
  from Suc [of "s\<lparr>position := position s + 64\<rparr>"] show ?case by (auto simp: fw_cfg_read_eq Let_def)
qed

text \<open>
  \<^verbatim>\<open>fw_cfg_find_file\<close> returns the selector of the first file of the directory whose name begins with the
  name looked for, in the byte order of the device, or -1 if there is none.
\<close>

lemma fw_cfg_find_file_eq:
  "fst (fw_cfg_find_file fw name s) =
    (let dir = fw FW_CFG_FILE_DIR
     in case first_idx (\<lambda>i. name_matches name (drop 8 (dir_entry dir i))) 0 (unat (be32 (item_bytes dir 0 4))) of
          Some k \<Rightarrow> uint (be16 (drop 4 (dir_entry dir k))) | None \<Rightarrow> -1)"
  using find_file_loop_eq [of "fw_cfg_select FW_CFG_FILE_DIR s\<lparr>position := 4\<rparr>" 0 FW_CFG_FILE_DIR]
  by (simp add: fw_cfg_find_file_def fw_cfg_read_eq fw_cfg_select_def bswap32_le32 item_bytes_def Let_def)


section \<open>Initialisation\<close>

lemma select_find_frame: "\<exists>sel k. snd (fw_cfg_find_file fw name s) = s\<lparr>selector := sel, position := k\<rparr>"
proof -
  obtain k where "snd (find_file_loop fw name (unat (be32 (item_bytes (fw FW_CFG_FILE_DIR) 0 4))) (fw_cfg_select FW_CFG_FILE_DIR s\<lparr>position := 4\<rparr>)) =
    fw_cfg_select FW_CFG_FILE_DIR s\<lparr>position := 4\<rparr>\<lparr>position := k\<rparr>"
    using find_file_loop_frame by blast
  then show ?thesis
    by (simp add: fw_cfg_find_file_def fw_cfg_read_eq fw_cfg_select_def bswap32_le32 item_bytes_def Let_def) (metis fb_state.update_convs(1,2))
qed

lemma fb_pages': "(FB_SIZE + PAGE_SIZE - 1) div PAGE_SIZE = 300"
  using fb_pages by (simp add: word_unat_eq_iff)

definition ramfb_entry :: "fw_cfg \<Rightarrow> nat option" where
  "ramfb_entry fw = (let dir = fw FW_CFG_FILE_DIR
     in first_idx (\<lambda>i. name_matches etc_ramfb (drop 8 (dir_entry dir i))) 0 (unat (be32 (item_bytes dir 0 4))))"

definition ramfb_selector :: "fw_cfg \<Rightarrow> nat \<Rightarrow> u16" where
  "ramfb_selector fw k = be16 (drop 4 (dir_entry (fw FW_CFG_FILE_DIR) k))"

lemma fb_init_cases:
  assumes "fb_init fw ctrl dma_at cfg_at s g = (r, s', g')"
  obtains (absent) "r = -1" "g' = g" "fw FW_CFG_SIGNATURE 0 \<noteq> 81 \<or> fw FW_CFG_SIGNATURE 3 \<noteq> 85 \<or> ramfb_entry fw = None"
  | (memory) "r = -1" "fst (buffer_alloc 300 g) = 0" "g' = snd (buffer_alloc 300 g)"
  | (sent) k t buf where "fw FW_CFG_SIGNATURE 0 = 81" "fw FW_CFG_SIGNATURE 3 = 85" "ramfb_entry fw = Some k"
      "buffer_alloc 300 g = (buf, g')" "buf \<noteq> 0" "fb_buffer t = buf" "cfg t = ramfb_config buf"
      "(r, s') = fw_cfg_dma_write ctrl dma_at (ramfb_selector fw k) cfg_at 28 t"
proof -
  define s1 where "s1 = fw_cfg_select FW_CFG_SIGNATURE s\<lparr>position := 4\<rparr>"
  have sig: "fw_cfg_read fw 4 (fw_cfg_select FW_CFG_SIGNATURE s) = (item_bytes (fw FW_CFG_SIGNATURE) 0 4, s1)"
    by (simp add: fw_cfg_read_eq fw_cfg_select_def s1_def item_bytes_def)
  have b: "item_bytes f 0 4 ! 0 = f 0" "item_bytes f 0 4 ! 3 = f 3" for f by (simp_all add: item_bytes_def)
  obtain rs s2 where find: "fw_cfg_find_file fw etc_ramfb s1 = (rs, s2)" by (cases "fw_cfg_find_file fw etc_ramfb s1")
  then have rs: "rs = (case ramfb_entry fw of Some k \<Rightarrow> uint (ramfb_selector fw k) | None \<Rightarrow> -1)"
    using fw_cfg_find_file_eq [of fw etc_ramfb s1] by (simp add: ramfb_entry_def ramfb_selector_def Let_def cong: option.case_cong)
  obtain buf g1 where al: "buffer_alloc 300 g = (buf, g1)" by (cases "buffer_alloc 300 g")
  define t where "t = s2\<lparr>fb_buffer := buf, fb_phys_addr := buf, cfg := ramfb_config buf\<rparr>"
  show thesis
  proof (cases "fw FW_CFG_SIGNATURE 0 = 81 \<and> fw FW_CFG_SIGNATURE 3 = 85 \<and> ramfb_entry fw \<noteq> None")
    case False
    then show thesis using assms rs absent by (auto simp: fb_init_def sig b find split: if_splits)
  next
    case True
    then obtain k where k: "ramfb_entry fw = Some k" by blast
    obtain r1 s5 where w: "fw_cfg_dma_write ctrl dma_at (ramfb_selector fw k) cfg_at 28 t = (r1, s5)"
      by (cases "fw_cfg_dma_write ctrl dma_at (ramfb_selector fw k) cfg_at 28 t")
    then have r1: "r1 = 0 \<or> r1 = -1" by (auto simp: fw_cfg_dma_write_def Let_def split: if_splits)
    have init: "fb_init fw ctrl dma_at cfg_at s g = (if buf = 0 then (-1, s2\<lparr>fb_buffer := buf\<rparr>, g1) else if r1 < 0 then (-1, s5, g1) else (0, s5, g1))"
      using True rs w unfolding fb_init_def fb_pages' sig by (simp add: b find k al t_def [symmetric] Let_def)
    show thesis
    proof (cases "buf = 0")
      case 0: True
      then have res: "r = -1" "g' = g1" using assms [unfolded init] by simp_all
      show thesis by (rule memory) (use res al 0 in \<open>simp_all only: fst_conv snd_conv\<close>)
    next
      case False
      then have res: "r = r1" "s' = s5" "g' = g1" using assms r1 by (auto simp only: init prod.inject split: if_splits)
      have t: "fb_buffer t = buf" "cfg t = ramfb_config buf" by (simp_all add: t_def)
      show thesis
        by (rule sent [of k buf t]) (use True k al w res t False in simp_all)
    qed
  qed
qed


lemma dma_write_result:
  "fw_cfg_dma_write ctrl dma_at sel data n s = (r, s') \<Longrightarrow>
   r = (if dma_wait ctrl 0 1000000 = 0 then 0 else -1) \<and> fb_buffer s' = fb_buffer s \<and> cfg s' = cfg s \<and>
   bswap32 (control (dma s')) = push_bit 16 (ucast sel) OR 0x18 \<and> bswap32 (len32 (dma s')) = n \<and> bswap64 (address (dma s')) = data"
  unfolding fw_cfg_dma_write_def Let_def by (auto simp: or.assoc split: if_splits)

lemma fb_init_buffer:
  assumes "mm_inv g" "fb_init fw ctrl dma_at cfg_at s g = (r, s', g')" "\<not> r < 0"
  shows "r = 0" "buffer_at g' (fb_buffer s') 300" "mm_inv g'" "gpu_state.more g' = gpu_state.more g"
proof -
  have "r = 0 \<and> buffer_at g' (fb_buffer s') 300 \<and> mm_inv g' \<and> gpu_state.more g' = gpu_state.more g"
    using assms(2)
  proof (cases rule: fb_init_cases)
    case (sent k t buf)
    note w = dma_write_result [OF sent(8) [symmetric]] and B = buffer_alloc_result [OF assms(1) sent(4,5)]
    have "unat (300 :: u64) = 300" by simp
    note B = B [unfolded this]
    have "dma_wait ctrl 0 1000000 = 0" using w assms(3) by (auto split: if_splits)
    then show ?thesis using w B(1-4,12) sent(6) by simp
  qed (use assms(3) in simp_all)
  then show "r = 0" "buffer_at g' (fb_buffer s') 300" "mm_inv g'" "gpu_state.more g' = gpu_state.more g" by simp_all
qed


text \<open>
  When the device never finishes the transfer, \<^verbatim>\<open>fb_init\<close> gives up, but the 300 pages of the frame buffer
  stay in use although nothing refers to them any more.
\<close>

theorem fb_init_timeout_leaks:
  assumes "mm_inv g" "fw FW_CFG_SIGNATURE 0 = 81" "fw FW_CFG_SIGNATURE 3 = 85" "ramfb_entry fw = Some k"
    and "fst (buffer_alloc 300 g) \<noteq> 0" "dma_wait ctrl 0 1000000 \<noteq> 0"
  shows "\<exists>s' g'. fb_init fw ctrl dma_at cfg_at s g = (-1, s', g') \<and> used_set g' = used_set g \<union> region (fb_buffer s') 300 \<and>
    region (fb_buffer s') 300 \<inter> used_set g = {} \<and> fb_get_buffer s' \<noteq> 0"
proof -
  obtain r s' g' where i: "fb_init fw ctrl dma_at cfg_at s g = (r, s', g')" by (metis prod_cases3)
  then show ?thesis
  proof (cases rule: fb_init_cases)
    case (sent k t buf)
    note w = dma_write_result [OF sent(8) [symmetric]] and B = buffer_alloc_result [OF assms(1) sent(4,5)]
    have "unat (300 :: u64) = 300" by simp
    note B = B [unfolded this]
    then show ?thesis using i w B(2,3) sent(5,6) assms(6) by (simp add: fb_get_buffer_def)
  qed (use assms in simp_all)
qed



text \<open>A device with one file, \<^verbatim>\<open>etc/ramfb\<close>, under selector 32.\<close>

definition one_file :: fw_cfg where
  "one_file sel i =
     (if sel = FW_CFG_SIGNATURE then (if i < 4 then [81, 69, 77, 85] ! i else 0)
      else if sel = FW_CFG_FILE_DIR then (if i = 3 then 1 else if i = 9 then 32 else if 12 \<le> i \<and> i < 21 then etc_ramfb ! (i - 12) else 0)
      else 0)"

definition fb_zero :: fb_state where
  "fb_zero = \<lparr>selector = 0, position = 0, fb_buffer = 0, fb_phys_addr = 0, dma = \<lparr>control = 0, len32 = 0, address = 0\<rparr>,
     cfg = \<lparr>addr = 0, fourcc = 0, cflags = 0, width = 0, height = 0, stride = 0\<rparr>, doorbell = []\<rparr>"

lemma one_file_entry: "ramfb_entry one_file = Some 0" "one_file FW_CFG_SIGNATURE 0 = 81" "one_file FW_CFG_SIGNATURE 3 = 85"
proof -
  have "be32 (item_bytes (one_file FW_CFG_FILE_DIR) 0 4) = 1"
    by (simp add: be32_def item_bytes_def one_file_def FW_CFG_FILE_DIR_def FW_CFG_SIGNATURE_def upt_rec)
  moreover have "name_matches etc_ramfb (drop 8 (dir_entry (one_file FW_CFG_FILE_DIR) 0))"
    by (simp add: name_matches_def dir_entry_def item_bytes_def one_file_def FW_CFG_FILE_DIR_def FW_CFG_SIGNATURE_def etc_ramfb_def upt_rec)
  ultimately show "ramfb_entry one_file = Some 0"
    by (simp add: ramfb_entry_def Let_def first_idx.simps)
  show "one_file FW_CFG_SIGNATURE 0 = 81" "one_file FW_CFG_SIGNATURE 3 = 85" by (simp_all add: one_file_def)
qed

lemma dma_wait_const: "dma_wait (\<lambda>_. c) k t = c"
  by (induction t arbitrary: k) simp_all

lemma desk_blank_buffer: "mm_inv desk_blank" "fst (buffer_alloc 300 desk_blank) \<noteq> 0"
proof -
  have mm: "mm_inv desk_blank" "used_set desk_blank = {..<256}"
    using mm_boot_spec by (simp_all add: desk_blank_def mm_inv_def used_set_def bitmap_test_def)
  have "fst (buffer_alloc 300 desk_blank) = page_addr 256" using buffer_alloc_first [OF mm(2), of 300] by (simp add: MAX_PAGES_def)
  then show "mm_inv desk_blank" "fst (buffer_alloc 300 desk_blank) \<noteq> 0" using mm by (simp_all add: MAX_PAGES_def)
qed

theorem fb_init_timeout_leaks_witness:
  "\<exists>s' g'. fb_init one_file (\<lambda>_. 1) 0x1000 0x2000 fb_zero desk_blank = (-1, s', g') \<and> used_set g' \<noteq> used_set desk_blank"
proof -
  have "dma_wait (\<lambda>_. 1) 0 1000000 \<noteq> (0 :: u32)" by (simp only: dma_wait_const) simp
  from fb_init_timeout_leaks [OF desk_blank_buffer(1) one_file_entry(2,3,1) desk_blank_buffer(2) this] obtain s' g' where
    f: "fb_init one_file (\<lambda>_. 1) 0x1000 0x2000 fb_zero desk_blank = (-1, s', g')" "used_set g' = used_set desk_blank \<union> region (fb_buffer s') 300"
    "region (fb_buffer s') 300 \<inter> used_set desk_blank = {}" by blast
  have "region (fb_buffer s') 300 \<noteq> {}" by (simp add: region_def)
  then show ?thesis using f by blast
qed

lemma fb_init_works:
  assumes "dma_wait ctrl 0 1000000 = 0"
  shows "fst (fb_init one_file ctrl 0x1000 0x2000 fb_zero desk_blank) = 0"
proof -
  obtain r s' g' where i: "fb_init one_file ctrl 0x1000 0x2000 fb_zero desk_blank = (r, s', g')" by (metis prod_cases3)
  then have "r = 0"
  proof (cases rule: fb_init_cases)
    case (sent k t buf)
    then show ?thesis using dma_write_result assms by metis
  qed (use one_file_entry desk_blank_buffer in auto)
  then show ?thesis using i by simp
qed



end
