(* ===== verification/Game_Run.thy ===== *)
theory Game_Run
  imports Snake Tetris Breakout Raycaster
begin

text \<open>
  The full-screen loops of the four games: \<^verbatim>\<open>snake_run\<close>, \<^verbatim>\<open>tetris_run\<close>, \<^verbatim>\<open>raycaster_run\<close> and
  \<^verbatim>\<open>breakout_run\<close> (\<^verbatim>\<open>games/*.c\<close>). What \<^verbatim>\<open>input_poll\<close> and \<^verbatim>\<open>timer_get_ticks\<close> return in the turns of the loop is
  an argument; \<^verbatim>\<open>sched_yield\<close> gives the processor away between the turns and leaves the game alone.
\<close>

section \<open>The loop\<close>

text \<open>
  One turn: the results of \<^verbatim>\<open>input_poll\<close> in their order, the time read before the tick (only
  \<^verbatim>\<open>breakout_run\<close> does that), within the tick and before the picture.
\<close>

record turn =
  polls :: "int list"
  now_phys :: u64
  now_tick :: u64
  now_frame :: u64

datatype 'a outcome = Running 'a | Returned 'a

text \<open>\<^verbatim>\<open>while (key != KEY_NONE)\<close>; a list that has come to its end stands for \<^verbatim>\<open>KEY_NONE\<close>.\<close>

primrec key_loop :: "(int \<Rightarrow> 'g \<Rightarrow> 'g option) \<Rightarrow> int list \<Rightarrow> 'g \<Rightarrow> 'g outcome option" where
  "key_loop press [] g = Some (Running g)"
| "key_loop press (k # ks) g =
     (if k = KEY_NONE then Some (Running g)
      else if k = KEY_ESC then Some (Returned g)
      else Option.bind (press k g) (key_loop press ks))"

text \<open>The picture is shown when three ticks have passed since the last one.\<close>

definition show_frame :: "(gpu_state \<Rightarrow> gpu_state) \<Rightarrow> u64 \<Rightarrow> u64 \<times> gpu_state \<Rightarrow> u64 \<times> gpu_state" where
  "show_frame draw now = (\<lambda>(last_frame, d). if elapsed now last_frame \<ge> 3 then (now, gpu_flip (draw d)) else (last_frame, d))"

primrec run_loop :: "(turn \<Rightarrow> 's \<Rightarrow> 's outcome option) \<Rightarrow> turn list \<Rightarrow> 's \<Rightarrow> 's outcome option" where
  "run_loop one_turn [] s = Some (Running s)"
| "run_loop one_turn (t # ts) s =
     Option.bind (one_turn t s) (\<lambda>out. case out of Returned s1 \<Rightarrow> Some (Returned s1) | Running s1 \<Rightarrow> run_loop one_turn ts s1)"

section \<open>The games\<close>

text \<open>The state of a loop: the game, the time of the last picture and the display.\<close>

definition snake_turn :: "turn \<Rightarrow> snake_state \<times> u64 \<times> gpu_state \<Rightarrow> (snake_state \<times> u64 \<times> gpu_state) outcome option" where
  "snake_turn t = (\<lambda>(g, disp).
     Option.bind (key_loop (\<lambda>k g. Some (snake_key k g)) (polls t) g) (\<lambda>out.
       case out of
         Returned g1 \<Rightarrow> Some (Returned (g1, disp))
       | Running g1 \<Rightarrow>
           let g2 = snd (snake_tick (now_tick t) g1)
           in Some (Running (g2, show_frame (snake_draw g2) (now_frame t) disp))))"

definition snake_run ::
  "u64 \<Rightarrow> u64 \<Rightarrow> u64 \<Rightarrow> turn list \<Rightarrow> snake_state \<Rightarrow> gpu_state \<Rightarrow> (snake_state \<times> u64 \<times> gpu_state) outcome option" where
  "snake_run now now' start turns g d = run_loop snake_turn turns (snake_init now now' g, start, d)"

definition tetris_turn :: "turn \<Rightarrow> tetris_state \<times> u64 \<times> gpu_state \<Rightarrow> (tetris_state \<times> u64 \<times> gpu_state) outcome option" where
  "tetris_turn t = (\<lambda>(g, disp).
     Option.bind (key_loop tetris_key (polls t) g) (\<lambda>out.
       case out of
         Returned g1 \<Rightarrow> Some (Returned (g1, disp))
       | Running g1 \<Rightarrow>
           Option.bind (tetris_tick (now_tick t) g1) (\<lambda>(_, g2).
             Some (Running (g2, show_frame (tetris_draw g2) (now_frame t) disp)))))"

definition tetris_run ::
  "u64 \<Rightarrow> u64 \<Rightarrow> u64 \<Rightarrow> turn list \<Rightarrow> tetris_state \<Rightarrow> gpu_state \<Rightarrow> (tetris_state \<times> u64 \<times> gpu_state) outcome option" where
  "tetris_run now now' start turns g d = run_loop tetris_turn turns (tetris_init now now' g, start, d)"

definition raycaster_turn :: "turn \<Rightarrow> ray_state \<times> u64 \<times> gpu_state \<Rightarrow> (ray_state \<times> u64 \<times> gpu_state) outcome option" where
  "raycaster_turn t = (\<lambda>(g, disp).
     Option.bind (key_loop (\<lambda>k g. Some (raycaster_key k g)) (polls t) g) (\<lambda>out.
       case out of
         Returned g1 \<Rightarrow> Some (Returned (g1, disp))
       | Running g1 \<Rightarrow> Some (Running (g1, show_frame (raycaster_draw g1) (now_frame t) disp))))"

definition raycaster_run ::
  "u64 \<Rightarrow> turn list \<Rightarrow> ray_state \<Rightarrow> gpu_state \<Rightarrow> (ray_state \<times> u64 \<times> gpu_state) outcome option" where
  "raycaster_run start turns g d = run_loop raycaster_turn turns (raycaster_init g, start, d)"

text \<open>
  \<^verbatim>\<open>breakout_run\<close> sets the game up by itself, for the whole screen, keeps a clock of its own for the
  ticks and sets \<^verbatim>\<open>last_tick\<close> back so that \<^verbatim>\<open>breakout_tick\<close> takes place.
\<close>

definition breakout_full_screen :: "breakout_state \<Rightarrow> breakout_state" where
  "breakout_full_screen g =
     (let g1 = g\<lparr>scr_w := FB_WIDTH, scr_h := FB_HEIGHT, paddle_w := 80\<rparr>;
          g2 = g1\<lparr>paddle_y := scr_h g1 - 40, brick_offset_x := (scr_w g1 - int BRICK_COLS * (BRICK_W + BRICK_GAP) + BRICK_GAP) sdiv 2\<rparr>;
          g3 = g2\<lparr>paddle_x := (scr_w g2 - paddle_w g2) sdiv 2, brk_score := 0, lives := 3, brk_over := False, game_won := False\<rparr>
      in reset_ball (init_bricks g3))"

definition breakout_turn ::
  "turn \<Rightarrow> (breakout_state \<times> u64) \<times> u64 \<times> gpu_state \<Rightarrow> ((breakout_state \<times> u64) \<times> u64 \<times> gpu_state) outcome option" where
  "breakout_turn t = (\<lambda>((g, last_phys), disp).
     Option.bind (key_loop (\<lambda>k g. Some (breakout_key k g)) (polls t) g) (\<lambda>out.
       case out of
         Returned g1 \<Rightarrow> Some (Returned ((g1, last_phys), disp))
       | Running g1 \<Rightarrow>
           let (g2, last_phys1) =
                 (if elapsed (now_phys t) last_phys \<ge> 3
                  then (snd (breakout_tick (now_tick t) (g1\<lparr>brk_last_tick := now_phys t - 3\<rparr>)), now_phys t)
                  else (g1, last_phys))
           in Some (Running ((g2, last_phys1), show_frame (breakout_draw g2) (now_frame t) disp))))"

definition breakout_run ::
  "u64 \<Rightarrow> u64 \<Rightarrow> turn list \<Rightarrow> breakout_state \<Rightarrow> gpu_state \<Rightarrow> ((breakout_state \<times> u64) \<times> u64 \<times> gpu_state) outcome option" where
  "breakout_run start_phys start turns g d = run_loop breakout_turn turns ((breakout_full_screen g, start_phys), start, d)"

section \<open>Loops that end with the escape key\<close>

text \<open>The keys of a turn end at the first \<^verbatim>\<open>KEY_NONE\<close>.\<close>

definition escapes :: "turn \<Rightarrow> bool" where
  "escapes t \<longleftrightarrow> KEY_ESC \<in> set (takeWhile (\<lambda>k. k \<noteq> KEY_NONE) (polls t))"

text \<open>How a loop stands after the turns \<open>ts\<close>: it has returned if the escape key came.\<close>

definition finished :: "turn list \<Rightarrow> 's \<Rightarrow> 's outcome" where
  "finished ts s = (if \<exists>t \<in> set ts. escapes t then Returned s else Running s)"

locale full_screen_loop =
  fixes one_turn :: "turn \<Rightarrow> 's \<Rightarrow> 's outcome option" and inv :: "'s \<Rightarrow> bool"
  assumes turn_result: "inv s \<Longrightarrow> \<exists>s'. one_turn t s = Some (if escapes t then Returned s' else Running s') \<and> inv s'"
begin

lemma run_until_escape:
  assumes "inv s"
  shows "\<exists>s'. run_loop one_turn ts s = Some (finished ts s') \<and> inv s'"
  using assms
proof (induction ts arbitrary: s)
  case (Cons t ts)
  obtain s1 where "one_turn t s = Some (if escapes t then Returned s1 else Running s1)" "inv s1" using turn_result [OF Cons.prems] by blast
  then show ?case using Cons.IH [of s1] by (cases "escapes t") (auto simp: finished_def)
qed (simp add: finished_def)

text \<open>Turns after the one with the escape key never take place.\<close>

lemma escape_is_last:
  assumes "inv s" "escapes t"
  shows "run_loop one_turn (ts @ t # us) s = run_loop one_turn (ts @ [t]) s"
  using assms(1)
proof (induction ts arbitrary: s)
  case Nil
  then show ?case using turn_result [OF Nil, of t] assms(2) by auto
next
  case (Cons v ts)
  obtain s1 where "one_turn v s = Some (if escapes v then Returned s1 else Running s1)" "inv s1" using turn_result [OF Cons.prems] by blast
  then show ?case using Cons.IH [of s1] by (cases "escapes v") auto
qed

end

lemma key_loop_spec:
  assumes press: "\<And>k g. P g \<Longrightarrow> \<exists>g'. press k g = Some g' \<and> P g'" and "P g"
  shows "\<exists>g'. key_loop press ks g = Some (if KEY_ESC \<in> set (takeWhile (\<lambda>k. k \<noteq> KEY_NONE) ks) then Returned g' else Running g') \<and> P g'"
  using assms(2)
proof (induction ks arbitrary: g)
  case (Cons k ks)
  obtain g' where g': "press k g = Some g'" "P g'" using press [OF Cons.prems] by blast
  show ?case
  proof (cases "k = KEY_NONE \<or> k = KEY_ESC")
    case True
    then show ?thesis using Cons.prems by (auto simp: KEY_NONE_def KEY_ESC_def)
  next
    case False
    then show ?thesis using Cons.IH [OF g'(2)] g'(1) by auto
  qed
qed simp

section \<open>The display\<close>

text \<open>Both buffers hold a picture and the target is one of them.\<close>

definition display_ok :: "gpu_state \<Rightarrow> bool" where
  "display_ok d \<longleftrightarrow> target_ok d \<and> FB_PIXELS \<le> length (pixels d (frontbuf d)) \<and> FB_PIXELS \<le> length (pixels d (backbuf d))"

lemma gpu_flip_display:
  assumes "display_ok d" shows "display_ok (gpu_flip d) \<and> fault (gpu_flip d) = fault d"
  using assms by (auto simp: gpu_flip_def display_ok_def target_ok_def Let_def)

lemma draws_display: "draws d e \<Longrightarrow> display_ok d \<Longrightarrow> display_ok e \<and> fault e = fault d"
  by (auto simp: display_ok_def drawsD)

lemma stored_display:
  assumes "stored d e" "display_ok d" shows "display_ok e"
proof -
  from assms(1) obtain p where e: "e = d\<lparr>pixels := p, fault := fault e\<rparr>" "\<forall>b. length (p b) = length (pixels d b)"
    by (auto simp: stored_def)
  have "display_ok (d\<lparr>pixels := p, fault := fault e\<rparr>)" using assms(2) e(2) by (simp add: display_ok_def target_ok_def)
  then show ?thesis using e(1) by simp
qed

lemma show_frame_display:
  assumes "display_ok d" "draws d (draw d)"
  shows "display_ok (snd (show_frame draw now (l, d))) \<and> fault (snd (show_frame draw now (l, d))) = fault d"
  using assms draws_display [OF assms(2,1)] gpu_flip_display [of "draw d"] by (simp add: show_frame_def)

lemma show_frame_stored:
  assumes "display_ok d" "stored d (draw d)"
  shows "display_ok (snd (show_frame draw now (l, d)))"
  using assms stored_display gpu_flip_display by (simp add: show_frame_def)

section \<open>The four games\<close>

text \<open>What a loop keeps: the invariant of its game, the display in order, and nothing written outside the buffers.\<close>

definition playing :: "('g \<Rightarrow> bool) \<Rightarrow> bool \<Rightarrow> 'g \<times> u64 \<times> gpu_state \<Rightarrow> bool" where
  "playing P f = (\<lambda>(g, l, d). P g \<and> display_ok d \<and> fault d = f)"

lemma playing_show:
  assumes "playing P f (g, disp)" "P g'" "\<And>d. target_ok d \<Longrightarrow> draws d (draw d)"
  shows "playing P f (g', show_frame draw now disp)"
proof -
  obtain l d where disp: "disp = (l, d)" by (cases disp)
  then have "display_ok d" "fault d = f" using assms(1) by (simp_all add: playing_def)
  then show ?thesis
    using show_frame_display [of d draw now l] assms(2,3) by (cases "show_frame draw now (l, d)") (auto simp: playing_def disp display_ok_def)
qed

lemma playing_game: "playing P f (g, disp) \<Longrightarrow> P g' \<Longrightarrow> playing P f (g', disp)"
  by (simp add: playing_def split: prod.splits)

lemma snake_draws: "target_ok d \<Longrightarrow> draws d (snake_draw g d)"
  using snake_draw_confined by blast

lemma tetris_draws: "target_ok d \<Longrightarrow> draws d (tetris_draw g d)"
  using tetris_draw_confined by blast

lemma breakout_draws: "target_ok d \<Longrightarrow> draws d (breakout_draw g d)"
  using breakout_draw_confined by blast

lemma snake_turn_result:
  assumes "playing snk_inv f s"
  shows "\<exists>s'. snake_turn t s = Some (if escapes t then Returned s' else Running s') \<and> playing snk_inv f s'"
proof -
  obtain g disp where s: "s = (g, disp)" by (cases s)
  have inv: "playing snk_inv f (g, disp)" "snk_inv g" using assms by (auto simp: s playing_def)
  obtain g1 where g1: "key_loop (\<lambda>k g. Some (snake_key k g)) (polls t) g = Some (if escapes t then Returned g1 else Running g1)" "snk_inv g1"
    using key_loop_spec [of snk_inv "\<lambda>k g. Some (snake_key k g)" g "polls t"] snake_key_inv inv(2) by (auto simp: escapes_def)
  define g2 where "g2 = snd (snake_tick (now_tick t) g1)"
  have g2: "snk_inv g2" using snake_tick_inv [OF g1(2)] by (simp add: g2_def)
  show ?thesis
    using g1(1) playing_game [OF inv(1) g1(2)] playing_show [where draw = "snake_draw g2" and now = "now_frame t", OF inv(1) g2 snake_draws]
    by (cases "escapes t") (simp_all add: snake_turn_def s g2_def Let_def del: split_paired_Ex)
qed

interpretation snake_loop: full_screen_loop snake_turn "playing snk_inv f" for f
  by unfold_locales (rule snake_turn_result)

lemma tetris_turn_result:
  assumes "playing tet_inv f s"
  shows "\<exists>s'. tetris_turn t s = Some (if escapes t then Returned s' else Running s') \<and> playing tet_inv f s'"
proof -
  obtain g disp where s: "s = (g, disp)" by (cases s)
  have inv: "playing tet_inv f (g, disp)" "tet_inv g" using assms by (auto simp: s playing_def)
  obtain g1 where g1: "key_loop tetris_key (polls t) g = Some (if escapes t then Returned g1 else Running g1)" "tet_inv g1"
    using key_loop_spec [of tet_inv tetris_key g "polls t"] tetris_key_inv inv(2) by (auto simp: escapes_def)
  obtain moved g2 where g2: "tetris_tick (now_tick t) g1 = Some (moved, g2)" "tet_inv g2" using tetris_tick_inv [OF g1(2)] by blast
  show ?thesis
    using g1(1) g2(1) playing_game [OF inv(1) g1(2)] playing_show [where draw = "tetris_draw g2" and now = "now_frame t", OF inv(1) g2(2) tetris_draws]
    by (cases "escapes t") (simp_all add: tetris_turn_def s del: split_paired_Ex)
qed

interpretation tetris_loop: full_screen_loop tetris_turn "playing tet_inv f" for f
  by unfold_locales (rule tetris_turn_result)

lemma breakout_full_screen_inv:
  assumes "bricks_ok (bricks g)" shows "brk_inv (breakout_full_screen g)"
proof -
  have "breakout_init 0 FB_WIDTH FB_HEIGHT g = (breakout_full_screen g)\<lparr>brk_last_tick := 0\<rparr>"
    by (simp add: breakout_init_def breakout_full_screen_def Let_def)
  moreover have "brk_inv (h\<lparr>brk_last_tick := now\<rparr>) = brk_inv h" for h now by (simp add: brk_inv_def brk_board_def ball_place_def ball_speed_def)
  ultimately show ?thesis using breakout_init_inv [OF assms, of FB_WIDTH FB_HEIGHT 0] by (simp add: FB_WIDTH_def FB_HEIGHT_def)
qed

lemma breakout_turn_result:
  assumes "playing (\<lambda>(g, l). brk_inv g) f s"
  shows "\<exists>s'. breakout_turn t s = Some (if escapes t then Returned s' else Running s') \<and> playing (\<lambda>(g, l). brk_inv g) f s'"
proof -
  obtain g l disp where s: "s = ((g, l), disp)" by (metis prod.exhaust)
  have inv: "playing (\<lambda>(g, l). brk_inv g) f ((g, l), disp)" "brk_inv g" using assms by (auto simp: s playing_def)
  obtain g1 where g1: "key_loop (\<lambda>k g. Some (breakout_key k g)) (polls t) g = Some (if escapes t then Returned g1 else Running g1)" "brk_inv g1"
    using key_loop_spec [of brk_inv "\<lambda>k g. Some (breakout_key k g)" g "polls t"] breakout_key_inv inv(2) by (auto simp: escapes_def)
  define g2 where "g2 = (if elapsed (now_phys t) l \<ge> 3 then snd (breakout_tick (now_tick t) (g1\<lparr>brk_last_tick := now_phys t - 3\<rparr>)) else g1)"
  have "brk_inv (g1\<lparr>brk_last_tick := now\<rparr>)" for now using g1(2) by (simp add: brk_inv_def brk_board_def ball_place_def ball_speed_def)
  then have "brk_inv g2" using g1(2) breakout_tick_inv by (simp add: g2_def)
  then have "playing (\<lambda>(g, l). brk_inv g) f ((g2, l'), show_frame (breakout_draw g2) (now_frame t) disp)" for l' :: u64
    using playing_show [where draw = "breakout_draw g2" and now = "now_frame t", OF inv(1) _ breakout_draws, of "(g2, l')"] by simp
  then show ?thesis
    using g1(1) playing_game [OF inv(1), of "(g1, l)"] g1(2)
    by (cases "escapes t"; cases "elapsed (now_phys t) l \<ge> 3") (simp_all add: breakout_turn_def s g2_def del: split_paired_Ex)
qed

interpretation breakout_loop: full_screen_loop breakout_turn "playing (\<lambda>(g, l). brk_inv g) f" for f
  by unfold_locales (rule breakout_turn_result)

text \<open>\<^verbatim>\<open>raycaster_draw\<close> may write behind its buffer, so that its loop keeps the display in order but not the mark.\<close>

definition ray_playing :: "ray_state \<times> u64 \<times> gpu_state \<Rightarrow> bool" where
  "ray_playing = (\<lambda>(g, l, d). ray_inv g \<and> display_ok d)"

lemma raycaster_turn_result:
  assumes "ray_playing s"
  shows "\<exists>s'. raycaster_turn t s = Some (if escapes t then Returned s' else Running s') \<and> ray_playing s'"
proof -
  obtain g l d where s: "s = (g, l, d)" by (metis prod.exhaust)
  have inv: "ray_inv g" "display_ok d" using assms by (auto simp: s ray_playing_def)
  obtain g1 where g1: "key_loop (\<lambda>k g. Some (raycaster_key k g)) (polls t) g = Some (if escapes t then Returned g1 else Running g1)" "ray_inv g1"
    using key_loop_spec [of ray_inv "\<lambda>k g. Some (raycaster_key k g)" g "polls t"] raycaster_key_inv inv(1) by (auto simp: escapes_def)
  have "target_ok d" using inv(2) by (simp add: display_ok_def)
  then have "display_ok (snd (show_frame (raycaster_draw g1) (now_frame t) (l, d)))"
    by (rule show_frame_stored [where draw = "raycaster_draw g1", OF inv(2) raycaster_draw_stored])
  then have "ray_playing (g1, show_frame (raycaster_draw g1) (now_frame t) (l, d))"
    using g1(2) by (cases "show_frame (raycaster_draw g1) (now_frame t) (l, d)") (simp add: ray_playing_def)
  moreover have "ray_playing (g1, l, d)" using g1(2) inv(2) by (simp add: ray_playing_def)
  ultimately show ?thesis
    using g1(1) by (cases "escapes t") (simp_all add: raycaster_turn_def s del: split_paired_Ex)
qed

interpretation raycaster_loop: full_screen_loop raycaster_turn ray_playing
  by unfold_locales (rule raycaster_turn_result)

section \<open>Playing\<close>


text \<open>A display of 640 by 480 pixels with two buffers.\<close>

definition full_screen :: gpu_state where
  "full_screen = ray_target FB_WIDTH FB_HEIGHT FB_PIXELS"

lemma full_screen_ok: "display_ok full_screen" "\<not> fault full_screen"
  by (simp_all add: full_screen_def display_ok_def target_ok_def ray_target_def FB_WIDTH_def FB_HEIGHT_def FB_PIXELS_def FB_SIZE_def)


end
