(* ===== verification/Virtio.thy ===== *)
theory Virtio
  imports Mm
begin

text \<open>
  The virtio transport (\<^verbatim>\<open>kernel/virtio.c\<close>): probing of the register slots, negotiation with a
  device, and virtqueues. A device is what its registers answer: the parameter \<open>rd\<close> gives the value read
  from a register after the register writes of the log \<open>bus\<close>. The three parts of a queue lie in
  pages of the page allocator; their contents are lists, and the addresses told to the device are kept
  beside them. The memory barriers order the accesses as the statements do and have no counterpart.
\<close>

section \<open>Registers and state\<close>

definition VIRTIO_MMIO_MAGIC :: u32 where "VIRTIO_MMIO_MAGIC = 0x000"
definition VIRTIO_MMIO_VERSION :: u32 where "VIRTIO_MMIO_VERSION = 0x004"
definition VIRTIO_MMIO_DEVICE_ID :: u32 where "VIRTIO_MMIO_DEVICE_ID = 0x008"
definition VIRTIO_MMIO_VENDOR_ID :: u32 where "VIRTIO_MMIO_VENDOR_ID = 0x00C"
definition VIRTIO_MMIO_DEV_FEATURES :: u32 where "VIRTIO_MMIO_DEV_FEATURES = 0x010"
definition VIRTIO_MMIO_DEV_FEATURES_SEL :: u32 where "VIRTIO_MMIO_DEV_FEATURES_SEL = 0x014"
definition VIRTIO_MMIO_DRV_FEATURES :: u32 where "VIRTIO_MMIO_DRV_FEATURES = 0x020"
definition VIRTIO_MMIO_DRV_FEATURES_SEL :: u32 where "VIRTIO_MMIO_DRV_FEATURES_SEL = 0x024"
definition VIRTIO_MMIO_GUEST_PAGE_SIZE :: u32 where "VIRTIO_MMIO_GUEST_PAGE_SIZE = 0x028"
definition VIRTIO_MMIO_QUEUE_SEL :: u32 where "VIRTIO_MMIO_QUEUE_SEL = 0x030"
definition VIRTIO_MMIO_QUEUE_NUM_MAX :: u32 where "VIRTIO_MMIO_QUEUE_NUM_MAX = 0x034"
definition VIRTIO_MMIO_QUEUE_NUM :: u32 where "VIRTIO_MMIO_QUEUE_NUM = 0x038"
definition VIRTIO_MMIO_QUEUE_ALIGN :: u32 where "VIRTIO_MMIO_QUEUE_ALIGN = 0x03C"
definition VIRTIO_MMIO_QUEUE_PFN :: u32 where "VIRTIO_MMIO_QUEUE_PFN = 0x040"
definition VIRTIO_MMIO_QUEUE_READY :: u32 where "VIRTIO_MMIO_QUEUE_READY = 0x044"
definition VIRTIO_MMIO_QUEUE_NOTIFY :: u32 where "VIRTIO_MMIO_QUEUE_NOTIFY = 0x050"
definition VIRTIO_MMIO_STATUS :: u32 where "VIRTIO_MMIO_STATUS = 0x070"
definition VIRTIO_MMIO_QUEUE_DESC_LOW :: u32 where "VIRTIO_MMIO_QUEUE_DESC_LOW = 0x080"
definition VIRTIO_MMIO_QUEUE_DESC_HIGH :: u32 where "VIRTIO_MMIO_QUEUE_DESC_HIGH = 0x084"
definition VIRTIO_MMIO_QUEUE_AVAIL_LOW :: u32 where "VIRTIO_MMIO_QUEUE_AVAIL_LOW = 0x090"
definition VIRTIO_MMIO_QUEUE_AVAIL_HIGH :: u32 where "VIRTIO_MMIO_QUEUE_AVAIL_HIGH = 0x094"
definition VIRTIO_MMIO_QUEUE_USED_LOW :: u32 where "VIRTIO_MMIO_QUEUE_USED_LOW = 0x0A0"
definition VIRTIO_MMIO_QUEUE_USED_HIGH :: u32 where "VIRTIO_MMIO_QUEUE_USED_HIGH = 0x0A4"
definition VIRTIO_MMIO_CONFIG :: u32 where "VIRTIO_MMIO_CONFIG = 0x100"

definition VIRTIO_STATUS_ACKNOWLEDGE :: u32 where "VIRTIO_STATUS_ACKNOWLEDGE = 0x01"
definition VIRTIO_STATUS_DRIVER :: u32 where "VIRTIO_STATUS_DRIVER = 0x02"
definition VIRTIO_STATUS_DRIVER_OK :: u32 where "VIRTIO_STATUS_DRIVER_OK = 0x04"
definition VIRTIO_STATUS_FEATURES_OK :: u32 where "VIRTIO_STATUS_FEATURES_OK = 0x08"
definition VIRTIO_STATUS_FAILED :: u32 where "VIRTIO_STATUS_FAILED = 0x80"

definition VIRTIO_MAGIC :: u32 where "VIRTIO_MAGIC = 0x74726976"
definition VIRTIO_DEV_INPUT :: u32 where "VIRTIO_DEV_INPUT = 18"
definition VIRTQ_DESC_F_WRITE :: u16 where "VIRTQ_DESC_F_WRITE = 2"
definition VIRTQ_SIZE :: nat where "VIRTQ_SIZE = 16"
definition VIRTIO_MAX_DEVS :: nat where "VIRTIO_MAX_DEVS = 8"
definition VIRTIO_MMIO_BASE :: u64 where "VIRTIO_MMIO_BASE = 0x0A000000"
definition VIRTIO_MMIO_STEP :: u64 where "VIRTIO_MMIO_STEP = 0x200"
definition VIRTIO_MMIO_SLOTS :: nat where "VIRTIO_MMIO_SLOTS = 32"

record virtq_desc =
  d_addr :: u64
  d_len :: u32
  d_flags :: u16
  d_next :: u16

record virtq =
  desc :: "virtq_desc list"
  avail_flags :: u16
  avail_idx :: u16
  avail_ring :: "u16 list"
  used_flags :: u16
  used_idx :: u16
  used_ring :: "(u32 \<times> u32) list"
  num :: u16
  free_head :: u16
  last_used_idx :: u16
  vq_base :: u64
  queue_idx :: u32
  desc_at :: u64
  avail_at :: u64
  used_at :: u64

record virtio_dev =
  base :: u64
  device_id :: u32
  vendor_id :: u32
  version :: u32
  queues :: "virtq list"
  num_queues :: nat
  active :: bool

record virtio_state = mm_state +
  devices :: "virtio_dev list"
  num_devices :: nat
  bus :: "(u64 \<times> u32 \<times> u32) list"

text \<open>What a register read gives after the writes made so far, most recent first.\<close>

type_synonym device = "(u64 \<times> u32 \<times> u32) list \<Rightarrow> u64 \<Rightarrow> u32 \<Rightarrow> u32"

section \<open>Registers\<close>

definition vio_write :: "u64 \<Rightarrow> u32 \<Rightarrow> u32 \<Rightarrow> 'a virtio_state_scheme \<Rightarrow> 'a virtio_state_scheme" where
  "vio_write b off val s = s\<lparr>bus := (b, off, val) # bus s\<rparr>"

definition vio_read :: "device \<Rightarrow> u64 \<Rightarrow> u32 \<Rightarrow> 'a virtio_state_scheme \<Rightarrow> u32" where
  "vio_read rd b off s = rd (bus s) b off"

text \<open>Accesses of one byte, for the configuration space.\<close>

definition vio_write8 :: "u64 \<Rightarrow> u32 \<Rightarrow> u8 \<Rightarrow> 'a virtio_state_scheme \<Rightarrow> 'a virtio_state_scheme" where
  "vio_write8 b off val s = s\<lparr>bus := (b, off, ucast val) # bus s\<rparr>"

definition vio_read8 :: "device \<Rightarrow> u64 \<Rightarrow> u32 \<Rightarrow> 'a virtio_state_scheme \<Rightarrow> u8" where
  "vio_read8 rd b off s = ucast (rd (bus s) b off)"

definition upd_dev :: "nat \<Rightarrow> (virtio_dev \<Rightarrow> virtio_dev) \<Rightarrow> 'a virtio_state_scheme \<Rightarrow> 'a virtio_state_scheme" where
  "upd_dev d f s = s\<lparr>devices := (devices s)[d := f (devices s ! d)]\<rparr>"

section \<open>Probing\<close>

definition probe_slot :: "device \<Rightarrow> nat \<Rightarrow> 'a virtio_state_scheme \<Rightarrow> 'a virtio_state_scheme" where
  "probe_slot rd i s =
     (let b = VIRTIO_MMIO_BASE + of_nat i * VIRTIO_MMIO_STEP;
          magic = vio_read rd b VIRTIO_MMIO_MAGIC s
      in if magic \<noteq> VIRTIO_MAGIC then s
         else
           let ver = vio_read rd b VIRTIO_MMIO_VERSION s; dev_id = vio_read rd b VIRTIO_MMIO_DEVICE_ID s
           in if dev_id = 0 then s
              else (upd_dev (num_devices s) (\<lambda>dev. dev\<lparr>base := b, device_id := dev_id, vendor_id := vio_read rd b VIRTIO_MMIO_VENDOR_ID s,
                                                    version := ver, num_queues := 0, active := False\<rparr>) s)
                     \<lparr>num_devices := num_devices s + 1\<rparr>)"

definition virtio_probe :: "device \<Rightarrow> 'a virtio_state_scheme \<Rightarrow> nat \<times> 'a virtio_state_scheme" where
  "virtio_probe rd s =
     (let s1 = for_loop 0 VIRTIO_MMIO_SLOTS (\<lambda>i s. if num_devices s < VIRTIO_MAX_DEVS then probe_slot rd i s else s) (s\<lparr>num_devices := 0\<rparr>)
      in (num_devices s1, s1))"

text \<open>The loop of \<^verbatim>\<open>virtio_find_dev\<close>, with \<open>n\<close> devices left to look at: the index in \<^verbatim>\<open>devices\<close>.\<close>

primrec find_dev :: "u32 \<Rightarrow> nat \<Rightarrow> virtio_dev list \<Rightarrow> nat \<Rightarrow> nat \<Rightarrow> nat \<Rightarrow> nat option" where
  "find_dev dev_id index devs 0 i count = None"
| "find_dev dev_id index devs (Suc n) i count =
     (if device_id (devs ! i) = dev_id
      then if count = index then Some i else find_dev dev_id index devs n (i + 1) (count + 1)
      else find_dev dev_id index devs n (i + 1) count)"

definition virtio_find_dev :: "u32 \<Rightarrow> nat \<Rightarrow> 'a virtio_state_scheme \<Rightarrow> nat option" where
  "virtio_find_dev dev_id index s = find_dev dev_id index (devices s) (num_devices s) 0 0"

section \<open>Queues\<close>

text \<open>The parts of a queue after their initialisation, for the three addresses.\<close>

definition virtq_fresh :: "nat \<Rightarrow> virtq_desc list" where
  "virtq_fresh sz =
     (let zero = \<lparr>d_addr = 0, d_len = 0, d_flags = 0, d_next = 0\<rparr>;
          ds = for_loop 0 sz (\<lambda>i ds. ds[i := \<lparr>d_addr = 0, d_len = 0, d_flags = 0, d_next = of_nat (i + 1)\<rparr>]) (replicate sz zero)
      in ds[sz - 1 := (ds ! (sz - 1))\<lparr>d_next := 0xFFFF\<rparr>])"

definition virtq_make :: "u64 \<Rightarrow> nat \<Rightarrow> nat \<Rightarrow> u64 \<Rightarrow> u64 \<Rightarrow> u64 \<Rightarrow> virtq" where
  "virtq_make b q sz da aa ua =
     \<lparr>desc = virtq_fresh sz, avail_flags = 0, avail_idx = 0, avail_ring = replicate VIRTQ_SIZE 0,
      used_flags = 0, used_idx = 0, used_ring = replicate VIRTQ_SIZE (0, 0),
      num = of_nat sz, free_head = 0, last_used_idx = 0, vq_base = b, queue_idx = of_nat q,
      desc_at = da, avail_at = aa, used_at = ua\<rparr>"

definition legacy_used_offset :: "nat \<Rightarrow> u64" where
  "legacy_used_offset sz =
     (let desc_size = of_nat sz * 16; avail_size = 6 + of_nat sz * 2
      in ALIGN_UP (desc_size + avail_size) PAGE_SIZE)"

definition legacy_pages :: "nat \<Rightarrow> u64" where
  "legacy_pages sz =
     (let used_size = 6 + of_nat sz * 8; total_size = legacy_used_offset sz + used_size
      in (total_size + PAGE_SIZE - 1) div PAGE_SIZE)"

definition virtq_setup_legacy :: "device \<Rightarrow> nat \<Rightarrow> nat \<Rightarrow> nat \<Rightarrow> 'a virtio_state_scheme \<Rightarrow> int \<times> 'a virtio_state_scheme" where
  "virtq_setup_legacy rd d q sz0 s =
     (let b = base (devices s ! d);
          s1 = vio_write b VIRTIO_MMIO_QUEUE_SEL (of_nat q) s;
          max_size = vio_read rd b VIRTIO_MMIO_QUEUE_NUM_MAX s1
      in if max_size = 0 then (-1, s1)
         else
           let sz = (if of_nat sz0 > max_size then unat max_size else sz0);
               s2 = vio_write b VIRTIO_MMIO_GUEST_PAGE_SIZE 4096 s1
           in case pages_alloc (legacy_pages sz) s2 of
                (addr, s3) \<Rightarrow>
                  if addr = 0 then (-1, s3)
                  else
                    let s4 = upd_dev d (\<lambda>dev. dev\<lparr>queues := (queues dev)[q :=
                               virtq_make b q sz addr (addr + of_nat sz * 16) (addr + legacy_used_offset sz)]\<rparr>) s3;
                        s5 = vio_write b VIRTIO_MMIO_QUEUE_NUM (of_nat sz) s4;
                        s6 = vio_write b VIRTIO_MMIO_QUEUE_ALIGN 4096 s5;
                        s7 = vio_write b VIRTIO_MMIO_QUEUE_PFN (ucast (addr div PAGE_SIZE)) s6
                    in (0, s7))"

definition modern_used :: "u64 \<Rightarrow> nat \<Rightarrow> u64" where
  "modern_used addr sz = ALIGN_UP (addr + of_nat sz * 16 + 4 + of_nat sz * 2) 4"

definition lo32 :: "u64 \<Rightarrow> u32" where "lo32 a = ucast (a AND 0xFFFFFFFF)"
definition hi32 :: "u64 \<Rightarrow> u32" where "hi32 a = ucast (drop_bit 32 a)"

definition virtq_setup_modern :: "device \<Rightarrow> nat \<Rightarrow> nat \<Rightarrow> nat \<Rightarrow> 'a virtio_state_scheme \<Rightarrow> int \<times> 'a virtio_state_scheme" where
  "virtq_setup_modern rd d q sz0 s =
     (let b = base (devices s ! d);
          s1 = vio_write b VIRTIO_MMIO_QUEUE_SEL (of_nat q) s;
          max_size = vio_read rd b VIRTIO_MMIO_QUEUE_NUM_MAX s1
      in if max_size = 0 then (-1, s1)
         else
           let sz = (if of_nat sz0 > max_size then unat max_size else sz0)
           in case pages_alloc 1 s1 of
                (addr, s2) \<Rightarrow>
                  if addr = 0 then (-1, s2)
                  else
                    let avail = addr + of_nat sz * 16; used = modern_used addr sz;
                        s3 = upd_dev d (\<lambda>dev. dev\<lparr>queues := (queues dev)[q := virtq_make b q sz addr avail used]\<rparr>) s2;
                        s4 = vio_write b VIRTIO_MMIO_QUEUE_NUM (of_nat sz) s3;
                        s5 = vio_write b VIRTIO_MMIO_QUEUE_DESC_LOW (lo32 addr) s4;
                        s6 = vio_write b VIRTIO_MMIO_QUEUE_DESC_HIGH (hi32 addr) s5;
                        s7 = vio_write b VIRTIO_MMIO_QUEUE_AVAIL_LOW (lo32 avail) s6;
                        s8 = vio_write b VIRTIO_MMIO_QUEUE_AVAIL_HIGH (hi32 avail) s7;
                        s9 = vio_write b VIRTIO_MMIO_QUEUE_USED_LOW (lo32 used) s8;
                        s10 = vio_write b VIRTIO_MMIO_QUEUE_USED_HIGH (hi32 used) s9
                    in (0, vio_write b VIRTIO_MMIO_QUEUE_READY 1 s10))"

definition virtq_setup :: "device \<Rightarrow> nat \<Rightarrow> nat \<Rightarrow> nat \<Rightarrow> 'a virtio_state_scheme \<Rightarrow> int \<times> 'a virtio_state_scheme" where
  "virtq_setup rd d q sz s =
     (if version (devices s ! d) = 1 then virtq_setup_legacy rd d q sz s else virtq_setup_modern rd d q sz s)"

text \<open>The queues from \<open>q\<close> on, \<open>n\<close> of them, until one fails.\<close>

primrec setup_queues :: "device \<Rightarrow> nat \<Rightarrow> nat \<Rightarrow> nat \<Rightarrow> 'a virtio_state_scheme \<Rightarrow> int \<times> 'a virtio_state_scheme" where
  "setup_queues rd d q 0 s = (0, s)"
| "setup_queues rd d q (Suc n) s =
     (case virtq_setup rd d q VIRTQ_SIZE s of (r, s1) \<Rightarrow> if r < 0 then (-1, s1) else setup_queues rd d (q + 1) n s1)"

definition status_or :: "device \<Rightarrow> u64 \<Rightarrow> u32 \<Rightarrow> 'a virtio_state_scheme \<Rightarrow> 'a virtio_state_scheme" where
  "status_or rd b flag s = vio_write b VIRTIO_MMIO_STATUS (vio_read rd b VIRTIO_MMIO_STATUS s OR flag) s"

definition virtio_dev_init :: "device \<Rightarrow> nat \<Rightarrow> nat \<Rightarrow> 'a virtio_state_scheme \<Rightarrow> int \<times> 'a virtio_state_scheme" where
  "virtio_dev_init rd d nq s =
     (let b = base (devices s ! d); ver = version (devices s ! d);
          s1 = vio_write b VIRTIO_MMIO_STATUS 0 s;
          s2 = status_or rd b VIRTIO_STATUS_ACKNOWLEDGE s1;
          s3 = status_or rd b VIRTIO_STATUS_DRIVER s2;
          s4 = vio_write b VIRTIO_MMIO_DEV_FEATURES_SEL 0 s3;
          features = vio_read rd b VIRTIO_MMIO_DEV_FEATURES s4;
          s5 = vio_write b VIRTIO_MMIO_DRV_FEATURES_SEL 0 s4;
          s6 = vio_write b VIRTIO_MMIO_DRV_FEATURES features s5;
          s7 = (if ver \<ge> 2 then status_or rd b VIRTIO_STATUS_FEATURES_OK s6 else s6)
      in if ver \<ge> 2 \<and> vio_read rd b VIRTIO_MMIO_STATUS s7 AND VIRTIO_STATUS_FEATURES_OK = 0
         then (-1, vio_write b VIRTIO_MMIO_STATUS VIRTIO_STATUS_FAILED s7)
         else case setup_queues rd d 0 nq s7 of
                (r, s8) \<Rightarrow>
                  if r < 0 then (-1, s8)
                  else
                    let s9 = upd_dev d (\<lambda>dev. dev\<lparr>num_queues := nq\<rparr>) s8;
                        s10 = status_or rd b VIRTIO_STATUS_DRIVER_OK s9
                    in (0, upd_dev d (\<lambda>dev. dev\<lparr>active := True\<rparr>) s10))"

definition virtq_push_buf :: "u64 \<Rightarrow> u32 \<Rightarrow> u16 \<Rightarrow> virtq \<Rightarrow> virtq" where
  "virtq_push_buf buf len flags vq =
     (let head = free_head vq
      in if head = 0xFFFF then vq
         else
           let d = desc vq ! unat head;
               vq1 = vq\<lparr>free_head := d_next d,
                        desc := (desc vq)[unat head := d\<lparr>d_addr := buf, d_len := len, d_flags := flags, d_next := 0\<rparr>]\<rparr>
           in vq1\<lparr>avail_ring := (avail_ring vq1)[unat (avail_idx vq1) mod unat (num vq1) := head], avail_idx := avail_idx vq1 + 1\<rparr>)"

definition virtq_kick :: "virtq \<Rightarrow> 'a virtio_state_scheme \<Rightarrow> 'a virtio_state_scheme" where
  "virtq_kick vq s = vio_write (vq_base vq) VIRTIO_MMIO_QUEUE_NOTIFY (queue_idx vq) s"

definition virtq_has_used :: "virtq \<Rightarrow> bool" where
  "virtq_has_used vq \<longleftrightarrow> used_idx vq \<noteq> last_used_idx vq"

text \<open>The descriptor, the length the device wrote, and the queue; no descriptor for the result \<open>-1\<close>.\<close>

definition virtq_pop_used :: "virtq \<Rightarrow> (u32 \<times> u32) option \<times> virtq" where
  "virtq_pop_used vq =
     (if \<not> virtq_has_used vq then (None, vq)
      else
        let (desc_id, len) = used_ring vq ! (unat (last_used_idx vq) mod unat (num vq));
            vq1 = vq\<lparr>last_used_idx := last_used_idx vq + 1\<rparr>
        in (Some (desc_id, len),
            vq1\<lparr>desc := (desc vq1)[unat desc_id := (desc vq1 ! unat desc_id)\<lparr>d_next := free_head vq1\<rparr>], free_head := ucast desc_id\<rparr>))"

definition virtio_config_read8 :: "device \<Rightarrow> nat \<Rightarrow> u32 \<Rightarrow> 'a virtio_state_scheme \<Rightarrow> u8" where
  "virtio_config_read8 rd d offset s = vio_read8 rd (base (devices s ! d)) (VIRTIO_MMIO_CONFIG + offset) s"

definition virtio_config_write8 :: "nat \<Rightarrow> u32 \<Rightarrow> u8 \<Rightarrow> 'a virtio_state_scheme \<Rightarrow> 'a virtio_state_scheme" where
  "virtio_config_write8 d offset val s = vio_write8 (base (devices s ! d)) (VIRTIO_MMIO_CONFIG + offset) val s"


section \<open>Rings\<close>

text \<open>
  The entries of a ring from counter \<open>i\<close> up to counter \<open>j\<close>. The counters of the queue have 16 bits,
  so the ring is read at the right places only for a size that divides \<open>2\<^sup>1\<^sup>6\<close>.
\<close>

definition win :: "nat \<Rightarrow> 'a list \<Rightarrow> nat \<Rightarrow> nat \<Rightarrow> 'a list" where
  "win n r i j = map (\<lambda>k. r ! (k mod n)) [i..<j]"

lemma length_win [simp]: "length (win n r i j) = j - i"
  by (simp add: win_def)

lemma win_empty [simp]: "win n r i i = []"
  by (simp add: win_def)

lemma win_Cons: "i < j \<Longrightarrow> win n r i j = r ! (i mod n) # win n r (Suc i) j"
  by (simp add: win_def upt_conv_Cons)

lemma win_snoc: "i \<le> j \<Longrightarrow> win n r i (Suc j) = win n r i j @ [r ! (j mod n)]"
  by (simp add: win_def)

lemma mod_neq_window:
  assumes "k < j" "j - k < n"
  shows "k mod n \<noteq> j mod (n::nat)"
proof
  assume "k mod n = j mod n"
  then have "(j - k) mod n = 0" using assms(1)
    by (metis less_imp_le mod_eq_dvd_iff_nat dvd_imp_mod_0)
  then show False using assms by simp
qed

lemma win_update:
  assumes "i \<le> j" "j - i < n" "n \<le> length r"
  shows "win n (r[j mod n := x]) i (Suc j) = win n r i j @ [x]"
proof -
  have "j mod n < length r" using assms by (meson le_less_trans less_le_trans mod_less_divisor not_le order.refl zero_le)
  moreover have "win n (r[j mod n := x]) i j = win n r i j"
  proof -
    have "r[j mod n := x] ! (k mod n) = r ! (k mod n)" if "i \<le> k" "k < j" for k
    proof -
      have "k mod n \<noteq> j mod n" using that assms(2) by (intro mod_neq_window) simp_all
      then show ?thesis by simp
    qed
    then show ?thesis by (simp add: win_def)
  qed
  ultimately show ?thesis using assms(1) by (simp add: win_snoc)
qed

lemma u16_mod:
  assumes "n dvd 2 ^ 16"
  shows "unat (of_nat k :: u16) mod n = k mod n"
  using assms by (simp add: unat_of_nat take_bit_eq_mod mod_mod_cancel)

lemma u16_eq_near:
  assumes "i \<le> j" "j - i < 2 ^ 16"
  shows "(of_nat j :: u16) = of_nat i \<longleftrightarrow> i = j"
proof
  assume "(of_nat j :: u16) = of_nat i"
  then have "j mod 2 ^ 16 = i mod 2 ^ 16" by (simp add: word_of_nat_eq_iff take_bit_eq_mod)
  then show "i = j" using mod_neq_window [of i j "2 ^ 16"] assms by fastforce
qed simp

section \<open>The free list\<close>

lemma virtq_fresh_nth:
  assumes "0 < sz"
  shows "length (virtq_fresh sz) = sz"
    "i < sz \<Longrightarrow> d_next (virtq_fresh sz ! i) = (if Suc i = sz then 0xFFFF else of_nat (Suc i))"
proof -
  define f where "f = (\<lambda>i ds. ds[i := \<lparr>d_addr = 0 :: u64, d_len = 0 :: u32, d_flags = 0 :: u16, d_next = of_nat (i + 1) :: u16\<rparr>])"
  define ds where "ds = for_loop 0 sz f (replicate sz \<lparr>d_addr = 0, d_len = 0, d_flags = 0, d_next = 0\<rparr>)"
  have len: "length (for_loop 0 m f ds) = length ds" for m ds
    by (rule for_loop_frame) (simp add: f_def)
  have nxt: "m \<le> length ds \<Longrightarrow> i < m \<Longrightarrow> d_next (for_loop 0 m f ds ! i) = of_nat (Suc i)" for m i ds
    using len by (induction m) (auto simp: for_loop_Suc f_def nth_list_update less_Suc_eq)
  have fresh: "virtq_fresh sz = ds[sz - 1 := (ds ! (sz - 1))\<lparr>d_next := 0xFFFF\<rparr>]"
    by (simp add: virtq_fresh_def Let_def ds_def f_def)
  have ds: "length ds = sz" "i < sz \<Longrightarrow> d_next (ds ! i) = of_nat (Suc i)"
    unfolding ds_def using len nxt [of sz] by simp_all
  show "length (virtq_fresh sz) = sz"
    "i < sz \<Longrightarrow> d_next (virtq_fresh sz ! i) = (if Suc i = sz then 0xFFFF else of_nat (Suc i))"
    using assms ds unfolding fresh by (auto simp: nth_list_update simp del: of_nat_Suc)
qed


section \<open>Finding a device\<close>

lemma find_dev_nth:
  assumes "count \<le> index"
  shows "find_dev dev_id index devs n i count =
    (let found = filter (\<lambda>j. device_id (devs ! j) = dev_id) [i..<i + n]
     in if index - count < length found then Some (found ! (index - count)) else None)"
  using assms
proof (induction n arbitrary: i count)
  case (Suc n)
  have "[i..<i + Suc n] = i # [Suc i..<Suc i + n]" by (simp add: upt_rec)
  then show ?case using Suc.prems by (auto simp: Suc.IH Let_def nth_Cons' simp del: upt_Suc)
qed (simp add: Let_def)

definition found_devs :: "u32 \<Rightarrow> 'a virtio_state_scheme \<Rightarrow> nat list" where
  "found_devs dev_id s = filter (\<lambda>j. device_id (devices s ! j) = dev_id) [0..<num_devices s]"

lemma virtio_find_dev_found:
  "virtio_find_dev dev_id index s = (if index < length (found_devs dev_id s) then Some (found_devs dev_id s ! index) else None)"
  by (simp add: virtio_find_dev_def find_dev_nth found_devs_def Let_def)

lemma distinct_found_devs: "distinct (found_devs dev_id s)"
  by (simp add: found_devs_def)

section \<open>Setting up a queue\<close>

lemma virtio_fields_mm:
  assumes "mm_state.more t = mm_state.more s"
  shows "devices t = devices s" "num_devices t = num_devices s" "bus t = bus s" "virtio_state.more t = virtio_state.more s"
  using assms by (cases s; cases t; simp)+

lemma vio_write_frame [frame_simps]:
  "devices (vio_write b off val s) = devices s" "num_devices (vio_write b off val s) = num_devices s"
  "virtio_state.more (vio_write b off val s) = virtio_state.more s" "mm_inv (vio_write b off val s) = mm_inv s"
  "used_set (vio_write b off val s) = used_set s"
  by (simp_all add: vio_write_def mm_inv_def used_set_def bitmap_test_def)

lemma upd_dev_frame [frame_simps]:
  "devices (upd_dev d f s) = (devices s)[d := f (devices s ! d)]" "num_devices (upd_dev d f s) = num_devices s"
  "virtio_state.more (upd_dev d f s) = virtio_state.more s" "mm_inv (upd_dev d f s) = mm_inv s"
  "used_set (upd_dev d f s) = used_set s"
  by (simp_all add: upd_dev_def mm_inv_def used_set_def bitmap_test_def)

text \<open>The number of entries a queue gets: what the device offers, at most 16.\<close>

definition granted :: "u32 \<Rightarrow> nat" where
  "granted max_size = (if 16 > max_size then unat max_size else 16)"

lemma granted_bounds: "max_size \<noteq> 0 \<Longrightarrow> 0 < granted max_size" "granted max_size \<le> 16"
  by (auto simp: granted_def unat_gt_0 word_less_nat_alt)

lemma pages_alloc_more:
  assumes "pages_alloc n s = (a, s')"
  shows "mm_state.more s' = mm_state.more s"
proof (cases n s rule: pages_alloc_cases)
  case (ok r)
  then show ?thesis using assms by (simp add: pages_alloc_run_def for_loop_frame [of mm_state.more] frame_simps)
qed (use assms in auto)

lemma granted_eq: "(if of_nat 16 > max_size then unat max_size else 16) = granted max_size"
  by (simp add: granted_def)

definition placed :: "nat \<Rightarrow> nat \<Rightarrow> nat \<Rightarrow> u64 \<Rightarrow> u64 \<Rightarrow> u64 \<Rightarrow> 'a virtio_state_scheme \<Rightarrow> 'a virtio_state_scheme \<Rightarrow> bool" where
  "placed d q sz da aa ua s s' \<longleftrightarrow>
     devices s' = (devices s)[d := (devices s ! d)\<lparr>queues := (queues (devices s ! d))[q := virtq_make (base (devices s ! d)) q sz da aa ua]\<rparr>] \<and>
     num_devices s' = num_devices s \<and> virtio_state.more s' = virtio_state.more s \<and> mm_inv s' = mm_inv s \<and> used_set s' = used_set s"

lemma virtq_setup_legacy_eq:
  assumes s1: "s1 = vio_write (base (devices s ! d)) VIRTIO_MMIO_QUEUE_SEL (of_nat q) s"
    and m: "m = vio_read rd (base (devices s ! d)) VIRTIO_MMIO_QUEUE_NUM_MAX s1"
    and al: "pages_alloc (legacy_pages (granted m)) (vio_write (base (devices s ! d)) VIRTIO_MMIO_GUEST_PAGE_SIZE 4096 s1) = (addr, t)"
  shows "\<exists>t'. virtq_setup_legacy rd d q 16 s = (if m = 0 then (-1, s1) else if addr = 0 then (-1, t) else (0, t')) \<and>
    (devices t = devices s \<longrightarrow> placed d q (granted m) addr (addr + of_nat (granted m) * 16) (addr + legacy_used_offset (granted m)) t t')"
proof -
  let ?b = "base (devices s ! d)" and ?aa = "addr + of_nat (granted m) * 16" and ?ua = "addr + legacy_used_offset (granted m)"
  have "virtq_setup_legacy rd d q 16 s = (if m = 0 then (-1, s1) else if addr = 0 then (-1, t) else (0,
    vio_write ?b VIRTIO_MMIO_QUEUE_PFN (ucast (addr div PAGE_SIZE)) (vio_write ?b VIRTIO_MMIO_QUEUE_ALIGN 4096
      (vio_write ?b VIRTIO_MMIO_QUEUE_NUM (of_nat (granted m)) (upd_dev d (\<lambda>dev. dev\<lparr>queues := (queues dev)[q :=
         virtq_make ?b q (granted m) addr ?aa ?ua]\<rparr>) t)))))"
    unfolding virtq_setup_legacy_def Let_def granted_eq s1 [symmetric] m [symmetric] al by simp
  then show ?thesis by (intro exI conjI impI) (assumption, simp add: placed_def frame_simps)
qed

lemma virtq_setup_modern_eq:
  assumes s1: "s1 = vio_write (base (devices s ! d)) VIRTIO_MMIO_QUEUE_SEL (of_nat q) s"
    and m: "m = vio_read rd (base (devices s ! d)) VIRTIO_MMIO_QUEUE_NUM_MAX s1"
    and al: "pages_alloc 1 s1 = (addr, t)"
  shows "\<exists>t'. virtq_setup_modern rd d q 16 s = (if m = 0 then (-1, s1) else if addr = 0 then (-1, t) else (0, t')) \<and>
    (devices t = devices s \<longrightarrow> placed d q (granted m) addr (addr + of_nat (granted m) * 16) (modern_used addr (granted m)) t t')"
proof -
  let ?b = "base (devices s ! d)" and ?aa = "addr + of_nat (granted m) * 16" and ?ua = "modern_used addr (granted m)"
  have "virtq_setup_modern rd d q 16 s = (if m = 0 then (-1, s1) else if addr = 0 then (-1, t) else (0,
    vio_write ?b VIRTIO_MMIO_QUEUE_READY 1 (vio_write ?b VIRTIO_MMIO_QUEUE_USED_HIGH (hi32 ?ua) (vio_write ?b VIRTIO_MMIO_QUEUE_USED_LOW (lo32 ?ua)
      (vio_write ?b VIRTIO_MMIO_QUEUE_AVAIL_HIGH (hi32 ?aa) (vio_write ?b VIRTIO_MMIO_QUEUE_AVAIL_LOW (lo32 ?aa)
      (vio_write ?b VIRTIO_MMIO_QUEUE_DESC_HIGH (hi32 addr) (vio_write ?b VIRTIO_MMIO_QUEUE_DESC_LOW (lo32 addr)
      (vio_write ?b VIRTIO_MMIO_QUEUE_NUM (of_nat (granted m)) (upd_dev d (\<lambda>dev. dev\<lparr>queues := (queues dev)[q :=
         virtq_make ?b q (granted m) addr ?aa ?ua]\<rparr>) t))))))))))"
    unfolding virtq_setup_modern_def Let_def granted_eq s1 [symmetric] m [symmetric] al by simp
  then show ?thesis by (intro exI conjI impI) (assumption, simp add: placed_def frame_simps)
qed

lemma virtq_setup_outcome:
  assumes "virtq_setup rd d q VIRTQ_SIZE s = (r, s')"
  obtains (fail) "r = -1" "devices s' = devices s" "num_devices s' = num_devices s" "virtio_state.more s' = virtio_state.more s"
  | (ok) max_size log t t' addr where "r = 0" "max_size \<noteq> 0" "max_size = rd log (base (devices s ! d)) VIRTIO_MMIO_QUEUE_NUM_MAX"
      "pages_alloc (if version (devices s ! d) = 1 then legacy_pages (granted max_size) else 1) t = (addr, t')" "addr \<noteq> 0"
      "mm_inv t = mm_inv s" "used_set t = used_set s"
      "devices t' = devices s" "num_devices t' = num_devices s" "virtio_state.more t' = virtio_state.more s"
      "placed d q (granted max_size) addr (addr + of_nat (granted max_size) * 16)
         (if version (devices s ! d) = 1 then addr + legacy_used_offset (granted max_size) else modern_used addr (granted max_size)) t' s'"
proof -
  define b where "b = base (devices s ! d)"
  define s1 where "s1 = vio_write b VIRTIO_MMIO_QUEUE_SEL (of_nat q) s"
  define m where "m = vio_read rd b VIRTIO_MMIO_QUEUE_NUM_MAX s1"
  define t where "t = (if version (devices s ! d) = 1 then vio_write b VIRTIO_MMIO_GUEST_PAGE_SIZE 4096 s1 else s1)"
  define ua where "ua a = (if version (devices s ! d) = 1 then a + legacy_used_offset (granted m) else modern_used a (granted m))" for a
  obtain addr t' where al: "pages_alloc (if version (devices s ! d) = 1 then legacy_pages (granted m) else 1) t = (addr, t')"
    by (cases "pages_alloc (if version (devices s ! d) = 1 then legacy_pages (granted m) else 1) t")
  have t: "devices t = devices s" "num_devices t = num_devices s" "virtio_state.more t = virtio_state.more s"
    "mm_inv t = mm_inv s" "used_set t = used_set s"
    by (simp_all add: t_def s1_def frame_simps)
  have t': "devices t' = devices s" "num_devices t' = num_devices s" "virtio_state.more t' = virtio_state.more s"
    using virtio_fields_mm [OF pages_alloc_more [OF al]] t by simp_all
  obtain t2 where t2: "virtq_setup rd d q VIRTQ_SIZE s = (if m = 0 then (-1, s1) else if addr = 0 then (-1, t') else (0, t2))"
    "placed d q (granted m) addr (addr + of_nat (granted m) * 16) (ua addr) t' t2"
  proof (cases "version (devices s ! d) = 1")
    case True
    with al have "pages_alloc (legacy_pages (granted m)) (vio_write b VIRTIO_MMIO_GUEST_PAGE_SIZE 4096 s1) = (addr, t')"
      by (simp add: t_def)
    from virtq_setup_legacy_eq [OF s1_def [unfolded b_def] m_def [unfolded b_def] this [unfolded b_def]] show ?thesis
      using that t'(1) True by (auto simp: virtq_setup_def VIRTQ_SIZE_def ua_def)
  next
    case False
    with al have "pages_alloc 1 s1 = (addr, t')" by (simp add: t_def)
    from virtq_setup_modern_eq [OF s1_def [unfolded b_def] m_def [unfolded b_def] this] show ?thesis
      using that t'(1) False by (auto simp: virtq_setup_def VIRTQ_SIZE_def ua_def)
  qed
  show thesis
  proof (cases "m = 0 \<or> addr = 0")
    case True
    then have "r = -1 \<and> (s' = s1 \<or> s' = t')" using assms t2(1) by (auto split: if_splits)
    then show thesis using t' by (intro fail) (auto simp: s1_def frame_simps)
  next
    case False
    then have "r = 0" "s' = t2" using assms t2(1) by simp_all
    then show thesis
      using ok [of m "bus s1" t addr t'] False al t t' t2(2) by (simp add: ua_def m_def vio_read_def b_def)
  qed
qed


lemma status_or_frame [frame_simps]:
  "devices (status_or rd b flag s) = devices s" "num_devices (status_or rd b flag s) = num_devices s"
  "virtio_state.more (status_or rd b flag s) = virtio_state.more s"
  by (simp_all add: status_or_def frame_simps)

text \<open>A device with one queue, as both input devices have: it is active exactly when the result is \<open>0\<close>.\<close>

lemma virtio_dev_init_outcome:
  assumes "virtio_dev_init rd d 1 s = (r, s')" and d: "d < length (devices s)"
  obtains (fail) "r = -1" "devices s' = devices s" "num_devices s' = num_devices s" "virtio_state.more s' = virtio_state.more s"
  | (ok) max_size log da aa ua where "r = 0" "max_size \<noteq> 0" "max_size = rd log (base (devices s ! d)) VIRTIO_MMIO_QUEUE_NUM_MAX"
      "devices s' = (devices s)[d := (devices s ! d)\<lparr>queues := (queues (devices s ! d))[0 :=
         virtq_make (base (devices s ! d)) 0 (granted max_size) da aa ua], num_queues := 1, active := True\<rparr>]"
      "num_devices s' = num_devices s" "virtio_state.more s' = virtio_state.more s"
proof -
  define b where "b = base (devices s ! d)"
  define s6 where "s6 = (let s1 = vio_write b VIRTIO_MMIO_STATUS 0 s; s2 = status_or rd b VIRTIO_STATUS_ACKNOWLEDGE s1;
          s3 = status_or rd b VIRTIO_STATUS_DRIVER s2; s4 = vio_write b VIRTIO_MMIO_DEV_FEATURES_SEL 0 s3;
          features = vio_read rd b VIRTIO_MMIO_DEV_FEATURES s4; s5 = vio_write b VIRTIO_MMIO_DRV_FEATURES_SEL 0 s4
      in vio_write b VIRTIO_MMIO_DRV_FEATURES features s5)"
  define s7 where "s7 = (if version (devices s ! d) \<ge> 2 then status_or rd b VIRTIO_STATUS_FEATURES_OK s6 else s6)"
  have s7: "devices s7 = devices s" "num_devices s7 = num_devices s" "virtio_state.more s7 = virtio_state.more s"
    by (simp_all add: s7_def s6_def Let_def frame_simps)
  obtain r1 s8 where q: "virtq_setup rd d 0 VIRTQ_SIZE s7 = (r1, s8)" by (cases "virtq_setup rd d 0 VIRTQ_SIZE s7")
  have init: "virtio_dev_init rd d 1 s =
    (if version (devices s ! d) \<ge> 2 \<and> vio_read rd b VIRTIO_MMIO_STATUS s7 AND VIRTIO_STATUS_FEATURES_OK = 0
     then (-1, vio_write b VIRTIO_MMIO_STATUS VIRTIO_STATUS_FAILED s7)
     else if r1 < 0 then (-1, s8)
     else (0, upd_dev d (\<lambda>dev. dev\<lparr>active := True\<rparr>) (status_or rd b VIRTIO_STATUS_DRIVER_OK (upd_dev d (\<lambda>dev. dev\<lparr>num_queues := 1\<rparr>) s8))))"
    unfolding virtio_dev_init_def Let_def b_def [symmetric]
    unfolding s6_def [unfolded Let_def, symmetric] s7_def [symmetric] by (simp add: q)
  show thesis
    using q
  proof (cases rule: virtq_setup_outcome)
    case fail
    then show thesis
      using assms(1) [unfolded init] s7 that(1) by (auto simp: frame_simps split: if_splits)
  next
    case (ok m log t t' addr)
    show thesis
    proof (cases "version (devices s ! d) \<ge> 2 \<and> vio_read rd b VIRTIO_MMIO_STATUS s7 AND VIRTIO_STATUS_FEATURES_OK = 0")
      case True
      then show thesis using assms(1) [unfolded init] s7 that(1) by (auto simp: frame_simps)
    next
      case False
      then have "r = 0" "s' = upd_dev d (\<lambda>dev. dev\<lparr>active := True\<rparr>)
          (status_or rd b VIRTIO_STATUS_DRIVER_OK (upd_dev d (\<lambda>dev. dev\<lparr>num_queues := 1\<rparr>) s8))"
        using assms(1) [unfolded init] ok(1) by auto
      then show thesis
        using that(2) [OF _ ok(2)] ok s7 d by (auto simp: placed_def frame_simps)
    qed
  qed
qed

text \<open>Where the parts of a queue lie.\<close>

lemma legacy_layout:
  assumes "0 < sz" "sz \<le> 16"
  shows "legacy_used_offset sz = 4096" "legacy_pages sz = 2"
proof -
  have "sz \<in> set [1..<17]" using assms by auto
  then show "legacy_used_offset sz = 4096" "legacy_pages sz = 2"
    by (auto simp: upt_rec legacy_used_offset_def legacy_pages_def ALIGN_UP_def)
qed


lemma unat_align4: "unat (x :: u64) + 3 < 2 ^ 64 \<Longrightarrow> unat (ALIGN_UP x 4) = (unat x + 3) div 4 * 4"
proof -
  assume x: "unat x + 3 < 2 ^ 64"
  have "unat ((y :: u64) AND NOT 3) = unat y div 4 * 4" for y
    using unat_and_not_mask [of 2 y] by (simp add: mask_eq_exp_minus_1)
  then show ?thesis using x unat_add_small [of x 3] by (simp add: ALIGN_UP_def)
qed

lemma queue_layout:
  assumes r: "r + (if legacy then 2 else 1) \<le> MAX_PAGES" and sz: "0 < sz" "sz \<le> 16" and addr: "addr = page_addr r"
    and aa: "aa = addr + of_nat sz * 16" and ua: "ua = (if legacy then addr + legacy_used_offset sz else modern_used addr sz)"
  shows "unat aa = unat addr + 16 * sz" "unat aa + 4 + 2 * sz \<le> unat ua"
    "unat ua + 4 + 8 * sz \<le> unat addr + 4096 * (if legacy then 2 else 1)"
proof -
  have a: "unat addr = 0x40000000 + r * 4096" "r < 32768"
    using r by (auto simp: addr MAX_PAGES_def unat_page_addr split: if_splits)
  have s16: "unat (of_nat sz * 16 :: u64) = sz * 16"
    using sz by (simp add: unat_mult_small unat_of_nat_small)
  then show aa': "unat aa = unat addr + 16 * sz"
    using a sz by (simp add: aa unat_add_small)
  have s2: "unat (of_nat sz * 2 :: u64) = sz * 2"
    using sz by (simp add: unat_mult_small unat_of_nat_small)
  have "unat ua = (if legacy then unat addr + 4096 else (unat addr + 18 * sz + 7) div 4 * 4)"
  proof (cases legacy)
    case True
    then show ?thesis using a sz by (simp add: ua legacy_layout unat_add_small)
  next
    case False
    have add: "unat (w + 4 + v) = unat w + 4 + unat v" if "unat w + 4 + unat v < 2 ^ 64" for w v :: u64
      using that by (simp add: unat_add_small)
    have "unat (addr + of_nat sz * 16) + 4 + unat (of_nat sz * 2 :: u64) < 2 ^ 64"
    proof -
      have "(2 :: nat) ^ 64 = 18446744073709551616" by simp
      then show ?thesis using aa' s2 a sz unfolding aa by linarith
    qed
    from add [OF this] have "unat (addr + of_nat sz * 16 + 4 + of_nat sz * 2) = unat addr + 18 * sz + 4"
      using aa' s2 unfolding aa by linarith
    then show ?thesis using False a sz by (simp add: ua modern_used_def unat_align4)
  qed
  moreover have "x + 4 \<le> (x + 7) div 4 * 4 \<and> (x + 7) div 4 * 4 \<le> x + 7" for x :: nat by presburger
  ultimately show "unat aa + 4 + 2 * sz \<le> unat ua" "unat ua + 4 + 8 * sz \<le> unat addr + 4096 * (if legacy then 2 else 1)"
    using aa' sz by (auto split: if_splits)
qed


section \<open>Properties\<close>

text \<open>
  A queue set up successfully lies in pages that were free and now belong to it: one page for a modern
  device, two for a legacy one. It has between one and sixteen entries; descriptors, available ring and
  used ring follow each other without overlap and end within those pages.
\<close>

theorem virtq_setup_layout:
  assumes inv: "mm_inv s" and d: "d < length (devices s)" "q < length (queues (devices s ! d))"
    and ok: "virtq_setup rd d q VIRTQ_SIZE s = (0, s')"
  shows "\<exists>r vq sz. queues (devices s' ! d) ! q = vq \<and> desc_at vq = page_addr r \<and> mm_inv s' \<and>
    (let k = (if version (devices s ! d) = 1 then 2 else 1)
     in {r..<r + k} \<inter> used_set s = {} \<and> used_set s' = used_set s \<union> {r..<r + k} \<and>
        num vq = of_nat sz \<and> length (desc vq) = sz \<and> 0 < sz \<and> sz \<le> 16 \<and>
        unat (avail_at vq) = unat (desc_at vq) + 16 * sz \<and> unat (avail_at vq) + 4 + 2 * sz \<le> unat (used_at vq) \<and>
        unat (used_at vq) + 4 + 8 * sz \<le> unat (desc_at vq) + 4096 * k)"
  using ok
proof (cases rule: virtq_setup_outcome)
  case (ok m log t t' addr)
  let ?legacy = "version (devices s ! d) = 1" and ?sz = "granted m"
  let ?aa = "addr + of_nat ?sz * 16" and ?ua = "if ?legacy then addr + legacy_used_offset ?sz else modern_used addr ?sz"
  have sz: "0 < ?sz" "?sz \<le> 16" using granted_bounds ok(2) by simp_all
  then have al: "pages_alloc (if ?legacy then 2 else 1) t = (addr, t')" using ok(4) by (auto simp: legacy_layout split: if_splits)
  have n: "unat (if ?legacy then 2 else 1 :: u64) = (if ?legacy then 2 else 1)" by simp
  obtain r where r: "addr = page_addr r" "t' = pages_alloc_run r (if ?legacy then 2 else 1) t"
    "free_run (\<lambda>i. i \<notin> used_set t) (if ?legacy then 2 else 1) r"
    using al ok(5) n by (cases "if ?legacy then 2 else 1 :: u64" t rule: pages_alloc_cases) (auto split: if_splits)
  then have run: "r + (if ?legacy then 2 else 1) \<le> MAX_PAGES" "\<forall>k. r \<le> k \<and> k < r + (if ?legacy then 2 else 1) \<longrightarrow> k \<notin> used_set s"
    using ok(7) by (auto simp: free_run_def)
  have used: "mm_inv s'" "used_set s' = used_set s \<union> {r..<r + (if ?legacy then 2 else 1)}"
    using claim_run [of t r "if ?legacy then 2 else 1"] run inv ok(6,7,11) n by (auto simp: r(2) placed_def pages_alloc_run_def)
  have vq: "queues (devices s' ! d) ! q = virtq_make (base (devices s ! d)) q ?sz addr ?aa ?ua"
    using ok(8,11) d by (simp add: placed_def)
  note lay = queue_layout [OF run(1) sz r(1) refl refl]
  show ?thesis
    using vq r(1) used run lay sz
    by (intro exI [of _ r] exI [of _ "virtq_make (base (devices s ! d)) q ?sz addr ?aa ?ua"] exI [of _ ?sz])
      (auto simp: virtq_make_def virtq_fresh_nth Let_def)
qed simp


text \<open>A machine after \<^verbatim>\<open>mm_init\<close> with one legacy device that offers eight entries a queue.\<close>

definition a_queue :: virtq where
  "a_queue = virtq_make 0 0 1 0 0 0"

definition a_dev :: virtio_dev where
  "a_dev = \<lparr>base = VIRTIO_MMIO_BASE, device_id = VIRTIO_DEV_INPUT, vendor_id = 0, version = 1, queues = [a_queue], num_queues = 0, active = False\<rparr>"

definition virtio_boot :: virtio_state where
  "virtio_boot = \<lparr>page_bitmap = page_bitmap mm_boot, total_pages = total_pages mm_boot, used_pages = used_pages mm_boot, mem = mem mm_boot,
     devices = [a_dev], num_devices = 1, bus = []\<rparr>"

lemma virtio_boot_spec: "mm_inv virtio_boot" "used_set virtio_boot = {..<256}"
  using mm_boot_spec(1,2) by (simp_all add: mm_inv_def used_set_def bitmap_test_def virtio_boot_def)

lemma virtio_boot_setup:
  assumes "virtq_setup (\<lambda>_ _ _. 8) 0 0 VIRTQ_SIZE virtio_boot = (r, s')"
  shows "r = 0"
proof (rule ccontr)
  let ?s1 = "vio_write VIRTIO_MMIO_BASE VIRTIO_MMIO_QUEUE_SEL 0 virtio_boot"
  let ?t = "vio_write VIRTIO_MMIO_BASE VIRTIO_MMIO_GUEST_PAGE_SIZE 4096 ?s1"
  assume "r \<noteq> 0"
  then have "fst (pages_alloc 2 ?t) = 0"
    using assms legacy_layout [of 8]
    by (auto simp: virtq_setup_def virtq_setup_legacy_def Let_def virtio_boot_def a_dev_def vio_read_def VIRTQ_SIZE_def frame_simps split: prod.splits if_splits)
  moreover have "free_run (\<lambda>i. i \<notin> used_set ?t) 2 256" by (auto simp: free_run_def frame_simps virtio_boot_spec MAX_PAGES_def)
  ultimately show False
  proof (cases "2 :: u64" ?t rule: pages_alloc_cases)
    case none
    then show False using \<open>free_run _ 2 256\<close> by simp
  next
    case (ok r)
    then show False using \<open>fst _ = 0\<close> by (auto simp: free_run_def)
  qed (simp add: MAX_PAGES_def)
qed

theorem virtq_setup_layout_witness:
  "\<exists>s' r. virtq_setup (\<lambda>_ _ _. 8) 0 0 VIRTQ_SIZE virtio_boot = (0, s') \<and> used_set s' = {..<256} \<union> {r..<r + 2} \<and> 256 \<le> r"
proof -
  obtain s' where s': "virtq_setup (\<lambda>_ _ _. 8) 0 0 VIRTQ_SIZE virtio_boot = (0, s')"
    using virtio_boot_setup by (metis surj_pair)
  have "0 < length (devices virtio_boot)" "0 < length (queues (devices virtio_boot ! 0))" "version (devices virtio_boot ! 0) = 1"
    by (simp_all add: virtio_boot_def a_dev_def)
  with virtq_setup_layout [OF virtio_boot_spec(1) this(1,2) s'] obtain r where
    "{r..<r + 2} \<inter> {..<256} = {}" "used_set s' = {..<256} \<union> {r..<r + 2}"
    by (auto simp: Let_def virtio_boot_spec)
  moreover from this(1) have "256 \<le> r" by (auto simp: disjoint_iff not_less intro!: leI)
  ultimately show ?thesis using s' by blast
qed

end
