(* ===== verification/Virtio_Input.thy ===== *)
theory Virtio_Input
  imports Virtio Input Wm "HOL-Library.Multiset" "HOL-Library.Char_ord" "HOL-Library.Signed_Division"
begin

text \<open>
  The driver for virtio keyboards and tablets (\<^verbatim>\<open>kernel/virtio_input.c\<close>): identification of the
  devices, event queues, the translation of key codes, the ring of keys and the state of the mouse.
  The address of an event buffer is its array's address plus eight bytes an entry. The content of the
  uninitialised array \<^verbatim>\<open>name\<close> is an argument.
\<close>

section \<open>State\<close>

definition EV_SYN :: u16 where "EV_SYN = 0x00"
definition EV_KEY :: u16 where "EV_KEY = 0x01"
definition EV_REL :: u16 where "EV_REL = 0x02"
definition EV_ABS :: u16 where "EV_ABS = 0x03"
definition REL_X :: u16 where "REL_X = 0x00"
definition REL_Y :: u16 where "REL_Y = 0x01"
definition ABS_X :: u16 where "ABS_X = 0x00"
definition ABS_Y :: u16 where "ABS_Y = 0x01"
definition TABLET_ABS_MAX :: int where "TABLET_ABS_MAX = 32767"
definition BTN_LEFT :: u16 where "BTN_LEFT = 0x110"
definition BTN_RIGHT :: u16 where "BTN_RIGHT = 0x111"
definition MOUSE_BTN_RIGHT :: int where "MOUSE_BTN_RIGHT = 2"
definition EVENT_BUF_COUNT :: nat where "EVENT_BUF_COUNT = 16"
definition KEY_RING_SIZE :: nat where "KEY_RING_SIZE = 32"
definition EVENT_SIZE :: u32 where "EVENT_SIZE = 8"

definition VIRTIO_INPUT_CFG_UNSET :: u8 where "VIRTIO_INPUT_CFG_UNSET = 0x00"
definition VIRTIO_INPUT_CFG_ID_NAME :: u8 where "VIRTIO_INPUT_CFG_ID_NAME = 0x01"
definition VINPUT_CFG_SELECT :: u32 where "VINPUT_CFG_SELECT = 0"
definition VINPUT_CFG_SUBSEL :: u32 where "VINPUT_CFG_SUBSEL = 1"
definition VINPUT_CFG_SIZE :: u32 where "VINPUT_CFG_SIZE = 2"
definition VINPUT_CFG_DATA :: u32 where "VINPUT_CFG_DATA = 8"

record virtio_input_event =
  ev_type :: u16
  ev_code :: u16
  ev_value :: u32

record vinput_state = virtio_state +
  kbd_events :: "virtio_input_event list"
  tablet_events :: "virtio_input_event list"
  kbd_dev :: "nat option"
  tablet_dev :: "nat option"
  key_ring :: "int list"
  key_ring_head :: nat
  key_ring_tail :: nat
  mouse_x :: int
  mouse_y :: int
  mouse_btns :: int
  shift_held :: bool

section \<open>Keys\<close>

definition key_ring_push :: "int \<Rightarrow> 'a vinput_state_scheme \<Rightarrow> 'a vinput_state_scheme" where
  "key_ring_push key s =
     (let nxt = (key_ring_head s + 1) mod KEY_RING_SIZE
      in if nxt = key_ring_tail s then s
         else s\<lparr>key_ring := (key_ring s)[key_ring_head s := key], key_ring_head := nxt\<rparr>)"

definition key_ring_pop :: "'a vinput_state_scheme \<Rightarrow> int \<times> 'a vinput_state_scheme" where
  "key_ring_pop s =
     (if key_ring_head s = key_ring_tail s then (KEY_NONE, s)
      else (key_ring s ! key_ring_tail s, s\<lparr>key_ring_tail := (key_ring_tail s + 1) mod KEY_RING_SIZE\<rparr>))"

definition designated :: "(nat \<times> int) list \<Rightarrow> int list" where
  "designated entries = map (\<lambda>i. case map_of entries i of Some v \<Rightarrow> v | None \<Rightarrow> 0) [0..<128]"

definition keycode_table :: "int list" where
  "keycode_table = designated
     [(1, KEY_ESC), (2, 49), (3, 50), (4, 51), (5, 52), (6, 53), (7, 54), (8, 55),
      (9, 56), (10, 57), (11, 48), (12, 45), (13, 61), (14, KEY_BACKSPACE), (15, 9), (16, 113),
      (17, 119), (18, 101), (19, 114), (20, 116), (21, 121), (22, 117), (23, 105), (24, 111),
      (25, 112), (26, 91), (27, 93), (28, KEY_ENTER), (30, 97), (31, 115), (32, 100), (33, 102),
      (34, 103), (35, 104), (36, 106), (37, 107), (38, 108), (39, 59), (40, 39), (41, 96),
      (43, 92), (44, 122), (45, 120), (46, 99), (47, 118), (48, 98), (49, 110), (50, 109),
      (51, 44), (52, 46), (53, 47), (57, KEY_SPACE), (103, KEY_UP), (105, KEY_LEFT), (106, KEY_RIGHT), (108, KEY_DOWN)]"

definition shift_table :: "int list" where
  "shift_table = designated
     [(2, 33), (3, 64), (4, 35), (5, 36), (6, 37), (7, 94), (8, 38), (9, 42),
      (10, 40), (11, 41), (12, 95), (13, 43), (16, 81), (17, 87), (18, 69), (19, 82),
      (20, 84), (21, 89), (22, 85), (23, 73), (24, 79), (25, 80), (26, 123), (27, 125),
      (30, 65), (31, 83), (32, 68), (33, 70), (34, 71), (35, 72), (36, 74), (37, 75),
      (38, 76), (39, 58), (40, 34), (41, 126), (43, 124), (44, 90), (45, 88), (46, 67),
      (47, 86), (48, 66), (49, 78), (50, 77), (51, 60), (52, 62), (53, 63)]"

definition process_kbd_event :: "virtio_input_event \<Rightarrow> 'a vinput_state_scheme \<Rightarrow> 'a vinput_state_scheme" where
  "process_kbd_event ev s =
     (if ev_type ev = EV_SYN then s
      else if ev_type ev = EV_KEY then
        let code = ev_code ev; val = ev_value ev
        in if code = 42 \<or> code = 54 then s\<lparr>shift_held := (val \<noteq> 0)\<rparr>
           else if val = 0 then s
           else if code < 128 then
             let key = (if shift_held s \<and> shift_table ! unat code \<noteq> 0 then shift_table ! unat code else keycode_table ! unat code)
             in if key \<noteq> 0 then key_ring_push key s else s
           else s
      else s)"

section \<open>Tablet and mouse\<close>

text \<open>\<^verbatim>\<open>val\<close> brought into the range up to \<^verbatim>\<open>TABLET_ABS_MAX\<close> and scaled to \<open>extent\<close> pixels.\<close>

definition scale_abs :: "int \<Rightarrow> int \<Rightarrow> int" where
  "scale_abs val extent =
     (let v1 = (if val < 0 then 0 else val); v2 = (if v1 > TABLET_ABS_MAX then TABLET_ABS_MAX else v1)
      in (v2 * (extent - 1)) sdiv TABLET_ABS_MAX)"

text \<open>The sum of two \<^verbatim>\<open>int\<close>s wraps around.\<close>

definition add32 :: "int \<Rightarrow> int \<Rightarrow> int" where "add32 a b = sint (word_of_int (a + b) :: u32)"

definition clip_rel :: "int \<Rightarrow> int \<Rightarrow> int" where
  "clip_rel pos extent = (let p = (if pos < 0 then 0 else pos) in if p \<ge> extent then extent - 1 else p)"

definition process_tablet_event :: "virtio_input_event \<Rightarrow> 'a vinput_state_scheme \<Rightarrow> 'a vinput_state_scheme" where
  "process_tablet_event ev s =
     (if ev_type ev = EV_SYN then s
      else
        let val = sint (ev_value ev);
            s1 = (if ev_type ev = EV_ABS then
                    if ev_code ev = ABS_X then s\<lparr>mouse_x := scale_abs val FB_WIDTH\<rparr>
                    else if ev_code ev = ABS_Y then s\<lparr>mouse_y := scale_abs val FB_HEIGHT\<rparr> else s
                  else s);
            s2 = (if ev_type ev = EV_REL then
                    if ev_code ev = REL_X then s1\<lparr>mouse_x := clip_rel (add32 (mouse_x s1) val) FB_WIDTH\<rparr>
                    else if ev_code ev = REL_Y then s1\<lparr>mouse_y := clip_rel (add32 (mouse_y s1) val) FB_HEIGHT\<rparr> else s1
                  else s1)
        in if ev_type ev = EV_KEY then
             let b = (if ev_code ev = BTN_RIGHT then MOUSE_BTN_RIGHT else if ev_code ev = BTN_LEFT then MOUSE_BTN_LEFT else 0)
             in if b \<noteq> 0 then if ev_value ev \<noteq> 0 then s2\<lparr>mouse_btns := mouse_btns s2 OR b\<rparr> else s2\<lparr>mouse_btns := mouse_btns s2 AND NOT b\<rparr>
                else s2
           else s2)"

section \<open>Event queues\<close>

definition event_at :: "u64 \<Rightarrow> nat \<Rightarrow> u64" where
  "event_at bufs i = bufs + of_nat i * 8"

definition refill_queue :: "u64 \<Rightarrow> virtq \<Rightarrow> virtq" where
  "refill_queue bufs = for_loop 0 EVENT_BUF_COUNT (\<lambda>i. virtq_push_buf (event_at bufs i) EVENT_SIZE VIRTQ_DESC_F_WRITE)"

definition set_queue :: "nat \<Rightarrow> virtq \<Rightarrow> 'a virtio_state_scheme \<Rightarrow> 'a virtio_state_scheme" where
  "set_queue d vq = upd_dev d (\<lambda>dev. dev\<lparr>queues := (queues dev)[0 := vq]\<rparr>)"

definition refill_event_queue :: "nat \<Rightarrow> u64 \<Rightarrow> 'a virtio_state_scheme \<Rightarrow> 'a virtio_state_scheme" where
  "refill_event_queue d bufs s =
     (let vq = refill_queue bufs (queues (devices s ! d) ! 0) in virtq_kick vq (set_queue d vq s))"

text \<open>
  The loop of \<^verbatim>\<open>drain_events\<close>: the queue, the state the handler works on, and the number of
  buffers handed back; \<open>None\<close> is a loop without end.
\<close>

partial_function (option) drain_loop ::
  "(virtio_input_event \<Rightarrow> 's \<Rightarrow> 's) \<Rightarrow> u64 \<Rightarrow> virtio_input_event list \<Rightarrow> virtq \<Rightarrow> 's \<Rightarrow> nat \<Rightarrow> (virtq \<times> 's \<times> nat) option" where
  "drain_loop handler bufs events vq s refill_count =
     (if \<not> virtq_has_used vq then Some (vq, s, refill_count)
      else
        case virtq_pop_used vq of
          (None, vq1) \<Rightarrow> Some (vq1, s, refill_count)
        | (Some (desc_id, len), vq1) \<Rightarrow>
            if sint desc_id < 0 then Some (vq1, s, refill_count)
            else
              let s1 = (if len \<ge> EVENT_SIZE then handler (events ! unat desc_id) s else s);
                  vq2 = virtq_push_buf (event_at bufs (unat desc_id)) EVENT_SIZE VIRTQ_DESC_F_WRITE vq1
              in drain_loop handler bufs events vq2 s1 (refill_count + 1))"

definition drain_events ::
  "nat option \<Rightarrow> u64 \<Rightarrow> virtio_input_event list \<Rightarrow> (virtio_input_event \<Rightarrow> 'a virtio_state_scheme \<Rightarrow> 'a virtio_state_scheme) \<Rightarrow>
   'a virtio_state_scheme \<Rightarrow> 'a virtio_state_scheme option" where
  "drain_events dev bufs events handler s =
     (case dev of
        None \<Rightarrow> Some s
      | Some d \<Rightarrow>
          if \<not> active (devices s ! d) then Some s
          else map_option (\<lambda>(vq, s1, refill_count). let s2 = set_queue d vq s1 in if refill_count > 0 then virtq_kick vq s2 else s2)
                 (drain_loop handler bufs events (queues (devices s ! d) ! 0) s 0))"

section \<open>Identification of the devices\<close>

text \<open>The number of characters, the name read, and the state; no name for a bad size.\<close>

definition query_input_name :: "device \<Rightarrow> nat \<Rightarrow> nat \<Rightarrow> 'a virtio_state_scheme \<Rightarrow> string option \<times> 'a virtio_state_scheme" where
  "query_input_name rd d max_len s =
     (let s1 = virtio_config_write8 d VINPUT_CFG_SELECT VIRTIO_INPUT_CFG_ID_NAME s;
          s2 = virtio_config_write8 d VINPUT_CFG_SUBSEL 0 s1;
          n0 = virtio_config_read8 rd d VINPUT_CFG_SIZE s2
      in if n0 = 0 \<or> n0 > 128 then (None, s2)
         else
           let n = (if unat n0 < max_len - 1 then unat n0 else max_len - 1);
               out = map (\<lambda>i. char_of (unat (virtio_config_read8 rd d (VINPUT_CFG_DATA + of_nat i) s2))) [0..<n]
           in (Some out, virtio_config_write8 d VINPUT_CFG_SELECT VIRTIO_INPUT_CFG_UNSET s2))"

definition lower :: "char \<Rightarrow> char" where
  "lower c = (if CHR ''A'' \<le> c \<and> c \<le> CHR ''Z'' then char_of (of_char c + 32 :: nat) else c)"

fun match_at :: "string \<Rightarrow> string \<Rightarrow> bool" where
  "match_at hs [] = True"
| "match_at [] (n # ns) = False"
| "match_at (h # hs) (n # ns) = (if lower h \<noteq> lower n then False else match_at hs ns)"

fun str_contains :: "string \<Rightarrow> string \<Rightarrow> bool" where
  "str_contains [] needle = False"
| "str_contains (h # hs) needle = (if match_at (h # hs) needle then True else str_contains hs needle)"

definition is_keyboard :: "string \<Rightarrow> bool" where
  "is_keyboard name \<longleftrightarrow> str_contains name ''keyboard'' \<or> str_contains name ''Keyboard''"

text \<open>\<open>junk idx\<close> is what \<^verbatim>\<open>name\<close> holds when the device has none; a name ends at its first zero byte.\<close>

partial_function (option) identify_loop ::
  "device \<Rightarrow> (nat \<Rightarrow> string) \<Rightarrow> nat \<Rightarrow> 'a vinput_state_scheme \<Rightarrow> 'a vinput_state_scheme option" where
  "identify_loop rd junk idx s =
     (case virtio_find_dev VIRTIO_DEV_INPUT idx s of
        None \<Rightarrow> Some s
      | Some d \<Rightarrow>
          let b = base (devices s ! d);
              s1 = vio_write b VIRTIO_MMIO_STATUS 0 s;
              s2 = vio_write b VIRTIO_MMIO_STATUS VIRTIO_STATUS_ACKNOWLEDGE s1;
              s3 = vio_write b VIRTIO_MMIO_STATUS (VIRTIO_STATUS_ACKNOWLEDGE OR VIRTIO_STATUS_DRIVER) s2;
              (out, s4) = query_input_name rd d 64 s3;
              s5 = vio_write b VIRTIO_MMIO_STATUS 0 s4;
              name = (case out of Some n \<Rightarrow> takeWhile (\<lambda>c. c \<noteq> CHR 0x00) n | None \<Rightarrow> junk idx);
              s6 = (if is_keyboard name then s5\<lparr>kbd_dev := Some d\<rparr> else s5\<lparr>tablet_dev := Some d\<rparr>)
          in identify_loop rd junk (idx + 1) s6)"

definition start_device :: "device \<Rightarrow> nat option \<Rightarrow> u64 \<Rightarrow> 'a virtio_state_scheme \<Rightarrow> bool \<times> 'a virtio_state_scheme" where
  "start_device rd dev bufs s =
     (case dev of
        None \<Rightarrow> (False, s)
      | Some d \<Rightarrow> (case virtio_dev_init rd d 1 s of
                     (r, s1) \<Rightarrow> if r = 0 then (True, refill_event_queue d bufs s1) else (False, s1)))"

definition virtio_input_init ::
  "device \<Rightarrow> (nat \<Rightarrow> string) \<Rightarrow> u64 \<Rightarrow> u64 \<Rightarrow> 'a vinput_state_scheme \<Rightarrow> (int \<times> 'a vinput_state_scheme) option" where
  "virtio_input_init rd junk kbd_bufs tablet_bufs s =
     map_option (\<lambda>s1.
       let (k, s2) = start_device rd (kbd_dev s1) kbd_bufs s1;
           s3 = (if k then s2 else s2\<lparr>kbd_dev := None\<rparr>);
           (t, s4) = start_device rd (tablet_dev s3) tablet_bufs s3;
           s5 = (if t then s4 else s4\<lparr>tablet_dev := None\<rparr>)
       in (if kbd_dev s5 = None \<and> tablet_dev s5 = None then -1 else 0, s5))
     (identify_loop rd junk 0 (s\<lparr>key_ring_head := 0, key_ring_tail := 0, mouse_x := FB_WIDTH div 2, mouse_y := FB_HEIGHT div 2,
        mouse_btns := 0, shift_held := False, kbd_dev := None, tablet_dev := None\<rparr>))"

definition virtio_kbd_poll :: "u64 \<Rightarrow> 'a vinput_state_scheme \<Rightarrow> (int \<times> 'a vinput_state_scheme) option" where
  "virtio_kbd_poll bufs s = map_option key_ring_pop (drain_events (kbd_dev s) bufs (kbd_events s) process_kbd_event s)"

definition virtio_mouse_poll :: "u64 \<Rightarrow> 'a vinput_state_scheme \<Rightarrow> ((int \<times> int \<times> int) \<times> 'a vinput_state_scheme) option" where
  "virtio_mouse_poll bufs s =
     map_option (\<lambda>s1. ((mouse_x s1, mouse_y s1, mouse_btns s1), s1)) (drain_events (tablet_dev s) bufs (tablet_events s) process_tablet_event s)"


section \<open>What device and driver share\<close>

text \<open>
  The device's side of the contract, as the virtio specification has it: the device takes the heads
  of the available ring in order, it may use the buffers it holds in any order, and it reports a
  buffer by a used element after it has written the event. The buffer is found by its address.
\<close>

definition dev_fetch :: "virtq \<Rightarrow> u16 \<times> nat list \<Rightarrow> u16 \<times> nat list" where
  "dev_fetch vq = (\<lambda>(seen, held). (seen + 1, held @ [unat (avail_ring vq ! (unat seen mod unat (num vq)))]))"

definition dev_report :: "nat \<Rightarrow> u32 \<Rightarrow> virtq \<Rightarrow> virtq" where
  "dev_report i len vq =
     vq\<lparr>used_ring := (used_ring vq)[unat (used_idx vq) mod unat (num vq) := (of_nat i, len)], used_idx := used_idx vq + 1\<rparr>"

definition dev_store :: "u64 \<Rightarrow> virtq \<Rightarrow> nat \<Rightarrow> virtio_input_event \<Rightarrow> virtio_input_event list \<Rightarrow> virtio_input_event list" where
  "dev_store bufs vq i ev events = events[unat ((d_addr (desc vq ! i) - bufs) div 8) := ev]"

definition queue_size :: "nat \<Rightarrow> bool" where
  "queue_size n \<longleftrightarrow> n dvd 2 ^ 16 \<and> 0 < n \<and> n \<le> 16"

definition shape :: "u64 \<Rightarrow> nat \<Rightarrow> virtq \<Rightarrow> bool" where
  "shape bufs n vq \<longleftrightarrow> num vq = of_nat n \<and> free_head vq = 0xFFFF \<and>
     length (desc vq) = n \<and> length (avail_ring vq) = 16 \<and> length (used_ring vq) = 16 \<and>
     (\<forall>i<n. d_addr (desc vq ! i) = event_at bufs i)"

text \<open>
  The events \<open>pend\<close> are reported and not yet handled: \<open>u\<close> reports handled, \<open>p\<close> made, \<open>a\<close> buffers
  made available so far, \<open>f\<close> of them fetched. Each buffer is at exactly one place.
\<close>

definition queue_at ::
  "nat \<Rightarrow> virtq \<Rightarrow> virtio_input_event list \<Rightarrow> u16 \<times> nat list \<Rightarrow> (virtio_input_event \<times> u32) list \<Rightarrow> nat \<Rightarrow> nat \<Rightarrow> nat \<Rightarrow> nat \<Rightarrow> bool" where
  "queue_at n vq events dv pend u p f a \<longleftrightarrow>
     u \<le> p \<and> f \<le> a \<and> last_used_idx vq = of_nat u \<and> used_idx vq = of_nat p \<and> avail_idx vq = of_nat a \<and> fst dv = of_nat f \<and>
     mset (map unat (win n (avail_ring vq) f a) @ snd dv @ map (unat \<circ> fst) (win n (used_ring vq) u p)) = mset [0..<n] \<and>
     list_all2 (\<lambda>(i, l) (ev, len). l = len \<and> events ! unat i = ev) (win n (used_ring vq) u p) pend"

definition queue_inv ::
  "u64 \<Rightarrow> nat \<Rightarrow> virtq \<Rightarrow> virtio_input_event list \<Rightarrow> u16 \<times> nat list \<Rightarrow> (virtio_input_event \<times> u32) list \<Rightarrow> bool" where
  "queue_inv bufs n vq events dv pend \<longleftrightarrow>
     queue_size n \<and> length events = 16 \<and> shape bufs n vq \<and> (\<exists>u p f a. queue_at n vq events dv pend u p f a)"

lemma queue_sizeD [dest]: "queue_size n \<Longrightarrow> 0 < n" "queue_size n \<Longrightarrow> n \<le> 16" "queue_size n \<Longrightarrow> n dvd 2 ^ 16"
  by (simp_all add: queue_size_def)

lemma unat_num: "shape bufs n vq \<Longrightarrow> queue_size n \<Longrightarrow> unat (num vq) = n"
  by (auto simp: shape_def queue_size_def unat_of_nat_small)

lemma event_at_inv: "i < 16 \<Longrightarrow> unat ((event_at bufs i - bufs) div 8) = i"
  by (simp add: event_at_def unat_div_distrib unat_word_ariths unat_of_nat_small)

text \<open>The three rings together hold \<open>n\<close> buffers, so none of them is overrun.\<close>

lemma queue_at_sizes:
  assumes "queue_at n vq events dv pend u p f a"
  shows "(a - f) + length (snd dv) + (p - u) = n"
proof -
  have "mset (map unat (win n (avail_ring vq) f a) @ snd dv @ map (unat \<circ> fst) (win n (used_ring vq) u p)) = mset [0..<n]"
    using assms by (simp only: queue_at_def)
  then have "length (map unat (win n (avail_ring vq) f a) @ snd dv @ map (unat \<circ> fst) (win n (used_ring vq) u p)) = length [0..<n]"
    by (rule mset_eq_length)
  then show ?thesis by simp
qed

lemma queue_at_fetch:
  assumes n: "queue_size n" "shape bufs n vq" and q: "queue_at n vq events dv pend u p f a" and "fst dv \<noteq> avail_idx vq"
  shows "queue_at n vq events (dev_fetch vq dv) pend u p (Suc f) a"
proof -
  obtain seen held where dv: "dv = (seen, held)" by (cases dv)
  have "f < a" using q assms(4) unfolding queue_at_def by (auto simp: le_less)
  moreover have "unat seen mod n = f mod n"
    using q u16_mod [of n f] n(1) by (auto simp: queue_at_def dv)
  ultimately show ?thesis
    using q unat_num [OF n(2,1)] by (auto simp: queue_at_def dv dev_fetch_def win_Cons [of f a] ac_simps)
qed

lemma queue_at_report:
  assumes n: "queue_size n" "shape bufs n vq" and len: "length events = 16"
    and q: "queue_at n vq events dv pend u p f a" and i: "i \<in> set (snd dv)"
  shows "queue_at n (dev_report i len vq) (dev_store bufs vq i ev events) (fst dv, remove1 i (snd dv)) (pend @ [(ev, len)]) u (Suc p) f a"
proof -
  have m: "mset (map unat (win n (avail_ring vq) f a) @ snd dv @ map (unat \<circ> fst) (win n (used_ring vq) u p)) = mset [0..<n]"
    using q by (simp add: queue_at_def)
  have "i \<in> set [0..<n]" using i by (metis (no_types, lifting) Un_iff m mset_eq_setD set_append)
  then have i16: "i < n" "i < 16" using n(1) by (auto simp: queue_size_def)
  have store: "dev_store bufs vq i ev events = events[i := ev]"
    using n(2) i16 event_at_inv by (simp add: dev_store_def shape_def)
  have "distinct (map unat (win n (avail_ring vq) f a) @ snd dv @ map (unat \<circ> fst) (win n (used_ring vq) u p))"
    using m mset_eq_imp_distinct_iff distinct_upt by blast
  then have other: "unat (fst x) \<noteq> i" if "x \<in> set (win n (used_ring vq) u p)" for x
    using i that by auto
  have "length (snd dv) > 0" using i by (cases "snd dv") auto
  then have "p - u < n" using queue_at_sizes [OF q] by linarith
  then have w: "win n ((used_ring vq)[p mod n := (of_nat i, len)]) u (Suc p) = win n (used_ring vq) u p @ [(of_nat i, len)]"
    using q n by (intro win_update) (auto simp: queue_at_def shape_def)
  have "unat (used_idx vq) mod unat (num vq) = p mod n"
    using q u16_mod [of n p] n(1) unat_num [OF n(2,1)] by (auto simp: queue_at_def)
  moreover have "list_all2 (\<lambda>(j, l) (e, len). l = len \<and> events[i := ev] ! unat j = e) (win n (used_ring vq) u p) pend"
    using q other unfolding queue_at_def
    by (auto elim!: list.rel_mono_strong simp: split_beta) (metis nth_list_update_neq)
  moreover have "unat (of_nat i :: u32) = i" using i16 by (simp add: unat_of_nat_small)
  ultimately show ?thesis
    using q m i w len i16 n(2) by (auto simp: queue_at_def dev_report_def store ac_simps intro!: list_all2_appendI)
qed


lemma queue_at_pending:
  assumes "queue_at n vq events dv (x # pend) u p f a"
  obtains i len ev where "u < p" "x = (ev, len)" "used_ring vq ! (u mod n) = (i, len)" "events ! unat i = ev" "unat i < n"
proof -
  have u: "u < p" using assms by (auto simp: queue_at_def dest!: list_all2_lengthD)
  have "unat (fst (used_ring vq ! (u mod n))) \<in> set [0..<n]"
  proof -
    have "mset (map unat (win n (avail_ring vq) f a) @ snd dv @ map (unat \<circ> fst) (win n (used_ring vq) u p)) = mset [0..<n]"
      using assms by (simp only: queue_at_def)
    then have "set (map unat (win n (avail_ring vq) f a) @ snd dv @ map (unat \<circ> fst) (win n (used_ring vq) u p)) = set [0..<n]"
      by (rule mset_eq_setD)
    then show ?thesis by (auto simp: win_Cons [OF u])
  qed
  then show thesis
    using that u assms by (cases x; cases "used_ring vq ! (u mod n)") (auto simp: queue_at_def win_Cons [OF u])
qed

text \<open>One round of \<^verbatim>\<open>drain_events\<close>: the buffer goes from the used ring back to the available one.\<close>

definition recycle :: "u64 \<Rightarrow> virtq \<Rightarrow> virtq" where
  "recycle bufs vq =
     (case virtq_pop_used vq of
        (Some (i, len), vq1) \<Rightarrow> virtq_push_buf (event_at bufs (unat i)) EVENT_SIZE VIRTQ_DESC_F_WRITE vq1
      | (None, vq1) \<Rightarrow> vq1)"

lemma recycle_eq:
  assumes n: "queue_size n" "shape bufs n vq" and q: "queue_at n vq events dv pend u p f a" and u: "u < p"
    and i: "used_ring vq ! (u mod n) = (i, len)" "unat i < n"
  shows "recycle bufs vq = vq\<lparr>last_used_idx := of_nat (Suc u), avail_ring := (avail_ring vq)[a mod n := ucast i],
           avail_idx := of_nat (Suc a),
           desc := (desc vq)[unat i := (desc vq ! unat i)\<lparr>d_addr := event_at bufs (unat i), d_len := EVENT_SIZE, d_flags := VIRTQ_DESC_F_WRITE, d_next := 0\<rparr>]\<rparr>"
proof -
  have idx: "last_used_idx vq = of_nat u" "used_idx vq = of_nat p" "avail_idx vq = of_nat a" "free_head vq = 0xFFFF"
    "length (desc vq) = n"
    using q n(2) by (auto simp: queue_at_def shape_def)
  have "p - u \<le> 16" using queue_at_sizes [OF q] n(1) by (auto simp: queue_size_def)
  then have used: "virtq_has_used vq" using u u16_eq_near [of u p] idx by (auto simp: virtq_has_used_def)
  have at: "unat (of_nat u :: u16) mod unat (num vq) = u mod n" "unat (of_nat a :: u16) mod unat (num vq) = a mod n"
    using n u16_mod [of n] unat_num by auto
  have ui: "unat (ucast i :: u16) = unat i"
    using i(2) n(1) by (simp add: queue_size_def unsigned_ucast_eq take_bit_nat_eq_self)
  have "(ucast i :: u16) \<noteq> 0xFFFF"
  proof
    assume "(ucast i :: u16) = 0xFFFF"
    then have "unat i = unat (0xFFFF :: u16)" using ui by simp
    then show False using i(2) n(1) by (auto simp: queue_size_def)
  qed
  then show ?thesis
    using used at ui i idx
    by (simp add: recycle_def virtq_pop_used_def virtq_push_buf_def Let_def add.commute)
qed


lemma queue_at_recycle:
  assumes n: "queue_size n" "shape bufs n vq" and q: "queue_at n vq events dv (x # pend) u p f a"
  shows "queue_at n (recycle bufs vq) events dv pend (Suc u) p f (Suc a)" "shape bufs n (recycle bufs vq)"
proof -
  from q obtain i len ev where u: "u < p" and x: "x = (ev, len)" and i: "used_ring vq ! (u mod n) = (i, len)" "unat i < n"
    by (rule queue_at_pending)
  note eq = recycle_eq [OF n q u i]
  have "unat (ucast i :: u16) = unat i"
    using i(2) n(1) by (simp add: queue_size_def unsigned_ucast_eq take_bit_nat_eq_self)
  moreover have "a - f < n" using queue_at_sizes [OF q] u by linarith
  then have "win n ((avail_ring vq)[a mod n := ucast i]) f (Suc a) = win n (avail_ring vq) f a @ [ucast i]"
    using q n by (intro win_update) (auto simp: queue_at_def shape_def)
  ultimately show "queue_at n (recycle bufs vq) events dv pend (Suc u) p f (Suc a)"
    using q u i by (auto simp: eq queue_at_def win_Cons [OF u] ac_simps simp del: of_nat_Suc)
  show "shape bufs n (recycle bufs vq)"
    using n(2) i(2) by (auto simp: eq shape_def nth_list_update)
qed

definition deliver :: "(virtio_input_event \<Rightarrow> 's \<Rightarrow> 's) \<Rightarrow> virtio_input_event \<times> u32 \<Rightarrow> 's \<Rightarrow> 's" where
  "deliver handler = (\<lambda>(ev, len) s. if len \<ge> EVENT_SIZE then handler ev s else s)"

lemma drain_step:
  assumes n: "queue_size n" "shape bufs n vq" and q: "queue_at n vq events dv (x # pend) u p f a"
  shows "drain_loop h bufs events vq s c = drain_loop h bufs events (recycle bufs vq) (deliver h x s) (c + 1)"
proof -
  from q obtain i len ev where u: "u < p" and x: "x = (ev, len)" and i: "used_ring vq ! (u mod n) = (i, len)" "unat i < n"
    and ev: "events ! unat i = ev"
    by (rule queue_at_pending)
  have idx: "last_used_idx vq = of_nat u" "used_idx vq = of_nat p" using q by (auto simp: queue_at_def)
  have "p - u \<le> 16" using queue_at_sizes [OF q] n(1) by (auto simp: queue_size_def)
  then have used: "virtq_has_used vq" using u u16_eq_near [of u p] idx by (auto simp: virtq_has_used_def)
  have "unat (of_nat u :: u16) mod unat (num vq) = u mod n" using n u16_mod [of n] unat_num by auto
  then obtain vq1 where pop: "virtq_pop_used vq = (Some (i, len), vq1)"
    using used i idx by (simp add: virtq_pop_used_def Let_def)
  have "unat i < 2 ^ 31" using i(2) n(1) by (auto simp: queue_size_def)
  then have "\<not> bit (unat i) 31" by (simp add: bit_iff_odd)
  then have "\<not> sint i < 0" using bit_last_iff [of i] by (simp add: bit_unsigned_iff)
  then show ?thesis
    using used pop by (subst drain_loop.simps) (simp add: recycle_def deliver_def x ev)
qed

text \<open>The loop ends, and the handler sees the reported events in the order of the reports, each once.\<close>

lemma drain_all:
  assumes "queue_size n" "shape bufs n vq" "queue_at n vq events dv pend u p f a"
  shows "\<exists>vq' u' a'. drain_loop h bufs events vq s c = Some (vq', fold (deliver h) pend s, c + length pend) \<and>
    shape bufs n vq' \<and> queue_at n vq' events dv [] u' p f a' \<and> vq_base vq' = vq_base vq \<and> queue_idx vq' = queue_idx vq"
  using assms
proof (induction pend arbitrary: vq s c u a)
  case Nil
  then have "u = p" by (auto simp: queue_at_def win_def)
  then have "\<not> virtq_has_used vq" using Nil by (simp add: queue_at_def virtq_has_used_def)
  then have "drain_loop h bufs events vq s c = Some (vq, s, c)" by (subst drain_loop.simps) simp
  then show ?case using Nil by auto
next
  case (Cons x pend)
  note q = queue_at_recycle [OF Cons.prems]
  have "vq_base (recycle bufs vq) = vq_base vq \<and> queue_idx (recycle bufs vq) = queue_idx vq"
    by (auto simp: recycle_def virtq_pop_used_def virtq_push_buf_def Let_def split: option.splits prod.splits if_splits)
  then show ?case
    using Cons.IH [OF Cons.prems(1) q(2,1), of "deliver h x s" "c + 1"] by (auto simp: drain_step [OF Cons.prems])
qed


text \<open>A fresh queue, filled by \<^verbatim>\<open>refill_event_queue\<close>: every buffer is available.\<close>

definition filled :: "u64 \<Rightarrow> nat \<Rightarrow> nat \<Rightarrow> virtq \<Rightarrow> bool" where
  "filled bufs n j vq \<longleftrightarrow> num vq = of_nat n \<and> length (desc vq) = n \<and> length (avail_ring vq) = 16 \<and> length (used_ring vq) = 16 \<and>
     used_idx vq = 0 \<and> last_used_idx vq = 0 \<and>
     free_head vq = (if n \<le> j then 0xFFFF else of_nat j) \<and> avail_idx vq = of_nat (min j n) \<and>
     (\<forall>i<min j n. d_addr (desc vq ! i) = event_at bufs i \<and> avail_ring vq ! i = of_nat i) \<and>
     (\<forall>i<n. j \<le> i \<longrightarrow> d_next (desc vq ! i) = (if Suc i = n then 0xFFFF else of_nat (Suc i)))"

lemma filled_start: "queue_size n \<Longrightarrow> filled bufs n 0 (virtq_make b q n da aa ua)"
  by (auto simp: filled_def virtq_make_def virtq_fresh_nth VIRTQ_SIZE_def queue_size_def)

lemma filled_push:
  assumes n: "queue_size n" and f: "filled bufs n j vq"
  shows "filled bufs n (Suc j) (virtq_push_buf (event_at bufs j) EVENT_SIZE VIRTQ_DESC_F_WRITE vq)"
proof (cases "j < n")
  case True
  have j: "unat (of_nat j :: u16) = j" "unat (of_nat n :: u16) = n" "j mod n = j" "j < 16"
    using True n by (auto simp: queue_size_def unat_of_nat_small)
  then have "(of_nat j :: u16) \<noteq> 0xFFFF" by (auto dest!: arg_cong [where f = unat])
  then show ?thesis
    using f True j n by (auto simp: filled_def virtq_push_buf_def Let_def nth_list_update less_Suc_eq min_def queue_size_def)
next
  case False
  then show ?thesis using f by (auto simp: filled_def virtq_push_buf_def min_def)
qed

lemma queue_start:
  assumes "queue_size n" "length events = 16"
  shows "queue_inv bufs n (refill_queue bufs (virtq_make b q n da aa ua)) events (0, []) []"
proof -
  define vq where "vq = refill_queue bufs (virtq_make b q n da aa ua)"
  have "filled bufs n 16 vq"
    unfolding vq_def refill_queue_def EVENT_BUF_COUNT_def
    by (rule for_loop_inv [where P = "filled bufs n"]) (simp_all add: filled_start assms filled_push)
  then have v: "shape bufs n vq" "avail_idx vq = of_nat n" "used_idx vq = 0" "last_used_idx vq = 0"
    "\<And>i. i < n \<Longrightarrow> avail_ring vq ! i = of_nat i"
    using assms(1) by (auto simp: filled_def shape_def queue_size_def min_def)
  have "map unat (win n (avail_ring vq) 0 n) = [0..<n]"
    using v(5) assms(1) by (auto simp: win_def queue_size_def unat_of_nat_small intro!: map_idI)
  then have "queue_at n vq events (0, []) [] 0 0 0 n" using v by (simp add: queue_at_def)
  then show ?thesis using assms v(1) unfolding queue_inv_def vq_def [symmetric] by blast
qed


lemma queue_inv_cases:
  assumes "queue_inv bufs n vq events dv pend"
  obtains u p f a where "queue_size n" "length events = 16" "shape bufs n vq" "queue_at n vq events dv pend u p f a"
  using assms by (auto simp: queue_inv_def)

lemma queue_invI:
  "queue_size n \<Longrightarrow> length events = 16 \<Longrightarrow> shape bufs n vq \<Longrightarrow> queue_at n vq events dv pend u p f a \<Longrightarrow> queue_inv bufs n vq events dv pend"
  unfolding queue_inv_def by blast

lemma queue_fetch:
  "queue_inv bufs n vq events dv pend \<Longrightarrow> fst dv \<noteq> avail_idx vq \<Longrightarrow> queue_inv bufs n vq events (dev_fetch vq dv) pend"
  by (erule queue_inv_cases) (rule queue_invI, assumption+, rule queue_at_fetch)

lemma queue_report:
  assumes "queue_inv bufs n vq events dv pend" "i \<in> set (snd dv)"
  shows "queue_inv bufs n (dev_report i len vq) (dev_store bufs vq i ev events) (fst dv, remove1 i (snd dv)) (pend @ [(ev, len)])"
  using assms(1)
proof (rule queue_inv_cases)
  fix u p f a
  assume q: "queue_size n" "length events = 16" "shape bufs n vq" "queue_at n vq events dv pend u p f a"
  have "shape bufs n (dev_report i len vq)" using q(3) by (simp add: shape_def dev_report_def)
  then show ?thesis
    using queue_at_report [OF q(1,3,2,4) assms(2), of len ev] q(1,2) unfolding queue_inv_def dev_store_def by auto
qed

lemma queue_drain:
  assumes "queue_inv bufs n vq events dv pend"
  obtains vq' where "drain_loop h bufs events vq s 0 = Some (vq', fold (deliver h) pend s, length pend)"
    "queue_inv bufs n vq' events dv []"
  using assms
proof (rule queue_inv_cases)
  fix u p f a
  assume q: "queue_size n" "length events = 16" "shape bufs n vq" "queue_at n vq events dv pend u p f a"
  from drain_all [OF q(1,3,4), of h s 0] obtain vq' u' a' where
    "drain_loop h bufs events vq s 0 = Some (vq', fold (deliver h) pend s, length pend)" "shape bufs n vq'"
    "queue_at n vq' events dv [] u' p f a'"
    by auto
  then show thesis using that queue_invI [OF q(1,2)] by blast
qed

section \<open>The ring of keys\<close>

definition keys_held :: "int list \<Rightarrow> 'a vinput_state_scheme \<Rightarrow> bool" where
  "keys_held fifo s \<longleftrightarrow> length (key_ring s) = 32 \<and>
     (\<exists>i j. i \<le> j \<and> j - i < 32 \<and> key_ring_tail s = i mod 32 \<and> key_ring_head s = j mod 32 \<and> fifo = win 32 (key_ring s) i j)"

lemma mod_eq_window:
  assumes "i \<le> j" "j - i < n"
  shows "i mod n = j mod n \<longleftrightarrow> i = (j::nat)"
  using assms mod_neq_window [of i j n] by (auto simp: le_less)

lemma keys_held_push:
  assumes "keys_held fifo s"
  shows "keys_held (if length fifo < 31 then fifo @ [key] else fifo) (key_ring_push key s)"
proof -
  from assms obtain i j where k: "length (key_ring s) = 32" "i \<le> j" "j - i < 32" "key_ring_tail s = i mod 32"
    "key_ring_head s = j mod 32" "fifo = win 32 (key_ring s) i j"
    by (auto simp: keys_held_def)
  have nxt: "(key_ring_head s + 1) mod KEY_RING_SIZE = Suc j mod 32" by (simp add: k KEY_RING_SIZE_def mod_Suc_eq)
  show ?thesis
  proof (cases "j - i < 31")
    case True
    then have "i mod 32 \<noteq> Suc j mod 32" using mod_eq_window [of i "Suc j" 32] k by auto
    moreover have "win 32 ((key_ring s)[j mod 32 := key]) i (Suc j) = fifo @ [key]"
      using k by (simp add: win_update)
    ultimately show ?thesis
      unfolding keys_held_def using True k nxt
      by (intro conjI exI [of _ i] exI [of _ "Suc j"]) (simp_all add: key_ring_push_def Let_def)
  next
    case False
    then have "Suc j = i + 32" using k by simp
    then have "Suc j mod 32 = i mod 32" by simp
    then show ?thesis using False k nxt assms by (simp add: key_ring_push_def)
  qed
qed

lemma keys_held_pop:
  assumes "keys_held fifo s"
  shows "fst (key_ring_pop s) = (case fifo of [] \<Rightarrow> KEY_NONE | k # _ \<Rightarrow> k)" "keys_held (tl fifo) (snd (key_ring_pop s))"
proof -
  from assms obtain i j where k: "length (key_ring s) = 32" "i \<le> j" "j - i < 32" "key_ring_tail s = i mod 32"
    "key_ring_head s = j mod 32" "fifo = win 32 (key_ring s) i j"
    by (auto simp: keys_held_def)
  have eq: "key_ring_head s = key_ring_tail s \<longleftrightarrow> i = j" using mod_eq_window [of i j 32] k by auto
  show "fst (key_ring_pop s) = (case fifo of [] \<Rightarrow> KEY_NONE | k # _ \<Rightarrow> k)"
    using eq k by (cases "i = j") (auto simp: key_ring_pop_def win_Cons)
  show "keys_held (tl fifo) (snd (key_ring_pop s))"
  proof (cases "i = j")
    case True
    then show ?thesis using assms eq k by (simp add: key_ring_pop_def)
  next
    case False
    then have "i < j" using k by simp
    then show ?thesis
      unfolding keys_held_def using False eq k
      by (intro conjI exI [of _ "Suc i"] exI [of _ j]) (simp_all add: key_ring_pop_def win_Cons KEY_RING_SIZE_def mod_Suc_eq)
  qed
qed


section \<open>The keyboard and its specification\<close>

text \<open>
  What a keyboard promises: the events reported and not yet seen, the keys waiting, at most 31, and
  the shift key. A poll takes in every event and returns the oldest key.
\<close>

record kbd_spec =
  unseen :: "(virtio_input_event \<times> u32) list"
  waiting :: "int list"
  shifted :: bool

definition key_of :: "bool \<Rightarrow> u16 \<Rightarrow> int" where
  "key_of shift code =
     (if shift \<and> shift_table ! unat code \<noteq> 0 then shift_table ! unat code else keycode_table ! unat code)"

definition spec_event :: "virtio_input_event \<Rightarrow> kbd_spec \<Rightarrow> kbd_spec" where
  "spec_event ev k =
     (if ev_type ev \<noteq> EV_KEY then k
      else if ev_code ev \<in> {42, 54} then k\<lparr>shifted := (ev_value ev \<noteq> 0)\<rparr>
      else if ev_value ev \<noteq> 0 \<and> ev_code ev < 128 \<and> key_of (shifted k) (ev_code ev) \<noteq> 0 \<and> length (waiting k) < 31
      then k\<lparr>waiting := waiting k @ [key_of (shifted k) (ev_code ev)]\<rparr> else k)"

datatype kbd_act = Fetch | Report virtio_input_event u32 | Poll int

fun spec_step :: "kbd_act \<Rightarrow> kbd_spec \<Rightarrow> kbd_spec option" where
  "spec_step Fetch k = Some k"
| "spec_step (Report ev len) k = Some (k\<lparr>unseen := unseen k @ [(ev, len)]\<rparr>)"
| "spec_step (Poll key) k =
     (let k1 = fold (deliver spec_event) (unseen k) k
      in if key = (case waiting k1 of [] \<Rightarrow> KEY_NONE | x # _ \<Rightarrow> x)
         then Some (k1\<lparr>unseen := [], waiting := tl (waiting k1)\<rparr>) else None)"

fun spec_run :: "kbd_act list \<Rightarrow> kbd_spec \<Rightarrow> kbd_spec option" where
  "spec_run [] k = Some k"
| "spec_run (x # xs) k = Option.bind (spec_step x k) (spec_run xs)"

text \<open>Device and driver, in any order: the state of the driver and that of the device.\<close>

definition kbd_queue :: "'a vinput_state_scheme \<Rightarrow> virtq" where
  "kbd_queue s = queues (devices s ! the (kbd_dev s)) ! 0"

inductive kbd_step :: "u64 \<Rightarrow> vinput_state \<times> u16 \<times> nat list \<Rightarrow> kbd_act \<Rightarrow> vinput_state \<times> u16 \<times> nat list \<Rightarrow> bool" for bufs where
  fetch: "fst dv \<noteq> avail_idx (kbd_queue s) \<Longrightarrow> kbd_step bufs (s, dv) Fetch (s, dev_fetch (kbd_queue s) dv)"
| report: "i \<in> set (snd dv) \<Longrightarrow>
    kbd_step bufs (s, dv) (Report ev len)
      (set_queue (the (kbd_dev s)) (dev_report i len (kbd_queue s)) (s\<lparr>kbd_events := dev_store bufs (kbd_queue s) i ev (kbd_events s)\<rparr>),
       fst dv, remove1 i (snd dv))"
| poll: "virtio_kbd_poll bufs s = Some (key, s') \<Longrightarrow> kbd_step bufs (s, dv) (Poll key) (s', dv)"

inductive kbd_run :: "u64 \<Rightarrow> vinput_state \<times> u16 \<times> nat list \<Rightarrow> kbd_act list \<Rightarrow> vinput_state \<times> u16 \<times> nat list \<Rightarrow> bool" for bufs where
  nil: "kbd_run bufs st [] st"
| cons: "kbd_step bufs st x st' \<Longrightarrow> kbd_run bufs st' xs st'' \<Longrightarrow> kbd_run bufs st (x # xs) st''"

definition kbd_sim :: "u64 \<Rightarrow> nat \<Rightarrow> vinput_state \<times> u16 \<times> nat list \<Rightarrow> kbd_spec \<Rightarrow> bool" where
  "kbd_sim bufs n = (\<lambda>(s, dv) k. (\<exists>d. kbd_dev s = Some d \<and> d < length (devices s) \<and> active (devices s ! d) \<and> queues (devices s ! d) \<noteq> []) \<and>
     queue_inv bufs n (kbd_queue s) (kbd_events s) dv (unseen k) \<and> keys_held (waiting k) s \<and> shift_held s = shifted k)"

definition kbd_started :: "u64 \<Rightarrow> nat \<Rightarrow> vinput_state \<Rightarrow> bool" where
  "kbd_started bufs n s \<longleftrightarrow> (\<exists>d. kbd_dev s = Some d \<and> d < length (devices s) \<and> active (devices s ! d) \<and> queues (devices s ! d) \<noteq> []) \<and>
     (\<exists>b q da aa ua. kbd_queue s = refill_queue bufs (virtq_make b q n da aa ua)) \<and> length (kbd_events s) = 16 \<and>
     length (key_ring s) = 32 \<and> key_ring_head s = 0 \<and> key_ring_tail s = 0 \<and> \<not> shift_held s"

lemma key_push_frame [frame_simps]:
  "devices (key_ring_push key s) = devices s" "kbd_dev (key_ring_push key s) = kbd_dev s"
  "kbd_events (key_ring_push key s) = kbd_events s" "shift_held (key_ring_push key s) = shift_held s"
  by (simp_all add: key_ring_push_def Let_def)

lemma process_kbd_frame [frame_simps]:
  "devices (process_kbd_event ev s) = devices s" "kbd_dev (process_kbd_event ev s) = kbd_dev s"
  "kbd_events (process_kbd_event ev s) = kbd_events s"
  by (simp_all add: process_kbd_event_def Let_def frame_simps)

lemma deliver_kbd_frame [frame_simps]:
  "devices (fold (deliver process_kbd_event) evs s) = devices s" "kbd_dev (fold (deliver process_kbd_event) evs s) = kbd_dev s"
  "kbd_events (fold (deliver process_kbd_event) evs s) = kbd_events s"
  by (induction evs arbitrary: s) (auto simp: deliver_def frame_simps split: prod.split)

lemma key_pop_frame [frame_simps]:
  "devices (snd (key_ring_pop s)) = devices s" "kbd_dev (snd (key_ring_pop s)) = kbd_dev s"
  "kbd_events (snd (key_ring_pop s)) = kbd_events s" "shift_held (snd (key_ring_pop s)) = shift_held s"
  by (simp_all add: key_ring_pop_def)

lemma keys_held_cong:
  "key_ring s' = key_ring s \<Longrightarrow> key_ring_head s' = key_ring_head s \<Longrightarrow> key_ring_tail s' = key_ring_tail s \<Longrightarrow> keys_held f s' = keys_held f s"
  by (simp add: keys_held_def)

lemma process_kbd_event_key_of:
  "process_kbd_event ev s =
     (if ev_type ev \<noteq> EV_KEY then s
      else if ev_code ev \<in> {42, 54} then s\<lparr>shift_held := (ev_value ev \<noteq> 0)\<rparr>
      else if ev_value ev \<noteq> 0 \<and> ev_code ev < 128 \<and> key_of (shift_held s) (ev_code ev) \<noteq> 0
      then key_ring_push (key_of (shift_held s) (ev_code ev)) s else s)"
  unfolding process_kbd_event_def key_of_def Let_def EV_KEY_def EV_SYN_def by simp

lemma process_kbd_sim:
  assumes "keys_held (waiting k) s" "shift_held s = shifted k"
  shows "keys_held (waiting (spec_event ev k)) (process_kbd_event ev s) \<and> shift_held (process_kbd_event ev s) = shifted (spec_event ev k)"
proof -
  have "keys_held (waiting k) (s\<lparr>shift_held := v\<rparr>)" for v using assms(1) by (simp add: keys_held_def)
  then show ?thesis
    using assms keys_held_push [OF assms(1), of "key_of (shifted k) (ev_code ev)"]
    by (simp add: process_kbd_event_key_of spec_event_def frame_simps split: if_splits)
qed

lemma deliver_kbd_sim:
  "keys_held (waiting k) s \<Longrightarrow> shift_held s = shifted k \<Longrightarrow>
   keys_held (waiting (fold (deliver spec_event) evs k)) (fold (deliver process_kbd_event) evs s) \<and>
   shift_held (fold (deliver process_kbd_event) evs s) = shifted (fold (deliver spec_event) evs k)"
proof (induction evs arbitrary: s k)
  case (Cons x evs)
  obtain ev len where x: "x = (ev, len)" by (cases x)
  show ?case
    using Cons.IH [of "deliver spec_event x k" "deliver process_kbd_event x s"] process_kbd_sim [OF Cons.prems, of ev] Cons.prems
    by (simp add: x deliver_def split: if_splits)
qed simp


lemma kbd_sim_start:
  assumes "kbd_started bufs n s" "queue_size n"
  shows "kbd_sim bufs n (s, 0, []) \<lparr>unseen = [], waiting = [], shifted = False\<rparr>"
proof -
  from assms(1) obtain b q da aa ua where "kbd_queue s = refill_queue bufs (virtq_make b q n da aa ua)"
    unfolding kbd_started_def by blast
  moreover have "length (kbd_events s) = 16" using assms(1) by (simp add: kbd_started_def)
  ultimately have "queue_inv bufs n (kbd_queue s) (kbd_events s) (0, []) []" using queue_start assms(2) by simp
  moreover have "keys_held [] s"
    using assms(1) unfolding keys_held_def kbd_started_def by (intro conjI exI [of _ 0]) simp_all
  ultimately show ?thesis using assms(1) by (simp add: kbd_sim_def kbd_started_def)
qed

lemma kbd_poll_sim:
  assumes sim: "kbd_sim bufs n (s, dv) k"
  obtains key s' k' where "virtio_kbd_poll bufs s = Some (key, s')" "spec_step (Poll key) k = Some k'" "kbd_sim bufs n (s', dv) k'"
proof -
  obtain d where d: "kbd_dev s = Some d" "d < length (devices s)" "active (devices s ! d)" "queues (devices s ! d) \<noteq> []"
    and q: "queue_inv bufs n (kbd_queue s) (kbd_events s) dv (unseen k)" and h: "keys_held (waiting k) s" "shift_held s = shifted k"
    using sim unfolding kbd_sim_def by auto
  define s1 where "s1 = fold (deliver process_kbd_event) (unseen k) s"
  define k1 where "k1 = fold (deliver spec_event) (unseen k) k"
  have frame: "devices s1 = devices s" "kbd_dev s1 = kbd_dev s" "kbd_events s1 = kbd_events s"
    by (simp_all add: s1_def frame_simps)
  have k1: "keys_held (waiting k1) s1" "shift_held s1 = shifted k1"
    using deliver_kbd_sim [OF h] by (simp_all add: s1_def k1_def)
  obtain vq where drain: "drain_loop process_kbd_event bufs (kbd_events s) (kbd_queue s) s 0 = Some (vq, s1, length (unseen k))"
    and q': "queue_inv bufs n vq (kbd_events s) dv []"
    using queue_drain [OF q, of process_kbd_event s] unfolding s1_def by metis
  define s2 where "s2 = (if length (unseen k) > 0 then virtq_kick vq (set_queue d vq s1) else set_queue d vq s1)"
  have poll: "virtio_kbd_poll bufs s = Some (key_ring_pop s2)"
    using drain d by (simp add: virtio_kbd_poll_def drain_events_def kbd_queue_def s2_def Let_def)
  have s2: "devices s2 = (devices s)[d := (devices s ! d)\<lparr>queues := (queues (devices s ! d))[0 := vq]\<rparr>]"
    "kbd_dev s2 = kbd_dev s" "kbd_events s2 = kbd_events s" "shift_held s2 = shift_held s1" "keys_held (waiting k1) s2"
    using frame k1(1) by (simp_all add: s2_def virtq_kick_def vio_write_def set_queue_def upd_dev_def keys_held_def)
  obtain key s3 where pop: "key_ring_pop s2 = (key, s3)" by (cases "key_ring_pop s2")
  have s3: "key = (case waiting k1 of [] \<Rightarrow> KEY_NONE | x # _ \<Rightarrow> x)" "keys_held (tl (waiting k1)) s3"
    "devices s3 = devices s2" "kbd_dev s3 = kbd_dev s2" "kbd_events s3 = kbd_events s2" "shift_held s3 = shift_held s2"
    using keys_held_pop [OF s2(5)] frame_simps(1-4) key_pop_frame [of s2] pop by simp_all
  show thesis
  proof (rule that)
    show "virtio_kbd_poll bufs s = Some (key, s3)" using poll pop by simp
    show "spec_step (Poll key) k = Some (k1\<lparr>unseen := [], waiting := tl (waiting k1)\<rparr>)"
      using s3(1) by (simp add: k1_def Let_def)
    show "kbd_sim bufs n (s3, dv) (k1\<lparr>unseen := [], waiting := tl (waiting k1)\<rparr>)"
      using d q' s2 s3 k1(2) by (simp add: kbd_sim_def kbd_queue_def)
  qed
qed

lemma kbd_step_sim:
  assumes "kbd_step bufs st x st'" "kbd_sim bufs n st k"
  obtains k' where "spec_step x k = Some k'" "kbd_sim bufs n st' k'"
  using assms
proof (induction rule: kbd_step.cases)
  case (fetch dv s)
  then have "kbd_sim bufs n st' k" using queue_fetch by (auto simp: kbd_sim_def)
  then show ?case using fetch.prems(1) [of k] fetch.hyps by simp
next
  case (report i dv s ev len)
  then obtain d where d: "kbd_dev s = Some d" "d < length (devices s)" "active (devices s ! d)" "queues (devices s ! d) \<noteq> []"
    and q: "queue_inv bufs n (kbd_queue s) (kbd_events s) dv (unseen k)" and h: "keys_held (waiting k) s" "shift_held s = shifted k"
    unfolding kbd_sim_def by auto
  then have "kbd_sim bufs n st' (k\<lparr>unseen := unseen k @ [(ev, len)]\<rparr>)"
    using queue_report [OF q, of i len ev] report.hyps
    by (simp add: kbd_sim_def kbd_queue_def set_queue_def upd_dev_def keys_held_def)
  then show ?case using report.prems(1) report.hyps by simp
next
  case (poll s key s' dv)
  then show ?case using kbd_poll_sim [of bufs n s dv k] by (metis option.inject prod.inject)
qed

lemma kbd_run_sim:
  assumes "kbd_run bufs st xs st'" "kbd_sim bufs n st k"
  shows "\<exists>k'. spec_run xs k = Some k' \<and> kbd_sim bufs n st' k'"
  using assms
proof (induction arbitrary: k rule: kbd_run.induct)
  case (cons st x st' xs st'')
  obtain k' where "spec_step x k = Some k'" "kbd_sim bufs n st' k'" using cons.hyps(1) cons.prems by (rule kbd_step_sim)
  then show ?case using cons.IH [of k'] by simp
qed simp


section \<open>Start of the driver\<close>

definition same_input :: "vinput_state \<Rightarrow> vinput_state \<Rightarrow> bool" where
  "same_input t s \<longleftrightarrow> kbd_events t = kbd_events s \<and> tablet_events t = tablet_events s \<and> key_ring t = key_ring s \<and>
     key_ring_head t = key_ring_head s \<and> key_ring_tail t = key_ring_tail s \<and> mouse_x t = mouse_x s \<and> mouse_y t = mouse_y s \<and>
     mouse_btns t = mouse_btns s \<and> shift_held t = shift_held s \<and> num_devices t = num_devices s"

lemma same_input_trans: "same_input u t \<Longrightarrow> same_input t s \<Longrightarrow> same_input u s"
  by (simp add: same_input_def)

text \<open>Keyboard and tablet are different devices among \<open>ds\<close>.\<close>

definition assigned :: "nat set \<Rightarrow> vinput_state \<Rightarrow> bool" where
  "assigned ds s \<longleftrightarrow> set_option (kbd_dev s) \<subseteq> ds \<and> set_option (tablet_dev s) \<subseteq> ds \<and> set_option (kbd_dev s) \<inter> set_option (tablet_dev s) = {}"

definition identify :: "device \<Rightarrow> (nat \<Rightarrow> string) \<Rightarrow> nat \<Rightarrow> nat \<Rightarrow> vinput_state \<Rightarrow> vinput_state" where
  "identify rd junk idx d s =
     (let b = base (devices s ! d);
          s3 = vio_write b VIRTIO_MMIO_STATUS (VIRTIO_STATUS_ACKNOWLEDGE OR VIRTIO_STATUS_DRIVER)
                 (vio_write b VIRTIO_MMIO_STATUS VIRTIO_STATUS_ACKNOWLEDGE (vio_write b VIRTIO_MMIO_STATUS 0 s));
          (out, s4) = query_input_name rd d 64 s3;
          s5 = vio_write b VIRTIO_MMIO_STATUS 0 s4
      in if is_keyboard (case out of Some n \<Rightarrow> takeWhile (\<lambda>c. c \<noteq> CHR 0x00) n | None \<Rightarrow> junk idx)
         then s5\<lparr>kbd_dev := Some d\<rparr> else s5\<lparr>tablet_dev := Some d\<rparr>)"

lemma identify_loop_eq:
  "identify_loop rd junk idx s =
     (if idx < length (found_devs VIRTIO_DEV_INPUT s)
      then identify_loop rd junk (idx + 1) (identify rd junk idx (found_devs VIRTIO_DEV_INPUT s ! idx) s) else Some s)"
  by (subst identify_loop.simps) (simp add: virtio_find_dev_found identify_def Let_def split: prod.split)

lemma vio_write_input [simp]:
  "kbd_dev (vio_write b off v s) = kbd_dev s" "tablet_dev (vio_write b off v s) = tablet_dev s" "same_input (vio_write b off v s) s"
  by (simp_all add: vio_write_def same_input_def)

lemma query_input_name_frame:
  assumes "query_input_name rd d n s = (out, s')"
  shows "devices s' = devices s" "kbd_dev s' = kbd_dev s" "tablet_dev s' = tablet_dev s" "same_input s' s"
  using assms by (auto simp: query_input_name_def virtio_config_write8_def vio_write8_def same_input_def Let_def split: if_splits)

lemma identify_frame:
  "devices (identify rd junk idx d s) = devices s" "same_input (identify rd junk idx d s) s"
  "(kbd_dev (identify rd junk idx d s) = Some d \<and> tablet_dev (identify rd junk idx d s) = tablet_dev s) \<or>
   (kbd_dev (identify rd junk idx d s) = kbd_dev s \<and> tablet_dev (identify rd junk idx d s) = Some d)"
proof -
  let ?b = "base (devices s ! d)"
  let ?s3 = "vio_write ?b VIRTIO_MMIO_STATUS (VIRTIO_STATUS_ACKNOWLEDGE OR VIRTIO_STATUS_DRIVER)
     (vio_write ?b VIRTIO_MMIO_STATUS VIRTIO_STATUS_ACKNOWLEDGE (vio_write ?b VIRTIO_MMIO_STATUS 0 s))"
  obtain out s4 where q: "query_input_name rd d 64 ?s3 = (out, s4)" by (cases "query_input_name rd d 64 ?s3")
  note f = query_input_name_frame [OF q]
  have same: "same_input s4 s" by (intro same_input_trans [OF f(4)] same_input_trans [OF vio_write_input(3)] vio_write_input)
  show "devices (identify rd junk idx d s) = devices s" "same_input (identify rd junk idx d s) s"
    "(kbd_dev (identify rd junk idx d s) = Some d \<and> tablet_dev (identify rd junk idx d s) = tablet_dev s) \<or>
     (kbd_dev (identify rd junk idx d s) = kbd_dev s \<and> tablet_dev (identify rd junk idx d s) = Some d)"
    using f(1-3) same unfolding identify_def Let_def q by (simp_all add: same_input_def vio_write_def)
qed

lemma identify_loop_ends:
  assumes "assigned (set (take idx (found_devs VIRTIO_DEV_INPUT s))) s"
  shows "\<exists>s'. identify_loop rd junk idx s = Some s' \<and> devices s' = devices s \<and> same_input s' s \<and>
    assigned (set (found_devs VIRTIO_DEV_INPUT s)) s'"
  using assms
proof (induction "length (found_devs VIRTIO_DEV_INPUT s) - idx" arbitrary: idx s)
  case 0
  then have "same_input s s" by (simp add: same_input_def)
  then show ?case using 0 by (subst identify_loop_eq) simp
next
  case (Suc k)
  let ?L = "found_devs VIRTIO_DEV_INPUT s"
  let ?t = "identify rd junk idx (?L ! idx) s"
  have i: "idx < length ?L" using Suc.hyps(2) by simp
  have L: "found_devs VIRTIO_DEV_INPUT ?t = ?L"
    using identify_frame(1,2) [of rd junk idx "?L ! idx" s] by (simp add: found_devs_def same_input_def)
  have "?L ! idx \<notin> set (take idx ?L)"
    using distinct_found_devs [of VIRTIO_DEV_INPUT s] i by (auto simp: in_set_conv_nth nth_eq_iff_index_eq)
  then have "assigned (set (take (Suc idx) ?L)) ?t"
    using identify_frame(3) [of rd junk idx "?L ! idx" s] Suc.prems i
    by (auto simp: assigned_def take_Suc_conv_app_nth subset_iff)
  moreover have "k = length ?L - Suc idx" using Suc.hyps(2) by simp
  ultimately obtain s' where "identify_loop rd junk (Suc idx) ?t = Some s'" "devices s' = devices ?t" "same_input s' ?t" "assigned (set ?L) s'"
    using Suc.hyps(1) [of ?t "Suc idx"] by (auto simp: L)
  then show ?case
    using i identify_frame(1,2) [of rd junk idx "?L ! idx" s] same_input_trans by (subst identify_loop_eq) auto
qed


lemma same_input_more: "virtio_state.more t = virtio_state.more s \<Longrightarrow> num_devices t = num_devices s \<Longrightarrow>
  same_input t s \<and> kbd_dev t = kbd_dev s \<and> tablet_dev t = tablet_dev s"
  by (cases s; cases t) (simp add: same_input_def)

text \<open>
  A device that starts has its queue filled; one that does not is left as it was. Other devices are
  not touched.
\<close>

definition running :: "u64 \<Rightarrow> device \<Rightarrow> nat \<Rightarrow> 'a virtio_state_scheme \<Rightarrow> bool" where
  "running bufs rd d s \<longleftrightarrow> active (devices s ! d) \<and>
     (\<exists>m log b da aa ua. m \<noteq> 0 \<and> m = rd log b VIRTIO_MMIO_QUEUE_NUM_MAX \<and>
        queues (devices s ! d) ! 0 = refill_queue bufs (virtq_make b 0 (granted m) da aa ua))"

lemma start_device_spec:
  assumes "start_device rd (Some d) bufs s = (ok, s')" and d: "d < length (devices s)" "queues (devices s ! d) \<noteq> []"
  shows "num_devices s' = num_devices s" "virtio_state.more s' = virtio_state.more s" "length (devices s') = length (devices s)"
    "\<And>e. e \<noteq> d \<Longrightarrow> devices s' ! e = devices s ! e" "length (queues (devices s' ! d)) = length (queues (devices s ! d))"
    "ok \<Longrightarrow> running bufs rd d s'"
proof -
  obtain r s1 where i: "virtio_dev_init rd d 1 s = (r, s1)" by (cases "virtio_dev_init rd d 1 s")
  have "num_devices s' = num_devices s \<and> virtio_state.more s' = virtio_state.more s \<and> length (devices s') = length (devices s) \<and>
    (\<forall>e. e \<noteq> d \<longrightarrow> devices s' ! e = devices s ! e) \<and> length (queues (devices s' ! d)) = length (queues (devices s ! d)) \<and> (ok \<longrightarrow> running bufs rd d s')"
    using i d(1)
  proof (cases rule: virtio_dev_init_outcome)
    case fail
    then show ?thesis using assms(1) by (simp add: start_device_def i [unfolded One_nat_def])
  next
    case (ok m log da aa ua)
    have s': "s' = refill_event_queue d bufs s1" using assms(1) ok(1) by (simp add: start_device_def i [unfolded One_nat_def])
    have "queues (devices s' ! d) ! 0 = refill_queue bufs (virtq_make (base (devices s ! d)) 0 (granted m) da aa ua)" "active (devices s' ! d)"
      using ok d by (simp_all add: s' refill_event_queue_def set_queue_def virtq_kick_def frame_simps Let_def)
    then have "running bufs rd d s'" unfolding running_def using ok(2,3) by blast
    then show ?thesis
      using ok d by (simp add: s' refill_event_queue_def set_queue_def virtq_kick_def frame_simps Let_def)
  qed
  then show "num_devices s' = num_devices s" "virtio_state.more s' = virtio_state.more s" "length (devices s') = length (devices s)"
    "\<And>e. e \<noteq> d \<Longrightarrow> devices s' ! e = devices s ! e" "length (queues (devices s' ! d)) = length (queues (devices s ! d))"
    "ok \<Longrightarrow> running bufs rd d s'" by blast+
qed


definition devs_ok :: "'a virtio_state_scheme \<Rightarrow> bool" where
  "devs_ok s \<longleftrightarrow> num_devices s \<le> length (devices s) \<and> list_all (\<lambda>dev. queues dev \<noteq> []) (devices s)"

text \<open>Queue sizes that the virtio specification allows: powers of two.\<close>

definition sizes_ok :: "device \<Rightarrow> bool" where
  "sizes_ok rd \<longleftrightarrow> (\<forall>log b. rd log b VIRTIO_MMIO_QUEUE_NUM_MAX \<noteq> 0 \<longrightarrow> queue_size (granted (rd log b VIRTIO_MMIO_QUEUE_NUM_MAX)))"

lemma devs_ok_start:
  assumes "start_device rd (Some d) bufs s = (ok, s')" "devs_ok s" "d < length (devices s)"
  shows "devs_ok s'"
proof -
  have q: "queues (devices s ! e) \<noteq> []" if "e < length (devices s)" for e using assms(2) that by (simp add: devs_ok_def list_all_length)
  note sp = start_device_spec [OF assms(1,3) q [OF assms(3)]]
  have "queues (devices s' ! e) \<noteq> []" if "e < length (devices s)" for e
    using sp(4,5) q [OF that] q [OF assms(3)] by (cases "e = d") auto
  then show ?thesis using assms(2) sp(1,3) by (simp add: devs_ok_def list_all_length)
qed

text \<open>One of the two devices starts, or its pointer is cleared; the other is as before.\<close>

lemma start_kbd:
  assumes "assigned {..<length (devices s)} s" "devs_ok s" and r: "start_device rd (kbd_dev s) bufs s = (ok, t)"
    and s': "s' = (if ok then t else t\<lparr>kbd_dev := None\<rparr>)"
  shows "assigned {..<length (devices s')} s'" "devs_ok s'" "same_input s' s" "tablet_dev s' = tablet_dev s"
    "\<And>d. kbd_dev s' = Some d \<Longrightarrow> running bufs rd d s'"
proof -
  have "assigned {..<length (devices s')} s' \<and> devs_ok s' \<and> same_input s' s \<and> tablet_dev s' = tablet_dev s \<and>
    (\<forall>d. kbd_dev s' = Some d \<longrightarrow> running bufs rd d s')"
  proof (cases "kbd_dev s")
    case None
    then show ?thesis using assms by (simp add: start_device_def same_input_def devs_ok_def assigned_def)
  next
    case (Some d)
    then have d: "d < length (devices s)" "queues (devices s ! d) \<noteq> []"
      using assms(1,2) by (auto simp: assigned_def devs_ok_def list_all_length)
    note sp = start_device_spec [OF r [unfolded Some] d]
    have "devs_ok t" using devs_ok_start [OF r [unfolded Some] assms(2) d(1)] .
    moreover have "same_input t s \<and> kbd_dev t = kbd_dev s \<and> tablet_dev t = tablet_dev s" using same_input_more sp(1,2) by blast
    ultimately show ?thesis
      using assms(1) Some s' sp(3,6) by (auto simp: assigned_def devs_ok_def same_input_def)
  qed
  then show "assigned {..<length (devices s')} s'" "devs_ok s'" "same_input s' s" "tablet_dev s' = tablet_dev s"
    "\<And>d. kbd_dev s' = Some d \<Longrightarrow> running bufs rd d s'" by blast+
qed

lemma start_tablet:
  assumes "assigned {..<length (devices s)} s" "devs_ok s" and r: "start_device rd (tablet_dev s) bufs s = (ok, t)"
    and s': "s' = (if ok then t else t\<lparr>tablet_dev := None\<rparr>)"
  shows "assigned {..<length (devices s')} s'" "devs_ok s'" "same_input s' s" "kbd_dev s' = kbd_dev s"
    "\<And>d. kbd_dev s = Some d \<Longrightarrow> devices s' ! d = devices s ! d"
proof -
  have "assigned {..<length (devices s')} s' \<and> devs_ok s' \<and> same_input s' s \<and> kbd_dev s' = kbd_dev s \<and>
    (\<forall>d. kbd_dev s = Some d \<longrightarrow> devices s' ! d = devices s ! d)"
  proof (cases "tablet_dev s")
    case None
    then show ?thesis using assms by (simp add: start_device_def same_input_def devs_ok_def assigned_def)
  next
    case (Some d)
    then have d: "d < length (devices s)" "queues (devices s ! d) \<noteq> []"
      using assms(1,2) by (auto simp: assigned_def devs_ok_def list_all_length)
    note sp = start_device_spec [OF r [unfolded Some] d]
    have "devs_ok t" using devs_ok_start [OF r [unfolded Some] assms(2) d(1)] .
    moreover have "same_input t s \<and> kbd_dev t = kbd_dev s \<and> tablet_dev t = tablet_dev s" using same_input_more sp(1,2) by blast
    ultimately show ?thesis
      using assms(1) Some s' sp(3,4) by (auto simp: assigned_def devs_ok_def same_input_def)
  qed
  then show "assigned {..<length (devices s')} s'" "devs_ok s'" "same_input s' s" "kbd_dev s' = kbd_dev s"
    "\<And>d. kbd_dev s = Some d \<Longrightarrow> devices s' ! d = devices s ! d" by blast+
qed


section \<open>Properties\<close>

text \<open>
  \<^verbatim>\<open>virtio_input_init\<close> always returns: the search for input devices ends. It reports failure exactly
  when neither device could be started. A keyboard it keeps is active, its queue has a size the
  specification allows and offers every event buffer to the device, and no key is waiting; starting the
  tablet afterwards does not disturb it.
\<close>

theorem virtio_input_init_starts:
  assumes "devs_ok s" "sizes_ok rd" "length (kbd_events s) = 16" "length (key_ring s) = 32"
  shows "\<exists>r s'. virtio_input_init rd junk kbd_bufs tablet_bufs s = Some (r, s') \<and>
    (r = 0 \<longleftrightarrow> kbd_dev s' \<noteq> None \<or> tablet_dev s' \<noteq> None) \<and> (kbd_dev s' = None \<or> kbd_dev s' \<noteq> tablet_dev s') \<and>
    (kbd_dev s' = None \<or> (\<exists>n. queue_size n \<and> kbd_started kbd_bufs n s'))"
proof -
  let ?s0 = "s\<lparr>key_ring_head := 0, key_ring_tail := 0, mouse_x := FB_WIDTH div 2, mouse_y := FB_HEIGHT div 2,
        mouse_btns := 0, shift_held := False, kbd_dev := None, tablet_dev := None\<rparr>"
  have "assigned (set (take 0 (found_devs VIRTIO_DEV_INPUT ?s0))) ?s0" by (simp add: assigned_def)
  from identify_loop_ends [OF this, of rd junk] obtain s1 where
    s1: "identify_loop rd junk 0 ?s0 = Some s1" "devices s1 = devices s" "same_input s1 ?s0" "assigned (set (found_devs VIRTIO_DEV_INPUT ?s0)) s1"
    by auto
  have "set (found_devs VIRTIO_DEV_INPUT ?s0) \<subseteq> {..<length (devices s)}" using assms(1) by (auto simp: found_devs_def devs_ok_def)
  then have a1: "assigned {..<length (devices s1)} s1" "devs_ok s1"
    using s1(2-4) assms(1) by (auto simp: assigned_def devs_ok_def same_input_def)
  obtain k s2 where k: "start_device rd (kbd_dev s1) kbd_bufs s1 = (k, s2)" by (cases "start_device rd (kbd_dev s1) kbd_bufs s1")
  define s3 where "s3 = (if k then s2 else s2\<lparr>kbd_dev := None\<rparr>)"
  note K = start_kbd [OF a1 k s3_def]
  obtain u s4 where u: "start_device rd (tablet_dev s3) tablet_bufs s3 = (u, s4)" by (cases "start_device rd (tablet_dev s3) tablet_bufs s3")
  define s5 where "s5 = (if u then s4 else s4\<lparr>tablet_dev := None\<rparr>)"
  note U = start_tablet [OF K(1,2) u s5_def]
  have res: "virtio_input_init rd junk kbd_bufs tablet_bufs s = Some (if kbd_dev s5 = None \<and> tablet_dev s5 = None then -1 else 0, s5)"
    unfolding virtio_input_init_def s1(1) by (simp add: k u s3_def [symmetric] s5_def [symmetric])
  have same: "same_input s5 ?s0" using same_input_trans U(3) K(3) s1(3) by blast
  have "\<exists>n. queue_size n \<and> kbd_started kbd_bufs n s5" if d: "kbd_dev s5 = Some d" for d
  proof -
    have "running kbd_bufs rd d s3" "devices s5 ! d = devices s3 ! d" using K(5) U(4,5) d by auto
    then obtain m log b da aa ua where "active (devices s5 ! d)" "m \<noteq> 0" "m = rd log b VIRTIO_MMIO_QUEUE_NUM_MAX"
      "queues (devices s5 ! d) ! 0 = refill_queue kbd_bufs (virtq_make b 0 (granted m) da aa ua)"
      by (auto simp: running_def)
    moreover have "d < length (devices s5)" "queues (devices s5 ! d) \<noteq> []"
      using U(1,2) d by (auto simp: assigned_def devs_ok_def list_all_length)
    ultimately show ?thesis
      using same d assms(2-4) unfolding kbd_started_def kbd_queue_def sizes_ok_def
      by (intro exI [of _ "granted m"]) (auto simp: same_input_def, blast)
  qed
  moreover have "kbd_dev s5 = None \<or> kbd_dev s5 \<noteq> tablet_dev s5" using U(1) by (cases "kbd_dev s5") (auto simp: assigned_def)
  ultimately have "kbd_dev s5 = None \<or> kbd_dev s5 \<noteq> tablet_dev s5" "kbd_dev s5 = None \<or> (\<exists>n. queue_size n \<and> kbd_started kbd_bufs n s5)"
    by (cases "kbd_dev s5"; simp)+
  then show ?thesis using res
    by (intro exI [of _ "if kbd_dev s5 = None \<and> tablet_dev s5 = None then -1 else 0"] exI [of _ s5] conjI) auto
qed



text \<open>A machine with one input device, started with a queue of one entry.\<close>

definition input_boot :: vinput_state where
  "input_boot = \<lparr>page_bitmap = page_bitmap mm_boot, total_pages = total_pages mm_boot, used_pages = used_pages mm_boot, mem = mem mm_boot,
     devices = [a_dev\<lparr>queues := [refill_queue 0 a_queue], active := True\<rparr>], num_devices = 1, bus = [],
     kbd_events = replicate 16 \<lparr>ev_type = 0, ev_code = 0, ev_value = 0\<rparr>, tablet_events = replicate 16 \<lparr>ev_type = 0, ev_code = 0, ev_value = 0\<rparr>,
     kbd_dev = Some 0, tablet_dev = Some 0, key_ring = replicate 32 0, key_ring_head = 0, key_ring_tail = 0,
     mouse_x = 320, mouse_y = 240, mouse_btns = 0, shift_held = False\<rparr>"

lemma queue_size_1: "queue_size 1"
  by (simp add: queue_size_def)

lemma boot_queue: "avail_idx (refill_queue 0 a_queue) = 1" "avail_ring (refill_queue 0 a_queue) ! 0 = 0" "num (refill_queue 0 a_queue) = 1"
proof -
  have "filled 0 1 16 (refill_queue 0 a_queue)"
    unfolding a_queue_def refill_queue_def EVENT_BUF_COUNT_def
    by (rule for_loop_inv [where P = "filled 0 1"]) (simp_all add: filled_start filled_push queue_size_1 [simplified])
  then show "avail_idx (refill_queue 0 a_queue) = 1" "avail_ring (refill_queue 0 a_queue) ! 0 = 0" "num (refill_queue 0 a_queue) = 1"
    by (simp_all add: filled_def)
qed

definition key_a :: virtio_input_event where
  "key_a = \<lparr>ev_type = 1, ev_code = 30, ev_value = 1\<rparr>"

lemma key_a_spec: "spec_step (Poll key) \<lparr>unseen = [(key_a, 8)], waiting = [], shifted = False\<rparr> \<noteq> None \<longleftrightarrow> key = 97"
  by (simp add: key_a_def spec_event_def deliver_def EVENT_SIZE_def EV_KEY_def key_of_def keycode_table_def designated_def Let_def)

lemma input_boot_started: "kbd_started 0 1 input_boot"
  unfolding kbd_started_def kbd_queue_def
  by (intro conjI exI [of _ 0]) (simp_all add: input_boot_def a_queue_def)


theorem virtio_input_init_starts_witness:
  "\<exists>r s'. virtio_input_init (\<lambda>_ _ _. 8) (\<lambda>_. []) 0 0 input_boot = Some (r, s') \<and> (r = 0 \<longleftrightarrow> kbd_dev s' \<noteq> None \<or> tablet_dev s' \<noteq> None)"
proof -
  have "devs_ok input_boot" "length (kbd_events input_boot) = 16" "length (key_ring input_boot) = 32"
    by (simp_all add: devs_ok_def input_boot_def)
  moreover have "sizes_ok (\<lambda>_ _ _. 8)" by (simp add: sizes_ok_def queue_size_def granted_def)
  ultimately show ?thesis using virtio_input_init_starts [of input_boot "\<lambda>_ _ _. 8" "\<lambda>_. []" 0 0] by blast
qed


section \<open>The mouse\<close>

definition on_screen :: "'a vinput_state_scheme \<Rightarrow> bool" where
  "on_screen s \<longleftrightarrow> 0 \<le> mouse_x s \<and> mouse_x s < FB_WIDTH \<and> 0 \<le> mouse_y s \<and> mouse_y s < FB_HEIGHT"

lemma scale_abs_bounds:
  assumes "0 < extent"
  shows "0 \<le> scale_abs v extent" "scale_abs v extent < extent"
proof -
  define w where "w = min TABLET_ABS_MAX (max 0 v)"
  have w: "0 \<le> w" "w \<le> TABLET_ABS_MAX" by (simp_all add: w_def TABLET_ABS_MAX_def)
  have "scale_abs v extent = (w * (extent - 1)) sdiv TABLET_ABS_MAX"
    by (auto simp: scale_abs_def Let_def w_def min_def max_def TABLET_ABS_MAX_def)
  also have "\<dots> = (w * (extent - 1)) div TABLET_ABS_MAX"
    using w(1) assms by (simp add: signed_divide_int_def sgn_if TABLET_ABS_MAX_def)
  finally have eq: "scale_abs v extent = (w * (extent - 1)) div TABLET_ABS_MAX" .
  have "(w * (extent - 1)) div TABLET_ABS_MAX \<le> (TABLET_ABS_MAX * (extent - 1)) div TABLET_ABS_MAX"
    using w assms by (intro zdiv_mono1 mult_right_mono) (simp_all add: TABLET_ABS_MAX_def)
  then show "scale_abs v extent < extent" by (simp add: eq TABLET_ABS_MAX_def)
  show "0 \<le> scale_abs v extent" using w(1) assms by (simp add: eq TABLET_ABS_MAX_def pos_imp_zdiv_nonneg_iff)
qed

lemma clip_rel_bounds: "0 < extent \<Longrightarrow> 0 \<le> clip_rel p extent" "0 < extent \<Longrightarrow> clip_rel p extent < extent"
  by (simp_all add: clip_rel_def Let_def)

lemma on_screen_updates:
  assumes "on_screen s"
  shows "on_screen (s\<lparr>mouse_x := scale_abs v FB_WIDTH\<rparr>)" "on_screen (s\<lparr>mouse_y := scale_abs v FB_HEIGHT\<rparr>)"
    "on_screen (s\<lparr>mouse_x := clip_rel v FB_WIDTH\<rparr>)" "on_screen (s\<lparr>mouse_y := clip_rel v FB_HEIGHT\<rparr>)" "on_screen (s\<lparr>mouse_btns := b\<rparr>)"
proof -
  have "0 < FB_WIDTH" "0 < FB_HEIGHT" by (simp_all add: FB_WIDTH_def FB_HEIGHT_def)
  then show "on_screen (s\<lparr>mouse_x := scale_abs v FB_WIDTH\<rparr>)" "on_screen (s\<lparr>mouse_y := scale_abs v FB_HEIGHT\<rparr>)"
    "on_screen (s\<lparr>mouse_x := clip_rel v FB_WIDTH\<rparr>)" "on_screen (s\<lparr>mouse_y := clip_rel v FB_HEIGHT\<rparr>)" "on_screen (s\<lparr>mouse_btns := b\<rparr>)"
    using assms by (simp_all add: on_screen_def scale_abs_bounds clip_rel_bounds)
qed

lemma on_screen_if: "(c \<Longrightarrow> on_screen s) \<Longrightarrow> (\<not> c \<Longrightarrow> on_screen t) \<Longrightarrow> on_screen (if c then s else t)"
  by simp

lemma process_tablet_on_screen: "on_screen s \<Longrightarrow> on_screen (process_tablet_event ev s)"
  unfolding process_tablet_event_def Let_def by (intro on_screen_if on_screen_updates)

lemma deliver_tablet_on_screen: "on_screen s \<Longrightarrow> on_screen (fold (deliver process_tablet_event) evs s)"
  by (induction evs arbitrary: s) (auto simp: deliver_def process_tablet_on_screen split: prod.split)

text \<open>
  \<^verbatim>\<open>virtio_mouse_poll\<close> returns, hands every reported event to \<^verbatim>\<open>process_tablet_event\<close> once and in order, and
  the position it gives lies on the screen, whatever values the events carry: absolute ones beyond the
  tablet's range, or relative ones for which the sum wraps around.
\<close>

theorem virtio_mouse_on_screen:
  assumes d: "tablet_dev s = Some d" "active (devices s ! d)" "on_screen s"
    and q: "queue_inv bufs n (queues (devices s ! d) ! 0) (tablet_events s) dv pend"
  shows "\<exists>x y b s'. virtio_mouse_poll bufs s = Some ((x, y, b), s') \<and> 0 \<le> x \<and> x < 640 \<and> 0 \<le> y \<and> y < 480 \<and>
    (let t = fold (deliver process_tablet_event) pend s in x = mouse_x t \<and> y = mouse_y t \<and> b = mouse_btns t)"
proof -
  define t where "t = fold (deliver process_tablet_event) pend s"
  obtain vq where "drain_loop process_tablet_event bufs (tablet_events s) (queues (devices s ! d) ! 0) s 0 = Some (vq, t, length pend)"
    using queue_drain [OF q, of process_tablet_event s] unfolding t_def by metis
  then obtain s' where poll: "virtio_mouse_poll bufs s = Some ((mouse_x s', mouse_y s', mouse_btns s'), s')"
    and s': "s' = (let s2 = set_queue d vq t in if length pend > 0 then virtq_kick vq s2 else s2)"
    using d by (simp add: virtio_mouse_poll_def drain_events_def)
  have eq: "mouse_x s' = mouse_x t" "mouse_y s' = mouse_y t" "mouse_btns s' = mouse_btns t"
    by (simp_all add: s' Let_def virtq_kick_def vio_write_def set_queue_def upd_dev_def)
  have "on_screen t" unfolding t_def by (rule deliver_tablet_on_screen) (rule d(3))
  then show ?thesis using poll by (simp add: eq t_def on_screen_def FB_WIDTH_def FB_HEIGHT_def Let_def)
qed

theorem virtio_mouse_on_screen_witness:
  "\<exists>(s :: vinput_state) s' y b. virtio_mouse_poll 0 s = Some ((639, y, b), s')"
proof -
  let ?vq = "refill_queue 0 a_queue" and ?ev = "\<lparr>ev_type = 3, ev_code = 0, ev_value = 0x7FFFFFFF\<rparr>"
  have "queue_inv 0 1 ?vq (tablet_events input_boot) (0, []) []"
    unfolding a_queue_def by (rule queue_start) (simp_all add: queue_size_1 [simplified] input_boot_def)
  then have "queue_inv 0 1 ?vq (tablet_events input_boot) (1, [0]) []"
    using queue_fetch [of 0 1 ?vq "tablet_events input_boot" "(0, [])" "[]"] boot_queue by (simp add: dev_fetch_def)
  from queue_report [OF this, of 0 8 ?ev] have q: "queue_inv 0 1 (dev_report 0 8 ?vq) (dev_store 0 ?vq 0 ?ev (tablet_events input_boot)) (1, []) [(?ev, 8)]"
    by simp
  let ?s = "input_boot\<lparr>devices := [a_dev\<lparr>queues := [dev_report 0 8 ?vq], active := True\<rparr>],
     tablet_events := dev_store 0 ?vq 0 ?ev (tablet_events input_boot)\<rparr>"
  have "tablet_dev ?s = Some 0" "active (devices ?s ! 0)" "on_screen ?s"
    "queue_inv 0 1 (queues (devices ?s ! 0) ! 0) (tablet_events ?s) (1, []) [(?ev, 8)]"
    using q by (simp_all add: input_boot_def on_screen_def FB_WIDTH_def FB_HEIGHT_def)
  from virtio_mouse_on_screen [OF this] show ?thesis
    by (auto simp: deliver_def EVENT_SIZE_def process_tablet_event_def EV_SYN_def EV_ABS_def ABS_X_def EV_REL_def EV_KEY_def
        scale_abs_def TABLET_ABS_MAX_def FB_WIDTH_def signed_divide_int_def Let_def)
qed

end
