(* ===== verification/Input_Devices.thy ===== *)
theory Input_Devices
  imports Virtio_Input
begin

text \<open>
  The input layer on the virtio driver: \<^verbatim>\<open>input_init\<close>, \<^verbatim>\<open>input_poll\<close> and \<^verbatim>\<open>mouse_get_state\<close> of \<^verbatim>\<open>kernel/input.c\<close> with the
  calls of \<^verbatim>\<open>virtio_probe\<close>, \<^verbatim>\<open>virtio_input_init\<close>, \<^verbatim>\<open>virtio_kbd_poll\<close> and \<^verbatim>\<open>virtio_mouse_poll\<close> they make, on the states of
  both components. \<open>None\<close> is a call that does not return.
\<close>

section \<open>The calls\<close>

text \<open>Without a device \<^verbatim>\<open>virtio_input_init\<close> is not called.\<close>

definition init_devices ::
  "device \<Rightarrow> (nat \<Rightarrow> string) \<Rightarrow> u64 \<Rightarrow> u64 \<Rightarrow> input_state \<times> vinput_state \<Rightarrow> (input_state \<times> vinput_state) option" where
  "init_devices rd junk kbd_bufs tablet_bufs = (\<lambda>(i, s).
     (case virtio_probe rd s of
        (n, s1) \<Rightarrow>
          if n > 0
          then map_option (\<lambda>(r, s2). (input_init (int n) r i, s2)) (virtio_input_init rd junk kbd_bufs tablet_bufs s1)
          else Some (input_init 0 0 i, s1)))"

text \<open>\<open>fr\<close> and \<open>dr\<close> are the registers of the serial port, for the case that it is read.\<close>

definition poll_devices :: "u64 \<Rightarrow> u32 \<Rightarrow> u32 \<Rightarrow> input_state \<times> vinput_state \<Rightarrow> (int \<times> input_state \<times> vinput_state) option" where
  "poll_devices kbd_bufs fr dr = (\<lambda>(i, s).
     if virtio_available i
     then map_option (\<lambda>(key, s1). case input_poll key fr dr i of (r, i1) \<Rightarrow> (r, i1, s1)) (virtio_kbd_poll kbd_bufs s)
     else case input_poll KEY_NONE fr dr i of (r, i1) \<Rightarrow> Some (r, i1, s))"

definition mouse_of_devices :: "u64 \<Rightarrow> input_state \<times> vinput_state \<Rightarrow> ((int \<times> int \<times> int) \<times> input_state \<times> vinput_state) option" where
  "mouse_of_devices tablet_bufs = (\<lambda>(i, s).
     if virtio_available i
     then map_option (\<lambda>(mouse, s1). (mouse_get_state mouse i, i, s1)) (virtio_mouse_poll tablet_bufs s)
     else Some (mouse_get_state (0, 0, 0) i, i, s))"

section \<open>Probing\<close>

text \<open>Probing fills the table from the front and keeps what the driver relies on.\<close>

lemma probe_slot_devs:
  assumes "num_devices s < length (devices s)" "\<forall>dev \<in> set (devices s). queues dev \<noteq> []"
  shows "num_devices (probe_slot rd i s) \<le> length (devices s)" "length (devices (probe_slot rd i s)) = length (devices s)"
    "\<forall>dev \<in> set (devices (probe_slot rd i s)). queues dev \<noteq> []"
    "virtio_state.more (probe_slot rd i s) = virtio_state.more s"
  using assms by (auto simp: probe_slot_def Let_def upd_dev_def dest!: set_update_subset_insert [THEN subsetD])

lemma virtio_probe_devs:
  assumes "length (devices s) = VIRTIO_MAX_DEVS" "\<forall>dev \<in> set (devices s). queues dev \<noteq> []" and p: "virtio_probe rd s = (n, s1)"
  shows "devs_ok s1" "num_devices s1 = n" "virtio_state.more s1 = virtio_state.more s"
proof -
  let ?f = "\<lambda>i s. if num_devices s < VIRTIO_MAX_DEVS then probe_slot rd i s else s"
  let ?P = "\<lambda>_ t. num_devices t \<le> VIRTIO_MAX_DEVS \<and> length (devices t) = VIRTIO_MAX_DEVS \<and> (\<forall>dev \<in> set (devices t). queues dev \<noteq> []) \<and>
    virtio_state.more t = virtio_state.more s"
  have "?P VIRTIO_MMIO_SLOTS (for_loop 0 VIRTIO_MMIO_SLOTS ?f (s\<lparr>num_devices := 0\<rparr>))"
  proof (rule for_loop_inv [where P = ?P])
    show "?P (Suc j) (?f j t)" if "?P j t" for j t
      using that probe_slot_devs [of t rd j] by auto
  qed (use assms in simp_all)
  then show "devs_ok s1" "num_devices s1 = n" "virtio_state.more s1 = virtio_state.more s"
    using p by (auto simp: virtio_probe_def Let_def devs_ok_def list_all_iff)
qed

section \<open>From the key that is pressed to the program that polls\<close>

lemma same_more:
  assumes "virtio_state.more t = virtio_state.more s"
  shows "kbd_events t = kbd_events s" "key_ring t = key_ring (s :: vinput_state)"
  using assms by (cases s; cases t; simp)+

lemma init_devices_starts:
  assumes "length (devices s) = VIRTIO_MAX_DEVS" "\<forall>dev \<in> set (devices s). queues dev \<noteq> []" "sizes_ok rd"
    and "length (kbd_events s) = 16" "length (key_ring s) = 32"
  obtains i' s' where "init_devices rd junk kb tb (i, s) = Some (i', s')" "esc_state i' = 0"
    "virtio_available i' \<longleftrightarrow> fst (virtio_probe rd s) > 0 \<and> (kbd_dev s' \<noteq> None \<or> tablet_dev s' \<noteq> None)"
    "virtio_available i' \<longrightarrow> kbd_dev s' = None \<or> (\<exists>n. queue_size n \<and> kbd_started kb n s')"
proof -
  obtain n s1 where p: "virtio_probe rd s = (n, s1)" by (cases "virtio_probe rd s")
  note P = virtio_probe_devs [OF assms(1,2) p] and M = same_more [OF virtio_probe_devs(3) [OF assms(1,2) p]]
  show thesis
  proof (cases "n > 0")
    case True
    obtain r s2 where r: "virtio_input_init rd junk kb tb s1 = Some (r, s2)" "r = 0 \<longleftrightarrow> kbd_dev s2 \<noteq> None \<or> tablet_dev s2 \<noteq> None"
      "kbd_dev s2 = None \<or> (\<exists>n. queue_size n \<and> kbd_started kb n s2)"
      using virtio_input_init_starts [OF P(1) assms(3), of junk kb tb] assms(4,5) M by auto
    show thesis
      by (rule that [of "input_init (int n) r i" s2]) (use True r p in \<open>simp_all add: init_devices_def input_init_def Let_def\<close>)
  next
    case False
    show thesis
      by (rule that [of "input_init 0 0 i" s1]) (use False p in \<open>simp_all add: init_devices_def input_init_def Let_def\<close>)
  qed
qed

lemma poll_devices_key:
  assumes "virtio_available i" "virtio_kbd_poll kb s = Some (key, s')"
  shows "poll_devices kb fr dr (i, s) =
    (if key \<noteq> KEY_NONE then Some (key, i, s') else case uart_poll fr dr i of (r, i1) \<Rightarrow> Some (r, i1, s'))"
  using assms by (simp add: poll_devices_def input_poll_def split: prod.split)

section \<open>The input layer as a whole\<close>


text \<open>A machine with eight empty device entries, and registers of slots that hold an input device each.\<close>

definition input_bare :: vinput_state where
  "input_bare = input_boot\<lparr>devices := replicate VIRTIO_MAX_DEVS a_dev, num_devices := 0\<rparr>"


end
