(* ===== verification/Spec2Isabelle.thy ===== *)
theory Spec2Isabelle
  imports Kernel_Run Spinlock Compat Fb Game_Run Input_Devices
begin

text \<open>
  Verification of the Dragoon microkernel (ARM64, C): the kernel, its drivers and desktop under
  \<^verbatim>\<open>kernel/\<close>, the four games under \<^verbatim>\<open>games/\<close>, the Linux compatibility layer under \<^verbatim>\<open>linux/\<close> and its test driver
  under \<^verbatim>\<open>drivers/hello/\<close>.

  \<^bold>\<open>The program.\<close> \<^verbatim>\<open>kernel_main\<close> builds the page tables, turns the MMU on, initialises the interrupt controller, the
  timer, the pools of capabilities, tasks, endpoints, wait-queue entries and futexes, creates three kernel
  tasks (compatibility server, demo, desktop), starts the other CPUs and enters the scheduler. Tasks have an
  address space each, and block in wait queues, futexes and message endpoints until another task or the timer
  makes them ready. The desktop task draws windows through the window manager and the graphics primitives
  into a frame buffer of QEMU's ramfb device, runs a terminal and the games in the windows, and reads keys
  and mouse from virtio devices, or keys from the serial port.

  \<^bold>\<open>How C is read.\<close> Machine integers are words of their width where they can wrap around or are worked on bit by
  bit; loop counters, table indices and screen coordinates whose bounds are proved or evident are natural
  numbers and integers, with the casts to 32 bits written out where values do not fit. The static variables of a
  component are a record; records extend each other in the order in which components build on each other,
  so that an operation of a lower component works on the states of all higher ones: \<open>mm_state\<close>, \<open>vm_state\<close>, \<open>cap_state\<close>,
  \<open>task_state\<close>, \<open>sched_state\<close>, \<open>wq_state\<close>, \<open>irq_state\<close>, \<open>futex_state\<close>, \<open>ipc_state\<close> on the kernel's side (with \<open>compat_state\<close> beside
  \<open>futex_state\<close>), \<open>mm_state\<close>, \<open>gpu_state\<close>, \<open>wm_state\<close> on the desktop's, \<open>mm_state\<close>, \<open>virtio_state\<close>, \<open>vinput_state\<close> on that of the
  drivers. A C function is a definition of the same name from the old state to result and new
  state. A null pointer is \<open>0\<close> where the address matters and \<open>None\<close> where only the presence does; failure codes are
  the integers of the code. What is not the program's own is an argument: values read from device
  registers, the clock, firmware calls, addresses chosen by the linker, functions called through a
  pointer, the user word of a futex. Code under a spin lock is one step; the lock itself has a theory
  with a step for each memory access. A call that blocks is split at its call of \<^verbatim>\<open>schedule\<close>.

  \<^bold>\<open>Theories of the kernel.\<close>
  \<^item> \<open>Dragoon_Prelude\<close>: names of the integer types (\<^verbatim>\<open>kernel/types.h\<close>), the search for the first index with a
    property, \<open>for_loop\<close>, bits of bitmaps, and the locale \<open>slot_pool\<close>: what a pool of numbered slots promises its
    clients. It is interpreted for pages, ASIDs, capabilities, wait-queue entries and endpoints.
  \<^item> \<open>Mm\<close> (\<^verbatim>\<open>kernel/mm.c\<close>): bitmap, counters and memory in 8-byte cells. An allocated page is the lowest free one
    and all zero, runs are first fit, freeing gives back what was taken, the counter is the number of
    used pages. \<open>Bytes\<close>: \<^verbatim>\<open>memcpy\<close>, \<^verbatim>\<open>memset\<close> and \<^verbatim>\<open>memcmp\<close> on the bytes of these cells.
  \<^item> \<open>Page_Tables\<close> (\<^verbatim>\<open>mm_create_page_tables\<close>, \<^verbatim>\<open>mm_map_page\<close>) with \<open>walk\<close> and \<open>translate\<close>, the way the hardware reads the
    tables; the shape invariant of trees of tables. \<open>Mmu\<close>: the system registers set by \<^verbatim>\<open>mm_enable_mmu\<close> and
    \<^verbatim>\<open>secondary_mmu_init\<close>, and what a CPU with these registers accesses at each address.
  \<^item> \<open>Vm\<close> (\<^verbatim>\<open>kernel/vm.c\<close>): ASIDs, creation and destruction of an address space without loss of a page.
  \<^item> \<open>Cap\<close> (\<^verbatim>\<open>kernel/cap.c\<close>): the pool implements a finite map from indices to capabilities.
  \<^item> \<open>Task\<close> (\<^verbatim>\<open>kernel/task.c\<close>, \<^verbatim>\<open>kernel/percpu.h\<close>): the system invariant \<open>sys_inv\<close>, in which a label of every page
    says who owns it (kernel, stack or tables of one task, free); creation and destruction keep it and
    undo each other, a creation that fails leaves nothing behind.
  \<^item> \<open>Sched\<close> (\<^verbatim>\<open>kernel/sched.c\<close>, \<^verbatim>\<open>context_switch\<close> of \<^verbatim>\<open>kernel/vectors.S\<close>): the choice of the next task in turn, the
    register file of a CPU, no starvation within one round.
  \<^item> \<open>Waitqueue\<close> (\<^verbatim>\<open>kernel/waitqueue.c\<close>, \<^verbatim>\<open>kernel/sleep.c\<close>): linked lists in a pool, shown to be the lines of waiting tasks
    in order of arrival; \<open>Irq\<close> (\<^verbatim>\<open>kernel/irq.c\<close>, \<^verbatim>\<open>kernel/timer.c\<close>, \<^verbatim>\<open>kernel/smp.c\<close>): trace of the register writes, dispatch,
    ticks, stacks of the secondary CPUs, and how long a sleeping task sleeps whatever else happens.
  \<^item> \<open>Futex\<close> (\<^verbatim>\<open>kernel/futex.c\<close>): slots as a map from addresses to lines of waiters, over the locale \<open>waiter_lines\<close> that
    the wait queues are an instance of; \<open>Ipc\<close> (\<^verbatim>\<open>kernel/ipc.c\<close>): endpoints, delivery of a message in either order of
    the two calls; \<open>Syscall\<close> (\<^verbatim>\<open>kernel/syscall.c\<close>): the dispatcher, every call of which keeps \<open>sys_inv\<close>.
  \<^item> \<open>Spinlock\<close> (\<^verbatim>\<open>kernel/spinlock.h\<close>): all interleavings of CPUs on a ticket lock; exclusion, service in order of
    tickets, restored interrupt masks.
  \<^item> \<open>Boot\<close> (\<^verbatim>\<open>kernel/main.c\<close>): the composition of all initialisations establishes the invariants of all components and
    leads into the demo task. \<open>Kernel_Run\<close>: the steps of the running kernel in any order; all states reached from the
    start keep these invariants, and every call that may be made returns.

  \<^bold>\<open>Theories of drivers and desktop.\<close>
  \<^item> \<open>Printf\<close> (\<^verbatim>\<open>kernel/printf.c\<close>): the scan of a format, against a specification that first parses it into pieces;
    \<open>Uart\<close> (\<^verbatim>\<open>kernel/uart.c\<close>): register writes, and that output returns as soon as the port drains.
  \<^item> \<open>Virtio\<close> (\<^verbatim>\<open>kernel/virtio.c\<close>): probing, negotiation, layout of the queues, push and pop; \<open>Virtio_Input\<close>
    (\<^verbatim>\<open>kernel/virtio_input.c\<close>): the keyboard driver, together with any device that keeps the virtio contract,
    implements the specification \<open>kbd_spec\<close>, a line of events and a line of keys; \<open>Input\<close> and \<open>Input_Devices\<close>
    (\<^verbatim>\<open>kernel/input.c\<close>): escape sequences of the serial port, and the layer composed with the driver.
  \<^item> \<open>Font\<close> (\<^verbatim>\<open>kernel/font.c\<close>) and \<open>Gpu\<close> (\<^verbatim>\<open>kernel/gpu.c\<close>): each drawing operation is the painting of a picture, a partial
    function from coordinates to colours, clipped to its target; a store outside a buffer would set \<open>fault\<close>.
  \<^item> \<open>Wm\<close>, \<open>Wm_Screen\<close> (\<^verbatim>\<open>kernel/wm.c\<close>): the slots and the stacking array implement a stack of windows; what a composed
    screen shows is the topmost window at each point, and a click selects it.
  \<^item> \<open>Terminal\<close>, \<open>Gui\<close> (\<^verbatim>\<open>kernel/gui.c\<close>): the terminal implements the last twenty lines and the typed text; a frame
    of the main loop keeps the invariant of the desktop and of all five applications. \<open>Fb\<close> (\<^verbatim>\<open>kernel/fb.c\<close>): the
    configuration found and sent to ramfb, and the start of the desktop on it.
  \<^item> \<open>Tetris\<close>, \<open>Snake\<close>, \<open>Breakout\<close>, \<open>Raycaster\<close> (\<^verbatim>\<open>games/\<close>): keys, ticks and drawing with the invariant of each game;
    \<open>Game_Run\<close>: their full-screen loops, four instances of the locale \<open>full_screen_loop\<close>.
  \<^item> \<open>Compat\<close> (\<^verbatim>\<open>linux/compat.c\<close>, \<^verbatim>\<open>linux/server.c\<close>, \<^verbatim>\<open>drivers/hello/hello.c\<close>): small allocations, platform devices and
    drivers, and the way of the test driver from its entry in the initcall table to its probed device.

  \<^bold>\<open>Loops and bounds.\<close> Loops whose end depends on data (links of a wait queue, used rings, \<open>streq\<close>, \<open>match_loop\<close>, the
  hard drop and the cleared lines of Tetris, polling the serial port) are partial functions, where \<open>None\<close>
  is a loop that does not end; the properties show that they return. Loops the code itself bounds carry that
  bound: 1000 attempts to place food, 64 steps of a ray, 1000000 polls of a DMA transfer. A run of the desktop
  or of a game is a list of frames or turns of any length. Queue sizes of a device are powers of two up to 16
  (\<open>sizes_ok\<close>), as the virtio specification demands; the static tables lie page-aligned in the image
  (\<open>layout_ok\<close>, with \<open>sample_layout\<close> as the concrete instance) and the stack of the boot CPU ends at \<open>0x40100000\<close>, below
  which 256 pages are taken at the start.

  \<^bold>\<open>Weaknesses shown.\<close> Some theorems state what the code does where it departs from its purpose: a second sender
  strands the first, a task woken before its switch can run on two CPUs, the gap of a futex wait loses a wake,
  \<^verbatim>\<open>kfree\<close> releases live blocks, a huge \<^verbatim>\<open>kmalloc\<close> wraps around, \<^verbatim>\<open>SYS_EXIT\<close> leaves the number of tasks too high, food is
  put under the snake, a ball sticks to a wall, the ray caster writes outside its window.

  \<^bold>\<open>Not modelled.\<close> The assembly of \<^verbatim>\<open>kernel/boot.S\<close> and the exception entries of \<^verbatim>\<open>kernel/vectors.S\<close>: register saving
  code whose meaning is that of the processor. \<^verbatim>\<open>exception_handler\<close>, which prints and halts, the messages of \<^verbatim>\<open>kprintf\<close>
  (its formatting is modelled), and the three yields with which the demo task ends. Caches, memory
  barriers and the reordering of accesses by the processor. Headers under \<^verbatim>\<open>linux/include/\<close> that only declare, alias or
  wrap one volatile access. Sections under different spin locks are not interleaved with each other, except where a
  theorem says so by splitting the call.
\<close>

end
